(* ===== verification/Prelude.thy ===== *)
theory Prelude
  imports Main "HOL-Library.Word"
begin

text \<open>
  Shared vocabulary of the development.

  \<^item> \<open>fault\<close> and \<open>'a run\<close>: the outcome of running a piece of kernel code. The kernel is
    built with \<open>CYANOS_KENREL\<close> defined, so a failed \<open>ASSERT\<close> (assert.h) is a kernel panic;
    an access that C++ leaves undefined (an index outside its array, a null pointer) and a
    use of storage that holds no object are faults of their own.
  \<^item> \<open>size_t\<close> is 32 bits wide on the i686 target. It is modelled by \<open>nat\<close> with the wrap-around
    written out in \<open>sz_add\<close>, \<open>sz_sub\<close> and \<open>sz_mul\<close>.
  \<^item> \<open>'a block\<close>: memory obtained from \<open>operator new\<close>, one slot per element, each slot
    raw or holding a live object; placement new, destructor calls, reads and assignments
    are checked against that state.
  \<^item> loops (\<open>for_up\<close>, \<open>for_down\<close>) with a total-correctness rule, and the predicate \<open>ok\<close>
    (\<open>the code runs without a fault and its result satisfies \<dots>\<close>) with its rewrite rules
    collected in \<open>run_simps\<close>.
\<close>

named_theorems run_simps \<open>rewriting ok over the constructs of the run monad\<close>
named_theorems sz_simps \<open>size_t arithmetic that does not wrap\<close>

section \<open>Faults and runs\<close>

datatype fault =
    AssertFailed  \<comment> \<open>\<open>ASSERT(x)\<close> with x false\<close>
  | NotReachable  \<comment> \<open>\<open>ASSERT_NOT_REACHABLE()\<close>\<close>
  | PanicCalled   \<comment> \<open>\<open>PANIC(...)\<close>\<close>
  | BadAccess     \<comment> \<open>null pointer or index outside the array\<close>
  | Lifetime      \<comment> \<open>object used before its construction or after its destruction\<close>
  | DivideError   \<comment> \<open>division by zero\<close>
  | OutOfFuel     \<comment> \<open>a loop of the model exceeded its iteration bound\<close>

type_synonym 'a run = "fault + 'a"

definition ASSERT :: "bool \<Rightarrow> unit run" where
  "ASSERT b = (if b then Inr () else Inl AssertFailed)"

fun bindr :: "'a run \<Rightarrow> ('a \<Rightarrow> 'b run) \<Rightarrow> 'b run" where
  "bindr (Inl e) f = Inl e"
| "bindr (Inr a) f = f a"

text \<open>\<open>assert_then b m\<close> is \<open>ASSERT(b); m\<close>.\<close>

definition assert_then :: "bool \<Rightarrow> 'a run \<Rightarrow> 'a run" where
  "assert_then b m = bindr (ASSERT b) (\<lambda>_. m)"

definition ok :: "'a run \<Rightarrow> ('a \<Rightarrow> bool) \<Rightarrow> bool" where
  "ok m P = (case m of Inl _ \<Rightarrow> False | Inr x \<Rightarrow> P x)"

lemma ok_Inr [run_simps]: "ok (Inr x) P = P x"
  by (simp add: ok_def)

lemma ok_Inl [run_simps]: "ok (Inl e) P = False"
  by (simp add: ok_def)

lemma ok_bindr [run_simps]: "ok (bindr m f) P = ok m (\<lambda>x. ok (f x) P)"
  by (cases m) (auto simp: ok_def)

lemma ok_ASSERT [run_simps]: "ok (ASSERT b) P = (b \<and> P ())"
  by (simp add: ASSERT_def ok_def)

lemma ok_assert_then [run_simps]: "ok (assert_then b m) P = (b \<and> ok m P)"
  by (simp add: assert_then_def run_simps)

lemma ok_if [run_simps]: "ok (if b then m else n) P = (if b then ok m P else ok n P)"
  by simp

lemma ok_mono: "ok m P \<Longrightarrow> (\<And>x. P x \<Longrightarrow> Q x) \<Longrightarrow> ok m Q"
  by (cases m) (auto simp: ok_def)

lemma ok_iff: "ok m P \<longleftrightarrow> (\<exists>x. m = Inr x \<and> P x)"
  by (cases m) (auto simp: ok_def)

lemma ok_bindI: "ok m P \<Longrightarrow> (\<And>x. P x \<Longrightarrow> ok (f x) Q) \<Longrightarrow> ok (bindr m f) Q"
  by (auto simp: run_simps elim!: ok_mono)

lemma ok_InrD: "m = Inr x \<Longrightarrow> ok m P \<Longrightarrow> P x"
  by (simp add: ok_def)

lemma bindr_eq_Inr: "bindr m f = Inr y \<longleftrightarrow> (\<exists>x. m = Inr x \<and> f x = Inr y)"
  by (cases m) auto

lemma bindr_InrE: "bindr m f = Inr y \<Longrightarrow> (\<And>x. m = Inr x \<Longrightarrow> f x = Inr y \<Longrightarrow> P) \<Longrightarrow> P"
  by (cases m) auto

lemma bindr_assoc: "bindr (bindr m f) g = bindr m (\<lambda>x. bindr (f x) g)"
  by (cases m) auto

lemma assert_then_simps [simp]:
  "b \<Longrightarrow> assert_then b m = m"
  "\<not> b \<Longrightarrow> assert_then b m = Inl AssertFailed"
  by (simp_all add: assert_then_def ASSERT_def)

lemma assert_InrE: "assert_then b m = Inr y \<Longrightarrow> (b \<Longrightarrow> m = Inr y \<Longrightarrow> P) \<Longrightarrow> P"
  by (cases b) auto

lemmas run_elims = bindr_InrE assert_InrE

section \<open>Loops\<close>

fun run_fold :: "('i \<Rightarrow> 's \<Rightarrow> 's run) \<Rightarrow> 'i list \<Rightarrow> 's \<Rightarrow> 's run" where
  "run_fold f [] s = Inr s"
| "run_fold f (i # is) s = bindr (f i s) (run_fold f is)"

text \<open>\<open>for (i = a; i < b; i++)\<close> and \<open>for (i = b; i > a; i--)\<close>.\<close>

definition for_up :: "nat \<Rightarrow> nat \<Rightarrow> (nat \<Rightarrow> 's \<Rightarrow> 's run) \<Rightarrow> 's \<Rightarrow> 's run" where
  "for_up a b f s = run_fold f [a..<b] s"

definition for_down :: "nat \<Rightarrow> nat \<Rightarrow> (nat \<Rightarrow> 's \<Rightarrow> 's run) \<Rightarrow> 's \<Rightarrow> 's run" where
  "for_down b a f s = run_fold f (rev [Suc a..<Suc b]) s"

lemma run_fold_append: "run_fold f (xs @ ys) s = bindr (run_fold f xs s) (run_fold f ys)"
proof (induction xs arbitrary: s)
  case (Cons x xs)
  then have "run_fold f (xs @ ys) = (\<lambda>s. bindr (run_fold f xs s) (run_fold f ys))"
    by (simp add: fun_eq_iff)
  then show ?case by (simp add: bindr_assoc)
qed simp

lemma for_up_done [simp]: "b \<le> a \<Longrightarrow> for_up a b f s = Inr s"
  by (simp add: for_up_def)

lemma for_up_step: "a < b \<Longrightarrow> for_up a b f s = bindr (f a s) (for_up (Suc a) b f)"
  by (simp add: for_up_def [abs_def] upt_conv_Cons)

lemma for_up_last: "for_up a (Suc b) f s = (if a \<le> b then bindr (for_up a b f s) (f b) else Inr s)"
proof (cases "a \<le> b")
  case True
  have "bindr m (run_fold f [b]) = bindr m (f b)" for m
    by (cases m; cases "f b (projr m)") auto
  with True show ?thesis by (simp add: for_up_def run_fold_append)
qed simp

lemma for_up_split: "a \<le> k \<Longrightarrow> k \<le> b \<Longrightarrow> for_up a b f s = bindr (for_up a k f s) (for_up k b f)"
  using upt_add_eq_append [of a k "b - k"]
  by (simp add: for_up_def [abs_def] run_fold_append [symmetric])

lemma for_down_done [simp]: "b \<le> a \<Longrightarrow> for_down b a f s = Inr s"
  by (simp add: for_down_def)

lemma for_down_step: "a < b \<Longrightarrow> for_down b a f s = bindr (f b s) (for_down (b - 1) a f)"
  by (cases b) (simp_all add: for_down_def [abs_def])

lemma for_up_rule:
  assumes "a \<le> b" and "I a s"
    and "\<And>i s. a \<le> i \<Longrightarrow> i < b \<Longrightarrow> I i s \<Longrightarrow> ok (f i s) (I (Suc i))"
  shows "ok (for_up a b f s) (I b)"
  using assms
proof (induction "b - a" arbitrary: a s)
  case 0
  then show ?case by (simp add: run_simps)
next
  case (Suc n)
  then have "a < b" by simp
  have "ok (f a s) (I (Suc a))" using Suc.prems \<open>a < b\<close> by simp
  moreover have "ok (for_up (Suc a) b f s') (I b)" if "I (Suc a) s'" for s'
    using Suc.hyps(1)[of "Suc a" s'] Suc.hyps(2) Suc.prems(3) \<open>a < b\<close> that by simp
  ultimately show ?case
    using \<open>a < b\<close> by (auto simp: for_up_step run_simps elim!: ok_mono)
qed

lemma for_down_rule:
  assumes "a \<le> b" and "I b s"
    and "\<And>i s. a < i \<Longrightarrow> i \<le> b \<Longrightarrow> I i s \<Longrightarrow> ok (f i s) (I (i - 1))"
  shows "ok (for_down b a f s) (I a)"
  using assms
proof (induction "b - a" arbitrary: b s)
  case 0
  then show ?case by (simp add: run_simps)
next
  case (Suc n)
  then have "a < b" by simp
  have "ok (f b s) (I (b - 1))" using Suc.prems \<open>a < b\<close> by simp
  moreover have "ok (for_down (b - 1) a f s') (I a)" if "I (b - 1) s'" for s'
    using Suc.hyps(1)[of "b - 1" s'] Suc.hyps(2) Suc.prems(3) \<open>a < b\<close> that by simp
  ultimately show ?case
    using \<open>a < b\<close> by (auto simp: for_down_step run_simps elim!: ok_mono)
qed

section \<open>\<open>size_t\<close> arithmetic\<close>

type_synonym size_t = nat

abbreviation sz_range :: nat where
  "sz_range \<equiv> 4294967296"

definition sz_add :: "size_t \<Rightarrow> size_t \<Rightarrow> size_t" where
  "sz_add a b = (a + b) mod sz_range"

definition sz_sub :: "size_t \<Rightarrow> size_t \<Rightarrow> size_t" where
  "sz_sub a b = (a + (sz_range - b)) mod sz_range"

definition sz_mul :: "size_t \<Rightarrow> size_t \<Rightarrow> size_t" where
  "sz_mul a b = (a * b) mod sz_range"

definition sz_mod :: "size_t \<Rightarrow> size_t \<Rightarrow> size_t run" where
  "sz_mod a b = (if b = 0 then Inl DivideError else Inr (a mod b))"

lemma ok_sz_mod [run_simps]: "ok (sz_mod a b) P = (b \<noteq> 0 \<and> P (a mod b))"
  by (simp add: sz_mod_def ok_def)

lemma sz_add_eq [sz_simps]: "a + b < sz_range \<Longrightarrow> sz_add a b = a + b"
  by (simp add: sz_add_def)

lemma sz_add_mod [sz_simps]:
  "0 < c \<Longrightarrow> c < sz_range \<Longrightarrow> sz_add (a mod c) (Suc 0) = Suc (a mod c)"
proof -
  assume "0 < c" "c < sz_range"
  then have "Suc (a mod c) < sz_range" using mod_less_divisor [of c a] by linarith
  then show ?thesis by (simp add: sz_add_def)
qed

lemma sz_sub_eq [sz_simps]: "b \<le> a \<Longrightarrow> a < sz_range \<Longrightarrow> sz_sub a b = a - b"
proof -
  assume "b \<le> a" "a < sz_range"
  then have "a + (sz_range - b) = (a - b) + sz_range" by simp
  then have "(a + (sz_range - b)) mod sz_range = (a - b) mod sz_range"
    by (metis mod_add_self2)
  with \<open>b \<le> a\<close> \<open>a < sz_range\<close> show ?thesis by (simp add: sz_sub_def)
qed

lemma sz_sub_wrap: "a < b \<Longrightarrow> b \<le> sz_range \<Longrightarrow> sz_sub a b = sz_range + a - b"
  by (simp add: sz_sub_def)

lemma sz_mul_eq [sz_simps]: "a * b < sz_range \<Longrightarrow> sz_mul a b = a * b"
  by (simp add: sz_mul_def)

lemma sz_bounds [simp]: "sz_add a b < sz_range" "sz_sub a b < sz_range" "sz_mul a b < sz_range"
  by (simp_all add: sz_add_def sz_sub_def sz_mul_def)

section \<open>Object storage\<close>

datatype 'a slot = Raw | Live 'a

text \<open>A pointer to storage: \<open>None\<close> is \<open>nullptr\<close>.\<close>

type_synonym 'a block = "'a slot list option"

text \<open>
  \<open>operator new(n * sizeof(T))\<close>: raw storage for n objects. \<open>Heap::kmalloc\<close> answers a request
  for 0 bytes with \<open>nullptr\<close>; for any other size it returns storage or the kernel panics.
\<close>

definition new_block :: "size_t \<Rightarrow> 'a block" where
  "new_block n = (if n = 0 then None else Some (replicate n Raw))"

text \<open>\<open>new (&p[i]) T{x}\<close>, \<open>p[i].~T()\<close>, \<open>p[i]\<close> and \<open>p[i] = x\<close>.\<close>

fun construct :: "'a block \<Rightarrow> size_t \<Rightarrow> 'a \<Rightarrow> 'a block run" where
  "construct None i x = Inl BadAccess"
| "construct (Some b) i x =
     (if i < length b then
        (case b ! i of Raw \<Rightarrow> Inr (Some (b[i := Live x])) | Live _ \<Rightarrow> Inl Lifetime)
      else Inl BadAccess)"

fun destroy :: "'a block \<Rightarrow> size_t \<Rightarrow> 'a block run" where
  "destroy None i = Inl BadAccess"
| "destroy (Some b) i =
     (if i < length b then
        (case b ! i of Raw \<Rightarrow> Inl Lifetime | Live _ \<Rightarrow> Inr (Some (b[i := Raw])))
      else Inl BadAccess)"

fun read_slot :: "'a block \<Rightarrow> size_t \<Rightarrow> 'a run" where
  "read_slot None i = Inl BadAccess"
| "read_slot (Some b) i =
     (if i < length b then (case b ! i of Raw \<Rightarrow> Inl Lifetime | Live x \<Rightarrow> Inr x)
      else Inl BadAccess)"

text \<open>
  Assignment runs the assignment operator of the object already in the slot; on raw storage
  that is only harmless when T is trivially copyable (\<open>triv\<close>).
\<close>

fun assign_slot :: "bool \<Rightarrow> 'a block \<Rightarrow> size_t \<Rightarrow> 'a \<Rightarrow> 'a block run" where
  "assign_slot triv None i x = Inl BadAccess"
| "assign_slot triv (Some b) i x =
     (if i < length b then
        (if b ! i = Raw \<and> \<not> triv then Inl Lifetime else Inr (Some (b[i := Live x])))
      else Inl BadAccess)"

lemma ok_construct [run_simps]:
  "ok (construct (Some b) i x) P = (i < length b \<and> b ! i = Raw \<and> P (Some (b[i := Live x])))"
  by (auto simp: ok_def split: slot.splits)

lemma ok_destroy [run_simps]:
  "ok (destroy (Some b) i) P = (i < length b \<and> b ! i \<noteq> Raw \<and> P (Some (b[i := Raw])))"
  by (auto simp: ok_def split: slot.splits)

lemma ok_read_slot [run_simps]:
  "ok (read_slot (Some b) i) P = (i < length b \<and> (\<exists>x. b ! i = Live x \<and> P x))"
  by (auto simp: ok_def split: slot.splits)

lemma ok_assign_slot [run_simps]:
  "ok (assign_slot triv (Some b) i x) P =
     (i < length b \<and> (triv \<or> b ! i \<noteq> Raw) \<and> P (Some (b[i := Live x])))"
  by (auto simp: ok_def)

text \<open>
  Two loops every container has: copy (or move) construct the first n objects of one storage
  in another one, and destroy the first n objects.
\<close>

definition copy_slots :: "'a block \<Rightarrow> size_t \<Rightarrow> 'a block \<Rightarrow> 'a block run" where
  "copy_slots src n dst = for_up 0 n (\<lambda>i d. bindr (read_slot src i) (construct d i)) dst"

definition destroy_slots :: "size_t \<Rightarrow> 'a block \<Rightarrow> 'a block run" where
  "destroy_slots n b = for_up 0 n (\<lambda>i d. destroy d i) b"

text \<open>Storage of c slots that starts with the slots ss, and one that starts with the objects xs.\<close>

definition padded :: "nat \<Rightarrow> 'a slot list \<Rightarrow> 'a slot list" where
  "padded c ss = ss @ replicate (c - length ss) Raw"

definition packed :: "nat \<Rightarrow> 'a list \<Rightarrow> 'a slot list" where
  "packed c xs = map Live xs @ replicate (c - length xs) Raw"

lemma padded_Live: "padded c (map Live xs) = packed c xs"
  by (simp add: padded_def packed_def)

lemma length_padded [simp]: "length ss \<le> c \<Longrightarrow> length (padded c ss) = c"
  by (simp add: padded_def)

lemma padded_nth: "i < c \<Longrightarrow> padded c ss ! i = (if i < length ss then ss ! i else Raw)"
  by (auto simp: padded_def nth_append)

lemma padded_snoc:
  "length ss < c \<Longrightarrow> (padded c ss)[length ss := s] = padded c (ss @ [s])"
proof -
  assume "length ss < c"
  then obtain k where "c - length ss = Suc k" by (metis Suc_diff_Suc)
  then show ?thesis by (simp add: padded_def list_update_append)
qed

lemma padded_update: "i < length ss \<Longrightarrow> (padded c ss)[i := s] = padded c (ss[i := s])"
  by (simp add: padded_def list_update_append)

lemma padded_Raw: "length ss < c \<Longrightarrow> padded c (ss @ [Raw]) = padded c ss"
proof -
  assume "length ss < c"
  then obtain k where "c - length ss = Suc k" by (metis Suc_diff_Suc)
  then show ?thesis by (simp add: padded_def)
qed

lemma length_packed [simp]: "length xs \<le> c \<Longrightarrow> length (packed c xs) = c"
  by (simp add: packed_def)

lemma packed_Nil [simp]: "packed c [] = replicate c Raw"
  by (simp add: packed_def)

lemma packed_live [simp]: "i < length xs \<Longrightarrow> packed c xs ! i = Live (xs ! i)"
  by (simp add: packed_def nth_append)

lemma packed_raw [simp]: "length xs \<le> i \<Longrightarrow> i < c \<Longrightarrow> packed c xs ! i = Raw"
  by (simp add: packed_def nth_append)

lemma packed_snoc:
  "length xs < c \<Longrightarrow> (packed c xs)[length xs := Live x] = packed c (xs @ [x])"
  using padded_snoc [of "map Live xs" c "Live x"] by (simp flip: padded_Live)

lemma packed_update:
  "i < length xs \<Longrightarrow> (packed c xs)[i := Live y] = packed c (xs[i := y])"
  by (simp add: packed_def list_update_append map_update)

lemma packed_unsnoc:
  "length xs < c \<Longrightarrow> (packed c (xs @ [x]))[length xs := Raw] = packed c xs"
proof -
  assume "length xs < c"
  then obtain k where "c - length xs = Suc k" by (metis Suc_diff_Suc)
  then show ?thesis by (simp add: packed_def list_update_append)
qed

lemma copy_prefix_packed:
  assumes "length xs \<le> c" "k \<le> length xs" "k \<le> n"
  shows "ok (copy_slots (Some (packed c xs)) k (Some (packed n []))) (\<lambda>d. d = Some (packed n (take k xs)))"
  unfolding copy_slots_def
proof (rule for_up_rule [where I = "\<lambda>i d. d = Some (packed n (take i xs))"], goal_cases)
  case (3 i d)
  then have "length (take i xs) = i" "take (Suc i) xs = take i xs @ [xs ! i]"
    using assms by (simp_all add: take_Suc_conv_app_nth)
  with packed_snoc [of "take i xs" n "xs ! i"] 3 assms show ?case
    by (simp add: run_simps)
qed simp_all

lemma copy_slots_packed:
  "length xs \<le> c \<Longrightarrow> length xs \<le> n \<Longrightarrow>
   ok (copy_slots (Some (packed c xs)) (length xs) (Some (packed n []))) (\<lambda>d. d = Some (packed n xs))"
  using copy_prefix_packed [of xs c "length xs" n] by simp

lemma destroy_slots_packed:
  assumes "length xs \<le> c"
  shows "ok (destroy_slots (length xs) (Some (packed c xs))) (\<lambda>d. d = Some (packed c []))"
proof -
  define k where "k = c - length xs"
  have k: "replicate (length xs) Raw @ replicate k Raw = replicate c Raw"
    using assms by (simp add: k_def flip: replicate_add)
  have "ok (destroy_slots (length xs) (Some (map Live xs @ replicate k Raw)))
      (\<lambda>d. d = Some (replicate (length xs) Raw @ map Live (drop (length xs) xs) @ replicate k Raw))"
    unfolding destroy_slots_def
  proof (rule for_up_rule [where I = "\<lambda>i d. d = Some (replicate i Raw @ map Live (drop i xs) @ replicate k Raw)"],
      goal_cases)
    case (3 i d)
    then have "drop i xs = xs ! i # drop (Suc i) xs" by (simp add: Cons_nth_drop_Suc)
    with 3 show ?case
      by (simp add: run_simps nth_append list_update_append replicate_app_Cons_same)
  qed simp_all
  then have "ok (destroy_slots (length xs) (Some (packed c xs)))
      (\<lambda>d. d = Some (replicate (length xs) Raw @ replicate k Raw))"
    by (simp add: packed_def k_def)
  then show ?thesis by (simp only: k packed_Nil)
qed

text \<open>Plain arrays of trivial objects: reads and writes checked against the bounds only.\<close>

definition arr_get :: "'a list \<Rightarrow> nat \<Rightarrow> 'a run" where
  "arr_get xs i = (if i < length xs then Inr (xs ! i) else Inl BadAccess)"

definition arr_set :: "'a list \<Rightarrow> nat \<Rightarrow> 'a \<Rightarrow> 'a list run" where
  "arr_set xs i x = (if i < length xs then Inr (xs[i := x]) else Inl BadAccess)"

lemma ok_arr_get [run_simps]: "ok (arr_get xs i) P = (i < length xs \<and> P (xs ! i))"
  by (simp add: arr_get_def ok_def)

lemma ok_arr_set [run_simps]: "ok (arr_set xs i x) P = (i < length xs \<and> P (xs[i := x]))"
  by (simp add: arr_set_def ok_def)

end
