(* ===== verification/Interfaces.thy ===== *)
theory Interfaces
  imports Prelude
begin

text \<open>
  The contracts between the containers of the standard library and the kernel code that uses
  them. Each is a locale: the operations a client calls, an abstraction of the container's
  state, and the laws the container promises. The containers interpret the locales in their
  own theories; what the clients need beyond the single laws (whole loops, whole runs of
  operations) is proved here once.
\<close>

section \<open>Bounded FIFO queues\<close>

datatype 'a qop = Enq 'a | Deq

text \<open>The outputs of a sequence of queue operations, and the same on the list a queue stands for.\<close>

fun queue_run :: "('q \<Rightarrow> 'a \<Rightarrow> 'q run) \<Rightarrow> ('q \<Rightarrow> ('a \<times> 'q) run) \<Rightarrow> 'a qop list \<Rightarrow> 'q \<Rightarrow> 'a list run" where
  "queue_run enq deq [] q = Inr []"
| "queue_run enq deq (Enq x # ops) q = bindr (enq q x) (queue_run enq deq ops)"
| "queue_run enq deq (Deq # ops) q =
     bindr (deq q) (\<lambda>(y, q'). bindr (queue_run enq deq ops q') (\<lambda>ys. Inr (y # ys)))"

fun queue_spec :: "nat \<Rightarrow> 'a qop list \<Rightarrow> 'a list \<Rightarrow> 'a list run" where
  "queue_spec cap [] xs = Inr []"
| "queue_spec cap (Enq x # ops) xs =
     (if length xs < cap then queue_spec cap ops (xs @ [x]) else Inl AssertFailed)"
| "queue_spec cap (Deq # ops) xs =
     (case xs of [] \<Rightarrow> Inl AssertFailed
      | y # ys \<Rightarrow> bindr (queue_spec cap ops ys) (\<lambda>zs. Inr (y # zs)))"

text \<open>The two transfer loops of the queue's clients: fill from an array, drain into an array.\<close>

definition enq_loop :: "('q \<Rightarrow> 'a \<Rightarrow> 'q run) \<Rightarrow> 'a list \<Rightarrow> nat \<Rightarrow> 'q \<Rightarrow> 'q run" where
  "enq_loop enq src n q = for_up 0 n (\<lambda>i q. bindr (arr_get src i) (enq q)) q"

definition deq_loop ::
    "('q \<Rightarrow> ('a \<times> 'q) run) \<Rightarrow> nat \<Rightarrow> 'a list \<Rightarrow> 'q \<Rightarrow> ('a list \<times> 'q) run" where
  "deq_loop deq n dest q =
     for_up 0 n
       (\<lambda>i (d, q). bindr (deq q) (\<lambda>(y, q'). bindr (arr_set d i y) (\<lambda>d'. Inr (d', q'))))
       (dest, q)"

locale bounded_queue =
  fixes enq :: "'q \<Rightarrow> 'a \<Rightarrow> 'q run"
    and deq :: "'q \<Rightarrow> ('a \<times> 'q) run"
    and qsize :: "'q \<Rightarrow> nat"
    and qcapacity :: "'q \<Rightarrow> nat"
    and rep :: "'q \<Rightarrow> 'a list \<Rightarrow> bool"
  assumes enq_law: "rep q xs \<Longrightarrow> length xs < qcapacity q \<Longrightarrow>
      ok (enq q x) (\<lambda>q'. rep q' (xs @ [x]) \<and> qcapacity q' = qcapacity q)"
    and enq_full: "rep q xs \<Longrightarrow> length xs = qcapacity q \<Longrightarrow> enq q x = Inl AssertFailed"
    and deq_law: "rep q (x # xs) \<Longrightarrow>
      ok (deq q) (\<lambda>(y, q'). y = x \<and> rep q' xs \<and> qcapacity q' = qcapacity q)"
    and deq_empty: "rep q [] \<Longrightarrow> deq q = Inl AssertFailed"
    and qsize_law: "rep q xs \<Longrightarrow> qsize q = length xs"
    and bounded: "rep q xs \<Longrightarrow> length xs \<le> qcapacity q"
begin

lemma queue_run_spec: "rep q xs \<Longrightarrow> queue_run enq deq ops q = queue_spec (qcapacity q) ops xs"
proof (induction ops arbitrary: q xs)
  case (Cons op ops)
  show ?case
  proof (cases op)
    case (Enq x)
    show ?thesis
    proof (cases "length xs < qcapacity q")
      case True
      with Cons.prems enq_law obtain q' where
        "enq q x = Inr q'" "rep q' (xs @ [x])" "qcapacity q' = qcapacity q"
        by (force simp: ok_iff)
      with Cons.IH True Enq show ?thesis by simp
    next
      case False
      with Cons.prems bounded have "length xs = qcapacity q" by (meson le_neq_implies_less)
      with Cons.prems enq_full False Enq show ?thesis by simp
    qed
  next
    case Deq
    show ?thesis
    proof (cases xs)
      case Nil
      with Cons.prems deq_empty Deq show ?thesis by simp
    next
      case (Cons y ys)
      with \<open>rep q xs\<close> deq_law obtain q' where
        "deq q = Inr (y, q')" "rep q' ys" "qcapacity q' = qcapacity q"
        by (force simp: ok_iff)
      with Cons.IH Cons Deq show ?thesis by simp
    qed
  qed
qed simp

lemma enq_loop_law:
  assumes "rep q xs" and "n \<le> length src" and "length xs + n \<le> qcapacity q"
  shows "ok (enq_loop enq src n q) (\<lambda>q'. rep q' (xs @ take n src) \<and> qcapacity q' = qcapacity q)"
  unfolding enq_loop_def
proof (rule for_up_rule
    [where I = "\<lambda>i q'. rep q' (xs @ take i src) \<and> qcapacity q' = qcapacity q"], goal_cases)
  case (3 i q')
  then have "ok (enq q' (src ! i)) (\<lambda>q''. rep q'' ((xs @ take i src) @ [src ! i]) \<and>
      qcapacity q'' = qcapacity q')"
    using assms by (intro enq_law) auto
  with 3 assms show ?case
    by (auto simp: run_simps take_Suc_conv_app_nth elim!: ok_mono)
qed (use assms in auto)

lemma deq_loop_law:
  assumes "rep q xs" and "n \<le> length xs" and "n \<le> length dest"
  shows "ok (deq_loop deq n dest q)
           (\<lambda>(d, q'). d = take n xs @ drop n dest \<and> rep q' (drop n xs) \<and> qcapacity q' = qcapacity q)"
  unfolding deq_loop_def
proof (rule for_up_rule
    [where I = "\<lambda>i (d, q'). d = take i xs @ drop i dest \<and> rep q' (drop i xs) \<and>
       qcapacity q' = qcapacity q"], goal_cases)
  case (3 i s)
  obtain d q' where s: "s = (d, q')" by fastforce
  have i: "i < length xs" "i < length dest" using 3 assms by auto
  with 3 s have "rep q' (xs ! i # drop (Suc i) xs)" by (simp add: Cons_nth_drop_Suc)
  from deq_law [OF this] 3 s i show ?case
    by (auto simp: run_simps take_Suc_conv_app_nth list_update_append
        Cons_nth_drop_Suc [symmetric] elim!: ok_mono)
qed (use assms in auto)

end

section \<open>Editable sequences\<close>

datatype 'a seqop = InsertAt nat 'a | RemoveAt nat | GetAt nat

text \<open>
  A sequence of edits, on the container and on the list it stands for; the value of every
  \<open>GetAt\<close> is recorded. The edits a client makes are the ones \<open>seq_valid\<close> accepts: positions in
  range (an iterator of the container) and never more than \<open>bound\<close> elements.
\<close>

fun seq_run :: "('s \<Rightarrow> nat \<Rightarrow> 'a \<Rightarrow> 's run) \<Rightarrow> ('s \<Rightarrow> nat \<Rightarrow> 's run) \<Rightarrow> ('s \<Rightarrow> nat \<Rightarrow> 'a run) \<Rightarrow>
    'a seqop list \<Rightarrow> 's \<Rightarrow> ('a list \<times> 's) run" where
  "seq_run ins del get [] s = Inr ([], s)"
| "seq_run ins del get (InsertAt i x # ops) s = bindr (ins s i x) (seq_run ins del get ops)"
| "seq_run ins del get (RemoveAt i # ops) s = bindr (del s i) (seq_run ins del get ops)"
| "seq_run ins del get (GetAt i # ops) s =
     bindr (get s i) (\<lambda>y. bindr (seq_run ins del get ops s) (\<lambda>(ys, s'). Inr (y # ys, s')))"

definition list_insert_at :: "nat \<Rightarrow> 'a \<Rightarrow> 'a list \<Rightarrow> 'a list" where
  "list_insert_at i x xs = take i xs @ x # drop i xs"

definition list_remove_at :: "nat \<Rightarrow> 'a list \<Rightarrow> 'a list" where
  "list_remove_at i xs = take i xs @ drop (Suc i) xs"

fun seq_spec :: "'a seqop list \<Rightarrow> 'a list \<Rightarrow> 'a list \<times> 'a list" where
  "seq_spec [] xs = ([], xs)"
| "seq_spec (InsertAt i x # ops) xs = seq_spec ops (list_insert_at i x xs)"
| "seq_spec (RemoveAt i # ops) xs = seq_spec ops (list_remove_at i xs)"
| "seq_spec (GetAt i # ops) xs = (let (ys, zs) = seq_spec ops xs in (xs ! i # ys, zs))"

fun seq_valid :: "nat \<Rightarrow> 'a seqop list \<Rightarrow> 'a list \<Rightarrow> bool" where
  "seq_valid bound [] xs \<longleftrightarrow> True"
| "seq_valid bound (InsertAt i x # ops) xs \<longleftrightarrow>
     i \<le> length xs \<and> length xs < bound \<and> seq_valid bound ops (list_insert_at i x xs)"
| "seq_valid bound (RemoveAt i # ops) xs \<longleftrightarrow>
     i < length xs \<and> seq_valid bound ops (list_remove_at i xs)"
| "seq_valid bound (GetAt i # ops) xs \<longleftrightarrow> i < length xs \<and> seq_valid bound ops xs"

lemma length_list_insert_at [simp]: "i \<le> length xs \<Longrightarrow> length (list_insert_at i x xs) = Suc (length xs)"
  by (simp add: list_insert_at_def)

lemma length_list_remove_at [simp]: "i < length xs \<Longrightarrow> length (list_remove_at i xs) = length xs - 1"
  by (simp add: list_remove_at_def)

lemma list_insert_at_0 [simp]: "list_insert_at 0 x xs = x # xs"
  by (simp add: list_insert_at_def)

lemma list_insert_at_end [simp]: "list_insert_at (length xs) x xs = xs @ [x]"
  by (simp add: list_insert_at_def)

lemma list_remove_at_0 [simp]: "list_remove_at 0 (x # xs) = xs"
  by (simp add: list_remove_at_def)

lemma list_remove_at_end [simp]: "list_remove_at (length xs) (xs @ [x]) = xs"
  by (simp add: list_remove_at_def)

locale editable_sequence =
  fixes ins :: "'s \<Rightarrow> nat \<Rightarrow> 'a \<Rightarrow> 's run"
    and del :: "'s \<Rightarrow> nat \<Rightarrow> 's run"
    and get :: "'s \<Rightarrow> nat \<Rightarrow> 'a run"
    and bound :: "'s \<Rightarrow> nat"
    and rep :: "'s \<Rightarrow> 'a list \<Rightarrow> bool"
  assumes ins_law: "rep s xs \<Longrightarrow> i \<le> length xs \<Longrightarrow> length xs < bound s \<Longrightarrow>
      ok (ins s i x) (\<lambda>s'. rep s' (list_insert_at i x xs) \<and> bound s' = bound s)"
    and del_law: "rep s xs \<Longrightarrow> i < length xs \<Longrightarrow>
      ok (del s i) (\<lambda>s'. rep s' (list_remove_at i xs) \<and> bound s' = bound s)"
    and get_law: "rep s xs \<Longrightarrow> i < length xs \<Longrightarrow> get s i = Inr (xs ! i)"
begin

lemma seq_run_spec:
  "rep s xs \<Longrightarrow> seq_valid (bound s) ops xs \<Longrightarrow>
   ok (seq_run ins del get ops s) (\<lambda>(ys, s'). ys = fst (seq_spec ops xs) \<and> rep s' (snd (seq_spec ops xs)))"
proof (induction ops arbitrary: s xs)
  case Nil
  then show ?case by (simp add: run_simps)
next
  case (Cons op ops)
  show ?case
  proof (cases op)
    case (InsertAt i x)
    with Cons.prems have "ok (ins s i x) (\<lambda>s'. rep s' (list_insert_at i x xs) \<and> bound s' = bound s)"
      by (intro ins_law) auto
    with Cons.prems InsertAt show ?thesis
      by (auto simp: run_simps intro!: Cons.IH elim!: ok_mono)
  next
    case (RemoveAt i)
    with Cons.prems have "ok (del s i) (\<lambda>s'. rep s' (list_remove_at i xs) \<and> bound s' = bound s)"
      by (intro del_law) auto
    with Cons.prems RemoveAt show ?thesis
      by (auto simp: run_simps intro!: Cons.IH elim!: ok_mono)
  next
    case (GetAt i)
    with Cons.prems have "get s i = Inr (xs ! i)" by (intro get_law) auto
    moreover have "ok (seq_run ins del get ops s)
        (\<lambda>(ys, s'). ys = fst (seq_spec ops xs) \<and> rep s' (snd (seq_spec ops xs)))"
      using Cons.prems GetAt by (intro Cons.IH) auto
    ultimately show ?thesis
      using GetAt by (auto simp: run_simps case_prod_beta elim!: ok_mono)
  qed
qed

end

section \<open>Pools of identifiers\<close>

text \<open>
  How the kernel hands out thread and process identifiers: search a free one, mark it, return
  it. \<open>none\<close> is what the search returns when there is none left.
\<close>

definition id_reserve :: "('s \<Rightarrow> nat run) \<Rightarrow> ('s \<Rightarrow> nat \<Rightarrow> 's run) \<Rightarrow> 's \<Rightarrow> (nat \<times> 's) run" where
  "id_reserve find_free mark s = bindr (find_free s) (\<lambda>i. bindr (mark s i) (\<lambda>s'. Inr (i, s')))"

locale id_pool =
  fixes find_free :: "'s \<Rightarrow> nat run"
    and mark :: "'s \<Rightarrow> nat \<Rightarrow> 's run"
    and unmark :: "'s \<Rightarrow> nat \<Rightarrow> 's run"
    and used :: "'s \<Rightarrow> nat \<Rightarrow> bool"
    and limit :: "'s \<Rightarrow> nat"
    and none :: nat
    and wf :: "'s \<Rightarrow> bool"
  assumes find_law: "wf s \<Longrightarrow> ok (find_free s) (\<lambda>i.
      i < limit s \<and> \<not> used s i \<and> (\<forall>j<i. used s j) \<or> i = none \<and> (\<forall>j<limit s. used s j))"
    and mark_law: "wf s \<Longrightarrow> i < limit s \<Longrightarrow>
      ok (mark s i) (\<lambda>s'. wf s' \<and> limit s' = limit s \<and> (\<forall>j. used s' j \<longleftrightarrow> used s j \<or> j = i))"
    and unmark_law: "wf s \<Longrightarrow> i < limit s \<Longrightarrow>
      ok (unmark s i) (\<lambda>s'. wf s' \<and> limit s' = limit s \<and> (\<forall>j. used s' j \<longleftrightarrow> used s j \<and> j \<noteq> i))"
    and mark_none: "wf s \<Longrightarrow> mark s none = Inr s"
    and none_law: "wf s \<Longrightarrow> limit s \<le> none"
begin

text \<open>The identifiers in use are exactly ids.\<close>

definition holds :: "'s \<Rightarrow> nat list \<Rightarrow> bool" where
  "holds s ids \<longleftrightarrow> wf s \<and> distinct ids \<and> set ids = {i. i < limit s \<and> used s i}"

lemma holds_room: "holds s ids \<Longrightarrow> length ids < limit s \<Longrightarrow> \<exists>i<limit s. \<not> used s i"
proof (rule ccontr)
  assume "holds s ids" "length ids < limit s" "\<not> (\<exists>i<limit s. \<not> used s i)"
  then have "set ids = {..<limit s}" "distinct ids" by (auto simp: holds_def)
  then have "length ids = limit s" using distinct_card [of ids] by simp
  with \<open>length ids < limit s\<close> show False by simp
qed

lemma reserve_fresh:
  assumes "holds s ids" "length ids < limit s"
  shows "ok (id_reserve find_free mark s)
     (\<lambda>(i, s'). i < limit s \<and> i \<notin> set ids \<and> (\<forall>j<i. j \<in> set ids) \<and> holds s' (i # ids) \<and> limit s' = limit s)"
proof -
  obtain k where k: "k < limit s" "\<not> used s k" using holds_room [OF assms] by blast
  have "wf s" using assms by (simp add: holds_def)
  from find_law [OF this] k obtain i where i: "find_free s = Inr i" "i < limit s" "\<not> used s i" "\<forall>j<i. used s j"
    by (auto simp: ok_iff)
  from mark_law [OF \<open>wf s\<close> i(2)] i assms show ?thesis
    by (auto simp: id_reserve_def run_simps holds_def elim!: ok_mono)
qed

lemma reserve_exhausted:
  assumes "holds s ids" "length ids = limit s"
  shows "id_reserve find_free mark s = Inr (none, s)"
proof -
  have "wf s" "set ids \<subseteq> {..<limit s}" "distinct ids" using assms by (auto simp: holds_def)
  then have "set ids = {..<limit s}" using assms(2) by (intro card_subset_eq) (auto simp: distinct_card)
  then have "\<forall>j<limit s. used s j" using assms(1) by (auto simp: holds_def)
  with find_law [OF \<open>wf s\<close>] have "find_free s = Inr none" by (auto simp: ok_iff)
  with mark_none [OF \<open>wf s\<close>] show ?thesis by (simp add: id_reserve_def)
qed

lemma release_holds:
  assumes "holds s ids" "i \<in> set ids"
  shows "ok (unmark s i) (\<lambda>s'. holds s' (remove1 i ids) \<and> limit s' = limit s)"
proof -
  have "wf s" "i < limit s" using assms by (auto simp: holds_def)
  from unmark_law [OF this] show ?thesis
  proof (rule ok_mono)
    fix s' assume "wf s' \<and> limit s' = limit s \<and> (\<forall>j. used s' j \<longleftrightarrow> used s j \<and> j \<noteq> i)"
    moreover have "set (remove1 i ids) = {j. j < limit s \<and> used s j} - {i}"
      using assms(1) by (simp add: holds_def set_remove1_eq)
    ultimately show "holds s' (remove1 i ids) \<and> limit s' = limit s"
      using assms(1) by (auto simp: holds_def)
  qed
qed

end

section \<open>Lists that own their nodes\<close>

text \<open>
  Several lists over one heap of nodes, each node in at most one of them. Moving a node from one
  list to another is what every change of a thread's state does.
\<close>

definition transfer ::
    "('h \<times> 'l \<Rightarrow> nat \<Rightarrow> ('h \<times> 'l) run) \<Rightarrow> ('h \<times> 'l \<Rightarrow> nat \<Rightarrow> ('h \<times> 'l) run) \<Rightarrow>
     'h \<Rightarrow> 'l \<Rightarrow> 'l \<Rightarrow> nat \<Rightarrow> ('h \<times> 'l \<times> 'l) run" where
  "transfer rem push h src dst p =
     bindr (rem (h, src) p) (\<lambda>(h1, src'). bindr (push (h1, dst) p) (\<lambda>(h2, dst'). Inr (h2, src', dst')))"

locale owned_lists =
  fixes push :: "'h \<times> 'l \<Rightarrow> nat \<Rightarrow> ('h \<times> 'l) run"
    and rem :: "'h \<times> 'l \<Rightarrow> nat \<Rightarrow> ('h \<times> 'l) run"
    and rep :: "'h \<Rightarrow> 'l \<Rightarrow> nat list \<Rightarrow> bool"
    and ident :: "'l \<Rightarrow> nat"
    and unowned :: "'h \<Rightarrow> nat \<Rightarrow> bool"
  assumes push_law: "rep h l ps \<Longrightarrow> unowned h p \<Longrightarrow>
      ok (push (h, l) p) (\<lambda>(h', l'). rep h' l' (ps @ [p]) \<and> ident l' = ident l \<and>
        (\<forall>q. unowned h' q \<longleftrightarrow> unowned h q \<and> q \<noteq> p) \<and>
        (\<forall>l2 qs. rep h l2 qs \<and> ident l2 \<noteq> ident l \<longrightarrow> rep h' l2 qs))"
    and rem_law: "rep h l ps \<Longrightarrow> p \<in> set ps \<Longrightarrow>
      ok (rem (h, l) p) (\<lambda>(h', l'). rep h' l' (remove1 p ps) \<and> ident l' = ident l \<and>
        (\<forall>q. unowned h' q \<longleftrightarrow> unowned h q \<or> q = p) \<and>
        (\<forall>l2 qs. rep h l2 qs \<and> ident l2 \<noteq> ident l \<longrightarrow> rep h' l2 qs))"
    and rep_owned: "rep h l ps \<Longrightarrow> p \<in> set ps \<Longrightarrow> \<not> unowned h p"
    and rep_distinct: "rep h l ps \<Longrightarrow> distinct ps"
    and rep_disjoint: "rep h l ps \<Longrightarrow> rep h l2 qs \<Longrightarrow> ident l \<noteq> ident l2 \<Longrightarrow> set ps \<inter> set qs = {}"
begin

lemma transfer_law:
  assumes "rep h src ps" "rep h dst qs" "ident src \<noteq> ident dst" "p \<in> set ps"
  shows "ok (transfer rem push h src dst p) (\<lambda>(h', src', dst').
     rep h' src' (remove1 p ps) \<and> rep h' dst' (qs @ [p]) \<and> ident src' = ident src \<and> ident dst' = ident dst \<and>
     (\<forall>q. unowned h' q \<longleftrightarrow> unowned h q) \<and>
     (\<forall>l2 rs. rep h l2 rs \<and> ident l2 \<noteq> ident src \<and> ident l2 \<noteq> ident dst \<longrightarrow> rep h' l2 rs))"
proof -
  obtain h1 src' where a: "rem (h, src) p = Inr (h1, src')" "rep h1 src' (remove1 p ps)" "ident src' = ident src"
    "\<And>q. unowned h1 q \<longleftrightarrow> unowned h q \<or> q = p" "\<And>l2 qs. rep h l2 qs \<Longrightarrow> ident l2 \<noteq> ident src \<Longrightarrow> rep h1 l2 qs"
    using rem_law [OF assms(1,4)] by (auto simp: ok_iff)
  then have "rep h1 dst qs" "unowned h1 p" using assms by auto
  then obtain h2 dst' where b: "push (h1, dst) p = Inr (h2, dst')" "rep h2 dst' (qs @ [p])" "ident dst' = ident dst"
    "\<And>q. unowned h2 q \<longleftrightarrow> unowned h1 q \<and> q \<noteq> p" "\<And>l2 qs. rep h1 l2 qs \<Longrightarrow> ident l2 \<noteq> ident dst \<Longrightarrow> rep h2 l2 qs"
    using push_law [of h1 dst qs p] by (auto simp: ok_iff)
  have "\<not> unowned h p" using rep_owned assms(1,4) by blast
  then have "unowned h2 q \<longleftrightarrow> unowned h q" for q using a(4) b(4) by auto
  moreover have "rep h2 src' (remove1 p ps)" using a(2,3) b(5) assms(3) by simp
  ultimately show ?thesis using a b by (simp add: transfer_def run_simps)
qed

end

end
