(* ===== verification/Circular_Buffer.thy ===== *)
theory Circular_Buffer
  imports Interfaces
begin

text \<open>
  \<open>CircularBuffer<T>\<close> of circular_buffer.h: a ring of \<open>m_capacity\<close> slots, \<open>m_size\<close> of them
  holding live objects from \<open>m_head\<close> on. \<open>cb_rep q xs\<close> says that q is well formed and holds
  exactly the elements xs, oldest first. The buffer is a bounded queue in the sense of
  \<open>bounded_queue\<close> (interpretation \<open>cbq\<close>).
\<close>

record 'a circular_buffer =
  cb_m_data :: "'a block"
  cb_m_head :: size_t
  cb_m_tail :: size_t
  cb_m_size :: size_t
  cb_m_capacity :: size_t

section \<open>Operations\<close>

definition cb_new :: "size_t \<Rightarrow> 'a circular_buffer" where
  "cb_new n = \<lparr>cb_m_data = new_block n, cb_m_head = 0, cb_m_tail = 0, cb_m_size = 0,
                 cb_m_capacity = n\<rparr>"

definition cb_is_empty :: "'a circular_buffer \<Rightarrow> bool" where
  "cb_is_empty q = (cb_m_size q = 0)"

definition cb_is_full :: "'a circular_buffer \<Rightarrow> bool" where
  "cb_is_full q = (cb_m_size q = cb_m_capacity q)"

definition cb_capacity :: "'a circular_buffer \<Rightarrow> size_t" where
  "cb_capacity q = cb_m_capacity q"

definition cb_size :: "'a circular_buffer \<Rightarrow> size_t" where
  "cb_size q = cb_m_size q"

definition cb_available_size :: "'a circular_buffer \<Rightarrow> size_t" where
  "cb_available_size q = sz_sub (cb_capacity q) (cb_size q)"

definition cb_queue :: "'a circular_buffer \<Rightarrow> 'a \<Rightarrow> 'a circular_buffer run" where
  "cb_queue q x =
     assert_then (\<not> cb_is_full q)
       (bindr (construct (cb_m_data q) (cb_m_tail q) x) (\<lambda>d.
        bindr (sz_mod (sz_add (cb_m_tail q) 1) (cb_m_capacity q)) (\<lambda>t.
        Inr (q\<lparr>cb_m_data := d, cb_m_tail := t, cb_m_size := sz_add (cb_m_size q) 1\<rparr>))))"

definition cb_dequeue :: "'a circular_buffer \<Rightarrow> ('a \<times> 'a circular_buffer) run" where
  "cb_dequeue q =
     assert_then (\<not> cb_is_empty q)
       (bindr (read_slot (cb_m_data q) (cb_m_head q)) (\<lambda>ret_data.
        bindr (destroy (cb_m_data q) (cb_m_head q)) (\<lambda>d.
        bindr (sz_mod (sz_add (cb_m_head q) 1) (cb_m_capacity q)) (\<lambda>h.
        Inr (ret_data, q\<lparr>cb_m_data := d, cb_m_head := h, cb_m_size := sz_sub (cb_m_size q) 1\<rparr>)))))"

definition cb_front :: "'a circular_buffer \<Rightarrow> 'a run" where
  "cb_front q = assert_then (\<not> cb_is_empty q) (read_slot (cb_m_data q) (cb_m_head q))"

definition cb_back :: "'a circular_buffer \<Rightarrow> 'a run" where
  "cb_back q =
     assert_then (\<not> cb_is_empty q)
       (if cb_m_tail q = 0 then read_slot (cb_m_data q) (sz_sub (cb_m_capacity q) 1)
        else read_slot (cb_m_data q) (sz_sub (cb_m_tail q) 1))"

text \<open>The loops of the copy constructor, the copy assignment and \<open>destroy_used_objects\<close>.\<close>

definition cb_copy_objects ::
    "size_t \<Rightarrow> size_t \<Rightarrow> size_t \<Rightarrow> 'a block \<Rightarrow> 'a block \<Rightarrow> ('a block \<times> size_t) run" where
  "cb_copy_objects head sz capacity src dst =
     for_up 0 sz
       (\<lambda>i (d, index). bindr (read_slot src index) (\<lambda>x. bindr (construct d index x) (\<lambda>d'.
          bindr (sz_mod (sz_add index 1) capacity) (\<lambda>index'. Inr (d', index')))))
       (dst, head)"

definition cb_destroy_used_objects :: "'a circular_buffer \<Rightarrow> 'a circular_buffer run" where
  "cb_destroy_used_objects q =
     bindr (for_up 0 (cb_m_size q)
       (\<lambda>i (d, index). bindr (destroy d index) (\<lambda>d'.
          bindr (sz_mod (sz_add index 1) (cb_m_capacity q)) (\<lambda>index'. Inr (d', index'))))
       (cb_m_data q, cb_m_head q))
     (\<lambda>(d, _). Inr (q\<lparr>cb_m_data := d\<rparr>))"

definition cb_copy :: "'a circular_buffer \<Rightarrow> 'a circular_buffer run" where
  "cb_copy other =
     bindr (cb_copy_objects (cb_m_head other) (cb_m_size other) (cb_m_capacity other)
              (cb_m_data other) (new_block (cb_m_capacity other)))
     (\<lambda>(d, _). Inr (other\<lparr>cb_m_data := d\<rparr>))"

text \<open>The moved-to object and what is left of \<open>other\<close>.\<close>

definition cb_move :: "'a circular_buffer \<Rightarrow> 'a circular_buffer \<times> 'a circular_buffer" where
  "cb_move other =
     (other, other\<lparr>cb_m_data := None, cb_m_size := 0, cb_m_head := 0, cb_m_tail := 0\<rparr>)"

text \<open>
  \<open>operator=(const CircularBuffer&)\<close>; \<open>same\<close> is the outcome of \<open>&other == this\<close>. The new
  storage is sized by the capacity the object had before the assignment.
\<close>

definition cb_assign_copy ::
    "bool \<Rightarrow> 'a circular_buffer \<Rightarrow> 'a circular_buffer \<Rightarrow> 'a circular_buffer run" where
  "cb_assign_copy same self other =
     (if same then Inr self
      else bindr (cb_destroy_used_objects self) (\<lambda>self1.
        let data = (if cb_m_capacity self \<noteq> cb_m_capacity other
                    then new_block (cb_m_capacity self) else cb_m_data self1) in
        bindr (cb_copy_objects (cb_m_head other) (cb_m_size other) (cb_m_capacity other)
                 (cb_m_data other) data)
        (\<lambda>(d, _). Inr (other\<lparr>cb_m_data := d\<rparr>))))"

definition cb_assign_move ::
    "bool \<Rightarrow> 'a circular_buffer \<Rightarrow> 'a circular_buffer \<Rightarrow>
     ('a circular_buffer \<times> 'a circular_buffer) run" where
  "cb_assign_move same self other =
     (if same then Inr (self, self)
      else bindr (cb_destroy_used_objects self) (\<lambda>_. Inr (cb_move other)))"

text \<open>The destructor: the storage it hands to \<open>operator delete\<close>.\<close>

definition cb_destructor :: "'a circular_buffer \<Rightarrow> 'a block run" where
  "cb_destructor q = bindr (cb_destroy_used_objects q) (\<lambda>q'. Inr (cb_m_data q'))"

section \<open>Representation\<close>

text \<open>The distance of slot j from the head, and what the slot holds.\<close>

definition cb_off :: "nat \<Rightarrow> nat \<Rightarrow> nat \<Rightarrow> nat" where
  "cb_off h c j = (if h \<le> j then j - h else j + c - h)"

definition cb_cell :: "nat \<Rightarrow> nat \<Rightarrow> 'a list \<Rightarrow> nat \<Rightarrow> 'a slot" where
  "cb_cell h c xs j = (if cb_off h c j < length xs then Live (xs ! cb_off h c j) else Raw)"

definition cb_rep :: "'a circular_buffer \<Rightarrow> 'a list \<Rightarrow> bool" where
  "cb_rep q xs \<longleftrightarrow>
     cb_m_data q = Some (map (cb_cell (cb_m_head q) (cb_m_capacity q) xs) [0..<cb_m_capacity q]) \<and>
     cb_m_size q = length xs \<and> length xs \<le> cb_m_capacity q \<and>
     0 < cb_m_capacity q \<and> cb_m_capacity q < sz_range \<and> cb_m_head q < cb_m_capacity q \<and>
     cb_m_tail q = (cb_m_head q + length xs) mod cb_m_capacity q"

lemma wrap_index: "h < c \<Longrightarrow> n < c \<Longrightarrow> (h + n) mod c = (if h + n < c then h + n else h + n - c)"
  for h :: nat
  by (simp add: mod_if)

lemma cb_off_wrap [simp]: "h < c \<Longrightarrow> n < c \<Longrightarrow> cb_off h c ((h + n) mod c) = n"
  by (auto simp: wrap_index cb_off_def)

lemma cb_off_eq_iff: "h < c \<Longrightarrow> n < c \<Longrightarrow> j < c \<Longrightarrow> cb_off h c j = n \<longleftrightarrow> j = (h + n) mod c"
  by (auto simp: wrap_index cb_off_def)

lemma cb_off_0_iff: "h < c \<Longrightarrow> j < c \<Longrightarrow> cb_off h c j = 0 \<longleftrightarrow> j = h"
  by (auto simp: cb_off_def)

lemma cb_off_next: "h < c \<Longrightarrow> j < c \<Longrightarrow> j \<noteq> h \<Longrightarrow> cb_off h c j = Suc (cb_off (Suc h mod c) c j)"
  by (cases "Suc h = c") (auto simp: cb_off_def)

lemma cb_cell_tail: "h < c \<Longrightarrow> length xs < c \<Longrightarrow> cb_cell h c xs ((h + length xs) mod c) = Raw"
  by (simp add: cb_cell_def)

lemma cb_cell_nth:
  "h < c \<Longrightarrow> length xs \<le> c \<Longrightarrow> n < length xs \<Longrightarrow> cb_cell h c xs ((h + n) mod c) = Live (xs ! n)"
  by (simp add: cb_cell_def)

lemma cb_cell_head: "cb_cell h c (x # xs) h = Live x"
  by (simp add: cb_cell_def cb_off_def)

lemma cb_cells_Nil: "map (cb_cell h c []) [0..<c] = replicate c Raw"
  by (rule nth_equalityI) (simp_all add: cb_cell_def)

lemma cb_cells_snoc:
  assumes "h < c" "length xs < c"
  shows "(map (cb_cell h c xs) [0..<c])[(h + length xs) mod c := Live x]
       = map (cb_cell h c (xs @ [x])) [0..<c]"
proof (rule nth_equalityI, goal_cases)
  case (2 j)
  then have "j < c" by simp
  with assms cb_off_eq_iff [of h c "length xs" j] show ?case
    by (auto simp: nth_list_update cb_cell_def nth_append)
qed simp

lemma cb_cells_tl:
  assumes "h < c" "length xs < c"
  shows "(map (cb_cell h c (x # xs)) [0..<c])[h := Raw] = map (cb_cell (Suc h mod c) c xs) [0..<c]"
proof (rule nth_equalityI, goal_cases)
  case (2 j)
  then have j: "j < c" by simp
  show ?case
  proof (cases "j = h")
    case True
    have "cb_off (Suc h mod c) c h = c - 1"
      using assms by (cases "Suc h = c") (auto simp: cb_off_def)
    with True j assms show ?thesis by (simp add: cb_cell_def)
  next
    case False
    with j assms cb_off_next [of h c j] show ?thesis by (simp add: cb_cell_def)
  qed
qed simp

section \<open>Every operation keeps the representation\<close>

lemma cb_new_rep: "0 < n \<Longrightarrow> n < sz_range \<Longrightarrow> cb_rep (cb_new n) []"
  by (simp add: cb_rep_def cb_new_def new_block_def cb_cells_Nil)

lemma cb_queue_rep:
  assumes "cb_rep q xs" "length xs < cb_capacity q"
  shows "ok (cb_queue q x) (\<lambda>q'. cb_rep q' (xs @ [x]) \<and> cb_capacity q' = cb_capacity q)"
  using assms
  by (auto simp: cb_queue_def cb_rep_def cb_capacity_def cb_is_full_def run_simps cb_cells_snoc
      sz_simps cb_cell_def mod_simps mod_Suc_eq)

lemma cb_dequeue_rep:
  assumes "cb_rep q (x # xs)"
  shows "ok (cb_dequeue q) (\<lambda>(y, q'). y = x \<and> cb_rep q' xs \<and> cb_capacity q' = cb_capacity q)"
  using assms
  by (auto simp: cb_dequeue_def cb_rep_def cb_capacity_def cb_is_empty_def run_simps cb_cells_tl
      sz_simps cb_cell_def cb_off_def mod_simps)

interpretation cbq: bounded_queue cb_queue cb_dequeue cb_size cb_capacity cb_rep
proof (unfold_locales, goal_cases)
  case (1 q xs x) then show ?case by (rule cb_queue_rep)
next
  case (2 q xs x) then show ?case by (simp add: cb_queue_def cb_is_full_def cb_rep_def cb_capacity_def)
next
  case (3 q x xs) then show ?case by (rule cb_dequeue_rep)
next
  case (4 q) then show ?case by (simp add: cb_dequeue_def cb_is_empty_def cb_rep_def)
next
  case (5 q xs) then show ?case by (simp add: cb_rep_def cb_size_def)
next
  case (6 q xs) then show ?case by (simp add: cb_rep_def cb_capacity_def)
qed

lemma cb_front_rep: "cb_rep q (x # xs) \<Longrightarrow> cb_front q = Inr x"
  by (simp add: cb_front_def cb_is_empty_def cb_rep_def cb_cell_def cb_off_def)

lemma cb_back_rep:
  assumes "cb_rep q (xs @ [x])"
  shows "cb_back q = Inr x"
proof -
  let ?h = "cb_m_head q" and ?c = "cb_m_capacity q" and ?t = "cb_m_tail q"
  have h: "?h < ?c" "length xs < ?c" and c: "?c < sz_range"
    and t: "?t = (?h + Suc (length xs)) mod ?c" and n: "cb_m_size q \<noteq> 0"
    and d: "cb_m_data q = Some (map (cb_cell ?h ?c (xs @ [x])) [0..<?c])"
    using assms by (auto simp: cb_rep_def)
  define k where "k = (if ?t = 0 then sz_sub ?c 1 else sz_sub ?t 1)"
  have "?t < ?c" using h t by simp
  with h c have "k = (if ?t = 0 then ?c - 1 else ?t - 1)" by (simp add: k_def sz_simps)
  also have "\<dots> = (?h + length xs) mod ?c" using h t by (auto simp: mod_if split: if_splits)
  finally have k: "k = (?h + length xs) mod ?c" .
  have "cb_back q = read_slot (cb_m_data q) k" using n by (simp add: cb_back_def cb_is_empty_def k_def)
  also have "\<dots> = Inr x"
    using d h k cb_cell_nth [of ?h ?c "xs @ [x]" "length xs"] by simp
  finally show ?thesis .
qed

lemma cb_copy_objects_rep:
  assumes "h < c" "length xs \<le> c" "c < sz_range"
  shows "ok (cb_copy_objects h (length xs) c (Some (map (cb_cell h c xs) [0..<c])) (Some (replicate c Raw)))
    (\<lambda>(d, _). d = Some (map (cb_cell h c xs) [0..<c]))"
proof -
  let ?I = "\<lambda>i (d, index). d = Some (map (cb_cell h c (take i xs)) [0..<c]) \<and> index = (h + i) mod c"
  have "ok (cb_copy_objects h (length xs) c (Some (map (cb_cell h c xs) [0..<c]))
      (Some (replicate c Raw))) (?I (length xs))"
    unfolding cb_copy_objects_def
  proof (rule for_up_rule, goal_cases)
    case (3 i s)
    obtain d index where s: "s = (d, index)" by fastforce
    have i: "i < length xs" "i < c" using 3 assms by auto
    then have "length (take i xs) = i" "take (Suc i) xs = take i xs @ [xs ! i]"
      by (simp_all add: take_Suc_conv_app_nth)
    with cb_cells_snoc [of h c "take i xs" "xs ! i"] cb_cell_tail [of h c "take i xs"]
      cb_cell_nth [of h c xs i] 3 s i assms show ?case
      by (auto simp: run_simps sz_simps mod_simps)
  qed (use assms in \<open>auto simp: cb_cells_Nil\<close>)
  then show ?thesis by (auto elim!: ok_mono)
qed

lemma cb_copy_rep: "cb_rep q xs \<Longrightarrow> ok (cb_copy q) (\<lambda>q'. q' = q)"
  using cb_copy_objects_rep [of "cb_m_head q" "cb_m_capacity q" xs]
  by (auto simp: cb_copy_def cb_rep_def run_simps new_block_def elim!: ok_mono)

lemma cb_destroy_used_objects_rep:
  assumes "cb_rep q xs"
  shows "ok (cb_destroy_used_objects q)
           (\<lambda>q'. q' = q\<lparr>cb_m_data := Some (replicate (cb_m_capacity q) Raw)\<rparr>)"
proof -
  let ?h = "cb_m_head q" and ?c = "cb_m_capacity q"
  let ?I = "\<lambda>i (d, index). d = Some (map (cb_cell ((?h + i) mod ?c) ?c (drop i xs)) [0..<?c]) \<and>
              index = (?h + i) mod ?c"
  have "ok (for_up 0 (cb_m_size q) (\<lambda>i (d, index). bindr (destroy d index) (\<lambda>d'.
          bindr (sz_mod (sz_add index 1) ?c) (\<lambda>index'. Inr (d', index')))) (cb_m_data q, ?h))
        (?I (cb_m_size q))"
  proof (rule for_up_rule, goal_cases)
    case (3 i s)
    obtain d index where s: "s = (d, index)" by fastforce
    have i: "i < length xs" "length (drop (Suc i) xs) < ?c" and c: "0 < ?c" "?c < sz_range"
      using 3 assms by (auto simp: cb_rep_def)
    moreover have "drop i xs = xs ! i # drop (Suc i) xs" using i by (simp add: Cons_nth_drop_Suc)
    ultimately show ?case
      using cb_cells_tl [of "(?h + i) mod ?c" ?c "drop (Suc i) xs" "xs ! i"] 3 s
      by (auto simp: run_simps sz_simps cb_cell_head mod_simps)
  qed (use assms in \<open>auto simp: cb_rep_def\<close>)
  with assms show ?thesis
    by (auto simp: cb_destroy_used_objects_def run_simps cb_cells_Nil cb_rep_def elim!: ok_mono)
qed

lemma cb_destructor_rep:
  "cb_rep q xs \<Longrightarrow> cb_destructor q = Inr (Some (replicate (cb_m_capacity q) Raw))"
  using cb_destroy_used_objects_rep [of q xs]
  by (auto simp: cb_destructor_def ok_iff)

lemma cb_assign_copy_rep:
  assumes "cb_rep self xs" "cb_rep other ys" "cb_m_capacity self = cb_m_capacity other"
  shows "cb_assign_copy False self other = Inr other"
proof -
  from cb_copy_objects_rep [of "cb_m_head other" "cb_m_capacity other" ys] assms(2)
  have "ok (cb_copy_objects (cb_m_head other) (cb_m_size other) (cb_m_capacity other)
      (cb_m_data other) (Some (replicate (cb_m_capacity other) Raw))) (\<lambda>(d, _). d = cb_m_data other)"
    by (simp add: cb_rep_def)
  with cb_destroy_used_objects_rep [OF assms(1)] assms(3) show ?thesis
    by (auto simp: cb_assign_copy_def ok_iff)
qed

section \<open>Properties\<close>

text \<open>
  (C1) Started empty with capacity n, the buffer answers every sequence of \<open>queue\<close> and
  \<open>dequeue\<close> calls exactly as a FIFO list of at most n elements does, the failed assertion on
  the first \<open>queue\<close> into a full and the first \<open>dequeue\<close> from an empty buffer included.
\<close>

theorem cb_fifo_refinement:
  "0 < n \<Longrightarrow> n < sz_range \<Longrightarrow> queue_run cb_queue cb_dequeue ops (cb_new n) = queue_spec n ops []"
  using cbq.queue_run_spec [OF cb_new_rep, of n ops] by (simp add: cb_capacity_def cb_new_def)

theorem cb_fifo_refinement_witness:
  "queue_run cb_queue cb_dequeue [Enq 1, Enq 2, Deq, Enq 3, Deq, Deq] (cb_new 2) = Inr [1::nat, 2, 3]"
  using cb_fifo_refinement [of 2 "[Enq (1::nat), Enq 2, Deq, Enq 3, Deq, Deq]"] by simp

text \<open>
  Object lifetimes of a well-formed buffer that holds xs: the copy constructor yields an
  equal buffer and constructs no slot twice; the destructor destroys each held object once
  and leaves storage of raw slots only; \<open>front\<close> and \<open>back\<close> read the oldest and the newest
  element.
\<close>

theorem cb_object_lifetimes:
  assumes "cb_rep q xs"
  shows "cb_copy q = Inr q \<and> cb_destructor q = Inr (Some (replicate (cb_m_capacity q) Raw)) \<and>
    (xs \<noteq> [] \<longrightarrow> cb_front q = Inr (hd xs) \<and> cb_back q = Inr (last xs))"
proof -
  have "cb_copy q = Inr q" using cb_copy_rep [OF assms] by (auto simp: ok_iff)
  moreover have "xs \<noteq> [] \<longrightarrow> cb_front q = Inr (hd xs) \<and> cb_back q = Inr (last xs)"
    using assms cb_front_rep [of q "hd xs" "tl xs"] cb_back_rep [of q "butlast xs" "last xs"] by auto
  ultimately show ?thesis using cb_destructor_rep [OF assms] by blast
qed

theorem cb_object_lifetimes_witness:
  "cb_front \<lparr>cb_m_data = Some [Live (5::nat), Raw, Live 4], cb_m_head = 2, cb_m_tail = 1,
     cb_m_size = 2, cb_m_capacity = 3\<rparr> = Inr 4"
  using cb_object_lifetimes [of "\<lparr>cb_m_data = Some [Live (5::nat), Raw, Live 4], cb_m_head = 2,
     cb_m_tail = 1, cb_m_size = 2, cb_m_capacity = 3\<rparr>" "[4, 5]"]
  by (simp add: cb_rep_def cb_cell_def cb_off_def upt_rec)

end
