(* ===== verification/Stack_Container.thy ===== *)
theory Stack_Container
  imports Interfaces
begin

text \<open>
  \<open>Stack<T>\<close> of stack.h: \<open>m_capacity\<close> slots, the first \<open>m_size\<close> of them live. \<open>stack_rep s xs\<close>
  says that s is well formed and holds xs, the last pushed element last.
\<close>

record 'a stack =
  st_m_data :: "'a block"
  st_m_size :: size_t
  st_m_capacity :: size_t

section \<open>Operations\<close>

definition stack_new :: "size_t \<Rightarrow> 'a stack" where
  "stack_new n = \<lparr>st_m_data = new_block n, st_m_size = 0, st_m_capacity = n\<rparr>"

definition stack_destroy_used_objects :: "'a stack \<Rightarrow> 'a stack run" where
  "stack_destroy_used_objects s =
     bindr (destroy_slots (st_m_size s) (st_m_data s)) (\<lambda>d. Inr (s\<lparr>st_m_data := d\<rparr>))"

definition stack_copy :: "'a stack \<Rightarrow> 'a stack run" where
  "stack_copy other =
     bindr (copy_slots (st_m_data other) (st_m_size other) (new_block (st_m_capacity other)))
       (\<lambda>d. Inr (other\<lparr>st_m_data := d\<rparr>))"

definition stack_move :: "'a stack \<Rightarrow> 'a stack \<times> 'a stack" where
  "stack_move other = (other, other\<lparr>st_m_data := None, st_m_size := 0\<rparr>)"

definition stack_assign_copy :: "bool \<Rightarrow> 'a stack \<Rightarrow> 'a stack \<Rightarrow> 'a stack run" where
  "stack_assign_copy same self other =
     (if same then Inr self
      else bindr (stack_destroy_used_objects self) (\<lambda>self1.
        let data = (if st_m_capacity self \<noteq> st_m_capacity other
                    then new_block (st_m_capacity self) else st_m_data self1) in
        bindr (copy_slots (st_m_data other) (st_m_size other) data)
          (\<lambda>d. Inr (other\<lparr>st_m_data := d\<rparr>))))"

definition stack_assign_move :: "bool \<Rightarrow> 'a stack \<Rightarrow> 'a stack \<Rightarrow> ('a stack \<times> 'a stack) run" where
  "stack_assign_move same self other =
     (if same then Inr (self, self)
      else bindr (stack_destroy_used_objects self) (\<lambda>_. Inr (stack_move other)))"

definition stack_destructor :: "'a stack \<Rightarrow> 'a block run" where
  "stack_destructor s = bindr (stack_destroy_used_objects s) (\<lambda>s'. Inr (st_m_data s'))"

definition stack_is_empty :: "'a stack \<Rightarrow> bool" where
  "stack_is_empty s = (st_m_size s = 0)"

definition stack_is_full :: "'a stack \<Rightarrow> bool" where
  "stack_is_full s = (st_m_size s = st_m_capacity s)"

definition stack_capacity :: "'a stack \<Rightarrow> size_t" where
  "stack_capacity s = st_m_capacity s"

definition stack_size :: "'a stack \<Rightarrow> size_t" where
  "stack_size s = st_m_size s"

definition stack_available_size :: "'a stack \<Rightarrow> size_t" where
  "stack_available_size s = sz_sub (stack_capacity s) (stack_size s)"

definition stack_push :: "'a stack \<Rightarrow> 'a \<Rightarrow> 'a stack run" where
  "stack_push s x =
     assert_then (\<not> stack_is_full s)
       (bindr (construct (st_m_data s) (st_m_size s) x) (\<lambda>d.
        Inr (s\<lparr>st_m_data := d, st_m_size := sz_add (st_m_size s) 1\<rparr>)))"

definition stack_pop :: "'a stack \<Rightarrow> ('a \<times> 'a stack) run" where
  "stack_pop s =
     assert_then (\<not> stack_is_empty s)
       (bindr (read_slot (st_m_data s) (sz_sub (st_m_size s) 1)) (\<lambda>ret_data.
        bindr (destroy (st_m_data s) (sz_sub (st_m_size s) 1)) (\<lambda>d.
        Inr (ret_data, s\<lparr>st_m_data := d, st_m_size := sz_sub (st_m_size s) 1\<rparr>))))"

definition stack_back :: "'a stack \<Rightarrow> 'a run" where
  "stack_back s = read_slot (st_m_data s) (sz_sub (st_m_size s) 1)"

section \<open>Representation\<close>

definition stack_rep :: "'a stack \<Rightarrow> 'a list \<Rightarrow> bool" where
  "stack_rep s xs \<longleftrightarrow>
     st_m_data s = Some (packed (st_m_capacity s) xs) \<and> st_m_size s = length xs \<and>
     length xs \<le> st_m_capacity s \<and> 0 < st_m_capacity s \<and> st_m_capacity s < sz_range"

lemma stack_new_rep: "0 < n \<Longrightarrow> n < sz_range \<Longrightarrow> stack_rep (stack_new n) []"
  by (simp add: stack_rep_def stack_new_def new_block_def)

lemma stack_push_rep:
  "stack_rep s xs \<Longrightarrow> length xs < stack_capacity s \<Longrightarrow>
   ok (stack_push s x) (\<lambda>s'. stack_rep s' (xs @ [x]) \<and> stack_capacity s' = stack_capacity s)"
  by (auto simp: stack_rep_def stack_push_def stack_capacity_def stack_is_full_def run_simps
      sz_simps packed_snoc)

lemma stack_push_full: "stack_rep s xs \<Longrightarrow> length xs = stack_capacity s \<Longrightarrow> stack_push s x = Inl AssertFailed"
  by (simp add: stack_rep_def stack_push_def stack_capacity_def stack_is_full_def)

lemma stack_pop_rep:
  "stack_rep s (xs @ [x]) \<Longrightarrow>
   ok (stack_pop s) (\<lambda>(y, s'). y = x \<and> stack_rep s' xs \<and> stack_capacity s' = stack_capacity s)"
  by (auto simp: stack_rep_def stack_pop_def stack_capacity_def stack_is_empty_def run_simps
      sz_simps packed_unsnoc)

lemma stack_pop_empty: "stack_rep s [] \<Longrightarrow> stack_pop s = Inl AssertFailed"
  by (simp add: stack_rep_def stack_pop_def stack_is_empty_def)

lemma stack_back_rep: "stack_rep s (xs @ [x]) \<Longrightarrow> stack_back s = Inr x"
  by (simp add: stack_rep_def stack_back_def sz_simps)

lemma stack_size_rep: "stack_rep s xs \<Longrightarrow> stack_size s = length xs"
  by (simp add: stack_rep_def stack_size_def)

lemma stack_copy_rep: "stack_rep s xs \<Longrightarrow> ok (stack_copy s) (\<lambda>s'. s' = s)"
  using copy_slots_packed [of xs "st_m_capacity s" "st_m_capacity s"]
  by (auto simp: stack_rep_def stack_copy_def new_block_def ok_iff)

lemma stack_destroy_used_objects_rep:
  "stack_rep s xs \<Longrightarrow> stack_destroy_used_objects s = Inr (s\<lparr>st_m_data := Some (packed (st_m_capacity s) [])\<rparr>)"
  using destroy_slots_packed [of xs "st_m_capacity s"]
  by (auto simp: stack_rep_def stack_destroy_used_objects_def ok_iff)

section \<open>Properties\<close>

text \<open>A stack of capacity cap as a list, the top first.\<close>

fun stack_spec :: "nat \<Rightarrow> 'a qop list \<Rightarrow> 'a list \<Rightarrow> 'a list run" where
  "stack_spec cap [] xs = Inr []"
| "stack_spec cap (Enq x # ops) xs =
     (if length xs < cap then stack_spec cap ops (x # xs) else Inl AssertFailed)"
| "stack_spec cap (Deq # ops) xs =
     (case xs of [] \<Rightarrow> Inl AssertFailed
      | y # ys \<Rightarrow> bindr (stack_spec cap ops ys) (\<lambda>zs. Inr (y # zs)))"

lemma stack_run_spec:
  "stack_rep s xs \<Longrightarrow> queue_run stack_push stack_pop ops s = stack_spec (stack_capacity s) ops (rev xs)"
proof (induction ops arbitrary: s xs)
  case (Cons op ops)
  have bound: "length xs \<le> stack_capacity s" using Cons.prems by (simp add: stack_rep_def stack_capacity_def)
  show ?case
  proof (cases op)
    case (Enq x)
    show ?thesis
    proof (cases "length xs < stack_capacity s")
      case True
      with Cons.prems obtain s' where
        "stack_push s x = Inr s'" "stack_rep s' (xs @ [x])" "stack_capacity s' = stack_capacity s"
        using stack_push_rep [of s xs x] by (force simp: ok_iff)
      with Cons.IH True Enq show ?thesis by simp
    qed (use bound Cons.prems stack_push_full [of s xs x] Enq in simp)
  next
    case Deq
    show ?thesis
    proof (cases xs rule: rev_cases)
      case (snoc ys y)
      with Cons.prems obtain s' where
        "stack_pop s = Inr (y, s')" "stack_rep s' ys" "stack_capacity s' = stack_capacity s"
        using stack_pop_rep [of s ys y] by (force simp: ok_iff)
      with Cons.IH snoc Deq show ?thesis by simp
    qed (use Cons.prems stack_pop_empty [of s] Deq in simp)
  qed
qed simp

text \<open>
  Started empty with capacity n, the stack answers every sequence of \<open>push\<close> and \<open>pop\<close>
  calls exactly as a LIFO list of at most n elements does, the failed assertions included.
\<close>

theorem stack_lifo_refinement:
  "0 < n \<Longrightarrow> n < sz_range \<Longrightarrow> queue_run stack_push stack_pop ops (stack_new n) = stack_spec n ops []"
  using stack_run_spec [OF stack_new_rep, of n ops] by (simp add: stack_capacity_def stack_new_def)

theorem stack_lifo_refinement_witness:
  "queue_run stack_push stack_pop [Enq 1, Enq 2, Deq, Enq 3, Deq, Deq] (stack_new 2) = Inr [2::nat, 3, 1]"
  using stack_lifo_refinement [of 2 "[Enq (1::nat), Enq 2, Deq, Enq 3, Deq, Deq]"] by simp

lemma stack_copy_objects_overrun:
  assumes "length xs \<le> c" "n < length xs"
  shows "copy_slots (Some (packed c xs)) (length xs) (Some (replicate n Raw)) = Inl BadAccess"
proof -
  have "copy_slots (Some (packed c xs)) n (Some (replicate n Raw)) = Inr (Some (packed n (take n xs)))"
    using copy_prefix_packed [of xs c n n] assms by (auto simp: ok_iff)
  with assms show ?thesis
    by (simp add: copy_slots_def for_up_split [of 0 n "length xs"] for_up_step [of n "length xs"])
qed

text \<open>
  Copy assignment between stacks of different capacities allocates with the capacity the
  assigned stack had before: when that is smaller than the number of objects to copy, an
  object is constructed outside the new storage.
\<close>

theorem stack_assign_copy_overruns:
  assumes "stack_rep self xs" "stack_rep other ys" "stack_capacity self < stack_size other"
  shows "stack_assign_copy False self other = Inl BadAccess"
  using assms stack_destroy_used_objects_rep [of self xs]
    stack_copy_objects_overrun [of ys "st_m_capacity other" "st_m_capacity self"]
  by (auto simp: stack_assign_copy_def stack_capacity_def stack_size_def stack_rep_def new_block_def)

theorem stack_assign_copy_overruns_witness:
  "stack_assign_copy False (stack_new 1)
     \<lparr>st_m_data = Some [Live (7::nat), Live 8], st_m_size = 2, st_m_capacity = 2\<rparr> = Inl BadAccess"
  by (rule stack_assign_copy_overruns [of _ "[]" _ "[7, 8]"])
    (simp_all add: stack_rep_def stack_new_def new_block_def packed_def stack_capacity_def stack_size_def)

end
