(* ===== verification/Vector_Container.thy ===== *)
theory Vector_Container
  imports Interfaces
begin

text \<open>
  \<open>Vector<T>\<close> of vector.h: a growing array. The first \<open>m_count\<close> of the \<open>m_capacity\<close> slots are live
  (\<open>vec_rep v xs\<close>). An iterator is its index \<open>m_current\<close>: the operations that take one use nothing
  else of it, and the loops dereference iterators of the current storage only. Moving an
  object out of a slot leaves a live (moved-from) object there, as in C++. \<open>triv\<close> says that T is
  trivially copyable, the case in which assigning to raw storage is harmless.
\<close>

record 'a vector =
  vec_m_storage :: "'a block"
  vec_m_count :: size_t
  vec_m_capacity :: size_t
  vec_m_allocation_steps :: size_t

section \<open>Storage management\<close>

definition vec_copy_storage :: "'a vector \<Rightarrow> 'a block \<Rightarrow> size_t \<Rightarrow> 'a vector run" where
  "vec_copy_storage v other_storage n =
     bindr (copy_slots other_storage n (vec_m_storage v)) (\<lambda>d. Inr (v\<lparr>vec_m_storage := d\<rparr>))"

definition vec_destruct_used_objects :: "'a vector \<Rightarrow> 'a vector run" where
  "vec_destruct_used_objects v =
     bindr (destroy_slots (vec_m_count v) (vec_m_storage v)) (\<lambda>d. Inr (v\<lparr>vec_m_storage := d\<rparr>))"

definition vec_realloc :: "'a vector \<Rightarrow> size_t \<Rightarrow> 'a vector run" where
  "vec_realloc v new_capacity =
     assert_then (new_capacity \<noteq> 0)
       (bindr (if new_capacity > vec_m_capacity v
               then copy_slots (vec_m_storage v) (vec_m_count v) (new_block new_capacity)
               else Inl NotReachable) (\<lambda>new_storage.
        bindr (vec_destruct_used_objects v) (\<lambda>v'.
        Inr (v'\<lparr>vec_m_capacity := new_capacity, vec_m_storage := new_storage\<rparr>))))"

definition vec_realloc_with_free_spot :: "'a vector \<Rightarrow> size_t \<Rightarrow> size_t \<Rightarrow> 'a vector run" where
  "vec_realloc_with_free_spot v new_capacity free_spot_index =
     assert_then (new_capacity \<ge> sz_add (vec_m_count v) 1)
       (assert_then (free_spot_index \<le> vec_m_count v)
         (bindr (if new_capacity > vec_m_capacity v then
             bindr (copy_slots (vec_m_storage v) free_spot_index (new_block new_capacity))
               (for_up free_spot_index (vec_m_count v)
                 (\<lambda>i d. bindr (read_slot (vec_m_storage v) i) (construct d (sz_add i 1))))
           else Inl NotReachable) (\<lambda>new_storage.
          bindr (vec_destruct_used_objects v) (\<lambda>v'.
          Inr (v'\<lparr>vec_m_capacity := new_capacity, vec_m_storage := new_storage\<rparr>)))))"

text \<open>
  One step of \<open>make_free_spot\<close>, and the loop \<open>for (i = m_count; i >= free_spot_index + 1; i--)\<close>.
  When \<open>free_spot_index + 1\<close> wraps to 0 the condition is always true and the loop reaches
  \<open>m_storage[0 - 1]\<close>.
\<close>

definition vec_shift_up :: "bool \<Rightarrow> nat \<Rightarrow> 'a block \<Rightarrow> 'a block run" where
  "vec_shift_up triv i d =
     bindr (read_slot d (i - 1)) (\<lambda>x. bindr (assign_slot triv d i x) (\<lambda>d'. destroy d' (i - 1)))"

definition vec_make_free_spot :: "bool \<Rightarrow> 'a vector \<Rightarrow> size_t \<Rightarrow> 'a vector run" where
  "vec_make_free_spot triv v free_spot_index =
     bindr (if sz_add free_spot_index 1 = 0
            then bindr (for_down (vec_m_count v) 0 (vec_shift_up triv) (vec_m_storage v)) (\<lambda>_. Inl BadAccess)
            else for_down (vec_m_count v) free_spot_index (vec_shift_up triv) (vec_m_storage v))
       (\<lambda>d. Inr (v\<lparr>vec_m_storage := d\<rparr>))"

section \<open>Construction, copy and move\<close>

definition vec_new :: "size_t \<Rightarrow> size_t \<Rightarrow> 'a vector run" where
  "vec_new reserved_size allocation_steps =
     assert_then (reserved_size \<noteq> 0) (assert_then (allocation_steps \<noteq> 0)
       (vec_realloc \<lparr>vec_m_storage = None, vec_m_count = 0, vec_m_capacity = 0,
                      vec_m_allocation_steps = allocation_steps\<rparr> reserved_size))"

definition vec_copy :: "'a vector \<Rightarrow> 'a vector run" where
  "vec_copy other =
     vec_copy_storage (other\<lparr>vec_m_storage := new_block (vec_m_count other)\<rparr>)
       (vec_m_storage other) (vec_m_count other)"

definition vec_move :: "'a vector \<Rightarrow> 'a vector \<times> 'a vector" where
  "vec_move other = (other, other\<lparr>vec_m_storage := None, vec_m_count := 0\<rparr>)"

definition vec_assign_copy :: "bool \<Rightarrow> 'a vector \<Rightarrow> 'a vector \<Rightarrow> 'a vector run" where
  "vec_assign_copy same self other =
     (if same then Inr self
      else bindr (vec_destruct_used_objects self) (\<lambda>self1.
        let storage = (if vec_m_capacity self \<noteq> vec_m_capacity other
                       then new_block (vec_m_count other) else vec_m_storage self1) in
        vec_copy_storage (other\<lparr>vec_m_storage := storage\<rparr>) (vec_m_storage other) (vec_m_count other)))"

definition vec_assign_move :: "bool \<Rightarrow> 'a vector \<Rightarrow> 'a vector \<Rightarrow> ('a vector \<times> 'a vector) run" where
  "vec_assign_move same self other =
     (if same then Inr (self, self)
      else bindr (vec_destruct_used_objects self) (\<lambda>_. Inr (vec_move other)))"

definition vec_destructor :: "'a vector \<Rightarrow> 'a block run" where
  "vec_destructor v = bindr (vec_destruct_used_objects v) (\<lambda>v'. Inr (vec_m_storage v'))"

section \<open>Iterators\<close>

definition vec_begin :: "'a vector \<Rightarrow> size_t" where
  "vec_begin v = 0"

definition vec_end :: "'a vector \<Rightarrow> size_t" where
  "vec_end v = vec_m_count v"

definition vec_it_inc :: "size_t \<Rightarrow> size_t" where
  "vec_it_inc i = sz_add i 1"

definition vec_it_dec :: "size_t \<Rightarrow> size_t" where
  "vec_it_dec i = sz_sub i 1"

text \<open>\<open>m_current += arg\<close> with a signed \<open>arg\<close>.\<close>

definition vec_it_plus :: "size_t \<Rightarrow> int \<Rightarrow> size_t" where
  "vec_it_plus i arg = nat ((int i + arg) mod int sz_range)"

definition vec_it_minus :: "size_t \<Rightarrow> int \<Rightarrow> size_t" where
  "vec_it_minus i arg = vec_it_plus i (- arg)"

definition vec_deref :: "'a vector \<Rightarrow> size_t \<Rightarrow> 'a run" where
  "vec_deref v i = read_slot (vec_m_storage v) i"

section \<open>Insertion and removal\<close>

definition vec_insert :: "bool \<Rightarrow> 'a vector \<Rightarrow> size_t \<Rightarrow> 'a \<Rightarrow> (size_t \<times> 'a vector) run" where
  "vec_insert triv v pos x =
     assert_then (vec_m_storage v \<noteq> None)
       (bindr (if vec_m_count v = vec_m_capacity v
               then vec_realloc_with_free_spot v (sz_add (vec_m_capacity v) (vec_m_allocation_steps v)) pos
               else vec_make_free_spot triv v pos) (\<lambda>v'.
        bindr (construct (vec_m_storage v') pos x) (\<lambda>d.
        Inr (pos, v'\<lparr>vec_m_storage := d, vec_m_count := sz_add (vec_m_count v') 1\<rparr>))))"

text \<open>\<open>emplace\<close> builds the new object in place; x is the object its arguments give.\<close>

definition vec_emplace :: "bool \<Rightarrow> 'a vector \<Rightarrow> size_t \<Rightarrow> 'a \<Rightarrow> (size_t \<times> 'a vector) run" where
  "vec_emplace triv v pos x =
     assert_then (vec_m_storage v \<noteq> None)
       (bindr (if vec_m_count v = vec_m_capacity v
               then vec_realloc_with_free_spot v (sz_add (vec_m_capacity v) (vec_m_allocation_steps v)) pos
               else vec_make_free_spot triv v pos) (\<lambda>v'.
        bindr (construct (vec_m_storage v') pos x) (\<lambda>d.
        Inr (pos, v'\<lparr>vec_m_storage := d, vec_m_count := sz_add (vec_m_count v') 1\<rparr>))))"

definition vec_emplace_back :: "bool \<Rightarrow> 'a vector \<Rightarrow> 'a \<Rightarrow> (size_t \<times> 'a vector) run" where
  "vec_emplace_back triv v x = vec_emplace triv v (vec_end v) x"

definition vec_emplace_front :: "bool \<Rightarrow> 'a vector \<Rightarrow> 'a \<Rightarrow> (size_t \<times> 'a vector) run" where
  "vec_emplace_front triv v x = vec_emplace triv v (vec_begin v) x"

definition vec_push_back :: "bool \<Rightarrow> 'a vector \<Rightarrow> 'a \<Rightarrow> (size_t \<times> 'a vector) run" where
  "vec_push_back triv v x = vec_insert triv v (vec_end v) x"

definition vec_push_front :: "bool \<Rightarrow> 'a vector \<Rightarrow> 'a \<Rightarrow> (size_t \<times> 'a vector) run" where
  "vec_push_front triv v x = vec_insert triv v (vec_begin v) x"

definition vec_remove :: "bool \<Rightarrow> 'a vector \<Rightarrow> size_t \<Rightarrow> 'a vector run" where
  "vec_remove triv v itr =
     assert_then (vec_m_storage v \<noteq> None)
       (bindr (read_slot (vec_m_storage v) itr) (\<lambda>tmp.
        bindr (for_up itr (sz_sub (vec_m_count v) 1)
                 (\<lambda>i d. bindr (read_slot d (sz_add i 1)) (assign_slot triv d i)) (vec_m_storage v)) (\<lambda>d.
        bindr (destroy d (sz_sub (vec_m_count v) 1)) (\<lambda>d'.
        Inr (v\<lparr>vec_m_storage := d', vec_m_count := sz_sub (vec_m_count v) 1\<rparr>)))))"

definition vec_pop_back :: "bool \<Rightarrow> 'a vector \<Rightarrow> 'a vector run" where
  "vec_pop_back triv v = vec_remove triv v (vec_it_dec (vec_end v))"

definition vec_pop_front :: "bool \<Rightarrow> 'a vector \<Rightarrow> 'a vector run" where
  "vec_pop_front triv v = vec_remove triv v (vec_begin v)"

text \<open>
  The loop of \<open>remove_if\<close>. Every iteration moves the iterator or shortens the vector, so the
  \<open>m_count\<close> iterations of fuel given by \<open>vec_remove_if\<close> are enough (\<open>vec_remove_if_rep\<close>).
\<close>

fun vec_remove_if_loop ::
    "bool \<Rightarrow> ('a \<Rightarrow> bool) \<Rightarrow> nat \<Rightarrow> size_t \<Rightarrow> bool \<Rightarrow> 'a vector \<Rightarrow> (bool \<times> 'a vector) run" where
  "vec_remove_if_loop triv predicate fuel i is_removed v =
     (if i = vec_end v then Inr (is_removed, v)
      else case fuel of 0 \<Rightarrow> Inl OutOfFuel
      | Suc fuel' \<Rightarrow> bindr (vec_deref v i) (\<lambda>x.
          if predicate x
          then bindr (vec_remove triv v i) (vec_remove_if_loop triv predicate fuel' i True)
          else vec_remove_if_loop triv predicate fuel' (vec_it_inc i) is_removed v))"

definition vec_remove_if :: "bool \<Rightarrow> ('a \<Rightarrow> bool) \<Rightarrow> 'a vector \<Rightarrow> (bool \<times> 'a vector) run" where
  "vec_remove_if triv predicate v =
     vec_remove_if_loop triv predicate (vec_m_count v) (vec_begin v) False v"

definition vec_reserve :: "'a vector \<Rightarrow> size_t \<Rightarrow> 'a vector run" where
  "vec_reserve v n = (if vec_m_capacity v < n then vec_realloc v n else Inr v)"

definition vec_clear :: "'a vector \<Rightarrow> 'a vector run" where
  "vec_clear v = bindr (vec_destruct_used_objects v) (\<lambda>v'. Inr (v'\<lparr>vec_m_count := 0\<rparr>))"

text \<open>\<open>splice\<close> on two distinct vectors: this vector and the destination, both updated.\<close>

definition vec_splice ::
    "bool \<Rightarrow> 'a vector \<Rightarrow> 'a vector \<Rightarrow> size_t \<Rightarrow> size_t \<Rightarrow> ('a vector \<times> 'a vector) run" where
  "vec_splice triv self destination_list from_pos to_pos =
     bindr (vec_deref self from_pos) (\<lambda>x.
     bindr (vec_insert triv destination_list to_pos x) (\<lambda>(_, dest').
     bindr (vec_remove triv self from_pos) (\<lambda>self'. Inr (self', dest'))))"

section \<open>Lookup\<close>

fun vec_find_loop :: "('a \<Rightarrow> bool) \<Rightarrow> nat \<Rightarrow> size_t \<Rightarrow> 'a vector \<Rightarrow> size_t run" where
  "vec_find_loop predicate fuel i v =
     (if i = vec_end v then Inr (vec_end v)
      else case fuel of 0 \<Rightarrow> Inl OutOfFuel
      | Suc fuel' \<Rightarrow> bindr (vec_deref v i) (\<lambda>x.
          if predicate x then Inr i else vec_find_loop predicate fuel' (vec_it_inc i) v))"

definition vec_find_if :: "('a \<Rightarrow> bool) \<Rightarrow> 'a vector \<Rightarrow> size_t run" where
  "vec_find_if predicate v = vec_find_loop predicate (vec_m_count v) (vec_begin v) v"

definition vec_find :: "'a \<Rightarrow> 'a vector \<Rightarrow> size_t run" where
  "vec_find element v = vec_find_loop (\<lambda>x. element = x) (vec_m_count v) (vec_begin v) v"

definition vec_contains :: "('a \<Rightarrow> bool) \<Rightarrow> 'a vector \<Rightarrow> bool run" where
  "vec_contains predicate v = bindr (vec_find_if predicate v) (\<lambda>i. Inr (i \<noteq> vec_end v))"

definition vec_head :: "'a vector \<Rightarrow> 'a run" where
  "vec_head v = assert_then (vec_m_storage v \<noteq> None) (read_slot (vec_m_storage v) 0)"

definition vec_tail :: "'a vector \<Rightarrow> 'a run" where
  "vec_tail v = assert_then (vec_m_storage v \<noteq> None)
     (read_slot (vec_m_storage v) (sz_sub (vec_m_count v) 1))"

definition vec_at :: "'a vector \<Rightarrow> size_t \<Rightarrow> 'a run" where
  "vec_at v index = assert_then (index < vec_m_count v)
     (assert_then (vec_m_storage v \<noteq> None) (read_slot (vec_m_storage v) index))"

definition vec_size :: "'a vector \<Rightarrow> size_t" where
  "vec_size v = vec_m_count v"

definition vec_is_empty :: "'a vector \<Rightarrow> bool" where
  "vec_is_empty v = (vec_size v = 0)"

definition vec_capacity :: "'a vector \<Rightarrow> size_t" where
  "vec_capacity v = vec_m_capacity v"

section \<open>Representation\<close>

definition vec_rep :: "'a vector \<Rightarrow> 'a list \<Rightarrow> bool" where
  "vec_rep v xs \<longleftrightarrow>
     vec_m_storage v = Some (packed (vec_m_capacity v) xs) \<and> vec_m_count v = length xs \<and>
     length xs \<le> vec_m_capacity v \<and> 0 < vec_m_capacity v \<and> vec_m_capacity v < sz_range \<and>
     0 < vec_m_allocation_steps v \<and> vec_m_allocation_steps v < sz_range"

lemma packed_eq_iff: "length xs = length ys \<Longrightarrow> packed c xs = packed c ys \<longleftrightarrow> xs = ys"
  by (auto simp: packed_def dest: map_injective [OF _ injI])

lemma vec_rep_unique: "vec_rep v xs \<Longrightarrow> vec_rep v ys \<Longrightarrow> xs = ys"
  unfolding vec_rep_def by (metis option.inject packed_eq_iff)

text \<open>How many elements a vector can grow to before \<open>m_capacity + m_allocation_steps\<close> wraps.\<close>

definition vec_bound :: "'a vector \<Rightarrow> nat" where
  "vec_bound v = sz_range - vec_m_allocation_steps v"

lemma vec_destruct_used_objects_rep:
  "vec_rep v xs \<Longrightarrow> vec_destruct_used_objects v = Inr (v\<lparr>vec_m_storage := Some (packed (vec_m_capacity v) [])\<rparr>)"
  using destroy_slots_packed [of xs "vec_m_capacity v"]
  by (auto simp: vec_rep_def vec_destruct_used_objects_def ok_iff)

lemma vec_realloc_rep:
  assumes "vec_rep v xs" "vec_m_capacity v < n" "n < sz_range"
  shows "vec_realloc v n = Inr (v\<lparr>vec_m_capacity := n, vec_m_storage := Some (packed n xs)\<rparr>)"
  using assms vec_destruct_used_objects_rep [of v xs] copy_slots_packed [of xs "vec_m_capacity v" n]
  by (auto simp: vec_realloc_def vec_rep_def new_block_def ok_iff)

lemma vec_new_rep:
  assumes "0 < n" "n < sz_range" "0 < st" "st < sz_range"
  shows "ok (vec_new n st) (\<lambda>v. vec_rep v [] \<and> vec_m_allocation_steps v = st \<and> vec_m_capacity v = n)"
  using assms
  by (simp add: vec_new_def vec_realloc_def vec_destruct_used_objects_def destroy_slots_def copy_slots_def
      new_block_def vec_rep_def run_simps)

text \<open>Storage with the elements xs and one raw slot at position k.\<close>

definition with_gap :: "nat \<Rightarrow> nat \<Rightarrow> 'a list \<Rightarrow> 'a slot list" where
  "with_gap c k xs = padded c (map Live (take k xs) @ Raw # map Live (drop k xs))"

lemma with_gap_end: "length xs < c \<Longrightarrow> with_gap c (length xs) xs = packed c xs"
  using padded_Raw [of "map Live xs" c] by (simp add: with_gap_def padded_Live)

lemma with_gap_fill:
  assumes "k \<le> length xs" "length xs < c"
  shows "construct (Some (with_gap c k xs)) k x = Inr (Some (packed c (list_insert_at k x xs)))"
proof -
  have "ok (construct (Some (with_gap c k xs)) k x) (\<lambda>d. d = Some (packed c (list_insert_at k x xs)))"
    using assms
    by (auto simp: run_simps with_gap_def padded_nth nth_append padded_update list_update_append
        list_insert_at_def simp flip: padded_Live)
  then show ?thesis by (auto simp: ok_iff)
qed

lemma move_up_packed:
  assumes "k \<le> length xs" "length xs < n" "n < sz_range" "length xs \<le> c"
  shows "ok (for_up k (length xs)
          (\<lambda>i d. bindr (read_slot (Some (packed c xs)) i) (construct d (sz_add i 1)))
          (Some (packed n (take k xs)))) (\<lambda>d. d = Some (with_gap n k xs))"
proof -
  let ?I = "\<lambda>i d. d = Some (padded n (map Live (take k xs) @ Raw # map Live (drop k (take i xs))))"
  have "ok (for_up k (length xs)
          (\<lambda>i d. bindr (read_slot (Some (packed c xs)) i) (construct d (sz_add i 1)))
          (Some (packed n (take k xs)))) (?I (length xs))"
  proof (rule for_up_rule [where I = ?I], goal_cases)
    case 2
    then show ?case using assms padded_Raw [of "map Live (take k xs)" n] by (simp add: padded_Live)
  next
    case (3 i d)
    let ?s = "map Live (take k xs) @ Raw # map Live (drop k (take i xs))"
    have len: "length ?s = Suc i" using 3 assms by simp
    have "drop k (take (Suc i) xs) = drop k (take i xs) @ [xs ! i]"
      using 3 by (simp add: take_Suc_conv_app_nth)
    then have "ok (construct (Some (padded n ?s)) (Suc i) (xs ! i)) (?I (Suc i))"
      using 3 assms len padded_snoc [of ?s n "Live (xs ! i)"]
      by (simp add: run_simps padded_nth)
    then show ?case using 3 assms by (simp add: run_simps sz_simps)
  qed (use assms in simp)
  then show ?thesis using assms by (simp add: with_gap_def)
qed

lemma vec_realloc_with_free_spot_rep:
  assumes "vec_rep v xs" "k \<le> length xs" "vec_m_capacity v < n" "n < sz_range"
  shows "vec_realloc_with_free_spot v n k =
         Inr (v\<lparr>vec_m_capacity := n, vec_m_storage := Some (with_gap n k xs)\<rparr>)"
proof -
  have "length xs \<le> vec_m_capacity v" "vec_m_storage v = Some (packed (vec_m_capacity v) xs)"
    "vec_m_count v = length xs" using assms(1) by (auto simp: vec_rep_def)
  with assms vec_destruct_used_objects_rep [of v xs] copy_prefix_packed [of xs "vec_m_capacity v" k n]
    move_up_packed [of k xs n "vec_m_capacity v"]
  show ?thesis
    by (auto simp: vec_realloc_with_free_spot_def new_block_def ok_iff sz_simps)
qed

lemma make_free_spot_packed:
  assumes "k \<le> length xs" "length xs < c" "triv"
  shows "ok (for_down (length xs) k (vec_shift_up triv) (Some (packed c xs))) (\<lambda>d. d = Some (with_gap c k xs))"
proof (rule for_down_rule [where I = "\<lambda>i d. d = Some (with_gap c i xs)"], goal_cases)
  case (3 i d)
  then obtain j where j: "i = Suc j" "j < length xs" using assms by (cases i) auto
  then have t: "take i xs = take j xs @ [xs ! j]" "drop j xs = xs ! j # drop i xs"
    by (simp_all add: take_Suc_conv_app_nth Cons_nth_drop_Suc)
  with j assms 3 show ?case
    by (simp add: vec_shift_up_def run_simps with_gap_def padded_nth nth_append padded_update
        list_update_append)
qed (use assms in \<open>simp_all add: with_gap_end\<close>)

lemma vec_insert_rep_grow:
  assumes "vec_rep v xs" "k \<le> length xs" "length xs = vec_m_capacity v" "length xs < vec_bound v"
  shows "ok (vec_insert triv v k x) (\<lambda>(i, v'). i = k \<and> vec_rep v' (list_insert_at k x xs) \<and>
           vec_bound v' = vec_bound v)"
proof -
  define n where "n = vec_m_capacity v + vec_m_allocation_steps v"
  have n: "vec_m_capacity v < n" "n < sz_range" "sz_add (vec_m_capacity v) (vec_m_allocation_steps v) = n"
    using assms by (auto simp: n_def vec_bound_def vec_rep_def sz_simps)
  have "construct (Some (with_gap n k xs)) k x = Inr (Some (packed n (list_insert_at k x xs)))"
    using n assms by (intro with_gap_fill) auto
  with assms n vec_realloc_with_free_spot_rep [of v xs k n] show ?thesis
    by (auto simp: vec_insert_def vec_rep_def vec_bound_def run_simps sz_simps
        simp del: construct.simps)
qed

lemma vec_insert_rep_shift:
  assumes "vec_rep v xs" "k \<le> length xs" "length xs < vec_m_capacity v" "triv"
  shows "ok (vec_insert triv v k x) (\<lambda>(i, v'). i = k \<and> vec_rep v' (list_insert_at k x xs) \<and>
           vec_bound v' = vec_bound v)"
  using assms with_gap_fill [of k xs "vec_m_capacity v" x]
    make_free_spot_packed [of k xs "vec_m_capacity v" triv]
  by (auto simp: vec_insert_def vec_make_free_spot_def vec_rep_def vec_bound_def ok_iff sz_simps
      simp del: construct.simps)

lemma vec_insert_rep_end:
  assumes "vec_rep v xs" "length xs < vec_m_capacity v"
  shows "ok (vec_insert triv v (length xs) x) (\<lambda>(i, v'). i = length xs \<and> vec_rep v' (xs @ [x]) \<and>
           vec_bound v' = vec_bound v)"
  using assms packed_snoc [of xs "vec_m_capacity v" x]
  by (auto simp: vec_insert_def vec_make_free_spot_def vec_rep_def vec_bound_def run_simps sz_simps)

lemma vec_insert_rep:
  assumes "vec_rep v xs" "k \<le> length xs" "length xs < vec_bound v"
    and "triv \<or> k = length xs \<or> length xs = vec_m_capacity v"
  shows "ok (vec_insert triv v k x) (\<lambda>(i, v'). i = k \<and> vec_rep v' (list_insert_at k x xs) \<and>
           vec_bound v' = vec_bound v)"
proof -
  have "length xs \<le> vec_m_capacity v" using assms by (simp add: vec_rep_def)
  then consider "length xs = vec_m_capacity v" | "length xs < vec_m_capacity v" "triv"
    | "length xs < vec_m_capacity v" "k = length xs"
    using assms(4) by linarith
  then show ?thesis
  proof cases
    case 1
    with assms show ?thesis by (intro vec_insert_rep_grow)
  next
    case 2
    with assms show ?thesis by (intro vec_insert_rep_shift)
  next
    case 3
    with assms vec_insert_rep_end [of v xs triv x] show ?thesis by simp
  qed
qed

text \<open>\<open>emplace\<close> has the body of \<open>insert\<close>.\<close>

lemma vec_emplace_eq: "vec_emplace = vec_insert"
  by (intro ext) (simp add: vec_emplace_def vec_insert_def)

lemma vec_remove_rep:
  assumes "vec_rep v xs" "k < length xs"
  shows "ok (vec_remove triv v k) (\<lambda>v'. vec_rep v' (list_remove_at k xs) \<and> vec_bound v' = vec_bound v \<and>
           vec_m_capacity v' = vec_m_capacity v)"
proof -
  define ys where "ys = list_remove_at k xs"
  define n where "n = length xs - 1"
  have n: "length xs = Suc n" "length ys = n" "k \<le> n" using assms by (auto simp: n_def ys_def)
  let ?c = "vec_m_capacity v"
  have c: "Suc n \<le> ?c" "?c < sz_range" using assms n by (auto simp: vec_rep_def)
  have ysi: "ys ! i = xs ! Suc i" if "k \<le> i" "i < n" for i
    using that n by (auto simp: ys_def list_remove_at_def nth_append)
  have "ok (for_up k n (\<lambda>i d. bindr (read_slot d (sz_add i 1)) (assign_slot triv d i)) (Some (packed ?c xs)))
      (\<lambda>d. d = Some (packed ?c (take n ys @ drop n xs)))"
  proof (rule for_up_rule [where I = "\<lambda>i d. d = Some (packed ?c (take i ys @ drop i xs))"], goal_cases)
    case 1
    then show ?case using n by simp
  next
    case 2
    then show ?case using n by (simp add: ys_def list_remove_at_def)
  next
    case (3 i d)
    have l: "length (take i ys @ drop i xs) = Suc n" using 3 n by simp
    have e: "(take i ys @ drop i xs)[i := xs ! Suc i] = take (Suc i) ys @ drop (Suc i) xs"
      using 3 n ysi [of i]
      by (simp add: list_update_append take_Suc_conv_app_nth Cons_nth_drop_Suc [symmetric])
    have "(take i ys @ drop i xs) ! Suc i = xs ! Suc i" using 3 n by (simp add: nth_append)
    with 3 n c l e packed_update [of i "take i ys @ drop i xs" ?c "xs ! Suc i"] show ?case
      by (simp add: run_simps sz_simps)
  qed
  moreover have "take n ys @ drop n xs = ys @ [xs ! n]"
    using n by (simp add: Cons_nth_drop_Suc [symmetric])
  ultimately have "for_up k n (\<lambda>i d. bindr (read_slot d (sz_add i 1)) (assign_slot triv d i)) (Some (packed ?c xs))
      = Inr (Some (packed ?c (ys @ [xs ! n])))" by (auto simp: ok_iff)
  with assms n c packed_unsnoc [of ys ?c "xs ! n"] show ?thesis
    unfolding ys_def [symmetric]
    by (auto simp: vec_remove_def vec_rep_def vec_bound_def run_simps sz_simps)
qed

lemma vec_at_rep: "vec_rep v xs \<Longrightarrow> i < length xs \<Longrightarrow> vec_at v i = Inr (xs ! i)"
  by (simp add: vec_at_def vec_rep_def)

lemma vec_at_out: "vec_rep v xs \<Longrightarrow> length xs \<le> i \<Longrightarrow> vec_at v i = Inl AssertFailed"
  by (simp add: vec_at_def vec_rep_def)

lemma vec_deref_rep: "vec_rep v xs \<Longrightarrow> i < length xs \<Longrightarrow> vec_deref v i = Inr (xs ! i)"
  by (simp add: vec_deref_def vec_rep_def)

lemma vec_end_rep: "vec_rep v xs \<Longrightarrow> vec_end v = length xs"
  by (simp add: vec_end_def vec_rep_def)

lemma vec_it_inc_rep: "vec_rep v xs \<Longrightarrow> i < length xs \<Longrightarrow> vec_it_inc i = Suc i"
  by (simp add: vec_it_inc_def vec_rep_def sz_simps)

lemmas vec_loop_simps = vec_end_rep vec_it_inc_rep vec_deref_rep

text \<open>A vector of trivially copyable objects is an editable sequence.\<close>

definition vec_insert_at :: "'a vector \<Rightarrow> size_t \<Rightarrow> 'a \<Rightarrow> 'a vector run" where
  "vec_insert_at v i x = bindr (vec_insert True v i x) (\<lambda>(_, v'). Inr v')"

interpretation vseq: editable_sequence vec_insert_at "vec_remove True" vec_at vec_bound vec_rep
proof (unfold_locales, goal_cases)
  case (1 v xs i x)
  with vec_insert_rep [of v xs i True x] show ?case
    by (auto simp: vec_insert_at_def run_simps elim!: ok_mono)
next
  case (2 v xs i)
  with vec_remove_rep [of v xs i True] show ?case by (auto elim!: ok_mono)
next
  case (3 v xs i)
  then show ?case by (rule vec_at_rep)
qed

lemma vec_find_loop_rep:
  "vec_rep v xs \<Longrightarrow> i \<le> length xs \<Longrightarrow> length xs - i \<le> fuel \<Longrightarrow>
   vec_find_loop P fuel i v = Inr (i + length (takeWhile (\<lambda>x. \<not> P x) (drop i xs)))"
proof (induction fuel arbitrary: i)
  case 0
  then show ?case by (simp add: vec_loop_simps)
next
  case (Suc fuel)
  show ?case
  proof (cases "i = length xs")
    case False
    with Suc.prems have i: "i < length xs" by simp
    then have "drop i xs = xs ! i # drop (Suc i) xs" by (simp add: Cons_nth_drop_Suc)
    with i Suc show ?thesis by (simp add: vec_loop_simps)
  qed (use Suc.prems in \<open>simp add: vec_loop_simps\<close>)
qed

declare vec_find_loop.simps [simp del] vec_remove_if_loop.simps [simp del]

lemma vec_find_if_rep: "vec_rep v xs \<Longrightarrow> vec_find_if P v = Inr (length (takeWhile (\<lambda>x. \<not> P x) xs))"
  using vec_find_loop_rep [of v xs 0 "vec_m_count v" P]
  by (simp add: vec_find_if_def vec_begin_def vec_rep_def)

lemma vec_remove_if_loop_rep:
  "vec_rep v (ys @ zs) \<Longrightarrow> length zs \<le> fuel \<Longrightarrow>
   ok (vec_remove_if_loop triv P fuel (length ys) b v)
     (\<lambda>(r, v'). r = (b \<or> (\<exists>z\<in>set zs. P z)) \<and> vec_rep v' (ys @ filter (\<lambda>x. \<not> P x) zs))"
proof (induction fuel arbitrary: v ys zs b)
  case 0
  then show ?case by (simp add: vec_remove_if_loop.simps vec_loop_simps run_simps)
next
  case (Suc fuel)
  show ?case
  proof (cases zs)
    case Nil
    with Suc.prems show ?thesis by (simp add: vec_remove_if_loop.simps vec_loop_simps run_simps)
  next
    case (Cons z zs')
    with Suc.prems vec_deref_rep [of v "ys @ zs" "length ys"]
      vec_it_inc_rep [of v "ys @ zs" "length ys"] vec_end_rep [of v "ys @ zs"]
    have step: "vec_remove_if_loop triv P (Suc fuel) (length ys) b v =
      (if P z then bindr (vec_remove triv v (length ys)) (vec_remove_if_loop triv P fuel (length ys) True)
       else vec_remove_if_loop triv P fuel (length (ys @ [z])) b v)"
      by (simp add: vec_remove_if_loop.simps [of _ _ "Suc fuel"])
    show ?thesis
    proof (cases "P z")
      case True
      have "list_remove_at (length ys) (ys @ zs) = ys @ zs'" using Cons by (simp add: list_remove_at_def)
      then have "ok (vec_remove triv v (length ys)) (\<lambda>v'. vec_rep v' (ys @ zs'))"
        using Suc.prems Cons vec_remove_rep [of v "ys @ zs" "length ys" triv] by (auto elim!: ok_mono)
      moreover have "ok (vec_remove_if_loop triv P fuel (length ys) True v')
          (\<lambda>(r, v'). r \<and> vec_rep v' (ys @ filter (\<lambda>x. \<not> P x) zs'))" if "vec_rep v' (ys @ zs')" for v'
        using Suc.IH [OF that, of True] Suc.prems Cons by (auto elim!: ok_mono)
      ultimately show ?thesis using True Cons step by (auto simp: run_simps elim!: ok_mono)
    next
      case False
      with Suc.IH [of v "ys @ [z]" zs' b] Suc.prems Cons step show ?thesis by simp
    qed
  qed
qed

lemma vec_remove_if_rep:
  "vec_rep v xs \<Longrightarrow> ok (vec_remove_if triv P v)
     (\<lambda>(r, v'). r = (\<exists>x\<in>set xs. P x) \<and> vec_rep v' (filter (\<lambda>x. \<not> P x) xs))"
  using vec_remove_if_loop_rep [of v "[]" xs "vec_m_count v" triv P False]
  by (simp add: vec_remove_if_def vec_begin_def vec_rep_def)

section \<open>Properties\<close>

text \<open>
  (C15) A vector of trivially copyable objects, built with any initial capacity n and growth
  step st, behaves under every sequence of \<open>insert\<close>, \<open>remove\<close> and \<open>operator[]\<close> calls at valid
  positions as the list it stands for: no fault, the same values read, the same contents at
  the end, and the storage invariant holds again. The only limit is the one of \<open>size_t\<close>: the
  capacity plus the growth step must not wrap.
\<close>

theorem vec_sequence_refinement:
  assumes "0 < n" "n < sz_range" "0 < st" "st < sz_range" "seq_valid (sz_range - st) ops []"
  shows "ok (bindr (vec_new n st) (seq_run vec_insert_at (vec_remove True) vec_at ops))
           (\<lambda>(ys, v). ys = fst (seq_spec ops []) \<and> vec_rep v (snd (seq_spec ops [])))"
proof (rule ok_bindI [OF vec_new_rep [OF assms(1-4)]], goal_cases)
  case (1 v)
  with assms(5) show ?case by (intro vseq.seq_run_spec) (auto simp: vec_bound_def)
qed

theorem vec_sequence_refinement_witness:
  "ok (bindr (vec_new 1 2) (seq_run vec_insert_at (vec_remove True) vec_at
       [InsertAt 0 (4::nat), InsertAt 0 5, InsertAt 1 6, RemoveAt 0, GetAt 0]))
     (\<lambda>(ys, v). ys = [6] \<and> vec_rep v [6, 4])"
  using vec_sequence_refinement
    [of 1 2 "[InsertAt 0 (4::nat), InsertAt 0 5, InsertAt 1 6, RemoveAt 0, GetAt 0]"]
  by (simp add: list_insert_at_def list_remove_at_def)

text \<open>
  \<open>remove_if\<close> ends, removes exactly the elements that satisfy the predicate, keeps the
  order of the others, and reports whether it removed any; \<open>find_if\<close> returns the position of
  the first match, or \<open>end()\<close>. Both hold for every element type.
\<close>

theorem vec_remove_if_filters:
  assumes "vec_rep v xs"
  shows "ok (vec_remove_if triv P v)
      (\<lambda>(r, v'). r = (\<exists>x\<in>set xs. P x) \<and> vec_rep v' (filter (\<lambda>x. \<not> P x) xs)) \<and>
    vec_find_if P v = Inr (length (takeWhile (\<lambda>x. \<not> P x) xs))"
  using vec_remove_if_rep [OF assms] vec_find_if_rep [OF assms] by blast

theorem vec_remove_if_filters_witness:
  "ok (vec_remove_if False even \<lparr>vec_m_storage = Some [Live (4::nat), Live 7, Raw], vec_m_count = 2,
      vec_m_capacity = 3, vec_m_allocation_steps = 1\<rparr>) (\<lambda>(r, v'). r \<and> vec_rep v' [7])"
proof -
  have "vec_rep \<lparr>vec_m_storage = Some [Live (4::nat), Live 7, Raw], vec_m_count = 2,
      vec_m_capacity = 3, vec_m_allocation_steps = 1\<rparr> [4, 7]" by (simp add: vec_rep_def packed_def)
  from vec_remove_if_filters [OF this, of False even] show ?thesis by simp
qed

text \<open>
  \<open>push_back\<close> and \<open>emplace_back\<close> are safe for every element type, trivially copyable or not,
  with and without growth: the new element is the last one and the others keep their place.
\<close>

theorem vec_push_back_appends:
  assumes "vec_rep v xs" "length xs < vec_bound v"
  shows "ok (vec_push_back triv v x) (\<lambda>(i, v'). i = length xs \<and> vec_rep v' (xs @ [x])) \<and>
         vec_emplace_back triv v x = vec_push_back triv v x"
  using vec_insert_rep [OF assms(1) le_refl assms(2), of triv x] vec_end_rep [OF assms(1)]
  by (auto simp: vec_push_back_def vec_emplace_back_def vec_emplace_eq elim!: ok_mono)

theorem vec_push_back_appends_witness:
  "ok (vec_push_back False \<lparr>vec_m_storage = Some [Live (4::nat), Live 7], vec_m_count = 2,
      vec_m_capacity = 2, vec_m_allocation_steps = 3\<rparr> 9) (\<lambda>(i, v'). i = 2 \<and> vec_rep v' [4, 7, 9])"
proof -
  have "vec_rep \<lparr>vec_m_storage = Some [Live (4::nat), Live 7], vec_m_count = 2,
      vec_m_capacity = 2, vec_m_allocation_steps = 3\<rparr> [4, 7]" by (simp add: vec_rep_def packed_def)
  from vec_push_back_appends [OF this, of False 9] show ?thesis by (simp add: vec_bound_def numeral_2_eq_2)
qed

text \<open>
  Inserting before the end of a vector with spare capacity assigns to a slot that holds no
  object (\<open>make_free_spot\<close>), which for an element type with a real assignment operator is a use
  of an object outside its lifetime.
\<close>

theorem vec_insert_assigns_raw_storage:
  assumes "vec_rep v xs" "k < length xs" "length xs < vec_m_capacity v"
  shows "vec_insert False v k x = Inl Lifetime"
proof -
  have "vec_shift_up False (length xs) (Some (packed (vec_m_capacity v) xs)) = Inl Lifetime"
    using assms by (simp add: vec_shift_up_def)
  with assms have "for_down (length xs) k (vec_shift_up False) (Some (packed (vec_m_capacity v) xs)) = Inl Lifetime"
    by (simp add: for_down_step)
  with assms show ?thesis
    by (simp add: vec_insert_def vec_make_free_spot_def vec_rep_def sz_simps)
qed

theorem vec_insert_assigns_raw_storage_witness:
  "vec_insert False \<lparr>vec_m_storage = Some [Live (4::nat), Raw], vec_m_count = 1,
      vec_m_capacity = 2, vec_m_allocation_steps = 1\<rparr> 0 9 = Inl Lifetime"
  by (rule vec_insert_assigns_raw_storage [of _ "[4]"]) (simp_all add: vec_rep_def packed_def)

text \<open>
  The copy constructor allocates \<open>m_count\<close> slots but takes over \<open>m_capacity\<close>: appending to a
  copy of a vector that had spare capacity writes outside the copy's storage, and the copy of
  an empty vector has no storage at all, so that the append fails an assertion.
\<close>

theorem vec_copy_loses_capacity:
  assumes "vec_rep v xs" "length xs < vec_m_capacity v"
  shows "bindr (vec_copy v) (\<lambda>v'. vec_push_back triv v' x) =
         Inl (if xs = [] then AssertFailed else BadAccess)"
proof (cases "xs = []")
  case True
  with assms show ?thesis
    by (simp add: vec_copy_def vec_copy_storage_def copy_slots_def new_block_def vec_push_back_def
        vec_insert_def vec_rep_def)
next
  case False
  have "vec_copy v = Inr (v\<lparr>vec_m_storage := Some (map Live xs)\<rparr>)"
    using assms False copy_slots_packed [of xs "vec_m_capacity v" "length xs"]
    by (auto simp: vec_copy_def vec_copy_storage_def new_block_def vec_rep_def ok_iff packed_def)
  with assms False show ?thesis
    by (simp add: vec_push_back_def vec_end_def vec_insert_def vec_make_free_spot_def vec_rep_def sz_simps)
qed

theorem vec_copy_loses_capacity_witness:
  "bindr (vec_copy \<lparr>vec_m_storage = Some [Live (4::nat), Raw], vec_m_count = 1,
      vec_m_capacity = 2, vec_m_allocation_steps = 1\<rparr>) (\<lambda>v'. vec_push_back True v' 9) = Inl BadAccess"
  using vec_copy_loses_capacity [of "\<lparr>vec_m_storage = Some [Live (4::nat), Raw], vec_m_count = 1,
      vec_m_capacity = 2, vec_m_allocation_steps = 1\<rparr>" "[4]" True 9]
  by (simp add: vec_rep_def packed_def)

end
