(* ===== verification/Bit_Scan.thy ===== *)
theory Bit_Scan
  imports Prelude
begin

unbundle bit_operations_syntax

text \<open>
  Bits in byte arrays, shared by the bitmaps of the standard library and the physical page
  tracer: the macros \<open>CHECK_BIT\<close>/\<open>TEST_BIT\<close>, setting and clearing bit p of the array, and the
  abstract search for the first run of bits, with the invariant that the scanning loops keep.
\<close>

type_synonym u8 = "8 word"

section \<open>Single bits\<close>

text \<open>\<open>CHECK_BIT(value, bit)\<close> of bitmap.h and \<open>TEST_BIT(value, bit)\<close> of physical.h.\<close>

definition CHECK_BIT :: "u8 \<Rightarrow> nat \<Rightarrow> u8" where
  "CHECK_BIT v k = drop_bit k v AND 1"

lemma CHECK_BIT_0: "CHECK_BIT v k = 0 \<longleftrightarrow> \<not> bit v k"
  by (simp add: CHECK_BIT_def and_one_eq mod_2_eq_odd bit_iff_odd_drop_bit)

text \<open>\<open>data[p / 8] |= (1 << (p % 8))\<close> and \<open>data[p / 8] &= ~(1 << (p % 8))\<close>.\<close>

definition or_bit :: "u8 list \<Rightarrow> size_t \<Rightarrow> u8 list run" where
  "or_bit data p = bindr (arr_get data (p div 8)) (\<lambda>v.
     arr_set data (p div 8) (v OR push_bit (p mod 8) 1))"

definition and_not_bit :: "u8 list \<Rightarrow> size_t \<Rightarrow> u8 list run" where
  "and_not_bit data p = bindr (arr_get data (p div 8)) (\<lambda>v.
     arr_set data (p div 8) (v AND NOT (push_bit (p mod 8) 1)))"

text \<open>The bit at position p of the array.\<close>

definition bit_at :: "u8 list \<Rightarrow> nat \<Rightarrow> bool" where
  "bit_at data p = bit (data ! (p div 8)) (p mod 8)"

lemma bit_or_one: "n < 8 \<Longrightarrow> bit ((v :: u8) OR 2 ^ k) n \<longleftrightarrow> bit v n \<or> n = k"
  by (auto simp: bit_or_iff bit_exp_iff)

lemma bit_and_not_one: "n < 8 \<Longrightarrow> bit ((v :: u8) AND NOT (2 ^ k)) n \<longleftrightarrow> bit v n \<and> n \<noteq> k"
  by (auto simp: bit_and_iff bit_not_iff bit_exp_iff)

lemma div_mod_8_eq: "p div 8 = q div 8 \<Longrightarrow> p mod 8 = q mod 8 \<Longrightarrow> p = (q :: nat)"
  by (metis div_mult_mod_eq)

lemma ok_or_bit:
  assumes "p < 8 * length data"
  shows "ok (or_bit data p) (\<lambda>d. length d = length data \<and> (\<forall>q. bit_at d q \<longleftrightarrow> bit_at data q \<or> q = p))"
proof -
  have "p div 8 < length data" using assms by linarith
  then show ?thesis
    by (auto simp: or_bit_def run_simps bit_at_def nth_list_update bit_or_one dest: div_mod_8_eq)
qed

lemma ok_and_not_bit:
  assumes "p < 8 * length data"
  shows "ok (and_not_bit data p) (\<lambda>d. length d = length data \<and> (\<forall>q. bit_at d q \<longleftrightarrow> bit_at data q \<and> q \<noteq> p))"
proof -
  have "p div 8 < length data" using assms by linarith
  then show ?thesis
    by (auto simp: and_not_bit_def run_simps bit_at_def nth_list_update bit_and_not_one dest: div_mod_8_eq)
qed

section \<open>Ranges of bits\<close>

text \<open>
  The loop \<open>current = position; for (i = 0; i < count; i++) { \<dots>; current++; }\<close> around one of the
  two updates.
\<close>

definition set_bits_loop :: "size_t \<Rightarrow> size_t \<Rightarrow> u8 list \<Rightarrow> u8 list run" where
  "set_bits_loop position count data =
     bindr (for_up 0 count (\<lambda>i (d, current). bindr (or_bit d current) (\<lambda>d'. Inr (d', sz_add current 1)))
        (data, position)) (\<lambda>(d, _). Inr d)"

definition clear_bits_loop :: "size_t \<Rightarrow> size_t \<Rightarrow> u8 list \<Rightarrow> u8 list run" where
  "clear_bits_loop position count data =
     bindr (for_up 0 count (\<lambda>i (d, current). bindr (and_not_bit d current) (\<lambda>d'. Inr (d', sz_add current 1)))
        (data, position)) (\<lambda>(d, _). Inr d)"

lemma ok_set_bits_loop:
  assumes "position + count \<le> 8 * length data" "position + count < sz_range"
  shows "ok (set_bits_loop position count data)
     (\<lambda>d. length d = length data \<and>
          (\<forall>q. bit_at d q \<longleftrightarrow> bit_at data q \<or> position \<le> q \<and> q < position + count))"
proof -
  let ?I = "\<lambda>i (d, current). current = position + i \<and> length d = length data \<and>
          (\<forall>q. bit_at d q \<longleftrightarrow> bit_at data q \<or> position \<le> q \<and> q < position + i)"
  have "ok (for_up 0 count (\<lambda>i (d, current). bindr (or_bit d current) (\<lambda>d'. Inr (d', sz_add current 1)))
        (data, position)) (?I count)"
  proof (rule for_up_rule [where I = ?I], goal_cases)
    case (3 i s)
    obtain d current where s: "s = (d, current)" by fastforce
    have "ok (or_bit d current) (\<lambda>d'. length d' = length d \<and> (\<forall>q. bit_at d' q \<longleftrightarrow> bit_at d q \<or> q = current))"
      using 3 s assms by (intro ok_or_bit) auto
    then have "ok (or_bit d current) (\<lambda>d'. ?I (Suc i) (d', sz_add current 1))"
      by (rule ok_mono) (use 3 s assms in \<open>auto simp: sz_simps\<close>)
    with s show ?case by (simp add: run_simps)
  qed auto
  then show ?thesis unfolding set_bits_loop_def ok_bindr by (rule ok_mono) (auto simp: run_simps)
qed

lemma ok_clear_bits_loop:
  assumes "position + count \<le> 8 * length data" "position + count < sz_range"
  shows "ok (clear_bits_loop position count data)
     (\<lambda>d. length d = length data \<and>
          (\<forall>q. bit_at d q \<longleftrightarrow> bit_at data q \<and> (q < position \<or> position + count \<le> q)))"
proof -
  let ?I = "\<lambda>i (d, current). current = position + i \<and> length d = length data \<and>
          (\<forall>q. bit_at d q \<longleftrightarrow> bit_at data q \<and> (q < position \<or> position + i \<le> q))"
  have "ok (for_up 0 count (\<lambda>i (d, current). bindr (and_not_bit d current) (\<lambda>d'. Inr (d', sz_add current 1)))
        (data, position)) (?I count)"
  proof (rule for_up_rule [where I = ?I], goal_cases)
    case (3 i s)
    obtain d current where s: "s = (d, current)" by fastforce
    have "ok (and_not_bit d current) (\<lambda>d'. length d' = length d \<and> (\<forall>q. bit_at d' q \<longleftrightarrow> bit_at d q \<and> q \<noteq> current))"
      using 3 s assms by (intro ok_and_not_bit) auto
    then have "ok (and_not_bit d current) (\<lambda>d'. ?I (Suc i) (d', sz_add current 1))"
    proof (rule ok_mono)
      fix d' assume d': "length d' = length d \<and> (\<forall>q. bit_at d' q \<longleftrightarrow> bit_at d q \<and> q \<noteq> current)"
      have "(q < position \<or> position + i \<le> q) \<and> q \<noteq> position + i \<longleftrightarrow> q < position \<or> position + Suc i \<le> q" for q
        by linarith
      with d' 3 s assms show "?I (Suc i) (d', sz_add current 1)" by (simp add: sz_simps)
    qed
    with s show ?case by (simp add: run_simps)
  qed auto
  then show ?thesis unfolding clear_bits_loop_def ok_bindr by (rule ok_mono) (auto simp: run_simps)
qed

section \<open>The first run of bits\<close>

text \<open>
  The lowest position p from lo on such that the \<open>count\<close> positions from p, all below hi, satisfy P.
\<close>

definition first_run :: "(nat \<Rightarrow> bool) \<Rightarrow> nat \<Rightarrow> nat \<Rightarrow> nat \<Rightarrow> nat option" where
  "first_run P lo hi count = find (\<lambda>p. \<forall>j<count. P (p + j)) [lo..<Suc hi - count]"

lemma first_run_Some_iff:
  "first_run P lo hi count = Some p \<longleftrightarrow>
     lo \<le> p \<and> p + count \<le> hi \<and> p < Suc hi - count \<and> (\<forall>j<count. P (p + j)) \<and>
     (\<forall>q. lo \<le> q \<and> q < p \<longrightarrow> (\<exists>j<count. \<not> P (q + j)))"
proof
  assume "first_run P lo hi count = Some p"
  then obtain i where "i < Suc hi - count - lo" "p = lo + i" "\<forall>j<count. P (p + j)"
    "\<forall>k<i. \<not> (\<forall>j<count. P (lo + k + j))"
    by (auto simp: first_run_def find_Some_iff)
  moreover have "\<exists>j<count. \<not> P (q + j)" if "lo \<le> q" "q < p" for q
    using that \<open>p = lo + i\<close> \<open>\<forall>k<i. \<not> (\<forall>j<count. P (lo + k + j))\<close>
    by (metis add_less_cancel_left le_Suc_ex)
  ultimately show "lo \<le> p \<and> p + count \<le> hi \<and> p < Suc hi - count \<and> (\<forall>j<count. P (p + j)) \<and>
     (\<forall>q. lo \<le> q \<and> q < p \<longrightarrow> (\<exists>j<count. \<not> P (q + j)))" by auto
next
  assume r: "lo \<le> p \<and> p + count \<le> hi \<and> p < Suc hi - count \<and> (\<forall>j<count. P (p + j)) \<and>
     (\<forall>q. lo \<le> q \<and> q < p \<longrightarrow> (\<exists>j<count. \<not> P (q + j)))"
  then have "p - lo < length [lo..<Suc hi - count] \<and> (\<forall>j<count. P ([lo..<Suc hi - count] ! (p - lo) + j)) \<and>
      p = [lo..<Suc hi - count] ! (p - lo) \<and>
      (\<forall>k<p - lo. \<not> (\<forall>j<count. P ([lo..<Suc hi - count] ! k + j)))"
    by auto
  then show "first_run P lo hi count = Some p"
    unfolding first_run_def find_Some_iff by blast
qed

lemma first_run_None_iff:
  "first_run P lo hi count = None \<longleftrightarrow>
     (\<forall>p. lo \<le> p \<and> p < Suc hi - count \<longrightarrow> (\<exists>j<count. \<not> P (p + j)))"
  by (auto simp: first_run_def find_None_iff)

text \<open>
  What a scan from lo knows at position i, \<open>run\<close> matching bits behind it: no complete run ended
  before i, and the current run cannot be extended to the left.
\<close>

definition scan_inv :: "(nat \<Rightarrow> bool) \<Rightarrow> nat \<Rightarrow> nat \<Rightarrow> nat \<Rightarrow> nat \<Rightarrow> bool" where
  "scan_inv P lo count i r \<longleftrightarrow>
     r < count \<and> lo + r \<le> i \<and> (\<forall>p. i - r \<le> p \<and> p < i \<longrightarrow> P p) \<and>
     (\<forall>p. lo \<le> p \<and> p < i - r \<longrightarrow> (\<exists>q\<ge>p. q < p + count \<and> q < i \<and> \<not> P q))"

lemma scan_start: "0 < count \<Longrightarrow> scan_inv P lo count lo 0"
  by (auto simp: scan_inv_def)

lemma scan_hit:
  assumes "scan_inv P lo count i r" "P i" "Suc r < count"
  shows "scan_inv P lo count (Suc i) (Suc r)"
  unfolding scan_inv_def
proof (intro conjI allI impI, goal_cases)
  case (3 p)
  with assms show ?case by (cases "p = i") (auto simp: scan_inv_def)
next
  case (4 p)
  with assms obtain q where "p \<le> q" "q < p + count" "q < i" "\<not> P q" by (auto simp: scan_inv_def)
  then show ?case by (intro exI [of _ q]) simp
qed (use assms in \<open>auto simp: scan_inv_def\<close>)

lemma scan_miss:
  assumes "scan_inv P lo count i r" "\<not> P i"
  shows "scan_inv P lo count (Suc i) 0"
  unfolding scan_inv_def
proof (intro conjI allI impI, goal_cases)
  case (4 p)
  show ?case
  proof (cases "p < i - r")
    case True
    with assms 4 show ?thesis by (force simp: scan_inv_def)
  next
    case False
    with assms 4 have "i < p + count" by (auto simp: scan_inv_def)
    with assms 4 show ?thesis by (intro exI [of _ i]) auto
  qed
qed (use assms in \<open>auto simp: scan_inv_def\<close>)

lemma scan_misses:
  "scan_inv P lo count i r \<Longrightarrow> (\<And>j. j < Suc n \<Longrightarrow> \<not> P (i + j)) \<Longrightarrow> scan_inv P lo count (i + Suc n) 0"
proof (induction n)
  case 0
  then show ?case using scan_miss [of P lo count i r] by force
next
  case (Suc n)
  then have "scan_inv P lo count (i + Suc n) 0" by simp
  with Suc.prems(2) [of "Suc n"] show ?case using scan_miss [of P lo count "i + Suc n" 0] by simp
qed

lemma scan_found:
  assumes "scan_inv P lo count i r" "P i" "Suc r = count" "i < hi"
  shows "first_run P lo hi count = Some (Suc i - count)"
  unfolding first_run_Some_iff
proof (intro conjI allI impI, goal_cases)
  case (4 j)
  define p where "p = Suc i - count + j"
  have "i - r \<le> p" "p \<le> i" using assms 4 by (auto simp: p_def scan_inv_def)
  with assms have "P p" by (cases "p = i") (auto simp: scan_inv_def)
  then show ?case by (simp add: p_def)
next
  case (5 q)
  with assms obtain k where "q \<le> k" "k < q + count" "\<not> P k" by (force simp: scan_inv_def)
  then show ?case by (intro exI [of _ "k - q"]) auto
qed (use assms in \<open>auto simp: scan_inv_def\<close>)

lemma scan_end:
  assumes "scan_inv P lo count i r" "hi \<le> i"
  shows "first_run P lo hi count = None"
  unfolding first_run_None_iff
proof (intro allI impI)
  fix p assume p: "lo \<le> p \<and> p < Suc hi - count"
  with assms have "p < i - r" by (auto simp: scan_inv_def)
  with p assms obtain k where "p \<le> k" "k < p + count" "\<not> P k" by (force simp: scan_inv_def)
  then show "\<exists>j<count. \<not> P (p + j)" by (intro exI [of _ "k - p"]) auto
qed

end
