(* ===== verification/Bitmaps.thy ===== *)
theory Bitmaps
  imports Bit_Scan Interfaces
begin

text \<open>
  \<open>Bitmap\<close> (bitmap.h, bitmap.cpp) and \<open>StaticBitmap<bitmap_size>\<close> (static_bitmap.h). Both keep
  \<open>size / 8 + 1\<close> bytes; the static one has its size as a template argument, which the model passes
  as the first argument of its operations. The searches are exact for a single bit from a byte
  boundary and for a range where no byte is skipped; a byte that is skipped does not end the
  run counted so far (\<open>bitmap_range_search_skips\<close>).
\<close>

definition BITMAP_NO_BITS_LEFT :: size_t where
  "BITMAP_NO_BITS_LEFT = 0xFFFFFFFF"

section \<open>The search loop\<close>

text \<open>
  The loop of \<open>find_first_clear_range\<close> (skip = 0xFF, hit = bit clear) and of
  \<open>find_first_set_range\<close> (skip = 0, hit = bit set). Every iteration advances \<open>bit_index\<close>, so
  \<open>bitmap_size\<close> iterations of fuel are enough unless \<open>bit_index + 8\<close> wraps.
\<close>

fun find_range_loop :: "u8 \<Rightarrow> (u8 \<Rightarrow> nat \<Rightarrow> bool) \<Rightarrow> u8 list \<Rightarrow> size_t \<Rightarrow> size_t \<Rightarrow> nat \<Rightarrow>
    size_t \<Rightarrow> size_t \<Rightarrow> size_t run" where
  "find_range_loop skip hit data bitmap_size count fuel bit_index remaining_count =
     (if bit_index < bitmap_size then
        case fuel of 0 \<Rightarrow> Inl OutOfFuel
        | Suc fuel' \<Rightarrow> bindr (arr_get data (bit_index div 8)) (\<lambda>v.
            if v = skip
            then find_range_loop skip hit data bitmap_size count fuel' (sz_add bit_index 8) remaining_count
            else let r = (if hit v (bit_index mod 8) then sz_sub remaining_count 1 else count) in
              if r = 0 then Inr (sz_add (sz_sub bit_index count) 1)
              else find_range_loop skip hit data bitmap_size count fuel' (sz_add bit_index 1) r)
      else Inr BITMAP_NO_BITS_LEFT)"

declare find_range_loop.simps [simp del]

definition hit_clear :: "u8 \<Rightarrow> nat \<Rightarrow> bool" where
  "hit_clear v k = (CHECK_BIT v k = 0)"

definition hit_set :: "u8 \<Rightarrow> nat \<Rightarrow> bool" where
  "hit_set v k = (CHECK_BIT v k \<noteq> 0)"

section \<open>\<open>StaticBitmap\<close>\<close>

type_synonym static_bitmap = "u8 list"

definition sbm_new :: "size_t \<Rightarrow> static_bitmap" where
  "sbm_new bitmap_size = replicate (bitmap_size div 8 + 1) 0"

definition sbm_set_range :: "size_t \<Rightarrow> static_bitmap \<Rightarrow> size_t \<Rightarrow> size_t \<Rightarrow> static_bitmap run" where
  "sbm_set_range bitmap_size data position count =
     (if position > bitmap_size then Inr data else set_bits_loop position count data)"

definition sbm_set :: "size_t \<Rightarrow> static_bitmap \<Rightarrow> size_t \<Rightarrow> static_bitmap run" where
  "sbm_set bitmap_size data position = sbm_set_range bitmap_size data position 1"

definition sbm_clear_range :: "size_t \<Rightarrow> static_bitmap \<Rightarrow> size_t \<Rightarrow> size_t \<Rightarrow> static_bitmap run" where
  "sbm_clear_range bitmap_size data position count =
     (if position > bitmap_size then Inr data else clear_bits_loop position count data)"

definition sbm_clear :: "size_t \<Rightarrow> static_bitmap \<Rightarrow> size_t \<Rightarrow> static_bitmap run" where
  "sbm_clear bitmap_size data position = sbm_clear_range bitmap_size data position 1"

definition sbm_find_first_clear_range :: "size_t \<Rightarrow> static_bitmap \<Rightarrow> size_t \<Rightarrow> size_t \<Rightarrow> size_t run" where
  "sbm_find_first_clear_range bitmap_size data count start_search =
     find_range_loop 0xFF hit_clear data bitmap_size count bitmap_size start_search count"

definition sbm_find_first_set_range :: "size_t \<Rightarrow> static_bitmap \<Rightarrow> size_t \<Rightarrow> size_t \<Rightarrow> size_t run" where
  "sbm_find_first_set_range bitmap_size data count start_search =
     find_range_loop 0 hit_set data bitmap_size count bitmap_size start_search count"

definition sbm_find_first_clear :: "size_t \<Rightarrow> static_bitmap \<Rightarrow> size_t \<Rightarrow> size_t run" where
  "sbm_find_first_clear bitmap_size data start_search =
     sbm_find_first_clear_range bitmap_size data 1 start_search"

definition sbm_find_first_set :: "size_t \<Rightarrow> static_bitmap \<Rightarrow> size_t \<Rightarrow> size_t run" where
  "sbm_find_first_set bitmap_size data start_search =
     sbm_find_first_set_range bitmap_size data 1 start_search"

definition sbm_check_set :: "static_bitmap \<Rightarrow> size_t \<Rightarrow> bool run" where
  "sbm_check_set data position =
     bindr (arr_get data (position div 8)) (\<lambda>v. Inr (CHECK_BIT v (position mod 8) \<noteq> 0))"

definition sbm_check_clear :: "static_bitmap \<Rightarrow> size_t \<Rightarrow> bool run" where
  "sbm_check_clear data position =
     bindr (arr_get data (position div 8)) (\<lambda>v. Inr (CHECK_BIT v (position mod 8) = 0))"

section \<open>\<open>Bitmap\<close>\<close>

record bitmap =
  bm_m_bitmap_size :: size_t
  bm_m_bitmap_data :: "u8 list"

definition bm_new :: "size_t \<Rightarrow> bitmap" where
  "bm_new n = \<lparr>bm_m_bitmap_size = n, bm_m_bitmap_data = replicate (n div 8 + 1) 0\<rparr>"

definition bm_set_range :: "bitmap \<Rightarrow> size_t \<Rightarrow> size_t \<Rightarrow> bitmap run" where
  "bm_set_range b position count =
     (if position > bm_m_bitmap_size b then Inr b
      else bindr (set_bits_loop position count (bm_m_bitmap_data b)) (\<lambda>d. Inr (b\<lparr>bm_m_bitmap_data := d\<rparr>)))"

definition bm_set :: "bitmap \<Rightarrow> size_t \<Rightarrow> bitmap run" where
  "bm_set b position = bm_set_range b position 1"

definition bm_clear_range :: "bitmap \<Rightarrow> size_t \<Rightarrow> size_t \<Rightarrow> bitmap run" where
  "bm_clear_range b position count =
     (if position > bm_m_bitmap_size b then Inr b
      else bindr (clear_bits_loop position count (bm_m_bitmap_data b)) (\<lambda>d. Inr (b\<lparr>bm_m_bitmap_data := d\<rparr>)))"

definition bm_clear :: "bitmap \<Rightarrow> size_t \<Rightarrow> bitmap run" where
  "bm_clear b position = bm_clear_range b position 1"

definition bm_find_first_clear_range :: "bitmap \<Rightarrow> size_t \<Rightarrow> size_t \<Rightarrow> size_t run" where
  "bm_find_first_clear_range b count start_search =
     find_range_loop 0xFF hit_clear (bm_m_bitmap_data b) (bm_m_bitmap_size b) count
       (bm_m_bitmap_size b) start_search count"

definition bm_find_first_set_range :: "bitmap \<Rightarrow> size_t \<Rightarrow> size_t \<Rightarrow> size_t run" where
  "bm_find_first_set_range b count start_search =
     find_range_loop 0 hit_set (bm_m_bitmap_data b) (bm_m_bitmap_size b) count
       (bm_m_bitmap_size b) start_search count"

definition bm_find_first_clear :: "bitmap \<Rightarrow> size_t \<Rightarrow> size_t run" where
  "bm_find_first_clear b start_search = bm_find_first_clear_range b 1 start_search"

definition bm_find_first_set :: "bitmap \<Rightarrow> size_t \<Rightarrow> size_t run" where
  "bm_find_first_set b start_search = bm_find_first_set_range b 1 start_search"

definition bm_check_set :: "bitmap \<Rightarrow> size_t \<Rightarrow> bool run" where
  "bm_check_set b position =
     bindr (arr_get (bm_m_bitmap_data b) (position div 8)) (\<lambda>v. Inr (CHECK_BIT v (position mod 8) \<noteq> 0))"

definition bm_check_clear :: "bitmap \<Rightarrow> size_t \<Rightarrow> bool run" where
  "bm_check_clear b position =
     bindr (arr_get (bm_m_bitmap_data b) (position div 8)) (\<lambda>v. Inr (CHECK_BIT v (position mod 8) = 0))"

section \<open>What the search finds\<close>

text \<open>
  \<open>skip\<close> and \<open>hit\<close> fit each other: a skipped byte holds no bit that counts.
\<close>

definition skip_fits :: "u8 \<Rightarrow> (u8 \<Rightarrow> nat \<Rightarrow> bool) \<Rightarrow> bool" where
  "skip_fits skip hit \<longleftrightarrow> (\<forall>k<8. \<not> hit skip k)"

lemma hit_clear_bit: "hit_clear (data ! (p div 8)) (p mod 8) \<longleftrightarrow> \<not> bit_at data p"
  by (simp add: hit_clear_def CHECK_BIT_0 bit_at_def)

lemma hit_set_bit: "hit_set (data ! (p div 8)) (p mod 8) \<longleftrightarrow> bit_at data p"
  by (simp add: hit_set_def CHECK_BIT_0 bit_at_def)

lemma byte_FF: "(0xFF :: u8) = - 1"
  by simp

lemma skip_fits_clear: "skip_fits 0xFF hit_clear"
  unfolding byte_FF by (simp add: skip_fits_def hit_clear_def CHECK_BIT_0)

lemma skip_fits_set: "skip_fits 0 hit_set"
  by (simp add: skip_fits_def hit_set_def CHECK_BIT_0)

text \<open>
  The loop meets its specification when either a single bit is searched, or no byte of the
  array is one that is skipped. Skipping is aligned: the loop is at a byte boundary, or in a
  byte it does not skip.
\<close>

lemma find_range_loop_spec:
  defines "P \<equiv> \<lambda>data hit p. hit (data ! (p div 8)) (p mod 8 :: nat)"
  assumes "bitmap_size < 8 * length data" "bitmap_size + 8 \<le> sz_range" "skip_fits skip hit"
    and "count < sz_range" "count = 1 \<or> skip \<notin> set data"
    and "scan_inv (P data hit) lo count i (count - r)" "0 < r" "r \<le> count"
    and "i mod 8 = 0 \<or> data ! (i div 8) \<noteq> skip" "bitmap_size - i \<le> fuel"
  shows "find_range_loop skip hit data bitmap_size count fuel i r =
         Inr (case first_run (P data hit) lo bitmap_size count of Some p \<Rightarrow> p | None \<Rightarrow> BITMAP_NO_BITS_LEFT)"
  using assms(7-)
proof (induction fuel arbitrary: i r)
  case 0
  then show ?case using scan_end by (subst find_range_loop.simps) auto
next
  case (Suc fuel)
  show ?case
  proof (cases "i < bitmap_size")
    case False
    with Suc.prems(1) scan_end show ?thesis by (subst find_range_loop.simps) auto
  next
    case True
    define v where "v = data ! (i div 8)"
    have len: "i div 8 < length data" using True assms(2) by linarith
    have step: "find_range_loop skip hit data bitmap_size count (Suc fuel) i r =
        (if v = skip then find_range_loop skip hit data bitmap_size count fuel (i + 8) r
         else let r' = (if P data hit i then r - 1 else count) in
           if r' = 0 then Inr (sz_add (sz_sub i count) 1)
           else find_range_loop skip hit data bitmap_size count fuel (Suc i) r')"
      using True len assms(3,5) Suc.prems(2,3)
      by (subst find_range_loop.simps) (simp add: v_def P_def arr_get_def sz_simps)
    have Suc_i: "Suc i mod 8 = 0 \<or> data ! (Suc i div 8) \<noteq> skip" if "v \<noteq> skip"
      using that by (auto simp: v_def mod_Suc div_Suc)
    consider "v = skip" | "v \<noteq> skip" "\<not> P data hit i" | "v \<noteq> skip" "P data hit i" "r \<noteq> 1"
      | "v \<noteq> skip" "P data hit i" "r = 1" by blast
    then show ?thesis
    proof cases
      case 1
      with len assms(6) have c: "count = 1" by (auto simp: v_def)
      have al: "i mod 8 = 0" using 1 Suc.prems(4) by (simp add: v_def)
      then have q: "(i + j) div 8 = i div 8" "(i + j) mod 8 = j" if "j < 8" for j
        using that by (auto elim!: dvdE simp: mod_eq_0_iff_dvd)
      have "\<not> P data hit (i + j)" if "j < 8" for j
        using that 1 assms(4) q by (simp add: P_def v_def skip_fits_def)
      with Suc.prems(1) have "scan_inv (P data hit) lo count (i + 8) 0"
        using scan_misses [of "P data hit" lo count i "count - r" 7] by simp
      moreover have "r = count" using c Suc.prems by simp
      ultimately show ?thesis
        unfolding step using 1 al Suc.prems(2-) True by (simp add: Suc.IH)
    next
      case 2
      with Suc.prems(1) scan_miss have "scan_inv (P data hit) lo count (Suc i) 0" by blast
      with Suc.IH [of "Suc i" count] Suc_i 2 Suc.prems(2-) show ?thesis
        unfolding step by (simp add: Let_def)
    next
      case 3
      with Suc.prems(1-3) scan_hit [of "P data hit" lo count i "count - r"]
      have "scan_inv (P data hit) lo count (Suc i) (count - (r - 1))"
        by (simp add: Suc_diff_le [symmetric])
      with Suc.IH [of "Suc i" "r - 1"] Suc_i 3 Suc.prems(2-) show ?thesis
        unfolding step by (simp add: Let_def)
    next
      case 4
      with Suc.prems True have "first_run (P data hit) lo bitmap_size count = Some (Suc i - count)"
        by (intro scan_found) auto
      moreover have "count \<le> Suc i" "1 \<le> count" using Suc.prems 4 by (auto simp: scan_inv_def)
      then have "sz_add (sz_sub i count) 1 = Suc i - count"
        using True assms(3,5)
        by (cases "count = Suc i") (auto simp: sz_simps sz_sub_wrap sz_add_def)
      ultimately show ?thesis unfolding step using 4 by (simp add: Let_def)
    qed
  qed
qed

section \<open>Well-formed bitmaps\<close>

definition bm_wf :: "bitmap \<Rightarrow> bool" where
  "bm_wf b \<longleftrightarrow> length (bm_m_bitmap_data b) = bm_m_bitmap_size b div 8 + 1 \<and>
     bm_m_bitmap_size b + 8 \<le> sz_range"

text \<open>The bit at a position, as a client sees it.\<close>

definition bm_used :: "bitmap \<Rightarrow> size_t \<Rightarrow> bool" where
  "bm_used b p = bit_at (bm_m_bitmap_data b) p"

lemma bm_size_bytes: "bm_wf b \<Longrightarrow> bm_m_bitmap_size b < 8 * length (bm_m_bitmap_data b)"
  using dividend_less_times_div [of 8 "bm_m_bitmap_size b"] by (simp add: bm_wf_def)

lemma bm_new_wf: "n + 8 \<le> sz_range \<Longrightarrow> bm_wf (bm_new n)"
  by (simp add: bm_wf_def bm_new_def)

lemma bm_new_unused: "p \<le> n \<Longrightarrow> \<not> bm_used (bm_new n) p"
proof -
  assume "p \<le> n"
  then have "p div 8 < Suc (n div 8)" by (simp add: div_le_mono le_imp_less_Suc)
  then have "replicate (Suc (n div 8)) (0 :: u8) ! (p div 8) = 0" by (rule nth_replicate)
  then show ?thesis by (simp add: bm_used_def bm_new_def bit_at_def)
qed

lemma bm_set_range_law:
  assumes "bm_wf b" "position \<le> bm_m_bitmap_size b"
    and "position + count \<le> 8 * length (bm_m_bitmap_data b)" "position + count < sz_range"
  shows "ok (bm_set_range b position count) (\<lambda>b'. bm_wf b' \<and> bm_m_bitmap_size b' = bm_m_bitmap_size b \<and>
           (\<forall>q. bm_used b' q \<longleftrightarrow> bm_used b q \<or> position \<le> q \<and> q < position + count))"
  using assms ok_set_bits_loop [of position count "bm_m_bitmap_data b"]
  by (auto simp: bm_set_range_def run_simps bm_wf_def bm_used_def elim!: ok_mono)

lemma bm_clear_range_law:
  assumes "bm_wf b" "position \<le> bm_m_bitmap_size b"
    and "position + count \<le> 8 * length (bm_m_bitmap_data b)" "position + count < sz_range"
  shows "ok (bm_clear_range b position count) (\<lambda>b'. bm_wf b' \<and> bm_m_bitmap_size b' = bm_m_bitmap_size b \<and>
           (\<forall>q. bm_used b' q \<longleftrightarrow> bm_used b q \<and> (q < position \<or> position + count \<le> q)))"
  using assms ok_clear_bits_loop [of position count "bm_m_bitmap_data b"]
  by (auto simp: bm_clear_range_def run_simps bm_wf_def bm_used_def elim!: ok_mono)

lemma bm_set_law:
  assumes "bm_wf b" "p \<le> bm_m_bitmap_size b"
  shows "ok (bm_set b p) (\<lambda>b'. bm_wf b' \<and> bm_m_bitmap_size b' = bm_m_bitmap_size b \<and>
           (\<forall>q. bm_used b' q \<longleftrightarrow> bm_used b q \<or> q = p))"
proof -
  have "p + 1 \<le> 8 * length (bm_m_bitmap_data b)" "p + 1 < sz_range"
    using assms bm_size_bytes [OF assms(1)] by (auto simp: bm_wf_def)
  from bm_set_range_law [OF assms this] show ?thesis
    unfolding bm_set_def by (rule ok_mono) (auto simp: less_Suc_eq_le)
qed

lemma bm_clear_law:
  assumes "bm_wf b" "p \<le> bm_m_bitmap_size b"
  shows "ok (bm_clear b p) (\<lambda>b'. bm_wf b' \<and> bm_m_bitmap_size b' = bm_m_bitmap_size b \<and>
           (\<forall>q. bm_used b' q \<longleftrightarrow> bm_used b q \<and> q \<noteq> p))"
proof -
  have "p + 1 \<le> 8 * length (bm_m_bitmap_data b)" "p + 1 < sz_range"
    using assms bm_size_bytes [OF assms(1)] by (auto simp: bm_wf_def)
  from bm_clear_range_law [OF assms this] show ?thesis
    unfolding bm_clear_def by (rule ok_mono) (simp add: neq_iff Suc_le_eq)
qed

lemma bm_set_beyond: "bm_m_bitmap_size b < p \<Longrightarrow> bm_set b p = Inr b"
  by (simp add: bm_set_def bm_set_range_def)

lemma bm_check_set_law:
  assumes "bm_wf b" "p \<le> bm_m_bitmap_size b"
  shows "bm_check_set b p = Inr (bm_used b p)"
proof -
  have "p div 8 < length (bm_m_bitmap_data b)"
    using assms by (simp add: bm_wf_def div_le_mono le_imp_less_Suc)
  then show ?thesis by (simp add: bm_check_set_def arr_get_def CHECK_BIT_0 bm_used_def bit_at_def)
qed

text \<open>The two searches, as the specification \<open>first_run\<close> sees them.\<close>

lemma bm_find_first_clear_range_spec:
  assumes "bm_wf b" "0 < count" "count < sz_range"
    and "count = 1 \<and> start mod 8 = 0 \<or> 0xFF \<notin> set (bm_m_bitmap_data b)"
  shows "bm_find_first_clear_range b count start =
    Inr (case first_run (\<lambda>p. \<not> bm_used b p) start (bm_m_bitmap_size b) count of
           Some p \<Rightarrow> p | None \<Rightarrow> BITMAP_NO_BITS_LEFT)"
proof (cases "start < bm_m_bitmap_size b")
  case True
  let ?d = "bm_m_bitmap_data b"
  have "start div 8 < length ?d" using True bm_size_bytes [OF assms(1)] by linarith
  then have "start mod 8 = 0 \<or> ?d ! (start div 8) \<noteq> 0xFF" using assms(4) nth_mem by fastforce
  moreover have "bm_m_bitmap_size b + 8 \<le> sz_range" using assms(1) by (simp add: bm_wf_def)
  ultimately have "find_range_loop 0xFF hit_clear ?d (bm_m_bitmap_size b) count (bm_m_bitmap_size b) start count =
      Inr (case first_run (\<lambda>p. hit_clear (?d ! (p div 8)) (p mod 8)) start (bm_m_bitmap_size b) count of
           Some p \<Rightarrow> p | None \<Rightarrow> BITMAP_NO_BITS_LEFT)"
    using assms bm_size_bytes [OF assms(1)] skip_fits_clear
    by (intro find_range_loop_spec) (auto intro: scan_start)
  then show ?thesis by (simp add: bm_find_first_clear_range_def hit_clear_bit bm_used_def)
next
  case False
  then have "first_run (\<lambda>p. \<not> bm_used b p) start (bm_m_bitmap_size b) count = None"
    using assms(2) by (auto simp: first_run_None_iff)
  with False show ?thesis by (simp add: bm_find_first_clear_range_def find_range_loop.simps)
qed

lemma bm_find_first_set_range_spec:
  assumes "bm_wf b" "0 < count" "count < sz_range"
    and "count = 1 \<and> start mod 8 = 0 \<or> 0 \<notin> set (bm_m_bitmap_data b)"
  shows "bm_find_first_set_range b count start =
    Inr (case first_run (bm_used b) start (bm_m_bitmap_size b) count of
           Some p \<Rightarrow> p | None \<Rightarrow> BITMAP_NO_BITS_LEFT)"
proof (cases "start < bm_m_bitmap_size b")
  case True
  let ?d = "bm_m_bitmap_data b"
  have "start div 8 < length ?d" using True bm_size_bytes [OF assms(1)] by linarith
  then have "start mod 8 = 0 \<or> ?d ! (start div 8) \<noteq> 0" using assms(4) nth_mem by fastforce
  moreover have "bm_m_bitmap_size b + 8 \<le> sz_range" using assms(1) by (simp add: bm_wf_def)
  ultimately have "find_range_loop 0 hit_set ?d (bm_m_bitmap_size b) count (bm_m_bitmap_size b) start count =
      Inr (case first_run (\<lambda>p. hit_set (?d ! (p div 8)) (p mod 8)) start (bm_m_bitmap_size b) count of
           Some p \<Rightarrow> p | None \<Rightarrow> BITMAP_NO_BITS_LEFT)"
    using assms bm_size_bytes [OF assms(1)] skip_fits_set
    by (intro find_range_loop_spec) (auto intro: scan_start)
  then show ?thesis by (simp add: bm_find_first_set_range_def hit_set_bit bm_used_def [abs_def])
next
  case False
  then have "first_run (bm_used b) start (bm_m_bitmap_size b) count = None"
    using assms(2) by (auto simp: first_run_None_iff)
  with False show ?thesis by (simp add: bm_find_first_set_range_def find_range_loop.simps)
qed

text \<open>From any start, aligned or not, a single bit the search returns is clear and in range.\<close>

lemma find_range_loop_single_sound:
  assumes "bitmap_size < 8 * length data" "bitmap_size + 8 \<le> sz_range" "bitmap_size - i \<le> fuel"
  shows "ok (find_range_loop skip hit data bitmap_size 1 fuel i 1)
     (\<lambda>p. p = BITMAP_NO_BITS_LEFT \<or> i \<le> p \<and> p < bitmap_size \<and> hit (data ! (p div 8)) (p mod 8))"
  using assms(3)
proof (induction fuel arbitrary: i)
  case 0
  then show ?case by (simp add: find_range_loop.simps run_simps)
next
  case (Suc fuel)
  show ?case
  proof (cases "i < bitmap_size")
    case True
    then have "i div 8 < length data" using assms(1) by linarith
    moreover have "ok (find_range_loop skip hit data bitmap_size 1 fuel j 1)
        (\<lambda>p. p = BITMAP_NO_BITS_LEFT \<or> i \<le> p \<and> p < bitmap_size \<and> hit (data ! (p div 8)) (p mod 8))"
      if "i < j" for j
      by (rule ok_mono [OF Suc.IH]) (use that Suc.prems in auto)
    moreover have "sz_add (sz_sub i 1) 1 = i"
      using True assms(2) by (cases i) (auto simp: sz_simps sz_sub_def sz_add_def)
    ultimately show ?thesis
      using True assms(2) by (subst find_range_loop.simps) (simp add: run_simps Let_def sz_simps)
  qed (simp add: find_range_loop.simps run_simps)
qed

section \<open>\<open>StaticBitmap\<close> has the operations of \<open>Bitmap\<close>\<close>

definition as_bitmap :: "size_t \<Rightarrow> static_bitmap \<Rightarrow> bitmap" where
  "as_bitmap n d = \<lparr>bm_m_bitmap_size = n, bm_m_bitmap_data = d\<rparr>"

lemma sbm_eq_bm:
  "as_bitmap n (sbm_new n) = bm_new n"
  "bindr (sbm_set_range n d p c) (\<lambda>d'. Inr (as_bitmap n d')) = bm_set_range (as_bitmap n d) p c"
  "bindr (sbm_clear_range n d p c) (\<lambda>d'. Inr (as_bitmap n d')) = bm_clear_range (as_bitmap n d) p c"
  "sbm_find_first_clear_range n d c st = bm_find_first_clear_range (as_bitmap n d) c st"
  "sbm_find_first_set_range n d c st = bm_find_first_set_range (as_bitmap n d) c st"
  "sbm_check_set d p = bm_check_set (as_bitmap n d) p"
  "sbm_check_clear d p = bm_check_clear (as_bitmap n d) p"
  by (simp_all add: as_bitmap_def sbm_new_def bm_new_def sbm_set_range_def bm_set_range_def
      sbm_clear_range_def bm_clear_range_def sbm_find_first_clear_range_def bm_find_first_clear_range_def
      sbm_find_first_set_range_def bm_find_first_set_range_def sbm_check_set_def bm_check_set_def
      sbm_check_clear_def bm_check_clear_def)

section \<open>Bitmaps as identifier pools\<close>

lemma bm_find_first_clear_law:
  assumes "bm_wf b"
  shows "ok (bm_find_first_clear b 0) (\<lambda>i.
      i < bm_m_bitmap_size b \<and> \<not> bm_used b i \<and> (\<forall>j<i. bm_used b j) \<or>
      i = BITMAP_NO_BITS_LEFT \<and> (\<forall>j<bm_m_bitmap_size b. bm_used b j))"
proof -
  have "bm_find_first_clear b 0 = Inr (case first_run (\<lambda>p. \<not> bm_used b p) 0 (bm_m_bitmap_size b) 1 of
           Some p \<Rightarrow> p | None \<Rightarrow> BITMAP_NO_BITS_LEFT)"
    using bm_find_first_clear_range_spec [OF assms, of 1 0] by (simp add: bm_find_first_clear_def)
  then show ?thesis
    by (auto simp: run_simps first_run_Some_iff first_run_None_iff split: option.splits)
qed

interpretation bmp: id_pool "\<lambda>b. bm_find_first_clear b 0" bm_set bm_clear bm_used bm_m_bitmap_size
    BITMAP_NO_BITS_LEFT bm_wf
proof (unfold_locales, goal_cases)
  case (1 b) then show ?case by (rule bm_find_first_clear_law)
next
  case (2 b i) then show ?case by (intro bm_set_law) auto
next
  case (3 b i) then show ?case by (intro bm_clear_law) auto
next
  case (4 b) then show ?case by (intro bm_set_beyond) (simp add: bm_wf_def BITMAP_NO_BITS_LEFT_def)
next
  case (5 b) then show ?case by (simp add: bm_wf_def BITMAP_NO_BITS_LEFT_def)
qed

section \<open>Properties\<close>

text \<open>
  \<open>find_first_clear_range\<close> and \<open>find_first_set_range\<close> return the lowest position from
  \<open>start_search\<close> on where \<open>count\<close> consecutive bits are clear (set), or \<open>BITMAP_NO_BITS_LEFT\<close> when
  there is none: for a single bit from a byte boundary always, for longer runs and other starts
  when the bitmap holds no byte the loop skips.
\<close>

theorem bitmap_search_exact:
  assumes "bm_wf b" "0 < count" "count < sz_range"
  shows "(count = 1 \<and> start mod 8 = 0 \<or> 0xFF \<notin> set (bm_m_bitmap_data b) \<longrightarrow>
            bm_find_first_clear_range b count start =
            Inr (case first_run (\<lambda>p. \<not> bm_used b p) start (bm_m_bitmap_size b) count of
                   Some p \<Rightarrow> p | None \<Rightarrow> BITMAP_NO_BITS_LEFT)) \<and>
         (count = 1 \<and> start mod 8 = 0 \<or> 0 \<notin> set (bm_m_bitmap_data b) \<longrightarrow>
            bm_find_first_set_range b count start =
            Inr (case first_run (bm_used b) start (bm_m_bitmap_size b) count of
                   Some p \<Rightarrow> p | None \<Rightarrow> BITMAP_NO_BITS_LEFT))"
  by (intro conjI impI bm_find_first_clear_range_spec bm_find_first_set_range_spec assms)

theorem bitmap_search_exact_witness:
  "bm_find_first_clear_range \<lparr>bm_m_bitmap_size = 10, bm_m_bitmap_data = [0x4C, 0]\<rparr> 3 0 = Inr 7"
proof -
  have "first_run (\<lambda>p. \<not> bm_used \<lparr>bm_m_bitmap_size = 10, bm_m_bitmap_data = [0x4C, 0]\<rparr> p) 0 10 3 = Some 7"
    by code_simp
  then show ?thesis
    using bitmap_search_exact [of "\<lparr>bm_m_bitmap_size = 10, bm_m_bitmap_data = [0x4C, 0]\<rparr>" 3 0]
    by (simp add: bm_wf_def)
qed

text \<open>
  From an arbitrary start, aligned or not, a position \<open>find_first_clear\<close> returns is a clear
  bit of the bitmap, and the search never reads outside the array.
\<close>

theorem bitmap_find_clear_sound:
  assumes "bm_wf b"
  shows "ok (bm_find_first_clear b start)
           (\<lambda>p. p = BITMAP_NO_BITS_LEFT \<or> start \<le> p \<and> p < bm_m_bitmap_size b \<and> \<not> bm_used b p)"
proof -
  have "bm_m_bitmap_size b + 8 \<le> sz_range" using assms by (simp add: bm_wf_def)
  with find_range_loop_single_sound [of "bm_m_bitmap_size b" "bm_m_bitmap_data b" start "bm_m_bitmap_size b"
      "0xFF" hit_clear] bm_size_bytes [OF assms]
  show ?thesis
    by (simp add: bm_find_first_clear_def bm_find_first_clear_range_def hit_clear_bit bm_used_def)
qed

theorem bitmap_find_clear_sound_witness:
  "ok (bm_find_first_clear (bm_new 100) 13)
     (\<lambda>p. p = BITMAP_NO_BITS_LEFT \<or> 13 \<le> p \<and> p < bm_m_bitmap_size (bm_new 100) \<and> \<not> bm_used (bm_new 100) p)"
  using bitmap_find_clear_sound [of "bm_new 100" 13] bm_new_wf [of 100] by simp

text \<open>
  \<open>set_range\<close> and \<open>clear_range\<close> change exactly the bits of the range and nothing else, as long
  as the range stays inside the allocated bytes; \<open>check_set\<close> then reads what was written.
\<close>

theorem bitmap_range_update:
  assumes "bm_wf b" "position \<le> bm_m_bitmap_size b"
    and "position + count \<le> 8 * length (bm_m_bitmap_data b)" "position + count < sz_range"
  shows "ok (bm_set_range b position count) (\<lambda>b'. bm_wf b' \<and>
           (\<forall>q\<le>bm_m_bitmap_size b. bm_check_set b' q = Inr (bm_used b q \<or> position \<le> q \<and> q < position + count))) \<and>
         ok (bm_clear_range b position count) (\<lambda>b'. bm_wf b' \<and>
           (\<forall>q\<le>bm_m_bitmap_size b. bm_check_set b' q = Inr (bm_used b q \<and> (q < position \<or> position + count \<le> q))))"
  using bm_set_range_law [OF assms] bm_clear_range_law [OF assms]
  by (auto simp: bm_check_set_law elim!: ok_mono)

theorem bitmap_range_update_witness:
  "ok (bm_set_range (bm_new 20) 6 4) (\<lambda>b'. bm_check_set b' 9 = Inr True)"
proof -
  have "ok (bm_set_range (bm_new 20) 6 4) (\<lambda>b'. bm_wf b' \<and> (\<forall>q\<le>bm_m_bitmap_size (bm_new 20).
      bm_check_set b' q = Inr (bm_used (bm_new 20) q \<or> 6 \<le> q \<and> q < 6 + 4)))"
    using bitmap_range_update [of "bm_new 20" 6 4] bm_new_wf [of 20] by (simp add: bm_new_def)
  then show ?thesis by (rule ok_mono) (auto simp: bm_new_def)
qed

text \<open>
  A run of clear bits is not ended by a full byte: in a \<open>StaticBitmap<24>\<close> whose bits 7 and 16
  are the only clear ones, \<open>find_first_clear_range(2)\<close> answers 15, a set bit.
\<close>

theorem bitmap_range_search_skips:
  "sbm_find_first_clear_range 24 [0x7F, 0xFF, 0xFE, 0] 2 0 = Inr 15 \<and>
   sbm_check_set [0x7F, 0xFF, 0xFE, 0] 15 = Inr True"
  by (simp add: sbm_find_first_clear_range_def find_range_loop.simps hit_clear_def CHECK_BIT_def
      arr_get_def sz_add_def sz_sub_def sbm_check_set_def Let_def)

end
