(* ===== verification/Physical_Memory.thy ===== *)
theory Physical_Memory
  imports Bit_Scan
begin

unbundle bit_operations_syntax

text \<open>
  \<open>PhysicalMemory\<close> (physical.h, physical.cpp): one bit per 4 KiB page frame of the 4 GiB address
  space, and the amount of memory in use. \<open>find_pages\<close> meets the specification \<open>first_run\<close>
  (the lowest run of free frames), except that it starts at the byte that holds \<open>start_page\<close>.
\<close>

definition MAX_PHYSICAL_4K_PAGES :: nat where
  "MAX_PHYSICAL_4K_PAGES = 1024 * 1024"

definition PAGE_SIZE :: nat where
  "PAGE_SIZE = 4096"

record physical_memory =
  pm_tracer :: "u8 list"
  pm_size :: size_t

section \<open>Operations\<close>

definition pm_setup :: physical_memory where
  "pm_setup = \<lparr>pm_tracer = replicate (MAX_PHYSICAL_4K_PAGES div 8) 0, pm_size = 0\<rparr>"

fun check_free_loop :: "u8 list \<Rightarrow> nat list \<Rightarrow> bool run" where
  "check_free_loop tracer [] = Inr True"
| "check_free_loop tracer (index # rest) = bindr (arr_get tracer (index div 8)) (\<lambda>v.
     if CHECK_BIT v (index mod 8) \<noteq> 0 then Inr False else check_free_loop tracer rest)"

definition check_free_pages :: "physical_memory \<Rightarrow> size_t \<Rightarrow> size_t \<Rightarrow> bool run" where
  "check_free_pages m page_number count =
     check_free_loop (pm_tracer m) [page_number..<sz_add page_number count]"

definition set_free_pages :: "physical_memory \<Rightarrow> size_t \<Rightarrow> size_t \<Rightarrow> physical_memory run" where
  "set_free_pages m page_number count =
     bindr (clear_bits_loop page_number count (pm_tracer m)) (\<lambda>d.
     Inr \<lparr>pm_tracer = d, pm_size = sz_sub (pm_size m) (sz_mul count PAGE_SIZE)\<rparr>)"

definition set_used_pages :: "physical_memory \<Rightarrow> size_t \<Rightarrow> size_t \<Rightarrow> physical_memory run" where
  "set_used_pages m page_number count =
     bindr (set_bits_loop page_number count (pm_tracer m)) (\<lambda>d.
     Inr \<lparr>pm_tracer = d, pm_size = sz_add (pm_size m) (sz_mul count PAGE_SIZE)\<rparr>)"

text \<open>
  The loops of \<open>find_pages\<close>; the state is \<open>(first_free_page, remaining_pages)\<close>. The inner loop
  over the bits of byte i ends early with a page (\<open>Inl\<close>) or leaves the state (\<open>Inr\<close>).
\<close>

fun find_bit_loop :: "u8 \<Rightarrow> nat \<Rightarrow> size_t \<Rightarrow> nat list \<Rightarrow> size_t \<Rightarrow> size_t \<Rightarrow> size_t + size_t \<times> size_t" where
  "find_bit_loop v i count [] first_free_page remaining_pages = Inr (first_free_page, remaining_pages)"
| "find_bit_loop v i count (b # bits) first_free_page remaining_pages =
     (if CHECK_BIT v b = 0 then
        let first' = (if remaining_pages = count then sz_add b (sz_mul i 8) else first_free_page);
            remaining' = sz_sub remaining_pages 1
        in if remaining' = 0 then Inl first' else find_bit_loop v i count bits first' remaining'
      else find_bit_loop v i count bits first_free_page
             (if remaining_pages \<noteq> count then count else remaining_pages))"

fun find_pages_loop :: "u8 list \<Rightarrow> size_t \<Rightarrow> nat list \<Rightarrow> size_t \<Rightarrow> size_t \<Rightarrow> size_t run" where
  "find_pages_loop tracer count [] first_free_page remaining_pages = Inl PanicCalled"
| "find_pages_loop tracer count (i # is) first_free_page remaining_pages =
     bindr (arr_get tracer i) (\<lambda>v.
       if v = 0xFF \<and> remaining_pages \<noteq> count
       then find_pages_loop tracer count is first_free_page count
       else case find_bit_loop v i count [0..<8] first_free_page remaining_pages of
              Inl page \<Rightarrow> Inr page
            | Inr (first', remaining') \<Rightarrow> find_pages_loop tracer count is first' remaining')"

definition find_pages :: "physical_memory \<Rightarrow> size_t \<Rightarrow> size_t \<Rightarrow> size_t run" where
  "find_pages m start_page count =
     find_pages_loop (pm_tracer m) count [start_page div 8..<MAX_PHYSICAL_4K_PAGES div 8] 0 count"

definition alloc_page :: "physical_memory \<Rightarrow> size_t \<Rightarrow> (size_t \<times> physical_memory) run" where
  "alloc_page m start =
     bindr (find_pages m start 1) (\<lambda>physical_page.
     bindr (set_used_pages m physical_page 1) (\<lambda>m'. Inr (sz_mul physical_page PAGE_SIZE, m')))"

definition alloc_contagious_pages ::
    "physical_memory \<Rightarrow> size_t \<Rightarrow> size_t \<Rightarrow> (size_t \<times> physical_memory) run" where
  "alloc_contagious_pages m start count =
     bindr (find_pages m start count) (\<lambda>physical_pages.
     bindr (set_used_pages m physical_pages count) (\<lambda>m'. Inr (sz_mul physical_pages PAGE_SIZE, m')))"

definition free_pages :: "physical_memory \<Rightarrow> size_t \<Rightarrow> size_t \<Rightarrow> physical_memory run" where
  "free_pages m page_number count = set_free_pages m page_number count"

definition get_physical_memory_size :: "physical_memory \<Rightarrow> size_t" where
  "get_physical_memory_size m = pm_size m"

section \<open>Well-formedness and accounting\<close>

definition pm_used :: "physical_memory \<Rightarrow> nat \<Rightarrow> bool" where
  "pm_used m p = bit_at (pm_tracer m) p"

definition used_frames :: "physical_memory \<Rightarrow> nat set" where
  "used_frames m = {p. p < MAX_PHYSICAL_4K_PAGES \<and> pm_used m p}"

text \<open>
  The tracer has its size, and \<open>physical_memory_size\<close> is the memory of the frames in use (modulo
  4 GiB, the range of its type).
\<close>

definition pm_inv :: "physical_memory \<Rightarrow> bool" where
  "pm_inv m \<longleftrightarrow> length (pm_tracer m) = MAX_PHYSICAL_4K_PAGES div 8 \<and>
     pm_size m = (card (used_frames m) * PAGE_SIZE) mod sz_range"

lemma pm_setup_inv: "pm_inv pm_setup"
proof -
  have "\<not> pm_used pm_setup p" if "p < MAX_PHYSICAL_4K_PAGES" for p
  proof -
    have "p div 8 < MAX_PHYSICAL_4K_PAGES div 8" using that by (simp add: MAX_PHYSICAL_4K_PAGES_def)
    then show ?thesis by (simp add: pm_used_def bit_at_def pm_setup_def)
  qed
  then have "used_frames pm_setup = {}" by (auto simp: used_frames_def)
  then show ?thesis by (simp add: pm_inv_def pm_setup_def)
qed

lemma finite_used_frames [simp]: "finite (used_frames m)"
  by (simp add: used_frames_def)

lemma byte_all_set: "(\<forall>k<8. bit v k) \<longleftrightarrow> v = 0xFF" for v :: u8
proof -
  have "(0xFF :: u8) = - 1" by simp
  moreover have "(\<forall>k<8. bit v k) \<longleftrightarrow> v = - 1" by (auto simp: bit_eq_iff)
  ultimately show ?thesis by (simp only:)
qed

section \<open>The search\<close>

text \<open>What the scan knows at position p with state \<open>(first_free_page, remaining_pages)\<close>.\<close>

definition pages_inv :: "u8 list \<Rightarrow> nat \<Rightarrow> nat \<Rightarrow> nat \<Rightarrow> size_t \<Rightarrow> size_t \<Rightarrow> bool" where
  "pages_inv tracer lo count p first_free_page remaining \<longleftrightarrow>
     scan_inv (\<lambda>p. \<not> bit_at tracer p) lo count p (count - remaining) \<and> 0 < remaining \<and> remaining \<le> count \<and>
     (remaining < count \<longrightarrow> first_free_page = p - (count - remaining))"

lemma find_bit_loop_spec:
  assumes "k \<le> 8" "8 * i + 8 \<le> hi" "hi < sz_range" "count < sz_range"
    and "pages_inv tracer lo count (8 * i + k) first_free_page remaining"
  shows "case find_bit_loop (tracer ! i) i count [k..<8] first_free_page remaining of
      Inl page \<Rightarrow> first_run (\<lambda>p. \<not> bit_at tracer p) lo hi count = Some page
    | Inr (first', remaining') \<Rightarrow> pages_inv tracer lo count (8 * i + 8) first' remaining'"
  using assms(1,5)
proof (induction "8 - k" arbitrary: k first_free_page remaining)
  case 0
  then show ?case by simp
next
  case (Suc n)
  then have k: "k < 8" "[k..<8] = k # [Suc k..<8]" "n = 8 - Suc k" by (auto simp: upt_conv_Cons)
  have bit: "CHECK_BIT (tracer ! i) k = 0 \<longleftrightarrow> \<not> bit_at tracer (8 * i + k)"
    using k by (simp add: CHECK_BIT_0 bit_at_def)
  have addr: "sz_add k (sz_mul i 8) = 8 * i + k" using assms(2,3) k by (simp add: sz_simps)
  have rem: "0 < remaining" "remaining \<le> count"
    and scan: "scan_inv (\<lambda>p. \<not> bit_at tracer p) lo count (8 * i + k) (count - remaining)"
    and first: "remaining < count \<Longrightarrow> first_free_page = 8 * i + k - (count - remaining)"
    using Suc.prems(2) by (auto simp: pages_inv_def)
  define f' where "f' = (if remaining = count then 8 * i + k else first_free_page)"
  have f': "f' = Suc (8 * i + k) - (count - (remaining - 1))"
    using rem scan first by (auto simp: f'_def scan_inv_def)
  consider "bit_at tracer (8 * i + k)" | "\<not> bit_at tracer (8 * i + k)" "remaining = 1"
    | "\<not> bit_at tracer (8 * i + k)" "remaining \<noteq> 1" by blast
  then show ?case
  proof cases
    case 1
    with scan_miss [OF scan] have "pages_inv tracer lo count (8 * i + Suc k) first_free_page count"
      using rem by (simp add: pages_inv_def)
    from Suc.hyps(1) [OF k(3) _ this] k 1 bit show ?thesis by (simp add: Let_def)
  next
    case 2
    with scan_found [OF scan] assms(2) k rem
    have "first_run (\<lambda>p. \<not> bit_at tracer p) lo hi count = Some f'" by (simp add: f')
    with 2 k bit addr show ?thesis by (simp add: f'_def Let_def sz_simps)
  next
    case 3
    with scan_hit [OF scan] rem
    have "scan_inv (\<lambda>p. \<not> bit_at tracer p) lo count (Suc (8 * i + k)) (count - (remaining - 1))"
      by (simp add: Suc_diff_le [symmetric])
    then have "pages_inv tracer lo count (8 * i + Suc k) f' (remaining - 1)"
      using rem 3 f' by (simp add: pages_inv_def)
    moreover have "find_bit_loop (tracer ! i) i count [k..<8] first_free_page remaining =
        find_bit_loop (tracer ! i) i count [Suc k..<8] f' (remaining - 1)"
      using k 3 bit addr rem assms(4) by (simp add: Let_def sz_simps f'_def)
    ultimately show ?thesis using Suc.hyps(1) [OF k(3)] k(1) by simp
  qed
qed

lemma find_pages_loop_spec:
  assumes "hi = 8 * length tracer" "hi < sz_range" "count < sz_range" "i \<le> length tracer"
    and "pages_inv tracer lo count (8 * i) first_free_page remaining"
  shows "find_pages_loop tracer count [i..<length tracer] first_free_page remaining =
    (case first_run (\<lambda>p. \<not> bit_at tracer p) lo hi count of Some p \<Rightarrow> Inr p | None \<Rightarrow> Inl PanicCalled)"
  using assms(4,5)
proof (induction "length tracer - i" arbitrary: i first_free_page remaining)
  case 0
  then show ?case using assms(1) scan_end by (auto simp: pages_inv_def)
next
  case (Suc n)
  then have i: "i < length tracer" "[i..<length tracer] = i # [Suc i..<length tracer]"
    "n = length tracer - Suc i" by (auto simp: upt_conv_Cons)
  show ?case
  proof (cases "tracer ! i = 0xFF \<and> remaining \<noteq> count")
    case True
    then have "\<forall>k<8. bit (tracer ! i) k" by (simp only: byte_all_set)
    then have "\<not> \<not> bit_at tracer (8 * i + j)" if "j < Suc 7" for j using that by (simp add: bit_at_def)
    moreover have "scan_inv (\<lambda>p. \<not> bit_at tracer p) lo count (8 * i) (count - remaining)"
      using Suc.prems(2) by (simp add: pages_inv_def)
    ultimately have "scan_inv (\<lambda>p. \<not> bit_at tracer p) lo count (8 * i + Suc 7) 0"
      by (intro scan_misses [where r = "count - remaining"])
    then have "pages_inv tracer lo count (8 * Suc i) first_free_page count"
      using Suc.prems(2) by (auto simp: pages_inv_def add.commute)
    from Suc.hyps(1) [OF i(3) _ this] True i show ?thesis by (simp add: arr_get_def)
  next
    case False
    have "pages_inv tracer lo count (8 * i + 0) first_free_page remaining" using Suc.prems(2) by simp
    from find_bit_loop_spec [OF _ _ assms(2,3) this] i assms(1)
    have sp: "case find_bit_loop (tracer ! i) i count [0..<8] first_free_page remaining of
        Inl page \<Rightarrow> first_run (\<lambda>p. \<not> bit_at tracer p) lo hi count = Some page
      | Inr (first', remaining') \<Rightarrow> pages_inv tracer lo count (8 * i + 8) first' remaining'"
      by simp
    show ?thesis
    proof (cases "find_bit_loop (tracer ! i) i count [0..<8] first_free_page remaining")
      case (Inl page)
      with sp False i show ?thesis by (auto simp: arr_get_def simp del: upt_Suc)
    next
      case (Inr st)
      obtain f' r' where st: "st = (f', r')" by fastforce
      have "pages_inv tracer lo count (8 * Suc i) f' r'" using sp Inr st by (simp add: add.commute)
      from Suc.hyps(1) [OF i(3) _ this] False i Inr st show ?thesis
        by (auto simp: arr_get_def simp del: upt_Suc)
    qed
  qed
qed

lemma find_pages_spec:
  assumes "length (pm_tracer m) = MAX_PHYSICAL_4K_PAGES div 8" "0 < count" "count < sz_range"
  shows "find_pages m start count =
    (case first_run (\<lambda>p. \<not> pm_used m p) (8 * (start div 8)) MAX_PHYSICAL_4K_PAGES count of
       Some p \<Rightarrow> Inr p | None \<Rightarrow> Inl PanicCalled)"
proof (cases "start div 8 \<le> length (pm_tracer m)")
  case True
  have "pages_inv (pm_tracer m) (8 * (start div 8)) count (8 * (start div 8)) 0 count"
    using assms(2) scan_start by (simp add: pages_inv_def)
  from find_pages_loop_spec [OF _ _ assms(3) True this, of MAX_PHYSICAL_4K_PAGES] assms show ?thesis
    by (simp add: find_pages_def MAX_PHYSICAL_4K_PAGES_def pm_used_def [abs_def])
next
  case False
  then have "first_run (\<lambda>p. \<not> pm_used m p) (8 * (start div 8)) MAX_PHYSICAL_4K_PAGES count = None"
    using assms(1) by (auto simp: first_run_None_iff MAX_PHYSICAL_4K_PAGES_def)
  with False assms(1) show ?thesis by (simp add: find_pages_def MAX_PHYSICAL_4K_PAGES_def)
qed

section \<open>Marking frames\<close>

lemma sz_add_mod_eq: "sz_add (a mod sz_range) (b mod sz_range) = (a + b) mod sz_range"
  by (simp add: sz_add_def mod_add_eq)

lemma sz_sub_mod_eq: "sz_sub ((a + b) mod sz_range) (b mod sz_range) = a mod sz_range"
proof -
  obtain q r where b: "b = q * sz_range + r" "r < sz_range"
    by (metis div_mult_mod_eq mod_less_divisor zero_less_numeral)
  have "((a + b) mod sz_range + (sz_range - r)) mod sz_range = ((a + b) + (sz_range - r)) mod sz_range"
    by (rule mod_add_left_eq)
  also have "(a + b) + (sz_range - r) = a + Suc q * sz_range" using b by simp
  also have "\<dots> mod sz_range = a mod sz_range" by (rule mod_mult_self1)
  finally show ?thesis using b by (simp add: sz_sub_def)
qed

lemma set_used_pages_law:
  assumes "pm_inv m" "p + count \<le> MAX_PHYSICAL_4K_PAGES" "\<forall>q. p \<le> q \<and> q < p + count \<longrightarrow> \<not> pm_used m q"
  shows "ok (set_used_pages m p count) (\<lambda>m'. pm_inv m' \<and>
           (\<forall>q. pm_used m' q \<longleftrightarrow> pm_used m q \<or> p \<le> q \<and> q < p + count))"
proof -
  have len: "p + count \<le> 8 * length (pm_tracer m)" "p + count < sz_range"
    using assms by (auto simp: pm_inv_def MAX_PHYSICAL_4K_PAGES_def)
  from ok_set_bits_loop [OF this] show ?thesis
    unfolding set_used_pages_def ok_bindr ok_Inr
  proof (rule ok_mono, goal_cases)
    case (1 d)
    let ?m = "\<lparr>pm_tracer = d, pm_size = sz_add (pm_size m) (sz_mul count PAGE_SIZE)\<rparr>"
    have u: "\<forall>q. pm_used ?m q \<longleftrightarrow> pm_used m q \<or> p \<le> q \<and> q < p + count" using 1 by (simp add: pm_used_def)
    have "used_frames ?m = used_frames m \<union> {p..<p + count}"
    proof (rule set_eqI)
      fix q
      have "p \<le> q \<and> q < p + count \<Longrightarrow> q < MAX_PHYSICAL_4K_PAGES" using assms(2) by linarith
      with u show "q \<in> used_frames ?m \<longleftrightarrow> q \<in> used_frames m \<union> {p..<p + count}"
        unfolding used_frames_def Un_iff mem_Collect_eq atLeastLessThan_iff by blast
    qed
    moreover have "used_frames m \<inter> {p..<p + count} = {}" using assms(3) by (auto simp: used_frames_def)
    ultimately have "card (used_frames ?m) = card (used_frames m) + count"
      by (simp add: card_Un_disjoint)
    then have "pm_size ?m = (card (used_frames ?m) * PAGE_SIZE) mod sz_range"
      using assms(1) sz_add_mod_eq [of "card (used_frames m) * PAGE_SIZE" "count * PAGE_SIZE"]
      by (simp add: pm_inv_def sz_mul_def distrib_right)
    then have "pm_inv ?m" using 1 assms(1) by (simp add: pm_inv_def)
    with u show ?case by blast
  qed
qed

lemma set_free_pages_law:
  assumes "pm_inv m" "p + count \<le> MAX_PHYSICAL_4K_PAGES" "\<forall>q. p \<le> q \<and> q < p + count \<longrightarrow> pm_used m q"
  shows "ok (set_free_pages m p count) (\<lambda>m'. pm_inv m' \<and>
           (\<forall>q. pm_used m' q \<longleftrightarrow> pm_used m q \<and> (q < p \<or> p + count \<le> q)))"
proof -
  have len: "p + count \<le> 8 * length (pm_tracer m)" "p + count < sz_range"
    using assms by (auto simp: pm_inv_def MAX_PHYSICAL_4K_PAGES_def)
  from ok_clear_bits_loop [OF this] show ?thesis
    unfolding set_free_pages_def ok_bindr ok_Inr
  proof (rule ok_mono, goal_cases)
    case (1 d)
    let ?m = "\<lparr>pm_tracer = d, pm_size = sz_sub (pm_size m) (sz_mul count PAGE_SIZE)\<rparr>"
    have u: "\<forall>q. pm_used ?m q \<longleftrightarrow> pm_used m q \<and> (q < p \<or> p + count \<le> q)" using 1 by (simp add: pm_used_def)
    then have "used_frames m = used_frames ?m \<union> {p..<p + count}" "used_frames ?m \<inter> {p..<p + count} = {}"
      using assms(2,3) by (auto simp: used_frames_def)
    then have "card (used_frames m) = card (used_frames ?m) + count"
      by (simp add: card_Un_disjoint)
    then have "pm_size ?m = (card (used_frames ?m) * PAGE_SIZE) mod sz_range"
      using assms(1) sz_sub_mod_eq [of "card (used_frames ?m) * PAGE_SIZE" "count * PAGE_SIZE"]
      by (simp add: pm_inv_def sz_mul_def distrib_right)
    then have "pm_inv ?m" using 1 assms(1) by (simp add: pm_inv_def)
    with u show ?case by blast
  qed
qed

lemma alloc_contagious_law:
  assumes "pm_inv m" "0 < count" "count < sz_range"
  shows "case first_run (\<lambda>p. \<not> pm_used m p) (8 * (start div 8)) MAX_PHYSICAL_4K_PAGES count of
      None \<Rightarrow> alloc_contagious_pages m start count = Inl PanicCalled
    | Some p \<Rightarrow> ok (alloc_contagious_pages m start count) (\<lambda>(address, m').
        address = p * PAGE_SIZE \<and> p + count \<le> MAX_PHYSICAL_4K_PAGES \<and> pm_inv m' \<and>
        (\<forall>q. p \<le> q \<and> q < p + count \<longrightarrow> \<not> pm_used m q) \<and>
        (\<forall>q. pm_used m' q \<longleftrightarrow> pm_used m q \<or> p \<le> q \<and> q < p + count))"
proof -
  have fp: "find_pages m start count =
      (case first_run (\<lambda>p. \<not> pm_used m p) (8 * (start div 8)) MAX_PHYSICAL_4K_PAGES count of
         Some p \<Rightarrow> Inr p | None \<Rightarrow> Inl PanicCalled)"
    using assms by (intro find_pages_spec) (auto simp: pm_inv_def)
  show ?thesis
  proof (cases "first_run (\<lambda>p. \<not> pm_used m p) (8 * (start div 8)) MAX_PHYSICAL_4K_PAGES count")
    case None
    with fp show ?thesis by (simp add: alloc_contagious_pages_def)
  next
    case (Some p)
    then have p: "p + count \<le> MAX_PHYSICAL_4K_PAGES" and f: "\<forall>j<count. \<not> pm_used m (p + j)"
      by (auto simp: first_run_Some_iff)
    have free: "\<forall>q. p \<le> q \<and> q < p + count \<longrightarrow> \<not> pm_used m q"
      using f by (metis add_less_cancel_left le_Suc_ex)
    have "sz_mul p PAGE_SIZE = p * PAGE_SIZE"
      using p assms(2) by (intro sz_mul_eq) (simp add: MAX_PHYSICAL_4K_PAGES_def PAGE_SIZE_def)
    with set_used_pages_law [OF assms(1) p free] fp Some p free show ?thesis
      by (auto simp: alloc_contagious_pages_def run_simps elim!: ok_mono)
  qed
qed

lemma alloc_page_eq: "alloc_page m start = alloc_contagious_pages m start 1"
  by (simp add: alloc_page_def alloc_contagious_pages_def)

section \<open>Properties\<close>

text \<open>
  (C18) \<open>alloc_contagious_pages\<close> returns the address of the lowest run of \<open>count\<close> free page frames
  from the byte of \<open>start\<close> on; those frames, free before, are in use afterwards, every other frame
  keeps its state, and the accounting invariant holds again. When there is no such run, the
  kernel panics, and only then.
\<close>

theorem alloc_contagious_pages_first_fit:
  assumes "pm_inv m" "0 < count" "count < sz_range"
  shows "case first_run (\<lambda>p. \<not> pm_used m p) (8 * (start div 8)) MAX_PHYSICAL_4K_PAGES count of
      None \<Rightarrow> alloc_contagious_pages m start count = Inl PanicCalled
    | Some p \<Rightarrow> ok (alloc_contagious_pages m start count) (\<lambda>(address, m').
        address = p * PAGE_SIZE \<and> p + count \<le> MAX_PHYSICAL_4K_PAGES \<and> pm_inv m' \<and>
        (\<forall>q. p \<le> q \<and> q < p + count \<longrightarrow> \<not> pm_used m q) \<and>
        (\<forall>q. pm_used m' q \<longleftrightarrow> pm_used m q \<or> p \<le> q \<and> q < p + count))"
  using assms by (rule alloc_contagious_law)

theorem alloc_contagious_pages_first_fit_witness:
  "ok (alloc_contagious_pages pm_setup 0 3) (\<lambda>(address, m'). address = 0 \<and> pm_used m' 2)"
proof -
  have "\<not> pm_used pm_setup p" if "p < 3" for p
    using that by (simp add: pm_used_def pm_setup_def bit_at_def MAX_PHYSICAL_4K_PAGES_def)
  then have "first_run (\<lambda>p. \<not> pm_used pm_setup p) (8 * (0 div 8)) MAX_PHYSICAL_4K_PAGES 3 = Some 0"
    by (simp add: first_run_Some_iff MAX_PHYSICAL_4K_PAGES_def)
  with alloc_contagious_pages_first_fit [OF pm_setup_inv, of 3 0] show ?thesis
    by (auto elim!: ok_mono)
qed

text \<open>
  Freeing the frames that an allocation returned gives back exactly the state before the
  allocation: the same frames in use and the same \<open>physical_memory_size\<close>.
\<close>

theorem alloc_free_roundtrip:
  assumes "pm_inv m" "0 < count" "count < sz_range"
    and "alloc_contagious_pages m start count = Inr (address, m')"
  shows "ok (free_pages m' (address div PAGE_SIZE) count) (\<lambda>m''. pm_inv m'' \<and>
     (\<forall>q. pm_used m'' q = pm_used m q) \<and> get_physical_memory_size m'' = get_physical_memory_size m)"
proof -
  have "find_pages m start count =
      (case first_run (\<lambda>p. \<not> pm_used m p) (8 * (start div 8)) MAX_PHYSICAL_4K_PAGES count of
         Some p \<Rightarrow> Inr p | None \<Rightarrow> Inl PanicCalled)"
    using assms by (intro find_pages_spec) (auto simp: pm_inv_def)
  then obtain p where r: "first_run (\<lambda>p. \<not> pm_used m p) (8 * (start div 8)) MAX_PHYSICAL_4K_PAGES count = Some p"
    and a: "set_used_pages m p count = Inr m'" "address = sz_mul p PAGE_SIZE"
    using assms(4) by (auto simp: alloc_contagious_pages_def bindr_eq_Inr split: option.splits)
  then have p: "p + count \<le> MAX_PHYSICAL_4K_PAGES" and f: "\<forall>j<count. \<not> pm_used m (p + j)"
    by (auto simp: first_run_Some_iff)
  have free: "\<forall>q. p \<le> q \<and> q < p + count \<longrightarrow> \<not> pm_used m q"
    using f by (metis add_less_cancel_left le_Suc_ex)
  have inv': "pm_inv m'" and u': "\<forall>q. pm_used m' q \<longleftrightarrow> pm_used m q \<or> p \<le> q \<and> q < p + count"
    using ok_InrD [OF a(1) set_used_pages_law [OF assms(1) p free]] by auto
  have "address div PAGE_SIZE = p"
    using a(2) p assms(2) by (simp add: sz_mul_def MAX_PHYSICAL_4K_PAGES_def PAGE_SIZE_def)
  moreover have "ok (free_pages m' p count) (\<lambda>m''. pm_inv m'' \<and> (\<forall>q. pm_used m'' q = pm_used m q))"
    unfolding free_pages_def
    by (rule ok_mono [OF set_free_pages_law [OF inv' p]]) (use u' free in \<open>auto simp: not_less\<close>)
  ultimately show ?thesis
    using assms(1) by (auto simp: pm_inv_def get_physical_memory_size_def used_frames_def elim!: ok_mono)
qed

theorem alloc_free_roundtrip_witness:
  "\<exists>address m'. alloc_contagious_pages pm_setup 0 3 = Inr (address, m') \<and>
     ok (free_pages m' (address div PAGE_SIZE) 3) (\<lambda>m''. \<forall>q. pm_used m'' q = pm_used pm_setup q)"
proof -
  have "\<not> pm_used pm_setup p" if "p < 3" for p
    using that by (simp add: pm_used_def pm_setup_def bit_at_def MAX_PHYSICAL_4K_PAGES_def)
  then have "first_run (\<lambda>p. \<not> pm_used pm_setup p) (8 * (0 div 8)) MAX_PHYSICAL_4K_PAGES 3 = Some 0"
    by (simp add: first_run_Some_iff MAX_PHYSICAL_4K_PAGES_def)
  with alloc_contagious_law [OF pm_setup_inv, of 3 0] obtain address m'
    where a: "alloc_contagious_pages pm_setup 0 3 = Inr (address, m')" by (auto simp: ok_iff)
  from alloc_free_roundtrip [OF pm_setup_inv _ _ a] have
    "ok (free_pages m' (address div PAGE_SIZE) 3) (\<lambda>m''. \<forall>q. pm_used m'' q = pm_used pm_setup q)"
    by (auto elim!: ok_mono)
  with a show ?thesis by blast
qed

end
