(* ===== verification/Paging.thy ===== *)
theory Paging
  imports Physical_Memory
begin

unbundle bit_operations_syntax

text \<open>
  \<open>Paging\<close> (paging.h, paging.cpp). Physical frames that hold page directories and page tables are
  tables of 1024 entries; the MMU walks them from CR3. At run time the code reaches the tables
  through the recursive last entry of the directory, so every access is itself a page walk
  that faults when an entry on the way is not present; at boot time, before paging is on, it
  uses physical addresses. Addresses are \<open>u32\<close> values, modelled as natural numbers below \<open>2\<^sup>32\<close>.
\<close>

section \<open>Constants and entries\<close>

definition RECURSIVE_ENTRY :: nat where "RECURSIVE_ENTRY = 1023"
definition KERNEL_BASE :: nat where "KERNEL_BASE = 0xC0000000"
definition KERNEL_PHYSICAL_ADDRESS :: nat where "KERNEL_PHYSICAL_ADDRESS = 0x00100000"
definition KERNEL_VIRTUAL_ADDRESS :: nat where
  "KERNEL_VIRTUAL_ADDRESS = KERNEL_BASE + KERNEL_PHYSICAL_ADDRESS"

definition GET_FRAME :: "nat \<Rightarrow> nat" where "GET_FRAME x = x div 4096"
definition GET_PTE_INDEX :: "nat \<Rightarrow> nat" where "GET_PTE_INDEX x = x div 4096 mod 1024"
definition GET_PDE_INDEX :: "nat \<Rightarrow> nat" where "GET_PDE_INDEX x = x div 4194304"
definition GET_OFFSET :: "nat \<Rightarrow> nat" where "GET_OFFSET x = x mod 4096"
definition GET_PAGES :: "nat \<Rightarrow> nat" where
  "GET_PAGES x = x div PAGE_SIZE + (if x mod PAGE_SIZE = 0 then 0 else 1)"
definition GET_PAGE_VIRTUAL_ADDRESS :: "nat \<Rightarrow> nat \<Rightarrow> nat" where
  "GET_PAGE_VIRTUAL_ADDRESS dir_index page_index = dir_index * 4194304 + page_index * 4096"
definition LAST_PAGE_ADDRESS :: nat where
  "LAST_PAGE_ADDRESS = GET_PAGE_VIRTUAL_ADDRESS (RECURSIVE_ENTRY - 1) 1023"

definition PAGE_FLAGS_PRESENT :: nat where "PAGE_FLAGS_PRESENT = 1"
definition PAGE_FLAGS_WRITABLE :: nat where "PAGE_FLAGS_WRITABLE = 2"
definition PAGE_FLAGS_USER :: nat where "PAGE_FLAGS_USER = 4"
definition PAGE_FLAGS_GLOBAL :: nat where "PAGE_FLAGS_GLOBAL = 256"

record pte =
  pte_present :: bool
  pte_rw :: bool
  pte_user :: bool
  pte_pwt :: bool
  pte_pcd :: bool
  pte_accessed :: bool
  pte_dirty :: bool
  pte_pse :: bool
  pte_global :: bool
  pte_unused :: nat
  pte_frame :: nat

type_synonym page_table = "nat \<Rightarrow> pte"

text \<open>The physical frames that hold tables, and the frame number in CR3.\<close>

record mmu =
  mmu_frames :: "nat \<Rightarrow> page_table"
  mmu_cr3 :: nat

definition zero_pte :: pte where
  "zero_pte = \<lparr>pte_present = False, pte_rw = False, pte_user = False, pte_pwt = False, pte_pcd = False,
     pte_accessed = False, pte_dirty = False, pte_pse = False, pte_global = False, pte_unused = 0, pte_frame = 0\<rparr>"

text \<open>\<open>physical_frame\<close> is a \<open>u16\<close> parameter: the frame number is reduced modulo \<open>2\<^sup>16\<close> at the call.\<close>

definition u16_param :: "nat \<Rightarrow> nat" where "u16_param x = x mod 65536"

definition fill_entry :: "pte \<Rightarrow> bool \<Rightarrow> nat \<Rightarrow> nat \<Rightarrow> pte" where
  "fill_entry e pse physical_frame flags =
     e\<lparr>pte_unused := 0, pte_global := (flags AND PAGE_FLAGS_GLOBAL \<noteq> 0), pte_pwt := False, pte_pcd := False,
       pte_pse := pse, pte_present := (flags AND PAGE_FLAGS_PRESENT \<noteq> 0),
       pte_rw := (flags AND PAGE_FLAGS_WRITABLE \<noteq> 0), pte_user := (flags AND PAGE_FLAGS_USER \<noteq> 0),
       pte_frame := u16_param physical_frame\<rparr>"

definition fill_directory_entry :: "pte \<Rightarrow> nat \<Rightarrow> nat \<Rightarrow> pte" where
  "fill_directory_entry e physical_frame flags = fill_entry e False physical_frame flags"

definition fill_directory_PSE_entry :: "pte \<Rightarrow> nat \<Rightarrow> nat \<Rightarrow> pte" where
  "fill_directory_PSE_entry e physical_frame flags = fill_entry e True physical_frame flags"

definition fill_page_table_entry :: "pte \<Rightarrow> nat \<Rightarrow> nat \<Rightarrow> pte" where
  "fill_page_table_entry e physical_frame flags = fill_entry e False physical_frame flags"

definition initialize_page_directory :: "page_table \<Rightarrow> page_table" where
  "initialize_page_directory t = (\<lambda>i. if i < 1024 then zero_pte else t i)"

definition initialize_page_table :: "page_table \<Rightarrow> page_table" where
  "initialize_page_table t = (\<lambda>i. if i < 1024 then zero_pte else t i)"

section \<open>The page walk\<close>

text \<open>The frame a virtual page is mapped to, as the MMU finds it.\<close>

definition walk :: "mmu \<Rightarrow> nat \<Rightarrow> nat option" where
  "walk m va =
     (let d = mmu_frames m (mmu_cr3 m) (GET_PDE_INDEX va) in
      if pte_present d then
        let e = mmu_frames m (pte_frame d) (GET_PTE_INDEX va) in
        if pte_present e then Some (pte_frame e) else None
      else None)"

text \<open>Reading and writing entry i of the table that is mapped at the virtual address va.\<close>

definition read_entry :: "mmu \<Rightarrow> nat \<Rightarrow> nat \<Rightarrow> pte run" where
  "read_entry m va i = (case walk m va of None \<Rightarrow> Inl BadAccess | Some f \<Rightarrow> Inr (mmu_frames m f i))"

definition write_entry :: "mmu \<Rightarrow> nat \<Rightarrow> nat \<Rightarrow> pte \<Rightarrow> mmu run" where
  "write_entry m va i e = (case walk m va of None \<Rightarrow> Inl BadAccess
     | Some f \<Rightarrow> Inr (m\<lparr>mmu_frames := (mmu_frames m)(f := (mmu_frames m f)(i := e))\<rparr>))"

text \<open>The virtual addresses of the page table of an address and of the page directory.\<close>

definition table_of :: "nat \<Rightarrow> nat" where
  "table_of va = GET_PAGE_VIRTUAL_ADDRESS RECURSIVE_ENTRY (GET_PDE_INDEX va)"

definition directory_addr :: nat where
  "directory_addr = GET_PAGE_VIRTUAL_ADDRESS RECURSIVE_ENTRY RECURSIVE_ENTRY"

section \<open>Run-time operations\<close>

definition map_page :: "mmu \<Rightarrow> nat \<Rightarrow> nat \<Rightarrow> nat \<Rightarrow> mmu run" where
  "map_page m virtual_address physical_address flags =
     bindr (read_entry m (table_of virtual_address) (GET_PTE_INDEX virtual_address)) (\<lambda>e.
     write_entry m (table_of virtual_address) (GET_PTE_INDEX virtual_address)
       (fill_page_table_entry e (GET_FRAME physical_address) flags))"

definition map_pages :: "mmu \<Rightarrow> nat \<Rightarrow> nat \<Rightarrow> nat \<Rightarrow> nat \<Rightarrow> mmu run" where
  "map_pages m virtual_address physical_address pages flags =
     for_up 0 pages (\<lambda>i m. map_page m (sz_add virtual_address (sz_mul PAGE_SIZE i))
       (sz_add physical_address (sz_mul PAGE_SIZE i)) flags) m"

definition unmap_page :: "mmu \<Rightarrow> nat \<Rightarrow> mmu run" where
  "unmap_page m virtual_address =
     bindr (read_entry m (table_of virtual_address) (GET_PTE_INDEX virtual_address)) (\<lambda>e.
     write_entry m (table_of virtual_address) (GET_PTE_INDEX virtual_address) (e\<lparr>pte_present := False\<rparr>))"

definition unmap_pages :: "mmu \<Rightarrow> nat \<Rightarrow> nat \<Rightarrow> mmu run" where
  "unmap_pages m virtual_address pages =
     for_up 0 pages (\<lambda>i m. unmap_page m (sz_add virtual_address (sz_mul PAGE_SIZE i))) m"

definition get_physical_page :: "mmu \<Rightarrow> nat \<Rightarrow> nat run" where
  "get_physical_page m virtual_address =
     bindr (read_entry m (table_of virtual_address) (GET_PTE_INDEX virtual_address)) (\<lambda>e. Inr (pte_frame e))"

definition map_page_table :: "mmu \<Rightarrow> nat \<Rightarrow> nat \<Rightarrow> mmu run" where
  "map_page_table m virtual_address pt_virtual_address =
     bindr (get_physical_page m pt_virtual_address) (\<lambda>pt_frame.
     bindr (read_entry m directory_addr (GET_PDE_INDEX virtual_address)) (\<lambda>e.
     write_entry m directory_addr (GET_PDE_INDEX virtual_address)
       (fill_directory_entry e pt_frame (PAGE_FLAGS_PRESENT OR PAGE_FLAGS_WRITABLE OR PAGE_FLAGS_USER))))"

definition check_page_table_exists :: "mmu \<Rightarrow> nat \<Rightarrow> bool run" where
  "check_page_table_exists m virtual_address =
     bindr (read_entry m directory_addr (GET_PDE_INDEX virtual_address)) (\<lambda>e. Inr (pte_present e))"

definition check_page_exits_in_table :: "mmu \<Rightarrow> nat \<Rightarrow> bool run" where
  "check_page_exits_in_table m virtual_address =
     bindr (read_entry m (table_of virtual_address) (GET_PTE_INDEX virtual_address)) (\<lambda>e. Inr (pte_present e))"

definition check_page_present :: "mmu \<Rightarrow> nat \<Rightarrow> bool run" where
  "check_page_present m virtual_address =
     bindr (check_page_table_exists m virtual_address) (\<lambda>b.
     if \<not> b then Inr False else check_page_exits_in_table m virtual_address)"

text \<open>
  \<open>map_kernel_pd_entries\<close>: pd is the virtual address of the new directory, \<open>kernel_pd\<close> the frame
  of the static \<open>page_direcotry\<close>. The new directory is zeroed, takes over the kernel's entries and
  gets a recursive entry of its own.
\<close>

definition map_kernel_pd_entries :: "nat \<Rightarrow> mmu \<Rightarrow> nat \<Rightarrow> mmu run" where
  "map_kernel_pd_entries kernel_pd m pd =
     (case walk m pd of None \<Rightarrow> Inl BadAccess
      | Some f \<Rightarrow>
        let t0 = initialize_page_directory (mmu_frames m f);
            m0 = m\<lparr>mmu_frames := (mmu_frames m)(f := t0)\<rparr>;
            t1 = (\<lambda>i. if GET_PDE_INDEX KERNEL_VIRTUAL_ADDRESS \<le> i \<and> i < RECURSIVE_ENTRY
                      then mmu_frames m0 kernel_pd i else t0 i);
            m1 = m0\<lparr>mmu_frames := (mmu_frames m0)(f := t1)\<rparr>
        in bindr (get_physical_page m1 pd) (\<lambda>frame.
           Inr (m1\<lparr>mmu_frames := (mmu_frames m1)(f := t1(RECURSIVE_ENTRY :=
             fill_directory_entry (t1 RECURSIVE_ENTRY) frame (PAGE_FLAGS_PRESENT OR PAGE_FLAGS_WRITABLE)))\<rparr>)))"

definition load_page_directory :: "mmu \<Rightarrow> nat \<Rightarrow> mmu" where
  "load_page_directory m physical_address = m\<lparr>mmu_cr3 := GET_FRAME physical_address\<rparr>"

section \<open>Boot-time operations\<close>

text \<open>
  The directory, the kernel page tables and the bootstrap page tables are static arrays; \<open>pd\<close>,
  \<open>kpt\<close> and \<open>bpt\<close> are the frames the linker gives them.
\<close>

definition FULL_KERNEL_PAGES :: nat where
  "FULL_KERNEL_PAGES = 1024 - KERNEL_BASE div 4194304"

definition install_table :: "nat \<Rightarrow> nat \<Rightarrow> nat \<Rightarrow> nat \<Rightarrow> (nat \<Rightarrow> page_table) \<Rightarrow> (nat \<Rightarrow> page_table)" where
  "install_table pd slot f flags frames =
     (let frames1 = frames(f := initialize_page_table (frames f)) in
      frames1(pd := (frames1 pd)(slot := fill_directory_entry (frames1 pd slot) f flags)))"

definition setup_page_tables :: "nat \<Rightarrow> nat \<Rightarrow> nat \<Rightarrow> (nat \<Rightarrow> page_table) \<Rightarrow> (nat \<Rightarrow> page_table)" where
  "setup_page_tables pd kpt bpt frames =
     (let flags = PAGE_FLAGS_PRESENT OR PAGE_FLAGS_WRITABLE;
          f0 = frames(pd := initialize_page_directory (frames pd));
          f1 = fold (\<lambda>i. install_table pd (i + GET_PDE_INDEX KERNEL_BASE) (kpt + i) flags) [0..<FULL_KERNEL_PAGES] f0;
          f2 = fold (\<lambda>i. install_table pd i (bpt + i) flags) [0..<2] f1
      in f2(pd := (f2 pd)(RECURSIVE_ENTRY := fill_directory_entry (f2 pd RECURSIVE_ENTRY) pd flags)))"

definition map_boot_page :: "nat \<Rightarrow> nat \<Rightarrow> nat \<Rightarrow> (nat \<Rightarrow> page_table) \<Rightarrow> (nat \<Rightarrow> page_table)" where
  "map_boot_page pd current_v_page current_p_page frames =
     (let t = pte_frame (frames pd (GET_PDE_INDEX current_v_page));
          i = GET_PTE_INDEX current_v_page
      in frames(t := (frames t)(i := fill_page_table_entry (frames t i) (GET_FRAME current_p_page)
           (PAGE_FLAGS_PRESENT OR PAGE_FLAGS_WRITABLE OR PAGE_FLAGS_GLOBAL))))"

definition map_boot_pages :: "nat \<Rightarrow> nat \<Rightarrow> nat \<Rightarrow> nat \<Rightarrow> (nat \<Rightarrow> page_table) \<Rightarrow> (nat \<Rightarrow> page_table)" where
  "map_boot_pages pd virtual_address physical_address pages frames =
     fold (\<lambda>i. map_boot_page pd (sz_add virtual_address (sz_mul PAGE_SIZE i))
                 (sz_add physical_address (sz_mul PAGE_SIZE i))) [0..<pages] frames"

definition paging_setup :: "nat \<Rightarrow> nat \<Rightarrow> nat \<Rightarrow> nat \<Rightarrow> (nat \<Rightarrow> page_table) \<Rightarrow> mmu" where
  "paging_setup pd kpt bpt num_kernel_pages frames =
     (let f0 = frames(pd := initialize_page_directory (frames pd));
          f1 = setup_page_tables pd kpt bpt f0;
          f2 = map_boot_pages pd KERNEL_PHYSICAL_ADDRESS KERNEL_PHYSICAL_ADDRESS num_kernel_pages f1;
          f3 = map_boot_pages pd KERNEL_VIRTUAL_ADDRESS KERNEL_PHYSICAL_ADDRESS num_kernel_pages f2
      in \<lparr>mmu_frames = f3, mmu_cr3 = pd\<rparr>)"

section \<open>Well-formed address spaces\<close>

text \<open>
  The directory maps itself through its last entry; the other present entries point to
  tables of their own, none of them the directory.
\<close>

definition mmu_wf :: "mmu \<Rightarrow> bool" where
  "mmu_wf m \<longleftrightarrow> (let d = mmu_frames m (mmu_cr3 m) in
     pte_present (d RECURSIVE_ENTRY) \<and> pte_frame (d RECURSIVE_ENTRY) = mmu_cr3 m \<and>
     (\<forall>i<RECURSIVE_ENTRY. pte_present (d i) \<longrightarrow> pte_frame (d i) \<noteq> mmu_cr3 m \<and>
        (\<forall>j<RECURSIVE_ENTRY. pte_present (d j) \<longrightarrow> pte_frame (d i) = pte_frame (d j) \<longrightarrow> i = j)))"

text \<open>The page table of va exists.\<close>

definition has_table :: "mmu \<Rightarrow> nat \<Rightarrow> bool" where
  "has_table m va = pte_present (mmu_frames m (mmu_cr3 m) (GET_PDE_INDEX va))"

text \<open>Addresses below the window of the recursive entry.\<close>

definition mappable :: "nat \<Rightarrow> bool" where
  "mappable va \<longleftrightarrow> GET_PDE_INDEX va < RECURSIVE_ENTRY"

lemma walk_table_of:
  assumes "mmu_wf m" "mappable va"
  shows "walk m (table_of va) =
    (if has_table m va then Some (pte_frame (mmu_frames m (mmu_cr3 m) (GET_PDE_INDEX va))) else None)"
proof -
  have "GET_PDE_INDEX va < 1023" using assms(2) by (simp add: mappable_def RECURSIVE_ENTRY_def)
  moreover have "(1047552 + x) mod 1024 = x mod 1024" for x :: nat using mod_mult_self3 [of 1023 1024 x] by simp
  ultimately have "GET_PDE_INDEX (table_of va) = RECURSIVE_ENTRY" "GET_PTE_INDEX (table_of va) = GET_PDE_INDEX va"
    by (simp_all add: table_of_def GET_PAGE_VIRTUAL_ADDRESS_def GET_PDE_INDEX_def GET_PTE_INDEX_def RECURSIVE_ENTRY_def)
  with assms(1) show ?thesis by (simp add: walk_def mmu_wf_def has_table_def Let_def)
qed

lemma walk_directory:
  assumes "mmu_wf m"
  shows "walk m directory_addr = Some (mmu_cr3 m)"
proof -
  have "GET_PDE_INDEX directory_addr = RECURSIVE_ENTRY" "GET_PTE_INDEX directory_addr = RECURSIVE_ENTRY"
    by (simp_all add: directory_addr_def GET_PAGE_VIRTUAL_ADDRESS_def GET_PDE_INDEX_def GET_PTE_INDEX_def RECURSIVE_ENTRY_def)
  with assms show ?thesis by (simp add: walk_def mmu_wf_def Let_def)
qed

section \<open>Effect of an entry update\<close>

definition the_table :: "mmu \<Rightarrow> nat \<Rightarrow> nat" where
  "the_table m va = pte_frame (mmu_frames m (mmu_cr3 m) (GET_PDE_INDEX va))"

definition set_entry :: "mmu \<Rightarrow> nat \<Rightarrow> pte \<Rightarrow> mmu" where
  "set_entry m va e = m\<lparr>mmu_frames := (mmu_frames m)(the_table m va :=
     (mmu_frames m (the_table m va))(GET_PTE_INDEX va := e))\<rparr>"

definition entry_of :: "mmu \<Rightarrow> nat \<Rightarrow> pte" where
  "entry_of m va = mmu_frames m (the_table m va) (GET_PTE_INDEX va)"

lemma same_page_iff: "va div 4096 = va' div 4096 \<longleftrightarrow>
    GET_PDE_INDEX va = GET_PDE_INDEX va' \<and> GET_PTE_INDEX va = GET_PTE_INDEX va'"
proof -
  have "x div 4194304 = x div 4096 div 1024" for x :: nat by (simp add: div_mult2_eq [symmetric])
  then show ?thesis
    by (simp add: GET_PDE_INDEX_def GET_PTE_INDEX_def) (metis div_mult_mod_eq)
qed

lemma read_table: "mmu_wf m \<Longrightarrow> mappable va \<Longrightarrow>
    read_entry m (table_of va) (GET_PTE_INDEX va) = (if has_table m va then Inr (entry_of m va) else Inl BadAccess)"
  by (simp add: read_entry_def walk_table_of entry_of_def the_table_def)

lemma write_table: "mmu_wf m \<Longrightarrow> mappable va \<Longrightarrow> has_table m va \<Longrightarrow>
    write_entry m (table_of va) (GET_PTE_INDEX va) e = Inr (set_entry m va e)"
  by (simp add: write_entry_def walk_table_of set_entry_def the_table_def)

lemma walk_eq: "walk m va = (if has_table m va \<and> pte_present (entry_of m va) then Some (pte_frame (entry_of m va)) else None)"
  by (simp add: walk_def has_table_def entry_of_def the_table_def Let_def)

lemma the_table_not_dir: "mmu_wf m \<Longrightarrow> mappable va \<Longrightarrow> has_table m va \<Longrightarrow> the_table m va \<noteq> mmu_cr3 m"
  by (simp add: mmu_wf_def mappable_def has_table_def the_table_def Let_def)

lemma the_table_inj:
  "mmu_wf m \<Longrightarrow> mappable va \<Longrightarrow> has_table m va \<Longrightarrow> mappable va' \<Longrightarrow> has_table m va' \<Longrightarrow>
   the_table m va = the_table m va' \<Longrightarrow> GET_PDE_INDEX va = GET_PDE_INDEX va'"
  by (auto simp: mmu_wf_def mappable_def has_table_def the_table_def Let_def)

lemma set_entry_dir:
  assumes "mmu_wf m" "mappable va" "has_table m va"
  shows "mmu_frames (set_entry m va e) (mmu_cr3 m) = mmu_frames m (mmu_cr3 m)"
    and "mmu_cr3 (set_entry m va e) = mmu_cr3 m"
  using the_table_not_dir [OF assms] by (auto simp: set_entry_def)

lemma set_entry_wf:
  assumes "mmu_wf m" "mappable va" "has_table m va"
  shows "mmu_wf (set_entry m va e)"
  using assms set_entry_dir [OF assms] by (simp add: mmu_wf_def Let_def)

lemma set_entry_tables:
  assumes "mmu_wf m" "mappable va" "has_table m va"
  shows "has_table (set_entry m va e) va' = has_table m va'"
    and "the_table (set_entry m va e) va' = the_table m va'"
  using set_entry_dir [OF assms] by (simp_all add: has_table_def the_table_def)

lemma set_entry_entry:
  assumes "mmu_wf m" "mappable va" "has_table m va" "mappable va'" "has_table m va'"
  shows "entry_of (set_entry m va e) va' = (if va' div 4096 = va div 4096 then e else entry_of m va')"
proof -
  have "mmu_frames (set_entry m va e) (the_table m va') (GET_PTE_INDEX va') =
      (if the_table m va' = the_table m va \<and> GET_PTE_INDEX va' = GET_PTE_INDEX va then e else entry_of m va')"
    by (auto simp: set_entry_def entry_of_def)
  moreover have "the_table m va' = the_table m va \<longleftrightarrow> GET_PDE_INDEX va' = GET_PDE_INDEX va"
    using the_table_inj assms by (auto simp: the_table_def)
  ultimately show ?thesis
    using set_entry_tables [OF assms(1-3)] by (simp add: entry_of_def same_page_iff)
qed

lemma set_entry_walk:
  assumes "mmu_wf m" "mappable va" "has_table m va" "mappable va'"
  shows "walk (set_entry m va e) va' =
    (if va' div 4096 = va div 4096 then (if pte_present e then Some (pte_frame e) else None) else walk m va')"
proof (cases "has_table m va'")
  case True
  with assms set_entry_entry [OF assms(1-4)] set_entry_tables [OF assms(1-3)] show ?thesis
    by (simp add: walk_eq)
next
  case False
  then have "va' div 4096 \<noteq> va div 4096" using assms(3) by (auto simp: same_page_iff has_table_def)
  with False set_entry_tables [OF assms(1-3)] show ?thesis by (simp add: walk_eq)
qed

lemmas set_entry_facts = set_entry_wf set_entry_tables set_entry_entry set_entry_walk

section \<open>Mapping and unmapping\<close>

definition present_flag :: "nat \<Rightarrow> bool" where
  "present_flag flags \<longleftrightarrow> flags AND PAGE_FLAGS_PRESENT \<noteq> 0"

lemma map_page_eq:
  "mmu_wf m \<Longrightarrow> mappable va \<Longrightarrow> map_page m va pa flags =
    (if has_table m va then Inr (set_entry m va (fill_page_table_entry (entry_of m va) (GET_FRAME pa) flags))
     else Inl BadAccess)"
  by (simp add: map_page_def read_table write_table)

lemma unmap_page_eq:
  "mmu_wf m \<Longrightarrow> mappable va \<Longrightarrow> unmap_page m va =
    (if has_table m va then Inr (set_entry m va ((entry_of m va)\<lparr>pte_present := False\<rparr>)) else Inl BadAccess)"
  by (simp add: unmap_page_def read_table write_table)

lemma get_physical_page_eq:
  "mmu_wf m \<Longrightarrow> mappable va \<Longrightarrow> get_physical_page m va =
    (if has_table m va then Inr (pte_frame (entry_of m va)) else Inl BadAccess)"
  by (simp add: get_physical_page_def read_table)

lemma check_page_table_exists_eq:
  "mmu_wf m \<Longrightarrow> check_page_table_exists m va = Inr (has_table m va)"
  by (simp add: check_page_table_exists_def read_entry_def walk_directory has_table_def)

lemma check_page_present_eq:
  "mmu_wf m \<Longrightarrow> mappable va \<Longrightarrow> check_page_present m va = Inr (walk m va \<noteq> None)"
  by (simp add: check_page_present_def check_page_table_exists_eq check_page_exits_in_table_def
      read_table walk_eq)

lemma fill_entry_present: "pte_present (fill_page_table_entry e f flags) = present_flag flags"
  by (simp add: fill_page_table_entry_def fill_entry_def present_flag_def)

lemma fill_entry_frame: "pte_frame (fill_page_table_entry e f flags) = f mod 65536"
  by (simp add: fill_page_table_entry_def fill_entry_def u16_param_def)

text \<open>The pages a range of n pages from va covers.\<close>

definition in_range :: "nat \<Rightarrow> nat \<Rightarrow> nat \<Rightarrow> bool" where
  "in_range va n va' \<longleftrightarrow> va div 4096 \<le> va' div 4096 \<and> va' div 4096 < va div 4096 + n"

text \<open>Every page of the range can be mapped: its table exists and it lies below the recursive window.\<close>

definition range_ok :: "mmu \<Rightarrow> nat \<Rightarrow> nat \<Rightarrow> bool" where
  "range_ok m va n \<longleftrightarrow> va + 4096 * n \<le> sz_range \<and>
     (\<forall>i<n. mappable (va + 4096 * i) \<and> has_table m (va + 4096 * i))"

lemma page_step: "(va + 4096 * i) div 4096 = va div 4096 + i" for va :: nat
  by simp

lemma in_range_Suc:
  "in_range va (Suc n) va' \<longleftrightarrow> in_range va n va' \<or> va' div 4096 = (va + 4096 * n) div 4096"
  by (auto simp: in_range_def)

lemma map_pages_law:
  assumes "mmu_wf m" "range_ok m va n" "pa + 4096 * n \<le> sz_range" "present_flag flags"
  shows "ok (map_pages m va pa n flags) (\<lambda>m'. mmu_wf m' \<and> (\<forall>v. has_table m' v = has_table m v \<and> the_table m' v = the_table m v) \<and> mmu_cr3 m' = mmu_cr3 m \<and>
    (\<forall>v. mappable v \<longrightarrow> walk m' v = (if in_range va n v
        then Some ((pa div 4096 + (v div 4096 - va div 4096)) mod 65536) else walk m v)))"
  unfolding map_pages_def
proof (rule for_up_rule [where I = "\<lambda>i m'. mmu_wf m' \<and> (\<forall>v. has_table m' v = has_table m v \<and> the_table m' v = the_table m v) \<and> mmu_cr3 m' = mmu_cr3 m \<and>
    (\<forall>v. mappable v \<longrightarrow> walk m' v = (if in_range va i v
        then Some ((pa div 4096 + (v div 4096 - va div 4096)) mod 65536) else walk m v))"], goal_cases)
  case 2
  with assms show ?case by (auto simp: in_range_def)
next
  case (3 i m')
  let ?va = "va + 4096 * i" and ?pa = "pa + 4096 * i"
  have i: "i < n" and wf: "mmu_wf m'" using 3 by auto
  have va: "mappable ?va" "has_table m' ?va" using assms(2) 3 i by (auto simp: range_ok_def)
  have "sz_mul PAGE_SIZE i = 4096 * i" "sz_add va (4096 * i) = ?va" "sz_add pa (4096 * i) = ?pa"
    using assms(2,3) i by (auto simp: PAGE_SIZE_def range_ok_def intro!: sz_mul_eq sz_add_eq)
  moreover have "GET_FRAME ?pa = pa div 4096 + i" by (simp add: GET_FRAME_def)
  ultimately show ?case
    using 3 va set_entry_facts [OF wf va] set_entry_dir(2) [OF wf va] assms(4)
    by (auto simp: map_page_eq [OF wf] ok_Inr in_range_Suc fill_entry_present fill_entry_frame page_step)
qed simp

lemma unmap_pages_law:
  assumes "mmu_wf m" "range_ok m va n"
  shows "ok (unmap_pages m va n) (\<lambda>m'. mmu_wf m' \<and> (\<forall>v. has_table m' v = has_table m v) \<and>
    (\<forall>v. mappable v \<longrightarrow> walk m' v = (if in_range va n v then None else walk m v)))"
  unfolding unmap_pages_def
proof (rule for_up_rule [where I = "\<lambda>i m'. mmu_wf m' \<and> (\<forall>v. has_table m' v = has_table m v) \<and>
    (\<forall>v. mappable v \<longrightarrow> walk m' v = (if in_range va i v then None else walk m v))"], goal_cases)
  case 2
  with assms show ?case by (auto simp: in_range_def)
next
  case (3 i m')
  let ?va = "va + 4096 * i"
  have i: "i < n" and wf: "mmu_wf m'" using 3 by auto
  have va: "mappable ?va" "has_table m' ?va" using assms(2) 3 i by (auto simp: range_ok_def)
  have "sz_mul PAGE_SIZE i = 4096 * i" "sz_add va (4096 * i) = ?va"
    using assms(2) i by (auto simp: PAGE_SIZE_def range_ok_def intro!: sz_mul_eq sz_add_eq)
  then show ?case
    using 3 va set_entry_facts [OF wf va]
    by (auto simp: unmap_page_eq [OF wf] ok_Inr in_range_Suc page_step)
qed simp

section \<open>The address space set up at boot\<close>

text \<open>The frames of the static tables are distinct and fit the 16 bits the entries keep.\<close>

definition boot_frames_ok :: "nat \<Rightarrow> nat \<Rightarrow> nat \<Rightarrow> bool" where
  "boot_frames_ok pd kpt bpt \<longleftrightarrow>
     pd < 65536 \<and> kpt + 256 \<le> 65536 \<and> bpt + 2 \<le> 65536 \<and>
     (pd < kpt \<or> kpt + 256 \<le> pd) \<and> (pd < bpt \<or> bpt + 2 \<le> pd) \<and> (kpt + 256 \<le> bpt \<or> bpt + 2 \<le> kpt)"

lemma flag_bits [simp]:
  "(PAGE_FLAGS_PRESENT OR PAGE_FLAGS_WRITABLE) AND PAGE_FLAGS_PRESENT = 1"
  "present_flag (PAGE_FLAGS_PRESENT OR PAGE_FLAGS_WRITABLE OR PAGE_FLAGS_GLOBAL)"
  by (simp_all add: PAGE_FLAGS_PRESENT_def PAGE_FLAGS_WRITABLE_def PAGE_FLAGS_GLOBAL_def present_flag_def)

lemma fill_directory_boot [simp]:
  "pte_present (fill_directory_entry e f (PAGE_FLAGS_PRESENT OR PAGE_FLAGS_WRITABLE))"
  "pte_frame (fill_directory_entry e f flags) = f mod 65536"
  by (simp_all add: fill_directory_entry_def fill_entry_def u16_param_def)

lemma install_tables:
  assumes "\<forall>i<n. pd \<noteq> t + i"
  shows "fold (\<lambda>i. install_table pd (i + s) (t + i) flags) [0..<n] f pd j =
    (if s \<le> j \<and> j < s + n then fill_directory_entry (f pd j) (t + (j - s)) flags else f pd j)"
  using assms
proof (induction n arbitrary: j)
  case (Suc n)
  then have IH: "fold (\<lambda>i. install_table pd (i + s) (t + i) flags) [0..<n] f pd j =
    (if s \<le> j \<and> j < s + n then fill_directory_entry (f pd j) (t + (j - s)) flags else f pd j)" for j by simp
  have "pd \<noteq> t + n" using Suc.prems by simp
  then have "fold (\<lambda>i. install_table pd (i + s) (t + i) flags) [0..<Suc n] f pd j =
      (if j = n + s then fill_directory_entry (f pd (n + s)) (t + n) flags
       else fold (\<lambda>i. install_table pd (i + s) (t + i) flags) [0..<n] f pd j)"
    by (simp add: install_table_def Let_def IH)
  then show ?case by (auto simp: IH)
qed auto

lemma install_tables_frames:
  assumes "\<forall>i<n. pd \<noteq> t + i" "g \<noteq> pd"
  shows "fold (\<lambda>i. install_table pd (i + s) (t + i) flags) [0..<n] f g =
    (if t \<le> g \<and> g < t + n then initialize_page_table (f g) else f g)"
  using assms(1)
proof (induction n)
  case (Suc n)
  then show ?case using assms(2) by (auto simp: install_table_def Let_def)
qed auto

lemma setup_tables_zero:
  assumes "boot_frames_ok pd kpt bpt" "j < 1024"
    and "(\<exists>i<2. g = bpt + i) \<or> (\<exists>i<256. g = kpt + i)"
  shows "setup_page_tables pd kpt bpt frames g j = zero_pte"
proof -
  have b: "\<forall>i<2. pd \<noteq> bpt + i" and k: "\<forall>i<256. pd \<noteq> kpt + i" and g: "g \<noteq> pd"
    using assms(1,3) by (auto simp: boot_frames_ok_def)
  have "FULL_KERNEL_PAGES = 256" by (simp add: FULL_KERNEL_PAGES_def KERNEL_BASE_def)
  with install_tables_frames [OF b g, of 0] install_tables_frames [OF k g] g assms(2,3) show ?thesis
    by (auto simp: setup_page_tables_def Let_def initialize_page_table_def simp del: upt_Suc)
qed

lemma setup_directory:
  assumes "boot_frames_ok pd kpt bpt"
  shows "setup_page_tables pd kpt bpt frames pd j =
    (if j = 1023 then fill_directory_entry (setup_page_tables pd kpt bpt frames pd 1023) pd (PAGE_FLAGS_PRESENT OR PAGE_FLAGS_WRITABLE)
     else if j < 2 then fill_directory_entry zero_pte (bpt + j) (PAGE_FLAGS_PRESENT OR PAGE_FLAGS_WRITABLE)
     else if 768 \<le> j \<and> j < 1024 then fill_directory_entry zero_pte (kpt + (j - 768)) (PAGE_FLAGS_PRESENT OR PAGE_FLAGS_WRITABLE)
     else if j < 1024 then zero_pte else frames pd j)"
proof -
  have b: "\<forall>i<2. pd \<noteq> bpt + i" and k: "\<forall>i<256. pd \<noteq> kpt + i"
    using assms by (auto simp: boot_frames_ok_def)
  have "FULL_KERNEL_PAGES = 256" "GET_PDE_INDEX KERNEL_BASE = 768"
    by (simp_all add: FULL_KERNEL_PAGES_def GET_PDE_INDEX_def KERNEL_BASE_def)
  with install_tables [OF b, of 0] install_tables [OF k, of 768] show ?thesis
    by (auto simp: setup_page_tables_def Let_def RECURSIVE_ENTRY_def initialize_page_directory_def
        fill_directory_entry_def fill_entry_def simp del: upt_Suc)
qed

lemma setup_directory_entries:
  fixes frames :: "nat \<Rightarrow> page_table"
  assumes "boot_frames_ok pd kpt bpt" "j < 1024"
  defines "e \<equiv> setup_page_tables pd kpt bpt frames pd j"
  shows "pte_present e \<longleftrightarrow> j < 2 \<or> 768 \<le> j"
    and "j < 2 \<Longrightarrow> pte_frame e = bpt + j"
    and "768 \<le> j \<Longrightarrow> j < 1023 \<Longrightarrow> pte_frame e = kpt + (j - 768)"
    and "j = 1023 \<Longrightarrow> pte_frame e = pd"
  using assms(1,2) unfolding e_def setup_directory [OF assms(1), of _ j]
  by (auto simp: zero_pte_def boot_frames_ok_def)

lemma setup_wf:
  assumes "boot_frames_ok pd kpt bpt"
  shows "mmu_wf \<lparr>mmu_frames = setup_page_tables pd kpt bpt frames, mmu_cr3 = pd\<rparr>"
proof -
  let ?d = "setup_page_tables pd kpt bpt frames pd"
  note e = setup_directory_entries [OF assms]
  have fr: "pte_frame (?d i) = (if i < 2 then bpt + i else kpt + (i - 768))"
    if "i < 1023" "pte_present (?d i)" for i
    using that e(1-3) [of i frames] by auto
  have "pte_present (?d 1023)" "pte_frame (?d 1023) = pd" using e(1,4) [of 1023 frames] by auto
  moreover have "pte_frame (?d i) \<noteq> pd" if "i < 1023" "pte_present (?d i)" for i
    using that fr [OF that] e(1) [of i frames] assms by (auto simp: boot_frames_ok_def split: if_splits)
  moreover have "i = j" if "i < 1023" "pte_present (?d i)" "j < 1023" "pte_present (?d j)"
      "pte_frame (?d i) = pte_frame (?d j)" for i j
    using that fr [of i] fr [of j] e(1) [of i frames] e(1) [of j frames] assms
    by (auto simp: boot_frames_ok_def split: if_splits)
  ultimately show ?thesis by (simp add: mmu_wf_def RECURSIVE_ENTRY_def Let_def)
qed

lemma setup_has_table:
  assumes "boot_frames_ok pd kpt bpt" "va < sz_range"
  shows "has_table \<lparr>mmu_frames = setup_page_tables pd kpt bpt frames, mmu_cr3 = pd\<rparr> va \<longleftrightarrow>
    va < 0x800000 \<or> 0xC0000000 \<le> va"
proof -
  have "GET_PDE_INDEX va < 1024" using assms(2) by (simp add: GET_PDE_INDEX_def less_mult_imp_div_less)
  then have "has_table \<lparr>mmu_frames = setup_page_tables pd kpt bpt frames, mmu_cr3 = pd\<rparr> va \<longleftrightarrow>
      GET_PDE_INDEX va < 2 \<or> 768 \<le> GET_PDE_INDEX va"
    using setup_directory_entries(1) [OF assms(1), of "GET_PDE_INDEX va" frames] by (simp add: has_table_def)
  also have "\<dots> \<longleftrightarrow> va < 0x800000 \<or> 0xC0000000 \<le> va"
    by (simp add: GET_PDE_INDEX_def div_less_iff_less_mult less_eq_div_iff_mult_less_eq)
  finally show ?thesis .
qed

lemma setup_the_table:
  assumes "boot_frames_ok pd kpt bpt" "mappable va"
    and "has_table \<lparr>mmu_frames = setup_page_tables pd kpt bpt frames, mmu_cr3 = pd\<rparr> va"
  shows "(\<exists>i<2. the_table \<lparr>mmu_frames = setup_page_tables pd kpt bpt frames, mmu_cr3 = pd\<rparr> va = bpt + i) \<or>
    (\<exists>i<256. the_table \<lparr>mmu_frames = setup_page_tables pd kpt bpt frames, mmu_cr3 = pd\<rparr> va = kpt + i)"
proof -
  let ?j = "GET_PDE_INDEX va"
  have j: "?j < 1023" using assms(2) by (simp add: mappable_def RECURSIVE_ENTRY_def)
  then have "?j < 2 \<or> 768 \<le> ?j"
    using assms(3) setup_directory_entries(1) [OF assms(1), of ?j frames] by (simp add: has_table_def)
  with j setup_directory_entries(2,3) [OF assms(1), of ?j frames] show ?thesis
    by (auto simp: the_table_def intro: exI [of _ ?j] exI [of _ "?j - 768"])
qed

text \<open>Before the kernel's pages are mapped nothing is.\<close>

lemma setup_walk:
  assumes "boot_frames_ok pd kpt bpt" "mappable va"
  shows "walk \<lparr>mmu_frames = setup_page_tables pd kpt bpt frames, mmu_cr3 = pd\<rparr> va = None"
proof -
  have "GET_PTE_INDEX va < 1024" by (simp add: GET_PTE_INDEX_def)
  with setup_the_table [OF assms, of frames] setup_tables_zero [OF assms(1)] show ?thesis
    by (auto simp: walk_eq entry_of_def zero_pte_def)
qed

text \<open>At boot the tables are written directly; the result is that of \<open>map_pages\<close>.\<close>

lemma map_boot_page_eq:
  "\<lparr>mmu_frames = map_boot_page pd va pa frames, mmu_cr3 = pd\<rparr> =
   set_entry \<lparr>mmu_frames = frames, mmu_cr3 = pd\<rparr> va
     (fill_page_table_entry (entry_of \<lparr>mmu_frames = frames, mmu_cr3 = pd\<rparr> va) (GET_FRAME pa)
       (PAGE_FLAGS_PRESENT OR PAGE_FLAGS_WRITABLE OR PAGE_FLAGS_GLOBAL))"
  by (simp add: map_boot_page_def set_entry_def entry_of_def the_table_def Let_def)

lemma map_boot_pages_eq:
  assumes "mmu_wf \<lparr>mmu_frames = frames, mmu_cr3 = pd\<rparr>" "range_ok \<lparr>mmu_frames = frames, mmu_cr3 = pd\<rparr> va n"
    and "pa + 4096 * n \<le> sz_range"
  shows "map_pages \<lparr>mmu_frames = frames, mmu_cr3 = pd\<rparr> va pa n
      (PAGE_FLAGS_PRESENT OR PAGE_FLAGS_WRITABLE OR PAGE_FLAGS_GLOBAL) =
    Inr \<lparr>mmu_frames = map_boot_pages pd va pa n frames, mmu_cr3 = pd\<rparr>"
  using assms(2,3)
proof (induction n)
  case 0
  then show ?case by (simp add: map_pages_def map_boot_pages_def)
next
  case (Suc n)
  let ?m = "\<lparr>mmu_frames = frames, mmu_cr3 = pd\<rparr>"
  let ?m' = "\<lparr>mmu_frames = map_boot_pages pd va pa n frames, mmu_cr3 = pd\<rparr>"
  have r: "range_ok ?m va n" "mappable (va + 4096 * n)" "has_table ?m (va + 4096 * n)"
    "va + 4096 * n < sz_range" using Suc.prems by (auto simp: range_ok_def)
  have IH: "map_pages ?m va pa n (PAGE_FLAGS_PRESENT OR PAGE_FLAGS_WRITABLE OR PAGE_FLAGS_GLOBAL) = Inr ?m'"
    using Suc.IH r Suc.prems(2) by simp
  with ok_InrD [OF IH map_pages_law [OF assms(1) r(1)]] Suc.prems(2) r
  have "mmu_wf ?m'" "has_table ?m' (va + 4096 * n)" by auto
  moreover have "sz_mul PAGE_SIZE n = 4096 * n" "sz_add va (4096 * n) = va + 4096 * n"
    using r by (auto simp: PAGE_SIZE_def intro!: sz_mul_eq sz_add_eq)
  ultimately show ?case
    using IH r by (simp add: map_pages_def for_up_last map_page_eq map_boot_pages_def map_boot_page_eq)
qed

lemma paging_setup_law:
  fixes frames :: "nat \<Rightarrow> page_table"
  assumes "boot_frames_ok pd kpt bpt" "n \<le> 1792"
  defines "m \<equiv> paging_setup pd kpt bpt n frames"
    and "m0 \<equiv> \<lparr>mmu_frames = setup_page_tables pd kpt bpt (frames(pd := initialize_page_directory (frames pd))), mmu_cr3 = pd\<rparr>"
  shows "mmu_wf m \<and> mmu_cr3 m = pd \<and>
    (\<forall>v. has_table m v = has_table m0 v \<and> the_table m v = the_table m0 v) \<and>
    (\<forall>v. mappable v \<longrightarrow> walk m v =
       (if in_range KERNEL_VIRTUAL_ADDRESS n v then Some (256 + (v div 4096 - KERNEL_VIRTUAL_ADDRESS div 4096))
        else if in_range KERNEL_PHYSICAL_ADDRESS n v then Some (v div 4096) else None))"
proof -
  let ?flags = "PAGE_FLAGS_PRESENT OR PAGE_FLAGS_WRITABLE OR PAGE_FLAGS_GLOBAL"
  let ?P = KERNEL_PHYSICAL_ADDRESS and ?V = KERNEL_VIRTUAL_ADDRESS
  define f0 where "f0 = setup_page_tables pd kpt bpt (frames(pd := initialize_page_directory (frames pd)))"
  have m0: "m0 = \<lparr>mmu_frames = f0, mmu_cr3 = pd\<rparr>" by (simp add: m0_def f0_def)
  define m1 where "m1 = \<lparr>mmu_frames = map_boot_pages pd ?P ?P n f0, mmu_cr3 = pd\<rparr>"
  have adr: "?P = 0x100000" "?V = 0xC0100000"
    by (simp_all add: KERNEL_PHYSICAL_ADDRESS_def KERNEL_VIRTUAL_ADDRESS_def KERNEL_BASE_def)
  have mapp: "mappable (?P + 4096 * i)" "mappable (?V + 4096 * i)" if "i < n" for i
    using that assms(2) by (simp_all add: mappable_def GET_PDE_INDEX_def RECURSIVE_ENTRY_def adr
        div_less_iff_less_mult)
  have wf0: "mmu_wf m0" unfolding m0 f0_def by (rule setup_wf [OF assms(1)])
  have tab: "has_table m0 (?P + 4096 * i)" "has_table m0 (?V + 4096 * i)" if "i < n" for i
    using that assms(2) unfolding m0 f0_def by (simp_all add: setup_has_table [OF assms(1)] adr)
  have r0: "range_ok m0 ?P n" "range_ok m0 ?V n" and big: "?P + 4096 * n \<le> sz_range"
    using mapp tab assms(2) by (auto simp: range_ok_def adr)
  have e1: "map_pages m0 ?P ?P n ?flags = Inr m1"
    using map_boot_pages_eq wf0 r0(1) big unfolding m0 m1_def by blast
  have l1: "mmu_wf m1" "\<forall>v. has_table m1 v = has_table m0 v \<and> the_table m1 v = the_table m0 v" "mmu_cr3 m1 = pd"
    and w1: "\<forall>v. mappable v \<longrightarrow> walk m1 v = (if in_range ?P n v
        then Some ((?P div 4096 + (v div 4096 - ?P div 4096)) mod 65536) else walk m0 v)"
    using ok_InrD [OF e1 map_pages_law [OF wf0 r0(1) big]] by (auto simp: m0)
  have r1: "range_ok m1 ?V n" using r0(2) l1(2) by (simp add: range_ok_def)
  have e2: "map_pages m1 ?V ?P n ?flags = Inr m"
    using map_boot_pages_eq l1(1) r1 big
    unfolding m1_def f0_def m_def paging_setup_def Let_def by blast
  have l2: "mmu_wf m" "\<forall>v. has_table m v = has_table m1 v \<and> the_table m v = the_table m1 v" "mmu_cr3 m = pd"
    and w2: "\<forall>v. mappable v \<longrightarrow> walk m v = (if in_range ?V n v
        then Some ((?P div 4096 + (v div 4096 - ?V div 4096)) mod 65536) else walk m1 v)"
    using ok_InrD [OF e2 map_pages_law [OF l1(1) r1 big]] l1(3) by auto
  have "walk m0 v = None" if "mappable v" for v
    unfolding m0 f0_def using that by (rule setup_walk [OF assms(1)])
  then show ?thesis
    using l1(2) l2 w1 w2 assms(2) by (auto simp: in_range_def adr)
qed

section \<open>Properties\<close>

text \<open>
  (C20) Mapping n consecutive pages whose page tables exist never faults and makes the MMU
  translate exactly those pages to the consecutive frames from \<open>physical_address\<close> on (below 256
  MiB), leaving every other translation as it was; unmapping the range afterwards removes
  exactly these translations again. The recursive mapping survives both.
\<close>

theorem map_unmap_pages_translate:
  assumes "mmu_wf m" "range_ok m va n" "pa + 4096 * n \<le> 0x10000000" "present_flag flags"
  shows "ok (map_pages m va pa n flags) (\<lambda>m'. mmu_wf m' \<and>
      (\<forall>v. mappable v \<longrightarrow> walk m' v = (if in_range va n v
          then Some (pa div 4096 + (v div 4096 - va div 4096)) else walk m v)) \<and>
      ok (unmap_pages m' va n) (\<lambda>m''. mmu_wf m'' \<and>
        (\<forall>v. mappable v \<longrightarrow> walk m'' v = (if in_range va n v then None else walk m v))))"
proof -
  have pa: "pa + 4096 * n \<le> sz_range" using assms(3) by simp
  have frame: "(pa div 4096 + (v div 4096 - va div 4096)) mod 65536 = pa div 4096 + (v div 4096 - va div 4096)"
    if "in_range va n v" for v
  proof -
    have "pa div 4096 + n \<le> 65536"
      using assms(3) div_le_mono [of "pa + 4096 * n" "0x10000000" 4096] by simp
    with that have "pa div 4096 + (v div 4096 - va div 4096) < 65536" by (auto simp: in_range_def)
    then show ?thesis by simp
  qed
  from map_pages_law [OF assms(1,2) pa assms(4)] show ?thesis
  proof (rule ok_mono)
    fix m'
    assume m': "mmu_wf m' \<and> (\<forall>v. has_table m' v = has_table m v \<and> the_table m' v = the_table m v) \<and>
      mmu_cr3 m' = mmu_cr3 m \<and> (\<forall>v. mappable v \<longrightarrow> walk m' v = (if in_range va n v
        then Some ((pa div 4096 + (v div 4096 - va div 4096)) mod 65536) else walk m v))"
    then have "range_ok m' va n" using assms(2) by (simp add: range_ok_def)
    with m' have "ok (unmap_pages m' va n) (\<lambda>m''. mmu_wf m'' \<and>
        (\<forall>v. mappable v \<longrightarrow> walk m'' v = (if in_range va n v then None else walk m v)))"
      by (intro ok_mono [OF unmap_pages_law]) auto
    with m' frame show "mmu_wf m' \<and>
      (\<forall>v. mappable v \<longrightarrow> walk m' v = (if in_range va n v
          then Some (pa div 4096 + (v div 4096 - va div 4096)) else walk m v)) \<and>
      ok (unmap_pages m' va n) (\<lambda>m''. mmu_wf m'' \<and>
        (\<forall>v. mappable v \<longrightarrow> walk m'' v = (if in_range va n v then None else walk m v)))" by auto
  qed
qed

lemma example_setup:
  "mmu_wf \<lparr>mmu_frames = setup_page_tables 1000 1001 1257 (\<lambda>_ _. zero_pte), mmu_cr3 = 1000\<rparr>"
  "range_ok \<lparr>mmu_frames = setup_page_tables 1000 1001 1257 (\<lambda>_ _. zero_pte), mmu_cr3 = 1000\<rparr> 0xC0000000 2"
proof -
  have b: "boot_frames_ok 1000 1001 1257" by (simp add: boot_frames_ok_def)
  show "mmu_wf \<lparr>mmu_frames = setup_page_tables 1000 1001 1257 (\<lambda>_ _. zero_pte), mmu_cr3 = 1000\<rparr>"
    by (rule setup_wf [OF b])
  show "range_ok \<lparr>mmu_frames = setup_page_tables 1000 1001 1257 (\<lambda>_ _. zero_pte), mmu_cr3 = 1000\<rparr> 0xC0000000 2"
    using setup_has_table [OF b]
    by (auto simp: range_ok_def mappable_def GET_PDE_INDEX_def RECURSIVE_ENTRY_def less_Suc_eq numeral_2_eq_2)
qed

theorem map_unmap_pages_translate_witness:
  "ok (map_pages \<lparr>mmu_frames = setup_page_tables 1000 1001 1257 (\<lambda>_ _. zero_pte), mmu_cr3 = 1000\<rparr>
       0xC0000000 0x5000 2 PAGE_FLAGS_PRESENT) (\<lambda>m'. walk m' 0xC0001000 = Some 6)"
proof -
  have "0x5000 + 4096 * 2 \<le> (0x10000000 :: nat)" "present_flag PAGE_FLAGS_PRESENT"
    by (simp_all add: present_flag_def PAGE_FLAGS_PRESENT_def)
  from map_unmap_pages_translate [OF example_setup this] show ?thesis
    by (rule ok_mono) (auto simp: mappable_def GET_PDE_INDEX_def RECURSIVE_ENTRY_def in_range_def)
qed

text \<open>
  \<open>Paging::setup\<close> establishes the address space the kernel runs in: the directory maps
  itself, every one of the kernel's pages is translated to its physical frame both at its
  physical address and at its address in the higher half, and nothing else is mapped.
\<close>

theorem paging_setup_maps_kernel:
  assumes "boot_frames_ok pd kpt bpt" "n \<le> 1792"
  shows "mmu_wf (paging_setup pd kpt bpt n frames) \<and>
    (\<forall>v. mappable v \<longrightarrow> walk (paging_setup pd kpt bpt n frames) v =
       (if in_range KERNEL_VIRTUAL_ADDRESS n v then Some (256 + (v div 4096 - KERNEL_VIRTUAL_ADDRESS div 4096))
        else if in_range KERNEL_PHYSICAL_ADDRESS n v then Some (v div 4096) else None))"
  using paging_setup_law [OF assms, of frames] by blast

theorem paging_setup_maps_kernel_witness:
  "walk (paging_setup 1000 1001 1257 10 (\<lambda>_ _. zero_pte)) 0xC0109123 = Some 265"
proof -
  have "boot_frames_ok 1000 1001 1257" "10 \<le> (1792 :: nat)" by (simp_all add: boot_frames_ok_def)
  from paging_setup_maps_kernel [OF this, of "\<lambda>_ _. zero_pte", THEN conjunct2, rule_format, of "0xC0109123"]
  show ?thesis
    by (simp add: mappable_def GET_PDE_INDEX_def RECURSIVE_ENTRY_def in_range_def KERNEL_VIRTUAL_ADDRESS_def
        KERNEL_BASE_def KERNEL_PHYSICAL_ADDRESS_def)
qed

text \<open>
  The frame number is passed as a \<open>u16\<close>: mapping a physical address of 256 MiB or more makes
  the MMU translate the page to a different frame.
\<close>

theorem map_page_truncates_frame:
  assumes "mmu_wf m" "mappable va" "has_table m va" "present_flag flags" "0x10000000 \<le> pa"
  shows "ok (map_page m va pa flags) (\<lambda>m'. walk m' va = Some (pa div 4096 mod 65536) \<and>
     walk m' va \<noteq> Some (pa div 4096))"
proof -
  have "pa div 4096 mod 65536 < 65536" "65536 \<le> pa div 4096" using assms(5) by auto
  with assms set_entry_walk [OF assms(1-3,2)] show ?thesis
    by (auto simp: map_page_eq ok_Inr fill_entry_present fill_entry_frame GET_FRAME_def)
qed

theorem map_page_truncates_frame_witness:
  "ok (map_page \<lparr>mmu_frames = setup_page_tables 1000 1001 1257 (\<lambda>_ _. zero_pte), mmu_cr3 = 1000\<rparr>
      0xC0000000 0x10003000 PAGE_FLAGS_PRESENT) (\<lambda>m'. walk m' 0xC0000000 = Some 3)"
proof -
  have "has_table \<lparr>mmu_frames = setup_page_tables 1000 1001 1257 (\<lambda>_ _. zero_pte), mmu_cr3 = 1000\<rparr> 0xC0000000"
    using example_setup(2) by (auto simp: range_ok_def dest: spec [of _ 0])
  moreover have "present_flag PAGE_FLAGS_PRESENT" by (simp add: present_flag_def PAGE_FLAGS_PRESENT_def)
  ultimately show ?thesis
    using map_page_truncates_frame [OF example_setup(1), of "0xC0000000" PAGE_FLAGS_PRESENT "0x10003000"]
    by (auto simp: mappable_def GET_PDE_INDEX_def RECURSIVE_ENTRY_def elim!: ok_mono)
qed

end
