(* ===== verification/Virtual_Memory.thy ===== *)
theory Virtual_Memory
  imports Paging
begin

unbundle bit_operations_syntax

text \<open>
  \<open>VirtualMemory\<close> (virtual.cpp) and \<open>Memory\<close> (memory.cpp): finding virtual ranges, backing them
  with page frames, creating page tables on demand, and the reverse. The state is the frame
  tracer and the MMU's tables. The spinlock \<open>Memory::lock\<close> serialises the public operations; the
  model runs each of them as one step, so \<open>alloc\<close> is \<open>_alloc_no_lock\<close>, and so on.

  \<open>VirtualMemory::map_pages\<close> calls \<open>create_page_table\<close>, which calls \<open>Memory::_alloc_no_lock\<close>, which
  calls \<open>map_pages\<close>. The model takes the page-table constructor as an argument and ties the knot
  with a depth (\<open>create_page_table\<close>); the kernel's own tables all exist from boot on, so one
  level is enough (\<open>create_page_table_law\<close>).
\<close>

record memory =
  mem_phys :: physical_memory
  mem_mmu :: mmu

definition FIRST_PAGE_ADDRESS :: nat where "FIRST_PAGE_ADDRESS = 0x1000"
definition AVAILABLE_PAGES_START :: nat where "AVAILABLE_PAGES_START = GET_FRAME 0x100000"

definition PAGE_USER :: nat where "PAGE_USER = 1"
definition PAGE_READWRITE :: nat where "PAGE_READWRITE = 2"
definition PAGE_CONTAGIOUS :: nat where "PAGE_CONTAGIOUS = 8"

section \<open>\<open>VirtualMemory\<close>\<close>

fun vm_find_pages_loop :: "mmu \<Rightarrow> nat \<Rightarrow> nat \<Rightarrow> nat \<Rightarrow> nat \<Rightarrow> nat \<Rightarrow> nat \<Rightarrow> nat run" where
  "vm_find_pages_loop m pages_num end_address fuel vAdd first_free_page remaining_pages =
     (if vAdd < end_address then
        case fuel of 0 \<Rightarrow> Inl OutOfFuel
        | Suc fuel' \<Rightarrow> bindr (check_page_present m vAdd) (\<lambda>present.
            if \<not> present then
              let first' = (if remaining_pages = pages_num then vAdd else first_free_page);
                  remaining' = sz_sub remaining_pages 1
              in if remaining' = 0 then Inr first'
                 else vm_find_pages_loop m pages_num end_address fuel' (sz_add vAdd PAGE_SIZE) first' remaining'
            else vm_find_pages_loop m pages_num end_address fuel' (sz_add vAdd PAGE_SIZE) first_free_page pages_num)
      else Inl PanicCalled)"

declare vm_find_pages_loop.simps [simp del]

definition vm_find_pages :: "mmu \<Rightarrow> nat \<Rightarrow> nat \<Rightarrow> nat \<Rightarrow> nat run" where
  "vm_find_pages m start_address end_address pages_num =
     vm_find_pages_loop m pages_num end_address ((end_address - start_address) div PAGE_SIZE + 1) start_address 0 pages_num"

fun vm_check_free_loop :: "mmu \<Rightarrow> nat \<Rightarrow> nat list \<Rightarrow> bool run" where
  "vm_check_free_loop m start_address [] = Inr True"
| "vm_check_free_loop m start_address (i # is) =
     bindr (check_page_present m (sz_add start_address (sz_mul i PAGE_SIZE))) (\<lambda>present.
       if present then Inr False else vm_check_free_loop m start_address is)"

definition vm_check_free_pages :: "mmu \<Rightarrow> nat \<Rightarrow> nat \<Rightarrow> bool run" where
  "vm_check_free_pages m start_address pages_num = vm_check_free_loop m start_address [0..<pages_num]"

text \<open>\<open>VirtualMemory::map_pages\<close>; \<open>create\<close> stands for \<open>create_page_table\<close>.\<close>

definition vm_map_one ::
    "(memory \<Rightarrow> (nat \<times> memory) run) \<Rightarrow> nat \<Rightarrow> nat \<Rightarrow> nat \<Rightarrow> nat \<Rightarrow> memory \<Rightarrow> memory run" where
  "vm_map_one create virtual_address physical_address flags i s =
     bindr (check_page_table_exists (mem_mmu s) virtual_address) (\<lambda>present.
     bindr (if \<not> present
            then bindr (create s) (\<lambda>(pt, s1). bindr (map_page_table (mem_mmu s1) virtual_address pt) (\<lambda>m.
                   Inr (s1\<lparr>mem_mmu := m\<rparr>)))
            else Inr s) (\<lambda>s2.
     bindr (map_page (mem_mmu s2) (sz_add virtual_address (sz_mul PAGE_SIZE i))
              (sz_add physical_address (sz_mul PAGE_SIZE i)) flags) (\<lambda>m.
     Inr (s2\<lparr>mem_mmu := m\<rparr>))))"

definition vm_map_pages ::
    "(memory \<Rightarrow> (nat \<times> memory) run) \<Rightarrow> memory \<Rightarrow> nat \<Rightarrow> nat \<Rightarrow> nat \<Rightarrow> nat \<Rightarrow> memory run" where
  "vm_map_pages create s virtual_address physical_address pages flags =
     for_up 0 pages (vm_map_one create virtual_address physical_address flags) s"

section \<open>\<open>Memory\<close>\<close>

definition parse_flags :: "nat \<Rightarrow> nat" where
  "parse_flags mem_flags =
     (let f0 = PAGE_FLAGS_PRESENT;
          f1 = (if mem_flags AND PAGE_READWRITE \<noteq> 0 then f0 OR PAGE_FLAGS_WRITABLE else f0)
      in if mem_flags AND PAGE_USER \<noteq> 0 then f1 OR PAGE_FLAGS_USER else f1)"

text \<open>The choice of the virtual range shared by \<open>_alloc_no_lock\<close> and \<open>_map_no_lock\<close>.\<close>

definition find_virtual :: "mmu \<Rightarrow> nat \<Rightarrow> nat \<Rightarrow> nat run" where
  "find_virtual m flags pages_num =
     (if flags AND PAGE_USER \<noteq> 0
      then vm_find_pages m FIRST_PAGE_ADDRESS KERNEL_VIRTUAL_ADDRESS pages_num
      else vm_find_pages m KERNEL_VIRTUAL_ADDRESS LAST_PAGE_ADDRESS pages_num)"

text \<open>The loop of \<open>_alloc_no_lock\<close> that backs the pages one frame at a time.\<close>

definition alloc_one ::
    "(memory \<Rightarrow> (nat \<times> memory) run) \<Rightarrow> nat \<Rightarrow> nat \<Rightarrow> nat \<Rightarrow> memory \<Rightarrow> memory run" where
  "alloc_one create vAdd flags i s =
     bindr (alloc_page (mem_phys s) AVAILABLE_PAGES_START) (\<lambda>(pAdd, ph).
     vm_map_pages create (s\<lparr>mem_phys := ph\<rparr>) (sz_add vAdd (sz_mul PAGE_SIZE i)) pAdd 1 (parse_flags flags))"

definition alloc_no_lock ::
    "(memory \<Rightarrow> (nat \<times> memory) run) \<Rightarrow> memory \<Rightarrow> nat \<Rightarrow> nat \<Rightarrow> nat \<Rightarrow> (nat \<times> memory) run" where
  "alloc_no_lock create s virtual_address sz flags =
     (let pages_num = GET_PAGES sz in
      bindr (if virtual_address \<noteq> 0
             then bindr (vm_check_free_pages (mem_mmu s) virtual_address pages_num) (\<lambda>free.
                    Inr (if free then Some virtual_address else None))
             else bindr (find_virtual (mem_mmu s) flags pages_num) (\<lambda>v. Inr (Some v))) (\<lambda>r.
      case r of None \<Rightarrow> Inr (0, s)
      | Some vAdd \<Rightarrow>
          bindr (if flags AND PAGE_CONTAGIOUS \<noteq> 0
                 then bindr (alloc_contagious_pages (mem_phys s) AVAILABLE_PAGES_START pages_num) (\<lambda>(pAdd, ph).
                        vm_map_pages create (s\<lparr>mem_phys := ph\<rparr>) vAdd pAdd pages_num (parse_flags flags))
                 else for_up 0 pages_num (alloc_one create vAdd flags) s) (\<lambda>s'.
          Inr (vAdd, s'))))"

fun create_page_table :: "nat \<Rightarrow> memory \<Rightarrow> (nat \<times> memory) run" where
  "create_page_table 0 s = Inl OutOfFuel"
| "create_page_table (Suc depth) s =
     bindr (alloc_no_lock (create_page_table depth) s 0 4096 PAGE_READWRITE) (\<lambda>(pt_addr, s1).
     bindr (unmap_pages (mem_mmu s1) pt_addr (GET_PAGES 4096)) (\<lambda>m.
     Inr (pt_addr, s1\<lparr>mem_mmu := m\<rparr>)))"

definition memory_alloc :: "memory \<Rightarrow> nat \<Rightarrow> nat \<Rightarrow> nat \<Rightarrow> (nat \<times> memory) run" where
  "memory_alloc s virtual_address sz flags = alloc_no_lock (create_page_table 1) s virtual_address sz flags"

definition memory_free :: "memory \<Rightarrow> nat \<Rightarrow> nat \<Rightarrow> memory run" where
  "memory_free s virtual_address sz =
     (let pages_num = GET_PAGES sz in
      bindr (get_physical_page (mem_mmu s) virtual_address) (\<lambda>pAdd.
      bindr (free_pages (mem_phys s) pAdd pages_num) (\<lambda>ph.
      bindr (unmap_pages (mem_mmu s) virtual_address pages_num) (\<lambda>m.
      Inr \<lparr>mem_phys = ph, mem_mmu = m\<rparr>))))"

definition memory_map :: "memory \<Rightarrow> nat \<Rightarrow> nat \<Rightarrow> nat \<Rightarrow> (nat \<times> memory) run" where
  "memory_map s physical_address sz flags =
     (let padding = physical_address mod PAGE_SIZE;
          aligned_physical_address = physical_address - padding;
          pAdd = GET_FRAME aligned_physical_address;
          pages_num = GET_PAGES sz + (if padding \<noteq> 0 then 1 else 0)
      in if sz = 0 then Inr (0, s)
         else bindr (check_free_pages (mem_phys s) pAdd pages_num) (\<lambda>free.
           if \<not> free then Inr (0, s)
           else bindr (find_virtual (mem_mmu s) flags pages_num) (\<lambda>vAdd.
             bindr (set_used_pages (mem_phys s) pAdd pages_num) (\<lambda>ph.
             bindr (vm_map_pages (create_page_table 1) (s\<lparr>mem_phys := ph\<rparr>) vAdd aligned_physical_address
                      (GET_PAGES sz) (parse_flags flags)) (\<lambda>s'.
             Inr (sz_add vAdd padding, s'))))))"

definition memory_unmap :: "memory \<Rightarrow> nat \<Rightarrow> nat \<Rightarrow> memory run" where
  "memory_unmap s virtual_address sz = memory_free s virtual_address sz"

definition create_new_virtual_space :: "nat \<Rightarrow> memory \<Rightarrow> (nat \<times> memory) run" where
  "create_new_virtual_space kernel_pd s =
     bindr (memory_alloc s 0 4096 PAGE_READWRITE) (\<lambda>(page_directory, s1).
     bindr (map_kernel_pd_entries kernel_pd (mem_mmu s1) page_directory) (\<lambda>m1.
     bindr (unmap_pages m1 page_directory (GET_PAGES 4096)) (\<lambda>m2.
     bindr (get_physical_page m2 page_directory) (\<lambda>f.
     Inr (sz_mul f PAGE_SIZE, s1\<lparr>mem_mmu := m2\<rparr>)))))"

definition memory_setup :: "nat \<Rightarrow> nat \<Rightarrow> nat \<Rightarrow> nat \<Rightarrow> (nat \<Rightarrow> page_table) \<Rightarrow> memory run" where
  "memory_setup pd kpt bpt kernel_pages frames =
     bindr (set_used_pages pm_setup (GET_FRAME KERNEL_PHYSICAL_ADDRESS) kernel_pages) (\<lambda>ph.
     Inr \<lparr>mem_phys = ph, mem_mmu = paging_setup pd kpt bpt kernel_pages frames\<rparr>)"

definition get_kernel_pages :: "nat \<Rightarrow> nat \<Rightarrow> nat" where
  "get_kernel_pages KERNEL_START KERNEL_END = GET_PAGES (sz_sub (sz_sub KERNEL_END KERNEL_START) 1)"

definition switch_page_directory :: "memory \<Rightarrow> nat \<Rightarrow> memory" where
  "switch_page_directory s physical_address = s\<lparr>mem_mmu := load_page_directory (mem_mmu s) physical_address\<rparr>"

definition memory_physical_size :: "memory \<Rightarrow> nat" where
  "memory_physical_size s = get_physical_memory_size (mem_phys s)"

definition virtual_to_physical_address :: "memory \<Rightarrow> nat \<Rightarrow> nat run" where
  "virtual_to_physical_address s virtual_address =
     bindr (get_physical_page (mem_mmu s) virtual_address) (\<lambda>f.
     Inr (sz_add (sz_mul f PAGE_SIZE) (virtual_address mod PAGE_SIZE)))"

section \<open>Finding a virtual range\<close>

lemma vm_find_pages_loop_spec:
  assumes "mmu_wf m" "end_address = start + 4096 * N" "end_address + 4096 \<le> sz_range"
    and "\<forall>k<N. mappable (start + 4096 * k)" "n < sz_range"
    and "scan_inv (\<lambda>k. walk m (start + 4096 * k) = None) 0 n k (n - r)" "0 < r" "r \<le> n"
    and "r < n \<longrightarrow> f = start + 4096 * (k - (n - r))" "N - k < fuel"
  shows "vm_find_pages_loop m n end_address fuel (start + 4096 * k) f r =
    (case first_run (\<lambda>k. walk m (start + 4096 * k) = None) 0 N n of
       Some p \<Rightarrow> Inr (start + 4096 * p) | None \<Rightarrow> Inl PanicCalled)"
  using assms(6-)
proof (induction fuel arbitrary: k f r)
  case (Suc fuel)
  let ?P = "\<lambda>k. walk m (start + 4096 * k) = None"
  show ?case
  proof (cases "k < N")
    case False
    with assms(2) scan_end [OF Suc.prems(1)] show ?thesis by (subst vm_find_pages_loop.simps) simp
  next
    case True
    have nx: "sz_add (start + 4096 * k) PAGE_SIZE = start + 4096 * Suc k"
      using True assms(2,3) by (simp add: PAGE_SIZE_def sz_simps)
    have chk: "check_page_present m (start + 4096 * k) = Inr (\<not> ?P k)"
      using True assms(1,4) by (simp add: check_page_present_eq)
    define f' where "f' = (if r = n then start + 4096 * k else f)"
    have step: "vm_find_pages_loop m n end_address (Suc fuel) (start + 4096 * k) f r =
      (if ?P k then (if r = 1 then Inr f' else vm_find_pages_loop m n end_address fuel (start + 4096 * Suc k) f' (r - 1))
       else vm_find_pages_loop m n end_address fuel (start + 4096 * Suc k) f n)"
      using True assms(2,5) Suc.prems(2,3) chk nx
      by (subst vm_find_pages_loop.simps) (auto simp: f'_def Let_def sz_simps)
    have f': "f' = start + 4096 * (Suc k - (n - (r - 1)))"
      using Suc.prems(1-4) by (auto simp: f'_def scan_inv_def)
    consider "\<not> ?P k" | "?P k" "r = 1" | "?P k" "r \<noteq> 1" by blast
    then show ?thesis
    proof cases
      case 1
      with scan_miss [OF Suc.prems(1)] Suc.IH [of "Suc k" n f] Suc.prems(2-) True show ?thesis
        unfolding step by auto
    next
      case 2
      with scan_found [OF Suc.prems(1)] Suc.prems(2,3) True
      have "first_run ?P 0 N n = Some (Suc k - n)" by simp
      with 2 f' Suc.prems(3) show ?thesis unfolding step by simp
    next
      case 3
      with scan_hit [OF Suc.prems(1)] Suc.prems(2,3)
      have "scan_inv ?P 0 n (Suc k) (n - (r - 1))" by (simp add: Suc_diff_le [symmetric])
      with 3 f' Suc.IH [of "Suc k" "r - 1" f'] Suc.prems(2-) True show ?thesis unfolding step by simp
    qed
  qed
qed simp

lemma vm_find_pages_spec:
  assumes "mmu_wf m" "end_address = start + 4096 * N" "end_address + 4096 \<le> sz_range"
    and "\<forall>k<N. mappable (start + 4096 * k)" "0 < n" "n < sz_range"
  shows "vm_find_pages m start end_address n =
    (case first_run (\<lambda>k. walk m (start + 4096 * k) = None) 0 N n of
       Some p \<Rightarrow> Inr (start + 4096 * p) | None \<Rightarrow> Inl PanicCalled)"
  using vm_find_pages_loop_spec [OF assms(1-4,6), of 0 n 0 "Suc N"] scan_start [OF assms(5)] assms(2,5)
  by (simp add: vm_find_pages_def PAGE_SIZE_def)

section \<open>The invariant of the memory manager\<close>

definition is_kernel_page :: "nat \<Rightarrow> bool" where
  "is_kernel_page va \<longleftrightarrow> KERNEL_VIRTUAL_ADDRESS \<le> va \<and> va < LAST_PAGE_ADDRESS"

text \<open>
  The tracer and the tables are well formed, the kernel half has all its page tables, and the
  frames that hold tables are marked as used.
\<close>

definition mem_inv :: "memory \<Rightarrow> bool" where
  "mem_inv s \<longleftrightarrow> pm_inv (mem_phys s) \<and> mmu_wf (mem_mmu s) \<and>
     (\<forall>va. is_kernel_page va \<longrightarrow> has_table (mem_mmu s) va) \<and>
     (\<forall>va. mappable va \<longrightarrow> has_table (mem_mmu s) va \<longrightarrow> pm_used (mem_phys s) (the_table (mem_mmu s) va)) \<and>
     pm_used (mem_phys s) (mmu_cr3 (mem_mmu s))"

text \<open>Free frames an allocation can use and the 16-bit frame number can hold.\<close>

definition low_free :: "memory \<Rightarrow> nat set" where
  "low_free s = {p. 256 \<le> p \<and> p < 65536 \<and> \<not> pm_used (mem_phys s) p}"

lemma finite_low_free [simp]: "finite (low_free s)"
  by (rule finite_subset [of _ "{..<65536}"]) (auto simp: low_free_def)

lemma kernel_page_mappable: "is_kernel_page va \<Longrightarrow> mappable va"
  by (simp add: is_kernel_page_def mappable_def LAST_PAGE_ADDRESS_def GET_PAGE_VIRTUAL_ADDRESS_def
      RECURSIVE_ENTRY_def GET_PDE_INDEX_def div_less_iff_less_mult)

lemma present_parse_flags: "present_flag (parse_flags flags)"
  by (auto simp: parse_flags_def present_flag_def PAGE_FLAGS_PRESENT_def PAGE_FLAGS_WRITABLE_def
      PAGE_FLAGS_USER_def Let_def)

text \<open>
  s' differs from s by mapping the pages from va on to the frames fs, all free before. Frames
  that were free keep their contents.
\<close>

definition backs :: "memory \<Rightarrow> memory \<Rightarrow> nat \<Rightarrow> nat list \<Rightarrow> bool" where
  "backs s s' va fs \<longleftrightarrow> mem_inv s \<and> mem_inv s' \<and> distinct fs \<and> set fs \<subseteq> low_free s \<and>
     (\<forall>q. pm_used (mem_phys s') q \<longleftrightarrow> pm_used (mem_phys s) q \<or> q \<in> set fs) \<and>
     (\<forall>v. has_table (mem_mmu s') v = has_table (mem_mmu s) v \<and> the_table (mem_mmu s') v = the_table (mem_mmu s) v) \<and>
     (\<forall>v. mappable v \<longrightarrow> walk (mem_mmu s') v =
        (if in_range va (length fs) v then Some (fs ! (v div 4096 - va div 4096)) else walk (mem_mmu s) v)) \<and>
     (\<forall>g. \<not> pm_used (mem_phys s) g \<longrightarrow> mmu_frames (mem_mmu s') g = mmu_frames (mem_mmu s) g) \<and>
     mmu_cr3 (mem_mmu s') = mmu_cr3 (mem_mmu s)"

lemma backs_refl: "mem_inv s \<Longrightarrow> backs s s va []"
  by (auto simp: backs_def in_range_def)

lemma alloc_page_law:
  assumes "pm_inv (mem_phys s)" "low_free s \<noteq> {}"
  shows "ok (alloc_page (mem_phys s) AVAILABLE_PAGES_START) (\<lambda>(a, ph). \<exists>p\<in>low_free s. a = p * 4096 \<and> pm_inv ph \<and>
     (\<forall>q. pm_used ph q \<longleftrightarrow> pm_used (mem_phys s) q \<or> q = p))"
proof -
  obtain p0 where p0: "256 \<le> p0" "p0 < 65536" "\<not> pm_used (mem_phys s) p0"
    using assms(2) by (auto simp: low_free_def)
  let ?r = "first_run (\<lambda>p. \<not> pm_used (mem_phys s) p) 256 MAX_PHYSICAL_4K_PAGES 1"
  have "?r \<noteq> None" using p0 by (auto simp: first_run_None_iff MAX_PHYSICAL_4K_PAGES_def)
  then obtain p where p: "?r = Some p" by blast
  have "p \<le> p0"
  proof (rule ccontr)
    assume "\<not> p \<le> p0"
    with p p0 show False by (auto simp: first_run_Some_iff)
  qed
  with p p0 have "p \<in> low_free s" by (auto simp: first_run_Some_iff low_free_def)
  moreover have "ok (alloc_contagious_pages (mem_phys s) 256 1) (\<lambda>(a, ph). a = p * 4096 \<and> pm_inv ph \<and>
     (\<forall>q. pm_used ph q \<longleftrightarrow> pm_used (mem_phys s) q \<or> q = p))"
    using alloc_contagious_law [OF assms(1), of 1 256] p
    by (auto simp: PAGE_SIZE_def less_Suc_eq_le elim!: ok_mono)
  ultimately show ?thesis
    by (auto simp: alloc_page_eq AVAILABLE_PAGES_START_def GET_FRAME_def elim!: ok_mono)
qed

lemma vm_map_pages_1:
  assumes "mmu_wf (mem_mmu s)" "has_table (mem_mmu s) va" "va < sz_range" "pa < sz_range"
  shows "vm_map_pages create s va pa 1 flags =
    bindr (map_page (mem_mmu s) va pa flags) (\<lambda>m. Inr (s\<lparr>mem_mmu := m\<rparr>))"
proof -
  have "sz_mul PAGE_SIZE 0 = 0" "sz_add va 0 = va" "sz_add pa 0 = pa"
    using assms by (auto simp: sz_mul_def sz_add_def)
  with assms show ?thesis
    by (simp add: vm_map_pages_def for_up_step vm_map_one_def check_page_table_exists_eq bindr_assoc)
qed

text \<open>Mapping one kernel page to a fresh frame.\<close>

lemma backs_step:
  assumes "backs s s1 va fs" "p \<in> low_free s1" "pm_inv ph"
    and "\<forall>q. pm_used ph q \<longleftrightarrow> pm_used (mem_phys s1) q \<or> q = p"
    and "is_kernel_page (va + 4096 * length fs)" "present_flag flags"
  defines "v \<equiv> va + 4096 * length fs"
  shows "backs s (s1\<lparr>mem_phys := ph, mem_mmu := set_entry (mem_mmu s1) v
           (fill_page_table_entry (entry_of (mem_mmu s1) v) p flags)\<rparr>) va (fs @ [p])"
proof -
  let ?m = "mem_mmu s1"
  let ?e = "fill_page_table_entry (entry_of ?m v) p flags"
  have inv: "mem_inv s1" using assms(1) by (simp add: backs_def)
  have mv: "mmu_wf ?m" "mappable v" "has_table ?m v"
    using inv assms(5) kernel_page_mappable by (auto simp: mem_inv_def v_def)
  note f = set_entry_facts [OF mv] set_entry_dir(2) [OF mv]
  have low: "p \<in> low_free s" "p \<notin> set fs" using assms(1,2) by (auto simp: backs_def low_free_def)
  have pe: "pte_present ?e" "pte_frame ?e = p"
    using assms(2,6) by (auto simp: fill_entry_present fill_entry_frame low_free_def)
  have "pm_used (mem_phys s) (the_table ?m v)" using assms(1) mv by (simp add: backs_def mem_inv_def)
  then have keep: "mmu_frames (set_entry ?m v ?e) g = mmu_frames (mem_mmu s) g" if "\<not> pm_used (mem_phys s) g" for g
    using that assms(1) by (auto simp: set_entry_def backs_def)
  have "mem_inv (s1\<lparr>mem_phys := ph, mem_mmu := set_entry ?m v ?e\<rparr>)"
    using inv f assms(3,4) by (auto simp: mem_inv_def)
  moreover have "walk (set_entry ?m v ?e) u =
     (if in_range va (length (fs @ [p])) u then Some ((fs @ [p]) ! (u div 4096 - va div 4096)) else walk (mem_mmu s) u)"
    if "mappable u" for u
  proof -
    have "walk ?m u = (if in_range va (length fs) u then Some (fs ! (u div 4096 - va div 4096)) else walk (mem_mmu s) u)"
      using assms(1) that by (simp add: backs_def)
    then show ?thesis
      using f(5) [OF that, of ?e] pe that
      by (auto simp: in_range_Suc page_step v_def nth_append in_range_def)
  qed
  ultimately show ?thesis
    using assms(1,4) f low keep by (auto simp: backs_def)
qed

lemma low_free_backs: "backs s s1 va fs \<Longrightarrow> low_free s1 = low_free s - set fs"
  by (auto simp: backs_def low_free_def)

lemma alloc_one_law:
  assumes "backs s s1 va fs" "low_free s1 \<noteq> {}" "is_kernel_page (va + 4096 * length fs)"
  shows "ok (alloc_one create va flags (length fs) s1)
     (\<lambda>s2. \<exists>p. backs s s2 va (fs @ [p]))"
proof -
  let ?v = "va + 4096 * length fs"
  have inv: "mem_inv s1" using assms(1) by (simp add: backs_def)
  then have t: "has_table (mem_mmu s1) ?v" "mmu_wf (mem_mmu s1)" using assms(3) by (simp_all add: mem_inv_def)
  have v: "?v < sz_range" using assms(3)
    by (simp add: is_kernel_page_def LAST_PAGE_ADDRESS_def GET_PAGE_VIRTUAL_ADDRESS_def RECURSIVE_ENTRY_def)
  then have addr: "sz_add va (sz_mul PAGE_SIZE (length fs)) = ?v" by (simp add: PAGE_SIZE_def sz_simps)
  have "ok (alloc_page (mem_phys s1) AVAILABLE_PAGES_START) (\<lambda>(a, ph). \<exists>p\<in>low_free s1. a = p * 4096 \<and> pm_inv ph \<and>
     (\<forall>q. pm_used ph q \<longleftrightarrow> pm_used (mem_phys s1) q \<or> q = p))"
    using inv assms(2) by (intro alloc_page_law) (simp_all add: mem_inv_def)
  then show ?thesis
    unfolding alloc_one_def ok_bindr addr
  proof (rule ok_mono, clarify)
    fix p ph
    assume p: "p \<in> low_free s1" "pm_inv ph" "\<forall>q. pm_used ph q \<longleftrightarrow> pm_used (mem_phys s1) q \<or> q = p"
    have "p * 4096 < sz_range" "GET_FRAME (p * 4096) = p" using p(1) by (auto simp: low_free_def GET_FRAME_def)
    with t v have "vm_map_pages create (s1\<lparr>mem_phys := ph\<rparr>) ?v (p * 4096) 1 (parse_flags flags) =
        Inr (s1\<lparr>mem_phys := ph, mem_mmu := set_entry (mem_mmu s1) ?v
          (fill_page_table_entry (entry_of (mem_mmu s1) ?v) p (parse_flags flags))\<rparr>)"
      using assms(3) by (simp add: vm_map_pages_1 [unfolded One_nat_def] map_page_eq kernel_page_mappable)
    with backs_step [OF assms(1) p assms(3) present_parse_flags]
    show "ok (vm_map_pages create (s1\<lparr>mem_phys := ph\<rparr>) ?v (p * 4096) 1 (parse_flags flags))
        (\<lambda>s2. \<exists>p. backs s s2 va (fs @ [p]))" by (auto simp: ok_Inr)
  qed
qed

lemma alloc_loop_law:
  assumes "mem_inv s" "n \<le> card (low_free s)" "\<forall>i<n. is_kernel_page (va + 4096 * i)"
  shows "ok (for_up 0 n (alloc_one create va flags) s) (\<lambda>s'. \<exists>fs. length fs = n \<and> backs s s' va fs)"
proof (rule for_up_rule [where I = "\<lambda>i s'. \<exists>fs. length fs = i \<and> backs s s' va fs"], goal_cases)
  case 2
  from assms(1) show ?case using backs_refl by auto
next
  case (3 i s1)
  then obtain fs where fs: "length fs = i" "backs s s1 va fs" by blast
  have sub: "distinct fs" "set fs \<subseteq> low_free s" using fs(2) by (simp_all add: backs_def)
  then have "card (set fs) = i" using fs(1) by (simp add: distinct_card)
  moreover have "card (low_free s1) = card (low_free s) - card (set fs)"
    unfolding low_free_backs [OF fs(2)] using sub by (intro card_Diff_subset) auto
  ultimately have "low_free s1 \<noteq> {}" using 3 assms(2) by force
  from alloc_one_law [OF fs(2) this] fs 3 assms(3)
  have "ok (alloc_one create va flags i s1) (\<lambda>s2. \<exists>p. backs s s2 va (fs @ [p]))" by simp
  then show ?case
  proof (rule ok_mono)
    fix s2 assume "\<exists>p. backs s s2 va (fs @ [p])"
    then obtain p where "backs s s2 va (fs @ [p])" ..
    with fs(1) show "\<exists>fs. length fs = Suc i \<and> backs s s2 va fs" by (intro exI [of _ "fs @ [p]"]) simp
  qed
qed simp

text \<open>The number of pages between the first kernel address and \<open>LAST_PAGE_ADDRESS\<close>.\<close>

definition KERNEL_RANGE_PAGES :: nat where
  "KERNEL_RANGE_PAGES = (LAST_PAGE_ADDRESS - KERNEL_VIRTUAL_ADDRESS) div 4096"

definition free_kernel_run :: "memory \<Rightarrow> nat \<Rightarrow> nat option" where
  "free_kernel_run s n =
     first_run (\<lambda>k. walk (mem_mmu s) (KERNEL_VIRTUAL_ADDRESS + 4096 * k) = None) 0 KERNEL_RANGE_PAGES n"

lemma kernel_range: "is_kernel_page (KERNEL_VIRTUAL_ADDRESS + 4096 * k) \<longleftrightarrow> k < KERNEL_RANGE_PAGES"
  by (simp add: is_kernel_page_def KERNEL_RANGE_PAGES_def LAST_PAGE_ADDRESS_def KERNEL_VIRTUAL_ADDRESS_def
      KERNEL_BASE_def KERNEL_PHYSICAL_ADDRESS_def GET_PAGE_VIRTUAL_ADDRESS_def RECURSIVE_ENTRY_def)

lemma find_virtual_kernel:
  assumes "mem_inv s" "flags AND PAGE_USER = 0" "0 < n" "n < sz_range"
  shows "find_virtual (mem_mmu s) flags n =
    (case free_kernel_run s n of Some k \<Rightarrow> Inr (KERNEL_VIRTUAL_ADDRESS + 4096 * k) | None \<Rightarrow> Inl PanicCalled)"
proof -
  have "LAST_PAGE_ADDRESS = KERNEL_VIRTUAL_ADDRESS + 4096 * KERNEL_RANGE_PAGES" "LAST_PAGE_ADDRESS + 4096 \<le> sz_range"
    by (simp_all add: KERNEL_RANGE_PAGES_def LAST_PAGE_ADDRESS_def KERNEL_VIRTUAL_ADDRESS_def
      KERNEL_BASE_def KERNEL_PHYSICAL_ADDRESS_def GET_PAGE_VIRTUAL_ADDRESS_def RECURSIVE_ENTRY_def)
  moreover have "\<forall>k<KERNEL_RANGE_PAGES. mappable (KERNEL_VIRTUAL_ADDRESS + 4096 * k)"
    using kernel_range kernel_page_mappable by blast
  ultimately show ?thesis
    using assms vm_find_pages_spec [of "mem_mmu s" LAST_PAGE_ADDRESS KERNEL_VIRTUAL_ADDRESS KERNEL_RANGE_PAGES n]
    by (simp add: find_virtual_def free_kernel_run_def mem_inv_def)
qed

lemma free_kernel_run_pages:
  "free_kernel_run s n = Some k \<Longrightarrow> i < n \<Longrightarrow>
   is_kernel_page (KERNEL_VIRTUAL_ADDRESS + 4096 * k + 4096 * i) \<and>
   walk (mem_mmu s) (KERNEL_VIRTUAL_ADDRESS + 4096 * k + 4096 * i) = None"
  using kernel_range [of "k + i"]
  by (auto simp: free_kernel_run_def first_run_Some_iff add_mult_distrib2 add.assoc)

lemma alloc_kernel_law:
  assumes "mem_inv s" "0 < sz" "sz < sz_range" "flags AND PAGE_USER = 0" "flags AND PAGE_CONTAGIOUS = 0"
    and "GET_PAGES sz \<le> card (low_free s)"
  shows "case free_kernel_run s (GET_PAGES sz) of
      None \<Rightarrow> alloc_no_lock create s 0 sz flags = Inl PanicCalled
    | Some k \<Rightarrow> ok (alloc_no_lock create s 0 sz flags) (\<lambda>(va, s'). va = KERNEL_VIRTUAL_ADDRESS + 4096 * k \<and>
        (\<exists>fs. length fs = GET_PAGES sz \<and> backs s s' va fs))"
proof -
  let ?n = "GET_PAGES sz"
  have n: "0 < ?n" "?n < sz_range" using assms(2,3) by (auto simp: GET_PAGES_def PAGE_SIZE_def)
  note fv = find_virtual_kernel [OF assms(1,4) n]
  show ?thesis
  proof (cases "free_kernel_run s ?n")
    case None
    with fv show ?thesis by (simp add: alloc_no_lock_def Let_def)
  next
    case (Some k)
    let ?va = "KERNEL_VIRTUAL_ADDRESS + 4096 * k"
    have "\<forall>i<?n. is_kernel_page (?va + 4096 * i)" using free_kernel_run_pages [OF Some] by blast
    from alloc_loop_law [OF assms(1,6) this, of create flags] Some fv assms(5) show ?thesis
      by (auto simp: alloc_no_lock_def Let_def run_simps elim!: ok_mono)
  qed
qed

section \<open>Page tables created on demand\<close>

lemma GET_PAGES_4096: "GET_PAGES 4096 = 1"
  by (simp add: GET_PAGES_def PAGE_SIZE_def)

text \<open>
  s' differs from s by the frame f, free before and in use now; no translation differs, and
  frames that were free keep their contents.
\<close>

definition takes_frame :: "memory \<Rightarrow> memory \<Rightarrow> nat \<Rightarrow> bool" where
  "takes_frame s s' f \<longleftrightarrow> mem_inv s' \<and> f \<in> low_free s \<and>
     (\<forall>q. pm_used (mem_phys s') q \<longleftrightarrow> pm_used (mem_phys s) q \<or> q = f) \<and>
     (\<forall>v. has_table (mem_mmu s') v = has_table (mem_mmu s) v \<and> the_table (mem_mmu s') v = the_table (mem_mmu s) v) \<and>
     (\<forall>v. mappable v \<longrightarrow> walk (mem_mmu s') v = walk (mem_mmu s) v) \<and>
     (\<forall>g. \<not> pm_used (mem_phys s) g \<longrightarrow> mmu_frames (mem_mmu s') g = mmu_frames (mem_mmu s) g) \<and>
     mmu_cr3 (mem_mmu s') = mmu_cr3 (mem_mmu s)"

lemma kernel_page_range: "is_kernel_page va \<Longrightarrow> va < sz_range"
  by (simp add: is_kernel_page_def LAST_PAGE_ADDRESS_def GET_PAGE_VIRTUAL_ADDRESS_def RECURSIVE_ENTRY_def)

lemma walk_same_page: "v div 4096 = va div 4096 \<Longrightarrow> walk m v = walk m va"
  by (auto simp: same_page_iff walk_eq has_table_def entry_of_def the_table_def)

lemma unmap_backed:
  assumes b: "backs s s1 va [f]" and kp: "is_kernel_page va" "walk (mem_mmu s) va = None"
  defines "m' \<equiv> set_entry (mem_mmu s1) va ((entry_of (mem_mmu s1) va)\<lparr>pte_present := False\<rparr>)"
  shows "unmap_pages (mem_mmu s1) va 1 = Inr m'" and "takes_frame s (s1\<lparr>mem_mmu := m'\<rparr>) f"
    and "get_physical_page m' va = Inr f"
proof -
  let ?m = "mem_mmu s1"
  have inv: "mem_inv s1" using b by (simp add: backs_def)
  have mv: "mmu_wf ?m" "mappable va" "has_table ?m va"
    using inv kp kernel_page_mappable by (auto simp: mem_inv_def)
  note fm = set_entry_facts [OF mv, where e = "(entry_of ?m va)\<lparr>pte_present := False\<rparr>", folded m'_def]
    set_entry_dir(2) [OF mv, where e = "(entry_of ?m va)\<lparr>pte_present := False\<rparr>", folded m'_def]
  show "unmap_pages ?m va 1 = Inr m'"
    using mv kernel_page_range [OF kp(1)]
    by (simp add: unmap_pages_def for_up_step unmap_page_eq m'_def sz_mul_def sz_add_def)
  have wv: "walk ?m v = (if v div 4096 = va div 4096 then Some f else walk (mem_mmu s) v)" if "mappable v" for v
    using b that by (auto simp: backs_def in_range_def)
  have "pte_frame (entry_of ?m va) = f" using wv [OF mv(2)] by (auto simp: walk_eq split: if_splits)
  then show "get_physical_page m' va = Inr f" using fm(1) fm(2) [of va] fm(4) [of va] mv by (simp add: get_physical_page_eq)
  have "walk m' v = walk (mem_mmu s) v" if "mappable v" for v
    using fm(5) [OF that] wv [OF that] walk_same_page [of v va] kp(2) by simp
  moreover have "pm_used (mem_phys s) (the_table ?m va)" using b mv by (simp add: backs_def mem_inv_def)
  then have "\<forall>g. \<not> pm_used (mem_phys s) g \<longrightarrow> mmu_frames m' g = mmu_frames (mem_mmu s) g"
    using b by (auto simp: m'_def set_entry_def backs_def)
  moreover have "mem_inv (s1\<lparr>mem_mmu := m'\<rparr>)" using inv fm by (simp add: mem_inv_def)
  ultimately show "takes_frame s (s1\<lparr>mem_mmu := m'\<rparr>) f"
    using b fm(2,3,6) by (auto simp: takes_frame_def backs_def)
qed

text \<open>
  \<open>create_page_table\<close> takes a free frame; the page it was mapped at for a moment is unmapped
  again but its entry still names the frame.
\<close>

lemma create_page_table_law:
  assumes "mem_inv s" "low_free s \<noteq> {}" "free_kernel_run s 1 = Some k"
  shows "ok (create_page_table (Suc depth) s) (\<lambda>(pt, s'). pt = KERNEL_VIRTUAL_ADDRESS + 4096 * k \<and>
     (\<exists>f. takes_frame s s' f \<and> get_physical_page (mem_mmu s') pt = Inr f))"
proof -
  let ?va = "KERNEL_VIRTUAL_ADDRESS + 4096 * k"
  have kp: "is_kernel_page ?va" "walk (mem_mmu s) ?va = None"
    using free_kernel_run_pages [OF assms(3), of 0] by simp_all
  have "1 \<le> card (low_free s)" using assms(2) by (simp add: Suc_le_eq card_gt_0_iff)
  moreover have "PAGE_READWRITE AND PAGE_USER = 0" "PAGE_READWRITE AND PAGE_CONTAGIOUS = 0"
    by (simp_all add: PAGE_READWRITE_def PAGE_USER_def PAGE_CONTAGIOUS_def)
  ultimately have "ok (alloc_no_lock (create_page_table depth) s 0 4096 PAGE_READWRITE)
      (\<lambda>(a, s1). a = ?va \<and> (\<exists>f. backs s s1 ?va [f]))"
    using alloc_kernel_law [OF assms(1), of 4096 PAGE_READWRITE "create_page_table depth"] assms(3)
    by (auto simp: GET_PAGES_4096 length_Suc_conv elim!: ok_mono)
  then show ?thesis
    unfolding create_page_table.simps ok_bindr
    by (rule ok_mono) (use unmap_backed [OF _ kp] in \<open>auto simp: GET_PAGES_4096 ok_Inr\<close>)
qed

lemma install_table_law:
  assumes "mmu_wf m" "mappable va" "\<not> has_table m va" "get_physical_page m pt = Inr f" "f < 65536"
    and "f \<noteq> mmu_cr3 m" "\<forall>v. mappable v \<longrightarrow> has_table m v \<longrightarrow> the_table m v \<noteq> f"
  shows "ok (map_page_table m va pt) (\<lambda>m'. mmu_wf m' \<and> the_table m' va = f \<and> mmu_cr3 m' = mmu_cr3 m \<and>
     (\<forall>v. has_table m' v \<longleftrightarrow> has_table m v \<or> GET_PDE_INDEX v = GET_PDE_INDEX va) \<and>
     (\<forall>g. g \<noteq> mmu_cr3 m \<longrightarrow> mmu_frames m' g = mmu_frames m g))"
proof -
  let ?d = "mmu_frames m (mmu_cr3 m)" and ?i = "GET_PDE_INDEX va"
  define e where "e = fill_directory_entry (?d ?i) f (PAGE_FLAGS_PRESENT OR PAGE_FLAGS_WRITABLE OR PAGE_FLAGS_USER)"
  define m' where "m' = m\<lparr>mmu_frames := (mmu_frames m)(mmu_cr3 m := ?d(?i := e))\<rparr>"
  have e: "pte_present e" "pte_frame e = f"
    using assms(5) by (auto simp: e_def fill_directory_entry_def fill_entry_def u16_param_def
        PAGE_FLAGS_PRESENT_def PAGE_FLAGS_WRITABLE_def PAGE_FLAGS_USER_def)
  have eq: "map_page_table m va pt = Inr m'"
    using assms(1,4) by (simp add: map_page_table_def read_entry_def write_entry_def walk_directory e_def m'_def)
  have i: "?i < RECURSIVE_ENTRY" "\<not> pte_present (?d ?i)" using assms(2,3) by (simp_all add: mappable_def has_table_def)
  have other: "pte_frame (?d j) \<noteq> f" if "j < RECURSIVE_ENTRY" "pte_present (?d j)" for j
  proof -
    have "GET_PDE_INDEX (j * 4194304) = j" by (simp add: GET_PDE_INDEX_def)
    with that assms(7) [rule_format, of "j * 4194304"] show ?thesis
      by (simp add: mappable_def has_table_def the_table_def)
  qed
  have "mmu_wf m'"
  proof -
    have "\<forall>j<RECURSIVE_ENTRY. pte_present (?d j) \<longrightarrow> pte_frame (?d j) \<noteq> f" using other by blast
    with assms(1,6) i e show ?thesis unfolding mmu_wf_def Let_def m'_def by (auto split: if_splits)
  qed
  moreover have "has_table m' v \<longleftrightarrow> has_table m v \<or> GET_PDE_INDEX v = ?i" for v
    using e by (auto simp: m'_def has_table_def)
  ultimately show ?thesis using e unfolding eq ok_Inr by (auto simp: m'_def the_table_def)
qed

lemma map_pages_on_tables:
  assumes "mmu_wf (mem_mmu s)" "range_ok (mem_mmu s) va n" "pa + 4096 * n \<le> sz_range" "present_flag flags"
    and "has_table (mem_mmu s) va"
  shows "vm_map_pages create s va pa n flags =
    bindr (map_pages (mem_mmu s) va pa n flags) (\<lambda>m. Inr (s\<lparr>mem_mmu := m\<rparr>))"
  using assms(2,3)
proof (induction n)
  case (Suc n)
  have r: "range_ok (mem_mmu s) va n" using Suc.prems(1) by (simp add: range_ok_def)
  have pa: "pa + 4096 * n \<le> sz_range" using Suc.prems(2) by simp
  from map_pages_law [OF assms(1) r pa assms(4)] obtain m where
    m: "map_pages (mem_mmu s) va pa n flags = Inr m" "mmu_wf m" "\<forall>v. has_table m v = has_table (mem_mmu s) v"
    by (auto simp: ok_iff)
  with Suc.IH [OF r pa] have "vm_map_pages create s va pa n flags = Inr (s\<lparr>mem_mmu := m\<rparr>)" by simp
  with m assms(5) show ?case
    by (simp add: vm_map_pages_def map_pages_def for_up_last vm_map_one_def check_page_table_exists_eq)
qed (simp add: vm_map_pages_def map_pages_def)

lemma new_table_walk:
  assumes "mem_inv s" "mappable va" "\<not> has_table (mem_mmu s) va"
    and t: "takes_frame s s1 f" and gp: "get_physical_page (mem_mmu s1) pt = Inr f"
  shows "ok (bindr (map_page_table (mem_mmu s1) va pt) (\<lambda>m. map_page m va pa flags)) (\<lambda>m'.
     \<forall>v. mappable v \<longrightarrow> GET_PDE_INDEX v = GET_PDE_INDEX va \<longrightarrow> v div 4096 \<noteq> va div 4096 \<longrightarrow>
       walk m' v = (let e = mmu_frames (mem_mmu s) f (GET_PTE_INDEX v) in
                    if pte_present e then Some (pte_frame e) else None))"
proof -
  let ?m1 = "mem_mmu s1"
  have f: "\<not> pm_used (mem_phys s) f" "f < 65536" using t by (auto simp: takes_frame_def low_free_def)
  have m1: "mmu_wf ?m1" "\<not> has_table ?m1 va" "f \<noteq> mmu_cr3 ?m1"
    "\<forall>v. mappable v \<longrightarrow> has_table ?m1 v \<longrightarrow> the_table ?m1 v \<noteq> f" "mmu_frames ?m1 f = mmu_frames (mem_mmu s) f"
    using t f(1) assms(1,3) by (auto simp: takes_frame_def mem_inv_def)
  show ?thesis
  proof (rule ok_bindI [OF install_table_law [OF m1(1) assms(2) m1(2) gp f(2) m1(3,4)]], elim conjE)
    fix m
    assume m: "mmu_wf m" "the_table m va = f" "\<forall>v. has_table m v \<longleftrightarrow> has_table ?m1 v \<or> GET_PDE_INDEX v = GET_PDE_INDEX va"
      "\<forall>g. g \<noteq> mmu_cr3 ?m1 \<longrightarrow> mmu_frames m g = mmu_frames ?m1 g"
    have ht: "has_table m va" using m(3) by simp
    have "entry_of m v = mmu_frames (mem_mmu s) f (GET_PTE_INDEX v)" if "GET_PDE_INDEX v = GET_PDE_INDEX va" for v
      using that m(2,4) m1(3,5) by (simp add: entry_of_def the_table_def)
    with m(3) ht set_entry_walk [OF m(1) assms(2) ht]
    show "ok (map_page m va pa flags) (\<lambda>m'. \<forall>v. mappable v \<longrightarrow> GET_PDE_INDEX v = GET_PDE_INDEX va \<longrightarrow>
        v div 4096 \<noteq> va div 4096 \<longrightarrow> walk m' v = (let e = mmu_frames (mem_mmu s) f (GET_PTE_INDEX v) in
                    if pte_present e then Some (pte_frame e) else None))"
      by (auto simp: map_page_eq [OF m(1) assms(2)] ok_Inr walk_eq Let_def)
  qed
qed

section \<open>Freeing\<close>

lemma memory_free_law:
  assumes "mem_inv s" "range_ok (mem_mmu s) va (GET_PAGES sz)" "0 < GET_PAGES sz"
    and "\<forall>i<GET_PAGES sz. pm_used (mem_phys s) (f + i)" "f + GET_PAGES sz \<le> MAX_PHYSICAL_4K_PAGES"
    and "walk (mem_mmu s) va = Some f"
  shows "ok (memory_free s va sz) (\<lambda>s'. pm_inv (mem_phys s') \<and> mmu_wf (mem_mmu s') \<and>
    (\<forall>q. pm_used (mem_phys s') q \<longleftrightarrow> pm_used (mem_phys s) q \<and> (q < f \<or> f + GET_PAGES sz \<le> q)) \<and>
    (\<forall>v. mappable v \<longrightarrow> walk (mem_mmu s') v = (if in_range va (GET_PAGES sz) v then None else walk (mem_mmu s) v)))"
proof -
  let ?n = "GET_PAGES sz"
  have wf: "mmu_wf (mem_mmu s)" and pm: "pm_inv (mem_phys s)" using assms(1) by (simp_all add: mem_inv_def)
  have va: "mappable va" "has_table (mem_mmu s) va" using assms(2,3) by (auto simp: range_ok_def dest: spec [of _ 0])
  then have "get_physical_page (mem_mmu s) va = Inr f"
    using assms(6) wf by (auto simp: get_physical_page_eq walk_eq split: if_splits)
  moreover have "\<forall>q. f \<le> q \<and> q < f + ?n \<longrightarrow> pm_used (mem_phys s) q"
    using assms(4) by (metis add_less_cancel_left le_Suc_ex)
  then have "ok (free_pages (mem_phys s) f ?n) (\<lambda>ph. pm_inv ph \<and>
      (\<forall>q. pm_used ph q \<longleftrightarrow> pm_used (mem_phys s) q \<and> (q < f \<or> f + ?n \<le> q)))"
    unfolding free_pages_def by (intro set_free_pages_law pm assms(5))
  moreover note unmap_pages_law [OF wf assms(2)]
  ultimately show ?thesis by (auto simp: memory_free_def Let_def ok_iff)
qed

section \<open>The state after boot\<close>

text \<open>The static tables lie inside the kernel image, whose frames start at 256.\<close>

definition tables_in_image :: "nat \<Rightarrow> nat \<Rightarrow> nat \<Rightarrow> nat \<Rightarrow> bool" where
  "tables_in_image pd kpt bpt n \<longleftrightarrow> 256 \<le> pd \<and> pd < 256 + n \<and> 256 \<le> kpt \<and> kpt + 256 \<le> 256 + n \<and>
     256 \<le> bpt \<and> bpt + 2 \<le> 256 + n"

lemma boot_state_inv:
  assumes "boot_frames_ok pd kpt bpt" "n \<le> 1792" "tables_in_image pd kpt bpt n"
  shows "ok (memory_setup pd kpt bpt n frames) (\<lambda>s. mem_inv s \<and> mem_mmu s = paging_setup pd kpt bpt n frames \<and>
     (\<forall>q<MAX_PHYSICAL_4K_PAGES. pm_used (mem_phys s) q \<longleftrightarrow> 256 \<le> q \<and> q < 256 + n))"
proof -
  let ?m = "paging_setup pd kpt bpt n frames"
  let ?m0 = "\<lparr>mmu_frames = setup_page_tables pd kpt bpt (frames(pd := initialize_page_directory (frames pd))), mmu_cr3 = pd\<rparr>"
  note law = paging_setup_law [OF assms(1,2), of frames]
  have f: "GET_FRAME KERNEL_PHYSICAL_ADDRESS = 256" by (simp add: GET_FRAME_def KERNEL_PHYSICAL_ADDRESS_def)
  have free: "\<not> pm_used pm_setup q" if "q < MAX_PHYSICAL_4K_PAGES" for q
  proof -
    have "q div 8 < MAX_PHYSICAL_4K_PAGES div 8" using that by (simp add: MAX_PHYSICAL_4K_PAGES_def)
    then show ?thesis by (simp add: pm_used_def bit_at_def pm_setup_def)
  qed
  have "ok (set_used_pages pm_setup 256 n) (\<lambda>m'. pm_inv m' \<and>
      (\<forall>q. pm_used m' q \<longleftrightarrow> pm_used pm_setup q \<or> 256 \<le> q \<and> q < 256 + n))"
    using assms(2) free by (intro set_used_pages_law pm_setup_inv) (auto simp: MAX_PHYSICAL_4K_PAGES_def)
  moreover have "has_table ?m va" if "is_kernel_page va" for va
  proof -
    have "va < sz_range" "0xC0000000 \<le> va" using that
      by (auto simp: is_kernel_page_def LAST_PAGE_ADDRESS_def GET_PAGE_VIRTUAL_ADDRESS_def RECURSIVE_ENTRY_def
          KERNEL_VIRTUAL_ADDRESS_def KERNEL_BASE_def)
    with law show ?thesis by (simp add: setup_has_table [OF assms(1)])
  qed
  moreover have "256 \<le> the_table ?m va \<and> the_table ?m va < 256 + n" if "mappable va" "has_table ?m va" for va
    using setup_the_table [OF assms(1) that(1)] law that(2) assms(3) by (fastforce simp: tables_in_image_def)
  ultimately show ?thesis
    using law free assms(3)
    by (auto simp: memory_setup_def f run_simps mem_inv_def tables_in_image_def elim!: ok_mono)
qed

lemma boot_example:
  "ok (memory_setup 300 301 557 400 (\<lambda>_ _. zero_pte)) (\<lambda>s. mem_inv s \<and> 656 \<in> low_free s \<and>
     free_kernel_run s 1 = Some 400 \<and> \<not> has_table (mem_mmu s) 0x800000)"
proof -
  have b: "boot_frames_ok 300 301 557" "400 \<le> (1792 :: nat)" "tables_in_image 300 301 557 400"
    by (simp_all add: boot_frames_ok_def tables_in_image_def)
  note law = paging_setup_law [OF b(1,2), of "\<lambda>_ _. zero_pte"]
  have big: "400 < KERNEL_RANGE_PAGES"
    by (simp add: KERNEL_RANGE_PAGES_def LAST_PAGE_ADDRESS_def KERNEL_VIRTUAL_ADDRESS_def
        KERNEL_BASE_def KERNEL_PHYSICAL_ADDRESS_def GET_PAGE_VIRTUAL_ADDRESS_def RECURSIVE_ENTRY_def)
  have w: "walk (paging_setup 300 301 557 400 (\<lambda>_ _. zero_pte)) (KERNEL_VIRTUAL_ADDRESS + 4096 * k) = None \<longleftrightarrow> 400 \<le> k"
    if "k < KERNEL_RANGE_PAGES" for k
    using law kernel_range that kernel_page_mappable
    by (auto simp: in_range_def KERNEL_VIRTUAL_ADDRESS_def KERNEL_BASE_def KERNEL_PHYSICAL_ADDRESS_def)
  have "walk (paging_setup 300 301 557 400 (\<lambda>_ _. zero_pte)) (KERNEL_VIRTUAL_ADDRESS + 4096 * 400) = None"
    using w [of 400] big by simp
  moreover have "\<exists>y. walk (paging_setup 300 301 557 400 (\<lambda>_ _. zero_pte)) (KERNEL_VIRTUAL_ADDRESS + 4096 * q) = Some y"
    if "q < 400" for q using w [of q] that big by simp
  moreover have "\<not> has_table (paging_setup 300 301 557 400 (\<lambda>_ _. zero_pte)) 0x800000"
    using law by (simp add: setup_has_table [OF b(1)])
  ultimately show ?thesis
    using big
    by (intro ok_mono [OF boot_state_inv [OF b]])
      (auto simp: low_free_def MAX_PHYSICAL_4K_PAGES_def free_kernel_run_def first_run_Some_iff)
qed

lemma map_kernel_page_inv:
  assumes "mem_inv s" "is_kernel_page va" "present_flag flags"
  shows "ok (map_page (mem_mmu s) va pa flags) (\<lambda>m. mem_inv (s\<lparr>mem_mmu := m\<rparr>) \<and>
    (\<forall>v. mappable v \<longrightarrow> walk m v = (if v div 4096 = va div 4096 then Some (pa div 4096 mod 65536) else walk (mem_mmu s) v)))"
proof -
  have mv: "mmu_wf (mem_mmu s)" "mappable va" "has_table (mem_mmu s) va"
    using assms kernel_page_mappable by (auto simp: mem_inv_def)
  with set_entry_facts [OF mv] set_entry_dir(2) [OF mv] assms show ?thesis
    by (auto simp: map_page_eq ok_Inr mem_inv_def fill_entry_present fill_entry_frame GET_FRAME_def)
qed

section \<open>Properties\<close>

text \<open>
  (C31) \<open>Memory::setup\<close> establishes the invariant of the memory manager: tracer and page tables
  well formed, all kernel page tables present, the frames of tables marked used; and the frames
  in use are exactly those of the kernel image.
\<close>

theorem memory_setup_establishes_invariant:
  assumes "boot_frames_ok pd kpt bpt" "n \<le> 1792" "tables_in_image pd kpt bpt n"
  shows "ok (memory_setup pd kpt bpt n frames) (\<lambda>s. mem_inv s \<and>
     (\<forall>q<MAX_PHYSICAL_4K_PAGES. pm_used (mem_phys s) q \<longleftrightarrow> 256 \<le> q \<and> q < 256 + n))"
  by (rule ok_mono [OF boot_state_inv [OF assms]]) blast

theorem memory_setup_establishes_invariant_witness:
  "ok (memory_setup 300 301 557 400 (\<lambda>_ _. zero_pte)) (\<lambda>s. mem_inv s \<and> \<not> pm_used (mem_phys s) 656)"
proof -
  have "boot_frames_ok 300 301 557" "400 \<le> (1792 :: nat)" "tables_in_image 300 301 557 400"
    by (simp_all add: boot_frames_ok_def tables_in_image_def)
  from memory_setup_establishes_invariant [OF this, of "\<lambda>_ _. zero_pte"] show ?thesis
    by (rule ok_mono) (auto simp: MAX_PHYSICAL_4K_PAGES_def)
qed

text \<open>
  (C28) A kernel allocation of \<open>size\<close> bytes returns the first run of unmapped kernel pages that is
  long enough and backs it with pairwise different frames that were free; no other translation
  changes, no other frame changes hands, and the invariant holds again. It panics exactly when
  the kernel half has no such run (enough free frames given).
\<close>

theorem kernel_alloc_fresh_frames:
  assumes "mem_inv s" "0 < sz" "sz < sz_range" "flags AND PAGE_USER = 0" "flags AND PAGE_CONTAGIOUS = 0"
    and "GET_PAGES sz \<le> card (low_free s)"
  shows "case free_kernel_run s (GET_PAGES sz) of
      None \<Rightarrow> memory_alloc s 0 sz flags = Inl PanicCalled
    | Some k \<Rightarrow> ok (memory_alloc s 0 sz flags) (\<lambda>(va, s'). va = KERNEL_VIRTUAL_ADDRESS + 4096 * k \<and> mem_inv s' \<and>
        (\<exists>fs. length fs = GET_PAGES sz \<and> distinct fs \<and> set fs \<subseteq> low_free s \<and>
          (\<forall>q. pm_used (mem_phys s') q \<longleftrightarrow> pm_used (mem_phys s) q \<or> q \<in> set fs) \<and>
          (\<forall>v. mappable v \<longrightarrow> walk (mem_mmu s') v =
             (if in_range va (length fs) v then Some (fs ! (v div 4096 - va div 4096)) else walk (mem_mmu s) v))))"
  using alloc_kernel_law [OF assms, of "create_page_table 1"]
  by (auto simp: memory_alloc_def backs_def split: option.splits elim!: ok_mono)

theorem kernel_alloc_fresh_frames_witness:
  "ok (bindr (memory_setup 300 301 557 400 (\<lambda>_ _. zero_pte)) (\<lambda>s. memory_alloc s 0 4096 PAGE_READWRITE))
     (\<lambda>(va, s'). va = KERNEL_VIRTUAL_ADDRESS + 4096 * 400 \<and> mem_inv s')"
proof (rule ok_bindI [OF boot_example], elim conjE)
  fix s assume s: "mem_inv s" "656 \<in> low_free s" "free_kernel_run s 1 = Some 400"
  then have "0 < card (low_free s)" by (auto simp: card_gt_0_iff)
  then have "GET_PAGES 4096 \<le> card (low_free s)" by (simp add: GET_PAGES_4096)
  from kernel_alloc_fresh_frames [OF s(1) _ _ _ _ this, of PAGE_READWRITE] s(3)
  show "ok (memory_alloc s 0 4096 PAGE_READWRITE) (\<lambda>(va, s'). va = KERNEL_VIRTUAL_ADDRESS + 4096 * 400 \<and> mem_inv s')"
    by (auto simp: GET_PAGES_4096 PAGE_READWRITE_def PAGE_USER_def PAGE_CONTAGIOUS_def elim!: ok_mono)
qed

text \<open>
  \<open>VirtualMemory::map_pages\<close> looks for the page table of the first page in every iteration: a
  range that runs into a 4 MiB region without a page table faults there instead of getting one.
\<close>

theorem map_pages_misses_later_tables:
  assumes "mmu_wf (mem_mmu s)" "has_table (mem_mmu s) va" "range_ok (mem_mmu s) va i" "i < n"
    and "\<not> has_table (mem_mmu s) (va + 4096 * i)" "mappable (va + 4096 * i)"
    and "va + 4096 * n \<le> sz_range" "pa + 4096 * n \<le> sz_range" "present_flag flags"
  shows "vm_map_pages create s va pa n flags = Inl BadAccess"
proof -
  have pa: "pa + 4096 * i \<le> sz_range" using assms(4,8) by simp
  obtain m where m: "map_pages (mem_mmu s) va pa i flags = Inr m" "mmu_wf m"
      "\<forall>v. has_table m v = has_table (mem_mmu s) v"
    using map_pages_law [OF assms(1,3) pa assms(9)] by (auto simp: ok_iff)
  have "vm_map_pages create s va pa i flags = Inr (s\<lparr>mem_mmu := m\<rparr>)"
    using map_pages_on_tables [OF assms(1,3) pa assms(9,2)] m by simp
  moreover have "sz_mul PAGE_SIZE i = 4096 * i" "sz_add va (4096 * i) = va + 4096 * i"
    using assms(4,7) by (auto simp: PAGE_SIZE_def intro!: sz_mul_eq sz_add_eq)
  then have "vm_map_one create va pa flags i (s\<lparr>mem_mmu := m\<rparr>) = Inl BadAccess"
    using m assms(2,5,6) by (simp add: vm_map_one_def check_page_table_exists_eq map_page_eq)
  ultimately show ?thesis
    using assms(4) by (simp add: vm_map_pages_def for_up_split [of 0 i n] for_up_step [of i n])
qed

theorem map_pages_misses_later_tables_witness:
  "vm_map_pages (create_page_table 1)
     \<lparr>mem_phys = pm_setup, mem_mmu = \<lparr>mmu_frames = setup_page_tables 300 301 557 (\<lambda>_ _. zero_pte), mmu_cr3 = 300\<rparr>\<rparr>
     0x7FF000 0 2 PAGE_FLAGS_PRESENT = Inl BadAccess"
proof -
  have b: "boot_frames_ok 300 301 557" by (simp add: boot_frames_ok_def)
  show ?thesis
    by (rule map_pages_misses_later_tables [where i = 1])
      (simp_all add: setup_wf [OF b] setup_has_table [OF b] range_ok_def mappable_def GET_PDE_INDEX_def
        RECURSIVE_ENTRY_def present_flag_def PAGE_FLAGS_PRESENT_def)
qed

text \<open>
  A page table created on demand is not cleared: after mapping one page in a region without
  a table, the other pages of the region are translated by whatever the frame held before.
\<close>

theorem new_page_table_not_cleared:
  assumes "mem_inv s" "low_free s \<noteq> {}" "free_kernel_run s 1 = Some k"
    and "mappable va" "\<not> has_table (mem_mmu s) va" "va < sz_range" "pa < sz_range"
  shows "ok (vm_map_pages (create_page_table 1) s va pa 1 flags) (\<lambda>s'. \<exists>f\<in>low_free s.
     \<forall>v. mappable v \<longrightarrow> GET_PDE_INDEX v = GET_PDE_INDEX va \<longrightarrow> v div 4096 \<noteq> va div 4096 \<longrightarrow>
       walk (mem_mmu s') v = (let e = mmu_frames (mem_mmu s) f (GET_PTE_INDEX v) in
                               if pte_present e then Some (pte_frame e) else None))"
  (is "ok _ ?Q")
proof -
  have wf: "mmu_wf (mem_mmu s)" using assms(1) by (simp add: mem_inv_def)
  have z: "sz_mul PAGE_SIZE 0 = 0" "sz_add va 0 = va" "sz_add pa 0 = pa"
    using assms by (auto simp: sz_mul_def sz_add_def)
  have one: "vm_map_pages (create_page_table 1) s va pa 1 flags =
      bindr (create_page_table 1 s) (\<lambda>(pt, s1). bindr (map_page_table (mem_mmu s1) va pt) (\<lambda>m.
      bindr (map_page m va pa flags) (\<lambda>m'. Inr (s1\<lparr>mem_mmu := m'\<rparr>))))"
    using wf assms(5) z
    by (simp add: vm_map_pages_def for_up_step vm_map_one_def check_page_table_exists_eq bindr_assoc
        case_prod_unfold del: create_page_table.simps)
  have "ok (create_page_table 1 s) (\<lambda>(pt, s1). \<exists>f. takes_frame s s1 f \<and> get_physical_page (mem_mmu s1) pt = Inr f)"
    using create_page_table_law [OF assms(1-3), of 0] by (auto elim!: ok_mono)
  then show ?thesis
    unfolding one
  proof (rule ok_bindI, clarify)
    fix pt s1 f
    assume t: "takes_frame s s1 f" and gp: "get_physical_page (mem_mmu s1) pt = Inr f"
    from new_table_walk [OF assms(1,4,5) t gp, of pa flags]
    show "ok (bindr (map_page_table (mem_mmu s1) va pt) (\<lambda>m. bindr (map_page m va pa flags)
        (\<lambda>m'. Inr (s1\<lparr>mem_mmu := m'\<rparr>)))) ?Q"
      using t by (auto simp: run_simps takes_frame_def elim!: ok_mono)
  qed
qed

theorem new_page_table_not_cleared_witness:
  "ok (memory_setup 300 301 557 400 (\<lambda>_ _. zero_pte)) (\<lambda>s.
     ok (vm_map_pages (create_page_table 1) s 0x800000 0 1 PAGE_FLAGS_PRESENT) (\<lambda>s'. \<exists>f\<in>low_free s.
       walk (mem_mmu s') 0x801000 = (let e = mmu_frames (mem_mmu s) f 1 in
                               if pte_present e then Some (pte_frame e) else None)))"
proof (rule ok_mono [OF boot_example], elim conjE)
  fix s assume s: "mem_inv s" "656 \<in> low_free s" "free_kernel_run s 1 = Some 400" "\<not> has_table (mem_mmu s) 0x800000"
  from s(2) have "low_free s \<noteq> {}" by blast
  from new_page_table_not_cleared [OF s(1) this s(3) _ s(4), of 0 PAGE_FLAGS_PRESENT]
  show "ok (vm_map_pages (create_page_table 1) s 0x800000 0 1 PAGE_FLAGS_PRESENT) (\<lambda>s'. \<exists>f\<in>low_free s.
       walk (mem_mmu s') 0x801000 = (let e = mmu_frames (mem_mmu s) f 1 in
                               if pte_present e then Some (pte_frame e) else None))"
    by (auto simp: mappable_def GET_PDE_INDEX_def GET_PTE_INDEX_def RECURSIVE_ENTRY_def
        dest!: spec [of _ "0x801000"] elim!: ok_mono)
qed

text \<open>
  \<open>Memory::free\<close> gives back the frames that follow the frame of the first page, whatever the
  other pages are mapped to: when the second page of an allocation lies in a frame g that does
  not follow the first one, its page is unmapped but g stays in use for ever, and the frame
  behind the first one is released although it may belong to somebody else.
\<close>

theorem free_releases_wrong_frames:
  assumes "mem_inv s" "range_ok (mem_mmu s) va 2" "f + 2 \<le> MAX_PHYSICAL_4K_PAGES"
    and "walk (mem_mmu s) va = Some f" "walk (mem_mmu s) (va + 4096) = Some g"
    and "pm_used (mem_phys s) f" "pm_used (mem_phys s) (f + 1)" "pm_used (mem_phys s) g" "g \<noteq> f" "g \<noteq> f + 1"
  shows "ok (memory_free s va 8192) (\<lambda>s'. walk (mem_mmu s') va = None \<and> walk (mem_mmu s') (va + 4096) = None \<and>
     pm_used (mem_phys s') g \<and> \<not> pm_used (mem_phys s') (f + 1))"
proof -
  have n: "GET_PAGES 8192 = 2" by (simp add: GET_PAGES_def PAGE_SIZE_def)
  have r: "mappable va" "mappable (va + 4096)"
    using assms(2) by (auto simp: range_ok_def dest: spec [of _ 0] spec [of _ 1])
  have "\<forall>i<2. pm_used (mem_phys s) (f + i)" using assms(6,7) by (auto simp: less_2_cases_iff)
  from memory_free_law [OF assms(1), of va 8192 f, unfolded n, OF assms(2) _ this assms(3,4)] r assms(8-10)
  show ?thesis by (auto simp: in_range_def elim!: ok_mono)
qed

theorem free_releases_wrong_frames_witness:
  "ok (bindr (memory_setup 300 301 557 400 (\<lambda>_ _. zero_pte)) (\<lambda>s.
       bindr (map_page (mem_mmu s) 0xC0800000 0x100000 PAGE_FLAGS_PRESENT) (\<lambda>m1.
       bindr (map_page m1 0xC0801000 0x102000 PAGE_FLAGS_PRESENT) (\<lambda>m2.
       memory_free (s\<lparr>mem_mmu := m2\<rparr>) 0xC0800000 8192))))
     (\<lambda>s'. pm_used (mem_phys s') 258 \<and> \<not> pm_used (mem_phys s') 257)"
proof -
  have b: "boot_frames_ok 300 301 557" "400 \<le> (1792 :: nat)" "tables_in_image 300 301 557 400"
    by (simp_all add: boot_frames_ok_def tables_in_image_def)
  have k: "is_kernel_page 0xC0800000" "is_kernel_page 0xC0801000" and f: "present_flag PAGE_FLAGS_PRESENT"
    by (simp_all add: is_kernel_page_def KERNEL_VIRTUAL_ADDRESS_def KERNEL_BASE_def KERNEL_PHYSICAL_ADDRESS_def
        LAST_PAGE_ADDRESS_def GET_PAGE_VIRTUAL_ADDRESS_def RECURSIVE_ENTRY_def present_flag_def PAGE_FLAGS_PRESENT_def)
  note mp = kernel_page_mappable [OF k(1)] kernel_page_mappable [OF k(2)]
  show ?thesis
  proof (rule ok_bindI [OF boot_state_inv [OF b]], elim conjE,
      rule ok_bindI [OF map_kernel_page_inv [OF _ k(1) f]], assumption, elim conjE)
    fix s m1
    assume s: "mem_inv s" "\<forall>q<MAX_PHYSICAL_4K_PAGES. pm_used (mem_phys s) q \<longleftrightarrow> 256 \<le> q \<and> q < 256 + 400"
      and m1: "mem_inv (s\<lparr>mem_mmu := m1\<rparr>)" "\<forall>v. mappable v \<longrightarrow> walk m1 v =
        (if v div 4096 = 0xC0800000 div 4096 then Some (0x100000 div 4096 mod 65536) else walk (mem_mmu s) v)"
    have "ok (map_page m1 0xC0801000 0x102000 PAGE_FLAGS_PRESENT) (\<lambda>m. mem_inv (s\<lparr>mem_mmu := m\<rparr>) \<and>
        (\<forall>v. mappable v \<longrightarrow> walk m v =
          (if v div 4096 = 0xC0801000 div 4096 then Some (0x102000 div 4096 mod 65536) else walk m1 v)))"
      using map_kernel_page_inv [OF m1(1) k(2) f, of "0x102000"] by (simp cong: if_cong)
    then show "ok (bindr (map_page m1 0xC0801000 0x102000 PAGE_FLAGS_PRESENT) (\<lambda>m2.
       memory_free (s\<lparr>mem_mmu := m2\<rparr>) 0xC0800000 8192)) (\<lambda>s'. pm_used (mem_phys s') 258 \<and> \<not> pm_used (mem_phys s') 257)"
    proof (rule ok_bindI, elim conjE)
      fix m2
      assume m2: "mem_inv (s\<lparr>mem_mmu := m2\<rparr>)" "\<forall>v. mappable v \<longrightarrow> walk m2 v =
        (if v div 4096 = 0xC0801000 div 4096 then Some (0x102000 div 4096 mod 65536) else walk m1 v)"
      have "range_ok m2 0xC0800000 2" using m2(1) k mp
        by (auto simp: range_ok_def mem_inv_def less_2_cases_iff)
      then have "ok (memory_free (s\<lparr>mem_mmu := m2\<rparr>) 0xC0800000 8192) (\<lambda>s'.
          walk (mem_mmu s') 0xC0800000 = None \<and> walk (mem_mmu s') (0xC0800000 + 4096) = None \<and>
          pm_used (mem_phys s') 258 \<and> \<not> pm_used (mem_phys s') (256 + 1))"
        using m1(2) m2 mp s(2)
        by (intro free_releases_wrong_frames) (auto simp: MAX_PHYSICAL_4K_PAGES_def)
      then show "ok (memory_free (s\<lparr>mem_mmu := m2\<rparr>) 0xC0800000 8192)
        (\<lambda>s'. pm_used (mem_phys s') 258 \<and> \<not> pm_used (mem_phys s') 257)" by (rule ok_mono) simp
    qed
  qed
qed

end
