(* ===== verification/Chains.thy ===== *)
theory Chains
  imports Prelude
begin

text \<open>
  Chains of pointers: what a linked structure looks like in a heap that gives every address its
  successor or predecessor. Shared by the doubly linked list, the intrusive list and the slab
  chain of the heap.
\<close>

fun chain :: "(nat \<Rightarrow> nat) \<Rightarrow> nat \<Rightarrow> nat list \<Rightarrow> nat \<Rightarrow> bool" where
  "chain nx a [] b \<longleftrightarrow> a = b"
| "chain nx a (p # ps) b \<longleftrightarrow> a = p \<and> chain nx (nx p) ps b"

fun back_chain :: "(nat \<Rightarrow> nat) \<Rightarrow> nat \<Rightarrow> nat list \<Rightarrow> bool" where
  "back_chain pv q [] \<longleftrightarrow> True"
| "back_chain pv q (p # ps) \<longleftrightarrow> pv p = q \<and> back_chain pv p ps"

lemma chain_append: "chain nx a (ps @ qs) b \<longleftrightarrow> (\<exists>m. chain nx a ps m \<and> chain nx m qs b)"
  by (induction ps arbitrary: a) auto

lemma chain_upd [simp]: "p \<notin> set ps \<Longrightarrow> chain (nx(p := v)) a ps b = chain nx a ps b"
  by (induction ps arbitrary: a) auto

lemma back_chain_append: "back_chain pv q (ps @ qs) \<longleftrightarrow> back_chain pv q ps \<and> back_chain pv (last (q # ps)) qs"
  by (induction ps arbitrary: q) auto

lemma back_chain_upd [simp]: "p \<notin> set ps \<Longrightarrow> back_chain (pv(p := v)) q ps = back_chain pv q ps"
  by (induction ps arbitrary: q) auto

lemma chain_cong: "(\<And>p. p \<in> set ps \<Longrightarrow> nx p = nx' p) \<Longrightarrow> chain nx a ps b = chain nx' a ps b"
  by (induction ps arbitrary: a) auto

lemma back_chain_cong: "(\<And>p. p \<in> set ps \<Longrightarrow> pv p = pv' p) \<Longrightarrow> back_chain pv q ps = back_chain pv' q ps"
  by (induction ps arbitrary: q) auto

lemma chain_hd: "chain nx a ps b \<Longrightarrow> a = hd (ps @ [b])"
  by (cases ps) auto

lemma chain_next_nth: "chain nx a ps b \<Longrightarrow> i < length ps \<Longrightarrow> nx (ps ! i) = (ps @ [b]) ! Suc i"
proof (induction ps arbitrary: a i)
  case (Cons p ps)
  then show ?case by (cases i) (auto dest: chain_hd simp: hd_conv_nth nth_append)
qed simp

end
