(* ===== verification/Linked_List.thy ===== *)
theory Linked_List
  imports Interfaces Chains
begin

text \<open>
  \<open>List<T>\<close> of list.h: a doubly linked list of heap nodes with an ending node inside the list
  object. Nodes are modelled by address: the heap gives every address its \<open>next\<close> and \<open>prev\<close>
  pointers (0 is \<open>nullptr\<close>), says whether a node lives there, and holds the data of real nodes.
  Every dereference is checked. \<open>list_rep h l ps xs\<close> says that the list object l, in heap h,
  has the nodes ps with the elements xs.
\<close>

record 'a lheap =
  lh_next :: "nat \<Rightarrow> nat"
  lh_prev :: "nat \<Rightarrow> nat"
  lh_live :: "nat \<Rightarrow> bool"
  lh_data :: "nat \<Rightarrow> 'a option"
  lh_fresh :: nat  \<comment> \<open>the address \<open>operator new\<close> returns next\<close>

record list_obj =
  ll_ending :: nat  \<comment> \<open>address of \<open>m_shallow_ending_node\<close>\<close>
  ll_head :: nat
  ll_tail :: nat
  ll_count :: size_t

section \<open>Pointer accesses\<close>

definition get_next :: "'a lheap \<Rightarrow> nat \<Rightarrow> nat run" where
  "get_next h p = (if p \<noteq> 0 \<and> lh_live h p then Inr (lh_next h p) else Inl BadAccess)"

definition get_prev :: "'a lheap \<Rightarrow> nat \<Rightarrow> nat run" where
  "get_prev h p = (if p \<noteq> 0 \<and> lh_live h p then Inr (lh_prev h p) else Inl BadAccess)"

definition set_next :: "'a lheap \<Rightarrow> nat \<Rightarrow> nat \<Rightarrow> 'a lheap run" where
  "set_next h p q = (if p \<noteq> 0 \<and> lh_live h p then Inr (h\<lparr>lh_next := (lh_next h)(p := q)\<rparr>) else Inl BadAccess)"

definition set_prev :: "'a lheap \<Rightarrow> nat \<Rightarrow> nat \<Rightarrow> 'a lheap run" where
  "set_prev h p q = (if p \<noteq> 0 \<and> lh_live h p then Inr (h\<lparr>lh_prev := (lh_prev h)(p := q)\<rparr>) else Inl BadAccess)"

definition get_data :: "'a lheap \<Rightarrow> nat \<Rightarrow> 'a run" where
  "get_data h p = (if p \<noteq> 0 \<and> lh_live h p
     then (case lh_data h p of Some x \<Rightarrow> Inr x | None \<Rightarrow> Inl Lifetime) else Inl BadAccess)"

definition alloc_node :: "'a lheap \<Rightarrow> 'a \<Rightarrow> nat \<times> 'a lheap" where
  "alloc_node h x = (let p = lh_fresh h in
     (p, h\<lparr>lh_next := (lh_next h)(p := 0), lh_prev := (lh_prev h)(p := 0),
           lh_live := (lh_live h)(p := True), lh_data := (lh_data h)(p := Some x), lh_fresh := Suc p\<rparr>))"

definition delete_node :: "'a lheap \<Rightarrow> nat \<Rightarrow> 'a lheap run" where
  "delete_node h p = (if p \<noteq> 0 \<and> lh_live h p \<and> lh_data h p \<noteq> None
     then Inr (h\<lparr>lh_live := (lh_live h)(p := False), lh_data := (lh_data h)(p := None)\<rparr>) else Inl Lifetime)"

lemma ok_get_next [run_simps]: "ok (get_next h p) P \<longleftrightarrow> p \<noteq> 0 \<and> lh_live h p \<and> P (lh_next h p)"
  by (simp add: get_next_def ok_def)

lemma ok_get_prev [run_simps]: "ok (get_prev h p) P \<longleftrightarrow> p \<noteq> 0 \<and> lh_live h p \<and> P (lh_prev h p)"
  by (simp add: get_prev_def ok_def)

lemma ok_set_next [run_simps]:
  "ok (set_next h p q) P \<longleftrightarrow> p \<noteq> 0 \<and> lh_live h p \<and> P (h\<lparr>lh_next := (lh_next h)(p := q)\<rparr>)"
  by (simp add: set_next_def ok_def)

lemma ok_set_prev [run_simps]:
  "ok (set_prev h p q) P \<longleftrightarrow> p \<noteq> 0 \<and> lh_live h p \<and> P (h\<lparr>lh_prev := (lh_prev h)(p := q)\<rparr>)"
  by (simp add: set_prev_def ok_def)

section \<open>Linking and unlinking\<close>

definition ll_unlink_node :: "'a lheap \<times> list_obj \<Rightarrow> nat \<Rightarrow> ('a lheap \<times> list_obj) run" where
  "ll_unlink_node s node = (let h = fst s; l = snd s in
     bindr
       (if ll_head l = node \<and> ll_tail l = node then
          Inr (h, l\<lparr>ll_head := ll_ending l, ll_tail := ll_ending l\<rparr>)
        else if ll_head l = node then
          bindr (get_next h node) (\<lambda>n. bindr (set_prev h n 0) (\<lambda>h1. Inr (h1, l\<lparr>ll_head := n\<rparr>)))
        else if ll_tail l = node then
          bindr (get_prev h node) (\<lambda>p. bindr (set_next h p (ll_ending l)) (\<lambda>h1.
          bindr (set_prev h1 (ll_ending l) p) (\<lambda>h2. Inr (h2, l\<lparr>ll_tail := p\<rparr>))))
        else
          bindr (get_prev h node) (\<lambda>p. bindr (get_next h node) (\<lambda>n.
          bindr (set_next h p n) (\<lambda>h1. bindr (set_prev h1 n p) (\<lambda>h2. Inr (h2, l))))))
       (\<lambda>(h', l'). Inr (h', l'\<lparr>ll_count := sz_sub (ll_count l') 1\<rparr>)))"

definition ll_link_node :: "'a lheap \<times> list_obj \<Rightarrow> nat \<Rightarrow> nat \<Rightarrow> ('a lheap \<times> list_obj) run" where
  "ll_link_node s new_node old_node = (let h = fst s; l = snd s; e = ll_ending l in
     bindr
       (if ll_count l = 0 then
          bindr (set_prev h new_node 0) (\<lambda>h1. bindr (set_next h1 new_node e) (\<lambda>h2.
          bindr (set_prev h2 e new_node) (\<lambda>h3. Inr (h3, l\<lparr>ll_head := new_node, ll_tail := new_node\<rparr>))))
        else if old_node = ll_head l then
          bindr (set_prev h new_node 0) (\<lambda>h1. bindr (set_next h1 new_node (ll_head l)) (\<lambda>h2.
          bindr (set_prev h2 (ll_head l) new_node) (\<lambda>h3. Inr (h3, l\<lparr>ll_head := new_node\<rparr>))))
        else if old_node = e then
          bindr (get_prev h e) (\<lambda>p. bindr (set_prev h new_node p) (\<lambda>h1.
          bindr (set_next h1 new_node e) (\<lambda>h2. bindr (get_prev h2 e) (\<lambda>p'.
          bindr (set_next h2 p' new_node) (\<lambda>h3. bindr (set_prev h3 e new_node) (\<lambda>h4.
          Inr (h4, l\<lparr>ll_tail := new_node\<rparr>)))))))
        else
          bindr (get_prev h old_node) (\<lambda>p. bindr (set_prev h new_node p) (\<lambda>h1.
          bindr (set_next h1 new_node old_node) (\<lambda>h2. bindr (get_prev h2 old_node) (\<lambda>p'.
          bindr (set_next h2 p' new_node) (\<lambda>h3. bindr (set_prev h3 old_node new_node) (\<lambda>h4.
          Inr (h4, l))))))))
       (\<lambda>(h', l'). Inr (h', l'\<lparr>ll_count := sz_add (ll_count l') 1\<rparr>)))"

section \<open>Iterators\<close>

definition ll_begin :: "list_obj \<Rightarrow> nat run" where
  "ll_begin l = assert_then (ll_head l \<noteq> 0) (Inr (ll_head l))"

definition ll_end :: "list_obj \<Rightarrow> nat run" where
  "ll_end l = assert_then (ll_ending l \<noteq> 0) (Inr (ll_ending l))"

definition ll_it_inc :: "'a lheap \<Rightarrow> nat \<Rightarrow> nat run" where
  "ll_it_inc h i = bindr (get_next h i) (\<lambda>n. assert_then (n \<noteq> 0) (Inr n))"

definition ll_it_dec :: "'a lheap \<Rightarrow> nat \<Rightarrow> nat run" where
  "ll_it_dec h i = bindr (get_prev h i) (\<lambda>p. assert_then (p \<noteq> 0) (Inr p))"

definition ll_deref :: "'a lheap \<Rightarrow> nat \<Rightarrow> 'a run" where
  "ll_deref h i = get_data h i"

section \<open>Operations\<close>

definition ll_new :: "nat \<Rightarrow> list_obj" where
  "ll_new ending = \<lparr>ll_ending = ending, ll_head = ending, ll_tail = ending, ll_count = 0\<rparr>"

text \<open>\<open>insert\<close> and \<open>emplace\<close>: allocate a node, link it before the iterator.\<close>

definition ll_insert :: "'a lheap \<times> list_obj \<Rightarrow> nat \<Rightarrow> 'a \<Rightarrow> ('a lheap \<times> list_obj) run" where
  "ll_insert s pos x = (let (p, h1) = alloc_node (fst s) x in ll_link_node (h1, snd s) p pos)"

definition ll_emplace :: "'a lheap \<times> list_obj \<Rightarrow> nat \<Rightarrow> 'a \<Rightarrow> ('a lheap \<times> list_obj) run" where
  "ll_emplace s itr x = (let (p, h1) = alloc_node (fst s) x in ll_link_node (h1, snd s) p itr)"

definition ll_push_back :: "'a lheap \<times> list_obj \<Rightarrow> 'a \<Rightarrow> ('a lheap \<times> list_obj) run" where
  "ll_push_back s x = bindr (ll_end (snd s)) (\<lambda>i. ll_insert s i x)"

definition ll_push_front :: "'a lheap \<times> list_obj \<Rightarrow> 'a \<Rightarrow> ('a lheap \<times> list_obj) run" where
  "ll_push_front s x = bindr (ll_begin (snd s)) (\<lambda>i. ll_insert s i x)"

definition ll_emplace_back :: "'a lheap \<times> list_obj \<Rightarrow> 'a \<Rightarrow> ('a lheap \<times> list_obj) run" where
  "ll_emplace_back s x = bindr (ll_end (snd s)) (\<lambda>i. ll_emplace s i x)"

definition ll_emplace_front :: "'a lheap \<times> list_obj \<Rightarrow> 'a \<Rightarrow> ('a lheap \<times> list_obj) run" where
  "ll_emplace_front s x = bindr (ll_begin (snd s)) (\<lambda>i. ll_emplace s i x)"

definition ll_remove :: "'a lheap \<times> list_obj \<Rightarrow> nat \<Rightarrow> ('a lheap \<times> list_obj) run" where
  "ll_remove s itr = assert_then (itr \<noteq> 0)
     (bindr (ll_unlink_node s itr) (\<lambda>(h1, l1). bindr (delete_node h1 itr) (\<lambda>h2. Inr (h2, l1))))"

definition ll_pop_back :: "'a lheap \<times> list_obj \<Rightarrow> ('a lheap \<times> list_obj) run" where
  "ll_pop_back s = bindr (ll_end (snd s)) (\<lambda>e. bindr (ll_it_dec (fst s) e) (ll_remove s))"

definition ll_pop_front :: "'a lheap \<times> list_obj \<Rightarrow> ('a lheap \<times> list_obj) run" where
  "ll_pop_front s = bindr (ll_begin (snd s)) (ll_remove s)"

fun ll_remove_if_loop ::
    "('a \<Rightarrow> bool) \<Rightarrow> nat \<Rightarrow> nat \<Rightarrow> bool \<Rightarrow> 'a lheap \<times> list_obj \<Rightarrow> (bool \<times> 'a lheap \<times> list_obj) run" where
  "ll_remove_if_loop predicate fuel i is_removed s =
     (if i = ll_ending (snd s) then Inr (is_removed, s)
      else case fuel of 0 \<Rightarrow> Inl OutOfFuel
      | Suc fuel' \<Rightarrow>
          bindr (ll_it_inc (fst s) i) (\<lambda>i'. bindr (ll_deref (fst s) i) (\<lambda>x.
            if predicate x
            then bindr (ll_remove s i) (ll_remove_if_loop predicate fuel' i' True)
            else ll_remove_if_loop predicate fuel' i' is_removed s)))"

definition ll_remove_if :: "('a \<Rightarrow> bool) \<Rightarrow> 'a lheap \<times> list_obj \<Rightarrow> (bool \<times> 'a lheap \<times> list_obj) run" where
  "ll_remove_if predicate s = bindr (ll_begin (snd s)) (\<lambda>i. ll_remove_if_loop predicate (ll_count (snd s)) i False s)"

text \<open>\<open>splice\<close>: from this list to the end of another one, in the same heap.\<close>

definition ll_splice :: "'a lheap \<Rightarrow> list_obj \<Rightarrow> list_obj \<Rightarrow> nat \<Rightarrow> ('a lheap \<times> list_obj \<times> list_obj) run" where
  "ll_splice h self lst itr =
     bindr (ll_unlink_node (h, self) itr) (\<lambda>(h1, self').
     bindr (ll_link_node (h1, lst) itr (ll_ending lst)) (\<lambda>(h2, lst'). Inr (h2, self', lst')))"

fun ll_find_loop :: "('a \<Rightarrow> bool) \<Rightarrow> nat \<Rightarrow> nat \<Rightarrow> 'a lheap \<Rightarrow> list_obj \<Rightarrow> nat run" where
  "ll_find_loop predicate fuel i h l =
     (if i = ll_ending l then ll_end l
      else case fuel of 0 \<Rightarrow> Inl OutOfFuel
      | Suc fuel' \<Rightarrow> bindr (ll_deref h i) (\<lambda>x.
          if predicate x then Inr i
          else bindr (ll_it_inc h i) (\<lambda>i'. ll_find_loop predicate fuel' i' h l)))"

definition ll_find_if :: "('a \<Rightarrow> bool) \<Rightarrow> 'a lheap \<times> list_obj \<Rightarrow> nat run" where
  "ll_find_if predicate s = bindr (ll_begin (snd s)) (\<lambda>i. ll_find_loop predicate (ll_count (snd s)) i (fst s) (snd s))"

definition ll_find :: "'a \<Rightarrow> 'a lheap \<times> list_obj \<Rightarrow> nat run" where
  "ll_find element s = bindr (ll_begin (snd s)) (\<lambda>i. ll_find_loop (\<lambda>x. element = x) (ll_count (snd s)) i (fst s) (snd s))"

definition ll_contains :: "('a \<Rightarrow> bool) \<Rightarrow> 'a lheap \<times> list_obj \<Rightarrow> bool run" where
  "ll_contains predicate s = bindr (ll_find_if predicate s) (\<lambda>i. Inr (i \<noteq> ll_ending (snd s)))"

definition ll_first :: "'a lheap \<times> list_obj \<Rightarrow> 'a run" where
  "ll_first s = bindr (ll_begin (snd s)) (ll_deref (fst s))"

definition ll_last :: "'a lheap \<times> list_obj \<Rightarrow> 'a run" where
  "ll_last s = bindr (ll_end (snd s)) (\<lambda>e. bindr (ll_it_dec (fst s) e) (ll_deref (fst s)))"

definition ll_size :: "list_obj \<Rightarrow> size_t" where
  "ll_size l = ll_count l"

definition ll_is_empty :: "list_obj \<Rightarrow> bool" where
  "ll_is_empty l = (ll_size l = 0)"

text \<open>\<open>operator[]\<close> for a non-negative index: as many increments from \<open>begin()\<close>.\<close>

definition ll_advance :: "'a lheap \<Rightarrow> nat \<Rightarrow> nat \<Rightarrow> nat run" where
  "ll_advance h n i = for_up 0 n (\<lambda>_ i. ll_it_inc h i) i"

definition ll_at :: "'a lheap \<times> list_obj \<Rightarrow> nat \<Rightarrow> 'a run" where
  "ll_at s num = bindr (ll_begin (snd s)) (\<lambda>i. bindr (ll_advance (fst s) num i) (ll_deref (fst s)))"

fun ll_clear_loop :: "nat \<Rightarrow> nat \<Rightarrow> nat \<Rightarrow> 'a lheap \<Rightarrow> 'a lheap run" where
  "ll_clear_loop ending fuel cur h =
     (if cur \<noteq> 0 \<and> cur \<noteq> ending then
        case fuel of 0 \<Rightarrow> Inl OutOfFuel
        | Suc fuel' \<Rightarrow> bindr (get_next h cur) (\<lambda>n. bindr (delete_node h cur) (ll_clear_loop ending fuel' n))
      else Inr h)"

definition ll_clear :: "'a lheap \<times> list_obj \<Rightarrow> ('a lheap \<times> list_obj) run" where
  "ll_clear s = (let l = snd s in
     bindr (ll_clear_loop (ll_ending l) (ll_count l) (ll_head l) (fst s)) (\<lambda>h'.
     Inr (h', l\<lparr>ll_tail := ll_ending l, ll_head := ll_ending l, ll_count := 0\<rparr>)))"

definition ll_destructor :: "'a lheap \<times> list_obj \<Rightarrow> ('a lheap \<times> list_obj) run" where
  "ll_destructor s = ll_clear s"

text \<open>The loop that appends the elements of \<open>other\<close> (copy constructor and copy assignment).\<close>

fun ll_append_loop :: "list_obj \<Rightarrow> nat \<Rightarrow> nat \<Rightarrow> 'a lheap \<times> list_obj \<Rightarrow> ('a lheap \<times> list_obj) run" where
  "ll_append_loop other fuel i s =
     (if i = ll_ending other then Inr s
      else case fuel of 0 \<Rightarrow> Inl OutOfFuel
      | Suc fuel' \<Rightarrow> bindr (ll_deref (fst s) i) (\<lambda>x. bindr (ll_push_back s x) (\<lambda>s'.
          bindr (ll_it_inc (fst s') i) (\<lambda>i'. ll_append_loop other fuel' i' s'))))"

definition ll_copy :: "'a lheap \<Rightarrow> list_obj \<Rightarrow> nat \<Rightarrow> ('a lheap \<times> list_obj) run" where
  "ll_copy h other ending =
     bindr (ll_begin other) (\<lambda>i. ll_append_loop other (ll_count other) i (h, ll_new ending))"

definition ll_assign_copy :: "bool \<Rightarrow> 'a lheap \<times> list_obj \<Rightarrow> list_obj \<Rightarrow> ('a lheap \<times> list_obj) run" where
  "ll_assign_copy same s other =
     (if same then Inr s
      else bindr (ll_clear s) (\<lambda>s'. bindr (ll_begin other) (\<lambda>i. ll_append_loop other (ll_count other) i s')))"

text \<open>The move constructor: the new list object, with ending node \<open>ending\<close>, and what is left of \<open>other\<close>.\<close>

definition ll_move :: "'a lheap \<Rightarrow> list_obj \<Rightarrow> nat \<Rightarrow> ('a lheap \<times> list_obj \<times> list_obj) run" where
  "ll_move h other ending =
     bindr (set_next h (ll_tail other) ending) (\<lambda>h'.
     Inr (h', \<lparr>ll_ending = ending, ll_head = ll_head other, ll_tail = ll_tail other, ll_count = ll_count other\<rparr>,
          other\<lparr>ll_head := 0, ll_tail := 0, ll_count := 0\<rparr>))"

definition ll_assign_move :: "bool \<Rightarrow> 'a lheap \<Rightarrow> list_obj \<Rightarrow> list_obj \<Rightarrow> ('a lheap \<times> list_obj \<times> list_obj) run" where
  "ll_assign_move same h self other =
     (if same then Inr (h, self, self)
      else bindr (ll_clear (h, self)) (\<lambda>(h1, self1).
        bindr (set_next h1 (ll_tail other) (ll_ending self)) (\<lambda>h2.
        Inr (h2, self1\<lparr>ll_head := ll_head other, ll_tail := ll_tail other, ll_count := ll_count other\<rparr>,
             other\<lparr>ll_head := 0, ll_tail := 0, ll_count := 0\<rparr>))))"

declare ll_remove_if_loop.simps [simp del] ll_find_loop.simps [simp del]
  ll_clear_loop.simps [simp del] ll_append_loop.simps [simp del]

section \<open>Representation\<close>

text \<open>Allocation never returns an address in use or \<open>nullptr\<close>.\<close>

definition heap_ok :: "'a lheap \<Rightarrow> bool" where
  "heap_ok h \<longleftrightarrow> 0 < lh_fresh h \<and> (\<forall>p. lh_live h p \<longrightarrow> p < lh_fresh h)"

definition list_rep :: "'a lheap \<Rightarrow> list_obj \<Rightarrow> nat list \<Rightarrow> 'a list \<Rightarrow> bool" where
  "list_rep h l ps xs \<longleftrightarrow>
     distinct (ll_ending l # ps) \<and> 0 \<notin> set (ll_ending l # ps) \<and> (\<forall>p\<in>set (ll_ending l # ps). lh_live h p) \<and>
     chain (lh_next h) (ll_head l) ps (ll_ending l) \<and> back_chain (lh_prev h) 0 ps \<and>
     lh_next h (ll_ending l) = 0 \<and> (ps \<noteq> [] \<longrightarrow> lh_prev h (ll_ending l) = last ps) \<and>
     ll_tail l = last (ll_ending l # ps) \<and>
     map (lh_data h) ps = map Some xs \<and> ll_count l = length ps \<and> length ps < sz_range"

section \<open>Linking keeps the representation\<close>

text \<open>Only the pointers of the nodes in A changed.\<close>

definition only_links :: "nat set \<Rightarrow> 'a lheap \<Rightarrow> 'a lheap \<Rightarrow> bool" where
  "only_links A h h' \<longleftrightarrow> lh_live h' = lh_live h \<and> lh_data h' = lh_data h \<and> lh_fresh h' = lh_fresh h \<and>
     (\<forall>q. q \<notin> A \<longrightarrow> lh_next h' q = lh_next h q \<and> lh_prev h' q = lh_prev h q)"

text \<open>The node an iterator at position k stands for.\<close>

definition node_at :: "list_obj \<Rightarrow> nat list \<Rightarrow> nat \<Rightarrow> nat" where
  "node_at l ps k = (ps @ [ll_ending l]) ! k"

lemma list_rep_len: "list_rep h l ps xs \<Longrightarrow> length xs = length ps"
  unfolding list_rep_def by (metis length_map)

lemma list_rep_count: "list_rep h l ps xs \<Longrightarrow> ll_count l = length ps"
  by (simp add: list_rep_def)

lemma link_empty:
  assumes "list_rep h l [] []" "p \<noteq> ll_ending l" "p \<noteq> 0" "lh_live h p" "lh_data h p = Some x"
  shows "ok (ll_link_node (h, l) p old) (\<lambda>(h', l'). list_rep h' l' [p] [x] \<and> ll_ending l' = ll_ending l \<and>
     only_links {ll_ending l, p} h h')"
  using assms by (auto simp: ll_link_node_def list_rep_def run_simps Let_def only_links_def sz_simps)

lemma link_front:
  assumes "list_rep h l (v # vs) xs" "p \<notin> set (ll_ending l # v # vs)" "p \<noteq> 0" "lh_live h p"
    and "lh_data h p = Some x" "Suc (length (v # vs)) < sz_range"
  shows "ok (ll_link_node (h, l) p v) (\<lambda>(h', l'). list_rep h' l' (p # v # vs) (x # xs) \<and>
     ll_ending l' = ll_ending l \<and> only_links (set (ll_ending l # p # v # vs)) h h')"
  using assms by (auto simp: ll_link_node_def list_rep_def run_simps Let_def only_links_def sz_simps)

lemma link_back:
  assumes "list_rep h l (us @ [u]) xs" "p \<notin> set (ll_ending l # us @ [u])" "p \<noteq> 0" "lh_live h p"
    and "lh_data h p = Some x" "Suc (length (us @ [u])) < sz_range"
  shows "ok (ll_link_node (h, l) p (ll_ending l)) (\<lambda>(h', l'). list_rep h' l' (us @ [u, p]) (xs @ [x]) \<and>
     ll_ending l' = ll_ending l \<and> only_links (set (ll_ending l # p # us @ [u])) h h')"
proof -
  have "ll_head l \<noteq> ll_ending l" using assms(1) by (cases us) (auto simp: list_rep_def)
  with assms show ?thesis
    by (auto simp: ll_link_node_def list_rep_def run_simps Let_def only_links_def sz_simps chain_append
        back_chain_append)
qed

lemma link_middle:
  assumes "list_rep h l (us @ u # v # vs) xs" "p \<notin> set (ll_ending l # us @ u # v # vs)" "p \<noteq> 0" "lh_live h p"
    and "lh_data h p = Some x" "Suc (length (us @ u # v # vs)) < sz_range"
  shows "ok (ll_link_node (h, l) p v) (\<lambda>(h', l'). list_rep h' l' (us @ u # p # v # vs)
      (list_insert_at (Suc (length us)) x xs) \<and>
     ll_ending l' = ll_ending l \<and> only_links (set (ll_ending l # p # us @ u # v # vs)) h h')"
proof -
  have "ll_head l = hd (us @ [u])" using assms(1) by (cases us) (auto simp: list_rep_def)
  then have "v \<noteq> ll_head l" using assms(1) by (cases us) (auto simp: list_rep_def)
  moreover have "map (lh_data h) (us @ u # p # v # vs) = map Some (list_insert_at (Suc (length us)) x xs)"
  proof -
    have d: "map (lh_data h) (us @ u # v # vs) = map Some xs" using assms(1) by (simp add: list_rep_def)
    have "map (lh_data h) (us @ [u]) = map Some (take (Suc (length us)) xs)"
      "map (lh_data h) (v # vs) = map Some (drop (Suc (length us)) xs)"
      using arg_cong [OF d, of "take (Suc (length us))"] arg_cong [OF d, of "drop (Suc (length us))"]
      by (simp_all add: take_map drop_map)
    with assms(5) show ?thesis by (simp add: list_insert_at_def)
  qed
  ultimately show ?thesis
    using assms
    by (auto simp: ll_link_node_def list_rep_def run_simps Let_def only_links_def sz_simps chain_append
        back_chain_append)
qed

lemma ll_link_node_law:
  assumes "list_rep h l ps xs" "k \<le> length ps" "p \<notin> set (ll_ending l # ps)" "p \<noteq> 0" "lh_live h p"
    and "lh_data h p = Some x" "Suc (length ps) < sz_range"
  shows "ok (ll_link_node (h, l) p (node_at l ps k)) (\<lambda>(h', l'). list_rep h' l' (list_insert_at k p ps) (list_insert_at k x xs) \<and>
     ll_ending l' = ll_ending l \<and> only_links (set (ll_ending l # p # ps)) h h')"
proof -
  consider "ps = []" | "k = 0" "ps \<noteq> []" | "k = length ps" "ps \<noteq> []" | "0 < k" "k < length ps"
    using assms(2) by fastforce
  then show ?thesis
  proof cases
    case 1
    then have "xs = []" "k = 0" using list_rep_len [OF assms(1)] assms(2) by auto
    with 1 link_empty [of h l p x] assms show ?thesis by simp
  next
    case 2
    then obtain v vs where "ps = v # vs" by (cases ps) auto
    with 2 link_front [of h l v vs xs p x] assms show ?thesis by (simp add: node_at_def)
  next
    case 3
    then obtain us u where "ps = us @ [u]" by (metis rev_exhaust)
    with 3 link_back [of h l us u xs p x] assms list_rep_len [OF assms(1)] show ?thesis
      by (simp add: node_at_def list_insert_at_def nth_append)
  next
    case 4
    then obtain us u v vs where ps: "ps = us @ u # v # vs" "k = Suc (length us)"
      by (metis Cons_nth_drop_Suc Suc_pred id_take_nth_drop length_take less_imp_le_nat min.absorb2 Suc_lessD)
    with link_middle [of h l us u v vs xs p x] assms show ?thesis
      by (simp add: node_at_def list_insert_at_def nth_append)
  qed
qed

lemma unlink_only:
  assumes "list_rep h l [p] xs"
  shows "ok (ll_unlink_node (h, l) p) (\<lambda>(h', l'). list_rep h' l' [] [] \<and> ll_ending l' = ll_ending l \<and> h' = h)"
  using assms by (auto simp: ll_unlink_node_def list_rep_def run_simps Let_def sz_simps)

lemma unlink_front:
  assumes "list_rep h l (p # v # vs) (x # xs)"
  shows "ok (ll_unlink_node (h, l) p) (\<lambda>(h', l'). list_rep h' l' (v # vs) xs \<and> ll_ending l' = ll_ending l \<and>
     only_links (set (ll_ending l # p # v # vs)) h h')"
proof -
  have "ll_tail l \<noteq> p" using assms by (cases vs rule: rev_cases) (auto simp: list_rep_def)
  with assms show ?thesis
    by (auto simp: ll_unlink_node_def list_rep_def run_simps Let_def only_links_def sz_simps)
qed

lemma unlink_back:
  assumes "list_rep h l (us @ [u, p]) (xs @ [x])"
  shows "ok (ll_unlink_node (h, l) p) (\<lambda>(h', l'). list_rep h' l' (us @ [u]) xs \<and> ll_ending l' = ll_ending l \<and>
     only_links (set (ll_ending l # us @ [u, p])) h h')"
proof -
  have "ll_head l \<noteq> p" using assms by (cases us) (auto simp: list_rep_def)
  with assms show ?thesis
    by (auto simp: ll_unlink_node_def list_rep_def run_simps Let_def only_links_def sz_simps chain_append
        back_chain_append)
qed

lemma unlink_middle:
  assumes "list_rep h l (us @ u # p # v # vs) xs"
  shows "ok (ll_unlink_node (h, l) p) (\<lambda>(h', l'). list_rep h' l' (us @ u # v # vs) (list_remove_at (Suc (length us)) xs) \<and>
     ll_ending l' = ll_ending l \<and> only_links (set (ll_ending l # us @ u # p # v # vs)) h h')"
proof -
  have "ll_head l \<noteq> p" using assms by (cases us) (auto simp: list_rep_def)
  moreover have "ll_tail l \<noteq> p" using assms by (auto simp: list_rep_def)
  moreover have "map (lh_data h) (us @ u # v # vs) = map Some (list_remove_at (Suc (length us)) xs)"
  proof -
    have d: "map (lh_data h) (us @ u # p # v # vs) = map Some xs" using assms(1) by (simp add: list_rep_def)
    have "map (lh_data h) (us @ [u]) = map Some (take (Suc (length us)) xs)"
      "map (lh_data h) (v # vs) = map Some (drop (Suc (Suc (length us))) xs)"
      using arg_cong [OF d, of "take (Suc (length us))"] arg_cong [OF d, of "drop (Suc (Suc (length us)))"]
      by (simp_all add: take_map drop_map)
    then show ?thesis by (simp add: list_remove_at_def)
  qed
  ultimately show ?thesis
    using assms
    by (auto simp: ll_unlink_node_def list_rep_def run_simps Let_def only_links_def sz_simps chain_append
        back_chain_append)
qed

lemma ll_unlink_node_law:
  assumes "list_rep h l ps xs" "k < length ps"
  shows "ok (ll_unlink_node (h, l) (ps ! k)) (\<lambda>(h', l'). list_rep h' l' (list_remove_at k ps) (list_remove_at k xs) \<and>
     ll_ending l' = ll_ending l \<and> only_links (set (ll_ending l # ps)) h h')"
proof -
  have len: "length xs = length ps" by (rule list_rep_len [OF assms(1)])
  consider "length ps = 1" | "k = 0" "1 < length ps" | "0 < k" "Suc k = length ps" | "0 < k" "Suc k < length ps"
    using assms(2) by linarith
  then show ?thesis
  proof cases
    case 1
    then obtain p where "ps = [p]" "k = 0" using assms(2) by (auto simp: length_Suc_conv)
    with unlink_only [of h l p xs] assms(1) len show ?thesis
      by (auto simp: list_remove_at_def only_links_def elim!: ok_mono)
  next
    case 2
    then obtain p v vs where ps: "ps = p # v # vs" by (cases ps; cases "tl ps") auto
    then obtain x xs' where "xs = x # xs'" using len by (cases xs) auto
    with 2 ps unlink_front [of h l p v vs x xs'] assms show ?thesis by simp
  next
    case 3
    then obtain us u p where ps: "ps = us @ [u, p]"
      by (metis append_butlast_last_id append_assoc append_Cons append_Nil length_butlast length_greater_0_conv
          less_Suc_eq_0_disj list.size(3) diff_Suc_1 not_less_zero zero_less_Suc)
    moreover obtain xs' x where "xs = xs' @ [x]" using len ps by (cases xs rule: rev_cases) auto
    ultimately show ?thesis
      using 3 unlink_back [of h l us u p xs' x] assms len by (auto simp: list_remove_at_def nth_append)
  next
    case 4
    then obtain us u p v vs where "ps = us @ u # p # v # vs" "k = Suc (length us)"
      by (metis Cons_nth_drop_Suc Suc_pred id_take_nth_drop length_take less_imp_le_nat min.absorb2 Suc_lessD)
    with unlink_middle [of h l us u p v vs xs] assms show ?thesis
      by (simp add: list_remove_at_def nth_append)
  qed
qed

section \<open>Operations keep the representation\<close>

text \<open>Nodes that existed before and are not in A are as they were.\<close>

definition keeps :: "nat set \<Rightarrow> 'a lheap \<Rightarrow> 'a lheap \<Rightarrow> bool" where
  "keeps A h h' \<longleftrightarrow> lh_fresh h \<le> lh_fresh h' \<and> (\<forall>q<lh_fresh h. q \<notin> A \<longrightarrow> lh_next h' q = lh_next h q \<and>
     lh_prev h' q = lh_prev h q \<and> lh_live h' q = lh_live h q \<and> lh_data h' q = lh_data h q)"

lemma only_links_keeps: "only_links A h h' \<Longrightarrow> keeps A h h'"
  by (simp add: only_links_def keeps_def)

lemma keeps_trans: "keeps A h h' \<Longrightarrow> keeps A h' h'' \<Longrightarrow> keeps A h h''"
  by (auto simp: keeps_def)

lemma keeps_mono: "keeps A h h' \<Longrightarrow> A \<subseteq> B \<Longrightarrow> keeps B h h'"
  by (auto simp: keeps_def)

lemma keeps_new:
  assumes "keeps A h h'" "keeps B h' h''" "\<forall>q\<in>B. q \<in> A \<or> lh_fresh h \<le> q"
  shows "keeps A h h''"
  unfolding keeps_def
proof (intro conjI allI impI)
  show "lh_fresh h \<le> lh_fresh h''" using assms(1,2) by (simp add: keeps_def)
  fix q assume q: "q < lh_fresh h" "q \<notin> A"
  then have "q \<notin> B" "q < lh_fresh h'" using assms(1,3) by (auto simp: keeps_def)
  with q assms(1,2) show "lh_next h'' q = lh_next h q" "lh_prev h'' q = lh_prev h q"
    "lh_live h'' q = lh_live h q" "lh_data h'' q = lh_data h q" by (simp_all add: keeps_def)
qed

lemma list_rep_fresh: "heap_ok h \<Longrightarrow> list_rep h l ps xs \<Longrightarrow> q \<in> set (ll_ending l # ps) \<Longrightarrow> q < lh_fresh h"
  by (auto simp: heap_ok_def list_rep_def)

lemma list_rep_keeps:
  assumes "heap_ok h" "list_rep h l ps xs" "keeps A h h'" "A \<inter> set (ll_ending l # ps) = {}"
  shows "list_rep h' l ps xs"
proof -
  have same: "lh_next h' q = lh_next h q" "lh_prev h' q = lh_prev h q" "lh_live h' q = lh_live h q"
    "lh_data h' q = lh_data h q" if "q \<in> set (ll_ending l # ps)" for q
    using that assms list_rep_fresh [OF assms(1,2) that] by (auto simp: keeps_def)
  have "chain (lh_next h') (ll_head l) ps (ll_ending l) = chain (lh_next h) (ll_head l) ps (ll_ending l)"
    "back_chain (lh_prev h') 0 ps = back_chain (lh_prev h) 0 ps" "map (lh_data h') ps = map (lh_data h) ps"
    using same by (auto intro!: chain_cong back_chain_cong)
  with assms(2) same show ?thesis by (auto simp: list_rep_def)
qed

lemma alloc_node_law:
  assumes "heap_ok h" "list_rep h l ps xs" "alloc_node h x = (p, h1)"
  shows "p = lh_fresh h" "heap_ok h1" "list_rep h1 l ps xs" "p \<notin> set (ll_ending l # ps)" "p \<noteq> 0" "lh_live h1 p"
    "lh_data h1 p = Some x" "keeps {} h h1"
proof -
  show p: "p = lh_fresh h" using assms(3) by (auto simp: alloc_node_def Let_def)
  show k: "keeps {} h h1" using assms(3) by (auto simp: alloc_node_def Let_def keeps_def)
  show "list_rep h1 l ps xs" using list_rep_keeps [OF assms(1,2) k] by simp
  show "p \<notin> set (ll_ending l # ps)" using list_rep_fresh [OF assms(1,2)] p by blast
qed (use assms in \<open>auto simp: alloc_node_def Let_def heap_ok_def less_Suc_eq\<close>)

lemma ll_insert_law:
  assumes "heap_ok h" "list_rep h l ps xs" "k \<le> length ps" "Suc (length ps) < sz_range"
  shows "ok (ll_insert (h, l) (node_at l ps k) x) (\<lambda>(h', l'). heap_ok h' \<and>
     list_rep h' l' (list_insert_at k (lh_fresh h) ps) (list_insert_at k x xs) \<and>
     ll_ending l' = ll_ending l \<and> keeps (set (ll_ending l # ps)) h h')"
proof -
  obtain p h1 where a: "alloc_node h x = (p, h1)" by fastforce
  note al = alloc_node_law [OF assms(1,2) a]
  from ll_link_node_law [OF al(3) assms(3) al(4-7) assms(4)] show ?thesis
    unfolding ll_insert_def fst_conv snd_conv a Let_def prod.case
  proof (rule ok_mono, clarify)
    fix h' l'
    assume r: "list_rep h' l' (list_insert_at k p ps) (list_insert_at k x xs)" "ll_ending l' = ll_ending l"
      and o: "only_links (set (ll_ending l # p # ps)) h1 h'"
    have "heap_ok h'" using al(2) o by (simp add: heap_ok_def only_links_def)
    moreover have "keeps (set (ll_ending l # ps)) h h'"
      using al(1,8) o by (auto simp: keeps_def only_links_def)
    ultimately show "heap_ok h' \<and> list_rep h' l' (list_insert_at k (lh_fresh h) ps) (list_insert_at k x xs) \<and>
       ll_ending l' = ll_ending l \<and> keeps (set (ll_ending l # ps)) h h'" using r al(1) by simp
  qed
qed

lemma list_rep_node:
  assumes "list_rep h l ps xs" "k < length ps"
  shows "ps ! k \<in> set ps" "ps ! k \<noteq> 0" "lh_live h (ps ! k)" "ps ! k \<noteq> ll_ending l"
proof -
  show m: "ps ! k \<in> set ps" using assms(2) by simp
  have "\<forall>q\<in>set ps. q \<noteq> 0 \<and> lh_live h q \<and> q \<noteq> ll_ending l"
    using assms(1) unfolding list_rep_def by (metis distinct.simps(2) list.set_intros(2))
  with m show "ps ! k \<noteq> 0" "lh_live h (ps ! k)" "ps ! k \<noteq> ll_ending l" by blast+
qed

lemma ll_remove_law:
  assumes "heap_ok h" "list_rep h l ps xs" "k < length ps"
  shows "ok (ll_remove (h, l) (ps ! k)) (\<lambda>(h', l'). heap_ok h' \<and>
     list_rep h' l' (list_remove_at k ps) (list_remove_at k xs) \<and>
     ll_ending l' = ll_ending l \<and> keeps (set (ll_ending l # ps)) h h' \<and> lh_fresh h' = lh_fresh h)"
proof -
  let ?p = "ps ! k"
  have p: "?p \<noteq> 0" "lh_live h ?p" "lh_data h ?p = Some (xs ! k)" "?p \<in> set ps"
    "?p \<notin> set (ll_ending l # list_remove_at k ps)"
  proof -
    have "map (lh_data h) ps ! k = map Some xs ! k" using assms(2) by (simp add: list_rep_def)
    with assms(3) list_rep_len [OF assms(2)] show "lh_data h ?p = Some (xs ! k)" by simp
    have "ps = take k ps @ ?p # drop (Suc k) ps" using assms(3) by (rule id_take_nth_drop)
    then have "distinct (take k ps @ ?p # drop (Suc k) ps)" using assms(2) by (simp add: list_rep_def)
    then show "?p \<notin> set (ll_ending l # list_remove_at k ps)"
      using list_rep_node(4) [OF assms(2,3)] by (auto simp: list_remove_at_def)
  qed (use list_rep_node [OF assms(2,3)] in auto)
  from ll_unlink_node_law [OF assms(2,3)]
  have "ok (bindr (ll_unlink_node (h, l) ?p) (\<lambda>(h1, l1). bindr (delete_node h1 ?p) (\<lambda>h2. Inr (h2, l1))))
      (\<lambda>(h', l'). heap_ok h' \<and> list_rep h' l' (list_remove_at k ps) (list_remove_at k xs) \<and>
     ll_ending l' = ll_ending l \<and> keeps (set (ll_ending l # ps)) h h' \<and> lh_fresh h' = lh_fresh h)"
  proof (rule ok_bindI, clarify)
    fix h1 l1
    assume r: "list_rep h1 l1 (list_remove_at k ps) (list_remove_at k xs)" "ll_ending l1 = ll_ending l"
      and o: "only_links (set (ll_ending l # ps)) h h1"
    let ?h2 = "h1\<lparr>lh_live := (lh_live h1)(?p := False), lh_data := (lh_data h1)(?p := None)\<rparr>"
    have d: "delete_node h1 ?p = Inr ?h2" using p o by (simp add: delete_node_def only_links_def)
    have ok1: "heap_ok h1" using assms(1) o by (simp add: heap_ok_def only_links_def)
    moreover have "keeps {?p} h1 ?h2" by (simp add: keeps_def)
    ultimately have "list_rep ?h2 l1 (list_remove_at k ps) (list_remove_at k xs)"
      using list_rep_keeps r p(5) by fastforce
    moreover have "keeps (set (ll_ending l # ps)) h ?h2" using o p(4) by (auto simp: keeps_def only_links_def)
    ultimately show "ok (bindr (delete_node h1 ?p) (\<lambda>h2. Inr (h2, l1))) (\<lambda>(h', l'). heap_ok h' \<and>
     list_rep h' l' (list_remove_at k ps) (list_remove_at k xs) \<and>
     ll_ending l' = ll_ending l \<and> keeps (set (ll_ending l # ps)) h h' \<and> lh_fresh h' = lh_fresh h)"
      using d r(2) ok1 o by (simp add: run_simps heap_ok_def only_links_def)
  qed
  with p(1) show ?thesis by (simp add: ll_remove_def)
qed

section \<open>Iteration\<close>

lemma chain_nth: "chain nx a ps b \<Longrightarrow> k < length ps \<Longrightarrow> nx (ps ! k) = (ps @ [b]) ! Suc k"
proof (induction ps arbitrary: a k)
  case (Cons p ps)
  then show ?case by (cases k; cases ps) auto
qed simp

lemma list_rep_begin: "list_rep h l ps xs \<Longrightarrow> ll_begin l = Inr (node_at l ps 0)"
  by (cases ps) (auto simp: list_rep_def ll_begin_def node_at_def)

lemma list_rep_end: "list_rep h l ps xs \<Longrightarrow> ll_end l = Inr (node_at l ps (length ps))"
  by (auto simp: list_rep_def ll_end_def node_at_def nth_append)

lemma node_at_nonzero: "list_rep h l ps xs \<Longrightarrow> k \<le> length ps \<Longrightarrow> node_at l ps k \<noteq> 0"
proof (cases "k < length ps")
  case True
  assume "list_rep h l ps xs"
  from list_rep_node(2) [OF this True] True show ?thesis by (simp add: node_at_def nth_append)
next
  case False
  assume "list_rep h l ps xs" "k \<le> length ps"
  with False show ?thesis by (simp add: node_at_def nth_append list_rep_def)
qed

lemma node_at_end_iff:
  assumes "list_rep h l ps xs" "k \<le> length ps"
  shows "node_at l ps k = ll_ending l \<longleftrightarrow> k = length ps"
proof
  assume "node_at l ps k = ll_ending l"
  with list_rep_node(4) [OF assms(1), of k] assms(2) show "k = length ps"
    by (cases "k < length ps") (auto simp: node_at_def nth_append)
qed (simp add: node_at_def nth_append)

lemma node_at_nth: "k < length ps \<Longrightarrow> node_at l ps k = ps ! k"
  by (simp add: node_at_def nth_append)

lemma list_rep_next:
  assumes "list_rep h l ps xs" "k < length ps"
  shows "ll_it_inc h (node_at l ps k) = Inr (node_at l ps (Suc k))"
proof -
  have "chain (lh_next h) (ll_head l) ps (ll_ending l)" using assms(1) by (simp add: list_rep_def)
  from chain_nth [OF this assms(2)] have "lh_next h (ps ! k) = node_at l ps (Suc k)" by (simp add: node_at_def)
  moreover note list_rep_node(2,3) [OF assms]
  ultimately show ?thesis
    using assms node_at_nonzero [OF assms(1), of "Suc k"]
    by (simp add: ll_it_inc_def get_next_def node_at_nth)
qed

lemma list_rep_data:
  assumes "list_rep h l ps xs" "k < length ps"
  shows "ll_deref h (node_at l ps k) = Inr (xs ! k)"
proof -
  have "map (lh_data h) ps ! k = map Some xs ! k" using assms(1) by (simp add: list_rep_def)
  then have "lh_data h (ps ! k) = Some (xs ! k)" using assms list_rep_len [OF assms(1)] by simp
  moreover note list_rep_node(2,3) [OF assms]
  ultimately show ?thesis using assms(2) by (simp add: ll_deref_def get_data_def node_at_nth)
qed

lemma list_rep_advance:
  assumes "list_rep h l ps xs" "k \<le> length ps"
  shows "ll_advance h k (node_at l ps 0) = Inr (node_at l ps k)"
  using assms(2)
proof (induction k)
  case (Suc k)
  with list_rep_next [OF assms(1), of k] show ?case by (simp add: ll_advance_def for_up_last)
qed (simp add: ll_advance_def)

lemmas list_iter = list_rep_begin list_rep_end list_rep_next list_rep_data list_rep_advance node_at_end_iff

lemma ll_at_law: "list_rep h l ps xs \<Longrightarrow> k < length ps \<Longrightarrow> ll_at (h, l) k = Inr (xs ! k)"
  by (simp add: ll_at_def list_iter)

section \<open>Loops\<close>

lemma ll_find_loop_law:
  "list_rep h l ps xs \<Longrightarrow> k \<le> length ps \<Longrightarrow> length ps - k \<le> fuel \<Longrightarrow>
   ll_find_loop P fuel (node_at l ps k) h l = Inr (node_at l ps (k + length (takeWhile (\<lambda>x. \<not> P x) (drop k xs))))"
proof (induction fuel arbitrary: k)
  case 0
  then show ?case by (subst ll_find_loop.simps) (simp add: list_iter list_rep_len)
next
  case (Suc fuel)
  show ?case
  proof (cases "k = length ps")
    case True
    with Suc.prems show ?thesis by (subst ll_find_loop.simps) (simp add: list_iter list_rep_len)
  next
    case False
    with Suc.prems have k: "k < length ps" by simp
    then have "drop k xs = xs ! k # drop (Suc k) xs"
      using list_rep_len [OF Suc.prems(1)] by (simp add: Cons_nth_drop_Suc)
    with k Suc show ?thesis by (subst ll_find_loop.simps) (simp add: list_iter)
  qed
qed

lemma ll_find_if_law:
  "list_rep h l ps xs \<Longrightarrow> ll_find_if P (h, l) = Inr (node_at l ps (length (takeWhile (\<lambda>x. \<not> P x) xs)))"
  using ll_find_loop_law [of h l ps xs 0 "ll_count l" P] by (simp add: ll_find_if_def list_iter list_rep_count)

text \<open>
  \<open>remove_if\<close> at the k-th node: the first k elements stay, the rest is filtered. The iterator is
  advanced before the node it pointed to is removed.
\<close>

lemma ll_remove_if_loop_law:
  "heap_ok h \<Longrightarrow> list_rep h l (us @ vs) (ys @ zs) \<Longrightarrow> length us = length ys \<Longrightarrow> length vs \<le> fuel \<Longrightarrow>
   ok (ll_remove_if_loop P fuel (hd (vs @ [ll_ending l])) b (h, l))
     (\<lambda>(r, h', l'). r = (b \<or> (\<exists>z\<in>set zs. P z)) \<and> heap_ok h' \<and> ll_ending l' = ll_ending l \<and>
        (\<exists>ps. list_rep h' l' ps (ys @ filter (\<lambda>x. \<not> P x) zs)))"
proof (induction fuel arbitrary: h l us vs ys zs b)
  case 0
  then have "zs = []" using list_rep_len [OF "0.prems"(2)] by simp
  with 0 show ?case by (subst ll_remove_if_loop.simps) (auto simp: run_simps)
next
  case (Suc fuel)
  have len: "length zs = length vs" using list_rep_len [OF Suc.prems(2)] Suc.prems(3) by simp
  show ?case
  proof (cases vs)
    case Nil
    with len have "zs = []" by simp
    with Suc.prems Nil show ?thesis by (subst ll_remove_if_loop.simps) (auto simp: run_simps)
  next
    case (Cons v vs')
    then obtain z zs' where zs: "zs = z # zs'" using len by (cases zs) auto
    let ?k = "length us"
    have k: "?k < length (us @ vs)" "node_at l (us @ vs) ?k = v" "(us @ vs) ! ?k = v"
      "node_at l (us @ vs) (Suc ?k) = hd (vs' @ [ll_ending l])" "v \<noteq> ll_ending l"
      using Cons Suc.prems(2) by (auto simp: node_at_def nth_append hd_conv_nth list_rep_def)
    have it: "ll_it_inc h v = Inr (hd (vs' @ [ll_ending l]))" "ll_deref h v = Inr z"
      using list_rep_next [OF Suc.prems(2) k(1)] list_rep_data [OF Suc.prems(2) k(1)] k zs Suc.prems(3)
      by (simp_all add: nth_append)
    show ?thesis
    proof (cases "P z")
      case True
      have "list_remove_at ?k (us @ vs) = us @ vs'" "list_remove_at ?k (ys @ zs) = ys @ zs'"
        using Cons zs Suc.prems(3) by (simp_all add: list_remove_at_def)
      with ll_remove_law [OF Suc.prems(1,2) k(1)] k(3)
      have "ok (ll_remove (h, l) v) (\<lambda>(h', l'). heap_ok h' \<and> list_rep h' l' (us @ vs') (ys @ zs') \<and> ll_ending l' = ll_ending l)"
        by (auto elim!: ok_mono)
      then have "ok (bindr (ll_remove (h, l) v) (ll_remove_if_loop P fuel (hd (vs' @ [ll_ending l])) True))
         (\<lambda>(r, h', l'). r = (b \<or> (\<exists>z\<in>set zs. P z)) \<and> heap_ok h' \<and> ll_ending l' = ll_ending l \<and>
           (\<exists>ps. list_rep h' l' ps (ys @ filter (\<lambda>x. \<not> P x) zs)))"
      proof (rule ok_bindI, clarify)
        fix h' l'
        assume "heap_ok h'" "list_rep h' l' (us @ vs') (ys @ zs')" "ll_ending l' = ll_ending l"
        from Suc.IH [OF this(1,2) Suc.prems(3), of True] this(3) Suc.prems(4) Cons zs True
        show "ok (ll_remove_if_loop P fuel (hd (vs' @ [ll_ending l])) True (h', l'))
          (\<lambda>(r, h', l'). r = (b \<or> (\<exists>z\<in>set zs. P z)) \<and> heap_ok h' \<and> ll_ending l' = ll_ending l \<and>
           (\<exists>ps. list_rep h' l' ps (ys @ filter (\<lambda>x. \<not> P x) zs)))" by (auto elim!: ok_mono)
      qed
      with True it k(5) Cons show ?thesis by (subst ll_remove_if_loop.simps) simp
    next
      case False
      from Suc.IH [of h l "us @ [v]" vs' "ys @ [z]" zs' b] Suc.prems Cons zs False it k(5) show ?thesis
        by (subst ll_remove_if_loop.simps) simp
    qed
  qed
qed

lemma ll_remove_if_law:
  assumes "heap_ok h" "list_rep h l ps xs"
  shows "ok (ll_remove_if P (h, l)) (\<lambda>(r, h', l'). r = (\<exists>x\<in>set xs. P x) \<and> heap_ok h' \<and>
     (\<exists>ps'. list_rep h' l' ps' (filter (\<lambda>x. \<not> P x) xs)))"
proof -
  have "ll_begin l = Inr (hd (ps @ [ll_ending l]))"
    using list_rep_begin [OF assms(2)] by (simp add: node_at_def hd_conv_nth)
  with ll_remove_if_loop_law [of h l "[]" ps "[]" xs "ll_count l" P False] assms show ?thesis
    by (auto simp: ll_remove_if_def list_rep_count elim!: ok_mono)
qed

text \<open>\<open>clear\<close> frees every node of the list and nothing else.\<close>

lemma ll_clear_loop_law:
  "chain (lh_next h) a ps e \<Longrightarrow> distinct (e # ps) \<Longrightarrow> 0 \<notin> set (e # ps) \<Longrightarrow>
   \<forall>p\<in>set ps. lh_live h p \<and> lh_data h p \<noteq> None \<Longrightarrow> length ps \<le> fuel \<Longrightarrow>
   ok (ll_clear_loop e fuel a h) (\<lambda>h'. lh_next h' = lh_next h \<and> lh_prev h' = lh_prev h \<and> lh_fresh h' = lh_fresh h \<and>
     (\<forall>q. lh_live h' q \<longleftrightarrow> lh_live h q \<and> q \<notin> set ps) \<and> (\<forall>q. q \<notin> set ps \<longrightarrow> lh_data h' q = lh_data h q))"
proof (induction ps arbitrary: a h fuel)
  case Nil
  then show ?case by (subst ll_clear_loop.simps) (simp add: run_simps)
next
  case (Cons p ps)
  then obtain fuel' where fuel: "fuel = Suc fuel'" by (cases fuel) auto
  let ?h = "h\<lparr>lh_live := (lh_live h)(p := False), lh_data := (lh_data h)(p := None)\<rparr>"
  have p: "a = p" "p \<noteq> 0" "p \<noteq> e" "lh_live h p" "lh_data h p \<noteq> None" using Cons.prems by auto
  have "ok (ll_clear_loop e fuel' (lh_next h p) ?h) (\<lambda>h'. lh_next h' = lh_next ?h \<and> lh_prev h' = lh_prev ?h \<and>
     lh_fresh h' = lh_fresh ?h \<and> (\<forall>q. lh_live h' q \<longleftrightarrow> lh_live ?h q \<and> q \<notin> set ps) \<and>
     (\<forall>q. q \<notin> set ps \<longrightarrow> lh_data h' q = lh_data ?h q))"
    using Cons.prems fuel by (intro Cons.IH) auto
  with p fuel show ?case
    by (subst ll_clear_loop.simps) (auto simp: get_next_def delete_node_def split: if_splits elim!: ok_mono)
qed

lemma ll_clear_law:
  assumes "heap_ok h" "list_rep h l ps xs"
  shows "ok (ll_clear (h, l)) (\<lambda>(h', l'). heap_ok h' \<and> list_rep h' l' [] [] \<and> ll_ending l' = ll_ending l \<and>
     (\<forall>q. lh_live h' q \<longleftrightarrow> lh_live h q \<and> q \<notin> set ps) \<and> keeps (set ps) h h')"
proof -
  have d: "\<forall>p\<in>set ps. lh_live h p \<and> lh_data h p \<noteq> None"
  proof
    fix p assume "p \<in> set ps"
    then obtain k where "k < length ps" "p = ps ! k" by (auto simp: in_set_conv_nth)
    with list_rep_data [OF assms(2), of k] list_rep_node [OF assms(2), of k]
    show "lh_live h p \<and> lh_data h p \<noteq> None"
      by (auto simp: ll_deref_def get_data_def node_at_nth split: option.splits)
  qed
  have "ok (ll_clear_loop (ll_ending l) (ll_count l) (ll_head l) h) (\<lambda>h'. lh_next h' = lh_next h \<and>
     lh_prev h' = lh_prev h \<and> lh_fresh h' = lh_fresh h \<and> (\<forall>q. lh_live h' q \<longleftrightarrow> lh_live h q \<and> q \<notin> set ps) \<and>
     (\<forall>q. q \<notin> set ps \<longrightarrow> lh_data h' q = lh_data h q))"
    using assms(2) d by (intro ll_clear_loop_law) (auto simp: list_rep_def)
  with assms show ?thesis
    by (auto simp: ll_clear_def Let_def run_simps list_rep_def heap_ok_def keeps_def elim!: ok_mono)
qed

section \<open>Copying\<close>

lemma ll_push_back_law:
  assumes "heap_ok h" "list_rep h l ps xs" "Suc (length ps) < sz_range"
  shows "ok (ll_push_back (h, l) x) (\<lambda>(h', l'). heap_ok h' \<and> list_rep h' l' (ps @ [lh_fresh h]) (xs @ [x]) \<and>
     ll_ending l' = ll_ending l \<and> keeps (set (ll_ending l # ps)) h h')"
  using ll_insert_law [OF assms(1,2) le_refl assms(3), of x] list_rep_len [OF assms(2)]
  by (auto simp: ll_push_back_def list_rep_end [OF assms(2)] list_insert_at_def elim!: ok_mono)

text \<open>
  Appending the elements of another list o, whose nodes are disjoint from this one's, from its
  k-th element on. The source list and every other node stay as they are.
\<close>

lemma ll_append_loop_law:
  assumes "list_rep h0 ot ops oxs" "heap_ok h0"
  shows "heap_ok h \<Longrightarrow> list_rep h l ps xs \<Longrightarrow> keeps (set [ll_ending l]) h0 h \<Longrightarrow>
    (\<forall>p\<in>set ps. lh_fresh h0 \<le> p) \<Longrightarrow> ll_ending l \<notin> set (ll_ending ot # ops) \<Longrightarrow>
    k \<le> length ops \<Longrightarrow> length ops - k \<le> fuel \<Longrightarrow> length ps + (length ops - k) < sz_range \<Longrightarrow>
    ok (ll_append_loop ot fuel (node_at ot ops k) (h, l)) (\<lambda>(h', l'). heap_ok h' \<and>
      (\<exists>ps'. list_rep h' l' ps' (xs @ drop k oxs) \<and> (\<forall>p\<in>set ps'. lh_fresh h0 \<le> p)) \<and> ll_ending l' = ll_ending l \<and>
      keeps (set [ll_ending l]) h0 h')"
proof (induction fuel arbitrary: h l ps xs k)
  case 0
  have len: "length oxs = length ops" by (rule list_rep_len [OF assms(1)])
  with 0 show ?case by (subst ll_append_loop.simps) (auto simp: node_at_end_iff [OF assms(1)] run_simps)
next
  case (Suc fuel)
  have len: "length oxs = length ops" by (rule list_rep_len [OF assms(1)])
  show ?case
  proof (cases "k = length ops")
    case True
    with Suc.prems len show ?thesis
      by (subst ll_append_loop.simps) (auto simp: node_at_end_iff [OF assms(1)] run_simps)
  next
    case False
    with Suc.prems have k: "k < length ops" by simp
    have other: "list_rep h ot ops oxs" using list_rep_keeps [OF assms(2,1) Suc.prems(3)] Suc.prems(5) by auto
    have ne: "node_at ot ops k \<noteq> ll_ending ot" using node_at_end_iff [OF assms(1)] k by simp
    have room: "Suc (length ps) < sz_range" using Suc.prems(8) k by simp
    have dr: "drop k oxs = oxs ! k # drop (Suc k) oxs" using k len by (simp add: Cons_nth_drop_Suc)
    have "ok (bindr (ll_push_back (h, l) (oxs ! k)) (\<lambda>s'. bindr (ll_it_inc (fst s') (node_at ot ops k))
        (\<lambda>i'. ll_append_loop ot fuel i' s'))) (\<lambda>(h', l'). heap_ok h' \<and>
      (\<exists>ps'. list_rep h' l' ps' (xs @ drop k oxs) \<and> (\<forall>p\<in>set ps'. lh_fresh h0 \<le> p)) \<and> ll_ending l' = ll_ending l \<and>
      keeps (set [ll_ending l]) h0 h')"
    proof (rule ok_bindI [OF ll_push_back_law [OF Suc.prems(1,2) room]], clarify)
      fix h' l'
      assume r: "heap_ok h'" "list_rep h' l' (ps @ [lh_fresh h]) (xs @ [oxs ! k])" "ll_ending l' = ll_ending l"
        and kp: "keeps (set (ll_ending l # ps)) h h'"
      have k0: "keeps (set [ll_ending l]) h0 h'"
        using keeps_new [OF Suc.prems(3) kp] Suc.prems(4) by auto
      then have "list_rep h' ot ops oxs" using list_rep_keeps [OF assms(2,1) k0] Suc.prems(5) by auto
      from list_rep_next [OF this k]
      have nx: "ll_it_inc h' (node_at ot ops k) = Inr (node_at ot ops (Suc k))" .
      have "lh_fresh h0 \<le> lh_fresh h" using Suc.prems(3) by (simp add: keeps_def)
      with Suc.IH [OF r(1,2), of "Suc k"] k0 r(3) Suc.prems k
      have "ok (ll_append_loop ot fuel (node_at ot ops (Suc k)) (h', l')) (\<lambda>(h', l'). heap_ok h' \<and>
        (\<exists>ps'. list_rep h' l' ps' (xs @ drop k oxs) \<and> (\<forall>p\<in>set ps'. lh_fresh h0 \<le> p)) \<and> ll_ending l' = ll_ending l \<and>
        keeps (set [ll_ending l]) h0 h')" by (simp add: dr)
      with nx show "ok (bindr (ll_it_inc (fst (h', l')) (node_at ot ops k)) (\<lambda>i'. ll_append_loop ot fuel i' (h', l')))
        (\<lambda>(h', l'). heap_ok h' \<and>
        (\<exists>ps'. list_rep h' l' ps' (xs @ drop k oxs) \<and> (\<forall>p\<in>set ps'. lh_fresh h0 \<le> p)) \<and> ll_ending l' = ll_ending l \<and>
        keeps (set [ll_ending l]) h0 h')" by simp
    qed
    with ne list_rep_data [OF other k] show ?thesis by (subst ll_append_loop.simps) simp
  qed
qed

text \<open>A fresh list object: its ending node is live and its pointers are null.\<close>

definition ending_ok :: "'a lheap \<Rightarrow> nat \<Rightarrow> bool" where
  "ending_ok h e \<longleftrightarrow> e \<noteq> 0 \<and> lh_live h e \<and> lh_next h e = 0 \<and> lh_prev h e = 0"

lemma ll_new_rep: "ending_ok h e \<Longrightarrow> list_rep h (ll_new e) [] []"
  by (simp add: ending_ok_def ll_new_def list_rep_def)

section \<open>The list as an editable sequence\<close>

definition ll_insert_at :: "'a lheap \<times> list_obj \<Rightarrow> nat \<Rightarrow> 'a \<Rightarrow> ('a lheap \<times> list_obj) run" where
  "ll_insert_at s k x = bindr (ll_begin (snd s)) (\<lambda>i. bindr (ll_advance (fst s) k i) (\<lambda>pos. ll_insert s pos x))"

definition ll_remove_at :: "'a lheap \<times> list_obj \<Rightarrow> nat \<Rightarrow> ('a lheap \<times> list_obj) run" where
  "ll_remove_at s k = bindr (ll_begin (snd s)) (\<lambda>i. bindr (ll_advance (fst s) k i) (ll_remove s))"

definition ll_holds :: "'a lheap \<times> list_obj \<Rightarrow> 'a list \<Rightarrow> bool" where
  "ll_holds s xs \<longleftrightarrow> heap_ok (fst s) \<and> (\<exists>ps. list_rep (fst s) (snd s) ps xs)"

interpretation lseq: editable_sequence ll_insert_at ll_remove_at ll_at "\<lambda>_. sz_range - 2" ll_holds
proof (unfold_locales, goal_cases)
  case (1 s xs i x)
  then obtain h l ps where s: "s = (h, l)" "heap_ok h" "list_rep h l ps xs" by (cases s) (auto simp: ll_holds_def)
  have i: "i \<le> length ps" "Suc (length ps) < sz_range" using 1 list_rep_len [OF s(3)] by auto
  from ll_insert_law [OF s(2,3) i, of x] s i show ?case
    by (auto simp: ll_insert_at_def list_iter ll_holds_def elim!: ok_mono)
next
  case (2 s xs i)
  then obtain h l ps where s: "s = (h, l)" "heap_ok h" "list_rep h l ps xs" by (cases s) (auto simp: ll_holds_def)
  have i: "i < length ps" using 2 list_rep_len [OF s(3)] by simp
  from ll_remove_law [OF s(2,3) i] s i show ?case
    by (auto simp: ll_remove_at_def list_iter node_at_nth ll_holds_def elim!: ok_mono)
next
  case (3 s xs i)
  then obtain h l ps where s: "s = (h, l)" "list_rep h l ps xs" by (cases s) (auto simp: ll_holds_def)
  with 3 ll_at_law [OF s(2)] list_rep_len [OF s(2)] show ?case by simp
qed

section \<open>Properties\<close>

text \<open>A heap that holds nothing but the ending node of one list object, at address 1.\<close>

definition start_heap :: "'a lheap" where
  "start_heap = \<lparr>lh_next = (\<lambda>_. 0), lh_prev = (\<lambda>_. 0), lh_live = (\<lambda>p. p = 1 \<or> p = 2), lh_data = (\<lambda>_. None), lh_fresh = 3\<rparr>"

lemma start_heap_ok: "heap_ok start_heap" "ending_ok start_heap 1" "ending_ok start_heap 2"
  by (auto simp: heap_ok_def ending_ok_def start_heap_def)

text \<open>
  (C2) Starting from an empty list object, every sequence of \<open>insert\<close>, \<open>remove\<close> and \<open>operator[]\<close>
  calls through valid iterators never dereferences a null or freed node, reads the values the
  list operations give, and ends in a well-linked list (forward chain to the ending node,
  backward chain to null, tail, count) that holds the expected elements.
\<close>

theorem list_sequence_refinement:
  assumes "heap_ok h" "ending_ok h e" "seq_valid (sz_range - 2) ops []"
  shows "ok (seq_run ll_insert_at ll_remove_at ll_at ops (h, ll_new e)) (\<lambda>(ys, h', l').
    ys = fst (seq_spec ops []) \<and> heap_ok h' \<and> (\<exists>ps. list_rep h' l' ps (snd (seq_spec ops []))))"
proof -
  have "ll_holds (h, ll_new e) []" using assms(1) ll_new_rep [OF assms(2)] by (auto simp: ll_holds_def)
  from lseq.seq_run_spec [OF this, of ops] assms(3) show ?thesis
    by (auto simp: ll_holds_def elim!: ok_mono)
qed

theorem list_sequence_refinement_witness:
  "ok (seq_run ll_insert_at ll_remove_at ll_at
       [InsertAt 0 (4::nat), InsertAt 1 5, InsertAt 1 6, RemoveAt 0, GetAt 0] (start_heap, ll_new 1))
     (\<lambda>(ys, h', l'). ys = [6] \<and> (\<exists>ps. list_rep h' l' ps [6, 5]))"
  using list_sequence_refinement [OF start_heap_ok(1,2),
      of "[InsertAt 0 (4::nat), InsertAt 1 5, InsertAt 1 6, RemoveAt 0, GetAt 0]"]
  by (auto simp: list_insert_at_def list_remove_at_def elim!: ok_mono)

text \<open>
  \<open>remove_if\<close> ends, deletes exactly the elements that satisfy the predicate and reports
  whether there were any; \<open>find_if\<close> returns the node of the first match or the ending node;
  \<open>clear\<close> frees all nodes of the list and no others.
\<close>

theorem list_remove_if_find_clear:
  assumes "heap_ok h" "list_rep h l ps xs"
  shows "ok (ll_remove_if P (h, l)) (\<lambda>(r, h', l'). r = (\<exists>x\<in>set xs. P x) \<and> heap_ok h' \<and>
       (\<exists>ps'. list_rep h' l' ps' (filter (\<lambda>x. \<not> P x) xs))) \<and>
    ll_find_if P (h, l) = Inr (node_at l ps (length (takeWhile (\<lambda>x. \<not> P x) xs))) \<and>
    ok (ll_clear (h, l)) (\<lambda>(h', l'). list_rep h' l' [] [] \<and> (\<forall>q. lh_live h' q \<longleftrightarrow> lh_live h q \<and> q \<notin> set ps))"
  using ll_remove_if_law [OF assms, of P] ll_find_if_law [OF assms(2), of P] ll_clear_law [OF assms]
  by (auto elim!: ok_mono)

theorem list_remove_if_find_clear_witness:
  "ok (ll_clear (start_heap, ll_new 1)) (\<lambda>(h', l'). list_rep h' l' [] ([] :: nat list))"
  using list_remove_if_find_clear [OF start_heap_ok(1) ll_new_rep [OF start_heap_ok(2)], of "\<lambda>_ :: nat. True"]
  by (auto elim!: ok_mono)

text \<open>
  The copy constructor builds a list of new nodes with the same elements in the same order;
  the source list is unchanged.
\<close>

theorem list_copy_is_deep:
  assumes "heap_ok h" "list_rep h ot ops xs" "ending_ok h e" "e \<notin> set (ll_ending ot # ops)"
  shows "ok (ll_copy h ot e) (\<lambda>(h', l'). heap_ok h' \<and> list_rep h' ot ops xs \<and>
     (\<exists>ps. list_rep h' l' ps xs \<and> set ps \<inter> set ops = {}))"
proof -
  have len: "length ops < sz_range" and cnt: "ll_count ot = length ops" using assms(2) by (auto simp: list_rep_def)
  have "keeps (set [ll_ending (ll_new e)]) h h" by (simp add: keeps_def)
  from ll_append_loop_law [OF assms(2,1,1) ll_new_rep [OF assms(3)] this, of 0 "length ops"] assms(4) len
  have "ok (ll_append_loop ot (length ops) (node_at ot ops 0) (h, ll_new e)) (\<lambda>(h', l'). heap_ok h' \<and>
      (\<exists>ps'. list_rep h' l' ps' xs \<and> (\<forall>p\<in>set ps'. lh_fresh h \<le> p)) \<and> keeps (set [e]) h h')"
    by (auto simp: ll_new_def elim!: ok_mono)
  then have "ok (ll_append_loop ot (length ops) (node_at ot ops 0) (h, ll_new e)) (\<lambda>(h', l'). heap_ok h' \<and>
     list_rep h' ot ops xs \<and> (\<exists>ps. list_rep h' l' ps xs \<and> set ps \<inter> set ops = {}))"
  proof (rule ok_mono)
    fix s assume "case s of (h', l') \<Rightarrow> heap_ok h' \<and>
      (\<exists>ps'. list_rep h' l' ps' xs \<and> (\<forall>p\<in>set ps'. lh_fresh h \<le> p)) \<and> keeps (set [e]) h h'"
    then obtain h' l' ps' where s: "s = (h', l')"
      and a: "heap_ok h'" "list_rep h' l' ps' xs" "\<forall>p\<in>set ps'. lh_fresh h \<le> p" "keeps (set [e]) h h'"
      by auto
    have "\<forall>p\<in>set ops. p < lh_fresh h" using list_rep_fresh [OF assms(1,2)] by simp
    then have "set ps' \<inter> set ops = {}" using a(3) by fastforce
    with s a list_rep_keeps [OF assms(1,2) a(4)] assms(4)
    show "case s of (h', l') \<Rightarrow> heap_ok h' \<and> list_rep h' ot ops xs \<and>
      (\<exists>ps. list_rep h' l' ps xs \<and> set ps \<inter> set ops = {})" by auto
  qed
  with list_rep_begin [OF assms(2)] cnt show ?thesis by (simp add: ll_copy_def)
qed

theorem list_copy_is_deep_witness:
  "ok (ll_copy start_heap (ll_new 1) 2) (\<lambda>(h', l'). \<exists>ps. list_rep h' l' ps ([] :: nat list))"
proof -
  have "2 \<notin> set (ll_ending (ll_new 1) # [])" by (simp add: ll_new_def)
  from list_copy_is_deep [OF start_heap_ok(1) ll_new_rep [OF start_heap_ok(2)] start_heap_ok(3) this]
  show ?thesis by (auto elim!: ok_mono)
qed

text \<open>
  The move constructor leaves \<open>prev\<close> of the new ending node null: the next \<open>push_back\<close> to a
  list that was moved with elements in it dereferences a null pointer.
\<close>

theorem list_move_breaks_push_back:
  assumes "heap_ok h" "list_rep h ot ops xs" "ops \<noteq> []" "ending_ok h e" "e \<notin> set (ll_ending ot # ops)"
  shows "bindr (ll_move h ot e) (\<lambda>(h', l', _). ll_push_back (h', l') x) = Inl BadAccess"
proof -
  have t: "ll_tail ot = last ops" "last ops \<in> set ops" "0 \<notin> set ops" "\<forall>p\<in>set ops. lh_live h p"
    "ll_count ot = length ops" "chain (lh_next h) (ll_head ot) ops (ll_ending ot)"
    using assms(2,3) by (auto simp: list_rep_def)
  have hd: "ll_head ot = hd ops" using t(6) assms(3) by (cases ops) auto
  have "last ops \<noteq> 0" "lh_live h (last ops)" using t by metis+
  then have mv: "ll_move h ot e = Inr (h\<lparr>lh_next := (lh_next h)(last ops := e)\<rparr>,
      \<lparr>ll_ending = e, ll_head = hd ops, ll_tail = last ops, ll_count = length ops\<rparr>,
      ot\<lparr>ll_head := 0, ll_tail := 0, ll_count := 0\<rparr>)"
    using t hd by (simp add: ll_move_def set_next_def)
  have e: "e \<noteq> 0" "lh_live h e" "lh_prev h e = 0" "e < lh_fresh h"
    using assms(1,4) by (auto simp: ending_ok_def heap_ok_def)
  have "e \<noteq> hd ops" using assms(3,5) by (auto dest: hd_in_set)
  with mv e assms(1,3) show ?thesis
    by (simp add: ll_push_back_def ll_end_def ll_insert_def alloc_node_def Let_def ll_link_node_def
        get_prev_def set_prev_def set_next_def heap_ok_def)
qed

theorem list_move_breaks_push_back_witness:
  "bindr (ll_push_back (start_heap, ll_new 1) (7::nat)) (\<lambda>(h, ot).
     bindr (ll_move h ot 2) (\<lambda>(h', l', _). ll_push_back (h', l') 8)) = Inl BadAccess"
proof -
  let ?h = "start_heap :: nat lheap"
  obtain h ot where p: "ll_push_back (?h, ll_new 1) 7 = Inr (h, ot)" "heap_ok h" "list_rep h ot [3] [7]"
      "ll_ending ot = 1" "keeps {1} ?h h"
    using ll_push_back_law [OF start_heap_ok(1) ll_new_rep [OF start_heap_ok(2)], of 7]
    by (auto simp: ok_iff start_heap_def ll_new_def)
  have "ending_ok h 2" using p(5) by (auto simp: keeps_def ending_ok_def start_heap_def)
  with list_move_breaks_push_back [OF p(2,3), of 2 8] p(1,4) show ?thesis by simp
qed

end
