(* ===== verification/Intrusive_List.thy ===== *)
theory Intrusive_List
  imports Chains Interfaces
begin

text \<open>
  \<open>IntrusiveList<T>\<close> of intrusive_list.h: a doubly linked list whose links live in the listed
  objects (\<open>IntrusiveListNode<T>\<close> is a base class of T), with an owner pointer in every node and
  an ending node inside the list object. All lists of one element type share a heap of nodes;
  an access to address 0 or to a destroyed node is a fault. \<open>il_rep h l ps\<close> says that the list l
  holds the nodes ps in this order and owns no other node.
\<close>

record iheap =
  ih_next :: "nat \<Rightarrow> nat"
  ih_prev :: "nat \<Rightarrow> nat"
  ih_owner :: "nat \<Rightarrow> nat"
  ih_live :: "nat \<Rightarrow> bool"

record ilist =
  il_this :: nat    \<comment> \<open>address of the list object, what the owner pointers hold\<close>
  il_ending :: nat  \<comment> \<open>address of \<open>m_ending_node\<close>\<close>
  il_head :: nat
  il_tail :: nat
  il_count :: size_t

section \<open>Pointer accesses\<close>

definition in_next :: "iheap \<Rightarrow> nat \<Rightarrow> nat run" where
  "in_next h p = (if p \<noteq> 0 \<and> ih_live h p then Inr (ih_next h p) else Inl BadAccess)"

definition in_prev :: "iheap \<Rightarrow> nat \<Rightarrow> nat run" where
  "in_prev h p = (if p \<noteq> 0 \<and> ih_live h p then Inr (ih_prev h p) else Inl BadAccess)"

definition in_owner :: "iheap \<Rightarrow> nat \<Rightarrow> nat run" where
  "in_owner h p = (if p \<noteq> 0 \<and> ih_live h p then Inr (ih_owner h p) else Inl BadAccess)"

definition set_in_next :: "iheap \<Rightarrow> nat \<Rightarrow> nat \<Rightarrow> iheap run" where
  "set_in_next h p q = (if p \<noteq> 0 \<and> ih_live h p then Inr (h\<lparr>ih_next := (ih_next h)(p := q)\<rparr>) else Inl BadAccess)"

definition set_in_prev :: "iheap \<Rightarrow> nat \<Rightarrow> nat \<Rightarrow> iheap run" where
  "set_in_prev h p q = (if p \<noteq> 0 \<and> ih_live h p then Inr (h\<lparr>ih_prev := (ih_prev h)(p := q)\<rparr>) else Inl BadAccess)"

definition set_in_owner :: "iheap \<Rightarrow> nat \<Rightarrow> nat \<Rightarrow> iheap run" where
  "set_in_owner h p q = (if p \<noteq> 0 \<and> ih_live h p then Inr (h\<lparr>ih_owner := (ih_owner h)(p := q)\<rparr>) else Inl BadAccess)"

lemma ok_in_reads [run_simps]:
  "ok (in_next h p) P \<longleftrightarrow> p \<noteq> 0 \<and> ih_live h p \<and> P (ih_next h p)"
  "ok (in_prev h p) P \<longleftrightarrow> p \<noteq> 0 \<and> ih_live h p \<and> P (ih_prev h p)"
  "ok (in_owner h p) P \<longleftrightarrow> p \<noteq> 0 \<and> ih_live h p \<and> P (ih_owner h p)"
  by (simp_all add: in_next_def in_prev_def in_owner_def ok_def)

lemma ok_in_writes [run_simps]:
  "ok (set_in_next h p q) P \<longleftrightarrow> p \<noteq> 0 \<and> ih_live h p \<and> P (h\<lparr>ih_next := (ih_next h)(p := q)\<rparr>)"
  "ok (set_in_prev h p q) P \<longleftrightarrow> p \<noteq> 0 \<and> ih_live h p \<and> P (h\<lparr>ih_prev := (ih_prev h)(p := q)\<rparr>)"
  "ok (set_in_owner h p q) P \<longleftrightarrow> p \<noteq> 0 \<and> ih_live h p \<and> P (h\<lparr>ih_owner := (ih_owner h)(p := q)\<rparr>)"
  by (simp_all add: set_in_next_def set_in_prev_def set_in_owner_def ok_def)

section \<open>Operations\<close>

text \<open>The default constructor of a node, and the one that sets the three pointers.\<close>

definition node_init :: "iheap \<Rightarrow> nat \<Rightarrow> nat \<Rightarrow> nat \<Rightarrow> nat \<Rightarrow> iheap" where
  "node_init h p next prev owner = h\<lparr>ih_next := (ih_next h)(p := next), ih_prev := (ih_prev h)(p := prev),
     ih_owner := (ih_owner h)(p := owner), ih_live := (ih_live h)(p := True)\<rparr>"

definition il_new :: "iheap \<Rightarrow> nat \<Rightarrow> nat \<Rightarrow> iheap \<times> ilist" where
  "il_new h this ending =
     (node_init h ending ending ending this,
      \<lparr>il_this = this, il_ending = ending, il_head = ending, il_tail = ending, il_count = 0\<rparr>)"

definition il_is_valid_node :: "iheap \<Rightarrow> ilist \<Rightarrow> nat \<Rightarrow> bool run" where
  "il_is_valid_node h l node =
     bindr (in_next h node) (\<lambda>n. if n = node then Inr False
       else bindr (in_owner h node) (\<lambda>ow. if ow \<noteq> il_this l then Inr False else Inr True))"

definition il_remove_node :: "iheap \<times> ilist \<Rightarrow> nat \<Rightarrow> (iheap \<times> ilist) run" where
  "il_remove_node s node = (let h = fst s; l = snd s; e = il_ending l in
     bindr (il_is_valid_node h l node) (\<lambda>v. assert_then v
       (bindr
         (if il_head l = node \<and> il_tail l = node then
            Inr (h, l\<lparr>il_head := e, il_tail := e\<rparr>)
          else if il_head l = node then
            bindr (in_next h node) (\<lambda>n. bindr (set_in_prev h n 0) (\<lambda>h1. Inr (h1, l\<lparr>il_head := n\<rparr>)))
          else if il_tail l = node then
            bindr (in_prev h node) (\<lambda>p. bindr (set_in_next h p e) (\<lambda>h1. Inr (h1, l\<lparr>il_tail := p\<rparr>)))
          else
            bindr (in_prev h node) (\<lambda>p. bindr (in_next h node) (\<lambda>n.
            bindr (set_in_next h p n) (\<lambda>h1. bindr (in_next h1 node) (\<lambda>n'. bindr (in_prev h1 node) (\<lambda>p'.
            bindr (set_in_prev h1 n' p') (\<lambda>h2. Inr (h2, l))))))))
         (\<lambda>(h', l'). bindr (set_in_owner h' node 0) (\<lambda>h''.
            Inr (h'', l'\<lparr>il_count := sz_sub (il_count l') 1\<rparr>))))))"

definition il_append_node :: "iheap \<times> ilist \<Rightarrow> nat \<Rightarrow> (iheap \<times> ilist) run" where
  "il_append_node s node = (let h = fst s; l = snd s; e = il_ending l in
     bindr (in_owner h node) (\<lambda>ow. assert_then (ow = 0)
       (bindr (set_in_owner h node (il_this l)) (\<lambda>h0.
        bindr
         (if il_head l = e then
            bindr (set_in_prev h0 node 0) (\<lambda>h1. bindr (set_in_next h1 node e) (\<lambda>h2.
              Inr (h2, l\<lparr>il_head := node, il_tail := node\<rparr>)))
          else
            bindr (set_in_prev h0 node (il_tail l)) (\<lambda>h1. bindr (set_in_next h1 node e) (\<lambda>h2.
            bindr (set_in_next h2 (il_tail l) node) (\<lambda>h3. bindr (set_in_prev h3 e node) (\<lambda>h4.
              Inr (h4, l\<lparr>il_tail := node\<rparr>))))))
         (\<lambda>(h', l'). Inr (h', l'\<lparr>il_count := sz_add (il_count l') 1\<rparr>))))))"

definition il_push_back :: "iheap \<times> ilist \<Rightarrow> nat \<Rightarrow> (iheap \<times> ilist) run" where
  "il_push_back s node = il_append_node s node"

definition il_pop_front :: "iheap \<times> ilist \<Rightarrow> (nat \<times> iheap \<times> ilist) run" where
  "il_pop_front s = assert_then (il_head (snd s) \<noteq> il_ending (snd s))
     (bindr (il_remove_node s (il_head (snd s))) (\<lambda>s'. Inr (il_head (snd s), s')))"

definition il_remove :: "iheap \<times> ilist \<Rightarrow> nat \<Rightarrow> (iheap \<times> ilist) run" where
  "il_remove s node = assert_then (il_head (snd s) \<noteq> 0) (il_remove_node s node)"

text \<open>An iterator is the address of its node; its constructor asserts that it is not null.\<close>

definition il_iter :: "nat \<Rightarrow> nat run" where
  "il_iter node = assert_then (node \<noteq> 0) (Inr node)"

definition il_begin :: "ilist \<Rightarrow> nat run" where
  "il_begin l = il_iter (il_head l)"

definition il_end :: "ilist \<Rightarrow> nat run" where
  "il_end l = il_iter (il_ending l)"

definition il_it_inc :: "iheap \<Rightarrow> nat \<Rightarrow> nat run" where
  "il_it_inc h i = bindr (in_next h i) il_iter"

definition il_it_dec :: "iheap \<Rightarrow> nat \<Rightarrow> nat run" where
  "il_it_dec h i = bindr (in_prev h i) il_iter"

text \<open>\<open>operator*\<close>: \<open>m_node->owner->is_valid_node(*m_node)\<close> compares the owner with itself.\<close>

definition il_deref :: "iheap \<Rightarrow> nat \<Rightarrow> nat run" where
  "il_deref h i = bindr (in_owner h i) (\<lambda>ow. assert_then (ow \<noteq> 0)
     (bindr (in_next h i) (\<lambda>n. assert_then (n \<noteq> i) (Inr i))))"

definition il_find :: "iheap \<Rightarrow> ilist \<Rightarrow> nat \<Rightarrow> nat run" where
  "il_find h l node = bindr (in_owner h node) (\<lambda>ow. if ow = il_this l then il_iter node else il_end l)"

definition il_first :: "ilist \<Rightarrow> nat run" where
  "il_first l = assert_then (il_head l \<noteq> il_ending l) (Inr (il_head l))"

definition il_last :: "ilist \<Rightarrow> nat run" where
  "il_last l = assert_then (il_tail l \<noteq> il_ending l) (Inr (il_tail l))"

definition il_is_empty :: "ilist \<Rightarrow> bool" where
  "il_is_empty l = (il_count l = 0)"

definition il_size :: "ilist \<Rightarrow> size_t" where
  "il_size l = il_count l"

text \<open>The move constructor and move assignment (\<open>same\<close>: both sides are the same object).\<close>

definition il_move :: "iheap \<Rightarrow> ilist \<Rightarrow> nat \<Rightarrow> nat \<Rightarrow> (iheap \<times> ilist \<times> ilist) run" where
  "il_move h ot this ending =
     bindr (set_in_next (node_init h ending ending ending this) (il_tail ot) ending) (\<lambda>h1.
       Inr (h1, \<lparr>il_this = this, il_ending = ending, il_head = il_head ot, il_tail = il_tail ot, il_count = il_count ot\<rparr>,
            ot\<lparr>il_head := 0, il_tail := 0, il_count := 0\<rparr>))"

definition il_assign_move :: "bool \<Rightarrow> iheap \<Rightarrow> ilist \<Rightarrow> ilist \<Rightarrow> (iheap \<times> ilist \<times> ilist) run" where
  "il_assign_move same h l ot = (if same then Inr (h, l, ot) else
     bindr (set_in_next h (il_tail ot) (il_ending l)) (\<lambda>h1.
       Inr (h1, l\<lparr>il_count := il_count ot, il_head := il_head ot, il_tail := il_tail ot\<rparr>,
            ot\<lparr>il_head := 0, il_tail := 0, il_count := 0\<rparr>)))"

section \<open>Representation\<close>

definition il_rep :: "iheap \<Rightarrow> ilist \<Rightarrow> nat list \<Rightarrow> bool" where
  "il_rep h l ps \<longleftrightarrow>
     il_this l \<noteq> 0 \<and> distinct (il_ending l # ps) \<and> 0 \<notin> set (il_ending l # ps) \<and>
     (\<forall>p\<in>set (il_ending l # ps). ih_live h p) \<and>
     chain (ih_next h) (il_head l) ps (il_ending l) \<and> back_chain (ih_prev h) 0 ps \<and>
     ih_next h (il_ending l) = il_ending l \<and> il_tail l = last (il_ending l # ps) \<and>
     (\<forall>q. ih_live h q \<and> ih_owner h q = il_this l \<longleftrightarrow> q \<in> set (il_ending l # ps)) \<and>
     il_count l = length ps \<and> (\<forall>p\<in>set (il_ending l # ps). p < sz_range)"

definition il_unowned :: "iheap \<Rightarrow> nat \<Rightarrow> bool" where
  "il_unowned h p \<longleftrightarrow> p \<noteq> 0 \<and> p < sz_range \<and> ih_live h p \<and> ih_owner h p = 0"

text \<open>Only links of the nodes in A changed.\<close>

definition il_frame :: "nat set \<Rightarrow> iheap \<Rightarrow> iheap \<Rightarrow> bool" where
  "il_frame A h h' \<longleftrightarrow> ih_live h' = ih_live h \<and>
     (\<forall>q. q \<notin> A \<longrightarrow> ih_next h' q = ih_next h q \<and> ih_prev h' q = ih_prev h q)"

lemma il_rep_owner: "il_rep h l ps \<Longrightarrow> q \<in> set (il_ending l # ps) \<Longrightarrow> ih_owner h q = il_this l"
  by (auto simp: il_rep_def)

lemma il_rep_distinct: "il_rep h l ps \<Longrightarrow> distinct ps"
  by (simp add: il_rep_def)

lemma il_rep_count: "il_rep h l ps \<Longrightarrow> il_count l = length ps"
  by (simp add: il_rep_def)

lemma il_rep_disjoint:
  "il_rep h l ps \<Longrightarrow> il_rep h l2 qs \<Longrightarrow> il_this l2 \<noteq> il_this l \<Longrightarrow>
   set (il_ending l # ps) \<inter> set (il_ending l2 # qs) = {}"
  using il_rep_owner [of h l ps] il_rep_owner [of h l2 qs] by (metis disjoint_iff)

text \<open>A list is untouched by changes to nodes of other lists and to nodes that no list owns.\<close>

lemma il_rep_frame:
  assumes "il_rep h l2 qs" "il_frame A h h'" "ih_owner h' = (ih_owner h)(p := w)"
    and "w \<noteq> il_this l2" "p \<notin> set (il_ending l2 # qs)" "A \<inter> set (il_ending l2 # qs) = {}" "ih_live h p"
  shows "il_rep h' l2 qs"
proof -
  have same: "ih_next h' q = ih_next h q" "ih_prev h' q = ih_prev h q" if "q \<in> set (il_ending l2 # qs)" for q
    using that assms(2,6) by (auto simp: il_frame_def)
  have "chain (ih_next h') (il_head l2) qs (il_ending l2) = chain (ih_next h) (il_head l2) qs (il_ending l2)"
    "back_chain (ih_prev h') 0 qs = back_chain (ih_prev h) 0 qs"
    using same by (auto intro!: chain_cong back_chain_cong)
  moreover have "ih_live h' q \<and> ih_owner h' q = il_this l2 \<longleftrightarrow> ih_live h q \<and> ih_owner h q = il_this l2" for q
    using assms by (auto simp: il_frame_def il_rep_def)
  ultimately show ?thesis
    using assms(1,2) same [of "il_ending l2"] by (simp add: il_rep_def il_frame_def)
qed

text \<open>Addresses are 32 bits wide, so a list of distinct nodes never overflows its counter.\<close>

lemma distinct_addresses:
  "distinct ps \<Longrightarrow> 0 \<notin> set ps \<Longrightarrow> \<forall>p\<in>set ps. p < sz_range \<Longrightarrow> length ps < sz_range"
proof -
  assume a: "distinct ps" "0 \<notin> set ps" "\<forall>p\<in>set ps. p < sz_range"
  then have "set ps \<subseteq> {0<..<sz_range}" by (auto intro!: Nat.gr0I)
  then have "card (set ps) \<le> card {0<..<sz_range}" by (intro card_mono) auto
  with a show ?thesis by (simp add: distinct_card)
qed

lemma il_rep_room: "il_rep h l ps \<Longrightarrow> Suc (length ps) < sz_range"
  using distinct_addresses [of "il_ending l # ps"] by (simp add: il_rep_def)

section \<open>Appending and removing keep the representation\<close>

lemma il_append_law:
  assumes "il_rep h l ps" "il_unowned h p"
  shows "ok (il_append_node (h, l) p) (\<lambda>(h', l'). il_rep h' l' (ps @ [p]) \<and> il_this l' = il_this l \<and>
     il_ending l' = il_ending l \<and> il_frame (set (il_ending l # p # ps)) h h' \<and>
     ih_owner h' = (ih_owner h)(p := il_this l))"
proof -
  have p: "p \<notin> set (il_ending l # ps)"
    using assms il_rep_owner [OF assms(1), of p] by (auto simp: il_rep_def il_unowned_def)
  note room = il_rep_room [OF assms(1)] and assms = assms [unfolded il_unowned_def]
  show ?thesis
  proof (cases ps rule: rev_cases)
    case Nil
    then have "il_head l = il_ending l" using assms(1) by (simp add: il_rep_def)
    with Nil assms p room show ?thesis
      by (auto simp: il_append_node_def il_rep_def run_simps Let_def il_frame_def sz_simps)
  next
    case (snoc us u)
    then have "il_head l \<noteq> il_ending l" using assms(1) by (cases us) (auto simp: il_rep_def)
    with snoc assms p room show ?thesis
      by (auto simp: il_append_node_def il_rep_def run_simps Let_def il_frame_def sz_simps chain_append
          back_chain_append)
  qed
qed

lemma il_append_owned:
  "p \<noteq> 0 \<Longrightarrow> ih_live h p \<Longrightarrow> ih_owner h p \<noteq> 0 \<Longrightarrow> il_append_node (h, l) p = Inl AssertFailed"
  by (simp add: il_append_node_def in_owner_def)

lemma il_valid_node: "il_rep h l ps \<Longrightarrow> p \<in> set ps \<Longrightarrow> il_is_valid_node h l p = Inr True"
proof -
  assume a: "il_rep h l ps" "p \<in> set ps"
  obtain i where i: "i < length ps" "ps ! i = p" using a(2) by (metis in_set_conv_nth)
  have d: "distinct (ps @ [il_ending l])" and c: "chain (ih_next h) (il_head l) ps (il_ending l)"
    using a(1) by (auto simp: il_rep_def)
  have "(ps @ [il_ending l]) ! Suc i \<noteq> (ps @ [il_ending l]) ! i"
    using nth_eq_iff_index_eq [OF d, of "Suc i" i] i by simp
  then have "ih_next h p \<noteq> p" using chain_next_nth [OF c i(1)] i by (simp add: nth_append)
  moreover have "p \<noteq> 0" using a by (metis il_rep_def list.set_intros(2))
  ultimately show ?thesis using a by (auto simp: il_is_valid_node_def in_next_def in_owner_def il_rep_def)
qed

lemma il_remove_law:
  assumes "il_rep h l ps" "p \<in> set ps"
  shows "ok (il_remove_node (h, l) p) (\<lambda>(h', l'). il_rep h' l' (remove1 p ps) \<and> il_this l' = il_this l \<and>
     il_ending l' = il_ending l \<and> il_frame (set (il_ending l # ps)) h h' \<and>
     ih_owner h' = (ih_owner h)(p := 0))"
proof -
  obtain us vs where ps: "ps = us @ p # vs" using assms(2) by (meson split_list)
  then have r: "remove1 p ps = us @ vs" using assms(1) by (auto simp: il_rep_def remove1_append)
  note v = il_valid_node [OF assms] and room = il_rep_room [OF assms(1)]
  consider "us = []" "vs = []" | v' vs' where "us = []" "vs = v' # vs'"
    | us' u where "us = us' @ [u]" "vs = []" | us' u v' vs' where "us = us' @ [u]" "vs = v' # vs'"
    by (metis neq_Nil_conv rev_exhaust)
  then show ?thesis
  proof cases
    case 1
    with v ps r room assms(1) show ?thesis
      by (auto simp: il_remove_node_def il_rep_def run_simps Let_def il_frame_def sz_simps)
  next
    case 2
    have "il_tail l \<noteq> p" using 2 ps assms(1) by (cases vs' rule: rev_cases) (auto simp: il_rep_def)
    with 2 v ps r room assms(1) show ?thesis
      by (auto simp: il_remove_node_def il_rep_def run_simps Let_def il_frame_def sz_simps)
  next
    case 3
    have "il_head l \<noteq> p" using 3 ps assms(1) by (cases us') (auto simp: il_rep_def)
    with 3 v ps r room assms(1) show ?thesis
      by (auto simp: il_remove_node_def il_rep_def run_simps Let_def il_frame_def sz_simps chain_append
          back_chain_append)
  next
    case 4
    have "il_head l \<noteq> p" using 4 ps assms(1) by (cases us') (auto simp: il_rep_def)
    moreover have "il_tail l \<noteq> p" using 4 ps assms(1) by (auto simp: il_rep_def)
    ultimately show ?thesis using 4 v ps r room assms(1)
      by (auto simp: il_remove_node_def il_rep_def run_simps Let_def il_frame_def sz_simps chain_append
          back_chain_append)
  qed
qed

lemma il_remove_foreign:
  assumes "il_rep h l ps" "p \<noteq> 0" "ih_live h p" "p \<notin> set ps"
  shows "il_remove_node (h, l) p = Inl AssertFailed"
proof (cases "p = il_ending l")
  case True
  with assms show ?thesis
    by (simp add: il_remove_node_def il_is_valid_node_def in_next_def il_rep_def)
next
  case False
  then have "ih_owner h p \<noteq> il_this l" using assms by (auto simp: il_rep_def)
  with assms show ?thesis by (simp add: il_remove_node_def il_is_valid_node_def in_next_def in_owner_def)
qed

section \<open>The lists of one heap own their nodes\<close>

lemma il_rep_head: "il_rep h l ps \<Longrightarrow> il_head l = hd (ps @ [il_ending l])"
  by (auto simp: il_rep_def dest: chain_hd)

lemma il_rep_head_nz: "il_rep h l ps \<Longrightarrow> il_head l \<noteq> 0"
  using il_rep_head [of h l ps] by (cases ps) (auto simp: il_rep_def)

interpretation il: owned_lists il_push_back il_remove il_rep il_this il_unowned
proof (unfold_locales, goal_cases)
  case (1 h l ps p)
  from il_append_law [OF 1] show ?case
    unfolding il_push_back_def
  proof (rule ok_mono)
    fix s assume "case s of (h', l') \<Rightarrow> il_rep h' l' (ps @ [p]) \<and> il_this l' = il_this l \<and>
     il_ending l' = il_ending l \<and> il_frame (set (il_ending l # p # ps)) h h' \<and> ih_owner h' = (ih_owner h)(p := il_this l)"
    then obtain h' l' where s: "s = (h', l')" "il_rep h' l' (ps @ [p])" "il_this l' = il_this l"
      "il_frame (set (il_ending l # p # ps)) h h'" "ih_owner h' = (ih_owner h)(p := il_this l)" by auto
    have "il_rep h' l2 qs" if "il_rep h l2 qs" "il_this l2 \<noteq> il_this l" for l2 qs
    proof -
      have "p \<notin> set (il_ending l2 # qs)" "ih_live h p"
        using that(1) 1(2) il_rep_owner [OF that(1), of p] by (auto simp: il_unowned_def il_rep_def)
      with il_rep_frame [OF that(1) s(4,5)] il_rep_disjoint [OF 1(1) that] that(2) show ?thesis by auto
    qed
    moreover have "il_unowned h' q \<longleftrightarrow> il_unowned h q \<and> q \<noteq> p" for q
      using s(4,5) 1(1) by (auto simp: il_unowned_def il_frame_def il_rep_def)
    ultimately show "case s of (h', l') \<Rightarrow> il_rep h' l' (ps @ [p]) \<and> il_this l' = il_this l \<and>
      (\<forall>q. il_unowned h' q \<longleftrightarrow> il_unowned h q \<and> q \<noteq> p) \<and>
      (\<forall>l2 qs. il_rep h l2 qs \<and> il_this l2 \<noteq> il_this l \<longrightarrow> il_rep h' l2 qs)" using s by auto
  qed
next
  case (2 h l ps p)
  have nz: "il_head (snd (h, l)) \<noteq> 0" using il_rep_head_nz [OF 2(1)] by simp
  from il_remove_law [OF 2] have "ok (il_remove_node (h, l) p) (\<lambda>(h', l'). il_rep h' l' (remove1 p ps) \<and>
     il_this l' = il_this l \<and> (\<forall>q. il_unowned h' q \<longleftrightarrow> il_unowned h q \<or> q = p) \<and>
     (\<forall>l2 qs. il_rep h l2 qs \<and> il_this l2 \<noteq> il_this l \<longrightarrow> il_rep h' l2 qs))"
  proof (rule ok_mono)
    fix s assume "case s of (h', l') \<Rightarrow> il_rep h' l' (remove1 p ps) \<and> il_this l' = il_this l \<and>
     il_ending l' = il_ending l \<and> il_frame (set (il_ending l # ps)) h h' \<and> ih_owner h' = (ih_owner h)(p := 0)"
    then obtain h' l' where s: "s = (h', l')" "il_rep h' l' (remove1 p ps)" "il_this l' = il_this l"
      "il_frame (set (il_ending l # ps)) h h'" "ih_owner h' = (ih_owner h)(p := 0)" by auto
    have pl: "ih_live h p" "p \<noteq> 0" "p < sz_range" using 2 unfolding il_rep_def by (auto intro!: Nat.gr0I)
    have "il_rep h' l2 qs" if "il_rep h l2 qs" "il_this l2 \<noteq> il_this l" for l2 qs
    proof -
      note d = il_rep_disjoint [OF 2(1) that]
      then have "p \<notin> set (il_ending l2 # qs)" "0 \<noteq> il_this l2" using 2(2) that(1) by (auto simp: il_rep_def)
      with il_rep_frame [OF that(1) s(4,5)] d pl show ?thesis by auto
    qed
    moreover have "il_unowned h' q \<longleftrightarrow> il_unowned h q \<or> q = p" for q
      using s(4,5) pl by (auto simp: il_unowned_def il_frame_def)
    ultimately show "case s of (h', l') \<Rightarrow> il_rep h' l' (remove1 p ps) \<and> il_this l' = il_this l \<and>
      (\<forall>q. il_unowned h' q \<longleftrightarrow> il_unowned h q \<or> q = p) \<and>
      (\<forall>l2 qs. il_rep h l2 qs \<and> il_this l2 \<noteq> il_this l \<longrightarrow> il_rep h' l2 qs)" using s by auto
  qed
  with nz show ?case by (simp add: il_remove_def)
next
  case (3 h l ps p)
  then show ?case using il_rep_owner [of h l ps p] by (auto simp: il_unowned_def il_rep_def)
next
  case (4 h l ps)
  then show ?case by (rule il_rep_distinct)
next
  case (5 h l ps l2 qs)
  then show ?case using il_rep_disjoint [of h l ps l2 qs] by auto
qed

section \<open>Iterators\<close>

definition il_node :: "ilist \<Rightarrow> nat list \<Rightarrow> nat \<Rightarrow> nat" where
  "il_node l ps k = (ps @ [il_ending l]) ! k"

lemma il_begin_law: "il_rep h l ps \<Longrightarrow> il_begin l = Inr (il_node l ps 0)"
  using il_rep_head [of h l ps] il_rep_head_nz [of h l ps]
  by (cases ps) (simp_all add: il_begin_def il_iter_def il_node_def)

lemma il_end_law: "il_rep h l ps \<Longrightarrow> il_end l = Inr (il_ending l)"
  by (simp add: il_end_def il_iter_def il_rep_def)

lemma il_node_nz: "il_rep h l ps \<Longrightarrow> k \<le> length ps \<Longrightarrow> il_node l ps k \<noteq> 0 \<and> ih_live h (il_node l ps k)"
  using nth_mem [of k "ps @ [il_ending l]"] by (auto simp: il_node_def il_rep_def intro!: Nat.gr0I)

lemma il_inc_law: "il_rep h l ps \<Longrightarrow> k < length ps \<Longrightarrow> il_it_inc h (il_node l ps k) = Inr (il_node l ps (Suc k))"
  using il_node_nz [of h l ps k] il_node_nz [of h l ps "Suc k"]
    chain_next_nth [of "ih_next h" "il_head l" ps "il_ending l" k]
  by (auto simp: il_it_inc_def in_next_def il_iter_def il_rep_def il_node_def nth_append)

lemma il_inc_end: "il_rep h l ps \<Longrightarrow> il_it_inc h (il_ending l) = Inr (il_ending l)"
  by (simp add: il_it_inc_def in_next_def il_iter_def il_rep_def)

lemma il_deref_law:
  assumes "il_rep h l ps" "p \<in> set ps" shows "il_deref h p = Inr p"
proof -
  have "il_is_valid_node h l p = Inr True" by (rule il_valid_node [OF assms])
  moreover have "p \<noteq> 0" "ih_live h p" using assms unfolding il_rep_def by (auto intro!: Nat.gr0I)
  moreover have "ih_owner h p \<noteq> 0" using assms il_rep_owner [OF assms(1), of p] by (auto simp: il_rep_def)
  ultimately show ?thesis
    by (auto simp: il_deref_def il_is_valid_node_def in_next_def in_owner_def split: if_splits)
qed

lemma il_find_law:
  assumes "il_rep h l ps" "p \<noteq> 0" "ih_live h p" "p \<noteq> il_ending l"
  shows "il_find h l p = Inr (if p \<in> set ps then p else il_ending l)"
  using assms by (auto simp: il_find_def in_owner_def il_iter_def il_end_law [OF assms(1)] il_rep_def)

lemma il_node_ending: "il_rep h l ps \<Longrightarrow> k \<le> length ps \<Longrightarrow> il_node l ps k = il_ending l \<longleftrightarrow> k = length ps"
  by (auto simp: il_node_def nth_append il_rep_def in_set_conv_nth)

text \<open>A range-based for loop over a list that its body does not change: the nodes in order.\<close>

fun il_visit :: "nat \<Rightarrow> iheap \<Rightarrow> ilist \<Rightarrow> nat \<Rightarrow> nat list run" where
  "il_visit fuel h l i = (if i = il_ending l then Inr [] else case fuel of 0 \<Rightarrow> Inl OutOfFuel
     | Suc fuel' \<Rightarrow> bindr (il_deref h i) (\<lambda>p. bindr (il_it_inc h i) (\<lambda>i'.
         bindr (il_visit fuel' h l i') (\<lambda>ps. Inr (p # ps)))))"

declare il_visit.simps [simp del]

lemma il_visit_law:
  "il_rep h l ps \<Longrightarrow> k \<le> length ps \<Longrightarrow> length ps - k \<le> fuel \<Longrightarrow> il_visit fuel h l (il_node l ps k) = Inr (drop k ps)"
proof (induction fuel arbitrary: k)
  case 0
  then show ?case using il_node_ending [of h l ps k] by (simp add: il_visit.simps)
next
  case (Suc fuel)
  show ?case
  proof (cases "k = length ps")
    case True
    with Suc.prems il_node_ending [of h l ps k] show ?thesis by (simp add: il_visit.simps)
  next
    case False
    then have k: "k < length ps" using Suc.prems by simp
    then have n: "il_node l ps k = ps ! k" "ps ! k \<in> set ps" "il_node l ps k \<noteq> il_ending l"
      using il_node_ending [OF Suc.prems(1), of k] by (simp_all add: il_node_def nth_append)
    have "il_visit fuel h l (il_node l ps (Suc k)) = Inr (drop (Suc k) ps)"
      using Suc.IH [of "Suc k"] Suc.prems k by simp
    with n k il_inc_law [OF Suc.prems(1) k] il_deref_law [OF Suc.prems(1) n(2)] show ?thesis
      by (simp add: il_visit.simps Cons_nth_drop_Suc)
  qed
qed

section \<open>Properties\<close>

text \<open>
  Client calls on one list, and what they mean for the sequence of nodes ps and the set free of
  the nodes that no list owns. A call that breaks the owner discipline is an assertion failure.
\<close>

datatype ilop = PushBack nat | Remove nat | PopFront

fun il_run :: "ilop list \<Rightarrow> iheap \<times> ilist \<Rightarrow> (nat list \<times> iheap \<times> ilist) run" where
  "il_run [] s = Inr ([], s)"
| "il_run (PushBack p # ops) s = bindr (il_push_back s p) (il_run ops)"
| "il_run (Remove p # ops) s = bindr (il_remove s p) (il_run ops)"
| "il_run (PopFront # ops) s = bindr (il_pop_front s) (\<lambda>(p, s'). bindr (il_run ops s') (\<lambda>(ys, s''). Inr (p # ys, s'')))"

fun il_spec :: "ilop list \<Rightarrow> nat list \<Rightarrow> (nat \<Rightarrow> bool) \<Rightarrow> (nat list \<times> nat list) run" where
  "il_spec [] ps free = Inr ([], ps)"
| "il_spec (PushBack p # ops) ps free =
     (if free p then il_spec ops (ps @ [p]) (free(p := False)) else Inl AssertFailed)"
| "il_spec (Remove p # ops) ps free =
     (if p \<in> set ps then il_spec ops (remove1 p ps) (free(p := True)) else Inl AssertFailed)"
| "il_spec (PopFront # ops) ps free = (case ps of [] \<Rightarrow> Inl AssertFailed
     | p # ps' \<Rightarrow> bindr (il_spec ops ps' (free(p := True))) (\<lambda>(ys, qs). Inr (p # ys, qs)))"

fun il_op_nodes :: "ilop \<Rightarrow> nat list" where
  "il_op_nodes (PushBack p) = [p]"
| "il_op_nodes (Remove p) = [p]"
| "il_op_nodes PopFront = []"

lemma il_push_run:
  assumes "il_rep h l ps" "il_unowned h p"
  obtains h' l' where "il_push_back (h, l) p = Inr (h', l')" "il_rep h' l' (ps @ [p])"
    "il_unowned h' = (il_unowned h)(p := False)" "ih_live h' = ih_live h" "il_ending l' = il_ending l"
proof -
  from il_append_law [OF assms] obtain h' l' where a: "il_push_back (h, l) p = Inr (h', l')" "il_rep h' l' (ps @ [p])"
    "ih_live h' = ih_live h" "il_ending l' = il_ending l" "ih_owner h' = (ih_owner h)(p := il_this l)"
    by (auto simp: ok_iff il_push_back_def il_frame_def)
  have "il_this l \<noteq> 0" using assms(1) by (simp add: il_rep_def)
  with a that show ?thesis by (auto simp: il_unowned_def fun_eq_iff)
qed

lemma il_remove_run:
  assumes "il_rep h l ps" "p \<in> set ps"
  obtains h' l' where "il_remove (h, l) p = Inr (h', l')" "il_rep h' l' (remove1 p ps)"
    "il_unowned h' = (il_unowned h)(p := True)" "ih_live h' = ih_live h" "il_ending l' = il_ending l"
proof -
  have p: "p \<noteq> 0" "p < sz_range" "ih_live h p" using assms unfolding il_rep_def by (auto intro!: Nat.gr0I)
  from il_remove_law [OF assms] il_rep_head_nz [OF assms(1)] obtain h' l' where
    a: "il_remove (h, l) p = Inr (h', l')" "il_rep h' l' (remove1 p ps)"
    "ih_live h' = ih_live h" "il_ending l' = il_ending l" "ih_owner h' = (ih_owner h)(p := 0)"
    by (auto simp: ok_iff il_remove_def il_frame_def)
  with that p show ?thesis by (auto simp: il_unowned_def fun_eq_iff)
qed

lemma il_pop_front_is_remove:
  "il_rep h l (p # ps) \<Longrightarrow> il_pop_front (h, l) = bindr (il_remove (h, l) p) (\<lambda>s'. Inr (p, s'))"
  using il_rep_head [of h l "p # ps"] il_rep_head_nz [of h l "p # ps"]
  by (auto simp: il_pop_front_def il_remove_def il_rep_def)

lemma il_run_spec:
  "il_rep h l ps \<Longrightarrow> \<forall>p\<in>set (concat (map il_op_nodes ops)). 0 < p \<and> p < sz_range \<and> ih_live h p \<and> p \<noteq> il_ending l \<Longrightarrow>
   (case il_spec ops ps (il_unowned h) of
      Inl e \<Rightarrow> il_run ops (h, l) = Inl e
    | Inr (ys, qs) \<Rightarrow> ok (il_run ops (h, l)) (\<lambda>(zs, h', l'). zs = ys \<and> il_rep h' l' qs))"
proof (induction ops arbitrary: h l ps)
  case (Cons op ops)
  have nodes: "\<forall>p\<in>set (concat (map il_op_nodes ops)). 0 < p \<and> p < sz_range \<and> ih_live h p \<and> p \<noteq> il_ending l"
    using Cons.prems(2) by simp
  have step: "case il_spec ops qs (il_unowned h') of Inl e \<Rightarrow> il_run ops (h', l') = Inl e
    | Inr (ys, qs') \<Rightarrow> ok (il_run ops (h', l')) (\<lambda>(zs, h', l'). zs = ys \<and> il_rep h' l' qs')"
    if "il_rep h' l' qs" "ih_live h' = ih_live h" "il_ending l' = il_ending l" for h' l' qs
    using Cons.IH [OF that(1)] nodes that(2,3) by simp
  show ?case
  proof (cases op)
    case (PushBack p)
    show ?thesis
    proof (cases "il_unowned h p")
      case True
      from Cons.prems(1) True obtain h' l' where "il_push_back (h, l) p = Inr (h', l')" "il_rep h' l' (ps @ [p])"
        "il_unowned h' = (il_unowned h)(p := False)" "ih_live h' = ih_live h" "il_ending l' = il_ending l"
        by (rule il_push_run)
      with step [of h' l' "ps @ [p]"] PushBack True show ?thesis by (auto split: sum.splits)
    next
      case False
      with PushBack Cons.prems(2) have "il_append_node (h, l) p = Inl AssertFailed"
        by (intro il_append_owned) (auto simp: il_unowned_def)
      with PushBack False show ?thesis by (simp add: il_push_back_def)
    qed
  next
    case (Remove p)
    show ?thesis
    proof (cases "p \<in> set ps")
      case True
      from Cons.prems(1) True obtain h' l' where "il_remove (h, l) p = Inr (h', l')" "il_rep h' l' (remove1 p ps)"
        "il_unowned h' = (il_unowned h)(p := True)" "ih_live h' = ih_live h" "il_ending l' = il_ending l"
        by (rule il_remove_run)
      with step [of h' l' "remove1 p ps"] Remove True show ?thesis by (auto split: sum.splits)
    next
      case False
      with Remove Cons.prems il_remove_foreign [OF Cons.prems(1)] il_rep_head_nz [OF Cons.prems(1)]
      show ?thesis by (simp add: il_remove_def)
    qed
  next
    case PopFront
    show ?thesis
    proof (cases ps)
      case Nil
      with PopFront Cons.prems(1) il_rep_head [OF Cons.prems(1)] show ?thesis by (simp add: il_pop_front_def)
    next
      case ps: (Cons p qs)
      then have "p \<in> set ps" "remove1 p ps = qs" by auto
      with Cons.prems(1) obtain h' l' where r: "il_remove (h, l) p = Inr (h', l')" "il_rep h' l' qs"
        "il_unowned h' = (il_unowned h)(p := True)" "ih_live h' = ih_live h" "il_ending l' = il_ending l"
        by (metis il_remove_run)
      with step [OF r(2,4,5)] PopFront ps il_pop_front_is_remove [of h l p qs] Cons.prems(1) show ?thesis
        by (auto simp: ok_iff split: sum.splits)
    qed
  qed
qed (simp add: run_simps)

text \<open>
  The list object of a fresh heap: nodes at the even addresses below 100, none in a list; the
  ending node is at address 101, the list object at 100.
\<close>

definition demo_heap :: "iheap \<times> ilist" where
  "demo_heap = il_new \<lparr>ih_next = (\<lambda>_. 0), ih_prev = (\<lambda>_. 0), ih_owner = (\<lambda>_. 0), ih_live = (\<lambda>p. even p \<and> 0 < p \<and> p < 100)\<rparr> 100 101"

text \<open>
  (C3) For every sequence of \<open>push_back\<close>, \<open>remove\<close> and \<open>pop_front\<close> calls on existing nodes, the
  intrusive list behaves as the sequence of its nodes: it returns the same nodes, fails an
  assertion exactly when a node that some list already owns is appended or a node of no or
  another list is removed or the list is empty, and never touches an invalid pointer.
\<close>

theorem intrusive_list_refinement:
  assumes "il_rep h l ps"
    and "\<forall>p\<in>set (concat (map il_op_nodes ops)). 0 < p \<and> p < sz_range \<and> ih_live h p \<and> p \<noteq> il_ending l"
  shows "case il_spec ops ps (il_unowned h) of
      Inl e \<Rightarrow> il_run ops (h, l) = Inl e
    | Inr (ys, qs) \<Rightarrow> ok (il_run ops (h, l)) (\<lambda>(zs, h', l'). zs = ys \<and> il_rep h' l' qs)"
  by (rule il_run_spec [OF assms])

lemma il_new_rep:
  assumes "this \<noteq> 0" "ending \<noteq> 0" "ending < sz_range" "\<forall>q. ih_live h q \<longrightarrow> q \<noteq> ending \<longrightarrow> ih_owner h q \<noteq> this"
  shows "il_rep (fst (il_new h this ending)) (snd (il_new h this ending)) []"
  using assms by (auto simp: il_new_def node_init_def il_rep_def)

lemma demo_heap_rep: "il_rep (fst demo_heap) (snd demo_heap) []"
  by (simp add: demo_heap_def il_new_rep)

theorem intrusive_list_refinement_witness:
  "ok (il_run [PushBack 2, PushBack 4, PushBack 6, Remove 4, PopFront] demo_heap) (\<lambda>(zs, h', l'). zs = [2] \<and> il_rep h' l' [6])"
proof -
  have h: "ih_live (fst demo_heap) 2 \<and> ih_live (fst demo_heap) 4 \<and> ih_live (fst demo_heap) 6 \<and> il_ending (snd demo_heap) = 101 \<and>
    il_unowned (fst demo_heap) 2 \<and> il_unowned (fst demo_heap) 4 \<and> il_unowned (fst demo_heap) 6"
    by (simp add: demo_heap_def il_new_def node_init_def il_unowned_def)
  with intrusive_list_refinement [OF demo_heap_rep, of "[PushBack 2, PushBack 4, PushBack 6, Remove 4, PopFront]"]
  show ?thesis by simp
qed

text \<open>
  Iterating over the list visits exactly its nodes, in order, every dereference passing the
  validity assertion; \<open>find\<close> gives an iterator to a node of the list and \<open>end()\<close> for every other
  node; dereferencing \<open>end()\<close> is an assertion failure.
\<close>

theorem intrusive_list_iteration:
  assumes "il_rep h l ps"
  shows "bindr (il_begin l) (il_visit (il_size l) h l) = Inr ps \<and>
    bindr (il_end l) (il_deref h) = Inl AssertFailed \<and>
    (\<forall>p. p \<noteq> 0 \<and> ih_live h p \<and> p \<noteq> il_ending l \<longrightarrow> il_find h l p = (if p \<in> set ps then Inr p else il_end l)) \<and>
    il_is_empty l = (ps = [])"
proof (intro conjI allI impI)
  show "bindr (il_begin l) (il_visit (il_size l) h l) = Inr ps"
    using il_visit_law [OF assms, of 0 "il_size l"] il_rep_count [OF assms]
    by (simp add: il_begin_law [OF assms] il_size_def)
  show "bindr (il_end l) (il_deref h) = Inl AssertFailed"
    using assms il_rep_owner [OF assms, of "il_ending l"]
    by (simp add: il_end_law [OF assms] il_deref_def in_owner_def in_next_def il_rep_def)
  show "il_is_empty l = (ps = [])" using il_rep_count [OF assms] by (simp add: il_is_empty_def)
  fix p assume "p \<noteq> 0 \<and> ih_live h p \<and> p \<noteq> il_ending l"
  then show "il_find h l p = (if p \<in> set ps then Inr p else il_end l)"
    using il_find_law [OF assms, of p] il_end_law [OF assms] by simp
qed

theorem intrusive_list_iteration_witness:
  "il_is_empty (snd demo_heap) \<and> bindr (il_end (snd demo_heap)) (il_deref (fst demo_heap)) = Inl AssertFailed"
  using intrusive_list_iteration [OF demo_heap_rep] by simp

text \<open>
  A list that was move-constructed from a non-empty one can never give up its nodes: the
  owner pointers still name the old list, so \<open>remove\<close> and \<open>pop_front\<close> fail their assertion.
\<close>

theorem intrusive_move_breaks_remove:
  assumes "il_rep h ot (p # ps)" "this \<noteq> il_this ot" "ending \<noteq> 0" "\<not> ih_live h ending"
  shows "bindr (il_move h ot this ending) (\<lambda>(h', l', _). il_pop_front (h', l')) = Inl AssertFailed"
proof -
  have t: "il_tail ot \<in> set (p # ps)" "il_head ot = p" "il_tail ot = last (p # ps)"
    using assms(1) by (auto simp: il_rep_def)
  have lv: "ih_live h q" "q \<noteq> 0" "ih_owner h q = il_this ot" if "q \<in> set (p # ps)" for q
    using that assms(1) unfolding il_rep_def by (auto intro!: Nat.gr0I)
  have ne: "p \<noteq> ending" "il_tail ot \<noteq> ending" using lv(1) t(1) assms(4) by auto
  show ?thesis using lv [OF t(1)] lv [of p] t ne assms
    by (auto simp: il_move_def set_in_next_def node_init_def il_pop_front_def il_remove_node_def Let_def
        il_is_valid_node_def in_next_def in_owner_def)
qed

theorem intrusive_move_breaks_remove_witness:
  "bindr (il_push_back demo_heap 2) (\<lambda>(h, l). bindr (il_move h l 102 103) (\<lambda>(h', l', _). il_pop_front (h', l'))) = Inl AssertFailed"
proof -
  have "il_unowned (fst demo_heap) 2" by (simp add: demo_heap_def il_new_def node_init_def il_unowned_def)
  from il_append_law [OF demo_heap_rep this] obtain h l where
    p: "il_push_back demo_heap 2 = Inr (h, l)" "il_rep h l [2]" "il_this l = 100" "ih_live h = ih_live (fst demo_heap)"
    by (auto simp: ok_iff il_push_back_def il_frame_def demo_heap_def il_new_def)
  have "\<not> ih_live h 103" using p(4) by (simp add: demo_heap_def il_new_def node_init_def)
  with intrusive_move_breaks_remove [OF p(2), of 102 103] p(1,3) show ?thesis by simp
qed

text \<open>
  \<open>m_ending_node.prev\<close> is not maintained: after the first \<open>push_back\<close> to an empty list,
  \<open>--end()\<close> is \<open>end()\<close> again and not the appended node.
\<close>

theorem intrusive_end_decrement_stale:
  assumes "this \<noteq> 0" "ending \<noteq> 0" "ending < sz_range"
    and "\<forall>q. ih_live h q \<longrightarrow> q \<noteq> ending \<longrightarrow> ih_owner h q \<noteq> this"
    and "p \<noteq> 0" "p \<noteq> ending" "ih_live h p" "ih_owner h p = 0"
  shows "bindr (il_push_back (il_new h this ending) p) (\<lambda>(h', l'). bindr (il_end l') (il_it_dec h')) = Inr ending"
  using assms
  by (auto simp: il_new_def node_init_def il_push_back_def il_append_node_def Let_def in_owner_def set_in_owner_def
      set_in_prev_def set_in_next_def il_end_def il_iter_def il_it_dec_def in_prev_def)

theorem intrusive_end_decrement_stale_witness:
  "bindr (il_push_back demo_heap 2) (\<lambda>(h', l'). bindr (il_end l') (il_it_dec h')) = Inr 101"
  unfolding demo_heap_def by (rule intrusive_end_decrement_stale) auto

end
