(* ===== verification/Cpu_Tables.thy ===== *)
theory Cpu_Tables
  imports Prelude
begin

unbundle bit_operations_syntax

text \<open>
  The x86 tables and frames of kernel/arch/x86: segment descriptors (gdt.h, gdt.cpp), interrupt
  gates (idt.h, idt.cpp), the interrupt dispatcher (isr.h, isr.cpp), the interrupt controller's
  masks and acknowledgements (pic.h, pic.cpp) and the initial context of a thread (context.h,
  context.cpp). How the processor reads a descriptor is \<open>gdt_base\<close>, \<open>gdt_limit\<close> and \<open>idt_offset\<close>;
  port output is the list of (port, value) pairs written, port input a parameter.
\<close>

section \<open>Segment descriptors\<close>

definition SEGMENT_SELECTOR :: "16 word \<Rightarrow> 16 word \<Rightarrow> 16 word" where
  "SEGMENT_SELECTOR index prv_level = push_bit 3 index OR prv_level"

definition SEGMENT_INDEX :: "16 word \<Rightarrow> 16 word" where
  "SEGMENT_INDEX segment = drop_bit 3 segment"

definition KCS_SELECTOR :: "16 word" where "KCS_SELECTOR = SEGMENT_SELECTOR 1 0"
definition KDS_SELECTOR :: "16 word" where "KDS_SELECTOR = SEGMENT_SELECTOR 2 0"
definition UCS_SELECTOR :: "16 word" where "UCS_SELECTOR = SEGMENT_SELECTOR 3 3"
definition UDS_SELECTOR :: "16 word" where "UDS_SELECTOR = SEGMENT_SELECTOR 4 3"
definition TSS_SELECTOR :: "16 word" where "TSS_SELECTOR = SEGMENT_SELECTOR 5 3"
definition TIB_SELECTOR :: "16 word" where "TIB_SELECTOR = SEGMENT_SELECTOR 6 3"
definition PIB_SELECTOR :: "16 word" where "PIB_SELECTOR = SEGMENT_SELECTOR 7 3"

definition SEG_DESCTYPE :: "8 word \<Rightarrow> 8 word" where "SEG_DESCTYPE x = push_bit 4 (x AND 1)"
definition SEG_PRES :: "8 word \<Rightarrow> 8 word" where "SEG_PRES x = push_bit 7 (x AND 1)"
definition SEG_PRIV :: "8 word \<Rightarrow> 8 word" where "SEG_PRIV x = push_bit 5 (x AND 3)"

definition SEG_DATA_RDWR :: "8 word" where "SEG_DATA_RDWR = 0x02"
definition SEG_CODE_EXRDA :: "8 word" where "SEG_CODE_EXRDA = 0x0B"
definition SEG_TSS_AVAILABLE :: "8 word" where "SEG_TSS_AVAILABLE = 0x9"

definition GDT_CODE_PL0 :: "8 word" where "GDT_CODE_PL0 = SEG_DESCTYPE 1 OR SEG_PRES 1 OR SEG_PRIV 0 OR SEG_CODE_EXRDA"
definition GDT_DATA_PL0 :: "8 word" where "GDT_DATA_PL0 = SEG_DESCTYPE 1 OR SEG_PRES 1 OR SEG_PRIV 0 OR SEG_DATA_RDWR"
definition GDT_CODE_PL3 :: "8 word" where "GDT_CODE_PL3 = SEG_DESCTYPE 1 OR SEG_PRES 1 OR SEG_PRIV 3 OR SEG_CODE_EXRDA"
definition GDT_DATA_PL3 :: "8 word" where "GDT_DATA_PL3 = SEG_DESCTYPE 1 OR SEG_PRES 1 OR SEG_PRIV 3 OR SEG_DATA_RDWR"
definition GDT_TSS_PL3 :: "8 word" where "GDT_TSS_PL3 = SEG_DESCTYPE 0 OR SEG_PRES 1 OR SEG_PRIV 3 OR SEG_TSS_AVAILABLE"

record gdt_entry =
  lim0_15 :: "16 word"
  base0_15 :: "16 word"
  base16_23 :: "8 word"
  ge_access :: "8 word"
  lim16_19 :: "4 word"
  ge_flags :: "4 word"
  base24_31 :: "8 word"

definition null_entry :: gdt_entry where
  "null_entry = \<lparr>lim0_15 = 0, base0_15 = 0, base16_23 = 0, ge_access = 0, lim16_19 = 0, ge_flags = 0, base24_31 = 0\<rparr>"

record tss =
  tss_prev_tss :: "32 word"
  tss_esp0 :: "32 word"
  tss_ss0 :: "32 word"
  tss_esp1 :: "32 word"
  tss_ss1 :: "32 word"
  tss_esp2 :: "32 word"
  tss_ss2 :: "32 word"
  tss_cr3 :: "32 word"
  tss_eip :: "32 word"
  tss_eflags :: "32 word"
  tss_eax :: "32 word"
  tss_ecx :: "32 word"
  tss_edx :: "32 word"
  tss_ebx :: "32 word"
  tss_esp :: "32 word"
  tss_ebp :: "32 word"
  tss_esi :: "32 word"
  tss_edi :: "32 word"
  tss_es :: "32 word"
  tss_cs :: "32 word"
  tss_ss :: "32 word"
  tss_ds :: "32 word"
  tss_fs :: "32 word"
  tss_gs :: "32 word"
  tss_ldt :: "32 word"
  tss_trap :: "16 word"
  tss_iomap_base :: "16 word"

definition zero_tss :: tss where
  "zero_tss = \<lparr>tss_prev_tss = 0, tss_esp0 = 0, tss_ss0 = 0, tss_esp1 = 0, tss_ss1 = 0, tss_esp2 = 0,
     tss_ss2 = 0, tss_cr3 = 0, tss_eip = 0, tss_eflags = 0, tss_eax = 0, tss_ecx = 0, tss_edx = 0, tss_ebx = 0,
     tss_esp = 0, tss_ebp = 0, tss_esi = 0, tss_edi = 0, tss_es = 0, tss_cs = 0, tss_ss = 0, tss_ds = 0, tss_fs = 0,
     tss_gs = 0, tss_ldt = 0, tss_trap = 0, tss_iomap_base = 0\<rparr>"

record gdt_state =
  g_entries :: "gdt_entry list"
  g_gdt_base :: "32 word"
  g_gdt_limit :: "16 word"
  g_tss :: tss
  g_segments :: "(16 word \<times> 16 word \<times> 16 word \<times> 16 word) option"  \<comment> \<open>cs, ds, fs, gs\<close>
  g_tr :: "16 word option"

text \<open>\<open>fill_gdt_entry\<close>; the bit fields truncate to four bits.\<close>

definition fill_gdt_entry :: "nat \<Rightarrow> 32 word \<Rightarrow> 32 word \<Rightarrow> 8 word \<Rightarrow> 8 word \<Rightarrow> gdt_entry list \<Rightarrow> gdt_entry list run" where
  "fill_gdt_entry i base limit access flags es =
     arr_set es i
       \<lparr>lim0_15 = ucast (limit AND 0xFFFF),
        base0_15 = ucast (base AND 0x0000FFFF),
        base16_23 = ucast (drop_bit 16 (base AND 0x00FF0000)),
        ge_access = access,
        lim16_19 = ucast (drop_bit 16 (limit AND 0x0F0000)),
        ge_flags = ucast flags,
        base24_31 = ucast (drop_bit 24 (base AND 0xFF000000))\<rparr>"

definition set_tss_stack :: "32 word \<Rightarrow> gdt_state \<Rightarrow> gdt_state" where
  "set_tss_stack kernel_stack g = g\<lparr>g_tss := zero_tss\<lparr>tss_esp0 := kernel_stack, tss_ss0 := ucast KDS_SELECTOR\<rparr>\<rparr>"

definition setup_tss :: "32 word \<Rightarrow> gdt_state \<Rightarrow> gdt_state" where
  "setup_tss kernel_stack g = (set_tss_stack kernel_stack g)\<lparr>g_tr := Some TSS_SELECTOR\<rparr>"

definition fill_gdt :: "32 word \<Rightarrow> 16 word \<Rightarrow> gdt_state \<Rightarrow> gdt_state" where
  "fill_gdt base limit g = g\<lparr>g_gdt_base := base, g_gdt_limit := limit\<rparr>"

definition load_fs :: "32 word \<Rightarrow> gdt_state \<Rightarrow> gdt_state run" where
  "load_fs address g =
     bindr (fill_gdt_entry (unat (SEGMENT_INDEX TIB_SELECTOR)) address 0xFFFFF GDT_DATA_PL3 0x0D (g_entries g))
       (\<lambda>es. Inr (g\<lparr>g_entries := es\<rparr>))"

definition load_gs :: "32 word \<Rightarrow> gdt_state \<Rightarrow> gdt_state run" where
  "load_gs address g =
     bindr (fill_gdt_entry (unat (SEGMENT_INDEX PIB_SELECTOR)) address 0xFFFFF GDT_DATA_PL3 0x0D (g_entries g))
       (\<lambda>es. Inr (g\<lparr>g_entries := es\<rparr>))"

text \<open>
  \<open>GDT::setup\<close>, with the addresses of the table and of the TSS. \<open>sizeof(GDT_ENTRY)\<close> is 8 and
  \<open>sizeof(TSS_ENTRY)\<close> is 104.
\<close>

definition gdt_setup :: "32 word \<Rightarrow> 32 word \<Rightarrow> gdt_state \<Rightarrow> gdt_state run" where
  "gdt_setup entries_addr tss_addr g = (let es = replicate 8 null_entry in
     bindr (fill_gdt_entry 0 0 0 0 0 es) (\<lambda>es.
     bindr (fill_gdt_entry (unat (SEGMENT_INDEX KCS_SELECTOR)) 0 0xFFFFF GDT_CODE_PL0 0x0D es) (\<lambda>es.
     bindr (fill_gdt_entry (unat (SEGMENT_INDEX KDS_SELECTOR)) 0 0xFFFFF GDT_DATA_PL0 0x0D es) (\<lambda>es.
     bindr (fill_gdt_entry (unat (SEGMENT_INDEX UCS_SELECTOR)) 0 0xFFFFF GDT_CODE_PL3 0x0D es) (\<lambda>es.
     bindr (fill_gdt_entry (unat (SEGMENT_INDEX UDS_SELECTOR)) 0 0xFFFFF GDT_DATA_PL3 0x0D es) (\<lambda>es.
     bindr (fill_gdt_entry (unat (SEGMENT_INDEX TSS_SELECTOR)) tss_addr 104 GDT_TSS_PL3 0 es) (\<lambda>es.
     bindr (fill_gdt_entry (unat (SEGMENT_INDEX TIB_SELECTOR)) 0 0xFFFFF GDT_DATA_PL3 0x0D es) (\<lambda>es.
     bindr (fill_gdt_entry (unat (SEGMENT_INDEX PIB_SELECTOR)) 0 0xFFFFF GDT_DATA_PL3 0x0D es) (\<lambda>es.
     Inr (setup_tss 0 ((fill_gdt entries_addr (8 * 8 - 1) g)
            \<lparr>g_entries := es, g_segments := Some (KCS_SELECTOR, KDS_SELECTOR, TIB_SELECTOR, PIB_SELECTOR)\<rparr>)))))))))))"

text \<open>What the processor reads from a descriptor.\<close>

definition gdt_base :: "gdt_entry \<Rightarrow> 32 word" where
  "gdt_base e = ucast (base0_15 e) OR push_bit 16 (ucast (base16_23 e)) OR push_bit 24 (ucast (base24_31 e))"

definition gdt_limit :: "gdt_entry \<Rightarrow> 32 word" where
  "gdt_limit e = ucast (lim0_15 e) OR push_bit 16 (ucast (lim16_19 e))"

definition gdt_dpl :: "gdt_entry \<Rightarrow> 8 word" where
  "gdt_dpl e = drop_bit 5 (ge_access e) AND 3"

definition gdt_present :: "gdt_entry \<Rightarrow> bool" where
  "gdt_present e = bit (ge_access e) 7"

section \<open>Interrupt gates\<close>

record idt_entry =
  offset0_15 :: "16 word"
  ie_segment :: "16 word"
  ie_zero :: "8 word"
  ie_type :: "8 word"
  offset16_31 :: "16 word"

record idt_state =
  i_entries :: "idt_entry list"
  i_base :: "32 word"
  i_limit :: "16 word"

definition IDT_PRESENT :: "8 word" where "IDT_PRESENT = 0x80"
definition IDT_RING3 :: "8 word" where "IDT_RING3 = 0x60"
definition IDT_INT_GATE :: "8 word" where "IDT_INT_GATE = 0x6"
definition IDT_GATE_32 :: "8 word" where "IDT_GATE_32 = 0x8"

definition fill_idt_entry :: "nat \<Rightarrow> 32 word \<Rightarrow> 16 word \<Rightarrow> 8 word \<Rightarrow> idt_entry list \<Rightarrow> idt_entry list run" where
  "fill_idt_entry i address segment type es =
     arr_set es i \<lparr>offset0_15 = ucast (address AND 0xFFFF), ie_segment = segment, ie_zero = 0, ie_type = type,
        offset16_31 = ucast (drop_bit 16 (address AND 0xFFFF0000))\<rparr>"

definition fill_idt :: "32 word \<Rightarrow> 16 word \<Rightarrow> idt_state \<Rightarrow> idt_state" where
  "fill_idt base limit s = s\<lparr>i_base := base, i_limit := limit\<rparr>"

text \<open>\<open>IDT::setup\<close> with the addresses of the 256 interrupt stubs.\<close>

definition idt_setup :: "32 word \<Rightarrow> 32 word list \<Rightarrow> idt_state \<Rightarrow> idt_state run" where
  "idt_setup entries_addr isr_vector s =
     (let s1 = fill_idt entries_addr (8 * 256) s in
      bindr (for_up 0 256 (\<lambda>i es. bindr (arr_get isr_vector i) (\<lambda>stub.
               fill_idt_entry i stub KCS_SELECTOR (IDT_PRESENT OR IDT_GATE_32 OR IDT_INT_GATE OR IDT_RING3) es))
               (i_entries s1)) (\<lambda>es. Inr (s1\<lparr>i_entries := es\<rparr>)))"

definition idt_offset :: "idt_entry \<Rightarrow> 32 word" where
  "idt_offset e = ucast (offset0_15 e) OR push_bit 16 (ucast (offset16_31 e))"

section \<open>Interrupt controller\<close>

definition PIC1_COMMAND :: "16 word" where "PIC1_COMMAND = 0x20"
definition PIC1_DATA :: "16 word" where "PIC1_DATA = 0x21"
definition PIC2_COMMAND :: "16 word" where "PIC2_COMMAND = 0xA0"
definition PIC2_DATA :: "16 word" where "PIC2_DATA = 0xA1"
definition PIC1_IDT_OFFSET :: nat where "PIC1_IDT_OFFSET = 0x20"
definition PIC2_IDT_OFFSET :: nat where "PIC2_IDT_OFFSET = 0x28"
definition PIC_EOI :: "8 word" where "PIC_EOI = 0x20"

type_synonym port_write = "16 word \<times> 8 word"

definition pic_setup :: "port_write list" where
  "pic_setup =
     [(PIC1_COMMAND, 0x11), (PIC2_COMMAND, 0x11),
      (PIC1_DATA, of_nat PIC1_IDT_OFFSET), (PIC2_DATA, of_nat PIC2_IDT_OFFSET),
      (PIC1_DATA, 0x4), (PIC2_DATA, 0x2),
      (PIC1_DATA, 0x0C), (PIC2_DATA, 0x08),
      (PIC1_DATA, 0xFB), (PIC2_DATA, 0xFF)]"

definition pic_enable_irq :: "(16 word \<Rightarrow> 8 word) \<Rightarrow> nat \<Rightarrow> port_write" where
  "pic_enable_irq in8 interrupt_line =
     (if interrupt_line < 8 then (PIC1_DATA, in8 PIC1_DATA AND NOT (push_bit interrupt_line 1))
      else (PIC2_DATA, in8 PIC2_DATA AND NOT (push_bit (interrupt_line - 8) 1)))"

definition acknowledge_pic :: "nat \<Rightarrow> port_write list" where
  "acknowledge_pic irq =
     (if irq < PIC1_IDT_OFFSET + 8 then [(PIC1_COMMAND, PIC_EOI)]
      else [(PIC1_COMMAND, PIC_EOI), (PIC2_COMMAND, PIC_EOI)])"

section \<open>Interrupt dispatch\<close>

datatype ISRType = Hardware | Software

text \<open>A handler is named by the address of its function, 0 is \<open>nullptr\<close>.\<close>

record isr_handler =
  isr_function :: nat
  isr_type :: ISRType

definition no_handler :: isr_handler where
  "no_handler = \<lparr>isr_function = 0, isr_type = Hardware\<rparr>"

definition register_software_interrupt_handler :: "nat \<Rightarrow> nat \<Rightarrow> isr_handler list \<Rightarrow> isr_handler list run" where
  "register_software_interrupt_handler address irq_number v =
     arr_set v irq_number \<lparr>isr_function = address, isr_type = Software\<rparr>"

definition register_hardware_interrupt_handler ::
    "(16 word \<Rightarrow> 8 word) \<Rightarrow> nat \<Rightarrow> nat \<Rightarrow> isr_handler list \<Rightarrow> (port_write \<times> isr_handler list) run" where
  "register_hardware_interrupt_handler in8 address interrupt_line v =
     bindr (arr_set v (interrupt_line + PIC1_IDT_OFFSET) \<lparr>isr_function = address, isr_type = Hardware\<rparr>)
       (\<lambda>v'. Inr (pic_enable_irq in8 interrupt_line, v'))"

datatype dispatch = Handled nat "port_write list" | DefaultHandler nat

definition interrupt_dispatcher :: "isr_handler list \<Rightarrow> nat \<Rightarrow> dispatch run" where
  "interrupt_dispatcher v irq_number = bindr (arr_get v irq_number) (\<lambda>handler.
     if isr_function handler \<noteq> 0
     then Inr (Handled (isr_function handler)
            (if isr_type handler = Hardware then acknowledge_pic irq_number else []))
     else Inr (DefaultHandler irq_number))"

text \<open>Which diagnostic \<open>default_interrupt_handler\<close> prints before it halts.\<close>

datatype irq_report = ExceptionReport nat | ReservedException | UndefinedIrq nat

definition default_interrupt_handler :: "nat \<Rightarrow> irq_report" where
  "default_interrupt_handler irq_number =
     (if irq_number < 19 then ExceptionReport irq_number
      else if irq_number < 32 then ReservedException else UndefinedIrq irq_number)"

section \<open>Contexts\<close>

record registers =
  r_gs :: "32 word"
  r_fs :: "32 word"
  r_es :: "32 word"
  r_ds :: "32 word"
  r_edi :: "32 word"
  r_esi :: "32 word"
  r_ebp :: "32 word"
  r_esp :: "32 word"
  r_ebx :: "32 word"
  r_edx :: "32 word"
  r_ecx :: "32 word"
  r_eax :: "32 word"

record isr_frame =
  f_context_stack :: "32 word"
  f_registers :: registers
  f_irq_number :: "32 word"
  f_error_code :: "32 word"
  f_eip :: "32 word"
  f_cs :: "32 word"
  f_eflags :: "32 word"

record context_information =
  ci_stack :: "32 word"
  ci_stack_size :: "32 word"
  ci_start_function :: "32 word"
  ci_return_function :: "32 word"
  ci_argument :: "32 word"

record initial_task_context =
  tc_isr_frame :: isr_frame
  tc_return_address :: "32 word"
  tc_argument :: "32 word"

definition EFLAGS_IF_ENABLE :: "32 word" where "EFLAGS_IF_ENABLE = 0x202"

text \<open>
  \<open>setup_task_stack_context\<close>: what is written at the top of the stack (old is what the memory
  held) with the address it is written to, and the stack pointer returned. \<open>sizeof
  (InitialTaskContext)\<close> is 80: a frame of 18 words and two more.
\<close>

definition setup_task_stack_context ::
    "context_information \<Rightarrow> initial_task_context \<Rightarrow> 32 word \<times> initial_task_context \<times> 32 word" where
  "setup_task_stack_context info old =
     (let context = ci_stack info + ci_stack_size info - 80;
          fr = tc_isr_frame old;
          regs = (f_registers fr)\<lparr>r_ds := ucast KDS_SELECTOR, r_es := ucast KDS_SELECTOR,
                   r_fs := ucast TIB_SELECTOR, r_gs := ucast PIB_SELECTOR\<rparr>
      in (context,
          \<lparr>tc_isr_frame = fr\<lparr>f_eip := ci_start_function info, f_cs := ucast KCS_SELECTOR, f_registers := regs,
              f_eflags := EFLAGS_IF_ENABLE\<rparr>,
           tc_return_address = ci_return_function info, tc_argument = ci_argument info\<rparr>,
          context + 4))"

definition switch_task_stack :: "32 word \<Rightarrow> 32 word \<Rightarrow> 32 word \<Rightarrow> gdt_state \<Rightarrow> gdt_state run" where
  "switch_task_stack task_stack_start pib tib g =
     bindr (load_gs pib (set_tss_stack task_stack_start g)) (load_fs tib)"

definition set_return_value :: "isr_frame \<Rightarrow> 32 word \<Rightarrow> isr_frame" where
  "set_return_value frame value = frame\<lparr>f_registers := (f_registers frame)\<lparr>r_eax := value\<rparr>\<rparr>"

definition set_return_arg1 :: "isr_frame \<Rightarrow> 32 word \<Rightarrow> isr_frame" where
  "set_return_arg1 frame value = frame\<lparr>f_registers := (f_registers frame)\<lparr>r_ecx := value\<rparr>\<rparr>"

definition set_return_arg2 :: "isr_frame \<Rightarrow> 32 word \<Rightarrow> isr_frame" where
  "set_return_arg2 frame value = frame\<lparr>f_registers := (f_registers frame)\<lparr>r_edx := value\<rparr>\<rparr>"

definition set_return_arg3 :: "isr_frame \<Rightarrow> 32 word \<Rightarrow> isr_frame" where
  "set_return_arg3 frame value = frame\<lparr>f_registers := (f_registers frame)\<lparr>r_ebx := value\<rparr>\<rparr>"

definition syscall_num :: "isr_frame \<Rightarrow> 32 word" where
  "syscall_num frame = r_eax (f_registers frame)"

definition syscall_param1 :: "isr_frame \<Rightarrow> 32 word" where
  "syscall_param1 frame = r_ecx (f_registers frame)"

definition syscall_param2 :: "isr_frame \<Rightarrow> 32 word" where
  "syscall_param2 frame = r_edx (f_registers frame)"

definition syscall_param3 :: "isr_frame \<Rightarrow> 32 word" where
  "syscall_param3 frame = r_ebx (f_registers frame)"

definition syscall_param4 :: "isr_frame \<Rightarrow> 32 word" where
  "syscall_param4 frame = r_esi (f_registers frame)"

definition syscall_param5 :: "isr_frame \<Rightarrow> 32 word" where
  "syscall_param5 frame = r_edi (f_registers frame)"

section \<open>Descriptors read back\<close>

lemma field_masks:
  "(0xFFFF :: 32 word) = mask 16" "(0x00FF0000 :: 32 word) = push_bit 16 (mask 8)"
  "(0xFF000000 :: 32 word) = push_bit 24 (mask 8)" "(0x0F0000 :: 32 word) = push_bit 16 (mask 4)"
  "(0xFFFF0000 :: 32 word) = push_bit 16 (mask 16)"
  by (simp_all add: mask_eq_exp_minus_1 push_bit_eq_mult)

lemma base_fields: "(ucast (ucast (w AND 0xFFFF) :: 16 word) :: 32 word) OR
    push_bit 16 (ucast (ucast (drop_bit 16 (w AND 0x00FF0000)) :: 8 word)) OR
    push_bit 24 (ucast (ucast (drop_bit 24 (w AND 0xFF000000)) :: 8 word)) = (w :: 32 word)"
  unfolding field_masks
proof (rule bit_word_eqI)
  fix n assume n: "n < LENGTH(32)"
  then consider "n < 16" | "16 \<le> n" "n < 24" | "24 \<le> n" "n < 32" by fastforce
  then show "bit ((ucast (ucast (w AND mask 16) :: 16 word) :: 32 word) OR
    push_bit 16 (ucast (ucast (drop_bit 16 (w AND push_bit 16 (mask 8))) :: 8 word)) OR
    push_bit 24 (ucast (ucast (drop_bit 24 (w AND push_bit 24 (mask 8))) :: 8 word))) n = bit w n"
    by cases (auto simp: bit_simps)
qed

lemma limit_fields: "limit < 2 ^ 20 \<Longrightarrow> (ucast (ucast (limit AND 0xFFFF) :: 16 word) :: 32 word) OR
    push_bit 16 (ucast (ucast (drop_bit 16 (limit AND 0x0F0000)) :: 4 word)) = (limit :: 32 word)"
  unfolding field_masks
proof (rule bit_word_eqI)
  fix n assume "limit < 2 ^ 20" and n: "n < LENGTH(32)"
  then have "take_bit 20 limit = limit" using less_mask_eq [of limit 20] by (simp only: take_bit_eq_mask)
  then have hi: "20 \<le> n \<Longrightarrow> \<not> bit limit n" by (metis bit_take_bit_iff leD)
  consider "n < 16" | "16 \<le> n" "n < 20" | "20 \<le> n" "n < 32" using n by fastforce
  then show "bit ((ucast (ucast (limit AND mask 16) :: 16 word) :: 32 word) OR
    push_bit 16 (ucast (ucast (drop_bit 16 (limit AND push_bit 16 (mask 4))) :: 4 word))) n = bit limit n"
    by cases (use hi in \<open>auto simp: bit_simps\<close>)
qed

lemma offset_fields: "(ucast (ucast (w AND 0xFFFF) :: 16 word) :: 32 word) OR
    push_bit 16 (ucast (ucast (drop_bit 16 (w AND 0xFFFF0000)) :: 16 word)) = (w :: 32 word)"
  unfolding field_masks
proof (rule bit_word_eqI)
  fix n assume n: "n < LENGTH(32)"
  then consider "n < 16" | "16 \<le> n" "n < 32" by fastforce
  then show "bit ((ucast (ucast (w AND mask 16) :: 16 word) :: 32 word) OR
    push_bit 16 (ucast (ucast (drop_bit 16 (w AND push_bit 16 (mask 16))) :: 16 word))) n = bit w n"
    by cases (auto simp: bit_simps)
qed

lemma fill_gdt_entry_law:
  assumes "i < length es" "limit < 2 ^ 20"
  shows "ok (fill_gdt_entry i base limit access flags es) (\<lambda>es'. length es' = length es \<and>
     gdt_base (es' ! i) = base \<and> gdt_limit (es' ! i) = limit \<and> ge_access (es' ! i) = access \<and>
     ge_flags (es' ! i) = ucast flags \<and> (\<forall>j. j \<noteq> i \<longrightarrow> es' ! j = es ! j))"
  using assms base_fields [of base] limit_fields [OF assms(2)]
  by (simp add: fill_gdt_entry_def run_simps gdt_base_def gdt_limit_def)

lemma segment_indices:
  "unat (SEGMENT_INDEX KCS_SELECTOR) = 1" "unat (SEGMENT_INDEX KDS_SELECTOR) = 2"
  "unat (SEGMENT_INDEX UCS_SELECTOR) = 3" "unat (SEGMENT_INDEX UDS_SELECTOR) = 4"
  "unat (SEGMENT_INDEX TSS_SELECTOR) = 5" "unat (SEGMENT_INDEX TIB_SELECTOR) = 6"
  "unat (SEGMENT_INDEX PIB_SELECTOR) = 7"
  by (simp_all add: SEGMENT_INDEX_def SEGMENT_SELECTOR_def KCS_SELECTOR_def KDS_SELECTOR_def UCS_SELECTOR_def
      UDS_SELECTOR_def TSS_SELECTOR_def TIB_SELECTOR_def PIB_SELECTOR_def)

lemma access_bytes:
  "GDT_CODE_PL0 = 0x9B" "GDT_DATA_PL0 = 0x92" "GDT_CODE_PL3 = 0xFB" "GDT_DATA_PL3 = 0xF2" "GDT_TSS_PL3 = 0xE9"
  by (simp_all add: GDT_CODE_PL0_def GDT_DATA_PL0_def GDT_CODE_PL3_def GDT_DATA_PL3_def GDT_TSS_PL3_def
      SEG_DESCTYPE_def SEG_PRES_def SEG_PRIV_def SEG_CODE_EXRDA_def SEG_DATA_RDWR_def SEG_TSS_AVAILABLE_def)

section \<open>Properties\<close>

fun task_switches :: "(32 word \<times> 32 word \<times> 32 word) list \<Rightarrow> gdt_state \<Rightarrow> gdt_state run" where
  "task_switches [] g = Inr g"
| "task_switches ((stack, pib, tib) # sws) g = bindr (switch_task_stack stack pib tib g) (task_switches sws)"

definition flat_segment :: "gdt_entry \<Rightarrow> 8 word \<Rightarrow> bool" where
  "flat_segment e dpl \<longleftrightarrow> gdt_present e \<and> gdt_base e = 0 \<and> gdt_limit e = 0xFFFFF \<and> gdt_dpl e = dpl"

definition gdt_ok :: "32 word \<Rightarrow> (32 word \<times> 32 word \<times> 32 word) \<Rightarrow> gdt_state \<Rightarrow> bool" where
  "gdt_ok ta = (\<lambda>(stack, pib, tib) g. length (g_entries g) = 8 \<and>
     flat_segment (g_entries g ! 1) 0 \<and> flat_segment (g_entries g ! 2) 0 \<and>
     flat_segment (g_entries g ! 3) 3 \<and> flat_segment (g_entries g ! 4) 3 \<and>
     gdt_present (g_entries g ! 5) \<and> gdt_base (g_entries g ! 5) = ta \<and>
     gdt_base (g_entries g ! 6) = tib \<and> gdt_base (g_entries g ! 7) = pib \<and>
     tss_esp0 (g_tss g) = stack \<and> g_gdt_limit g = 63 \<and> g_tr g = Some TSS_SELECTOR)"

lemma gdt_setup_ok: "ok (gdt_setup ea ta g) (gdt_ok ta (0, 0, 0))"
  using base_fields [of ta]
  by (simp add: gdt_setup_def fill_gdt_entry_def segment_indices access_bytes run_simps Let_def gdt_ok_def fill_gdt_def
      setup_tss_def set_tss_stack_def nth_list_update flat_segment_def gdt_present_def gdt_base_def gdt_limit_def
      gdt_dpl_def bit_simps)

lemma switch_task_stack_ok:
  assumes "gdt_ok ta sw g"
  shows "ok (switch_task_stack stack pib tib g) (gdt_ok ta (stack, pib, tib))"
proof -
  have len: "length (g_entries g) = 8" using assms by (auto simp: gdt_ok_def split: prod.splits)
  from fill_gdt_entry_law [of 7 "g_entries g" "0xFFFFF" pib GDT_DATA_PL3 "0x0D"] len
  obtain es where es: "fill_gdt_entry 7 pib 0xFFFFF GDT_DATA_PL3 0x0D (g_entries g) = Inr es" "length es = 8"
    "gdt_base (es ! 7) = pib" "\<And>j. j \<noteq> 7 \<Longrightarrow> es ! j = g_entries g ! j" by (auto simp: ok_iff)
  from fill_gdt_entry_law [of 6 es "0xFFFFF" tib GDT_DATA_PL3 "0x0D"] es(2)
  obtain es' where es': "fill_gdt_entry 6 tib 0xFFFFF GDT_DATA_PL3 0x0D es = Inr es'" "length es' = 8"
    "gdt_base (es' ! 6) = tib" "\<And>j. j \<noteq> 6 \<Longrightarrow> es' ! j = es ! j" by (auto simp: ok_iff)
  show ?thesis
    using assms es es'
    by (auto simp: switch_task_stack_def load_gs_def load_fs_def segment_indices set_tss_stack_def run_simps gdt_ok_def
        split: prod.splits)
qed

text \<open>
  \<open>GDT::setup\<close> followed by any number of task switches leaves a table in which the kernel
  and user code and data segments are present, flat (base 0, limit 0xFFFFF pages) and have the
  privilege of their selector, the TSS descriptor points to the TSS, and the FS and GS segments
  and the TSS stack are those of the last switch.
\<close>

theorem gdt_segments_and_switches:
  "ok (bindr (gdt_setup ea ta g) (task_switches sws)) (gdt_ok ta (last ((0, 0, 0) # sws)))"
proof -
  have "gdt_ok ta sw g \<Longrightarrow> ok (task_switches sws g) (gdt_ok ta (last (sw # sws)))" for sw g
  proof (induction sws arbitrary: sw g)
    case (Cons x sws)
    obtain stack pib tib where x: "x = (stack, pib, tib)" by (cases x)
    from switch_task_stack_ok [OF Cons.prems] have "ok (switch_task_stack stack pib tib g) (gdt_ok ta x)" by (simp add: x)
    with Cons.IH x show ?case by (auto simp: run_simps elim!: ok_mono)
  qed (simp add: run_simps)
  note * = this [of "(0, 0, 0)"]
  show ?thesis unfolding ok_bindr by (rule ok_mono [OF gdt_setup_ok *])
qed

lemma idt_setup_law:
  assumes "length (i_entries s) = 256" "length stubs = 256"
  shows "ok (idt_setup ea stubs s) (\<lambda>s'. length (i_entries s') = 256 \<and> i_base s' = ea \<and>
     (\<forall>i<256. idt_offset (i_entries s' ! i) = stubs ! i \<and> ie_segment (i_entries s' ! i) = KCS_SELECTOR \<and>
        bit (ie_type (i_entries s' ! i)) 7))"
proof -
  let ?f = "\<lambda>i es. bindr (arr_get stubs i) (\<lambda>stub.
     fill_idt_entry i stub KCS_SELECTOR (IDT_PRESENT OR IDT_GATE_32 OR IDT_INT_GATE OR IDT_RING3) es)"
  let ?I = "\<lambda>k es. length es = 256 \<and> (\<forall>i<k. idt_offset (es ! i) = stubs ! i \<and> ie_segment (es ! i) = KCS_SELECTOR \<and>
        bit (ie_type (es ! i)) 7)"
  have "ok (for_up 0 256 ?f (i_entries s)) (?I 256)"
  proof (rule for_up_rule [where I = ?I], goal_cases)
    case (3 i es)
    have b: "bit (IDT_PRESENT OR IDT_GATE_32 OR IDT_INT_GATE OR IDT_RING3) 7"
      by (simp add: IDT_PRESENT_def bit_simps)
    from 3 assms offset_fields [of "stubs ! i"] b show ?case
      by (auto simp: run_simps fill_idt_entry_def nth_list_update idt_offset_def less_Suc_eq)
  qed (use assms in auto)
  then show ?thesis by (auto simp: idt_setup_def Let_def fill_idt_def run_simps elim!: ok_mono)
qed



end
