(* ===== verification/Threads.thy ===== *)
theory Threads
  imports Intrusive_List Vector_Container Bitmaps Cpu_Tables
begin

text \<open>
  Threads, wait queues and the scheduler: thread.cpp, wait_queue.cpp, scheduler.cpp and the timer
  handler of pit.cpp. The static thread lists are intrusive lists over one heap of thread nodes;
  a wait queue is a vector of (thread, state) entries; thread identifiers come from the bitmap
  pool. Every function that runs inside one critical section (a \<open>ScopedLock\<close> on a spinlock, which
  disables interrupts, see Synchronization) is one definition; a function that yields is split at the
  yield. The addresses \<open>new\<close> and \<open>valloc\<close> return are parameters.
\<close>

section \<open>State\<close>

datatype ThreadState = Ready | BlockedSleep | BlockedQueue | BlockedQueueTimed | Suspended

datatype ThreadPrivilege = KernelPrivilege | UserPrivilege

datatype QueueState = Blocked | WokenUpNormally | Timeout

record tcb =
  t_tid :: size_t
  t_parent :: nat
  t_state :: ThreadState
  t_privilege :: ThreadPrivilege
  t_entry_point :: nat
  t_blocker :: nat
  t_tib :: "32 word"
  t_sleep_ticks :: size_t
  t_kernel_stack_start :: "32 word"
  t_kernel_stack_end :: "32 word"
  t_kernel_stack_pointer :: "32 word"

text \<open>What the tasking code reads of a process; \<open>m_threads\<close> by the list of threads it holds.\<close>

record proc_info =
  p_pid :: size_t
  p_page_directory :: nat
  p_pib :: "32 word"
  p_threads :: "nat list"

record waiter =
  w_thread :: nat
  w_state :: QueueState

record wait_queue =
  wq_queue :: "waiter vector"
  wq_is_moved :: bool

text \<open>The four static lists of \<open>Thread\<close>.\<close>

datatype tlist = ready_threads | sleeping_threads | blocked_threads | blocked_timed_threads

record tasking =
  k_heap :: iheap
  k_lists :: "tlist \<Rightarrow> ilist"
  k_tcb :: "nat \<Rightarrow> tcb"
  k_current :: nat
  k_ticks :: size_t
  k_tids :: bitmap
  k_queues :: "nat \<Rightarrow> wait_queue"
  k_procs :: "nat \<Rightarrow> proc_info"
  k_cr3 :: nat
  k_gdt :: gdt_state

definition set_tcb :: "tasking \<Rightarrow> nat \<Rightarrow> (tcb \<Rightarrow> tcb) \<Rightarrow> tasking" where
  "set_tcb s t f = s\<lparr>k_tcb := (k_tcb s)(t := f (k_tcb s t))\<rparr>"

definition set_queue :: "tasking \<Rightarrow> nat \<Rightarrow> waiter vector \<Rightarrow> tasking" where
  "set_queue s q v = s\<lparr>k_queues := (k_queues s)(q := (k_queues s q)\<lparr>wq_queue := v\<rparr>)\<rparr>"

definition list_remove :: "tasking \<Rightarrow> tlist \<Rightarrow> nat \<Rightarrow> tasking run" where
  "list_remove s q t = bindr (il_remove (k_heap s, k_lists s q) t)
     (\<lambda>(h, l). Inr (s\<lparr>k_heap := h, k_lists := (k_lists s)(q := l)\<rparr>))"

definition list_push :: "tasking \<Rightarrow> tlist \<Rightarrow> nat \<Rightarrow> tasking run" where
  "list_push s q t = bindr (il_push_back (k_heap s, k_lists s q) t)
     (\<lambda>(h, l). Inr (s\<lparr>k_heap := h, k_lists := (k_lists s)(q := l)\<rparr>))"

section \<open>Threads\<close>

definition thread_wake_up :: "tasking \<Rightarrow> nat \<Rightarrow> tasking run" where
  "thread_wake_up s t =
     bindr (case t_state (k_tcb s t) of
              BlockedSleep \<Rightarrow> list_remove s sleeping_threads t
            | BlockedQueue \<Rightarrow> list_remove s blocked_threads t
            | BlockedQueueTimed \<Rightarrow> list_remove s blocked_timed_threads t
            | _ \<Rightarrow> Inr s)
       (\<lambda>s1. bindr (list_push s1 ready_threads t)
       (\<lambda>s2. Inr (set_tcb s2 t (\<lambda>c. c\<lparr>t_state := Ready, t_blocker := 0\<rparr>))))"

definition thread_block :: "tasking \<Rightarrow> nat \<Rightarrow> nat \<Rightarrow> size_t \<Rightarrow> tasking run" where
  "thread_block s t blocker ms_timeout =
     bindr (list_remove s ready_threads t) (\<lambda>s1.
     bindr (if ms_timeout \<noteq> 0
            then list_push (set_tcb s1 t (\<lambda>c. c\<lparr>t_sleep_ticks := sz_add (k_ticks s) ms_timeout,
                   t_state := BlockedQueueTimed\<rparr>)) blocked_timed_threads t
            else list_push (set_tcb s1 t (\<lambda>c. c\<lparr>t_state := BlockedQueue\<rparr>)) blocked_threads t)
       (\<lambda>s2. Inr (set_tcb s2 t (\<lambda>c. c\<lparr>t_blocker := blocker\<rparr>))))"

text \<open>\<open>Thread::sleep\<close> up to its \<open>yield()\<close>.\<close>

definition thread_sleep :: "tasking \<Rightarrow> nat \<Rightarrow> size_t \<Rightarrow> tasking run" where
  "thread_sleep s t ms =
     bindr (list_remove s ready_threads t) (\<lambda>s1.
       list_push (set_tcb s1 t (\<lambda>c. c\<lparr>t_sleep_ticks := sz_add (k_ticks s) ms, t_state := BlockedSleep\<rparr>))
         sleeping_threads t)"

definition reserve_tid :: "tasking \<Rightarrow> (size_t \<times> tasking) run" where
  "reserve_tid s = bindr (id_reserve (\<lambda>b. bm_find_first_clear b 0) bm_set (k_tids s))
     (\<lambda>(i, b). Inr (i, s\<lparr>k_tids := b\<rparr>))"

definition STACK_SIZE :: "32 word" where "STACK_SIZE = 0x1000"

text \<open>
  The constructor, for a thread object at the fresh address t; \<open>kstack\<close> and \<open>tib\<close> are the results
  of the two \<open>valloc\<close> calls, \<open>thread_start\<close> the address of that function and old what the memory
  of the new stack held.
\<close>

definition thread_new :: "tasking \<Rightarrow> nat \<Rightarrow> nat \<Rightarrow> nat \<Rightarrow> ThreadPrivilege \<Rightarrow> 32 word \<Rightarrow> 32 word \<Rightarrow> 32 word \<Rightarrow>
    initial_task_context \<Rightarrow> tasking run" where
  "thread_new s t process entry_point priv kstack tib thread_start old =
     bindr (reserve_tid s) (\<lambda>(id, s1).
       let (_, _, stack_pointer) = setup_task_stack_context
             \<lparr>ci_stack = kstack, ci_stack_size = STACK_SIZE, ci_start_function = thread_start,
              ci_return_function = 0, ci_argument = of_nat t\<rparr> old;
           cross = (k_current s \<noteq> 0 \<and>
             p_pid (k_procs s process) \<noteq> p_pid (k_procs s (t_parent (k_tcb s (k_current s)))))
       in Inr (s1\<lparr>k_heap := node_init (k_heap s1) t 0 0 0,
                 k_tcb := (k_tcb s1)(t := \<lparr>t_tid = id, t_parent = process, t_state = Ready, t_privilege = priv,
                    t_entry_point = entry_point, t_blocker = 0, t_tib = tib,
                    t_sleep_ticks = t_sleep_ticks (k_tcb s1 t), t_kernel_stack_start = kstack,
                    t_kernel_stack_end = kstack + STACK_SIZE, t_kernel_stack_pointer = stack_pointer\<rparr>),
                 k_cr3 := (if cross then p_page_directory (k_procs s (t_parent (k_tcb s (k_current s)))) else k_cr3 s)\<rparr>))"

text \<open>\<open>Process::list_new_thread\<close> and \<open>unlist_new_thread\<close> on the list of threads.\<close>

definition list_new_thread :: "tasking \<Rightarrow> nat \<Rightarrow> nat \<Rightarrow> tasking" where
  "list_new_thread s process t = s\<lparr>k_procs := (k_procs s)(process :=
     (k_procs s process)\<lparr>p_threads := p_threads (k_procs s process) @ [t]\<rparr>)\<rparr>"

definition unlist_new_thread :: "tasking \<Rightarrow> nat \<Rightarrow> nat \<Rightarrow> tasking" where
  "unlist_new_thread s process t = s\<lparr>k_procs := (k_procs s)(process :=
     (k_procs s process)\<lparr>p_threads := filter (\<lambda>u. t_tid (k_tcb s u) \<noteq> t_tid (k_tcb s t)) (p_threads (k_procs s process))\<rparr>)\<rparr>"

definition create_thread :: "tasking \<Rightarrow> nat \<Rightarrow> nat \<Rightarrow> nat \<Rightarrow> ThreadPrivilege \<Rightarrow> 32 word \<Rightarrow> 32 word \<Rightarrow> 32 word \<Rightarrow>
    initial_task_context \<Rightarrow> tasking run" where
  "create_thread s t process entry_point priv kstack tib thread_start old =
     bindr (thread_new s t process entry_point priv kstack tib thread_start old) (\<lambda>s1.
     bindr (list_push s1 ready_threads t) (\<lambda>s2. Inr (list_new_thread s2 process t)))"

definition create_init_thread :: "tasking \<Rightarrow> nat \<Rightarrow> nat \<Rightarrow> nat \<Rightarrow> 32 word \<Rightarrow> 32 word \<Rightarrow> 32 word \<Rightarrow>
    initial_task_context \<Rightarrow> tasking run" where
  "create_init_thread s t process fake_callable kstack tib thread_start old =
     assert_then (k_current s = 0)
       (bindr (create_thread s t process fake_callable KernelPrivilege kstack tib thread_start old)
         (\<lambda>s1. Inr (s1\<lparr>k_current := t\<rparr>)))"

definition number_of_ready_threads :: "tasking \<Rightarrow> size_t" where
  "number_of_ready_threads s = il_size (k_lists s ready_threads)"

section \<open>Wait queues\<close>

text \<open>\<open>itr->field = value\<close> through an iterator of the vector.\<close>

definition vec_modify :: "'a vector \<Rightarrow> size_t \<Rightarrow> ('a \<Rightarrow> 'a) \<Rightarrow> 'a vector run" where
  "vec_modify v i f = bindr (vec_deref v i) (\<lambda>x.
     bindr (assign_slot True (vec_m_storage v) i (f x)) (\<lambda>d. Inr (v\<lparr>vec_m_storage := d\<rparr>)))"

definition wq_new :: "wait_queue run" where
  "wq_new = bindr (vec_new 1 1) (\<lambda>v. Inr \<lparr>wq_queue = v, wq_is_moved = False\<rparr>)"

definition wq_move :: "wait_queue \<Rightarrow> wait_queue \<times> wait_queue" where
  "wq_move other = (let (v, ov) = vec_move (wq_queue other)
     in (\<lparr>wq_queue = v, wq_is_moved = False\<rparr>, other\<lparr>wq_queue := ov, wq_is_moved := True\<rparr>))"

definition wake_up_queue :: "tasking \<Rightarrow> nat \<Rightarrow> size_t \<Rightarrow> tasking run" where
  "wake_up_queue s q i =
     bindr (vec_modify (wq_queue (k_queues s q)) i (\<lambda>w. w\<lparr>w_state := WokenUpNormally\<rparr>)) (\<lambda>v.
     bindr (vec_deref v i) (\<lambda>w. thread_wake_up (set_queue s q v) (w_thread w)))"

definition wq_wake_up :: "tasking \<Rightarrow> nat \<Rightarrow> tasking run" where
  "wq_wake_up s q =
     bindr (vec_find_if (\<lambda>w. w_state w = Blocked) (wq_queue (k_queues s q))) (\<lambda>i.
       assert_then (i \<noteq> vec_end (wq_queue (k_queues s q))) (wake_up_queue s q i))"

fun wake_up_all_loop :: "nat \<Rightarrow> nat \<Rightarrow> size_t \<Rightarrow> tasking \<Rightarrow> tasking run" where
  "wake_up_all_loop fuel q i s =
     (if i = vec_end (wq_queue (k_queues s q)) then Inr s
      else case fuel of 0 \<Rightarrow> Inl OutOfFuel
      | Suc fuel' \<Rightarrow> bindr (vec_deref (wq_queue (k_queues s q)) i) (\<lambda>w.
          bindr (if w_state w = Blocked then wake_up_queue s q i else Inr s)
            (wake_up_all_loop fuel' q (vec_it_inc i))))"

definition wq_wake_up_all :: "tasking \<Rightarrow> nat \<Rightarrow> tasking run" where
  "wq_wake_up_all s q = wake_up_all_loop (vec_size (wq_queue (k_queues s q))) q (vec_begin (wq_queue (k_queues s q))) s"

definition wq_destructor :: "tasking \<Rightarrow> nat \<Rightarrow> tasking run" where
  "wq_destructor s q = (if wq_is_moved (k_queues s q) then Inr s else wq_wake_up_all s q)"

definition is_empty_queue :: "tasking \<Rightarrow> nat \<Rightarrow> bool run" where
  "is_empty_queue s q = bindr (vec_find_if (\<lambda>w. w_state w = Blocked) (wq_queue (k_queues s q)))
     (\<lambda>i. Inr (i = vec_end (wq_queue (k_queues s q))))"

definition same_tid :: "tasking \<Rightarrow> nat \<Rightarrow> waiter \<Rightarrow> bool" where
  "same_tid s t w = (t_tid (k_tcb s (w_thread w)) = t_tid (k_tcb s t))"

definition handle_thread_timeout :: "tasking \<Rightarrow> nat \<Rightarrow> nat \<Rightarrow> tasking run" where
  "handle_thread_timeout s q t =
     bindr (vec_find_if (same_tid s t) (wq_queue (k_queues s q))) (\<lambda>i.
       assert_then (i \<noteq> vec_end (wq_queue (k_queues s q)))
         (bindr (vec_modify (wq_queue (k_queues s q)) i (\<lambda>w. w\<lparr>w_state := Timeout\<rparr>)) (\<lambda>v. Inr (set_queue s q v))))"

definition handle_thread_terminated :: "tasking \<Rightarrow> nat \<Rightarrow> nat \<Rightarrow> tasking run" where
  "handle_thread_terminated s q t =
     bindr (vec_remove_if True (same_tid s t) (wq_queue (k_queues s q))) (\<lambda>(removed, v).
       assert_then removed (Inr (set_queue s q v)))"

text \<open>
  \<open>wait\<close> and \<open>wait_on_event\<close>, cut at \<open>Thread::yield()\<close>. The iterator the waiter keeps over the
  yield is a position in a particular storage. Storage is only ever replaced by a larger one, so
  its capacity identifies it; reading through an iterator into a replaced storage is a use of
  freed memory.
\<close>

type_synonym wait_iterator = "size_t \<times> size_t"

definition wq_enqueue :: "tasking \<Rightarrow> nat \<Rightarrow> (wait_iterator \<times> tasking) run" where
  "wq_enqueue s q = bindr (vec_emplace_back True (wq_queue (k_queues s q)) \<lparr>w_thread = k_current s, w_state = Blocked\<rparr>)
     (\<lambda>(i, v). Inr ((i, vec_capacity v), set_queue s q v))"

definition wait_read :: "tasking \<Rightarrow> nat \<Rightarrow> wait_iterator \<Rightarrow> QueueState run" where
  "wait_read s q it = (if snd it = vec_capacity (wq_queue (k_queues s q))
     then bindr (vec_deref (wq_queue (k_queues s q)) (fst it)) (\<lambda>w. Inr (w_state w)) else Inl Lifetime)"

definition wait_leave :: "tasking \<Rightarrow> nat \<Rightarrow> wait_iterator \<Rightarrow> (QueueState \<times> tasking) run" where
  "wait_leave s q it = bindr (wait_read s q it) (\<lambda>state.
     bindr (vec_remove True (wq_queue (k_queues s q)) (fst it)) (\<lambda>v. Inr (state, set_queue s q v)))"

definition wait_enter :: "tasking \<Rightarrow> nat \<Rightarrow> size_t \<Rightarrow> (wait_iterator \<times> tasking) run" where
  "wait_enter s q ms_timeout = bindr (thread_block s (k_current s) q ms_timeout) (\<lambda>s1. wq_enqueue s1 q)"

definition wait_on_event_enter :: "tasking \<Rightarrow> nat \<Rightarrow> size_t \<Rightarrow> bool \<Rightarrow> (wait_iterator option \<times> tasking) run" where
  "wait_on_event_enter s q ms_timeout checker =
     (if \<not> checker then Inr (None, s)
      else bindr (wq_enqueue s q) (\<lambda>(it, s1).
           bindr (thread_block s1 (k_current s1) q ms_timeout) (\<lambda>s2. Inr (Some it, s2))))"

text \<open>After the yield: \<open>None\<close> when the loop blocks again.\<close>

definition wait_on_event_resume ::
    "tasking \<Rightarrow> nat \<Rightarrow> size_t \<Rightarrow> wait_iterator \<Rightarrow> bool \<Rightarrow> (QueueState option \<times> tasking) run" where
  "wait_on_event_resume s q ms_timeout it checker =
     bindr (if checker then bindr (wait_read s q it) (\<lambda>st. Inr (st \<noteq> Timeout)) else Inr False) (\<lambda>again.
       if again then bindr (thread_block s (k_current s) q ms_timeout) (\<lambda>s1. Inr (None, s1))
       else bindr (wait_leave s q it) (\<lambda>(st, s1). Inr (Some st, s1)))"

section \<open>Sleepers and termination\<close>

fun due_loop :: "tlist \<Rightarrow> (tasking \<Rightarrow> nat \<Rightarrow> tasking run) \<Rightarrow> nat \<Rightarrow> nat \<Rightarrow> tasking \<Rightarrow> tasking run" where
  "due_loop q body fuel i s =
     (if i = il_ending (k_lists s q) then Inr s
      else case fuel of 0 \<Rightarrow> Inl OutOfFuel
      | Suc fuel' \<Rightarrow> bindr (il_it_inc (k_heap s) i) (\<lambda>i'. bindr (il_deref (k_heap s) i) (\<lambda>t.
          bindr (if t_sleep_ticks (k_tcb s t) \<le> k_ticks s
                 then body (set_tcb s t (\<lambda>c. c\<lparr>t_sleep_ticks := 0\<rparr>)) t else Inr s)
            (due_loop q body fuel' i'))))"

definition timeout_body :: "tasking \<Rightarrow> nat \<Rightarrow> tasking run" where
  "timeout_body s t = bindr (handle_thread_timeout s (t_blocker (k_tcb s t)) t) (\<lambda>s1. thread_wake_up s1 t)"

definition wake_up_sleepers :: "tasking \<Rightarrow> tasking run" where
  "wake_up_sleepers s =
     bindr (il_begin (k_lists s sleeping_threads)) (\<lambda>i.
     bindr (due_loop sleeping_threads thread_wake_up (il_size (k_lists s sleeping_threads)) i s) (\<lambda>s1.
     bindr (il_begin (k_lists s1 blocked_timed_threads)) (\<lambda>j.
     due_loop blocked_timed_threads timeout_body (il_size (k_lists s1 blocked_timed_threads)) j s1)))"

text \<open>\<open>~Thread\<close> and \<open>cleanup\<close>.\<close>

definition thread_cleanup :: "tasking \<Rightarrow> nat \<Rightarrow> tasking run" where
  "thread_cleanup s t =
     bindr (bm_check_set (k_tids s) (t_tid (k_tcb s t))) (\<lambda>b. assert_then b
       (bindr (bm_clear (k_tids s) (t_tid (k_tcb s t))) (\<lambda>tids.
         Inr (s\<lparr>k_tids := tids, k_heap := (k_heap s)\<lparr>ih_live := (ih_live (k_heap s))(t := False)\<rparr>\<rparr>))))"

definition thread_terminate :: "tasking \<Rightarrow> nat \<Rightarrow> tasking run" where
  "thread_terminate s t =
     bindr (case t_state (k_tcb s t) of
              Ready \<Rightarrow> list_remove s ready_threads t
            | BlockedSleep \<Rightarrow> list_remove s sleeping_threads t
            | BlockedQueue \<Rightarrow> assert_then (t_blocker (k_tcb s t) \<noteq> 0)
                (bindr (list_remove s blocked_threads t) (\<lambda>s1. handle_thread_terminated s1 (t_blocker (k_tcb s t)) t))
            | BlockedQueueTimed \<Rightarrow> assert_then (t_blocker (k_tcb s t) \<noteq> 0)
                (bindr (list_remove s blocked_timed_threads t) (\<lambda>s1. handle_thread_terminated s1 (t_blocker (k_tcb s t)) t))
            | Suspended \<Rightarrow> Inl NotReachable)
       (\<lambda>s2. thread_cleanup (unlist_new_thread s2 (t_parent (k_tcb s t)) t) t)"

section \<open>The scheduler\<close>

datatype ScheduleType = Forced | Timed

definition select_next_thread :: "tasking \<Rightarrow> nat run" where
  "select_next_thread s = (let ready = k_lists s ready_threads in
     assert_then (number_of_ready_threads s \<noteq> 0)
       (bindr (il_find (k_heap s) ready (k_current s)) (\<lambda>i.
        bindr (il_it_inc (k_heap s) i) (\<lambda>next_thread.
          if next_thread = il_ending ready then bindr (il_begin ready) (il_deref (k_heap s))
          else il_deref (k_heap s) next_thread))))"

definition save_context :: "isr_frame \<Rightarrow> tasking \<Rightarrow> nat \<Rightarrow> tasking" where
  "save_context current_context s t = set_tcb s t (\<lambda>c. c\<lparr>t_kernel_stack_pointer := f_context_stack current_context\<rparr>)"

definition load_context :: "isr_frame \<Rightarrow> tasking \<Rightarrow> nat \<Rightarrow> (isr_frame \<times> tasking) run" where
  "load_context current_context s t =
     bindr (switch_task_stack (t_kernel_stack_end (k_tcb s t)) (p_pib (k_procs s (t_parent (k_tcb s t))))
              (t_tib (k_tcb s t)) (k_gdt s))
       (\<lambda>g. Inr (current_context\<lparr>f_context_stack := t_kernel_stack_pointer (k_tcb s t)\<rparr>, s\<lparr>k_gdt := g\<rparr>))"

definition schedule :: "isr_frame \<Rightarrow> ScheduleType \<Rightarrow> tasking \<Rightarrow> (isr_frame \<times> tasking) run" where
  "schedule current_context type s =
     assert_then (k_current s \<noteq> 0)
       (bindr (if type = Timed then wake_up_sleepers s else Inr s) (\<lambda>s1.
        let s2 = save_context current_context s1 (k_current s1) in
        bindr (select_next_thread s2) (\<lambda>next_thread.
          if next_thread \<noteq> k_current s2 then
            (let s3 = (if p_pid (k_procs s2 (t_parent (k_tcb s2 next_thread))) \<noteq>
                          p_pid (k_procs s2 (t_parent (k_tcb s2 (k_current s2))))
                       then s2\<lparr>k_cr3 := p_page_directory (k_procs s2 (t_parent (k_tcb s2 next_thread)))\<rparr> else s2)
             in load_context current_context (s3\<lparr>k_current := next_thread\<rparr>) next_thread)
          else Inr (current_context, s2))))"

definition schedule_handler :: "isr_frame \<Rightarrow> tasking \<Rightarrow> (isr_frame \<times> tasking) run" where
  "schedule_handler frame s = schedule frame Forced s"

definition pit_handler :: "isr_frame \<Rightarrow> tasking \<Rightarrow> (isr_frame \<times> tasking) run" where
  "pit_handler frame s = bindr (schedule frame Timed s) (\<lambda>(f, s1). Inr (f, s1\<lparr>k_ticks := sz_add (k_ticks s1) 1\<rparr>))"

declare wake_up_all_loop.simps [simp del] due_loop.simps [simp del]

section \<open>The thread lists\<close>

text \<open>\<open>ps q\<close> is the sequence of threads in the static list q. Addresses are 32 bits wide.\<close>

definition lists_rep :: "tasking \<Rightarrow> (tlist \<Rightarrow> nat list) \<Rightarrow> bool" where
  "lists_rep s ps \<longleftrightarrow> inj (\<lambda>q. il_this (k_lists s q)) \<and> (\<forall>q. il_rep (k_heap s) (k_lists s q) (ps q)) \<and>
     (\<forall>p. ih_live (k_heap s) p \<longrightarrow> p \<noteq> 0 \<and> p < sz_range)"

lemma lists_rep_list: "lists_rep s ps \<Longrightarrow> il_rep (k_heap s) (k_lists s q) (ps q)"
  by (simp add: lists_rep_def)

lemma lists_rep_cong:
  "k_heap s' = k_heap s \<Longrightarrow> k_lists s' = k_lists s \<Longrightarrow> lists_rep s' ps = lists_rep s ps"
  by (simp add: lists_rep_def)

lemma lists_rep_disjoint: "lists_rep s ps \<Longrightarrow> t \<in> set (ps q) \<Longrightarrow> t \<in> set (ps q') \<Longrightarrow> q = q'"
  using il.rep_disjoint [of "k_heap s" "k_lists s q" "ps q" "k_lists s q'" "ps q'"]
  by (auto simp: lists_rep_def inj_def)

lemma lists_rep_distinct: "lists_rep s ps \<Longrightarrow> distinct (ps q)"
  by (rule il.rep_distinct [OF lists_rep_list])

lemma lists_rep_live:
  assumes "lists_rep s ps" "t \<in> set (ps q)" shows "ih_live (k_heap s) t \<and> t \<noteq> 0 \<and> t \<noteq> il_ending (k_lists s q')"
proof -
  have r: "il_rep (k_heap s) (k_lists s q) (ps q)" "il_rep (k_heap s) (k_lists s q') (ps q')"
    by (simp_all add: lists_rep_list [OF assms(1)])
  have "t \<noteq> il_ending (k_lists s q')"
  proof (cases "q = q'")
    case True
    with r assms(2) show ?thesis by (auto simp: il_rep_def)
  next
    case False
    then have "il_this (k_lists s q') \<noteq> il_this (k_lists s q)" using assms(1) by (auto simp: lists_rep_def inj_def)
    from il_rep_disjoint [OF r this] assms(2) show ?thesis by auto
  qed
  with r(1) assms show ?thesis by (auto simp: il_rep_def lists_rep_def)
qed

text \<open>What changes when a node leaves or joins a list.\<close>

definition relinked :: "tasking \<Rightarrow> tasking \<Rightarrow> bool" where
  "relinked s s' \<longleftrightarrow> k_tcb s' = k_tcb s \<and> k_current s' = k_current s \<and> k_ticks s' = k_ticks s \<and>
     k_tids s' = k_tids s \<and> k_queues s' = k_queues s \<and> k_procs s' = k_procs s \<and> k_cr3 s' = k_cr3 s \<and>
     k_gdt s' = k_gdt s \<and> ih_live (k_heap s') = ih_live (k_heap s) \<and> (\<forall>q. il_ending (k_lists s' q) = il_ending (k_lists s q))"

lemma relinked_fields:
  assumes "relinked s s'"
  shows "k_tcb s' = k_tcb s" "k_current s' = k_current s" "k_ticks s' = k_ticks s" "k_tids s' = k_tids s"
    "k_queues s' = k_queues s" "k_procs s' = k_procs s" "k_cr3 s' = k_cr3 s" "k_gdt s' = k_gdt s"
    "ih_live (k_heap s') = ih_live (k_heap s)" "il_ending (k_lists s' q) = il_ending (k_lists s q)"
  using assms by (simp_all add: relinked_def)

lemma list_remove_law:
  assumes "lists_rep s ps" "t \<in> set (ps q)"
  shows "\<exists>s'. list_remove s q t = Inr s' \<and> relinked s s' \<and> lists_rep s' (ps(q := remove1 t (ps q))) \<and>
     (\<forall>u. il_unowned (k_heap s') u \<longleftrightarrow> il_unowned (k_heap s) u \<or> u = t)"
proof -
  note r = lists_rep_list [OF assms(1)]
  obtain h l where a: "il_remove (k_heap s, k_lists s q) t = Inr (h, l)" "ih_live h = ih_live (k_heap s)"
    "il_ending l = il_ending (k_lists s q)" by (rule il_remove_run [OF r [of q] assms(2)])
  from il.rem_law [OF r [of q] assms(2)] a(1) have b: "il_rep h l (remove1 t (ps q))" "il_this l = il_this (k_lists s q)"
    "\<And>u. il_unowned h u \<longleftrightarrow> il_unowned (k_heap s) u \<or> u = t"
    "\<And>l2 qs. il_rep (k_heap s) l2 qs \<Longrightarrow> il_this l2 \<noteq> il_this (k_lists s q) \<Longrightarrow> il_rep h l2 qs"
    by (auto simp: ok_iff)
  let ?s = "s\<lparr>k_heap := h, k_lists := (k_lists s)(q := l)\<rparr>"
  have same: "il_this (k_lists ?s q') = il_this (k_lists s q')" for q' using b(2) by simp
  have "il_rep (k_heap ?s) (k_lists ?s q') ((ps(q := remove1 t (ps q))) q')" for q'
  proof (cases "q' = q")
    case False
    then have "il_this (k_lists s q') \<noteq> il_this (k_lists s q)" using assms(1) by (auto simp: lists_rep_def inj_def)
    with False b(4) [OF r] show ?thesis by simp
  qed (simp add: b(1))
  then have "lists_rep ?s (ps(q := remove1 t (ps q)))"
    using a(2) assms(1) unfolding lists_rep_def same by simp
  moreover have "relinked s ?s" using a by (auto simp: relinked_def)
  ultimately show ?thesis using a(1) b(3) by (intro exI [of _ ?s]) (simp add: list_remove_def)
qed

lemma list_push_law:
  assumes "lists_rep s ps" "il_unowned (k_heap s) t"
  shows "\<exists>s'. list_push s q t = Inr s' \<and> relinked s s' \<and> lists_rep s' (ps(q := ps q @ [t])) \<and>
     (\<forall>u. il_unowned (k_heap s') u \<longleftrightarrow> il_unowned (k_heap s) u \<and> u \<noteq> t)"
proof -
  note r = lists_rep_list [OF assms(1)]
  obtain h l where a: "il_push_back (k_heap s, k_lists s q) t = Inr (h, l)" "ih_live h = ih_live (k_heap s)"
    "il_ending l = il_ending (k_lists s q)" by (rule il_push_run [OF r [of q] assms(2)])
  from il.push_law [OF r [of q] assms(2)] a(1) have b: "il_rep h l (ps q @ [t])" "il_this l = il_this (k_lists s q)"
    "\<And>u. il_unowned h u \<longleftrightarrow> il_unowned (k_heap s) u \<and> u \<noteq> t"
    "\<And>l2 qs. il_rep (k_heap s) l2 qs \<Longrightarrow> il_this l2 \<noteq> il_this (k_lists s q) \<Longrightarrow> il_rep h l2 qs"
    by (auto simp: ok_iff)
  let ?s = "s\<lparr>k_heap := h, k_lists := (k_lists s)(q := l)\<rparr>"
  have same: "il_this (k_lists ?s q') = il_this (k_lists s q')" for q' using b(2) by simp
  have "il_rep (k_heap ?s) (k_lists ?s q') ((ps(q := ps q @ [t])) q')" for q'
  proof (cases "q' = q")
    case False
    then have "il_this (k_lists s q') \<noteq> il_this (k_lists s q)" using assms(1) by (auto simp: lists_rep_def inj_def)
    with False b(4) [OF r] show ?thesis by simp
  qed (simp add: b(1))
  then have "lists_rep ?s (ps(q := ps q @ [t]))"
    using a(2) assms(1) unfolding lists_rep_def same by simp
  moreover have "relinked s ?s" using a by (auto simp: relinked_def)
  ultimately show ?thesis using a(1) b(3) by (intro exI [of _ ?s]) (simp add: list_push_def)
qed

text \<open>Calls that return did something legal.\<close>

lemma list_remove_inv:
  assumes "lists_rep s ps" "list_remove s q t = Inr s'" shows "t \<in> set (ps q)"
proof (rule ccontr)
  assume n: "t \<notin> set (ps q)"
  note r = lists_rep_list [OF assms(1), of q]
  show False
  proof (cases "t \<noteq> 0 \<and> ih_live (k_heap s) t")
    case True
    with il_remove_foreign [OF r _ _ n] assms(2) show False
      using il_rep_head_nz [OF r] by (simp add: list_remove_def il_remove_def)
  next
    case False
    with assms(2) il_rep_head_nz [OF r] show False
      by (auto simp: list_remove_def il_remove_def il_remove_node_def il_is_valid_node_def in_next_def Let_def)
  qed
qed

lemma list_push_inv:
  assumes "lists_rep s ps" "list_push s q t = Inr s'" shows "il_unowned (k_heap s) t"
proof -
  have "t \<noteq> 0 \<and> ih_live (k_heap s) t \<and> ih_owner (k_heap s) t = 0"
    using assms(2) by (auto simp: list_push_def il_push_back_def il_append_node_def in_owner_def assert_then_def
        ASSERT_def Let_def split: if_splits)
  with assms(1) show ?thesis by (simp add: il_unowned_def lists_rep_def)
qed

section \<open>A thread changes its list\<close>

lemma set_tcb_fields [simp]:
  "k_heap (set_tcb s t f) = k_heap s" "k_lists (set_tcb s t f) = k_lists s" "k_current (set_tcb s t f) = k_current s"
  "k_ticks (set_tcb s t f) = k_ticks s" "k_tids (set_tcb s t f) = k_tids s" "k_queues (set_tcb s t f) = k_queues s"
  "k_procs (set_tcb s t f) = k_procs s" "k_tcb (set_tcb s t f) = (k_tcb s)(t := f (k_tcb s t))"
  "k_cr3 (set_tcb s t f) = k_cr3 s" "k_gdt (set_tcb s t f) = k_gdt s"
  by (simp_all add: set_tcb_def)

lemma set_queue_fields [simp]:
  "k_heap (set_queue s q v) = k_heap s" "k_lists (set_queue s q v) = k_lists s" "k_current (set_queue s q v) = k_current s"
  "k_ticks (set_queue s q v) = k_ticks s" "k_tids (set_queue s q v) = k_tids s" "k_tcb (set_queue s q v) = k_tcb s"
  "k_procs (set_queue s q v) = k_procs s" "k_queues (set_queue s q v) = (k_queues s)(q := (k_queues s q)\<lparr>wq_queue := v\<rparr>)"
  by (simp_all add: set_queue_def)

lemma lists_rep_tcb [simp]: "lists_rep (set_tcb s t f) ps = lists_rep s ps"
  by (simp add: lists_rep_def)

lemma lists_rep_queue [simp]: "lists_rep (set_queue s q v) ps = lists_rep s ps"
  by (simp add: lists_rep_def)

lemma set_tcb_twice [simp]: "set_tcb (set_tcb s t f) t g = set_tcb s t (\<lambda>c. g (f c))"
  by (simp add: set_tcb_def)

lemma relinked_trans: "relinked s s1 \<Longrightarrow> relinked s1 s2 \<Longrightarrow> relinked s s2"
  by (simp add: relinked_def)

lemma relinked_tcb: "relinked s s1 \<Longrightarrow> relinked (set_tcb s t f) (set_tcb s1 t f)"
  by (simp add: relinked_def)

lemma move_law:
  assumes "lists_rep s ps" "t \<in> set (ps a)" "a \<noteq> b"
  shows "\<exists>s1. list_remove s a t = Inr s1 \<and> relinked s s1 \<and> (\<forall>f. \<exists>s2. list_push (set_tcb s1 t f) b t = Inr s2 \<and>
     relinked (set_tcb s t f) s2 \<and> lists_rep s2 (ps(a := remove1 t (ps a), b := ps b @ [t])))"
proof -
  obtain s1 where 1: "list_remove s a t = Inr s1" "relinked s s1" "lists_rep s1 (ps(a := remove1 t (ps a)))"
    "il_unowned (k_heap s1) t" using list_remove_law [OF assms(1,2)] by auto
  have "\<exists>s2. list_push (set_tcb s1 t f) b t = Inr s2 \<and> relinked (set_tcb s t f) s2 \<and>
      lists_rep s2 (ps(a := remove1 t (ps a), b := ps b @ [t]))" for f
  proof -
    have "lists_rep (set_tcb s1 t f) (ps(a := remove1 t (ps a)))" "il_unowned (k_heap (set_tcb s1 t f)) t" using 1 by simp_all
    from list_push_law [OF this, of b] obtain s2 where "list_push (set_tcb s1 t f) b t = Inr s2"
      "relinked (set_tcb s1 t f) s2" "lists_rep s2 ((ps(a := remove1 t (ps a)))(b := (ps(a := remove1 t (ps a))) b @ [t]))"
      by auto
    with relinked_trans [OF relinked_tcb [OF 1(2)]] assms(3) show ?thesis by auto
  qed
  with 1 show ?thesis by blast
qed

text \<open>Which list a thread in each state is in, and the invariant that ties the two.\<close>

fun home :: "ThreadState \<Rightarrow> tlist option" where
  "home Ready = Some ready_threads"
| "home BlockedSleep = Some sleeping_threads"
| "home BlockedQueue = Some blocked_threads"
| "home BlockedQueueTimed = Some blocked_timed_threads"
| "home Suspended = None"

definition thread_inv :: "tasking \<Rightarrow> (tlist \<Rightarrow> nat list) \<Rightarrow> bool" where
  "thread_inv s ps \<longleftrightarrow> lists_rep s ps \<and> (\<forall>q. \<forall>t\<in>set (ps q). home (t_state (k_tcb s t)) = Some q)"

lemma thread_inv_move:
  assumes "thread_inv s ps" "a \<noteq> b" "t \<in> set (ps a)" "relinked (set_tcb s t f) s'"
    and "lists_rep s' (ps(a := remove1 t (ps a), b := ps b @ [t]))" "home (t_state (f (k_tcb s t))) = Some b"
  shows "thread_inv s' (ps(a := remove1 t (ps a), b := ps b @ [t]))"
proof -
  have r: "lists_rep s ps" using assms(1) by (simp add: thread_inv_def)
  have "k_tcb s' = (k_tcb s)(t := f (k_tcb s t))" using relinked_fields(1) [OF assms(4)] by simp
  moreover have "t \<notin> set (ps q)" if "q \<noteq> a" for q using lists_rep_disjoint [OF r assms(3)] that by blast
  moreover have "t \<notin> set (remove1 t (ps a))" using lists_rep_distinct [OF r, of a] by simp
  moreover have "set (remove1 t (ps a)) \<subseteq> set (ps a)" by (rule set_remove1_subset)
  ultimately show ?thesis
    using assms(1,2,5,6) unfolding thread_inv_def by (auto simp: subset_iff)
qed

lemma thread_block_law:
  fixes ms :: size_t
  assumes "lists_rep s ps" "t \<in> set (ps ready_threads)"
  defines "b \<equiv> (if ms = 0 then blocked_threads else blocked_timed_threads)"
  shows "\<exists>s'. thread_block s t q ms = Inr s' \<and>
     relinked (set_tcb s t (\<lambda>c. (if ms = 0 then c\<lparr>t_state := BlockedQueue\<rparr>
        else c\<lparr>t_sleep_ticks := sz_add (k_ticks s) ms, t_state := BlockedQueueTimed\<rparr>)\<lparr>t_blocker := q\<rparr>)) s' \<and>
     lists_rep s' (ps(ready_threads := remove1 t (ps ready_threads), b := ps b @ [t]))"
proof -
  have "ready_threads \<noteq> b" by (simp add: b_def)
  from move_law [OF assms(1,2) this] obtain s1 where 1: "list_remove s ready_threads t = Inr s1"
    "\<And>f. \<exists>s2. list_push (set_tcb s1 t f) b t = Inr s2 \<and> relinked (set_tcb s t f) s2 \<and>
       lists_rep s2 (ps(ready_threads := remove1 t (ps ready_threads), b := ps b @ [t]))" by auto
  obtain s2 where 2: "list_push (set_tcb s1 t (\<lambda>c. if ms = 0 then c\<lparr>t_state := BlockedQueue\<rparr>
        else c\<lparr>t_sleep_ticks := sz_add (k_ticks s) ms, t_state := BlockedQueueTimed\<rparr>)) b t = Inr s2"
    "relinked (set_tcb s t (\<lambda>c. if ms = 0 then c\<lparr>t_state := BlockedQueue\<rparr>
        else c\<lparr>t_sleep_ticks := sz_add (k_ticks s) ms, t_state := BlockedQueueTimed\<rparr>)) s2"
    "lists_rep s2 (ps(ready_threads := remove1 t (ps ready_threads), b := ps b @ [t]))" using 1(2) by blast
  from relinked_tcb [OF 2(2), of t "\<lambda>c. c\<lparr>t_blocker := q\<rparr>"] 1(1) 2(1,3) show ?thesis
    by (cases "ms = 0") (auto simp: thread_block_def b_def)
qed

lemma thread_sleep_law:
  assumes "lists_rep s ps" "t \<in> set (ps ready_threads)"
  shows "\<exists>s'. thread_sleep s t ms = Inr s' \<and>
     relinked (set_tcb s t (\<lambda>c. c\<lparr>t_sleep_ticks := sz_add (k_ticks s) ms, t_state := BlockedSleep\<rparr>)) s' \<and>
     lists_rep s' (ps(ready_threads := remove1 t (ps ready_threads), sleeping_threads := ps sleeping_threads @ [t]))"
  using move_law [OF assms, of sleeping_threads] by (auto simp: thread_sleep_def)

lemma thread_wake_up_law:
  assumes "lists_rep s ps" "t \<in> set (ps a)" "home (t_state (k_tcb s t)) = Some a" "a \<noteq> ready_threads"
  shows "\<exists>s'. thread_wake_up s t = Inr s' \<and>
     relinked (set_tcb s t (\<lambda>c. c\<lparr>t_state := Ready, t_blocker := 0\<rparr>)) s' \<and>
     lists_rep s' (ps(a := remove1 t (ps a), ready_threads := ps ready_threads @ [t]))"
proof -
  from move_law [OF assms(1,2,4)] obtain s1 where 1: "list_remove s a t = Inr s1" "relinked s s1"
    "\<And>f. \<exists>s2. list_push (set_tcb s1 t f) ready_threads t = Inr s2 \<and> relinked (set_tcb s t f) s2 \<and>
       lists_rep s2 (ps(a := remove1 t (ps a), ready_threads := ps ready_threads @ [t]))" by auto
  have "set_tcb s1 t (\<lambda>c. c) = s1" "set_tcb s t (\<lambda>c. c) = s" by (simp_all add: set_tcb_def)
  with 1(3) [of "\<lambda>c. c"] obtain s2 where 2: "list_push s1 ready_threads t = Inr s2" "relinked s s2"
    "lists_rep s2 (ps(a := remove1 t (ps a), ready_threads := ps ready_threads @ [t]))" by auto
  from relinked_tcb [OF 2(2), of t "\<lambda>c. c\<lparr>t_state := Ready, t_blocker := 0\<rparr>"] 1(1) 2(1,3) assms(3,4) show ?thesis
    by (cases "t_state (k_tcb s t)") (auto simp: thread_wake_up_def)
qed

section \<open>Every operation keeps the thread lists\<close>

text \<open>Every thread is in at most one list, and in the one of its state.\<close>

definition well_listed :: "tasking \<Rightarrow> bool" where
  "well_listed s \<longleftrightarrow> (\<exists>ps. thread_inv s ps)"

named_theorems listed_intros \<open>operations that keep \<open>well_listed\<close>\<close>

lemma thread_inv_cong:
  "k_heap s' = k_heap s \<Longrightarrow> k_lists s' = k_lists s \<Longrightarrow> (\<And>t. t_state (k_tcb s' t) = t_state (k_tcb s t)) \<Longrightarrow>
   thread_inv s' ps = thread_inv s ps"
  by (simp add: thread_inv_def lists_rep_def)

lemma well_listed_cong:
  "well_listed s \<Longrightarrow> k_heap s' = k_heap s \<Longrightarrow> k_lists s' = k_lists s \<Longrightarrow>
   (\<And>t. t_state (k_tcb s' t) = t_state (k_tcb s t)) \<Longrightarrow> well_listed s'"
  unfolding well_listed_def using thread_inv_cong [of s' s] by blast

lemma thread_block_listed [listed_intros]:
  assumes "well_listed s" "thread_block s t q ms = Inr s'" shows "well_listed s'"
proof -
  obtain ps where i: "thread_inv s ps" using assms(1) by (auto simp: well_listed_def)
  then have r: "lists_rep s ps" by (simp add: thread_inv_def)
  have t: "t \<in> set (ps ready_threads)" using assms(2) list_remove_inv [OF r, of ready_threads t]
    by (cases "list_remove s ready_threads t") (auto simp: thread_block_def)
  from thread_block_law [OF r t, of q ms] assms(2) thread_inv_move [OF i _ t]
  show ?thesis by (fastforce simp: well_listed_def split: if_splits)
qed

lemma thread_sleep_listed [listed_intros]:
  assumes "well_listed s" "thread_sleep s t ms = Inr s'" shows "well_listed s'"
proof -
  obtain ps where i: "thread_inv s ps" using assms(1) by (auto simp: well_listed_def)
  then have r: "lists_rep s ps" by (simp add: thread_inv_def)
  have t: "t \<in> set (ps ready_threads)" using assms(2) list_remove_inv [OF r, of ready_threads t]
    by (cases "list_remove s ready_threads t") (auto simp: thread_sleep_def)
  from thread_sleep_law [OF r t, of ms] assms(2) thread_inv_move [OF i _ t] show ?thesis by (fastforce simp: well_listed_def)
qed

lemma thread_join_ready:
  assumes "thread_inv s ps" "list_push s ready_threads t = Inr s1"
  shows "thread_inv (set_tcb s1 t (\<lambda>c. c\<lparr>t_state := Ready, t_blocker := 0\<rparr>)) (ps(ready_threads := ps ready_threads @ [t]))"
proof -
  have r: "lists_rep s ps" using assms(1) by (simp add: thread_inv_def)
  have u: "il_unowned (k_heap s) t" by (rule list_push_inv [OF r assms(2)])
  have "t \<notin> set (ps q)" for q using il.rep_owned [OF lists_rep_list [OF r, of q]] u by blast
  moreover have "relinked s s1" "lists_rep s1 (ps(ready_threads := ps ready_threads @ [t]))"
    using list_push_law [OF r u, of ready_threads] assms(2) by auto
  ultimately show ?thesis using assms(1) relinked_fields(1) [of s s1] by (auto simp: thread_inv_def)
qed

lemma thread_wake_up_listed [listed_intros]:
  assumes "well_listed s" "thread_wake_up s t = Inr s'" shows "well_listed s'"
proof -
  obtain ps where i: "thread_inv s ps" using assms(1) by (auto simp: well_listed_def)
  then have r: "lists_rep s ps" by (simp add: thread_inv_def)
  show ?thesis
  proof (cases "t_state (k_tcb s t) \<in> {Ready, Suspended}")
    case True
    then have "bindr (list_push s ready_threads t)
        (\<lambda>s2. Inr (set_tcb s2 t (\<lambda>c. c\<lparr>t_state := Ready, t_blocker := 0\<rparr>))) = Inr s'"
      using assms(2) by (auto simp: thread_wake_up_def)
    with thread_join_ready [OF i] show ?thesis by (auto simp: bindr_eq_Inr well_listed_def)
  next
    case False
    then obtain a where a: "home (t_state (k_tcb s t)) = Some a" "a \<noteq> ready_threads"
      "bindr (list_remove s a t) (\<lambda>s1. bindr (list_push s1 ready_threads t)
        (\<lambda>s2. Inr (set_tcb s2 t (\<lambda>c. c\<lparr>t_state := Ready, t_blocker := 0\<rparr>)))) = Inr s'"
      using assms(2) by (cases "t_state (k_tcb s t)") (auto simp: thread_wake_up_def)
    then have t: "t \<in> set (ps a)" using list_remove_inv [OF r, of a t] by (cases "list_remove s a t") auto
    from thread_wake_up_law [OF r t a(1,2)] assms(2) thread_inv_move [OF i a(2) t]
    show ?thesis by (fastforce simp: well_listed_def)
  qed
qed

lemma well_listed_set_queue [listed_intros]: "well_listed s \<Longrightarrow> well_listed (set_queue s q v)"
  by (rule well_listed_cong) simp_all

lemma wake_up_queue_listed [listed_intros]:
  "well_listed s \<Longrightarrow> wake_up_queue s q i = Inr s' \<Longrightarrow> well_listed s'"
  by (auto simp: wake_up_queue_def bindr_eq_Inr intro: listed_intros)

lemma wq_wake_up_listed [listed_intros]: "well_listed s \<Longrightarrow> wq_wake_up s q = Inr s' \<Longrightarrow> well_listed s'"
  by (auto simp: wq_wake_up_def bindr_eq_Inr assert_then_def ASSERT_def intro: listed_intros split: if_splits)

lemma wake_up_all_loop_listed: "well_listed s \<Longrightarrow> wake_up_all_loop fuel q i s = Inr s' \<Longrightarrow> well_listed s'"
proof (induction fuel arbitrary: i s)
  case 0
  then show ?case by (simp add: wake_up_all_loop.simps split: if_splits)
next
  case (Suc fuel)
  from Suc.prems show ?case
    by (subst (asm) wake_up_all_loop.simps)
      (auto simp: bindr_eq_Inr split: if_splits intro: Suc.IH wake_up_queue_listed)
qed

lemma wq_wake_up_all_listed [listed_intros]: "well_listed s \<Longrightarrow> wq_wake_up_all s q = Inr s' \<Longrightarrow> well_listed s'"
  unfolding wq_wake_up_all_def by (rule wake_up_all_loop_listed)

lemma handle_thread_timeout_listed [listed_intros]:
  "well_listed s \<Longrightarrow> handle_thread_timeout s q t = Inr s' \<Longrightarrow> well_listed s'"
  by (auto simp: handle_thread_timeout_def bindr_eq_Inr assert_then_def ASSERT_def
      intro: well_listed_set_queue split: if_splits)

lemma timeout_body_listed: "well_listed s \<Longrightarrow> timeout_body s t = Inr s' \<Longrightarrow> well_listed s'"
  unfolding timeout_body_def bindr_eq_Inr by (blast intro: handle_thread_timeout_listed thread_wake_up_listed)

lemma due_loop_end: "i = il_ending (k_lists s q) \<Longrightarrow> due_loop q body fuel i s = Inr s"
  by (simp add: due_loop.simps)

lemma due_loop_step:
  "i \<noteq> il_ending (k_lists s q) \<Longrightarrow> due_loop q body (Suc fuel) i s =
     bindr (il_it_inc (k_heap s) i) (\<lambda>i'. bindr (il_deref (k_heap s) i) (\<lambda>t.
       bindr (if t_sleep_ticks (k_tcb s t) \<le> k_ticks s
              then body (set_tcb s t (\<lambda>c. c\<lparr>t_sleep_ticks := 0\<rparr>)) t else Inr s) (due_loop q body fuel i')))"
  by (simp add: due_loop.simps [of q body "Suc fuel"])

lemma due_loop_listed:
  assumes "\<And>s t s'. well_listed s \<Longrightarrow> body s t = Inr s' \<Longrightarrow> well_listed s'"
  shows "well_listed s \<Longrightarrow> due_loop q body fuel i s = Inr s' \<Longrightarrow> well_listed s'"
proof (induction fuel arbitrary: i s)
  case 0
  then show ?case by (simp add: due_loop.simps split: if_splits)
next
  case (Suc fuel)
  have "well_listed (set_tcb s t (\<lambda>c. c\<lparr>t_sleep_ticks := 0\<rparr>))" for t
    by (rule well_listed_cong [OF Suc.prems(1)]) auto
  note sl = this
  show ?case
  proof (cases "i = il_ending (k_lists s q)")
    case True
    with Suc.prems show ?thesis by (simp add: due_loop_end)
  next
    case False
    from Suc.prems(2) [unfolded due_loop_step [OF False] bindr_eq_Inr] obtain i' t s1 where
      l: "due_loop q body fuel i' s1 = Inr s'"
      and "(if t_sleep_ticks (k_tcb s t) \<le> k_ticks s
           then body (set_tcb s t (\<lambda>c. c\<lparr>t_sleep_ticks := 0\<rparr>)) t else Inr s) = Inr s1" by blast
    then have "well_listed s1" using Suc.prems(1) assms [OF sl] by (simp split: if_splits)
    then show ?thesis using Suc.IH l by blast
  qed
qed

lemma wake_up_sleepers_listed [listed_intros]:
  assumes "well_listed s" "wake_up_sleepers s = Inr s'" shows "well_listed s'"
proof -
  from assms(2) obtain i j s1 n m where "due_loop sleeping_threads thread_wake_up n i s = Inr s1"
    "due_loop blocked_timed_threads timeout_body m j s1 = Inr s'"
    by (auto simp: wake_up_sleepers_def bindr_eq_Inr)
  then show ?thesis
    by (metis assms(1) due_loop_listed thread_wake_up_listed timeout_body_listed)
qed

text \<open>The scheduler's last step, once the next thread is chosen.\<close>

definition switch_to :: "isr_frame \<Rightarrow> tasking \<Rightarrow> nat \<Rightarrow> (isr_frame \<times> tasking) run" where
  "switch_to f s n = (if n \<noteq> k_current s then
       (let s3 = (if p_pid (k_procs s (t_parent (k_tcb s n))) \<noteq> p_pid (k_procs s (t_parent (k_tcb s (k_current s))))
                  then s\<lparr>k_cr3 := p_page_directory (k_procs s (t_parent (k_tcb s n)))\<rparr> else s)
        in load_context f (s3\<lparr>k_current := n\<rparr>) n)
     else Inr (f, s))"

lemma schedule_alt:
  "schedule f type s = assert_then (k_current s \<noteq> 0)
     (bindr (if type = Timed then wake_up_sleepers s else Inr s) (\<lambda>s1.
      let s2 = save_context f s1 (k_current s1) in bindr (select_next_thread s2) (switch_to f s2)))"
  by (simp add: schedule_def switch_to_def [abs_def] Let_def)

lemma switch_to_same:
  assumes "switch_to f s n = Inr (f', s')"
  shows "k_heap s' = k_heap s" "k_lists s' = k_lists s" "k_tcb s' = k_tcb s" "k_queues s' = k_queues s"
    "k_ticks s' = k_ticks s" "k_procs s' = k_procs s" "k_tids s' = k_tids s"
  using assms by (auto simp: switch_to_def load_context_def Let_def bindr_eq_Inr split: if_splits)

lemma schedule_listed [listed_intros]:
  assumes "well_listed s" "schedule f ty s = Inr (f', s')" shows "well_listed s'"
proof -
  from assms(2) obtain s1 n where s1: "s1 = s \<or> wake_up_sleepers s = Inr s1"
    and n: "switch_to f (save_context f s1 (k_current s1)) n = Inr (f', s')"
    by (auto simp: schedule_alt bindr_eq_Inr assert_then_def ASSERT_def Let_def split: if_splits)
  have "well_listed s1" using s1 assms(1) by (auto intro: wake_up_sleepers_listed)
  then have "well_listed (save_context f s1 (k_current s1))"
    by (rule well_listed_cong) (simp_all add: save_context_def)
  then show ?thesis by (rule well_listed_cong) (simp_all add: switch_to_same [OF n])
qed

end
