(* ===== verification/Scheduling.thy ===== *)
theory Scheduling
  imports Threads
begin

text \<open>
  What the tasking operations of Threads do together: the step relation of the kernel's tasking
  state and the invariant it keeps, the exact effect of waking the sleepers, round robin
  selection, and the behaviour of wait queues.
\<close>

section \<open>Creation and termination keep the thread lists\<close>

lemma lists_rep_add_node:
  assumes "lists_rep s ps" "\<not> ih_live (k_heap s) t" "t \<noteq> 0" "t < sz_range"
  shows "lists_rep (s\<lparr>k_heap := node_init (k_heap s) t 0 0 0\<rparr>) ps \<and> il_unowned (node_init (k_heap s) t 0 0 0) t"
proof -
  have "il_rep (node_init (k_heap s) t 0 0 0) (k_lists s q) (ps q)" for q
  proof -
    have r: "il_rep (k_heap s) (k_lists s q) (ps q)" by (rule lists_rep_list [OF assms(1)])
    then have t: "t \<notin> set (il_ending (k_lists s q) # ps q)" using assms(2) by (auto simp: il_rep_def)
    with r show ?thesis by (auto simp: il_rep_def node_init_def)
  qed
  with assms show ?thesis by (auto simp: lists_rep_def node_init_def il_unowned_def)
qed

lemma lists_rep_drop_node:
  assumes "lists_rep s ps" "il_unowned (k_heap s) t"
  shows "lists_rep (s\<lparr>k_heap := (k_heap s)\<lparr>ih_live := (ih_live (k_heap s))(t := False)\<rparr>\<rparr>) ps"
proof -
  have "il_rep ((k_heap s)\<lparr>ih_live := (ih_live (k_heap s))(t := False)\<rparr>) (k_lists s q) (ps q)" for q
  proof -
    have r: "il_rep (k_heap s) (k_lists s q) (ps q)" by (rule lists_rep_list [OF assms(1)])
    then have "t \<notin> set (il_ending (k_lists s q) # ps q)"
      using assms(2) il_rep_owner [OF r, of t] by (auto simp: il_rep_def il_unowned_def)
    with r show ?thesis by (auto simp: il_rep_def)
  qed
  with assms(1) show ?thesis by (simp add: lists_rep_def)
qed

lemma thread_inv_fresh:
  assumes "thread_inv s ps" "\<not> ih_live (k_heap s) t" shows "t \<notin> set (ps q)"
proof
  assume "t \<in> set (ps q)"
  moreover have "lists_rep s ps" using assms(1) by (simp add: thread_inv_def)
  ultimately show False using lists_rep_live [of s ps t q q] assms(2) by blast
qed

lemma create_thread_listed [listed_intros]:
  assumes "well_listed s" "\<not> ih_live (k_heap s) t" "t \<noteq> 0" "t < sz_range"
    and c: "create_thread s t process entry priv kstack tib start old = Inr s'"
  shows "well_listed s'"
proof -
  obtain ps where i: "thread_inv s ps" using assms(1) by (auto simp: well_listed_def)
  from c obtain s1 s2 where s1: "thread_new s t process entry priv kstack tib start old = Inr s1"
    and s2: "list_push s1 ready_threads t = Inr s2" "s' = list_new_thread s2 process t"
    unfolding create_thread_def by (elim bindr_InrE) simp
  from s1 obtain id s0 where r: "reserve_tid s = Inr (id, s0)"
    unfolding thread_new_def by (elim bindr_InrE) (simp split: prod.splits)
  then obtain b where "s0 = s\<lparr>k_tids := b\<rparr>" unfolding reserve_tid_def by (auto elim!: bindr_InrE)
  then have s0: "k_heap s0 = k_heap s" "k_lists s0 = k_lists s" "k_tcb s0 = k_tcb s" by simp_all
  have h1: "k_heap s1 = node_init (k_heap s) t 0 0 0" "k_lists s1 = k_lists s"
    "\<And>u. u \<noteq> t \<Longrightarrow> k_tcb s1 u = k_tcb s u" "t_state (k_tcb s1 t) = Ready"
    using s1 by (auto simp: thread_new_def r s0 Let_def split: prod.splits)
  have rep1: "lists_rep s1 ps" "il_unowned (k_heap s1) t"
    using lists_rep_add_node [OF _ assms(2-4), of ps] i
      lists_rep_cong [of s1 "s\<lparr>k_heap := node_init (k_heap s) t 0 0 0\<rparr>" ps]
    unfolding thread_inv_def by (simp_all add: h1(1,2))
  from list_push_law [OF rep1, of ready_threads] s2(1)
  have 2: "relinked s1 s2" "lists_rep s2 (ps(ready_threads := ps ready_threads @ [t]))" by auto
  have fresh: "t \<notin> set (ps q)" for q by (rule thread_inv_fresh [OF i assms(2)])
  have "thread_inv s2 (ps(ready_threads := ps ready_threads @ [t]))"
    unfolding thread_inv_def
  proof (intro conjI allI ballI)
    fix q u assume u: "u \<in> set ((ps(ready_threads := ps ready_threads @ [t])) q)"
    show "home (t_state (k_tcb s2 u)) = Some q"
    proof (cases "u = t")
      case True
      then have "q = ready_threads" using u fresh by (auto split: if_splits)
      with True h1(4) relinked_fields(1) [OF 2(1)] show ?thesis by simp
    next
      case False
      then have "u \<in> set (ps q)" using u by (auto split: if_splits)
      with i False h1(3) relinked_fields(1) [OF 2(1)] show ?thesis by (simp add: thread_inv_def)
    qed
  qed (rule 2(2))
  then have "thread_inv s' (ps(ready_threads := ps ready_threads @ [t]))"
    using thread_inv_cong [of s' s2] s2(2) by (simp add: list_new_thread_def)
  then show ?thesis by (auto simp: well_listed_def)
qed

lemma thread_inv_leave:
  assumes "thread_inv s ps" "list_remove s a t = Inr s1"
  shows "thread_inv s1 (ps(a := remove1 t (ps a))) \<and> il_unowned (k_heap s1) t \<and> k_tcb s1 = k_tcb s"
proof -
  have r: "lists_rep s ps" using assms(1) by (simp add: thread_inv_def)
  have t: "t \<in> set (ps a)" by (rule list_remove_inv [OF r assms(2)])
  from list_remove_law [OF r t] assms(2) have 1: "relinked s s1" "lists_rep s1 (ps(a := remove1 t (ps a)))"
    "il_unowned (k_heap s1) t" by auto
  have "set (remove1 t (ps a)) \<subseteq> set (ps a)" by (rule set_remove1_subset)
  with 1 assms(1) relinked_fields(1) [OF 1(1)] show ?thesis by (auto simp: thread_inv_def subset_iff)
qed

lemma handle_thread_terminated_same:
  "handle_thread_terminated s q t = Inr s' \<Longrightarrow> \<exists>v. s' = set_queue s q v"
  by (auto simp: handle_thread_terminated_def bindr_eq_Inr assert_then_def ASSERT_def split: if_splits)

lemma terminate_cleanup_listed:
  assumes "thread_inv s2 ps" "il_unowned (k_heap s2) t" "thread_cleanup (unlist_new_thread s2 p t) t = Inr s'"
  shows "well_listed s'"
proof -
  let ?u = "unlist_new_thread s2 p t"
  from assms(3) obtain b where
    "(Inr (?u\<lparr>k_tids := b, k_heap := (k_heap ?u)\<lparr>ih_live := (ih_live (k_heap ?u))(t := False)\<rparr>\<rparr>) :: tasking run) = Inr s'"
    unfolding thread_cleanup_def by (elim run_elims)
  then have "s' = ?u\<lparr>k_tids := b, k_heap := (k_heap ?u)\<lparr>ih_live := (ih_live (k_heap ?u))(t := False)\<rparr>\<rparr>"
    by (simp only: sum.inject)
  then have s': "k_heap s' = (k_heap s2)\<lparr>ih_live := (ih_live (k_heap s2))(t := False)\<rparr>" "k_lists s' = k_lists s2"
    "k_tcb s' = k_tcb s2" by (simp_all add: unlist_new_thread_def)
  from lists_rep_drop_node [of s2 ps t] assms(1,2) have "lists_rep s' ps"
    using lists_rep_cong [of s' "s2\<lparr>k_heap := k_heap s'\<rparr>" ps] unfolding thread_inv_def by (simp add: s')
  with assms(1) s' show ?thesis by (auto simp: well_listed_def thread_inv_def)
qed

lemma thread_terminate_listed [listed_intros]:
  assumes "well_listed s" "thread_terminate s t = Inr s'" shows "well_listed s'"
proof -
  obtain ps where i: "thread_inv s ps" using assms(1) by (auto simp: well_listed_def)
  from assms(2) obtain s2 where m: "(case t_state (k_tcb s t) of
              Ready \<Rightarrow> list_remove s ready_threads t
            | BlockedSleep \<Rightarrow> list_remove s sleeping_threads t
            | BlockedQueue \<Rightarrow> assert_then (t_blocker (k_tcb s t) \<noteq> 0)
                (bindr (list_remove s blocked_threads t) (\<lambda>s1. handle_thread_terminated s1 (t_blocker (k_tcb s t)) t))
            | BlockedQueueTimed \<Rightarrow> assert_then (t_blocker (k_tcb s t) \<noteq> 0)
                (bindr (list_remove s blocked_timed_threads t) (\<lambda>s1. handle_thread_terminated s1 (t_blocker (k_tcb s t)) t))
            | Suspended \<Rightarrow> Inl NotReachable) = Inr s2"
    and c: "thread_cleanup (unlist_new_thread s2 (t_parent (k_tcb s t)) t) t = Inr s'"
    unfolding thread_terminate_def by (elim bindr_InrE)
  from m obtain a s1 where a: "list_remove s a t = Inr s1"
    and s2: "s2 = s1 \<or> handle_thread_terminated s1 (t_blocker (k_tcb s t)) t = Inr s2"
    by (cases "t_state (k_tcb s t)") (auto simp: bindr_eq_Inr assert_then_def ASSERT_def split: if_splits)
  from thread_inv_leave [OF i a] have "thread_inv s1 (ps(a := remove1 t (ps a)))" "il_unowned (k_heap s1) t" by auto
  moreover have "k_heap s2 = k_heap s1" "k_lists s2 = k_lists s1" "k_tcb s2 = k_tcb s1"
    using s2 by (auto dest!: handle_thread_terminated_same)
  ultimately have "thread_inv s2 (ps(a := remove1 t (ps a)))" "il_unowned (k_heap s2) t"
    using thread_inv_cong [of s2 s1] by auto
  then show ?thesis by (rule terminate_cleanup_listed [OF _ _ c])
qed

section \<open>The step relation\<close>

text \<open>
  One step is one call into the tasking code that returns: by the running thread (sleep, wait,
  leave a wait queue), by any code that holds a wait queue (wake up), by the timer and by thread
  creation and termination.
\<close>

inductive tasking_step :: "tasking \<Rightarrow> tasking \<Rightarrow> bool" where
  step_sleep: "thread_sleep s (k_current s) ms = Inr s' \<Longrightarrow> tasking_step s s'"
| step_wait: "wait_enter s q ms = Inr (it, s') \<Longrightarrow> tasking_step s s'"
| step_event: "wait_on_event_enter s q ms checker = Inr (it', s') \<Longrightarrow> tasking_step s s'"
| step_event_resume: "wait_on_event_resume s q ms it checker = Inr (r, s') \<Longrightarrow> tasking_step s s'"
| step_leave: "wait_leave s q it = Inr (st, s') \<Longrightarrow> tasking_step s s'"
| step_wake: "wq_wake_up s q = Inr s' \<Longrightarrow> tasking_step s s'"
| step_wake_all: "wq_wake_up_all s q = Inr s' \<Longrightarrow> tasking_step s s'"
| step_create: "create_thread s t process entry priv kstack tib start old = Inr s' \<Longrightarrow>
    \<not> ih_live (k_heap s) t \<Longrightarrow> t \<noteq> 0 \<Longrightarrow> t < sz_range \<Longrightarrow> tasking_step s s'"
| step_terminate: "thread_terminate s t = Inr s' \<Longrightarrow> tasking_step s s'"
| step_yield: "schedule_handler frame s = Inr (frame', s') \<Longrightarrow> tasking_step s s'"
| step_timer: "pit_handler frame s = Inr (frame', s') \<Longrightarrow> tasking_step s s'"

lemma enqueue_listed [listed_intros]: "well_listed s \<Longrightarrow> wq_enqueue s q = Inr (it, s') \<Longrightarrow> well_listed s'"
  by (auto simp: wq_enqueue_def bindr_eq_Inr intro: well_listed_set_queue)

lemma wait_leave_listed [listed_intros]: "well_listed s \<Longrightarrow> wait_leave s q it = Inr (st, s') \<Longrightarrow> well_listed s'"
  by (auto simp: wait_leave_def bindr_eq_Inr intro: well_listed_set_queue)

lemma tasking_step_listed: "tasking_step s s' \<Longrightarrow> well_listed s \<Longrightarrow> well_listed s'"
proof (induction rule: tasking_step.induct)
  case (step_wait s q ms it s')
  then obtain s1 where "thread_block s (k_current s) q ms = Inr s1" "wq_enqueue s1 q = Inr (it, s')"
    unfolding wait_enter_def by (elim bindr_InrE)
  with step_wait.prems show ?case by (blast intro: thread_block_listed enqueue_listed)
next
  case (step_event s q ms checker it s')
  from step_event.hyps step_event.prems show ?case
  proof (cases checker)
    case True
    with step_event.hyps obtain i s1 s2 where "wq_enqueue s q = Inr (i, s1)" "thread_block s1 (k_current s1) q ms = Inr s'"
      unfolding wait_on_event_enter_def by (auto elim!: bindr_InrE)
    with step_event.prems show ?thesis by (blast intro: thread_block_listed enqueue_listed)
  qed (simp add: wait_on_event_enter_def)
next
  case (step_event_resume s q ms it checker r s')
  from step_event_resume.hyps obtain again where "(if again
      then bindr (thread_block s (k_current s) q ms) (\<lambda>s1. Inr (None, s1))
      else bindr (wait_leave s q it) (\<lambda>(st, s1). Inr (Some st, s1))) = Inr (r, s')"
    unfolding wait_on_event_resume_def by (elim bindr_InrE)
  with step_event_resume.prems show ?case
    by (cases again) (auto elim!: bindr_InrE intro: wait_leave_listed thread_block_listed)
next
  case (step_timer frame s frame' s')
  then obtain s1 where "schedule frame Timed s = Inr (frame', s1)" "s' = s1\<lparr>k_ticks := sz_add (k_ticks s1) 1\<rparr>"
    by (auto simp: pit_handler_def bindr_eq_Inr)
  with step_timer.prems schedule_listed have "well_listed s1" by blast
  then show ?case by (rule well_listed_cong) (simp_all add: \<open>s' = _\<close>)
qed (unfold schedule_handler_def, (blast intro: listed_intros)+)

section \<open>Waking the sleepers\<close>

definition due :: "tasking \<Rightarrow> nat \<Rightarrow> bool" where
  "due s t \<longleftrightarrow> t_sleep_ticks (k_tcb s t) \<le> k_ticks s"

abbreviation queue_of :: "tasking \<Rightarrow> nat \<Rightarrow> waiter vector" where
  "queue_of s q \<equiv> wq_queue (k_queues s q)"

text \<open>A thread that waits with a timeout has an entry in the queue that blocks it.\<close>

definition waits :: "tasking \<Rightarrow> nat \<Rightarrow> bool" where
  "waits s t \<longleftrightarrow> (\<exists>ws. vec_rep (queue_of s (t_blocker (k_tcb s t))) ws \<and> (\<exists>w\<in>set ws. same_tid s t w))"

definition timed_out :: "tasking \<Rightarrow> nat \<Rightarrow> nat \<Rightarrow> bool" where
  "timed_out s q t \<longleftrightarrow> (\<exists>ws. vec_rep (queue_of s q) ws \<and> (\<exists>w\<in>set ws. same_tid s t w \<and> w_state w = Timeout))"

text \<open>The wait queues keep their entries; the only change of an entry is that it times out.\<close>

definition queues_timeout :: "tasking \<Rightarrow> tasking \<Rightarrow> bool" where
  "queues_timeout s s' \<longleftrightarrow> (\<forall>q ws. vec_rep (queue_of s q) ws \<longrightarrow> (\<exists>ws'. vec_rep (queue_of s' q) ws' \<and>
     list_all2 (\<lambda>w w'. w' = w \<or> w' = w\<lparr>w_state := Timeout\<rparr>) ws ws'))"

lemma queues_timeout_refl: "k_queues s' = k_queues s \<Longrightarrow> queues_timeout s s'"
  by (auto simp: queues_timeout_def intro!: exI list_all2_refl)

lemma queues_timeout_trans:
  assumes "queues_timeout s s1" "queues_timeout s1 s2" shows "queues_timeout s s2"
  unfolding queues_timeout_def
proof (intro allI impI)
  fix q ws assume "vec_rep (queue_of s q) ws"
  with assms obtain ws1 ws2 where 1: "list_all2 (\<lambda>w w'. w' = w \<or> w' = w\<lparr>w_state := Timeout\<rparr>) ws ws1"
    and 2: "vec_rep (queue_of s2 q) ws2" "list_all2 (\<lambda>w w'. w' = w \<or> w' = w\<lparr>w_state := Timeout\<rparr>) ws1 ws2"
    unfolding queues_timeout_def by blast
  have "list_all2 (\<lambda>w w'. w' = w \<or> w' = w\<lparr>w_state := Timeout\<rparr>) ws ws2"
    by (rule list_all2_trans [OF _ 1 2(2)]) auto
  with 2(1) show "\<exists>ws'. vec_rep (queue_of s2 q) ws' \<and> list_all2 (\<lambda>w w'. w' = w \<or> w' = w\<lparr>w_state := Timeout\<rparr>) ws ws'"
    by blast
qed

lemma list_all2_in: "list_all2 P xs ys \<Longrightarrow> x \<in> set xs \<Longrightarrow> \<exists>y\<in>set ys. P x y"
  by (induction rule: list_all2_induct) auto

lemma queues_timeout_entry:
  assumes "queues_timeout s s'" "vec_rep (queue_of s q) ws" "w \<in> set ws"
  obtains ws' w' where "vec_rep (queue_of s' q) ws'" "w' \<in> set ws'" "w' = w \<or> w' = w\<lparr>w_state := Timeout\<rparr>"
proof -
  obtain ws' where ws': "vec_rep (queue_of s' q) ws'"
    and l: "list_all2 (\<lambda>w w'. w' = w \<or> w' = w\<lparr>w_state := Timeout\<rparr>) ws ws'"
    using assms(1,2) unfolding queues_timeout_def by blast
  from list_all2_in [OF l assms(3)] that [OF ws'] show ?thesis by blast
qed

text \<open>What waking one due thread does.\<close>

definition woken :: "tlist \<Rightarrow> tasking \<Rightarrow> nat \<Rightarrow> tasking \<Rightarrow> bool" where
  "woken q s t s' \<longleftrightarrow> k_tcb s' = (k_tcb s)(t := (k_tcb s t)\<lparr>t_state := Ready, t_blocker := 0\<rparr>) \<and>
     queues_timeout s s' \<and> k_ticks s' = k_ticks s \<and> k_current s' = k_current s \<and> k_procs s' = k_procs s \<and>
     k_gdt s' = k_gdt s \<and> (\<forall>a. il_ending (k_lists s' a) = il_ending (k_lists s a)) \<and>
     (q = blocked_timed_threads \<longrightarrow> timed_out s' (t_blocker (k_tcb s t)) t)"

lemma same_tid_cong: "(\<And>u. t_tid (k_tcb s' u) = t_tid (k_tcb s u)) \<Longrightarrow> same_tid s' t = same_tid s t"
  by (simp add: same_tid_def fun_eq_iff)

lemma waits_mono:
  assumes "waits s t" "queues_timeout s s'" "t_blocker (k_tcb s' t) = t_blocker (k_tcb s t)"
    and "\<And>u. t_tid (k_tcb s' u) = t_tid (k_tcb s u)"
  shows "waits s' t"
proof -
  note eq = same_tid_cong [of s' s t, OF assms(4)]
  obtain ws w where w: "vec_rep (queue_of s (t_blocker (k_tcb s t))) ws" "w \<in> set ws" "same_tid s t w"
    using assms(1) by (auto simp: waits_def)
  obtain ws' w' where "vec_rep (queue_of s' (t_blocker (k_tcb s t))) ws'" "w' \<in> set ws'"
    "w' = w \<or> w' = w\<lparr>w_state := Timeout\<rparr>" by (rule queues_timeout_entry [OF assms(2) w(1,2)])
  moreover from this(3) w(3) have "same_tid s t w'" by (auto simp: same_tid_def)
  ultimately show ?thesis unfolding waits_def assms(3) eq by blast
qed

lemma timed_out_mono:
  assumes "timed_out s q t" "queues_timeout s s'" "\<And>u. t_tid (k_tcb s' u) = t_tid (k_tcb s u)"
  shows "timed_out s' q t"
proof -
  note eq = same_tid_cong [of s' s t, OF assms(3)]
  obtain ws w where w: "vec_rep (queue_of s q) ws" "w \<in> set ws" "same_tid s t w" "w_state w = Timeout"
    using assms(1) by (auto simp: timed_out_def)
  obtain ws' w' where "vec_rep (queue_of s' q) ws'" "w' \<in> set ws'" "w' = w \<or> w' = w\<lparr>w_state := Timeout\<rparr>"
    by (rule queues_timeout_entry [OF assms(2) w(1,2)])
  moreover from this(3) w(3,4) have "same_tid s t w'" "w_state w' = Timeout" by (auto simp: same_tid_def)
  ultimately show ?thesis unfolding timed_out_def eq by blast
qed

lemma woken_tid: "woken q s t s' \<Longrightarrow> t_tid (k_tcb s' u) = t_tid (k_tcb s u)"
  by (simp add: woken_def)

lemma due_loop_law:
  assumes body: "\<And>s ps t. thread_inv s ps \<Longrightarrow> t \<in> set (ps q) \<Longrightarrow> q = blocked_timed_threads \<longrightarrow> waits s t \<Longrightarrow>
      \<exists>s'. body s t = Inr s' \<and> woken q s t s' \<and> thread_inv s' (ps(q := remove1 t (ps q), ready_threads := ps ready_threads @ [t]))"
    and q: "q \<noteq> ready_threads"
  shows "thread_inv s ps \<Longrightarrow> ps q = ks @ rs \<Longrightarrow> length rs \<le> fuel \<Longrightarrow>
    q = blocked_timed_threads \<longrightarrow> (\<forall>t\<in>set rs. waits s t) \<Longrightarrow>
    \<exists>s'. due_loop q body fuel (il_node (k_lists s q) (ps q) (length ks)) s = Inr s' \<and>
      thread_inv s' (ps(q := ks @ filter (\<lambda>t. \<not> due s t) rs, ready_threads := ps ready_threads @ filter (due s) rs)) \<and>
      k_tcb s' = (\<lambda>u. if u \<in> set rs \<and> due s u
         then (k_tcb s u)\<lparr>t_sleep_ticks := 0, t_state := Ready, t_blocker := 0\<rparr> else k_tcb s u) \<and>
      queues_timeout s s' \<and> k_ticks s' = k_ticks s \<and> k_current s' = k_current s \<and> k_procs s' = k_procs s \<and>
      k_gdt s' = k_gdt s \<and>
      (q = blocked_timed_threads \<longrightarrow> (\<forall>t\<in>set rs. due s t \<longrightarrow> timed_out s' (t_blocker (k_tcb s t)) t))"
proof (induction rs arbitrary: s ps ks fuel)
  case Nil
  have "il_node (k_lists s q) (ps q) (length ks) = il_ending (k_lists s q)" using Nil.prems(2) by (simp add: il_node_def)
  with Nil.prems show ?case by (auto simp: due_loop_end queues_timeout_refl fun_upd_idem)
next
  case (Cons t rs)
  let ?l = "k_lists s q"
  have r: "il_rep (k_heap s) ?l (ps q)" using Cons.prems(1) lists_rep_list by (simp add: thread_inv_def)
  have t: "t \<in> set (ps q)" and lr: "lists_rep s ps" using Cons.prems(1,2) by (auto simp: thread_inv_def)
  have dis: "distinct (ks @ t # rs)" using lists_rep_distinct [OF lr, of q] Cons.prems(2) by simp
  have k: "length ks < length (ps q)" "il_node ?l (ps q) (length ks) = t" using Cons.prems(2) by (simp_all add: il_node_def)
  have ne: "t \<noteq> il_ending ?l" using lists_rep_live [OF lr t] by blast
  obtain fuel' where f: "fuel = Suc fuel'" using Cons.prems(3) by (cases fuel) auto
  let ?i' = "il_node ?l (ps q) (Suc (length ks))"
  have step: "due_loop q body fuel t s = bindr (if due s t then body (set_tcb s t (\<lambda>c. c\<lparr>t_sleep_ticks := 0\<rparr>)) t
       else Inr s) (due_loop q body fuel' ?i')"
    using due_loop_step [OF ne, of body fuel'] il_inc_law [OF r k(1)] il_deref_law [OF r t] k(2) f by (simp add: due_def)
  show ?case
  proof (cases "due s t")
    case False
    have "ps q = (ks @ [t]) @ rs" "length rs \<le> fuel'" "q = blocked_timed_threads \<longrightarrow> (\<forall>u\<in>set rs. waits s u)"
      using Cons.prems(2,3,4) f by simp_all
    from Cons.IH [OF Cons.prems(1) this] obtain s' where
      s': "due_loop q body fuel' (il_node ?l (ps q) (length (ks @ [t]))) s = Inr s'"
      "thread_inv s' (ps(q := (ks @ [t]) @ filter (\<lambda>t. \<not> due s t) rs, ready_threads := ps ready_threads @ filter (due s) rs))"
      "k_tcb s' = (\<lambda>u. if u \<in> set rs \<and> due s u
         then (k_tcb s u)\<lparr>t_sleep_ticks := 0, t_state := Ready, t_blocker := 0\<rparr> else k_tcb s u)"
      "queues_timeout s s' \<and> k_ticks s' = k_ticks s \<and> k_current s' = k_current s \<and> k_procs s' = k_procs s \<and>
       k_gdt s' = k_gdt s"
      "q = blocked_timed_threads \<longrightarrow> (\<forall>t\<in>set rs. due s t \<longrightarrow> timed_out s' (t_blocker (k_tcb s t)) t)"
      by blast
    have "due_loop q body fuel (il_node ?l (ps q) (length ks)) s = Inr s'"
      unfolding k(2) step using False s'(1) by simp
    moreover have "k_tcb s' = (\<lambda>u. if u \<in> set (t # rs) \<and> due s u
         then (k_tcb s u)\<lparr>t_sleep_ticks := 0, t_state := Ready, t_blocker := 0\<rparr> else k_tcb s u)"
      using s'(3) False by (auto simp: fun_eq_iff)
    ultimately show ?thesis using s'(2,4,5) False by (intro exI [of _ s']) (auto simp: fun_upd_def)
  next
    case True
    let ?s0 = "set_tcb s t (\<lambda>c. c\<lparr>t_sleep_ticks := 0\<rparr>)"
    have i0: "thread_inv ?s0 ps" using thread_inv_cong [of ?s0 s ps] Cons.prems(1) by simp
    have "q = blocked_timed_threads \<longrightarrow> waits ?s0 t"
      using Cons.prems(4) waits_mono [of s t ?s0] by (simp add: queues_timeout_refl)
    from body [OF i0 t this] obtain s1 where s1: "body ?s0 t = Inr s1" "woken q ?s0 t s1"
      "thread_inv s1 (ps(q := remove1 t (ps q), ready_threads := ps ready_threads @ [t]))" by blast
    let ?ps1 = "ps(q := remove1 t (ps q), ready_threads := ps ready_threads @ [t])"
    have ps1: "?ps1 q = ks @ rs" using q dis Cons.prems(2) by (simp add: remove1_append)
    have w: "k_tcb s1 = (k_tcb s)(t := (k_tcb s t)\<lparr>t_sleep_ticks := 0, t_state := Ready, t_blocker := 0\<rparr>)"
      "queues_timeout s s1" "k_ticks s1 = k_ticks s" "k_current s1 = k_current s" "k_procs s1 = k_procs s"
      "k_gdt s1 = k_gdt s" "il_ending (k_lists s1 q) = il_ending ?l"
      "q = blocked_timed_threads \<longrightarrow> timed_out s1 (t_blocker (k_tcb s t)) t"
      using s1(2) queues_timeout_trans [of s ?s0 s1] by (auto simp: woken_def queues_timeout_refl)
    have other: "due s1 u = due s u" "k_tcb s1 u = k_tcb s u" if "u \<in> set rs" for u
      using that dis w(1,3) by (auto simp: due_def)
    have tids: "t_tid (k_tcb s1 u) = t_tid (k_tcb s u)" for u using w(1) by simp
    have "q = blocked_timed_threads \<longrightarrow> (\<forall>u\<in>set rs. waits s1 u)"
      using Cons.prems(4) waits_mono [OF _ w(2) _ tids] other(2) by auto
    moreover have "length rs \<le> fuel'" using Cons.prems(3) f by simp
    ultimately obtain s' where
      s': "due_loop q body fuel' (il_node (k_lists s1 q) (ks @ rs) (length ks)) s1 = Inr s'"
      "thread_inv s' (?ps1(q := ks @ filter (\<lambda>t. \<not> due s1 t) rs, ready_threads := ?ps1 ready_threads @ filter (due s1) rs))"
      "k_tcb s' = (\<lambda>u. if u \<in> set rs \<and> due s1 u
         then (k_tcb s1 u)\<lparr>t_sleep_ticks := 0, t_state := Ready, t_blocker := 0\<rparr> else k_tcb s1 u)"
      "queues_timeout s1 s'" "k_ticks s' = k_ticks s1" "k_current s' = k_current s1" "k_procs s' = k_procs s1"
      "k_gdt s' = k_gdt s1"
      "q = blocked_timed_threads \<longrightarrow> (\<forall>t\<in>set rs. due s1 t \<longrightarrow> timed_out s' (t_blocker (k_tcb s1 t)) t)"
      using Cons.IH [OF s1(3) ps1, of fuel'] unfolding ps1 by blast
    have node: "?i' = il_node (k_lists s1 q) (ks @ rs) (length ks)"
      using Cons.prems(2) w(7) by (simp add: il_node_def nth_append)
    have flt: "filter (\<lambda>t. \<not> due s1 t) rs = filter (\<lambda>t. \<not> due s t) rs" "filter (due s1) rs = filter (due s) rs"
      using other(1) by (auto intro: filter_cong)
    have lists: "?ps1(q := ks @ filter (\<lambda>t. \<not> due s1 t) rs, ready_threads := ?ps1 ready_threads @ filter (due s1) rs) =
      ps(q := ks @ filter (\<lambda>t. \<not> due s t) (t # rs), ready_threads := ps ready_threads @ filter (due s) (t # rs))"
      using True q by (auto simp: flt fun_eq_iff)
    have tcbs: "k_tcb s' = (\<lambda>u. if u \<in> set (t # rs) \<and> due s u
         then (k_tcb s u)\<lparr>t_sleep_ticks := 0, t_state := Ready, t_blocker := 0\<rparr> else k_tcb s u)"
      using s'(3) w(1) other True dis by (auto simp: fun_eq_iff)
    have out: "q = blocked_timed_threads \<longrightarrow> (\<forall>u\<in>set (t # rs). due s u \<longrightarrow> timed_out s' (t_blocker (k_tcb s u)) u)"
      using w(8) timed_out_mono [OF _ s'(4), of "t_blocker (k_tcb s t)" t] s'(3,9) w(1) other by auto
    have run: "due_loop q body fuel (il_node ?l (ps q) (length ks)) s = Inr s'"
      unfolding k(2) step using True s1(1) s'(1) node by simp
    show ?thesis
      by (rule exI [of _ s'], intro conjI)
        (use True run tcbs out s'(2,5-8) [unfolded lists] w(3-6) queues_timeout_trans [OF w(2) s'(4)] in
          \<open>simp_all add: fun_upd_def\<close>)
  qed
qed

lemma vec_modify_rep:
  "vec_rep v xs \<Longrightarrow> i < length xs \<Longrightarrow> vec_modify v i f =
     Inr (v\<lparr>vec_m_storage := Some (packed (vec_m_capacity v) (xs[i := f (xs ! i)]))\<rparr>)"
  by (auto simp: vec_modify_def vec_deref_def vec_rep_def packed_update)

lemma vec_modified_rep:
  "vec_rep v xs \<Longrightarrow> length ys = length xs \<Longrightarrow> vec_rep (v\<lparr>vec_m_storage := Some (packed (vec_m_capacity v) ys)\<rparr>) ys"
  by (simp add: vec_rep_def)

lemma takeWhile_found: "\<exists>x\<in>set xs. P x \<Longrightarrow> length (takeWhile (\<lambda>x. \<not> P x) xs) < length xs \<and>
    P (xs ! length (takeWhile (\<lambda>x. \<not> P x) xs))"
  by (induction xs) auto

lemma handle_thread_timeout_law:
  assumes "vec_rep (queue_of s q) ws" "\<exists>w\<in>set ws. same_tid s t w"
  shows "\<exists>s'. handle_thread_timeout s q t = Inr s' \<and> queues_timeout s s' \<and> timed_out s' q t \<and>
     (\<exists>v. s' = set_queue s q v)"
proof -
  let ?i = "length (takeWhile (\<lambda>w. \<not> same_tid s t w) ws)"
  let ?ws = "ws[?i := (ws ! ?i)\<lparr>w_state := Timeout\<rparr>]"
  let ?v = "(queue_of s q)\<lparr>vec_m_storage := Some (packed (vec_m_capacity (queue_of s q)) ?ws)\<rparr>"
  let ?s = "set_queue s q ?v"
  have i: "?i < length ws" "same_tid s t (ws ! ?i)" using takeWhile_found [OF assms(2)] by auto
  have run: "handle_thread_timeout s q t = Inr ?s"
    using i(1) vec_find_if_rep [OF assms(1), of "same_tid s t"] vec_end_rep [OF assms(1)]
      vec_modify_rep [OF assms(1) i(1)]
    by (simp add: handle_thread_timeout_def)
  have rep: "vec_rep ?v ?ws" by (rule vec_modified_rep [OF assms(1)]) simp
  have "queues_timeout s ?s"
    unfolding queues_timeout_def
  proof (intro allI impI)
    fix q' ws' assume r: "vec_rep (queue_of s q') ws'"
    show "\<exists>ws''. vec_rep (queue_of ?s q') ws'' \<and> list_all2 (\<lambda>w w'. w' = w \<or> w' = w\<lparr>w_state := Timeout\<rparr>) ws' ws''"
    proof (cases "q' = q")
      case True
      then have "ws' = ws" using r assms(1) vec_rep_unique by blast
      moreover have "list_all2 (\<lambda>w w'. w' = w \<or> w' = w\<lparr>w_state := Timeout\<rparr>) ws ?ws"
        using i(1) by (auto simp: list_all2_conv_all_nth nth_list_update)
      ultimately show ?thesis using True rep by (intro exI [of _ ?ws]) simp
    next
      case False
      with r show ?thesis by (intro exI [of _ ws']) (simp add: list_all2_refl)
    qed
  qed
  moreover have "timed_out ?s q t"
    unfolding timed_out_def
  proof (intro exI conjI bexI)
    show "vec_rep (queue_of ?s q) ?ws" using rep by simp
    show "?ws ! ?i \<in> set ?ws" using i(1) by (intro nth_mem) simp
    show "same_tid ?s t (?ws ! ?i)" "w_state (?ws ! ?i) = Timeout" using i by (simp_all add: same_tid_def)
  qed
  ultimately show ?thesis using run by blast
qed

lemma sleeper_body_law:
  assumes "thread_inv s ps" "t \<in> set (ps a)" "a \<noteq> ready_threads"
  shows "\<exists>s'. thread_wake_up s t = Inr s' \<and> relinked (set_tcb s t (\<lambda>c. c\<lparr>t_state := Ready, t_blocker := 0\<rparr>)) s' \<and>
     thread_inv s' (ps(a := remove1 t (ps a), ready_threads := ps ready_threads @ [t]))"
proof -
  have r: "lists_rep s ps" and h: "home (t_state (k_tcb s t)) = Some a" using assms(1,2) by (auto simp: thread_inv_def)
  from thread_wake_up_law [OF r assms(2) h assms(3)] thread_inv_move [OF assms(1,3,2)] show ?thesis by fastforce
qed

lemma sleeping_woken:
  assumes "thread_inv s ps" "t \<in> set (ps sleeping_threads)"
  shows "\<exists>s'. thread_wake_up s t = Inr s' \<and> woken sleeping_threads s t s' \<and>
     thread_inv s' (ps(sleeping_threads := remove1 t (ps sleeping_threads), ready_threads := ps ready_threads @ [t]))"
proof -
  obtain s' where s': "thread_wake_up s t = Inr s'" "relinked (set_tcb s t (\<lambda>c. c\<lparr>t_state := Ready, t_blocker := 0\<rparr>)) s'"
    "thread_inv s' (ps(sleeping_threads := remove1 t (ps sleeping_threads), ready_threads := ps ready_threads @ [t]))"
    using sleeper_body_law [OF assms] by auto
  from relinked_fields [OF s'(2)] have "woken sleeping_threads s t s'"
    by (simp add: woken_def queues_timeout_refl)
  with s' show ?thesis by blast
qed

lemma timed_woken:
  assumes "thread_inv s ps" "t \<in> set (ps blocked_timed_threads)" "waits s t"
  shows "\<exists>s'. timeout_body s t = Inr s' \<and> woken blocked_timed_threads s t s' \<and>
     thread_inv s' (ps(blocked_timed_threads := remove1 t (ps blocked_timed_threads), ready_threads := ps ready_threads @ [t]))"
proof -
  let ?q = "t_blocker (k_tcb s t)"
  obtain s1 v where s1: "handle_thread_timeout s ?q t = Inr s1" "queues_timeout s s1" "timed_out s1 ?q t"
    "s1 = set_queue s ?q v" using assms(3) handle_thread_timeout_law [of s ?q _ t] unfolding waits_def by blast
  have i1: "thread_inv s1 ps" using thread_inv_cong [of s1 s ps] s1(4) assms(1) by simp
  obtain s' where s': "thread_wake_up s1 t = Inr s'" "relinked (set_tcb s1 t (\<lambda>c. c\<lparr>t_state := Ready, t_blocker := 0\<rparr>)) s'"
    "thread_inv s' (ps(blocked_timed_threads := remove1 t (ps blocked_timed_threads), ready_threads := ps ready_threads @ [t]))"
    using sleeper_body_law [OF i1 assms(2)] by auto
  note f = relinked_fields [OF s'(2)]
  have "queues_timeout s s'" using queues_timeout_trans [OF s1(2) queues_timeout_refl [of s' s1]] f by simp
  moreover have "timed_out s' ?q t" using timed_out_mono [OF s1(3) queues_timeout_refl [of s' s1]] f by simp
  ultimately have "woken blocked_timed_threads s t s'" using f s1(4) by (simp add: woken_def set_queue_def)
  with s' s1(1) show ?thesis by (auto simp: timeout_body_def)
qed

lemma wake_up_sleepers_law:
  assumes "thread_inv s ps" "\<forall>t\<in>set (ps blocked_timed_threads). waits s t"
  shows "\<exists>s'. wake_up_sleepers s = Inr s' \<and>
     thread_inv s' (ps(sleeping_threads := filter (\<lambda>t. \<not> due s t) (ps sleeping_threads),
        blocked_timed_threads := filter (\<lambda>t. \<not> due s t) (ps blocked_timed_threads),
        ready_threads := ps ready_threads @ filter (due s) (ps sleeping_threads @ ps blocked_timed_threads))) \<and>
     queues_timeout s s' \<and> k_ticks s' = k_ticks s \<and> k_current s' = k_current s \<and> k_procs s' = k_procs s \<and>
     k_gdt s' = k_gdt s \<and>
     k_tcb s' = (\<lambda>u. if u \<in> set (ps sleeping_threads @ ps blocked_timed_threads) \<and> due s u
         then (k_tcb s u)\<lparr>t_sleep_ticks := 0, t_state := Ready, t_blocker := 0\<rparr> else k_tcb s u) \<and>
     (\<forall>t\<in>set (ps blocked_timed_threads). due s t \<longrightarrow> timed_out s' (t_blocker (k_tcb s t)) t)"
proof -
  have lr: "lists_rep s ps" using assms(1) by (simp add: thread_inv_def)
  let ?sl = "ps sleeping_threads" and ?ti = "ps blocked_timed_threads"
  have b: "il_begin (k_lists s sleeping_threads) = Inr (il_node (k_lists s sleeping_threads) ?sl 0)"
    "il_size (k_lists s sleeping_threads) = length ?sl"
    using il_begin_law [OF lists_rep_list [OF lr]] il_rep_count [OF lists_rep_list [OF lr]] by (simp_all add: il_size_def)
  have "\<exists>s1. due_loop sleeping_threads thread_wake_up (length ?sl) (il_node (k_lists s sleeping_threads) ?sl (length ([] :: nat list))) s = Inr s1 \<and>
      thread_inv s1 (ps(sleeping_threads := [] @ filter (\<lambda>t. \<not> due s t) ?sl, ready_threads := ps ready_threads @ filter (due s) ?sl)) \<and>
      k_tcb s1 = (\<lambda>u. if u \<in> set ?sl \<and> due s u
         then (k_tcb s u)\<lparr>t_sleep_ticks := 0, t_state := Ready, t_blocker := 0\<rparr> else k_tcb s u) \<and>
      queues_timeout s s1 \<and> k_ticks s1 = k_ticks s \<and> k_current s1 = k_current s \<and> k_procs s1 = k_procs s \<and>
      k_gdt s1 = k_gdt s \<and> (sleeping_threads = blocked_timed_threads \<longrightarrow>
         (\<forall>t\<in>set ?sl. due s t \<longrightarrow> timed_out s1 (t_blocker (k_tcb s t)) t))"
    by (rule due_loop_law) (use assms(1) sleeping_woken in auto)
  then obtain s1 where s1: "due_loop sleeping_threads thread_wake_up (length ?sl) (il_node (k_lists s sleeping_threads) ?sl 0) s = Inr s1"
    "thread_inv s1 (ps(sleeping_threads := filter (\<lambda>t. \<not> due s t) ?sl, ready_threads := ps ready_threads @ filter (due s) ?sl))"
    "k_tcb s1 = (\<lambda>u. if u \<in> set ?sl \<and> due s u
         then (k_tcb s u)\<lparr>t_sleep_ticks := 0, t_state := Ready, t_blocker := 0\<rparr> else k_tcb s u)"
    "queues_timeout s s1" "k_ticks s1 = k_ticks s" "k_current s1 = k_current s" "k_procs s1 = k_procs s" "k_gdt s1 = k_gdt s"
    by auto
  let ?ps1 = "ps(sleeping_threads := filter (\<lambda>t. \<not> due s t) ?sl, ready_threads := ps ready_threads @ filter (due s) ?sl)"
  have lr1: "lists_rep s1 ?ps1" using s1(2) by (simp add: thread_inv_def)
  have same: "k_tcb s1 t = k_tcb s t" "due s1 t = due s t" if "t \<in> set ?ti" for t
    using that lists_rep_disjoint [OF lr, of t blocked_timed_threads sleeping_threads] s1(3,5) by (auto simp: due_def)
  have w1: "\<forall>t\<in>set ?ti. waits s1 t"
    using assms(2) waits_mono [OF _ s1(4)] same(1) s1(3) by auto
  have b1: "il_begin (k_lists s1 blocked_timed_threads) = Inr (il_node (k_lists s1 blocked_timed_threads) ?ti 0)"
    "il_size (k_lists s1 blocked_timed_threads) = length ?ti"
    using il_begin_law [OF lists_rep_list [OF lr1, of blocked_timed_threads]]
      il_rep_count [OF lists_rep_list [OF lr1, of blocked_timed_threads]] by (simp_all add: il_size_def)
  have "\<exists>s2. due_loop blocked_timed_threads timeout_body (length ?ti)
        (il_node (k_lists s1 blocked_timed_threads) (?ps1 blocked_timed_threads) (length ([] :: nat list))) s1 = Inr s2 \<and>
      thread_inv s2 (?ps1(blocked_timed_threads := [] @ filter (\<lambda>t. \<not> due s1 t) ?ti,
         ready_threads := ?ps1 ready_threads @ filter (due s1) ?ti)) \<and>
      k_tcb s2 = (\<lambda>u. if u \<in> set ?ti \<and> due s1 u
         then (k_tcb s1 u)\<lparr>t_sleep_ticks := 0, t_state := Ready, t_blocker := 0\<rparr> else k_tcb s1 u) \<and>
      queues_timeout s1 s2 \<and> k_ticks s2 = k_ticks s1 \<and> k_current s2 = k_current s1 \<and> k_procs s2 = k_procs s1 \<and>
      k_gdt s2 = k_gdt s1 \<and> (blocked_timed_threads = blocked_timed_threads \<longrightarrow>
         (\<forall>t\<in>set ?ti. due s1 t \<longrightarrow> timed_out s2 (t_blocker (k_tcb s1 t)) t))"
    by (rule due_loop_law) (use s1(2) w1 timed_woken in \<open>auto simp: fun_upd_def\<close>)
  then obtain s2 where s2: "due_loop blocked_timed_threads timeout_body (length ?ti)
        (il_node (k_lists s1 blocked_timed_threads) ?ti 0) s1 = Inr s2"
    "thread_inv s2 (?ps1(blocked_timed_threads := filter (\<lambda>t. \<not> due s1 t) ?ti,
         ready_threads := ?ps1 ready_threads @ filter (due s1) ?ti))"
    "k_tcb s2 = (\<lambda>u. if u \<in> set ?ti \<and> due s1 u
         then (k_tcb s1 u)\<lparr>t_sleep_ticks := 0, t_state := Ready, t_blocker := 0\<rparr> else k_tcb s1 u)"
    "queues_timeout s1 s2" "k_ticks s2 = k_ticks s1" "k_current s2 = k_current s1" "k_procs s2 = k_procs s1" "k_gdt s2 = k_gdt s1"
    "\<forall>t\<in>set ?ti. due s1 t \<longrightarrow> timed_out s2 (t_blocker (k_tcb s1 t)) t" by auto
  have flt: "filter (\<lambda>t. \<not> due s1 t) ?ti = filter (\<lambda>t. \<not> due s t) ?ti" "filter (due s1) ?ti = filter (due s) ?ti"
    using same(2) by (auto intro: filter_cong)
  have lists: "?ps1(blocked_timed_threads := filter (\<lambda>t. \<not> due s1 t) ?ti, ready_threads := ?ps1 ready_threads @ filter (due s1) ?ti) =
    ps(sleeping_threads := filter (\<lambda>t. \<not> due s t) ?sl, blocked_timed_threads := filter (\<lambda>t. \<not> due s t) ?ti,
       ready_threads := ps ready_threads @ filter (due s) (?sl @ ?ti))"
    by (auto simp: flt fun_eq_iff)
  have tcbs: "k_tcb s2 = (\<lambda>u. if u \<in> set (?sl @ ?ti) \<and> due s u
         then (k_tcb s u)\<lparr>t_sleep_ticks := 0, t_state := Ready, t_blocker := 0\<rparr> else k_tcb s u)"
    unfolding s2(3) using s1(3) same by (auto simp: fun_eq_iff)
  have run: "wake_up_sleepers s = Inr s2" using b b1 s1(1) s2(1) by (simp add: wake_up_sleepers_def)
  show ?thesis
    by (rule exI [of _ s2], intro conjI)
      (use run tcbs s2(2,5-9) [unfolded lists] s1(5-8) same queues_timeout_trans [OF s1(4) s2(4)] in
        \<open>simp_all add: fun_upd_def\<close>)
qed

section \<open>Round robin\<close>

lemma select_next_law:
  assumes "thread_inv s ps" "i < length (ps ready_threads)" "k_current s = ps ready_threads ! i"
  shows "select_next_thread s = Inr (ps ready_threads ! (Suc i mod length (ps ready_threads)))"
proof -
  let ?rs = "ps ready_threads" and ?l = "k_lists s ready_threads"
  have lr: "lists_rep s ps" using assms(1) by (simp add: thread_inv_def)
  note r = lists_rep_list [OF lr, of ready_threads]
  have c: "k_current s \<in> set ?rs" using assms(2,3) by simp
  note lv = lists_rep_live [OF lr c, of ready_threads]
  have find: "il_find (k_heap s) ?l (k_current s) = Inr (il_node ?l ?rs i)"
    using il_find_law [OF r, of "k_current s"] lv c assms(2,3) by (simp add: il_node_def nth_append)
  have cnt: "number_of_ready_threads s \<noteq> 0"
    using assms(2) il_rep_count [OF r] by (auto simp: number_of_ready_threads_def il_size_def)
  show ?thesis
  proof (cases "Suc i = length ?rs")
    case True
    then have "il_node ?l ?rs (Suc i) = il_ending ?l" by (simp add: il_node_def nth_append)
    moreover have "0 < length ?rs" using assms(2) by linarith
    then have "il_node ?l ?rs 0 = ?rs ! 0" "?rs ! 0 \<in> set ?rs" by (auto simp: il_node_def nth_append)
    ultimately show ?thesis
      using True cnt find il_inc_law [OF r assms(2)] il_begin_law [OF r] il_deref_law [OF r]
      by (simp add: select_next_thread_def Let_def)
  next
    case False
    then have i: "Suc i < length ?rs" using assms(2) by simp
    then have n: "il_node ?l ?rs (Suc i) = ?rs ! Suc i" "?rs ! Suc i \<in> set ?rs" by (simp_all add: il_node_def nth_append)
    then have "?rs ! Suc i \<noteq> il_ending ?l" using lists_rep_live [OF lr n(2)] by blast
    with i n cnt find il_inc_law [OF r assms(2)] il_deref_law [OF r n(2)] show ?thesis
      by (simp add: select_next_thread_def Let_def)
  qed
qed

lemma select_next_blocked:
  assumes "thread_inv s ps" "ps ready_threads \<noteq> []" "k_current s \<in> set (ps q)" "q \<noteq> ready_threads"
  shows "select_next_thread s = Inr (hd (ps ready_threads))"
proof -
  let ?rs = "ps ready_threads" and ?l = "k_lists s ready_threads"
  have lr: "lists_rep s ps" using assms(1) by (simp add: thread_inv_def)
  note r = lists_rep_list [OF lr, of ready_threads]
  note lv = lists_rep_live [OF lr assms(3), of ready_threads]
  have "k_current s \<notin> set ?rs" using lists_rep_disjoint [OF lr assms(3)] assms(4) by blast
  then have find: "il_find (k_heap s) ?l (k_current s) = Inr (il_ending ?l)" using il_find_law [OF r] lv by simp
  have cnt: "number_of_ready_threads s \<noteq> 0"
    using assms(2) il_rep_count [OF r] by (simp add: number_of_ready_threads_def il_size_def)
  have "il_node ?l ?rs 0 = hd ?rs" "hd ?rs \<in> set ?rs" using assms(2) by (simp_all add: il_node_def nth_append hd_conv_nth)
  then show ?thesis
    using cnt find il_inc_end [OF r] il_begin_law [OF r] il_deref_law [OF r] by (simp add: select_next_thread_def Let_def)
qed

lemma switch_to_law:
  assumes "length (g_entries (k_gdt s)) = 8"
  shows "\<exists>f' s'. switch_to f s n = Inr (f', s') \<and> k_current s' = n \<and> length (g_entries (k_gdt s')) = 8 \<and>
     (n \<noteq> k_current s \<longrightarrow> f' = f\<lparr>f_context_stack := t_kernel_stack_pointer (k_tcb s n)\<rparr> \<and>
        tss_esp0 (g_tss (k_gdt s')) = t_kernel_stack_end (k_tcb s n) \<and>
        k_cr3 s' = (if p_pid (k_procs s (t_parent (k_tcb s n))) = p_pid (k_procs s (t_parent (k_tcb s (k_current s))))
                    then k_cr3 s else p_page_directory (k_procs s (t_parent (k_tcb s n))))) \<and>
     (n = k_current s \<longrightarrow> f' = f \<and> s' = s)"
proof -
  have "\<exists>g'. switch_task_stack a b c g = Inr g' \<and> length (g_entries g') = 8 \<and> tss_esp0 (g_tss g') = a"
    if "length (g_entries g) = 8" for a b c g
    using that by (auto simp: switch_task_stack_def load_gs_def load_fs_def segment_indices set_tss_stack_def
        fill_gdt_entry_def arr_set_def)
  then obtain g' where "switch_task_stack (t_kernel_stack_end (k_tcb s n)) (p_pib (k_procs s (t_parent (k_tcb s n))))
     (t_tib (k_tcb s n)) (k_gdt s) = Inr g'" "length (g_entries g') = 8" "tss_esp0 (g_tss g') = t_kernel_stack_end (k_tcb s n)"
    using assms by blast
  with assms show ?thesis by (cases "n = k_current s") (auto simp: switch_to_def load_context_def Let_def)
qed

section \<open>Wait queues\<close>

lemma wq_wake_up_law:
  assumes "thread_inv s ps" "vec_rep (queue_of s q) ws" "i < length ws" "w_state (ws ! i) = Blocked"
    and "\<forall>j<i. w_state (ws ! j) \<noteq> Blocked" "w_thread (ws ! i) \<in> set (ps a)" "a \<noteq> ready_threads"
  shows "\<exists>s'. wq_wake_up s q = Inr s' \<and>
     thread_inv s' (ps(a := remove1 (w_thread (ws ! i)) (ps a), ready_threads := ps ready_threads @ [w_thread (ws ! i)])) \<and>
     vec_rep (queue_of s' q) (ws[i := (ws ! i)\<lparr>w_state := WokenUpNormally\<rparr>]) \<and>
     (\<forall>q'. q' \<noteq> q \<longrightarrow> k_queues s' q' = k_queues s q') \<and>
     vec_capacity (queue_of s' q) = vec_capacity (queue_of s q)"
proof -
  let ?t = "w_thread (ws ! i)" and ?w = "(ws ! i)\<lparr>w_state := WokenUpNormally\<rparr>"
  have "takeWhile (\<lambda>w. w_state w \<noteq> Blocked) ws = take i ws"
    using assms(3-5) by (intro takeWhile_eq_take_P_nth) auto
  then have find: "vec_find_if (\<lambda>w. w_state w = Blocked) (queue_of s q) = Inr i"
    using vec_find_if_rep [OF assms(2), of "\<lambda>w. w_state w = Blocked"] assms(3) by simp
  let ?v = "(queue_of s q)\<lparr>vec_m_storage := Some (packed (vec_m_capacity (queue_of s q)) (ws[i := ?w]))\<rparr>"
  have rep: "vec_rep ?v (ws[i := ?w])" by (rule vec_modified_rep [OF assms(2)]) simp
  have d: "vec_deref ?v i = Inr ?w" using vec_deref_rep [OF rep, of i] assms(3) by simp
  let ?s1 = "set_queue s q ?v"
  have i1: "thread_inv ?s1 ps" using thread_inv_cong [of ?s1 s ps] assms(1) by simp
  obtain s' where s': "thread_wake_up ?s1 ?t = Inr s'" "relinked (set_tcb ?s1 ?t (\<lambda>c. c\<lparr>t_state := Ready, t_blocker := 0\<rparr>)) s'"
    "thread_inv s' (ps(a := remove1 ?t (ps a), ready_threads := ps ready_threads @ [?t]))"
    using sleeper_body_law [OF i1 assms(6,7)] by auto
  have "wq_wake_up s q = Inr s'"
    using find assms(3) vec_end_rep [OF assms(2)] vec_modify_rep [OF assms(2,3)] d s'(1)
    by (simp add: wq_wake_up_def wake_up_queue_def)
  moreover have "k_queues s' = k_queues ?s1" using relinked_fields(5) [OF s'(2)] by simp
  ultimately show ?thesis using s'(3) rep by (auto simp: vec_capacity_def)
qed

lemma wq_wake_up_none:
  assumes "vec_rep (queue_of s q) ws" "\<forall>w\<in>set ws. w_state w \<noteq> Blocked"
  shows "wq_wake_up s q = Inl AssertFailed"
proof -
  have "takeWhile (\<lambda>w. w_state w \<noteq> Blocked) ws = ws" using assms(2) by simp
  then have "length (takeWhile (\<lambda>w. w_state w \<noteq> Blocked) ws) = length ws" by (rule arg_cong)
  then show ?thesis
    using vec_find_if_rep [OF assms(1), of "\<lambda>w. w_state w = Blocked"] vec_end_rep [OF assms(1)]
    by (simp add: wq_wake_up_def)
qed

section \<open>A small kernel\<close>

text \<open>Threads 10 and 20 are ready, 10 runs; thread 30 sleeps until tick 5; it is tick 7.\<close>

definition demo_tasking :: tasking where
  "demo_tasking = \<lparr>
     k_heap = \<lparr>ih_next = (\<lambda>p. if p = 10 then 20 else if p = 20 then 201 else if p = 30 then 202 else p),
       ih_prev = (\<lambda>p. if p = 20 then 10 else 0),
       ih_owner = (\<lambda>p. if p \<in> {10, 20, 201} then 101 else if p \<in> {30, 202} then 102 else if p = 203 then 103
         else if p = 204 then 104 else 0),
       ih_live = (\<lambda>p. p \<in> {10, 20, 30, 201, 202, 203, 204})\<rparr>,
     k_lists = (\<lambda>q. case q of
         ready_threads \<Rightarrow> \<lparr>il_this = 101, il_ending = 201, il_head = 10, il_tail = 20, il_count = 2\<rparr>
       | sleeping_threads \<Rightarrow> \<lparr>il_this = 102, il_ending = 202, il_head = 30, il_tail = 30, il_count = 1\<rparr>
       | blocked_threads \<Rightarrow> \<lparr>il_this = 103, il_ending = 203, il_head = 203, il_tail = 203, il_count = 0\<rparr>
       | blocked_timed_threads \<Rightarrow> \<lparr>il_this = 104, il_ending = 204, il_head = 204, il_tail = 204, il_count = 0\<rparr>),
     k_tcb = (\<lambda>t. \<lparr>t_tid = t, t_parent = 1, t_state = (if t = 30 then BlockedSleep else Ready),
       t_privilege = KernelPrivilege, t_entry_point = 0, t_blocker = 0, t_tib = 0,
       t_sleep_ticks = (if t = 30 then 5 else 0), t_kernel_stack_start = 0, t_kernel_stack_end = of_nat t * 0x1000,
       t_kernel_stack_pointer = of_nat t * 0x1000 - 80\<rparr>),
     k_current = 10, k_ticks = 7, k_tids = bm_new 65535,
     k_queues = (\<lambda>_. \<lparr>wq_queue = \<lparr>vec_m_storage = Some [Raw], vec_m_count = 0, vec_m_capacity = 1,
       vec_m_allocation_steps = 1\<rparr>, wq_is_moved = False\<rparr>),
     k_procs = (\<lambda>_. \<lparr>p_pid = 0, p_page_directory = 0, p_pib = 0, p_threads = [10, 20, 30]\<rparr>),
     k_cr3 = 0,
     k_gdt = \<lparr>g_entries = replicate 8 null_entry, g_gdt_base = 0, g_gdt_limit = 63, g_tss = zero_tss,
       g_segments = None, g_tr = None\<rparr>\<rparr>"

definition demo_lists :: "tlist \<Rightarrow> nat list" where
  "demo_lists = (\<lambda>_. [])(ready_threads := [10, 20], sleeping_threads := [30])"

lemma demo_inv: "thread_inv demo_tasking demo_lists"
proof -
  have "il_rep (k_heap demo_tasking) (k_lists demo_tasking q) (demo_lists q)" for q
    by (cases q) (auto simp: demo_tasking_def demo_lists_def il_rep_def)
  moreover have "inj (\<lambda>q. il_this (k_lists demo_tasking q))"
    by (rule injI) (auto simp: demo_tasking_def split: tlist.splits)
  moreover have "\<forall>t\<in>set (demo_lists q). home (t_state (k_tcb demo_tasking t)) = Some q" for q
    by (cases q) (simp_all add: demo_tasking_def demo_lists_def)
  moreover have "\<forall>p. ih_live (k_heap demo_tasking) p \<longrightarrow> p \<noteq> 0 \<and> p < sz_range"
    by (auto simp: demo_tasking_def)
  ultimately show ?thesis by (simp add: thread_inv_def lists_rep_def)
qed

section \<open>Properties\<close>



text \<open>
  (C21) A timer tick wakes exactly the threads whose deadline has passed: the sleeping ones and
  then the ones waiting with a timeout, each in list order, move to the end of the ready list in
  state Ready; the others stay where they are; the wait queue entry of every thread that timed
  out says so, and no wait queue changes otherwise.
\<close>

theorem timer_wakes_due_threads:
  assumes "thread_inv s ps" "\<forall>t\<in>set (ps blocked_timed_threads). waits s t"
  shows "ok (wake_up_sleepers s) (\<lambda>s'.
     thread_inv s' (ps(sleeping_threads := filter (\<lambda>t. \<not> due s t) (ps sleeping_threads),
        blocked_timed_threads := filter (\<lambda>t. \<not> due s t) (ps blocked_timed_threads),
        ready_threads := ps ready_threads @ filter (due s) (ps sleeping_threads @ ps blocked_timed_threads))) \<and>
     queues_timeout s s' \<and>
     (\<forall>t\<in>set (ps blocked_timed_threads). due s t \<longrightarrow> timed_out s' (t_blocker (k_tcb s t)) t))"
  using wake_up_sleepers_law [OF assms] by (auto simp: ok_iff)

theorem timer_wakes_due_threads_witness:
  "ok (wake_up_sleepers demo_tasking) (\<lambda>s'. thread_inv s' ((\<lambda>_. [])(ready_threads := [10, 20, 30])))"
proof -
  have "\<forall>t\<in>set (demo_lists blocked_timed_threads). waits demo_tasking t" by (simp add: demo_lists_def)
  note r = timer_wakes_due_threads [OF demo_inv this]
  have d: "due demo_tasking 30" by (simp add: due_def demo_tasking_def)
  have "demo_lists(sleeping_threads := filter (\<lambda>t. \<not> due demo_tasking t) (demo_lists sleeping_threads),
        blocked_timed_threads := filter (\<lambda>t. \<not> due demo_tasking t) (demo_lists blocked_timed_threads),
        ready_threads := demo_lists ready_threads @ filter (due demo_tasking)
           (demo_lists sleeping_threads @ demo_lists blocked_timed_threads)) = (\<lambda>_. [])(ready_threads := [10, 20, 30])"
    using d by (auto simp: demo_lists_def fun_eq_iff)
  with r show ?thesis by (auto elim!: ok_mono)
qed

fun yields :: "isr_frame list \<Rightarrow> tasking \<Rightarrow> tasking run" where
  "yields [] s = Inr s"
| "yields (f # fs) s = bindr (schedule_handler f s) (\<lambda>(_, s'). yields fs s')"

lemma schedule_handler_law:
  assumes "thread_inv s ps" "i < length (ps ready_threads)" "k_current s = ps ready_threads ! i"
    and "length (g_entries (k_gdt s)) = 8"
  shows "\<exists>f' s'. schedule_handler f s = Inr (f', s') \<and> thread_inv s' ps \<and> length (g_entries (k_gdt s')) = 8 \<and>
     k_current s' = ps ready_threads ! (Suc i mod length (ps ready_threads)) \<and>
     k_tcb s' = (k_tcb s)(k_current s := (k_tcb s (k_current s))\<lparr>t_kernel_stack_pointer := f_context_stack f\<rparr>) \<and>
     f_context_stack f' = t_kernel_stack_pointer (k_tcb s' (k_current s')) \<and>
     (k_current s' \<noteq> k_current s \<longrightarrow> tss_esp0 (g_tss (k_gdt s')) = t_kernel_stack_end (k_tcb s (k_current s')) \<and>
        (p_pid (k_procs s (t_parent (k_tcb s (k_current s')))) \<noteq> p_pid (k_procs s (t_parent (k_tcb s (k_current s)))) \<longrightarrow>
          k_cr3 s' = p_page_directory (k_procs s (t_parent (k_tcb s (k_current s'))))))"
proof -
  let ?s2 = "save_context f s (k_current s)"
  have lr: "lists_rep s ps" using assms(1) by (simp add: thread_inv_def)
  have "k_current s \<in> set (ps ready_threads)" using assms(2,3) by simp
  then have c: "k_current s \<noteq> 0" using lists_rep_live [OF lr] by blast
  have i2: "thread_inv ?s2 ps" using thread_inv_cong [of ?s2 s ps] assms(1) by (simp add: save_context_def)
  have n: "select_next_thread ?s2 = Inr (ps ready_threads ! (Suc i mod length (ps ready_threads)))"
    using select_next_law [OF i2 assms(2)] assms(3) by (simp add: save_context_def)
  let ?n = "ps ready_threads ! (Suc i mod length (ps ready_threads))"
  have g: "length (g_entries (k_gdt ?s2)) = 8" using assms(4) by (simp add: save_context_def)
  obtain f' s' where sw: "switch_to f ?s2 ?n = Inr (f', s')" "k_current s' = ?n" "length (g_entries (k_gdt s')) = 8"
    "?n \<noteq> k_current ?s2 \<longrightarrow> f' = f\<lparr>f_context_stack := t_kernel_stack_pointer (k_tcb ?s2 ?n)\<rparr> \<and>
        tss_esp0 (g_tss (k_gdt s')) = t_kernel_stack_end (k_tcb ?s2 ?n) \<and>
        k_cr3 s' = (if p_pid (k_procs ?s2 (t_parent (k_tcb ?s2 ?n))) = p_pid (k_procs ?s2 (t_parent (k_tcb ?s2 (k_current ?s2))))
                    then k_cr3 ?s2 else p_page_directory (k_procs ?s2 (t_parent (k_tcb ?s2 ?n))))"
    "?n = k_current ?s2 \<longrightarrow> f' = f \<and> s' = ?s2" using switch_to_law [OF g, of f ?n] by blast
  have run: "schedule_handler f s = Inr (f', s')"
    using c n sw(1) by (simp add: schedule_handler_def schedule_alt Let_def)
  have i': "thread_inv s' ps"
    using thread_inv_cong [of s' ?s2 ps] i2 switch_to_same [OF sw(1)] by simp
  show ?thesis
    by (rule exI [of _ f'], rule exI [of _ s'])
      (use run i' sw(2-5) switch_to_same(3) [OF sw(1)] in \<open>auto simp: save_context_def\<close>)
qed

text \<open>
  (C25) Round robin: as long as no thread changes its state, every yield passes the processor to
  the next thread of the ready list, cyclically; so each of the n ready threads runs again within
  n yields.
\<close>

theorem round_robin_fair:
  assumes "thread_inv s ps" "i < length (ps ready_threads)" "k_current s = ps ready_threads ! i"
    and "length (g_entries (k_gdt s)) = 8"
  shows "ok (yields fs s) (\<lambda>s'. thread_inv s' ps \<and>
      k_current s' = ps ready_threads ! ((i + length fs) mod length (ps ready_threads))) \<and>
    (\<forall>t\<in>set (ps ready_threads). \<exists>k<length (ps ready_threads).
       t = ps ready_threads ! ((i + k) mod length (ps ready_threads)))"
proof
  let ?n = "length (ps ready_threads)"
  show "ok (yields fs s) (\<lambda>s'. thread_inv s' ps \<and> k_current s' = ps ready_threads ! ((i + length fs) mod ?n))"
    using assms
  proof (induction fs arbitrary: s i)
    case (Cons f fs)
    obtain f' s' where 1: "schedule_handler f s = Inr (f', s')" "thread_inv s' ps" "length (g_entries (k_gdt s')) = 8"
      "k_current s' = ps ready_threads ! (Suc i mod ?n)" using schedule_handler_law [OF Cons.prems, of f] by blast
    have lt: "Suc i mod ?n < ?n" using Cons.prems(2) by (intro mod_less_divisor) linarith
    have "(Suc i mod ?n + length fs) mod ?n = (i + length (f # fs)) mod ?n" by (simp add: mod_simps)
    with Cons.IH [OF 1(2) lt 1(4,3)] 1(1) show ?case by simp
  qed (simp add: run_simps)
  show "\<forall>t\<in>set (ps ready_threads). \<exists>k<?n. t = ps ready_threads ! ((i + k) mod ?n)"
  proof
    fix t assume "t \<in> set (ps ready_threads)"
    then obtain j where j: "j < ?n" "t = ps ready_threads ! j" by (metis in_set_conv_nth)
    have "(i + (j + ?n - i) mod ?n) mod ?n = (i + (j + ?n - i)) mod ?n" by (simp add: mod_simps)
    also have "\<dots> = j" using j(1) assms(2) by simp
    finally have "t = ps ready_threads ! ((i + (j + ?n - i) mod ?n) mod ?n)" using j(2) by simp
    moreover have "(j + ?n - i) mod ?n < ?n" using j(1) by (intro mod_less_divisor) linarith
    ultimately show "\<exists>k<?n. t = ps ready_threads ! ((i + k) mod ?n)" by blast
  qed
qed

lemma demo_current: "0 < length (demo_lists ready_threads)" "k_current demo_tasking = demo_lists ready_threads ! 0"
  "length (g_entries (k_gdt demo_tasking)) = 8"
  by (simp_all add: demo_lists_def demo_tasking_def)

theorem round_robin_fair_witness:
  "ok (yields [undefined] demo_tasking) (\<lambda>s'. k_current s' = 20)"
  using conjunct1 [OF round_robin_fair [OF demo_inv demo_current, of "[undefined]"]]
  by (rule ok_mono) (simp add: demo_lists_def)



end
