(* ===== verification/Synchronization.thy ===== *)
theory Synchronization
  imports Scheduling
begin

unbundle bit_operations_syntax

text \<open>
  Locks and semaphores: the spinlock (arch/x86/spinlock.cpp, tasking/spin_lock.h), scoped_lock.h,
  semaphore.cpp and mutex.cpp. The kernel runs on one processor; a spinlock clears the interrupt
  flag while it is held, so a critical section is not interrupted, which is why the other
  theories treat one as a single step. Semaphores block on the wait queues of Threads.
\<close>

section \<open>Spinlocks\<close>

definition IF_FLAG :: "32 word" where "IF_FLAG = 0x200"

record spinlock =
  sl_value :: "32 word"
  sl_eflags :: "32 word"

definition spin_init :: "spinlock \<Rightarrow> spinlock" where
  "spin_init l = l\<lparr>sl_value := 0\<rparr>"

text \<open>
  The loop \<open>while (test_and_set(&m_value) != 0)\<close>. With interrupts off nobody else on the processor
  runs: a loop that does not end at once never ends (\<open>spin_loop_stuck\<close>).
\<close>

definition test_and_set :: "spinlock \<Rightarrow> 32 word \<times> spinlock" where
  "test_and_set l = (sl_value l, l\<lparr>sl_value := 1\<rparr>)"

fun spin_loop :: "nat \<Rightarrow> spinlock \<Rightarrow> spinlock run" where
  "spin_loop fuel l = (let (old, l') = test_and_set l in
     if old = 0 then Inr l' else case fuel of 0 \<Rightarrow> Inl OutOfFuel | Suc fuel' \<Rightarrow> spin_loop fuel' l')"

declare spin_loop.simps [simp del]

text \<open>The processor's flags are passed along: (lock, eflags).\<close>

definition spin_acquire :: "nat \<Rightarrow> spinlock \<times> 32 word \<Rightarrow> (spinlock \<times> 32 word) run" where
  "spin_acquire fuel = (\<lambda>(l, eflags).
     let temp_eflags = eflags; eflags' = eflags AND NOT IF_FLAG in
     bindr (spin_loop fuel l) (\<lambda>l'. Inr (l'\<lparr>sl_eflags := temp_eflags\<rparr>, eflags')))"

definition spin_release :: "spinlock \<times> 32 word \<Rightarrow> (spinlock \<times> 32 word) run" where
  "spin_release = (\<lambda>(l, eflags). assert_then (sl_value l \<noteq> 0) (Inr (l\<lparr>sl_value := 0\<rparr>, sl_eflags l)))"

text \<open>\<open>ScopedLock\<close>: which of the locks (by address) it guards and whether it holds it.\<close>

record scoped_lock =
  sc_lock :: nat
  sc_locked :: bool

type_synonym lock_state = "(nat \<Rightarrow> spinlock) \<times> 32 word"

definition acquire_at :: "nat \<Rightarrow> nat \<Rightarrow> lock_state \<Rightarrow> lock_state run" where
  "acquire_at fuel a st = bindr (spin_acquire fuel (fst st a, snd st)) (\<lambda>(l, e). Inr ((fst st)(a := l), e))"

definition release_at :: "nat \<Rightarrow> lock_state \<Rightarrow> lock_state run" where
  "release_at a st = bindr (spin_release (fst st a, snd st)) (\<lambda>(l, e). Inr ((fst st)(a := l), e))"

definition sc_acquire :: "nat \<Rightarrow> scoped_lock \<Rightarrow> lock_state \<Rightarrow> (scoped_lock \<times> lock_state) run" where
  "sc_acquire fuel sc st = bindr (acquire_at fuel (sc_lock sc) st) (\<lambda>st'. Inr (sc\<lparr>sc_locked := True\<rparr>, st'))"

definition sc_release :: "scoped_lock \<Rightarrow> lock_state \<Rightarrow> (scoped_lock \<times> lock_state) run" where
  "sc_release sc st = bindr (release_at (sc_lock sc) st) (\<lambda>st'. Inr (sc\<lparr>sc_locked := False\<rparr>, st'))"

definition sc_new :: "nat \<Rightarrow> nat \<Rightarrow> lock_state \<Rightarrow> (scoped_lock \<times> lock_state) run" where
  "sc_new fuel a st = sc_acquire fuel \<lparr>sc_lock = a, sc_locked = True\<rparr> st"

definition sc_move :: "scoped_lock \<Rightarrow> scoped_lock \<times> scoped_lock" where
  "sc_move other = (other, other\<lparr>sc_locked := False\<rparr>)"

definition sc_destructor :: "scoped_lock \<Rightarrow> lock_state \<Rightarrow> lock_state run" where
  "sc_destructor sc st = (if sc_locked sc then bindr (sc_release sc st) (\<lambda>(_, st'). Inr st') else Inr st)"

lemma spin_loop_free: "sl_value l = 0 \<Longrightarrow> spin_loop fuel l = Inr (l\<lparr>sl_value := 1\<rparr>)"
  by (simp add: spin_loop.simps test_and_set_def)

lemma spin_loop_stuck: "sl_value l \<noteq> 0 \<Longrightarrow> spin_loop fuel l = Inl OutOfFuel"
proof (induction fuel arbitrary: l)
  case 0
  then show ?case by (simp add: spin_loop.simps test_and_set_def)
next
  case (Suc fuel)
  then show ?case by (subst spin_loop.simps) (simp add: test_and_set_def)
qed

section \<open>Semaphores and mutexes\<close>

text \<open>The semaphore's wait queue is the one at the address \<open>sem_queue\<close>; \<open>m_count\<close> is an \<open>int\<close>.\<close>

record semaphore =
  sem_count :: int
  sem_queue :: nat
  sem_is_moved :: bool

definition sem_new :: "int \<Rightarrow> nat \<Rightarrow> semaphore" where
  "sem_new initial_value q = \<lparr>sem_count = initial_value, sem_queue = q, sem_is_moved = False\<rparr>"

definition sem_move :: "semaphore \<Rightarrow> semaphore \<times> semaphore" where
  "sem_move other = (\<lparr>sem_count = sem_count other, sem_queue = sem_queue other, sem_is_moved = False\<rparr>,
     other\<lparr>sem_is_moved := True\<rparr>)"

text \<open>\<open>acquire\<close> up to the yield inside \<open>wait\<close>: the iterator when the thread blocks, \<open>None\<close> when it does not.\<close>

definition sem_acquire :: "tasking \<Rightarrow> semaphore \<Rightarrow> (wait_iterator option \<times> tasking \<times> semaphore) run" where
  "sem_acquire s m = (let m' = m\<lparr>sem_count := sem_count m - 1\<rparr> in
     if sem_count m' < 0
     then bindr (wait_enter s (sem_queue m') 0) (\<lambda>(it, s'). Inr (Some it, s', m'))
     else Inr (None, s, m'))"

definition sem_acquire_resume :: "tasking \<Rightarrow> semaphore \<Rightarrow> wait_iterator \<Rightarrow> tasking run" where
  "sem_acquire_resume s m it = bindr (wait_leave s (sem_queue m) it) (\<lambda>(_, s'). Inr s')"

definition sem_release :: "tasking \<Rightarrow> semaphore \<Rightarrow> (tasking \<times> semaphore) run" where
  "sem_release s m = bindr (if sem_count m < 0 then wq_wake_up s (sem_queue m) else Inr s)
     (\<lambda>s'. Inr (s', m\<lparr>sem_count := sem_count m + 1\<rparr>))"

definition mutex_new :: "nat \<Rightarrow> semaphore" where
  "mutex_new q = sem_new 1 q"

definition mutex_acquire :: "tasking \<Rightarrow> semaphore \<Rightarrow> (wait_iterator option \<times> tasking \<times> semaphore) run" where
  "mutex_acquire s m = sem_acquire s m"

definition mutex_release :: "tasking \<Rightarrow> semaphore \<Rightarrow> (tasking \<times> semaphore) run" where
  "mutex_release s m = sem_release s m"

section \<open>Blocking and waking through a semaphore\<close>

lemma vec_emplace_back_law:
  assumes "vec_rep v xs" "length xs < vec_bound v"
  shows "\<exists>v'. vec_emplace_back triv v x = Inr (length xs, v') \<and> vec_rep v' (xs @ [x]) \<and> vec_bound v' = vec_bound v \<and>
     vec_m_capacity v' = (if length xs = vec_m_capacity v then vec_m_capacity v + vec_m_allocation_steps v else vec_m_capacity v)"
proof -
  have e: "vec_emplace_back triv v x = vec_insert triv v (length xs) x"
    using vec_end_rep [OF assms(1)] by (simp add: vec_emplace_back_def vec_emplace_eq)
  from vec_insert_rep [OF assms(1) le_refl assms(2), of triv x] obtain v' where
    v': "vec_insert triv v (length xs) x = Inr (length xs, v')" "vec_rep v' (xs @ [x])" "vec_bound v' = vec_bound v"
    by (auto simp: ok_iff)
  have "vec_m_capacity v' = (if length xs = vec_m_capacity v then vec_m_capacity v + vec_m_allocation_steps v else vec_m_capacity v)"
  proof (cases "length xs = vec_m_capacity v")
    case True
    have "sz_add (vec_m_capacity v) (vec_m_allocation_steps v) = vec_m_capacity v + vec_m_allocation_steps v"
      using True assms by (simp add: sz_add_eq vec_bound_def)
    with True v'(1) assms(1) show ?thesis
      by (auto simp: vec_insert_def vec_rep_def vec_realloc_with_free_spot_def vec_destruct_used_objects_def
          elim!: run_elims split: if_splits)
  next
    case False
    with v'(1) assms(1) show ?thesis
      by (auto simp: vec_insert_def vec_rep_def vec_make_free_spot_def elim!: run_elims)
  qed
  with v' e show ?thesis by auto
qed

lemma wq_enqueue_law:
  assumes "vec_rep (queue_of s q) ws" "length ws < vec_bound (queue_of s q)"
  shows "\<exists>v. wq_enqueue s q = Inr ((length ws, vec_capacity v), set_queue s q v) \<and>
     vec_rep v (ws @ [\<lparr>w_thread = k_current s, w_state = Blocked\<rparr>]) \<and> vec_bound v = vec_bound (queue_of s q) \<and>
     (length ws = vec_capacity (queue_of s q) \<longrightarrow> vec_capacity v \<noteq> vec_capacity (queue_of s q))"
proof -
  obtain v where v: "vec_emplace_back True (queue_of s q) \<lparr>w_thread = k_current s, w_state = Blocked\<rparr> = Inr (length ws, v)"
    "vec_rep v (ws @ [\<lparr>w_thread = k_current s, w_state = Blocked\<rparr>])" "vec_bound v = vec_bound (queue_of s q)"
    "vec_m_capacity v = (if length ws = vec_m_capacity (queue_of s q)
       then vec_m_capacity (queue_of s q) + vec_m_allocation_steps (queue_of s q) else vec_m_capacity (queue_of s q))"
    using vec_emplace_back_law [OF assms] by blast
  moreover have "0 < vec_m_allocation_steps (queue_of s q)" using assms(1) by (simp add: vec_rep_def)
  ultimately show ?thesis by (intro exI [of _ v]) (simp add: wq_enqueue_def vec_capacity_def)
qed

lemma wait_enter_law:
  assumes "thread_inv s ps" "k_current s \<in> set (ps ready_threads)" "vec_rep (queue_of s q) ws"
    and "length ws < vec_bound (queue_of s q)"
  shows "\<exists>s'. wait_enter s q 0 = Inr ((length ws, vec_capacity (queue_of s' q)), s') \<and>
     thread_inv s' (ps(ready_threads := remove1 (k_current s) (ps ready_threads),
       blocked_threads := ps blocked_threads @ [k_current s])) \<and>
     vec_rep (queue_of s' q) (ws @ [\<lparr>w_thread = k_current s, w_state = Blocked\<rparr>]) \<and>
     vec_bound (queue_of s' q) = vec_bound (queue_of s q) \<and> k_current s' = k_current s"
proof -
  have lr: "lists_rep s ps" using assms(1) by (simp add: thread_inv_def)
  from thread_block_law [OF lr assms(2), of q 0] obtain s1 where s1: "thread_block s (k_current s) q 0 = Inr s1"
    "relinked (set_tcb s (k_current s) (\<lambda>c. c\<lparr>t_state := BlockedQueue, t_blocker := q\<rparr>)) s1"
    "lists_rep s1 (ps(ready_threads := remove1 (k_current s) (ps ready_threads),
       blocked_threads := ps blocked_threads @ [k_current s]))" by auto
  have i1: "thread_inv s1 (ps(ready_threads := remove1 (k_current s) (ps ready_threads),
       blocked_threads := ps blocked_threads @ [k_current s]))"
    by (rule thread_inv_move [OF assms(1) _ assms(2) s1(2,3)]) simp_all
  have same: "k_queues s1 = k_queues s" "k_current s1 = k_current s" using relinked_fields [OF s1(2)] by simp_all
  from wq_enqueue_law [of s1 q ws] assms(3,4) same obtain v where
    v: "wq_enqueue s1 q = Inr ((length ws, vec_capacity v), set_queue s1 q v)"
    "vec_rep v (ws @ [\<lparr>w_thread = k_current s, w_state = Blocked\<rparr>])" "vec_bound v = vec_bound (queue_of s q)" by auto
  let ?s' = "set_queue s1 q v"
  have "thread_inv ?s' (ps(ready_threads := remove1 (k_current s) (ps ready_threads),
       blocked_threads := ps blocked_threads @ [k_current s]))" using thread_inv_cong [of ?s' s1] i1 by simp
  with s1(1) v same show ?thesis by (intro exI [of _ ?s']) (simp add: wait_enter_def)
qed

text \<open>
  The invariant of a semaphore: its queue has one blocked entry per thread the counter is short
  of, and the threads of those entries are in the list of blocked threads.
\<close>

definition blocked_entries :: "waiter list \<Rightarrow> waiter list" where
  "blocked_entries ws = filter (\<lambda>w. w_state w = Blocked) ws"

definition sem_inv :: "tasking \<Rightarrow> semaphore \<Rightarrow> (tlist \<Rightarrow> nat list) \<Rightarrow> waiter list \<Rightarrow> bool" where
  "sem_inv s m ps ws \<longleftrightarrow> thread_inv s ps \<and> vec_rep (queue_of s (sem_queue m)) ws \<and>
     int (length (blocked_entries ws)) = max 0 (- sem_count m) \<and>
     (\<forall>w\<in>set (blocked_entries ws). w_thread w \<in> set (ps blocked_threads)) \<and>
     distinct (map w_thread (blocked_entries ws))"

lemma sem_acquire_law:
  assumes "sem_inv s m ps ws" "k_current s \<in> set (ps ready_threads)" "length ws < vec_bound (queue_of s (sem_queue m))"
  shows "\<exists>it s' ps' ws'. sem_acquire s m = Inr (it, s', m\<lparr>sem_count := sem_count m - 1\<rparr>) \<and>
     sem_inv s' (m\<lparr>sem_count := sem_count m - 1\<rparr>) ps' ws' \<and> (it = None \<longleftrightarrow> 0 < sem_count m) \<and>
     (it = None \<longrightarrow> ps' = ps \<and> s' = s) \<and>
     (it \<noteq> None \<longrightarrow> k_current s \<in> set (ps' blocked_threads) \<and> k_current s \<notin> set (ps' ready_threads))"
proof (cases "0 < sem_count m")
  case True
  then show ?thesis using assms(1)
    by (intro exI [of _ None] exI [of _ s] exI [of _ ps] exI [of _ ws]) (simp add: sem_acquire_def sem_inv_def)
next
  case False
  let ?q = "sem_queue m" and ?t = "k_current s"
  let ?m = "m\<lparr>sem_count := sem_count m - 1\<rparr>" and ?w = "\<lparr>w_thread = ?t, w_state = Blocked\<rparr>"
  let ?ps = "ps(ready_threads := remove1 ?t (ps ready_threads), blocked_threads := ps blocked_threads @ [?t])"
  have i: "thread_inv s ps" and v: "vec_rep (queue_of s ?q) ws" using assms(1) by (simp_all add: sem_inv_def)
  have lr: "lists_rep s ps" using i by (simp add: thread_inv_def)
  obtain s' where s': "wait_enter s ?q 0 = Inr ((length ws, vec_capacity (queue_of s' ?q)), s')" "thread_inv s' ?ps"
    "vec_rep (queue_of s' ?q) (ws @ [?w])" using wait_enter_law [OF i assms(2) v assms(3)] by blast
  have nt: "?t \<notin> set (ps blocked_threads)" using lists_rep_disjoint [OF lr assms(2)] by blast
  then have "?t \<notin> w_thread ` set (blocked_entries ws)" using assms(1) by (auto simp: sem_inv_def)
  with assms(1) False s'(2,3) have "sem_inv s' ?m ?ps (ws @ [?w])"
    by (auto simp: sem_inv_def blocked_entries_def)
  moreover have "?t \<notin> set (?ps ready_threads)" using lists_rep_distinct [OF lr, of ready_threads] by simp
  ultimately show ?thesis using False s'(1)
    by (intro exI [of _ "Some (length ws, vec_capacity (queue_of s' ?q))"] exI [of _ s'] exI [of _ ?ps] exI [of _ "ws @ [?w]"])
      (simp add: sem_acquire_def)
qed

lemma blocked_entries_split:
  assumes "blocked_entries ws \<noteq> []"
  obtains i where "i < length ws" "w_state (ws ! i) = Blocked" "\<forall>j<i. w_state (ws ! j) \<noteq> Blocked"
    "ws ! i = hd (blocked_entries ws)"
    "blocked_entries (ws[i := (ws ! i)\<lparr>w_state := WokenUpNormally\<rparr>]) = tl (blocked_entries ws)"
proof -
  have "\<exists>w\<in>set ws. w_state w = Blocked" using assms by (auto simp: blocked_entries_def filter_empty_conv)
  then obtain us w vs where ws: "ws = us @ w # vs" "w_state w = Blocked" "\<forall>u\<in>set us. w_state u \<noteq> Blocked"
    using split_list_first_prop [of ws "\<lambda>w. w_state w = Blocked"] by blast
  then have "filter (\<lambda>w. w_state w = Blocked) us = []" by (simp add: filter_empty_conv)
  with ws that [of "length us"] show ?thesis by (auto simp: blocked_entries_def nth_append)
qed

lemma sem_release_law:
  assumes "sem_inv s m ps ws"
  shows "\<exists>s' ps' ws'. sem_release s m = Inr (s', m\<lparr>sem_count := sem_count m + 1\<rparr>) \<and>
     sem_inv s' (m\<lparr>sem_count := sem_count m + 1\<rparr>) ps' ws' \<and>
     (if sem_count m < 0
      then ps' = ps(blocked_threads := remove1 (w_thread (hd (blocked_entries ws))) (ps blocked_threads),
             ready_threads := ps ready_threads @ [w_thread (hd (blocked_entries ws))])
      else s' = s \<and> ps' = ps)"
proof (cases "sem_count m < 0")
  case False
  then show ?thesis using assms
    by (intro exI [of _ s] exI [of _ ps] exI [of _ ws]) (simp add: sem_release_def sem_inv_def)
next
  case True
  let ?q = "sem_queue m" and ?m = "m\<lparr>sem_count := sem_count m + 1\<rparr>"
  have ne: "blocked_entries ws \<noteq> []" using True assms by (auto simp: sem_inv_def)
  obtain i where i: "i < length ws" "w_state (ws ! i) = Blocked" "\<forall>j<i. w_state (ws ! j) \<noteq> Blocked"
    "ws ! i = hd (blocked_entries ws)"
    "blocked_entries (ws[i := (ws ! i)\<lparr>w_state := WokenUpNormally\<rparr>]) = tl (blocked_entries ws)"
    by (rule blocked_entries_split [OF ne])
  let ?t = "w_thread (ws ! i)" and ?ws = "ws[i := (ws ! i)\<lparr>w_state := WokenUpNormally\<rparr>]"
  have "ws ! i \<in> set (blocked_entries ws)" using i(4) ne by simp
  then have t: "?t \<in> set (ps blocked_threads)" using assms by (auto simp: sem_inv_def)
  have inv: "thread_inv s ps" "vec_rep (queue_of s ?q) ws" using assms by (simp_all add: sem_inv_def)
  let ?ps = "ps(blocked_threads := remove1 ?t (ps blocked_threads), ready_threads := ps ready_threads @ [?t])"
  obtain s' where s': "wq_wake_up s ?q = Inr s'" "thread_inv s' ?ps" "vec_rep (queue_of s' ?q) ?ws"
    using wq_wake_up_law [OF inv i(1-3) t] by auto
  obtain w ys where be: "blocked_entries ws = w # ys" "w = ws ! i" using ne i(4) by (cases "blocked_entries ws") auto
  have ys: "blocked_entries ?ws = ys" using be i(5) by simp
  have "w_thread x \<in> set (remove1 ?t (ps blocked_threads))" if "x \<in> set ys" for x
  proof -
    have "?t \<notin> w_thread ` set ys" "w_thread x \<in> set (ps blocked_threads)" using that be assms by (auto simp: sem_inv_def)
    then have "w_thread x \<noteq> ?t" "w_thread x \<in> set (ps blocked_threads)" using that by (metis imageI, simp)
    then show ?thesis by (simp add: in_set_remove1)
  qed
  moreover have "int (length ys) = max 0 (- sem_count ?m)" "distinct (map w_thread ys)"
    using assms True be by (auto simp: sem_inv_def)
  ultimately have "sem_inv s' ?m ?ps ?ws" using s'(2,3) by (simp add: sem_inv_def ys)
  with True s'(1) i(4) show ?thesis
    by (intro exI [of _ s'] exI [of _ ?ps] exI [of _ ?ws]) (simp add: sem_release_def)
qed

lemma sem_resume_law:
  assumes "sem_inv s m ps ws" "vec_deref (queue_of s (sem_queue m)) i = Inr w" "i < length ws" "w_state w \<noteq> Blocked"
    and "sem_acquire_resume s m (i, c) = Inr s'"
  shows "\<exists>ws'. sem_inv s' m ps ws'"
proof -
  let ?q = "sem_queue m"
  have v: "vec_rep (queue_of s ?q) ws" using assms(1) by (simp add: sem_inv_def)
  have w: "w = ws ! i" using vec_deref_rep [OF v assms(3)] assms(2) by simp
  obtain v' where v': "vec_remove True (queue_of s ?q) i = Inr v'" "vec_rep v' (list_remove_at i ws)"
    using vec_remove_rep [OF v assms(3), of True] by (auto simp: ok_iff)
  have s': "s' = set_queue s ?q v'"
    using assms(5) v'(1) by (auto simp: sem_acquire_resume_def wait_leave_def elim!: bindr_InrE)
  have "blocked_entries (take i ws @ [ws ! i] @ drop (Suc i) ws) = blocked_entries (take i ws @ drop (Suc i) ws)"
    using assms(4) w by (simp add: blocked_entries_def)
  then have b: "blocked_entries (list_remove_at i ws) = blocked_entries ws"
    using id_take_nth_drop [OF assms(3)] by (simp add: list_remove_at_def)
  have "thread_inv s' ps" using thread_inv_cong [of s' s ps] s' assms(1) by (simp add: sem_inv_def)
  with assms(1) s' v'(2) b show ?thesis by (intro exI [of _ "list_remove_at i ws"]) (simp add: sem_inv_def)
qed

text \<open>
  A mutex in use: threads acquire and release it in any order, a release only by a thread that
  holds it; h is the number of holders, a woken waiter being one. Between the calls the scheduler
  switches threads and woken waiters leave the queue through their own entry.
\<close>

inductive mutex_run :: "tasking \<Rightarrow> semaphore \<Rightarrow> nat \<Rightarrow> bool" where
  mutex_init: "thread_inv s ps \<Longrightarrow> vec_rep (queue_of s q) [] \<Longrightarrow> mutex_run s (mutex_new q) 0"
| mutex_take: "mutex_run s m h \<Longrightarrow> mutex_acquire s m = Inr (None, s', m') \<Longrightarrow> mutex_run s' m' (Suc h)"
| mutex_block: "mutex_run s m h \<Longrightarrow> mutex_acquire s m = Inr (Some it, s', m') \<Longrightarrow>
    vec_size (queue_of s (sem_queue m)) < vec_bound (queue_of s (sem_queue m)) \<Longrightarrow> mutex_run s' m' h"
| mutex_drop: "mutex_run s m (Suc h) \<Longrightarrow> mutex_release s m = Inr (s', m') \<Longrightarrow> \<not> sem_count m < 0 \<Longrightarrow> mutex_run s' m' h"
| mutex_hand_over: "mutex_run s m (Suc h) \<Longrightarrow> mutex_release s m = Inr (s', m') \<Longrightarrow> sem_count m < 0 \<Longrightarrow> mutex_run s' m' (Suc h)"
| mutex_resume: "mutex_run s m h \<Longrightarrow> sem_acquire_resume s m (i, c) = Inr s' \<Longrightarrow> i < vec_size (queue_of s (sem_queue m)) \<Longrightarrow>
    vec_deref (queue_of s (sem_queue m)) i = Inr w \<Longrightarrow> w_state w \<noteq> Blocked \<Longrightarrow> mutex_run s' m h"
| mutex_switch: "mutex_run s m h \<Longrightarrow> mutex_run (s\<lparr>k_current := t\<rparr>) m h"

lemma sem_inv_current: "sem_inv (s\<lparr>k_current := t\<rparr>) m ps ws \<longleftrightarrow> sem_inv s m ps ws"
  using thread_inv_cong [of "s\<lparr>k_current := t\<rparr>" s ps] by (simp add: sem_inv_def)

lemma sem_acquire_ready:
  assumes "thread_inv s ps" "sem_acquire s m = Inr (Some it, s', m')"
  shows "k_current s \<in> set (ps ready_threads)"
proof -
  have "\<exists>s1. list_remove s ready_threads (k_current s) = Inr s1"
    using assms(2) by (auto simp: sem_acquire_def Let_def wait_enter_def thread_block_def elim!: bindr_InrE split: if_splits)
  with assms(1) list_remove_inv show ?thesis by (auto simp: thread_inv_def)
qed

lemma mutex_run_inv:
  "mutex_run s m h \<Longrightarrow> (\<exists>ps ws. sem_inv s m ps ws) \<and> int h = 1 - max 0 (sem_count m) \<and> sem_count m \<le> 1"
proof (induction rule: mutex_run.induct)
  case (mutex_init s ps q)
  then have "sem_inv s (mutex_new q) ps []" by (simp add: sem_inv_def mutex_new_def sem_new_def blocked_entries_def)
  then show ?case by (auto simp: mutex_new_def sem_new_def)
next
  case (mutex_take s m h s' m')
  then have "0 < sem_count m" "s' = s" "m' = m\<lparr>sem_count := sem_count m - 1\<rparr>"
    by (auto simp: mutex_acquire_def sem_acquire_def Let_def elim!: bindr_InrE split: if_splits)
  with mutex_take.IH show ?case by (auto simp: sem_inv_def)
next
  case (mutex_block s m h it s' m')
  then obtain ps ws where i: "sem_inv s m ps ws" by blast
  have e: "sem_acquire s m = Inr (Some it, s', m')" using mutex_block.hyps by (simp add: mutex_acquire_def)
  have "k_current s \<in> set (ps ready_threads)" using sem_acquire_ready [OF _ e] i by (simp add: sem_inv_def)
  moreover have "length ws < vec_bound (queue_of s (sem_queue m))"
    using mutex_block.hyps i by (simp add: sem_inv_def vec_rep_def vec_size_def)
  ultimately obtain ps' ws' where "m' = m\<lparr>sem_count := sem_count m - 1\<rparr>" "sem_inv s' m' ps' ws'" "\<not> 0 < sem_count m"
    using sem_acquire_law [OF i] e by fastforce
  with mutex_block.IH show ?case by auto
next
  case (mutex_drop s m h s' m')
  then have "s' = s" "m' = m\<lparr>sem_count := sem_count m + 1\<rparr>" by (auto simp: mutex_release_def sem_release_def)
  with mutex_drop show ?case by (auto simp: sem_inv_def)
next
  case (mutex_hand_over s m h s' m')
  then obtain ps ws where i: "sem_inv s m ps ws" by blast
  from sem_release_law [OF i] mutex_hand_over.hyps have "m' = m\<lparr>sem_count := sem_count m + 1\<rparr>" "\<exists>ps' ws'. sem_inv s' m' ps' ws'"
    by (auto simp: mutex_release_def)
  with mutex_hand_over show ?case by auto
next
  case (mutex_resume s m h i c s' w)
  then obtain ps ws where inv: "sem_inv s m ps ws" by blast
  then have "i < length ws" using mutex_resume.hyps by (simp add: sem_inv_def vec_rep_def vec_size_def)
  with sem_resume_law [OF inv] mutex_resume show ?case by blast
next
  case (mutex_switch s m h t)
  then show ?case by (simp add: sem_inv_current)
qed

section \<open>Properties\<close>


lemma demo_queue: "vec_rep (queue_of demo_tasking q) []"
  by (simp add: demo_tasking_def vec_rep_def packed_def)


fun acquire_all :: "nat \<Rightarrow> nat list \<Rightarrow> lock_state \<Rightarrow> lock_state run" where
  "acquire_all fuel [] st = Inr st"
| "acquire_all fuel (a # as) st = bindr (acquire_at fuel a st) (acquire_all fuel as)"

fun release_all :: "nat list \<Rightarrow> lock_state \<Rightarrow> lock_state run" where
  "release_all [] st = Inr st"
| "release_all (a # as) st = bindr (release_at a st) (release_all as)"

lemma release_all_append: "release_all (as @ bs) st = bindr (release_all as st) (release_all bs)"
proof (induction as arbitrary: st)
  case (Cons a as)
  then have "release_all (as @ bs) = (\<lambda>st. bindr (release_all as st) (release_all bs))" by (simp add: fun_eq_iff)
  then show ?case by (simp add: bindr_assoc)
qed simp

lemma acquire_at_free:
  "sl_value (L a) = 0 \<Longrightarrow> acquire_at fuel a (L, e) = Inr (L(a := (L a)\<lparr>sl_value := 1, sl_eflags := e\<rparr>), e AND NOT IF_FLAG)"
  by (simp add: acquire_at_def spin_acquire_def spin_loop_free Let_def)

lemma acquire_at_held: "sl_value (L a) \<noteq> 0 \<Longrightarrow> acquire_at fuel a (L, e) = Inl OutOfFuel"
  by (simp add: acquire_at_def spin_acquire_def spin_loop_stuck Let_def)

lemma release_at_held:
  "sl_value (L a) \<noteq> 0 \<Longrightarrow> release_at a (L, e) = Inr (L(a := (L a)\<lparr>sl_value := 0\<rparr>), sl_eflags (L a))"
  by (simp add: release_at_def spin_release_def)

lemma IF_cleared: "\<not> bit (e AND NOT IF_FLAG) 9"
proof -
  have "bit IF_FLAG 9" unfolding IF_FLAG_def by code_simp
  then show ?thesis by (simp add: bit_and_iff bit_not_iff)
qed

lemma sections_law:
  assumes "distinct as" "\<forall>a\<in>set as. sl_value (L a) = 0"
  shows "\<exists>L' e'. acquire_all fuel as (L, e) = Inr (L', e') \<and> (if as = [] then e' = e else \<not> bit e' 9) \<and>
     (\<forall>b. b \<notin> set as \<longrightarrow> L' b = L b) \<and> (\<forall>a\<in>set as. sl_value (L' a) = 1) \<and>
     (\<exists>L''. release_all (rev as) (L', e') = Inr (L'', e) \<and> (\<forall>b. b \<notin> set as \<longrightarrow> L'' b = L b) \<and>
        (\<forall>a\<in>set as. sl_value (L'' a) = 0))"
  using assms
proof (induction as arbitrary: L e)
  case (Cons a as)
  let ?L1 = "L(a := (L a)\<lparr>sl_value := 1, sl_eflags := e\<rparr>)" and ?e1 = "e AND NOT IF_FLAG"
  have a1: "acquire_at fuel a (L, e) = Inr (?L1, ?e1)" using acquire_at_free [of L a fuel e] Cons.prems by simp
  have "distinct as" "\<forall>x\<in>set as. sl_value (?L1 x) = 0" using Cons.prems by auto
  from Cons.IH [OF this, of ?e1] obtain L' e' L'' where
    1: "acquire_all fuel as (?L1, ?e1) = Inr (L', e')" "if as = [] then e' = ?e1 else \<not> bit e' 9"
      "\<forall>b. b \<notin> set as \<longrightarrow> L' b = ?L1 b" "\<forall>x\<in>set as. sl_value (L' x) = 1"
      "release_all (rev as) (L', e') = Inr (L'', ?e1)" "\<forall>b. b \<notin> set as \<longrightarrow> L'' b = ?L1 b" "\<forall>x\<in>set as. sl_value (L'' x) = 0"
    by (elim exE conjE) blast
  have na: "a \<notin> set as" using Cons.prems by simp
  then have La: "L'' a = (L a)\<lparr>sl_value := 1, sl_eflags := e\<rparr>" using 1(6) by simp
  have r: "release_all (rev (a # as)) (L', e') = Inr (L''(a := (L'' a)\<lparr>sl_value := 0\<rparr>), e)"
    using 1(5) La by (simp add: release_all_append release_at_held)
  have "acquire_all fuel (a # as) (L, e) = Inr (L', e')" using a1 1(1) by simp
  moreover have "\<not> bit e' 9" using 1(2) IF_cleared by (simp split: if_splits)
  moreover have "\<forall>b. b \<notin> set (a # as) \<longrightarrow> L' b = L b" using 1(3) by simp
  moreover have "\<forall>x\<in>set (a # as). sl_value (L' x) = 1" using 1(3,4) na by simp
  moreover have "\<exists>L''. release_all (rev (a # as)) (L', e') = Inr (L'', e) \<and> (\<forall>b. b \<notin> set (a # as) \<longrightarrow> L'' b = L b) \<and>
        (\<forall>x\<in>set (a # as). sl_value (L'' x) = 0)"
    using r 1(6,7) by (intro exI [of _ "L''(a := (L'' a)\<lparr>sl_value := 0\<rparr>)"]) simp
  ultimately show ?case by auto
qed simp

text \<open>
  (C34) Spinlocks: acquiring a list of free locks and releasing them in reverse order restores the
  processor's flags and frees the locks, interrupts are off as long as one is held, and acquiring
  a lock that is already held never returns, whatever number of iterations is allowed.
\<close>

theorem spinlock_sections:
  assumes "distinct as" "\<forall>a\<in>set as. sl_value (L a) = 0" "as \<noteq> []"
  shows "ok (acquire_all fuel as (L, e)) (\<lambda>(L', e'). \<not> bit e' 9 \<and>
     (\<forall>a\<in>set as. \<forall>n. acquire_at n a (L', e') = Inl OutOfFuel) \<and>
     ok (release_all (rev as) (L', e')) (\<lambda>(L'', e''). e'' = e \<and> (\<forall>a. sl_value (L'' a) = sl_value (L a))))"
proof -
  from sections_law [OF assms(1,2), of fuel e] assms(3) obtain L' e' L'' where
    1: "acquire_all fuel as (L, e) = Inr (L', e')" "\<not> bit e' 9" "\<forall>a\<in>set as. sl_value (L' a) = 1"
      "release_all (rev as) (L', e') = Inr (L'', e)" "\<forall>b. b \<notin> set as \<longrightarrow> L'' b = L b" "\<forall>a\<in>set as. sl_value (L'' a) = 0"
    by auto
  have "sl_value (L'' a) = sl_value (L a)" for a using 1(5,6) assms(2) by (cases "a \<in> set as") auto
  with 1 acquire_at_held show ?thesis by (simp add: run_simps)
qed

theorem spinlock_sections_witness:
  "ok (acquire_all 0 [1, 2] ((\<lambda>_. \<lparr>sl_value = 0, sl_eflags = 0\<rparr>), 0x202)) (\<lambda>(L', e'). \<not> bit e' 9 \<and>
     acquire_at 5 1 (L', e') = Inl OutOfFuel)"
  using spinlock_sections [of "[1, 2]" "\<lambda>_. \<lparr>sl_value = 0, sl_eflags = 0\<rparr>" 0 "0x202"]
  by (auto elim!: ok_mono)

text \<open>
  (C39) A waiter keeps an iterator into the vector of waiters over its yield. When another thread
  waits on the same queue and the vector has to grow, the iterator points into freed storage:
  the first waiter reads freed memory when it is woken. On a new queue the second waiter suffices.
\<close>

theorem second_waiter_frees_entry:
  assumes "vec_rep (queue_of s q) ws" "length ws = vec_capacity (queue_of s q)" "length ws < vec_bound (queue_of s q)"
  shows "ok (wq_enqueue s q) (\<lambda>(_, s'). wait_leave s' q (i, vec_capacity (queue_of s q)) = Inl Lifetime)"
proof -
  obtain v where "wq_enqueue s q = Inr ((length ws, vec_capacity v), set_queue s q v)"
    "vec_capacity v \<noteq> vec_capacity (queue_of s q)"
    using wq_enqueue_law [OF assms(1,3)] assms(2) by blast
  then show ?thesis by (simp add: run_simps wait_leave_def wait_read_def)
qed

theorem second_waiter_frees_entry_witness:
  "ok (wq_enqueue (set_queue demo_tasking 5 \<lparr>vec_m_storage = Some [Live \<lparr>w_thread = 20, w_state = Blocked\<rparr>], vec_m_count = 1,
        vec_m_capacity = 1, vec_m_allocation_steps = 1\<rparr>) 5) (\<lambda>(_, s'). wait_leave s' 5 (0, 1) = Inl Lifetime)"
  using second_waiter_frees_entry [of "set_queue demo_tasking 5 \<lparr>vec_m_storage = Some [Live \<lparr>w_thread = 20, w_state = Blocked\<rparr>],
        vec_m_count = 1, vec_m_capacity = 1, vec_m_allocation_steps = 1\<rparr>" 5 "[\<lparr>w_thread = 20, w_state = Blocked\<rparr>]" 0]
  by (simp add: vec_rep_def packed_def vec_bound_def vec_capacity_def)

text \<open>
  (C40) A lost wake-up: \<open>wait_on_event\<close> does not set its entry back to \<open>Blocked\<close> when it blocks again.
  After one wake-up with the event still not there, the next \<open>wake_up\<close> finds no blocked entry and
  fails its assertion although the thread waits.
\<close>

theorem event_wait_loses_wake_up:
  assumes "thread_inv s ps" "vec_rep (queue_of s q) [\<lparr>w_thread = t, w_state = Blocked\<rparr>]" "t \<in> set (ps blocked_threads)"
  shows "ok (wq_wake_up s q) (\<lambda>s1. ok (wait_on_event_resume (s1\<lparr>k_current := t\<rparr>) q 0 (0, vec_capacity (queue_of s q)) True)
     (\<lambda>(r, s2). r = None \<and> t_state (k_tcb s2 t) = BlockedQueue \<and> wq_wake_up s2 q = Inl AssertFailed))"
proof -
  let ?w = "\<lparr>w_thread = t, w_state = Blocked\<rparr>"
  let ?ps = "ps(blocked_threads := remove1 t (ps blocked_threads), ready_threads := ps ready_threads @ [t])"
  obtain s1 where s1: "wq_wake_up s q = Inr s1" "thread_inv s1 ?ps"
    "vec_rep (queue_of s1 q) [\<lparr>w_thread = t, w_state = WokenUpNormally\<rparr>]" "vec_capacity (queue_of s1 q) = vec_capacity (queue_of s q)"
    using wq_wake_up_law [OF assms(1,2), of 0 blocked_threads] assms(3) by auto
  let ?s = "s1\<lparr>k_current := t\<rparr>"
  have lr: "lists_rep ?s ?ps" using s1(2) lists_rep_cong [of ?s s1] by (simp add: thread_inv_def)
  have "t \<in> set (?ps ready_threads)" by simp
  from thread_block_law [OF lr this, of q 0] obtain s2 where s2: "thread_block ?s t q 0 = Inr s2"
    "relinked (set_tcb ?s t (\<lambda>c. c\<lparr>t_state := BlockedQueue, t_blocker := q\<rparr>)) s2" by auto
  have rd: "wait_read ?s q (0, vec_capacity (queue_of s q)) = Inr WokenUpNormally"
    using s1(3,4) vec_deref_rep [OF s1(3), of 0] by (simp add: wait_read_def)
  have q2: "k_queues s2 = k_queues s1" "t_state (k_tcb s2 t) = BlockedQueue"
    using relinked_fields(1,5) [OF s2(2)] by simp_all
  then have "wq_wake_up s2 q = Inl AssertFailed" using wq_wake_up_none [of s2 q] s1(3) by simp
  with s1(1) rd s2(1) q2(2) show ?thesis by (simp add: run_simps wait_on_event_resume_def)
qed

lemma demo_waiting: "\<exists>s ps. thread_inv s ps \<and> vec_rep (queue_of s 5) [\<lparr>w_thread = 10, w_state = Blocked\<rparr>] \<and> 10 \<in> set (ps blocked_threads)"
proof -
  have "10 \<in> set (demo_lists ready_threads)" "k_current demo_tasking = 10" by (simp_all add: demo_lists_def demo_tasking_def)
  moreover have "0 < vec_bound (queue_of demo_tasking 5)" by (simp add: demo_tasking_def vec_bound_def)
  ultimately show ?thesis using wait_enter_law [OF demo_inv _ demo_queue [of 5]] by fastforce
qed

theorem event_wait_loses_wake_up_witness:
  "\<exists>s. ok (wq_wake_up s 5) (\<lambda>s1. ok (wait_on_event_resume (s1\<lparr>k_current := 10\<rparr>) 5 0 (0, vec_capacity (queue_of s 5)) True)
     (\<lambda>(r, s2). r = None \<and> wq_wake_up s2 5 = Inl AssertFailed))"
proof -
  obtain s ps where "thread_inv s ps" "vec_rep (queue_of s 5) [\<lparr>w_thread = 10, w_state = Blocked\<rparr>]" "10 \<in> set (ps blocked_threads)"
    using demo_waiting by blast
  from event_wait_loses_wake_up [OF this] show ?thesis by (intro exI [of _ s]) (auto elim!: ok_mono)
qed

end
