(* ===== verification/Clib.thy ===== *)
theory Clib
  imports Bit_Scan
begin

text \<open>
  The C library functions of clib.cpp. A \<open>char*\<close> is a storage of bytes with an offset into it; a
  byte that was never written is a raw slot, reading it or leaving the storage is a fault. The
  functions that write take the storage they write to and return it changed; \<open>memmove\<close> works
  inside one storage, which is the case its two branches are for. \<open>char\<close> is a byte; the comparisons
  of the sources with letters do not depend on its sign.
\<close>

type_synonym cptr = "u8 block \<times> nat"

definition rd :: "cptr \<Rightarrow> nat \<Rightarrow> u8 run" where
  "rd p i = read_slot (fst p) (snd p + i)"

text \<open>A pointer p moved by n, and the address of a literal or of an array that holds cs.\<close>

definition advance :: "cptr \<Rightarrow> nat \<Rightarrow> cptr" where
  "advance p n = (fst p, snd p + n)"

definition chars :: "u8 list \<Rightarrow> u8 block" where
  "chars cs = Some (map Live cs)"

definition literal :: "u8 list \<Rightarrow> cptr" where
  "literal cs = (chars (cs @ [0]), 0)"

section \<open>Memory\<close>

definition memcpy :: "u8 block \<Rightarrow> nat \<Rightarrow> cptr \<Rightarrow> size_t \<Rightarrow> u8 block run" where
  "memcpy dest d source len = for_up 0 len (\<lambda>i b. bindr (rd source i) (assign_slot True b (d + i))) dest"

definition memmove :: "u8 block \<Rightarrow> nat \<Rightarrow> nat \<Rightarrow> size_t \<Rightarrow> u8 block run" where
  "memmove b dest source len =
     (if source < dest
      then for_down len 0 (\<lambda>i b. bindr (read_slot b (source + i - 1)) (assign_slot True b (dest + i - 1))) b
      else for_up 0 len (\<lambda>i b. bindr (read_slot b (source + i)) (assign_slot True b (dest + i))) b)"

definition memset :: "u8 block \<Rightarrow> nat \<Rightarrow> u8 \<Rightarrow> size_t \<Rightarrow> u8 block run" where
  "memset dest d value len = for_up 0 len (\<lambda>i b. assign_slot True b (d + i) value) dest"

text \<open>\<open>memcmp\<close> answers whether the two ranges differ.\<close>

function memcmp_loop :: "cptr \<Rightarrow> cptr \<Rightarrow> size_t \<Rightarrow> nat \<Rightarrow> bool run" where
  "memcmp_loop source dest len i =
     (if i < len then bindr (rd source i) (\<lambda>x. bindr (rd dest i) (\<lambda>y.
        if x \<noteq> y then Inr True else memcmp_loop source dest len (i + 1)))
      else Inr False)"
  by pat_completeness auto
termination by (relation "measure (\<lambda>(_, _, len, i). len - i)") auto

definition memcmp :: "cptr \<Rightarrow> cptr \<Rightarrow> size_t \<Rightarrow> bool run" where
  "memcmp source dest len = memcmp_loop source dest len 0"

section \<open>Strings\<close>

text \<open>The walk of \<open>strlen\<close> over the rest of the storage.\<close>

fun strlen_loop :: "u8 slot list \<Rightarrow> size_t \<Rightarrow> size_t run" where
  "strlen_loop [] len = Inl BadAccess"
| "strlen_loop (Raw # cs) len = Inl Lifetime"
| "strlen_loop (Live c # cs) len = (if c = 0 then Inr len else strlen_loop cs (sz_add len 1))"

fun strlen :: "cptr \<Rightarrow> size_t run" where
  "strlen (None, p) = Inl BadAccess"
| "strlen (Some b, p) = strlen_loop (drop p b) 0"

definition strncmp :: "cptr \<Rightarrow> cptr \<Rightarrow> size_t \<Rightarrow> bool run" where
  "strncmp source dest len = memcmp source dest len"

definition strcmp :: "cptr \<Rightarrow> cptr \<Rightarrow> bool run" where
  "strcmp source dest = bindr (strlen source) (\<lambda>src_len. bindr (strlen dest) (\<lambda>n.
     if src_len \<noteq> n then Inr True else memcmp_loop source dest src_len 0))"

text \<open>The loops over a terminated string, with the length of the storage as fuel.\<close>

fun strcpy_loop :: "nat \<Rightarrow> u8 block \<Rightarrow> nat \<Rightarrow> cptr \<Rightarrow> size_t \<Rightarrow> (size_t \<times> u8 block) run" where
  "strcpy_loop fuel dst d src i = bindr (rd src i) (\<lambda>c. bindr (assign_slot True dst (d + i) c) (\<lambda>dst'.
     if c = 0 then Inr (i, dst')
     else case fuel of 0 \<Rightarrow> Inl OutOfFuel | Suc f \<Rightarrow> strcpy_loop f dst' d src (sz_add i 1)))"

definition block_size :: "'a block \<Rightarrow> nat" where
  "block_size b = (case b of None \<Rightarrow> 0 | Some xs \<Rightarrow> length xs)"

definition strcpy :: "u8 block \<Rightarrow> nat \<Rightarrow> cptr \<Rightarrow> (size_t \<times> u8 block) run" where
  "strcpy dst d src = strcpy_loop (block_size (fst src)) dst d src 0"

fun case_loop :: "(u8 \<Rightarrow> u8) \<Rightarrow> nat \<Rightarrow> u8 block \<Rightarrow> nat \<Rightarrow> size_t \<Rightarrow> (size_t \<times> u8 block) run" where
  "case_loop f fuel b p i = bindr (rd (b, p) i) (\<lambda>c.
     if c = 0 then Inr (i, b)
     else bindr (assign_slot True b (p + i) (f c)) (\<lambda>b'.
       case fuel of 0 \<Rightarrow> Inl OutOfFuel | Suc n \<Rightarrow> case_loop f n b' p (sz_add i 1)))"

definition to_upper_char :: "u8 \<Rightarrow> u8" where
  "to_upper_char c = (if 97 \<le> c \<and> c \<le> 122 then c + (65 - 97) else c)"

definition to_lower_char :: "u8 \<Rightarrow> u8" where
  "to_lower_char c = (if 65 \<le> c \<and> c \<le> 90 then c - (65 - 97) else c)"

definition toupper :: "u8 block \<Rightarrow> nat \<Rightarrow> (size_t \<times> u8 block) run" where
  "toupper b p = case_loop to_upper_char (block_size b) b p 0"

definition tolower :: "u8 block \<Rightarrow> nat \<Rightarrow> (size_t \<times> u8 block) run" where
  "tolower b p = case_loop to_lower_char (block_size b) b p 0"

section \<open>Numbers\<close>

definition digit_char :: "nat \<Rightarrow> u8" where
  "digit_char tmp = (if tmp < 10 then of_nat (tmp + 48) else of_nat (tmp + 97 - 10))"

text \<open>The \<open>do\<close> loop writes the digits, lowest first; it may leave the buffer before it ends.\<close>

fun digits_loop :: "nat \<Rightarrow> u8 block \<Rightarrow> nat \<Rightarrow> size_t \<Rightarrow> size_t \<Rightarrow> nat \<Rightarrow> (nat \<times> u8 block) run" where
  "digits_loop fuel buf p n base i =
     bindr (sz_mod n base) (\<lambda>tmp. bindr (assign_slot True buf (p + i) (digit_char tmp)) (\<lambda>buf'.
       if n div base = 0 then Inr (i + 1, buf')
       else case fuel of 0 \<Rightarrow> Inl OutOfFuel | Suc f \<Rightarrow> digits_loop f buf' p (n div base) base (i + 1)))"

function reverse_loop :: "u8 block \<Rightarrow> nat \<Rightarrow> nat \<Rightarrow> nat \<Rightarrow> u8 block run" where
  "reverse_loop buf p j i =
     (if j < i then bindr (rd (buf, p) j) (\<lambda>tmp. bindr (rd (buf, p) i) (\<lambda>x.
        bindr (assign_slot True buf (p + j) x) (\<lambda>b1. bindr (assign_slot True b1 (p + i) tmp) (\<lambda>b2.
        reverse_loop b2 p (j + 1) (i - 1)))))
      else Inr buf)"
  by pat_completeness auto
termination by (relation "measure (\<lambda>(_, _, j, i). i - j)") auto

definition itoa :: "u8 block \<Rightarrow> nat \<Rightarrow> size_t \<Rightarrow> size_t \<Rightarrow> u8 block run" where
  "itoa buf p n base =
     bindr (digits_loop (block_size buf) buf p n base 0) (\<lambda>(i, b1).
     bindr (assign_slot True b1 (p + i) 0) (\<lambda>b2. reverse_loop b2 p 0 (i - 1)))"

declare memcmp_loop.simps [simp del] reverse_loop.simps [simp del] strcpy_loop.simps [simp del]
  case_loop.simps [simp del] digits_loop.simps [simp del]

section \<open>Laws\<close>

text \<open>\<open>reads p cs\<close>: the bytes cs can be read at p.\<close>

definition reads :: "cptr \<Rightarrow> u8 list \<Rightarrow> bool" where
  "reads p cs = (\<forall>i<length cs. rd p i = Inr (cs ! i))"

lemma reads_rd: "reads p cs \<Longrightarrow> i < length cs \<Longrightarrow> rd p i = Inr (cs ! i)"
  by (simp add: reads_def)

lemma reads_chars [simp]: "reads (chars (as @ cs @ bs), length as) cs"
  by (simp add: reads_def rd_def chars_def nth_append)

lemma reads_literal: "reads (literal cs) (cs @ [0])" "reads (literal cs) cs"
  using reads_chars [of "[]" "cs @ [0]" "[]"] reads_chars [of "[]" cs "[0]"] by (simp_all add: literal_def)

lemma reads_take: "reads p cs \<Longrightarrow> reads p (take n cs)"
  by (simp add: reads_def)

lemma reads_advance: "reads p cs \<Longrightarrow> reads (advance p n) (drop n cs)"
  by (auto simp: reads_def rd_def advance_def add.assoc)

lemma memcpy_law:
  assumes "reads src cs" "d + length cs \<le> length b"
  shows "memcpy (Some b) d src (length cs) = Inr (Some (take d b @ map Live cs @ drop (d + length cs) b))"
proof -
  have "ok (memcpy (Some b) d src (length cs))
     (\<lambda>r. r = Some (take d b @ map Live (take (length cs) cs) @ drop (d + length cs) b))"
    unfolding memcpy_def
  proof (rule for_up_rule [where I = "\<lambda>i r. r = Some (take d b @ map Live (take i cs) @ drop (d + i) b)"], goal_cases)
    case (3 i r)
    have "drop (d + i) b = b ! (d + i) # drop (Suc (d + i)) b" using 3 assms(2) by (simp add: Cons_nth_drop_Suc)
    with 3 assms show ?case
      by (simp add: run_simps reads_rd list_update_append take_Suc_conv_app_nth)
  qed simp_all
  then show ?thesis by (auto simp: ok_iff)
qed

lemma rd_Some: "rd (Some b, p) i = Inr c \<longleftrightarrow> p + i < length b \<and> b ! (p + i) = Live c"
  by (auto simp: rd_def split: slot.splits)

lemma reads_Cons: "reads (b, p) (c # cs) \<longleftrightarrow> rd (b, p) 0 = Inr c \<and> reads (b, Suc p) cs"
proof -
  have "reads (b, p) (c # cs) \<longleftrightarrow> rd (b, p) 0 = Inr c \<and> (\<forall>i<length cs. rd (b, p) (Suc i) = Inr (cs ! i))"
    unfolding reads_def by (metis (no_types, lifting) length_Cons less_Suc_eq_0_disj nth_Cons_0 nth_Cons_Suc)
  then show ?thesis by (simp add: reads_def rd_def)
qed

lemma reads_Some: "reads (Some b, p) cs \<longleftrightarrow> (\<exists>rest. drop p b = map Live cs @ rest)"
proof (induction cs arbitrary: p)
  case (Cons c cs)
  have "reads (Some b, p) (c # cs) \<longleftrightarrow> rd (Some b, p) 0 = Inr c \<and> reads (Some b, Suc p) cs"
    by (rule reads_Cons)
  also have "\<dots> \<longleftrightarrow> (\<exists>rest. drop p b = map Live (c # cs) @ rest)"
  proof (cases "p < length b")
    case True
    then have "drop p b = b ! p # drop (Suc p) b" by (simp add: Cons_nth_drop_Suc)
    with True Cons.IH [of "Suc p"] show ?thesis by (auto simp: rd_Some)
  qed (simp add: rd_Some)
  finally show ?case .
qed (simp add: reads_def)

lemma reads_size: "reads p cs \<Longrightarrow> length cs \<le> block_size (fst p)"
proof (cases p; cases "fst p")
  fix b i x
  assume r: "reads p cs" "p = (b, i)" "fst p = Some x"
  then obtain rest where "drop i x = map Live cs @ rest" by (auto simp: reads_Some)
  then have "length (drop i x) = length cs + length rest" by simp
  then show ?thesis using r by (simp add: block_size_def)
qed (auto simp: block_size_def reads_def rd_def)

lemma reads_None [simp]: "reads (None, p) cs \<longleftrightarrow> cs = []"
  by (auto simp: reads_def rd_def)

lemma strlen_loop_law:
  "0 \<notin> set cs \<Longrightarrow> n + length cs < sz_range \<Longrightarrow> strlen_loop (map Live cs @ Live 0 # rest) n = Inr (n + length cs)"
  by (induction cs arbitrary: n) (auto simp: sz_add_eq)

lemma strlen_law:
  assumes "reads p (cs @ [0])" "0 \<notin> set cs" "length cs < sz_range"
  shows "strlen p = Inr (length cs)"
proof -
  obtain b o' where p: "p = (Some b, o')" using assms(1) by (cases p; cases "fst p") auto
  then obtain rest where "drop o' b = map Live cs @ Live 0 # rest" using assms(1) by (auto simp: reads_Some)
  with p assms(2,3) strlen_loop_law [of cs 0] show ?thesis by simp
qed

lemma memcmp_loop_law:
  assumes "reads p xs" "reads q ys" "n \<le> length xs" "n \<le> length ys" "i \<le> n"
  shows "memcmp_loop p q n i = Inr (drop i (take n xs) \<noteq> drop i (take n ys))"
  using assms(5)
proof (induction "n - i" arbitrary: i)
  case (Suc k)
  then have "i < n" by simp
  then have "drop i (take n xs) = xs ! i # drop (Suc i) (take n xs)" "drop i (take n ys) = ys ! i # drop (Suc i) (take n ys)"
    using assms by (simp_all flip: Cons_nth_drop_Suc)
  with Suc \<open>i < n\<close> assms Suc.hyps(1) [of "Suc i"] show ?case
    by (subst memcmp_loop.simps) (simp add: reads_rd)
qed (use assms in \<open>simp add: memcmp_loop.simps\<close>)

lemma memcmp_law:
  "reads p xs \<Longrightarrow> reads q ys \<Longrightarrow> n \<le> length xs \<Longrightarrow> n \<le> length ys \<Longrightarrow> memcmp p q n = Inr (take n xs \<noteq> take n ys)"
  using memcmp_loop_law [of p xs q ys n 0] by (simp add: memcmp_def)

lemma strcmp_law:
  assumes "reads p (xs @ [0])" "reads q (ys @ [0])" "0 \<notin> set xs" "0 \<notin> set ys" "length xs < sz_range" "length ys < sz_range"
  shows "strcmp p q = Inr (xs \<noteq> ys)"
  using strlen_law [OF assms(1,3,5)] strlen_law [OF assms(2,4,6)] memcmp_loop_law [OF assms(1,2), of "length xs" 0]
  by (auto simp: strcmp_def)

lemma drop_Live_nth: "drop s (b :: u8 slot list) = map Live cs @ rest \<Longrightarrow> j < length cs \<Longrightarrow> b ! (s + j) = Live (cs ! j) \<and> s + j < length b"
  using reads_Some [of b s cs] reads_rd [of "(Some b, s)" cs j] by (simp add: rd_Some)

lemma memmove_law:
  assumes "drop s b = map Live cs @ rest" "d + length cs \<le> length b"
  shows "memmove (Some b) d s (length cs) = Inr (Some (take d b @ map Live cs @ drop (d + length cs) b))"
proof (cases "s < d")
  note cs = drop_Live_nth [OF assms(1)]
  case True
  let ?I = "\<lambda>i r. r = Some (take (d + i) b @ map Live (drop i cs) @ drop (d + length cs) b)"
  have "ok (memmove (Some b) d s (length cs)) (?I 0)"
    unfolding memmove_def if_P [OF True]
  proof (rule for_down_rule [where I = ?I], goal_cases)
    case (3 i r)
    then obtain j where j: "i = Suc j" "j < length cs" by (cases i) auto
    have "drop j cs = cs ! j # drop (Suc j) cs" "take (d + Suc j) b = take (d + j) b @ [b ! (d + j)]"
      using j assms(2) by (simp_all add: Cons_nth_drop_Suc take_Suc_conv_app_nth)
    moreover have "(take (d + j) b @ x # y) ! (s + j) = Live (cs ! j)" for x y
      using cs [OF j(2)] True j assms(2) by (simp add: nth_append)
    moreover have "d + j < Suc (length b - Suc 0)" using j assms(2) by linarith
    ultimately show ?case using 3 j cs [OF j(2)] True assms(2) by (simp add: run_simps list_update_append)
  qed (use assms in simp_all)
  then show ?thesis by (auto simp: ok_iff)
next
  note cs = drop_Live_nth [OF assms(1)]
  case False
  let ?I = "\<lambda>i r. r = Some (take d b @ map Live (take i cs) @ drop (d + i) b)"
  have "ok (memmove (Some b) d s (length cs)) (?I (length cs))"
    unfolding memmove_def if_not_P [OF False]
  proof (rule for_up_rule [where I = ?I], goal_cases)
    case (3 i r)
    have "drop (d + i) b = b ! (d + i) # drop (Suc (d + i)) b" using 3 assms(2) by (simp add: Cons_nth_drop_Suc)
    moreover have "(take d b @ map Live (take i cs) @ drop (d + i) b) ! (s + i) = Live (cs ! i)"
    proof -
      have "\<not> s + i < d" "\<not> s + i - d < i" "d + i + (s + i - d - i) = s + i" using False by simp_all
      then show ?thesis using cs [of i] False 3 assms(2) by (simp add: nth_append add.commute [of s i])
    qed
    moreover have "s + i < Suc (length b - Suc 0)" using cs [OF 3(2)] by linarith
    ultimately show ?case using 3 cs [of i] False assms(2)
      by (simp add: run_simps list_update_append take_Suc_conv_app_nth)
  qed simp_all
  then show ?thesis by (auto simp: ok_iff)
qed

section \<open>Printing numbers\<close>

text \<open>The digits of n, lowest first, and the number that a string of digits denotes.\<close>

function low_digits :: "nat \<Rightarrow> nat \<Rightarrow> nat list" where
  "low_digits base n = (n mod base) # (if base < 2 \<or> n div base = 0 then [] else low_digits base (n div base))"
  by pat_completeness auto
termination
proof (relation "measure snd")
  fix base n :: nat
  assume "\<not> (base < 2 \<or> n div base = 0)"
  moreover from this have "0 < n" by (cases n) auto
  ultimately show "((base, n div base), base, n) \<in> measure snd" by (simp add: not_less)
qed simp

declare low_digits.simps [simp del]

definition digit_value :: "u8 \<Rightarrow> nat" where
  "digit_value c = (if unat c < 97 then unat c - 48 else unat c - 97 + 10)"

definition number_of :: "nat \<Rightarrow> u8 list \<Rightarrow> nat" where
  "number_of base cs = foldl (\<lambda>a c. base * a + digit_value c) 0 cs"

lemma low_digits_value: "2 \<le> base \<Longrightarrow> foldr (\<lambda>d a. base * a + d) (low_digits base n) 0 = n"
  by (induction base n rule: low_digits.induct) (subst low_digits.simps, auto simp: div_eq_0_iff)

lemma low_digits_less: "2 \<le> base \<Longrightarrow> d \<in> set (low_digits base n) \<Longrightarrow> d < base"
  by (induction base n rule: low_digits.induct) (subst (asm) (2) low_digits.simps, auto split: if_splits)

lemma low_digits_length: "2 \<le> base \<Longrightarrow> n < base ^ k \<Longrightarrow> 0 < k \<Longrightarrow> length (low_digits base n) \<le> k"
proof (induction k arbitrary: n)
  case (Suc k)
  then have "n div base < base ^ k" by (simp add: less_mult_imp_div_less mult.commute)
  with Suc show ?case by (cases k) (auto simp: low_digits.simps [of base n])
qed simp

lemma low_digits_lead: "2 \<le> base \<Longrightarrow> 0 < n \<Longrightarrow> 0 < last (low_digits base n)"
proof (induction base n rule: low_digits.induct)
  case (1 base n)
  have "low_digits base (n div base) \<noteq> []" by (subst low_digits.simps) simp
  moreover have "n mod base = n" if "n div base = 0" using that 1(2) by (auto simp: div_eq_0_iff)
  ultimately show ?case using 1 by (subst low_digits.simps) auto
qed

lemma unat_u8: "k < 256 \<Longrightarrow> unat (of_nat k :: u8) = k"
  by (simp add: unat_of_nat take_bit_eq_mod)

lemma unat_digit_char: "d < 36 \<Longrightarrow> unat (digit_char d) = (if d < 10 then d + 48 else d + 87)"
  using unat_u8 [of "d + 48"] unat_u8 [of "d + 87"] by (simp add: digit_char_def add.commute)

lemma digit_value_char: "d < 36 \<Longrightarrow> digit_value (digit_char d) = d"
  by (simp add: digit_value_def unat_digit_char)

lemma digit_char_nonzero: "d < 36 \<Longrightarrow> digit_char d \<noteq> 0"
proof
  assume "d < 36" "digit_char d = 0"
  then show False using unat_digit_char [of d] by (simp split: if_splits)
qed

lemma number_of_digits:
  assumes "2 \<le> base" "base \<le> 36"
  shows "number_of base (map digit_char (rev (low_digits base n))) = n"
proof -
  have "foldl (\<lambda>a c. base * a + digit_value c) k (map digit_char ds) = foldl (\<lambda>a d. base * a + d) k ds"
    if "\<forall>d\<in>set ds. d < 36" for ds k
    using that by (induction ds arbitrary: k) (simp_all add: digit_value_char)
  moreover have "\<forall>d\<in>set (rev (low_digits base n)). d < 36" using low_digits_less [OF assms(1)] assms(2) by fastforce
  ultimately have "number_of base (map digit_char (rev (low_digits base n))) = foldl (\<lambda>a d. base * a + d) 0 (rev (low_digits base n))"
    by (simp add: number_of_def)
  also have "\<dots> = n" using low_digits_value [OF assms(1)] by (simp add: foldl_conv_foldr)
  finally show ?thesis .
qed

lemma digits_loop_law:
  assumes "2 \<le> base" "p + i + length (low_digits base n) \<le> length b" "length (low_digits base n) \<le> Suc fuel"
  shows "digits_loop fuel (Some b) p n base i = Inr (i + length (low_digits base n),
     Some (take (p + i) b @ map (\<lambda>d. Live (digit_char d)) (low_digits base n) @ drop (p + i + length (low_digits base n)) b))"
  using assms
proof (induction fuel arbitrary: b n i)
  case 0
  then have "n div base = 0" by (cases "n div base = 0") (auto simp: low_digits.simps [of base n] low_digits.simps [of base "n div base"])
  with 0 show ?case
    by (subst digits_loop.simps) (simp add: sz_mod_def low_digits.simps [of base n] upd_conv_take_nth_drop)
next
  case (Suc fuel)
  let ?b = "b[p + i := Live (digit_char (n mod base))]"
  show ?case
  proof (cases "n div base = 0")
    case True
    with Suc show ?thesis
      by (subst digits_loop.simps) (simp add: sz_mod_def low_digits.simps [of base n] upd_conv_take_nth_drop)
  next
    case False
    then have l: "low_digits base n = n mod base # low_digits base (n div base)"
      using Suc.prems(1) by (subst low_digits.simps) simp
    have "digits_loop fuel (Some ?b) p (n div base) base (i + 1) = Inr (i + 1 + length (low_digits base (n div base)),
       Some (take (p + (i + 1)) ?b @ map (\<lambda>d. Live (digit_char d)) (low_digits base (n div base)) @
         drop (p + (i + 1) + length (low_digits base (n div base))) ?b))"
      using Suc.prems l by (intro Suc.IH) simp_all
    moreover have "take (p + (i + 1)) ?b = take (p + i) b @ [Live (digit_char (n mod base))]"
      using Suc.prems l by (simp add: take_Suc_conv_app_nth)
    ultimately show ?thesis using Suc.prems False l by (subst digits_loop.simps) (simp add: sz_mod_def)
  qed
qed

lemma reverse_loop_law:
  "p + j = length as \<Longrightarrow> Suc i = j + length cs \<Longrightarrow>
   reverse_loop (Some (as @ map Live cs @ bs)) p j i = Inr (Some (as @ map Live (rev cs) @ bs))"
proof (induction "length cs" arbitrary: as cs bs i j rule: less_induct)
  case less
  show ?case
  proof (cases "j < i")
    case True
    then have "2 \<le> length cs" using less.prems by simp
    then obtain x mid y where cs: "cs = x # mid @ [y]"
    proof (cases cs)
      case (Cons x cs')
      then show thesis using \<open>2 \<le> length cs\<close> that by (cases cs' rule: rev_cases) auto
    qed simp
    have i: "i = Suc j + length mid" using less.prems cs by simp
    have "reverse_loop (Some ((as @ [Live y]) @ map Live mid @ (Live x # bs))) p (Suc j) (i - 1) =
        Inr (Some ((as @ [Live y]) @ map Live (rev mid) @ (Live x # bs)))"
      using less.prems cs i by (intro less.hyps) simp_all
    moreover have "p + i = length as + Suc (length mid)" using i less.prems by simp
    ultimately show ?thesis using True cs less.prems(1)
      by (subst reverse_loop.simps) (simp add: rd_def nth_append list_update_append)
  next
    case False
    then have "length cs \<le> 1" using less.prems by simp
    then have "rev cs = cs" by (cases cs) auto
    with False show ?thesis by (subst reverse_loop.simps) simp
  qed
qed

lemma itoa_law:
  assumes "2 \<le> base" "p + length (low_digits base n) < length b"
  shows "itoa (Some b) p n base = Inr (Some (take p b @ map Live (map digit_char (rev (low_digits base n)) @ [0]) @
     drop (p + length (low_digits base n) + 1) b))"
proof -
  let ?ds = "low_digits base n" and ?cs = "map digit_char (low_digits base n)"
  have ne: "?ds \<noteq> []" by (subst low_digits.simps) simp
  have "digits_loop (length b) (Some b) p n base 0 = Inr (length ?ds, Some (take p b @ map Live ?cs @ drop (p + length ?ds) b))"
    using digits_loop_law [of base p 0 n b "length b"] assms by (simp add: comp_def)
  moreover have "drop (p + length ?ds) b = b ! (p + length ?ds) # drop (p + length ?ds + 1) b"
    using assms(2) by (simp add: Cons_nth_drop_Suc)
  moreover have "reverse_loop (Some (take p b @ map Live ?cs @ Live 0 # drop (p + length ?ds + 1) b)) p 0 (length ?ds - 1) =
      Inr (Some (take p b @ map Live (rev ?cs) @ Live 0 # drop (p + length ?ds + 1) b))"
    using assms(2) ne by (intro reverse_loop_law) (simp_all add: Suc_diff_1)
  ultimately show ?thesis
    using assms(2) by (simp add: itoa_def block_size_def list_update_append rev_map comp_def)
qed

text \<open>The loops over terminated strings.\<close>

lemma strcpy_loop_law:
  assumes "reads src (cs @ [0])" "0 \<notin> set cs" "d + length cs < length b" "length cs < sz_range"
    "i \<le> length cs" "length cs \<le> i + fuel"
  shows "strcpy_loop fuel (Some b) d src i =
     Inr (length cs, Some (take (d + i) b @ map Live (drop i (cs @ [0])) @ drop (d + length cs + 1) b))"
  using assms
proof (induction fuel arbitrary: i b)
  case (Suc fuel)
  show ?case
  proof (cases "i = length cs")
    case True
    then show ?thesis using Suc.prems reads_rd [OF assms(1), of i]
      by (subst strcpy_loop.simps) (simp add: nth_append upd_conv_take_nth_drop)
  next
    case False
    let ?b = "b[d + i := Live (cs ! i)]"
    have i: "i < length cs" using False Suc.prems by simp
    then have "cs ! i \<noteq> 0" using assms(2) by (metis nth_mem)
    moreover have "strcpy_loop fuel (Some ?b) d src (Suc i) =
       Inr (length cs, Some (take (d + Suc i) ?b @ map Live (drop (Suc i) (cs @ [0])) @ drop (d + length cs + 1) ?b))"
      using Suc.prems i by (intro Suc.IH) simp_all
    moreover have "take (d + Suc i) ?b = take (d + i) b @ [Live (cs ! i)]"
      using Suc.prems i by (simp add: take_Suc_conv_app_nth)
    moreover have "drop i cs = cs ! i # drop (Suc i) cs" using i by (simp add: Cons_nth_drop_Suc)
    moreover have "sz_add i (Suc 0) = Suc i" using i assms(4) by (simp add: sz_add_eq)
    ultimately show ?thesis using i Suc.prems reads_rd [OF assms(1), of i]
      by (subst strcpy_loop.simps) (simp add: nth_append)
  qed
next
  case 0
  then have "i = length cs" by simp
  then show ?case using 0 reads_rd [OF assms(1), of i]
    by (subst strcpy_loop.simps) (simp add: nth_append upd_conv_take_nth_drop)
qed

lemma case_loop_law:
  assumes "0 \<notin> set cs" "length cs \<le> fuel" "p + i = length as" "i + length cs < sz_range"
  shows "case_loop f fuel (Some (as @ map Live (cs @ [0]) @ bs)) p i = Inr (i + length cs, Some (as @ map Live (map f cs @ [0]) @ bs))"
  using assms
proof (induction cs arbitrary: as i fuel)
  case Nil
  then show ?case by (subst case_loop.simps) (simp add: rd_def nth_append)
next
  case (Cons c cs)
  then obtain n where n: "fuel = Suc n" by (cases fuel) auto
  have "case_loop f n (Some ((as @ [Live (f c)]) @ map Live (cs @ [0]) @ bs)) p (Suc i) =
      Inr (Suc i + length cs, Some ((as @ [Live (f c)]) @ map Live (map f cs @ [0]) @ bs))"
    using Cons.prems n by (intro Cons.IH) simp_all
  moreover have "sz_add i (Suc 0) = Suc i" using Cons.prems by (simp add: sz_add_eq)
  ultimately show ?case using Cons.prems n
    by (subst case_loop.simps) (simp add: rd_def nth_append list_update_append)
qed

section \<open>Properties\<close>

text \<open>
  \<open>itoa\<close> prints every 32-bit number in every base from 2 to 36: 33 bytes of buffer are enough,
  the digits are terminated, denote the number and have no leading zero, and no other byte of the
  buffer changes.
\<close>

theorem itoa_prints_number:
  assumes "2 \<le> base" "base \<le> 36" "n < sz_range" "p + 33 \<le> length b"
  shows "\<exists>cs. itoa (Some b) p n base = Inr (Some (take p b @ map Live (cs @ [0]) @ drop (p + length cs + 1) b)) \<and>
     number_of base cs = n \<and> 0 \<notin> set cs \<and> length cs \<le> 32 \<and> (0 < n \<longrightarrow> hd cs \<noteq> digit_char 0)"
proof -
  let ?ds = "low_digits base n"
  let ?cs = "map digit_char (rev ?ds)"
  have "(2::nat) ^ 32 \<le> base ^ 32" using assms(1) by (rule power_mono) simp
  then have "n < base ^ 32" using assms(3) by simp
  then have l: "length ?ds \<le> 32" using low_digits_length [OF assms(1)] by simp
  have d: "\<forall>d\<in>set ?ds. d < 36" using low_digits_less [OF assms(1)] assms(2) by fastforce
  have ne: "?ds \<noteq> []" by (subst low_digits.simps) simp
  have "hd ?cs \<noteq> digit_char 0" if "0 < n"
  proof -
    have "hd ?cs = digit_char (last ?ds)" using ne by (simp add: hd_map hd_rev)
    moreover have "digit_value (hd ?cs) \<noteq> digit_value (digit_char 0)"
      using low_digits_lead [OF assms(1) that] d ne calculation by (simp add: digit_value_char)
    ultimately show ?thesis by auto
  qed
  moreover have "0 \<notin> set ?cs" using d digit_char_nonzero by fastforce
  ultimately show ?thesis
    using l assms(4) itoa_law [OF assms(1), of p n b] number_of_digits [OF assms(1,2)]
    by (intro exI [of _ ?cs]) (simp add: comp_def)
qed

theorem itoa_prints_number_witness:
  "itoa (Some (replicate 40 Raw)) 0 493 16 = Inr (Some (map Live [0x31, 0x65, 0x64, 0] @ replicate 36 Raw)) \<and>
   (\<exists>cs. itoa (Some (replicate 40 Raw)) 0 493 16 = Inr (Some (map Live (cs @ [0]) @ drop (length cs + 1) (replicate 40 Raw))) \<and>
     number_of 16 cs = 493)"
proof
  show "itoa (Some (replicate 40 Raw)) 0 493 16 = Inr (Some (map Live [0x31, 0x65, 0x64, 0] @ replicate 36 Raw))"
    by code_simp
  show "\<exists>cs. itoa (Some (replicate 40 Raw)) 0 493 16 = Inr (Some (map Live (cs @ [0]) @ drop (length cs + 1) (replicate 40 Raw))) \<and>
     number_of 16 cs = 493"
    using itoa_prints_number [of 16 493 0 "replicate 40 Raw"] by auto
qed

text \<open>
  The memory and string functions on readable ranges: \<open>memmove\<close> copies correctly in both overlap
  directions, \<open>memcpy\<close> copies, \<open>memcmp\<close> and \<open>strcmp\<close> tell whether the contents differ, \<open>strlen\<close>
  counts, \<open>strcpy\<close> copies a string with its terminator; none reads or writes outside its ranges.
\<close>

theorem clib_ranges:
  assumes "drop s b = map Live cs @ rest" "d + length cs \<le> length b" "reads src cs" "reads p (xs @ [0])" "reads q (ys @ [0])"
    and "0 \<notin> set xs" "0 \<notin> set ys" "length xs < sz_range" "length ys < sz_range" "e + length xs < length b"
  shows "memmove (Some b) d s (length cs) = Inr (Some (take d b @ map Live cs @ drop (d + length cs) b)) \<and>
    memcpy (Some b) d src (length cs) = Inr (Some (take d b @ map Live cs @ drop (d + length cs) b)) \<and>
    strlen p = Inr (length xs) \<and> strcmp p q = Inr (xs \<noteq> ys) \<and>
    (length xs \<le> length ys \<longrightarrow> memcmp p q (length xs) = Inr (take (length xs) ys \<noteq> xs)) \<and>
    strcpy (Some b) e p = Inr (length xs, Some (take e b @ map Live (xs @ [0]) @ drop (e + length xs + 1) b))"
  using memmove_law [OF assms(1,2)] memcpy_law [OF assms(3,2)] strlen_law [OF assms(4,6,8)]
    strcmp_law [OF assms(4,5,6,7,8,9)] memcmp_law [OF assms(4,5), of "length xs"]
    strcpy_loop_law [OF assms(4,6,10,8), of 0 "block_size (fst p)"] reads_size [OF assms(4)]
  by (auto simp: strcpy_def)

theorem clib_ranges_witness:
  "memmove (chars [1, 2, 3, 4, 5]) 2 1 3 = Inr (chars [1, 2, 2, 3, 4]) \<and>
   strcmp (literal [7, 8]) (literal [7, 9]) = Inr True"
proof -
  have d: "drop 1 (map Live [1, 2, 3, 4, 5 :: u8]) = map Live [2, 3, 4] @ [Live 5]" by simp
  have "memmove (Some (map Live [1, 2, 3, 4, 5])) 2 1 (length [2, 3, 4 :: u8]) =
      Inr (Some (take 2 (map Live [1, 2, 3, 4, 5]) @ map Live [2, 3, 4] @ drop (2 + length [2, 3, 4 :: u8]) (map Live [1, 2, 3, 4, 5]))) \<and>
    strcmp (literal [7, 8]) (literal [7, 9]) = Inr ([7, 8] \<noteq> [7, 9 :: u8])"
    using clib_ranges [OF d _ reads_literal(2) [of "[2, 3, 4]"] reads_literal(1) [of "[7, 8]"] reads_literal(1) [of "[7, 9]"], of 2 0]
    by simp
  then show ?thesis by (simp add: chars_def numeral_3_eq_3)
qed

end
