(* ===== verification/Strings.thy ===== *)
theory Strings
  imports Clib
begin

text \<open>
  \<open>String\<close> (string.h, string.cpp) and \<open>StringView\<close> (string_view.h, string_view.cpp). A string object
  owns its storage, a view points into the storage of something else. \<open>new char[n]\<close> gives raw
  storage. Searches with a needle given by a view and by a \<open>const char*\<close> share their loop; the
  overloads differ in how they find the length. In \<open>rfind\<close> the loop counter is an \<open>int\<close>.
\<close>

section \<open>Objects\<close>

record string_obj =
  str_size :: size_t
  str_data :: "u8 block"

record string_view =
  sv_size :: size_t
  sv_data :: cptr

definition END :: size_t where "END = sz_sub 0 1"

abbreviation NOT_FOUND :: size_t where "NOT_FOUND \<equiv> END"

definition new_chars :: "size_t \<Rightarrow> u8 block" where
  "new_chars n = new_block n"

section \<open>\<open>String\<close>\<close>

definition str_from_view :: "string_view \<Rightarrow> string_obj run" where
  "str_from_view v = assert_then (new_chars (sz_add (sv_size v) 1) \<noteq> None) (bindr (memcpy (new_chars (sz_add (sv_size v) 1)) 0 (sv_data v) (sv_size v)) (\<lambda>d.
     bindr (assign_slot True d (sv_size v) 0) (\<lambda>d'. Inr \<lparr>str_size = sv_size v, str_data = d'\<rparr>)))"

definition str_from_cstr :: "cptr \<Rightarrow> string_obj run" where
  "str_from_cstr s = bindr (strlen s) (\<lambda>n.
     assert_then (new_chars (sz_add n 1) \<noteq> None) (bindr (memcpy (new_chars (sz_add n 1)) 0 s (sz_add n 1)) (\<lambda>d. Inr \<lparr>str_size = n, str_data = d\<rparr>)))"

definition str_from_range :: "cptr \<Rightarrow> size_t \<Rightarrow> string_obj run" where
  "str_from_range s len = assert_then (new_chars (sz_add len 1) \<noteq> None) (bindr (memcpy (new_chars (sz_add len 1)) 0 s len) (\<lambda>d.
     bindr (assign_slot True d len 0) (\<lambda>d'. Inr \<lparr>str_size = len, str_data = d'\<rparr>)))"

definition str_move :: "string_obj \<Rightarrow> string_obj \<times> string_obj" where
  "str_move other = (\<lparr>str_size = str_size other, str_data = str_data other\<rparr>, other\<lparr>str_data := None\<rparr>)"

definition str_copy :: "string_obj \<Rightarrow> string_obj run" where
  "str_copy other = bindr (memcpy (new_chars (sz_add (str_size other) 1)) 0 (str_data other, 0) (sz_add (str_size other) 1))
     (\<lambda>d. Inr \<lparr>str_size = str_size other, str_data = d\<rparr>)"

text \<open>
  The assignments to another object: the old storage is freed, the new value is the one of the
  corresponding constructor. Assigning an object to itself does nothing.
\<close>

definition str_cleanup :: "string_obj \<Rightarrow> string_obj" where
  "str_cleanup s = s\<lparr>str_data := None, str_size := 0\<rparr>"

definition str_assign_copy :: "string_obj \<Rightarrow> string_obj \<Rightarrow> string_obj run" where
  "str_assign_copy s other = (let s1 = (str_cleanup s)\<lparr>str_size := str_size other\<rparr> in
     bindr (memcpy (new_chars (sz_add (str_size s1) 1)) 0 (str_data other, 0) (sz_add (str_size s1) 1))
       (\<lambda>d. Inr (s1\<lparr>str_data := d\<rparr>)))"

definition str_assign_move :: "string_obj \<Rightarrow> string_obj \<Rightarrow> string_obj \<times> string_obj" where
  "str_assign_move s other = ((str_cleanup s)\<lparr>str_size := str_size other, str_data := str_data other\<rparr>, other\<lparr>str_data := None\<rparr>)"

definition str_assign_cstr :: "string_obj \<Rightarrow> cptr \<Rightarrow> string_obj run" where
  "str_assign_cstr s str = bindr (strlen str) (\<lambda>n. let s1 = (str_cleanup s)\<lparr>str_size := n\<rparr> in
     assert_then (new_chars (sz_add n 1) \<noteq> None) (bindr (memcpy (new_chars (sz_add n 1)) 0 str (sz_add n 1)) (\<lambda>d. Inr (s1\<lparr>str_data := d\<rparr>))))"

text \<open>The three copies all four overloads of \<open>insert\<close> make, of n bytes at p.\<close>

definition insert_bytes :: "string_obj \<Rightarrow> size_t \<Rightarrow> cptr \<Rightarrow> size_t \<Rightarrow> string_obj run" where
  "insert_bytes s pos p n = (let new_len = sz_add n (str_size s) in
     bindr (memcpy (new_chars (sz_add new_len 1)) 0 (str_data s, 0) pos) (\<lambda>d1.
     bindr (memcpy d1 pos p n) (\<lambda>d2.
     bindr (memcpy d2 (pos + n) (str_data s, pos) (sz_sub (str_size s) pos)) (\<lambda>d3.
     bindr (assign_slot True d3 new_len 0) (\<lambda>d4.
     Inr ((str_cleanup s)\<lparr>str_size := new_len, str_data := d4\<rparr>))))))"

definition str_insert :: "string_obj \<Rightarrow> size_t \<Rightarrow> string_obj \<Rightarrow> string_obj run" where
  "str_insert s pos0 str = (let pos = (if pos0 = END then str_size s else pos0) in
     assert_then (pos \<le> str_size s) (insert_bytes s pos (str_data str, 0) (str_size str)))"

definition str_insert_cstr :: "string_obj \<Rightarrow> size_t \<Rightarrow> cptr \<Rightarrow> string_obj run" where
  "str_insert_cstr s pos0 str = (let pos = (if pos0 = END then str_size s else pos0) in
     assert_then (pos \<le> str_size s) (bindr (strlen str) (insert_bytes s pos str)))"

definition str_insert_sub :: "string_obj \<Rightarrow> size_t \<Rightarrow> string_obj \<Rightarrow> size_t \<Rightarrow> size_t \<Rightarrow> string_obj run" where
  "str_insert_sub s pos0 str subpos0 sublen =
     (let subpos = (if subpos0 = END then str_size str else subpos0); pos = (if pos0 = END then str_size s else pos0) in
      assert_then (sz_add subpos sublen \<le> str_size str) (assert_then (pos \<le> str_size s)
        (insert_bytes s pos (str_data str, subpos) (if str_size str > sublen then sublen else str_size str))))"

definition str_insert_cstr_sub :: "string_obj \<Rightarrow> size_t \<Rightarrow> cptr \<Rightarrow> size_t \<Rightarrow> size_t \<Rightarrow> string_obj run" where
  "str_insert_cstr_sub s pos0 str subpos0 sublen =
     bindr (if subpos0 = END then strlen str else Inr subpos0) (\<lambda>subpos.
     let pos = (if pos0 = END then str_size s else pos0) in
     bindr (strlen str) (\<lambda>n. assert_then (sz_add subpos sublen \<le> n) (assert_then (pos \<le> str_size s)
       (insert_bytes s pos (advance str subpos) sublen))))"

definition str_append :: "string_obj \<Rightarrow> string_obj \<Rightarrow> string_obj run" where
  "str_append s other = str_insert s END other"

definition str_append_cstr :: "string_obj \<Rightarrow> cptr \<Rightarrow> string_obj run" where
  "str_append_cstr s other = str_insert_cstr s END other"

text \<open>\<open>operator+=(char)\<close> passes the address of its parameter, an array of one \<open>char\<close>.\<close>

definition str_append_char :: "string_obj \<Rightarrow> u8 \<Rightarrow> string_obj run" where
  "str_append_char s other = str_insert_cstr s END (chars [other], 0)"

definition str_plus :: "string_obj \<Rightarrow> string_obj \<Rightarrow> string_obj run" where
  "str_plus s other = bindr (str_copy s) (\<lambda>new_string. str_append new_string other)"

definition str_push_back :: "string_obj \<Rightarrow> u8 \<Rightarrow> string_obj run" where
  "str_push_back s c = str_insert_cstr s END (chars [c, 0], 0)"

definition str_pop_back :: "string_obj \<Rightarrow> string_obj run" where
  "str_pop_back s = assert_then (str_size s \<noteq> 0) (let n = sz_sub (str_size s) 1 in
     bindr (assign_slot True (str_data s) n 0) (\<lambda>d. Inr (s\<lparr>str_size := n, str_data := d\<rparr>)))"

definition str_erase :: "string_obj \<Rightarrow> size_t \<Rightarrow> size_t \<Rightarrow> string_obj run" where
  "str_erase s pos len = assert_then (sz_add pos len \<le> str_size s)
     (bindr (memmove (str_data s) pos (pos + len) (sz_add (sz_sub (sz_sub (str_size s) pos) len) 1))
       (\<lambda>d. Inr (s\<lparr>str_data := d, str_size := sz_sub (str_size s) len\<rparr>)))"

fun str_erase_if_loop :: "(u8 \<Rightarrow> bool) \<Rightarrow> nat \<Rightarrow> size_t \<Rightarrow> string_obj \<Rightarrow> string_obj run" where
  "str_erase_if_loop predictor fuel i s =
     (if i < str_size s then
        case fuel of 0 \<Rightarrow> Inl OutOfFuel
        | Suc n \<Rightarrow> bindr (read_slot (str_data s) i) (\<lambda>c.
            if predictor c then bindr (str_erase s i 1) (str_erase_if_loop predictor n i)
            else str_erase_if_loop predictor n (i + 1) s)
      else Inr s)"

definition str_erase_if :: "(u8 \<Rightarrow> bool) \<Rightarrow> string_obj \<Rightarrow> string_obj run" where
  "str_erase_if predictor s = str_erase_if_loop predictor (str_size s) 0 s"

definition str_at :: "string_obj \<Rightarrow> size_t \<Rightarrow> u8 run" where
  "str_at s off = read_slot (str_data s) off"

definition str_set_at :: "string_obj \<Rightarrow> size_t \<Rightarrow> u8 \<Rightarrow> string_obj run" where
  "str_set_at s off c = assert_then (off < str_size s)
     (bindr (assign_slot True (str_data s) off c) (\<lambda>d. Inr (s\<lparr>str_data := d\<rparr>)))"

definition str_length :: "string_obj \<Rightarrow> size_t" where
  "str_length s = str_size s"

definition c_str :: "string_obj \<Rightarrow> cptr" where
  "c_str s = (str_data s, 0)"

definition str_eq_view :: "string_obj \<Rightarrow> string_view \<Rightarrow> bool run" where
  "str_eq_view s other = (if str_size s \<noteq> sv_size other then Inr False
     else bindr (memcmp (c_str s) (sv_data other) (str_size s)) (\<lambda>d. Inr (\<not> d)))"

definition str_eq :: "string_obj \<Rightarrow> string_obj \<Rightarrow> bool run" where
  "str_eq s other = (if str_size s \<noteq> str_size other then Inr False
     else bindr (strcmp (c_str s) (c_str other)) (\<lambda>d. Inr (\<not> d)))"

definition str_eq_cstr :: "string_obj \<Rightarrow> cptr \<Rightarrow> bool run" where
  "str_eq_cstr s other = bindr (strcmp (c_str s) other) (\<lambda>d. Inr (\<not> d))"

definition str_ne_view :: "string_obj \<Rightarrow> string_view \<Rightarrow> bool run" where
  "str_ne_view s other = (if str_size s = sv_size other then Inr False
     else memcmp (c_str s) (sv_data other) (str_size s))"

definition str_ne :: "string_obj \<Rightarrow> string_obj \<Rightarrow> bool run" where
  "str_ne s other = (if str_size s = str_size other then Inr False else strcmp (c_str s) (c_str other))"

definition str_ne_cstr :: "string_obj \<Rightarrow> cptr \<Rightarrow> bool run" where
  "str_ne_cstr s other = strcmp (c_str s) other"

definition str_substr :: "string_obj \<Rightarrow> size_t \<Rightarrow> size_t \<Rightarrow> string_obj run" where
  "str_substr s pos0 len = (let pos = (if pos0 = END then str_size s else pos0) in
     assert_then (sz_add pos len \<le> str_size s) (str_from_range (str_data s, pos) len))"

section \<open>Searching\<close>

text \<open>The loops of \<open>find\<close> and \<open>rfind\<close>, for a needle of n bytes at p in data.\<close>

function find_loop :: "cptr \<Rightarrow> cptr \<Rightarrow> size_t \<Rightarrow> size_t \<Rightarrow> size_t \<Rightarrow> size_t run" where
  "find_loop data p n bound i =
     (if i < bound then bindr (strncmp (advance data i) p n) (\<lambda>d.
        if \<not> d then Inr i else find_loop data p n bound (i + 1))
      else Inr NOT_FOUND)"
  by pat_completeness auto
termination by (relation "measure (\<lambda>(_, _, _, bound, i). bound - i)") auto

text \<open>\<open>int i = pos - n\<close>: the unsigned difference read as a signed number.\<close>

definition to_int :: "size_t \<Rightarrow> int" where
  "to_int x = (if x < sz_range div 2 then int x else int x - int sz_range)"

fun rfind_loop :: "cptr \<Rightarrow> cptr \<Rightarrow> size_t \<Rightarrow> nat \<Rightarrow> size_t run" where
  "rfind_loop data p n 0 = Inr NOT_FOUND"
| "rfind_loop data p n (Suc i) = bindr (strncmp (advance data i) p n) (\<lambda>d.
     if \<not> d then Inr i else rfind_loop data p n i)"

definition find_bytes :: "cptr \<Rightarrow> size_t \<Rightarrow> cptr \<Rightarrow> size_t \<Rightarrow> size_t \<Rightarrow> size_t run" where
  "find_bytes data m_size p n pos0 = (let pos = (if pos0 = END then m_size else pos0) in
     assert_then (pos \<le> m_size) (find_loop data p n (sz_add (sz_sub m_size n) 1) pos))"

definition rfind_bytes :: "cptr \<Rightarrow> size_t \<Rightarrow> cptr \<Rightarrow> size_t \<Rightarrow> size_t \<Rightarrow> size_t run" where
  "rfind_bytes data m_size p n pos0 = (let pos = (if pos0 = END then m_size else pos0) in
     assert_then (pos \<le> m_size) (rfind_loop data p n (nat (to_int (sz_sub pos n) + 1))))"

definition str_find :: "string_obj \<Rightarrow> string_obj \<Rightarrow> size_t \<Rightarrow> size_t run" where
  "str_find s str pos = find_bytes (c_str s) (str_size s) (c_str str) (str_size str) pos"

text \<open>With a \<open>const char*\<close> needle the assertion comes before \<open>strlen\<close>.\<close>

definition str_find_cstr :: "string_obj \<Rightarrow> cptr \<Rightarrow> size_t \<Rightarrow> size_t run" where
  "str_find_cstr s str pos = assert_then ((if pos = END then str_size s else pos) \<le> str_size s)
     (bindr (strlen str) (\<lambda>n. find_bytes (c_str s) (str_size s) str n pos))"

definition str_find_char :: "string_obj \<Rightarrow> u8 \<Rightarrow> size_t \<Rightarrow> size_t run" where
  "str_find_char s c pos = str_find_cstr s (chars [c, 0], 0) pos"

definition str_rfind :: "string_obj \<Rightarrow> string_obj \<Rightarrow> size_t \<Rightarrow> size_t run" where
  "str_rfind s str pos = rfind_bytes (c_str s) (str_size s) (c_str str) (str_size str) pos"

definition str_rfind_cstr :: "string_obj \<Rightarrow> cptr \<Rightarrow> size_t \<Rightarrow> size_t run" where
  "str_rfind_cstr s str pos = assert_then ((if pos = END then str_size s else pos) \<le> str_size s)
     (bindr (strlen str) (\<lambda>n. rfind_bytes (c_str s) (str_size s) str n pos))"

definition str_rfind_char :: "string_obj \<Rightarrow> u8 \<Rightarrow> size_t \<Rightarrow> size_t run" where
  "str_rfind_char s c pos = str_rfind_cstr s (chars [c, 0], 0) pos"

section \<open>\<open>StringView\<close>\<close>

definition sv_of_string :: "string_obj \<Rightarrow> string_view" where
  "sv_of_string s = \<lparr>sv_size = str_length s, sv_data = c_str s\<rparr>"

definition sv_of_cstr :: "cptr \<Rightarrow> string_view run" where
  "sv_of_cstr s = bindr (strlen s) (\<lambda>n. assert_then (fst s \<noteq> None) (Inr \<lparr>sv_size = n, sv_data = s\<rparr>))"

definition sv_of_range :: "cptr \<Rightarrow> size_t \<Rightarrow> string_view run" where
  "sv_of_range s len = bindr (if len = END then strlen s else Inr len)
     (\<lambda>n. assert_then (fst s \<noteq> None) (Inr \<lparr>sv_size = n, sv_data = s\<rparr>))"

definition sv_at :: "string_view \<Rightarrow> size_t \<Rightarrow> u8 run" where
  "sv_at v off = rd (sv_data v) off"

definition sv_eq :: "string_view \<Rightarrow> string_view \<Rightarrow> bool run" where
  "sv_eq v other = (if sv_size v \<noteq> sv_size other then Inr False
     else bindr (strncmp (sv_data v) (sv_data other) (sv_size v)) (\<lambda>d. Inr (\<not> d)))"

definition sv_eq_cstr :: "string_view \<Rightarrow> cptr \<Rightarrow> bool run" where
  "sv_eq_cstr v other = bindr (strlen other) (\<lambda>n. if sv_size v \<noteq> n then Inr False
     else bindr (strncmp (sv_data v) other (sv_size v)) (\<lambda>d. Inr (\<not> d)))"

definition sv_ne :: "string_view \<Rightarrow> string_view \<Rightarrow> bool run" where
  "sv_ne v other = (if sv_size v = sv_size other then Inr False
     else strncmp (sv_data v) (sv_data other) (sv_size v))"

definition sv_ne_cstr :: "string_view \<Rightarrow> cptr \<Rightarrow> bool run" where
  "sv_ne_cstr v other = bindr (strlen other) (\<lambda>n. if sv_size v = n then Inr False
     else strncmp (sv_data v) other (sv_size v))"

definition sv_substr :: "string_view \<Rightarrow> size_t \<Rightarrow> size_t \<Rightarrow> string_view run" where
  "sv_substr v pos0 len0 = (let pos = (if pos0 = END then sv_size v else pos0);
       len = (if len0 = END then sz_sub (sv_size v) pos else len0) in
     assert_then (sz_add pos len \<le> sv_size v) (sv_of_range (advance (sv_data v) pos) len))"

definition sv_find :: "string_view \<Rightarrow> string_view \<Rightarrow> size_t \<Rightarrow> size_t run" where
  "sv_find v str pos = find_bytes (sv_data v) (sv_size v) (sv_data str) (sv_size str) pos"

definition sv_find_cstr :: "string_view \<Rightarrow> cptr \<Rightarrow> size_t \<Rightarrow> size_t run" where
  "sv_find_cstr v str pos = assert_then ((if pos = END then sv_size v else pos) \<le> sv_size v)
     (bindr (strlen str) (\<lambda>n. find_bytes (sv_data v) (sv_size v) str n pos))"

definition sv_find_char :: "string_view \<Rightarrow> u8 \<Rightarrow> size_t \<Rightarrow> size_t run" where
  "sv_find_char v c pos = sv_find_cstr v (chars [c, 0], 0) pos"

definition sv_rfind :: "string_view \<Rightarrow> string_view \<Rightarrow> size_t \<Rightarrow> size_t run" where
  "sv_rfind v str pos = rfind_bytes (sv_data v) (sv_size v) (sv_data str) (sv_size str) pos"

definition sv_rfind_cstr :: "string_view \<Rightarrow> cptr \<Rightarrow> size_t \<Rightarrow> size_t run" where
  "sv_rfind_cstr v str pos = assert_then ((if pos = END then sv_size v else pos) \<le> sv_size v)
     (bindr (strlen str) (\<lambda>n. rfind_bytes (sv_data v) (sv_size v) str n pos))"

definition sv_rfind_char :: "string_view \<Rightarrow> u8 \<Rightarrow> size_t \<Rightarrow> size_t run" where
  "sv_rfind_char v c pos = sv_rfind_cstr v (chars [c, 0], 0) pos"

declare find_loop.simps [simp del] str_erase_if_loop.simps [simp del] rfind_loop.simps [simp del]

section \<open>Representation\<close>

text \<open>
  The contents of a string object, followed by its terminator and possibly by bytes that \<open>pop_back\<close>
  or \<open>erase\<close> left behind; and of a view.
\<close>

definition str_rep :: "string_obj \<Rightarrow> u8 list \<Rightarrow> bool" where
  "str_rep s cs = (str_size s = length cs \<and> length cs + 1 < sz_range \<and> (\<exists>rest. str_data s = Some (map Live (cs @ [0]) @ rest)))"

definition sv_rep :: "string_view \<Rightarrow> u8 list \<Rightarrow> bool" where
  "sv_rep v cs = (sv_size v = length cs \<and> length cs + 1 < sz_range \<and> reads (sv_data v) cs \<and> fst (sv_data v) \<noteq> None)"

lemma END_eq: "END = 4294967295"
  by (simp add: END_def sz_sub_def)

lemma new_chars_Some: "0 < n \<Longrightarrow> new_chars n = Some (replicate n Raw)"
  by (simp add: new_chars_def new_block_def)

lemma str_rep_reads: "str_rep s cs \<Longrightarrow> reads (c_str s) (cs @ [0])"
  unfolding str_rep_def c_str_def by (metis drop0 reads_Some)

lemma str_rep_view: "str_rep s cs \<Longrightarrow> sv_rep (sv_of_string s) cs"
  using str_rep_reads [of s cs] reads_take [of "c_str s" "cs @ [0]" "length cs"]
  by (auto simp: sv_rep_def sv_of_string_def str_length_def str_rep_def c_str_def)

lemma sz_add_Suc0: "n + 1 < sz_range \<Longrightarrow> sz_add n (Suc 0) = Suc n"
  by (simp add: sz_add_eq)

lemma drop_replicate_last: "drop n (x # replicate n x) = [x]"
proof -
  have "x # replicate n x = replicate n x @ [x]" by (rule replicate_append_same [symmetric])
  then show ?thesis by simp
qed

lemma from_range_law:
  assumes "reads p cs" "length cs + 1 < sz_range"
  shows "str_from_range p (length cs) = Inr \<lparr>str_size = length cs, str_data = Some (map Live (cs @ [0]))\<rparr>"
  using memcpy_law [OF assms(1), of 0 "replicate (Suc (length cs)) Raw"] assms(2)
  by (simp add: str_from_range_def sz_add_Suc0 new_chars_Some list_update_append drop_replicate_last)

lemma reads_offset: "reads (b, p) cs \<Longrightarrow> n \<le> length cs \<Longrightarrow> reads (b, p + n) (drop n cs)"
  using reads_advance [of "(b, p)" cs n] by (simp add: advance_def)

lemma insert_bytes_law:
  assumes s: "str_rep s cs" and p: "reads p xs" and pos: "pos \<le> length cs" and len: "length cs + length xs + 1 < sz_range"
  shows "ok (insert_bytes s pos p (length xs)) (\<lambda>s'. str_rep s' (take pos cs @ xs @ drop pos cs))"
proof -
  let ?n = "length xs" and ?m = "length cs"
  have d: "reads (str_data s, 0) (cs @ [0])" using str_rep_reads [OF s] by (simp add: c_str_def)
  have r1: "reads (str_data s, 0) (take pos cs)" using reads_take [OF d, of pos] pos by simp
  have r2: "reads (str_data s, pos) (drop pos cs)"
    using reads_take [OF reads_offset [OF d, of pos], of "?m - pos"] pos by simp
  have sz: "str_size s = ?m" "sz_add ?n ?m = ?n + ?m" "sz_add (?n + ?m) (Suc 0) = Suc (?n + ?m)" "sz_sub ?m pos = ?m - pos"
    using s len pos by (simp_all add: str_rep_def sz_add_eq sz_sub_eq)
  have lp: "length (take pos cs) = pos" "min (length cs) pos = pos" using pos by simp_all
  have m1: "memcpy (Some (replicate (Suc (?n + ?m)) Raw)) 0 (str_data s, 0) pos =
      Inr (Some (map Live (take pos cs) @ replicate (Suc (?n + ?m) - pos) Raw))"
    using memcpy_law [OF r1, of 0 "replicate (Suc (?n + ?m)) Raw"] pos by (simp add: lp del: replicate_Suc)
  have m2: "memcpy (Some (map Live (take pos cs) @ replicate (Suc (?n + ?m) - pos) Raw)) pos p ?n =
      Inr (Some (map Live (take pos cs @ xs) @ replicate (Suc ?m - pos) Raw))"
    using memcpy_law [OF p, of pos "map Live (take pos cs) @ replicate (Suc (?n + ?m) - pos) Raw"] pos
    by (simp add: lp)
  have m3: "memcpy (Some (map Live (take pos cs @ xs) @ replicate (Suc ?m - pos) Raw)) (pos + ?n) (str_data s, pos) (?m - pos) =
      Inr (Some (map Live (take pos cs @ xs @ drop pos cs) @ [Raw]))"
    using memcpy_law [OF r2, of "pos + ?n" "map Live (take pos cs @ xs) @ replicate (Suc ?m - pos) Raw"] pos
    by (simp add: lp Suc_diff_le drop_replicate_last)
  define zs where "zs = take pos cs @ xs @ drop pos cs"
  have "length zs = ?n + ?m" using pos by (simp add: zs_def)
  then have a: "assign_slot True (Some (map Live zs @ [Raw])) (?n + ?m) 0 = Inr (Some (map Live (zs @ [0])))"
    by (simp add: list_update_append)
  have "insert_bytes s pos p ?n = Inr ((str_cleanup s)\<lparr>str_size := ?n + ?m,
      str_data := Some (map Live (zs @ [0]))\<rparr>)"
    unfolding insert_bytes_def Let_def
    by (simp add: sz new_chars_Some m1 m2 m3 [folded zs_def] a del: replicate_Suc map_append assign_slot.simps)
  then show ?thesis using len \<open>length zs = ?n + ?m\<close> by (simp add: run_simps str_rep_def zs_def)
qed

lemma pop_back_law:
  assumes "str_rep s (cs @ [c])" shows "ok (str_pop_back s) (\<lambda>s'. str_rep s' cs)"
proof -
  obtain rest where "str_data s = Some (map Live (cs @ [c, 0]) @ rest)" using assms by (auto simp: str_rep_def)
  then have "assign_slot True (str_data s) (length cs) 0 = Inr (Some (map Live (cs @ [0]) @ Live 0 # rest))"
    by (simp add: list_update_append)
  moreover have "str_size s = Suc (length cs)" "sz_sub (Suc (length cs)) (Suc 0) = length cs"
    using assms by (simp_all add: str_rep_def sz_sub_eq)
  ultimately show ?thesis using assms by (simp add: str_pop_back_def run_simps str_rep_def)
qed

lemma erase_law:
  assumes "str_rep s cs" "pos + len \<le> length cs"
  shows "ok (str_erase s pos len) (\<lambda>s'. str_rep s' (take pos cs @ drop (pos + len) cs))"
proof -
  obtain rest where d: "str_data s = Some (map Live (cs @ [0]) @ rest)" and n: "str_size s = length cs" "length cs + 1 < sz_range"
    using assms by (auto simp: str_rep_def)
  let ?b = "map Live (cs @ [0]) @ rest" and ?tail = "drop (pos + len) cs @ [0]"
  have "sz_add pos len = pos + len" "sz_add (sz_sub (sz_sub (length cs) pos) len) (Suc 0) = length ?tail"
    "sz_sub (length cs) len = length cs - len"
    using assms n by (simp_all add: sz_add_eq sz_sub_eq)
  moreover have "memmove (Some ?b) pos (pos + len) (length ?tail) =
      Inr (Some (take pos ?b @ map Live ?tail @ drop (pos + length ?tail) ?b))"
    using assms by (intro memmove_law [of _ _ _ rest]) (simp_all add: drop_map)
  moreover have "take pos ?b = map Live (take pos cs)" using assms by (simp add: take_map)
  ultimately show ?thesis using assms n d
    by (simp add: str_erase_def run_simps str_rep_def)
qed

section \<open>Edits as list edits\<close>

datatype str_op = Insert size_t "u8 list" | InsertText size_t "u8 list" | PushBack u8 | PopBack | Erase size_t size_t

definition str_do :: "str_op \<Rightarrow> string_obj \<Rightarrow> string_obj run" where
  "str_do op s = (case op of
       Insert pos xs \<Rightarrow> bindr (str_from_range (literal xs) (length xs)) (str_insert s pos)
     | InsertText pos xs \<Rightarrow> str_insert_cstr s pos (literal xs)
     | PushBack c \<Rightarrow> str_push_back s c
     | PopBack \<Rightarrow> str_pop_back s
     | Erase pos len \<Rightarrow> str_erase s pos len)"

definition insert_at :: "size_t \<Rightarrow> u8 list \<Rightarrow> u8 list \<Rightarrow> u8 list run" where
  "insert_at pos xs cs = (let p = (if pos = END then length cs else pos) in
     assert_then (p \<le> length cs) (Inr (take p cs @ xs @ drop p cs)))"

definition str_spec :: "str_op \<Rightarrow> u8 list \<Rightarrow> u8 list run" where
  "str_spec op cs = (case op of
       Insert pos xs \<Rightarrow> insert_at pos xs cs
     | InsertText pos xs \<Rightarrow> insert_at pos (takeWhile (\<lambda>c. c \<noteq> 0) xs) cs
     | PushBack c \<Rightarrow> insert_at END (if c = 0 then [] else [c]) cs
     | PopBack \<Rightarrow> assert_then (cs \<noteq> []) (Inr (butlast cs))
     | Erase pos len \<Rightarrow> assert_then (pos + len \<le> length cs) (Inr (take pos cs @ drop (pos + len) cs)))"

fun op_text :: "str_op \<Rightarrow> nat" where
  "op_text (Insert pos xs) = length xs"
| "op_text (InsertText pos xs) = length xs"
| "op_text (PushBack c) = 1"
| "op_text PopBack = 0"
| "op_text (Erase pos len) = 0"

fun op_fits :: "str_op \<Rightarrow> bool" where
  "op_fits (Insert pos xs) = (length xs + 1 < sz_range)"
| "op_fits (InsertText pos xs) = (length xs + 1 < sz_range)"
| "op_fits (Erase pos len) = (pos + len < sz_range)"
| "op_fits _ = True"

text \<open>\<open>agrees r r'\<close>: the run r on objects fails as r' does, or both succeed with the same contents.\<close>

definition agrees :: "string_obj run \<Rightarrow> u8 list run \<Rightarrow> bool" where
  "agrees r r' = (case r' of Inl e \<Rightarrow> r = Inl e | Inr cs \<Rightarrow> ok r (\<lambda>s. str_rep s cs))"

lemma agrees_assert: "agrees (assert_then b m) (assert_then b m') \<longleftrightarrow> (b \<longrightarrow> agrees m m')"
  by (cases b) (auto simp: agrees_def)

lemma agrees_Inr: "agrees r (Inr cs) = ok r (\<lambda>s. str_rep s cs)"
  by (simp add: agrees_def)

lemma strlen_literal: "length xs + 1 < sz_range \<Longrightarrow> strlen (literal xs) = Inr (length (takeWhile (\<lambda>c. c \<noteq> 0) xs))"
proof (rule strlen_law)
  have "takeWhile (\<lambda>c. c \<noteq> 0) xs @ [0] = take (Suc (length (takeWhile (\<lambda>c. c \<noteq> 0) xs))) (xs @ [0])"
    by (induction xs) auto
  then show "reads (literal xs) (takeWhile (\<lambda>c. c \<noteq> 0) xs @ [0])" using reads_take [OF reads_literal(1)] by metis
  show "0 \<notin> set (takeWhile (\<lambda>c. c \<noteq> 0) xs)" by (auto dest: set_takeWhileD)
  show "length xs + 1 < sz_range \<Longrightarrow> length (takeWhile (\<lambda>c. c \<noteq> 0) xs) < sz_range"
    using length_takeWhile_le [of "\<lambda>c. c \<noteq> 0" xs] by linarith
qed

lemma insert_text_law:
  assumes "str_rep s cs" "length cs + length xs + 1 < sz_range"
  shows "agrees (str_insert_cstr s pos (literal xs)) (insert_at pos (takeWhile (\<lambda>c. c \<noteq> 0) xs) cs)"
proof -
  let ?t = "takeWhile (\<lambda>c. c \<noteq> 0) xs" and ?p = "if pos = END then length cs else pos"
  have n: "str_size s = length cs" using assms by (simp add: str_rep_def)
  have l: "length ?t \<le> length xs" by (rule length_takeWhile_le)
  have "reads (literal xs) ?t"
    using reads_take [OF reads_literal(2) [of xs], of "length ?t"] by (simp add: takeWhile_eq_take [symmetric])
  with assms l have "?p \<le> length cs \<Longrightarrow> agrees (insert_bytes s ?p (literal xs) (length ?t)) (Inr (take ?p cs @ ?t @ drop ?p cs))"
    unfolding agrees_Inr by (intro insert_bytes_law) simp_all
  then show ?thesis using strlen_literal [of xs] assms n
    by (simp only: str_insert_cstr_def insert_at_def Let_def agrees_assert) simp
qed

lemma str_do_law:
  assumes "str_rep s cs" "op_fits op" "length cs + op_text op + 1 < sz_range"
  shows "agrees (str_do op s) (str_spec op cs)"
proof (cases op)
  case (Insert pos xs)
  let ?p = "if pos = END then length cs else pos" and ?t = "\<lparr>str_size = length xs, str_data = Some (map Live (xs @ [0]))\<rparr>"
  have "reads (str_data ?t, 0) xs" using reads_literal(2) [of xs] by (simp add: literal_def chars_def)
  then have "?p \<le> length cs \<Longrightarrow> agrees (insert_bytes s ?p (str_data ?t, 0) (length xs)) (Inr (take ?p cs @ xs @ drop ?p cs))"
    unfolding agrees_Inr using assms Insert by (intro insert_bytes_law) simp_all
  moreover have "str_from_range (literal xs) (length xs) = Inr ?t" using from_range_law [OF reads_literal(2)] Insert assms by simp
  moreover have "str_size s = length cs" using assms by (simp add: str_rep_def)
  ultimately show ?thesis using Insert
    by (simp only: str_do_def str_spec_def str_op.case str_insert_def insert_at_def Let_def bindr.simps agrees_assert) simp
next
  case (InsertText pos xs)
  then show ?thesis using insert_text_law [OF assms(1)] assms by (simp add: str_do_def str_spec_def)
next
  case (PushBack c)
  have "literal [c] = (chars [c, 0], 0)" by (simp add: literal_def)
  then show ?thesis using PushBack insert_text_law [OF assms(1), of "[c]" END] assms(3)
    by (simp add: str_do_def str_spec_def str_push_back_def split: if_splits)
next
  case PopBack
  show ?thesis
  proof (cases cs rule: rev_cases)
    case (snoc ds d)
    then have "str_do PopBack s = str_pop_back s" "str_spec PopBack cs = Inr ds" by (simp_all add: str_do_def str_spec_def)
    then show ?thesis using PopBack pop_back_law [of s ds d] assms(1) snoc by (simp add: agrees_Inr)
  qed (use PopBack assms in \<open>simp add: agrees_def str_do_def str_spec_def str_pop_back_def str_rep_def\<close>)
next
  case (Erase pos len)
  have "sz_add pos len = pos + len" "str_size s = length cs" using Erase assms by (simp_all add: sz_add_eq str_rep_def)
  then show ?thesis using erase_law [OF assms(1), of pos len] Erase
    by (cases "pos + len \<le> length cs") (simp_all add: str_do_def str_spec_def agrees_def str_erase_def)
qed

lemma str_spec_length: "str_spec op cs = Inr ds \<Longrightarrow> length ds \<le> length cs + op_text op"
proof (cases op)
  case (InsertText pos xs)
  assume "str_spec op cs = Inr ds"
  then show ?thesis using InsertText length_takeWhile_le [of "\<lambda>c. c \<noteq> 0" xs]
    by (auto simp: str_spec_def insert_at_def Let_def elim!: assert_InrE)
qed (auto simp: str_spec_def insert_at_def Let_def elim!: assert_InrE split: if_splits)

section \<open>Searching and comparing\<close>

definition occurs_at :: "u8 list \<Rightarrow> u8 list \<Rightarrow> nat \<Rightarrow> bool" where
  "occurs_at hs xs i = (i + length xs \<le> length hs \<and> take (length xs) (drop i hs) = xs)"

lemma strncmp_at:
  assumes "reads data hs" "reads p xs" "i + length xs \<le> length hs"
  shows "strncmp (advance data i) p (length xs) = Inr (\<not> occurs_at hs xs i)"
  using memcmp_law [OF reads_advance [OF assms(1), of i] assms(2), of "length xs"] assms(3)
  by (simp add: strncmp_def occurs_at_def)

lemma find_loop_law:
  assumes "reads data hs" "reads p xs" "length xs \<le> length hs" "i \<le> length hs - length xs + 1"
  shows "\<exists>r. find_loop data p (length xs) (length hs - length xs + 1) i = Inr r \<and>
     (r = NOT_FOUND \<and> (\<forall>j\<ge>i. \<not> occurs_at hs xs j) \<or>
      i \<le> r \<and> occurs_at hs xs r \<and> (\<forall>j. i \<le> j \<and> j < r \<longrightarrow> \<not> occurs_at hs xs j))"
  using assms(4)
proof (induction "length hs - length xs + 1 - i" arbitrary: i)
  case 0
  then have "\<forall>j\<ge>i. \<not> occurs_at hs xs j" using assms(3) by (auto simp: occurs_at_def)
  with 0 show ?case by (subst find_loop.simps) simp
next
  case (Suc k)
  then have i: "i < length hs - length xs + 1" by simp
  then have c: "strncmp (advance data i) p (length xs) = Inr (\<not> occurs_at hs xs i)"
    using assms by (intro strncmp_at) simp_all
  show ?case
  proof (cases "occurs_at hs xs i")
    case True
    with i c show ?thesis by (subst find_loop.simps) auto
  next
    case False
    have "find_loop data p (length xs) (length hs - length xs + 1) i = find_loop data p (length xs) (length hs - length xs + 1) (i + 1)"
      using i c False by (subst find_loop.simps) simp
    moreover have "k = length hs - length xs + 1 - (i + 1)" "i + 1 \<le> length hs - length xs + 1" using Suc.hyps(2) i by simp_all
    from Suc.hyps(1) [OF this] obtain r where
      "find_loop data p (length xs) (length hs - length xs + 1) (i + 1) = Inr r"
      "r = NOT_FOUND \<and> (\<forall>j\<ge>i + 1. \<not> occurs_at hs xs j) \<or>
       i + 1 \<le> r \<and> occurs_at hs xs r \<and> (\<forall>j. i + 1 \<le> j \<and> j < r \<longrightarrow> \<not> occurs_at hs xs j)" by blast
    moreover have "i + 1 \<le> j \<or> j = i" if "i \<le> j" for j using that by auto
    ultimately show ?thesis using False by (metis add_leD1)
  qed
qed

lemma rfind_loop_law:
  assumes "reads data hs" "reads p xs" "k + length xs \<le> length hs + 1"
  shows "\<exists>r. rfind_loop data p (length xs) k = Inr r \<and>
     (r = NOT_FOUND \<and> (\<forall>j<k. \<not> occurs_at hs xs j) \<or>
      r < k \<and> occurs_at hs xs r \<and> (\<forall>j. r < j \<and> j < k \<longrightarrow> \<not> occurs_at hs xs j))"
  using assms(3)
proof (induction k)
  case (Suc k)
  have "strncmp (advance data k) p (length xs) = Inr (\<not> occurs_at hs xs k)" using Suc.prems assms by (intro strncmp_at) simp_all
  moreover have "j < k \<or> j = k" if "j < Suc k" for j using that by auto
  ultimately show ?case using Suc.IH Suc.prems
    by (cases "occurs_at hs xs k") (auto simp: rfind_loop.simps less_Suc_eq)
qed (simp add: rfind_loop.simps)

lemma str_eq_law:
  assumes "str_rep s xs" "str_rep t ys" "0 \<notin> set xs" "0 \<notin> set ys"
  shows "str_eq s t = Inr (xs = ys)"
  using strcmp_law [OF str_rep_reads [OF assms(1)] str_rep_reads [OF assms(2)] assms(3,4)] assms(1,2)
  by (auto simp: str_eq_def str_rep_def)

lemma sv_eq_law: "sv_rep v xs \<Longrightarrow> sv_rep w ys \<Longrightarrow> sv_eq v w = Inr (xs = ys)"
  using memcmp_law [of "sv_data v" xs "sv_data w" ys "length xs"]
  by (auto simp: sv_eq_def sv_rep_def strncmp_def)

lemma occurs_char: "occurs_at hs [c] i \<longleftrightarrow> i < length hs \<and> hs ! i = c"
  by (auto simp: occurs_at_def take_Suc_conv_app_nth Cons_nth_drop_Suc [symmetric] Suc_le_eq)

lemma sv_find_char_law:
  assumes "sv_rep v hs" "c \<noteq> 0" "hs \<noteq> []" "pos \<le> length hs"
  shows "\<exists>r. sv_find_char v c pos = Inr r \<and> (r = END \<and> (\<forall>j. pos \<le> j \<and> j < length hs \<longrightarrow> hs ! j \<noteq> c) \<or>
     pos \<le> r \<and> r < length hs \<and> hs ! r = c \<and> (\<forall>j. pos \<le> j \<and> j < r \<longrightarrow> hs ! j \<noteq> c))"
proof -
  have s: "strlen (chars [c, 0], 0) = Inr 1" using strlen_law [of "(chars [c, 0], 0)" "[c]"] assms(2) reads_chars [of "[]" "[c, 0]" "[]"] by simp
  have r: "reads (chars [c, 0], 0) [c]" using reads_chars [of "[]" "[c, 0]" "[]"] reads_take [of "(chars [c, 0], 0)" "[c, 0]" 1] by simp
  have "1 \<le> length hs" using assms(3) by (cases hs) simp_all
  then have b: "sz_add (sz_sub (sv_size v) 1) 1 = length hs - length [c] + 1" using assms(1) sz_add_eq [of "length hs - 1" 1]
    by (auto simp: sv_rep_def sz_sub_eq)
  have d: "reads (sv_data v) hs" "sv_size v = length hs" "pos \<noteq> END" using assms(1,4) by (auto simp: sv_rep_def END_eq)
  have l: "length [c] \<le> length hs" "pos \<le> length hs - length [c] + 1" using \<open>1 \<le> length hs\<close> assms(4) by simp_all
  obtain k where k: "find_loop (sv_data v) (chars [c, 0], 0) 1 (length hs - length [c] + 1) pos = Inr k"
      "k = END \<and> (\<forall>j\<ge>pos. \<not> occurs_at hs [c] j) \<or> pos \<le> k \<and> occurs_at hs [c] k \<and> (\<forall>j. pos \<le> j \<and> j < k \<longrightarrow> \<not> occurs_at hs [c] j)"
    using find_loop_law [OF d(1) r l] by auto
  have "sv_find_char v c pos = Inr k" using s k(1) b d(2,3) assms(4) by (simp add: sv_find_char_def sv_find_cstr_def find_bytes_def)
  then show ?thesis using k(2) by (intro exI [of _ k]) (auto simp: occurs_char)
qed

lemma nth_part: "length pre \<le> j \<Longrightarrow> j < length pre + length l \<Longrightarrow> (pre @ l @ post) ! j \<in> set l"
  by (simp add: nth_append less_diff_conv2)

lemma find_char_split:
  assumes "sv_rep v (pre @ l @ rest)" "c \<notin> set l" "c \<noteq> 0" "rest = [] \<or> hd rest = c" "pre @ l @ rest \<noteq> []"
  shows "sv_find_char v c (length pre) = Inr (if rest = [] then END else length pre + length l)"
proof -
  let ?hs = "pre @ l @ rest" and ?n = "length pre + length l"
  obtain r where r: "sv_find_char v c (length pre) = Inr r" "r = END \<and> (\<forall>j. length pre \<le> j \<and> j < length ?hs \<longrightarrow> ?hs ! j \<noteq> c) \<or>
     length pre \<le> r \<and> r < length ?hs \<and> ?hs ! r = c \<and> (\<forall>j. length pre \<le> j \<and> j < r \<longrightarrow> ?hs ! j \<noteq> c)"
    using sv_find_char_law [OF assms(1,3,5), of "length pre"] by auto
  have other: "?hs ! j \<noteq> c" if "length pre \<le> j" "j < ?n" for j using nth_part [OF that, of rest] assms(2) by auto
  show ?thesis
  proof (cases "rest = []")
    case True
    then have "\<not> (length pre \<le> r \<and> r < length ?hs \<and> ?hs ! r = c)" using other [of r] by auto
    with r True show ?thesis by auto
  next
    case False
    then have dot: "?hs ! ?n = c" "length pre \<le> ?n" "?n < length ?hs" using assms(4) by (auto simp: nth_append hd_conv_nth)
    then have "length pre \<le> r" "?hs ! r = c" "\<forall>j. length pre \<le> j \<and> j < r \<longrightarrow> ?hs ! j \<noteq> c" using r(2) by blast+
    then have "r = ?n" using dot other by (metis linorder_neqE_nat)
    with r(1) False show ?thesis by simp
  qed
qed

section \<open>Properties\<close>

text \<open>
  (C29) A string object behaves as the list of its bytes under every sequence of edits (insertion of a
  string or of a terminated text at a position or at \<open>END\<close>, \<open>push_back\<close>, \<open>pop_back\<close>, \<open>erase\<close>): the
  contents are those of the list edits, a failed assertion is one of the list edits too, no byte
  outside the storage is touched and no unwritten byte is read, as long as the lengths stay below
  the range of \<open>size_t\<close>.
\<close>

theorem string_edit_refinement:
  assumes "str_rep s cs" "\<forall>op\<in>set ops. op_fits op" "length cs + (\<Sum>op\<leftarrow>ops. op_text op) + 1 < sz_range"
  shows "agrees (run_fold str_do ops s) (run_fold str_spec ops cs)"
  using assms
proof (induction ops arbitrary: s cs)
  case (Cons op ops)
  then have a: "agrees (str_do op s) (str_spec op cs)" by (intro str_do_law) simp_all
  show ?case
  proof (cases "str_spec op cs")
    case (Inl e)
    with a show ?thesis by (simp add: agrees_def)
  next
    case (Inr ds)
    with a obtain s' where s': "str_do op s = Inr s'" "str_rep s' ds" by (auto simp: agrees_def ok_iff)
    have "agrees (run_fold str_do ops s') (run_fold str_spec ops ds)"
      using Cons.prems str_spec_length [OF Inr] s'(2) by (intro Cons.IH) simp_all
    with Inr s' show ?thesis by simp
  qed
qed (simp add: agrees_def run_simps)

theorem string_edit_refinement_witness:
  "agrees (run_fold str_do [InsertText 1 [5, 6], PushBack 7, Erase 0 2, PopBack, PopBack, PopBack]
       \<lparr>str_size = 1, str_data = chars [9, 0]\<rparr>) (Inl AssertFailed)"
proof -
  have "str_rep \<lparr>str_size = 1, str_data = chars [9, 0]\<rparr> [9]" by (simp add: str_rep_def chars_def)
  from string_edit_refinement [OF this, of "[InsertText 1 [5, 6], PushBack 7, Erase 0 2, PopBack, PopBack, PopBack]"]
  show ?thesis by (simp add: str_spec_def insert_at_def END_eq)
qed

text \<open>
  \<open>find\<close> and \<open>rfind\<close> of a view return the first occurrence at or after \<open>pos\<close>, and the last one that
  ends at or before \<open>pos\<close>, or \<open>NOT_FOUND\<close> when there is none, for every needle that is not longer
  than the view; they read only the two texts.
\<close>

theorem find_first_last:
  assumes "sv_rep v hs" "sv_rep w xs" "length xs \<le> length hs" "length hs < sz_range div 2" "pos \<le> length hs"
  shows "ok (sv_find v w pos) (\<lambda>r. r = NOT_FOUND \<and> (\<forall>j\<ge>pos. \<not> occurs_at hs xs j) \<or>
       pos \<le> r \<and> occurs_at hs xs r \<and> (\<forall>j. pos \<le> j \<and> j < r \<longrightarrow> \<not> occurs_at hs xs j)) \<and>
    ok (sv_rfind v w pos) (\<lambda>r. r = NOT_FOUND \<and> (\<forall>j. j + length xs \<le> pos \<longrightarrow> \<not> occurs_at hs xs j) \<or>
       r + length xs \<le> pos \<and> occurs_at hs xs r \<and> (\<forall>j. r < j \<and> j + length xs \<le> pos \<longrightarrow> \<not> occurs_at hs xs j))"
proof
  have d: "sv_size v = length hs" "reads (sv_data v) hs" "sv_size w = length xs" "reads (sv_data w) xs" "pos \<noteq> END"
    using assms by (auto simp: sv_rep_def END_eq)
  have b: "sz_add (sz_sub (length hs) (length xs)) (Suc 0) = length hs - length xs + 1"
    using assms by (simp add: sz_add_eq sz_sub_eq)
  let ?Q = "\<lambda>r. r = NOT_FOUND \<and> (\<forall>j\<ge>pos. \<not> occurs_at hs xs j) \<or>
       pos \<le> r \<and> occurs_at hs xs r \<and> (\<forall>j. pos \<le> j \<and> j < r \<longrightarrow> \<not> occurs_at hs xs j)"
  have "ok (find_loop (sv_data v) (sv_data w) (length xs) (length hs - length xs + 1) pos) ?Q"
  proof (cases "pos \<le> length hs - length xs + 1")
    case True
    show ?thesis using find_loop_law [OF d(2,4) assms(3) True] by (simp add: ok_iff)
  next
    case False
    then have "\<forall>j\<ge>pos. \<not> occurs_at hs xs j" by (auto simp: occurs_at_def)
    with False show ?thesis by (subst find_loop.simps) (simp add: run_simps)
  qed
  then show "ok (sv_find v w pos) ?Q"
    using d(1,3,5) assms(5) by (simp add: sv_find_def find_bytes_def b)
  let ?k = "nat (to_int (sz_sub pos (length xs)) + 1)"
  have k: "?k = (if length xs \<le> pos then pos - length xs + 1 else 0)"
  proof (cases "length xs \<le> pos")
    case True
    then have "sz_sub pos (length xs) = pos - length xs" using assms by (simp add: sz_sub_eq)
    moreover have "pos - length xs < sz_range div 2" using assms by simp
    ultimately show ?thesis using True by (simp add: to_int_def nat_add_distrib)
  next
    case False
    then have "sz_sub pos (length xs) = sz_range + pos - length xs" using assms by (intro sz_sub_wrap) simp_all
    with False assms show ?thesis by (simp add: to_int_def)
  qed
  have j: "j < ?k \<longleftrightarrow> j + length xs \<le> pos" for j using k by auto
  have "?k + length xs \<le> length hs + 1" using k assms by auto
  from rfind_loop_law [OF d(2,4) this]
  show "ok (sv_rfind v w pos) (\<lambda>r. r = NOT_FOUND \<and> (\<forall>j. j + length xs \<le> pos \<longrightarrow> \<not> occurs_at hs xs j) \<or>
       r + length xs \<le> pos \<and> occurs_at hs xs r \<and> (\<forall>j. r < j \<and> j + length xs \<le> pos \<longrightarrow> \<not> occurs_at hs xs j))"
    using d(1,3,5) assms(5) by (simp add: sv_rfind_def rfind_bytes_def ok_iff j)
qed

theorem find_first_last_witness:
  "ok (sv_find \<lparr>sv_size = 5, sv_data = literal [1, 2, 1, 2, 3]\<rparr> \<lparr>sv_size = 2, sv_data = literal [1, 2]\<rparr> 1)
     (\<lambda>r. r = 2)"
proof -
  have v: "sv_rep \<lparr>sv_size = 5, sv_data = literal [1, 2, 1, 2, 3]\<rparr> [1, 2, 1, 2, 3]"
    "sv_rep \<lparr>sv_size = 2, sv_data = literal [1, 2]\<rparr> [1, 2]"
    using reads_literal(2) [of "[1, 2, 1, 2, 3]"] reads_literal(2) [of "[1, 2]"]
    by (simp_all add: sv_rep_def) (simp_all add: literal_def chars_def)
  have "occurs_at [1, 2, 1, 2, 3] [1, 2] 2" "\<not> occurs_at [1, 2, 1, 2, 3] [1, 2] 1" by (simp_all add: occurs_at_def numeral_eq_Suc)
  moreover have "r = 2 \<or> 2 < r \<or> r = 1" if "(1::nat) \<le> r" for r using that by linarith
  ultimately have "r = 2" if "Suc 0 \<le> r" "occurs_at [1, 2, 1, 2, 3] [1, 2] r"
      "\<forall>j. Suc 0 \<le> j \<and> j < r \<longrightarrow> \<not> occurs_at [1, 2, 1, 2, 3] [1, 2] j" for r
    using that by (metis One_nat_def one_le_numeral)
  then show ?thesis using find_first_last [OF v, of 1] \<open>occurs_at [1, 2, 1, 2, 3] [1, 2] 2\<close>
    by (auto elim!: ok_mono)
qed

lemma find_loop_overrun:
  assumes "p = literal xs" "2 \<le> length xs" "hd xs \<noteq> 0" "hd xs \<notin> set hs" "i \<le> length hs + 1" "length hs + 1 < bound"
  shows "find_loop (literal hs) p (length xs) bound i = Inl BadAccess"
  using assms(5)
proof (induction "length hs + 1 - i" arbitrary: i)
  case 0
  then have "rd (advance (literal hs) i) 0 = Inl BadAccess" by (simp add: rd_def advance_def literal_def chars_def)
  moreover have "xs \<noteq> []" using assms(2) by auto
  ultimately show ?case using 0 assms
    by (subst find_loop.simps) (simp add: strncmp_def memcmp_def memcmp_loop.simps [of _ _ _ 0])
next
  case (Suc k)
  then have i: "i < length (hs @ [0])" by simp
  then have r: "rd (advance (literal hs) i) 0 = Inr ((hs @ [0]) ! i)"
    by (simp add: rd_def advance_def literal_def chars_def nth_append)
  have ne: "(hs @ [0]) ! i \<noteq> hd xs"
    using i assms(3,4) by (cases "i < length hs") (auto simp: nth_append dest: nth_mem)
  have x: "rd p 0 = Inr (hd xs)" using assms(1,2) by (cases xs) (simp_all add: rd_def literal_def chars_def)
  have "strncmp (advance (literal hs) i) p (length xs) = Inr True"
    using r x ne assms(2) list.size(3) [where 'a = u8] by (force simp: strncmp_def memcmp_def memcmp_loop.simps [of _ _ _ 0])
  with Suc i assms show ?case by (subst find_loop.simps) simp
qed

text \<open>
  A needle at least two bytes longer than the text makes \<open>find\<close> read behind the storage of the text,
  whenever the first byte of the needle does not occur: the bound of the loop wraps around.
\<close>

theorem find_long_needle_overruns:
  assumes "length hs + 2 \<le> length xs" "length xs < sz_range div 2" "xs \<noteq> []" "hd xs \<noteq> 0" "hd xs \<notin> set hs"
  shows "sv_find \<lparr>sv_size = length hs, sv_data = literal hs\<rparr> \<lparr>sv_size = length xs, sv_data = literal xs\<rparr> 0 = Inl BadAccess"
proof -
  have "sz_sub (length hs) (length xs) = sz_range + length hs - length xs" using assms by (intro sz_sub_wrap) simp_all
  then have "length hs + 1 < sz_add (sz_sub (length hs) (length xs)) (Suc 0)" using assms by (simp add: sz_add_def)
  then show ?thesis using assms
    by (simp add: sv_find_def find_bytes_def END_eq find_loop_overrun)
qed

theorem find_long_needle_overruns_witness:
  "sv_find \<lparr>sv_size = 1, sv_data = literal [7]\<rparr> \<lparr>sv_size = 3, sv_data = literal [1, 2, 3]\<rparr> 0 = Inl BadAccess"
  using find_long_needle_overruns [of "[7]" "[1, 2, 3]"] by (simp add: numeral_3_eq_3)

text \<open>
  Two different strings of the same length are neither \<open>==\<close> nor \<open>!=\<close>: the inequality operators
  answer false as soon as the lengths agree.
\<close>

theorem string_inequality_not_negation:
  assumes "str_rep s xs" "str_rep t ys" "0 \<notin> set xs" "0 \<notin> set ys" "length xs = length ys" "xs \<noteq> ys"
  shows "str_eq s t = Inr False \<and> str_ne s t = Inr False \<and> sv_eq (sv_of_string s) (sv_of_string t) = Inr False \<and>
    sv_ne (sv_of_string s) (sv_of_string t) = Inr False"
  using assms str_eq_law [OF assms(1,2,3,4)] sv_eq_law [OF str_rep_view [OF assms(1)] str_rep_view [OF assms(2)]]
  by (simp add: str_ne_def sv_ne_def sv_of_string_def str_length_def str_rep_def)

theorem string_inequality_not_negation_witness:
  "str_ne \<lparr>str_size = 1, str_data = chars [1, 0]\<rparr> \<lparr>str_size = 1, str_data = chars [2, 0]\<rparr> = Inr False"
proof -
  have "str_rep \<lparr>str_size = 1, str_data = chars [1, 0]\<rparr> [1]" "str_rep \<lparr>str_size = 1, str_data = chars [2, 0]\<rparr> [2]"
    by (simp_all add: str_rep_def chars_def)
  from string_inequality_not_negation [OF this] show ?thesis by simp
qed

text \<open>
  \<open>operator+=(char)\<close> treats its parameter as a terminated string: with any character but 0 it reads
  behind it.
\<close>

theorem string_append_char_overruns:
  assumes "c \<noteq> 0" "str_size s \<noteq> END"
  shows "str_append_char s c = Inl BadAccess"
  using assms by (simp add: str_append_char_def str_insert_cstr_def chars_def)

theorem string_append_char_overruns_witness:
  "str_append_char \<lparr>str_size = 1, str_data = chars [1, 0]\<rparr> 65 = Inl BadAccess"
  using string_append_char_overruns [of 65 "\<lparr>str_size = 1, str_data = chars [1, 0]\<rparr>"] by (simp add: END_eq)

end
