(* ===== verification/Paths.thy ===== *)
theory Paths
  imports Strings
begin

text \<open>
  \<open>PathView\<close> (path_view.h, path_view.cpp): the elements of an absolute path, of a relative one, or
  of a relative one under a working directory. Positions are \<open>int\<close> variables assigned from \<open>size_t\<close>
  results; both conversions are written out.
\<close>

section \<open>Definitions\<close>

datatype PathType = Absolute | Relative | RelativeRecursive

record path_view =
  pv_type :: PathType
  pv_absolute :: string_view
  pv_relative :: string_view
  pv_absolute_count :: size_t
  pv_relative_count :: size_t

definition SPLITER :: u8 where "SPLITER = 47"

definition of_int32 :: "int \<Rightarrow> size_t" where
  "of_int32 i = nat (i mod int sz_range)"

definition empty_view :: "string_view" where
  "empty_view = \<lparr>sv_size = 0, sv_data = literal []\<rparr>"

definition pv_is_valid :: "string_view \<Rightarrow> bool run" where
  "pv_is_valid path = (if sv_size path = 0 then Inr False
     else if sv_size path \<noteq> 1 then bindr (sv_at path (sz_sub (sv_size path) 1)) (\<lambda>c. Inr (c \<noteq> SPLITER))
     else Inr True)"

definition pv_get_type :: "string_view \<Rightarrow> PathType run" where
  "pv_get_type path = bindr (pv_is_valid path) (\<lambda>b. assert_then b
     (bindr (sv_at path 0) (\<lambda>c. if c = SPLITER then Inr Absolute
       else bindr (sv_find_cstr path (literal [46, 46]) 0) (\<lambda>r.
         Inr (if r \<noteq> END then RelativeRecursive else Relative)))))"

fun count_loop :: "nat \<Rightarrow> string_view \<Rightarrow> int \<Rightarrow> size_t \<Rightarrow> size_t run" where
  "count_loop fuel path last_found count =
     bindr (sv_find_char path SPLITER (of_int32 last_found)) (\<lambda>r.
       if to_int r \<noteq> to_int NOT_FOUND \<and> to_int r + 1 \<noteq> 0 then
         (case fuel of 0 \<Rightarrow> Inl OutOfFuel | Suc f \<Rightarrow> count_loop f path (to_int r + 1) (count + 1))
       else Inr count)"

definition count_elements :: "string_view \<Rightarrow> size_t run" where
  "count_elements path = bindr (sv_at path 0) (\<lambda>c.
     if c = SPLITER \<and> sv_size path = 1 then Inr 0
     else bindr (count_loop (sv_size path) path (if c = SPLITER then 1 else 0) 0) (\<lambda>n. Inr (n + 1)))"

definition pv_new :: "string_view \<Rightarrow> path_view run" where
  "pv_new path = bindr (pv_get_type path) (\<lambda>ty.
     let a = (if ty = Absolute then path else empty_view); r = (if ty \<noteq> Absolute then path else empty_view) in
     bindr (if ty = Absolute then count_elements a else Inr 0) (\<lambda>ac.
     bindr (if ty \<noteq> Absolute then count_elements r else Inr 0) (\<lambda>rc.
     Inr \<lparr>pv_type = ty, pv_absolute = a, pv_relative = r, pv_absolute_count = ac, pv_relative_count = rc\<rparr>)))"

definition pv_of_string :: "string_obj \<Rightarrow> path_view run" where
  "pv_of_string path = pv_new (sv_of_string path)"

definition pv_of_cstr :: "cptr \<Rightarrow> path_view run" where
  "pv_of_cstr path = bindr (sv_of_cstr path) pv_new"

definition pv_under :: "string_view \<Rightarrow> string_view \<Rightarrow> path_view run" where
  "pv_under working_dir relative_path =
     bindr (count_elements working_dir) (\<lambda>ac. bindr (count_elements relative_path) (\<lambda>rc.
     bindr (pv_get_type working_dir) (\<lambda>ta. assert_then (ta = Absolute)
     (bindr (pv_get_type relative_path) (\<lambda>tr. assert_then (tr \<noteq> Absolute)
     (Inr \<lparr>pv_type = Absolute, pv_absolute = working_dir, pv_relative = relative_path,
           pv_absolute_count = ac, pv_relative_count = rc\<rparr>))))))"

definition pv_set_absolute_path :: "path_view \<Rightarrow> path_view \<Rightarrow> path_view run" where
  "pv_set_absolute_path v path =
     assert_then (pv_type v \<noteq> Absolute) (assert_then (pv_type path = Absolute)
     (assert_then (pv_absolute_count path > 0) (assert_then (pv_relative_count path = 0)
     (Inr (v\<lparr>pv_absolute := pv_absolute path, pv_absolute_count := pv_absolute_count path\<rparr>)))))"

definition pv_count :: "path_view \<Rightarrow> size_t" where
  "pv_count v = sz_add (pv_relative_count v) (pv_absolute_count v)"

text \<open>\<open>k\<close> times \<open>pos = path.find(SPLITER, pos) + 1\<close>.\<close>

fun seek :: "nat \<Rightarrow> string_view \<Rightarrow> int \<Rightarrow> int run" where
  "seek 0 path pos = Inr pos"
| "seek (Suc k) path pos = bindr (sv_find_char path SPLITER (of_int32 pos)) (\<lambda>r. seek k path (to_int (sz_add r 1)))"

definition get_element_from_full_path :: "string_view \<Rightarrow> size_t \<Rightarrow> string_view run" where
  "get_element_from_full_path path index = bindr (sv_at path 0) (\<lambda>c.
     bindr (seek index path (if c = SPLITER then 1 else 0)) (\<lambda>pos.
     bindr (sv_find_char path SPLITER (of_int32 pos)) (\<lambda>next_splitter.
     let len = (if next_splitter = END then sz_sub (sv_size path) (of_int32 pos) else sz_sub next_splitter (of_int32 pos)) in
     sv_substr path (of_int32 pos) len)))"

definition pv_index :: "path_view \<Rightarrow> int \<Rightarrow> string_view run" where
  "pv_index v index0 = (let n = to_int (pv_count v) in
     assert_then (index0 < n) (assert_then (index0 > - n - 1)
       (let index = (if index0 < 0 then to_int (sz_add (pv_count v) (of_int32 index0)) else index0) in
        if index < to_int (pv_absolute_count v) then get_element_from_full_path (pv_absolute v) (of_int32 index)
        else get_element_from_full_path (pv_relative v) (sz_sub (of_int32 index) (pv_absolute_count v)))))"

definition sub_absolute_path :: "path_view \<Rightarrow> size_t \<Rightarrow> size_t \<Rightarrow> string_view run" where
  "sub_absolute_path v start_index end_index =
     (if start_index \<ge> pv_absolute_count v then Inr empty_view
      else bindr (seek start_index (pv_absolute v) 1) (\<lambda>start_pos.
        if end_index < sz_sub (pv_absolute_count v) 1 then
          bindr (seek (sz_add (sz_sub end_index start_index) 1) (pv_absolute v) start_pos) (\<lambda>end_pos.
            sv_substr (pv_absolute v) (of_int32 (start_pos - 1)) (of_int32 (end_pos - start_pos)))
        else sv_substr (pv_absolute v) (of_int32 (start_pos - 1)) END))"

definition sub_relative_path :: "path_view \<Rightarrow> size_t \<Rightarrow> size_t \<Rightarrow> string_view run" where
  "sub_relative_path v start_index0 end_index0 =
     (if end_index0 < pv_absolute_count v then Inr empty_view
      else let start_index = (if start_index0 < pv_absolute_count v then 0 else sz_sub start_index0 (pv_absolute_count v));
               end_index = sz_sub end_index0 (pv_absolute_count v) in
        bindr (seek start_index (pv_absolute v) 0) (\<lambda>start_pos.
        if end_index < sz_sub (pv_relative_count v) 1 then
          bindr (seek (sz_add (sz_sub end_index start_index) 1) (pv_relative v) start_pos) (\<lambda>end_pos.
            sv_substr (pv_relative v) (of_int32 start_pos) (sz_sub (of_int32 (end_pos - start_pos)) 1))
        else sv_substr (pv_relative v) (of_int32 start_pos) END))"

definition pv_sub_path :: "path_view \<Rightarrow> int \<Rightarrow> int \<Rightarrow> path_view run" where
  "pv_sub_path v start_index0 end_index0 = (let n = to_int (pv_count v) in
     assert_then (start_index0 < n \<and> start_index0 > - n - 1) (assert_then (end_index0 < n \<and> end_index0 > - n - 1)
       (let start_index = (if start_index0 < 0 then to_int (sz_add (pv_count v) (of_int32 start_index0)) else start_index0);
            end_index = (if end_index0 < 0 then to_int (sz_add (pv_count v) (of_int32 end_index0)) else end_index0) in
        assert_then (end_index > start_index)
          (bindr (sub_absolute_path v (of_int32 start_index) (of_int32 end_index)) (\<lambda>new_absolute.
           bindr (sub_relative_path v (of_int32 start_index) (of_int32 end_index)) (\<lambda>new_relative.
           bindr (sv_eq_cstr new_absolute (literal [])) (\<lambda>ae.
           if ae then pv_new new_relative
           else bindr (sv_eq_cstr new_relative (literal [])) (\<lambda>re.
             if re then pv_new new_absolute else pv_under new_absolute new_relative))))))))"

text \<open>\<open>full_path_str += m_relative_path\<close> converts the view to a string first.\<close>

definition pv_full_path :: "path_view \<Rightarrow> string_obj run" where
  "pv_full_path v = bindr (str_from_view (pv_absolute v)) (\<lambda>full_path_str.
     if pv_relative_count v \<noteq> 0 then
       bindr (str_append_cstr full_path_str (literal [47])) (\<lambda>s1.
       bindr (str_from_view (pv_relative v)) (\<lambda>r. str_append s1 r))
     else Inr full_path_str)"

declare count_loop.simps [simp del]

section \<open>Paths as lists of elements\<close>

fun join :: "u8 list list \<Rightarrow> u8 list" where
  "join [] = []"
| "join [c] = c"
| "join (c # d # cs) = c @ SPLITER # join (d # cs)"

text \<open>Elements without a splitter, the last one not empty: the texts \<open>is_valid\<close> accepts.\<close>

definition path_ok :: "u8 list list \<Rightarrow> bool" where
  "path_ok cs = (cs \<noteq> [] \<and> last cs \<noteq> [] \<and> (\<forall>c\<in>set cs. SPLITER \<notin> set c) \<and> length (join cs) + 2 < sz_range div 2)"

text \<open>The position of element k behind the leading n bytes of the text.\<close>

fun offset :: "u8 list list \<Rightarrow> nat \<Rightarrow> nat" where
  "offset cs 0 = 0"
| "offset [] (Suc k) = 0"
| "offset (c # cs) (Suc k) = length c + 1 + offset cs k"

lemma int_conv [simp]: "n < sz_range div 2 \<Longrightarrow> to_int n = int n" "n < sz_range \<Longrightarrow> of_int32 (int n) = n"
  by (simp_all add: to_int_def of_int32_def nat_mod_distrib)

lemma to_int_END [simp]: "to_int END = - 1"
  by (simp add: to_int_def END_eq)

lemma find_char_law:
  assumes "sv_rep v (pre @ c @ rest)" "SPLITER \<notin> set c" "rest = [] \<or> hd rest = SPLITER" "pre @ c @ rest \<noteq> []"
  shows "sv_find_char v SPLITER (length pre) = Inr (if rest = [] then END else length pre + length c)"
  by (rule find_char_split) (use assms in \<open>simp_all add: SPLITER_def\<close>)

lemma find_char_element:
  assumes "sv_rep v (pre @ join (c # cs))" "SPLITER \<notin> set c" "pre @ join (c # cs) \<noteq> []" "length (pre @ join (c # cs)) < sz_range div 2"
  shows "sv_find_char v SPLITER (length pre) = Inr (if cs = [] then END else length pre + length c)"
proof (cases cs)
  case Nil
  with find_char_law [of v pre c "[]"] assms show ?thesis by simp
next
  case (Cons d ds)
  with find_char_law [of v pre c "SPLITER # join cs"] assms show ?thesis by simp
qed

text \<open>The text of a path in front of element k and from there on.\<close>

lemma join_split: "k < length cs \<Longrightarrow> \<exists>pre. join cs = pre @ join (drop k cs) \<and> length pre = offset cs k"
proof (induction cs k rule: offset.induct)
  case (3 c cs k)
  then obtain d ds where cs: "cs = d # ds" by (cases cs) auto
  from 3 obtain pre where "join cs = pre @ join (drop k cs)" "length pre = offset cs k" by auto
  then have "join (c # cs) = (c @ SPLITER # pre) @ join (drop k cs)" "length (c @ SPLITER # pre) = offset (c # cs) (Suc k)"
    using cs by simp_all
  then show ?case by (metis drop_Suc_Cons)
qed auto

lemma join_append: "cs \<noteq> [] \<Longrightarrow> ds \<noteq> [] \<Longrightarrow> join (cs @ ds) = join cs @ SPLITER # join ds"
proof (induction cs rule: join.induct)
  case (2 c)
  then show ?case by (cases ds) auto
qed auto

lemma join_nonempty: "cs \<noteq> [] \<Longrightarrow> last cs \<noteq> [] \<Longrightarrow> join cs \<noteq> []"
  by (induction cs rule: join.induct) auto

lemma join_last: "cs \<noteq> [] \<Longrightarrow> last cs \<noteq> [] \<Longrightarrow> last (join cs) = last (last cs)"
proof (induction cs rule: join.induct)
  case (3 c d cs)
  then show ?case using join_nonempty [of "d # cs"] by simp
qed auto

lemma join_length: "length cs \<le> length (join cs) + 1"
  by (induction cs rule: join.induct) auto

lemma seek_law:
  assumes "sv_rep v (pre @ join cs)" "\<forall>c\<in>set cs. SPLITER \<notin> set c" "k < length cs" "length (pre @ join cs) + 1 < sz_range div 2"
    "pre @ join cs \<noteq> []"
  shows "seek k v (int (length pre)) = Inr (int (length pre + offset cs k))"
  using assms
proof (induction k arbitrary: pre cs)
  case (Suc k)
  then obtain c d ds where cs: "cs = c # d # ds" by (cases cs; cases "tl cs") auto
  let ?pre = "pre @ c @ [SPLITER]"
  have "sv_find_char v SPLITER (length pre) = Inr (length pre + length c)"
    using find_char_element [of v pre c "d # ds"] Suc.prems cs by simp
  moreover have "seek k v (int (length ?pre)) = Inr (int (length ?pre + offset (d # ds) k))"
    using Suc.prems cs by (intro Suc.IH) simp_all
  moreover have "sz_add (length pre + length c) 1 = length ?pre" "length ?pre < sz_range div 2" "length pre < sz_range div 2"
    using Suc.prems cs by (simp_all add: sz_add_eq)
  ultimately show ?case using cs by (simp add: algebra_simps)
qed simp

lemma count_loop_law:
  assumes "sv_rep v (pre @ join cs)" "\<forall>c\<in>set cs. SPLITER \<notin> set c" "cs \<noteq> []" "length (pre @ join cs) + 1 < sz_range div 2"
    "pre @ join cs \<noteq> []" "length cs \<le> fuel + 1"
  shows "count_loop fuel v (int (length pre)) n = Inr (n + length cs - 1)"
  using assms
proof (induction fuel arbitrary: pre cs n)
  case 0
  then obtain c where cs: "cs = [c]" by (cases cs) auto
  have "sv_find_char v SPLITER (length pre) = Inr END" using find_char_element [of v pre c "[]"] 0 cs by simp
  with 0 cs show ?case by (subst count_loop.simps) simp
next
  case (Suc fuel)
  then obtain c ds where cs: "cs = c # ds" by (cases cs) auto
  show ?case
  proof (cases ds)
    case Nil
    then have "sv_find_char v SPLITER (length pre) = Inr END" using find_char_element [of v pre c "[]"] Suc.prems cs by simp
    with Suc.prems cs Nil show ?thesis by (subst count_loop.simps) simp
  next
    case (Cons d es)
    let ?pre = "pre @ c @ [SPLITER]"
    have "sv_find_char v SPLITER (length pre) = Inr (length pre + length c)"
      using find_char_element [of v pre c ds] Suc.prems cs Cons by simp
    moreover have "count_loop fuel v (int (length ?pre)) (n + 1) = Inr (n + 1 + length ds - 1)"
      using Suc.prems cs Cons by (intro Suc.IH) simp_all
    moreover have "int (length pre + length c) + 1 = int (length ?pre)" "length pre + length c < sz_range div 2"
      "length pre < sz_range div 2" using Suc.prems cs Cons by simp_all
    ultimately show ?thesis using cs by (subst count_loop.simps) (simp add: algebra_simps)
  qed
qed

text \<open>The text of an element list, absolute or relative, and the reads of its first byte.\<close>

definition lead :: "bool \<Rightarrow> u8 list" where
  "lead a = (if a then [SPLITER] else [])"

definition path_text :: "bool \<Rightarrow> u8 list list \<Rightarrow> u8 list" where
  "path_text a cs = lead a @ join cs"

lemma sv_at_rep: "sv_rep v hs \<Longrightarrow> i < length hs \<Longrightarrow> sv_at v i = Inr (hs ! i)"
  by (simp add: sv_at_def sv_rep_def reads_rd)

lemma path_text_first:
  assumes "path_ok cs" "sv_rep v (path_text a cs)" "a \<or> hd cs \<noteq> []"
  shows "sv_at v 0 = Inr (if a then SPLITER else hd (hd cs)) \<and> (\<not> a \<longrightarrow> hd (hd cs) \<noteq> SPLITER)"
proof (cases a)
  case True
  then show ?thesis using sv_at_rep [OF assms(2), of 0] by (simp add: path_text_def lead_def)
next
  case False
  then obtain x xs ds where cs: "cs = (x # xs) # ds" using assms by (cases cs; cases "hd cs") (auto simp: path_ok_def)
  then have "x \<noteq> SPLITER" "\<exists>r. join cs = x # r" using assms(1) by (auto simp: path_ok_def) (cases ds; simp)
  then show ?thesis using False cs sv_at_rep [OF assms(2), of 0] by (auto simp: path_text_def lead_def)
qed

lemma get_element_law:
  assumes "path_ok cs" "sv_rep v (path_text a cs)" "a \<or> hd cs \<noteq> []" "k < length cs"
  shows "ok (get_element_from_full_path v k) (\<lambda>e. sv_rep e (cs ! k))"
proof -
  let ?T = "path_text a cs"
  obtain pre where pre: "join cs = pre @ join (drop k cs)" "length pre = offset cs k" using join_split [OF assms(4)] by auto
  have dr: "drop k cs = cs ! k # drop (Suc k) cs" using assms(4) by (simp add: Cons_nth_drop_Suc)
  define P where "P = lead a @ pre"
  have T: "?T = P @ join (cs ! k # drop (Suc k) cs)" using pre dr by (simp add: path_text_def P_def)
  have ne: "?T \<noteq> []" "lead a @ join cs \<noteq> []" using assms(1) join_nonempty [of cs] by (auto simp: path_ok_def path_text_def)
  have len: "length ?T + 1 < sz_range div 2" using assms(1) by (simp add: path_text_def lead_def path_ok_def)
  have first: "sv_at v 0 = Inr (if a then SPLITER else hd (hd cs))" "\<not> a \<longrightarrow> hd (hd cs) \<noteq> SPLITER"
    using path_text_first [OF assms(1,2,3)] by auto
  let ?pos = "length P"
  have sk: "seek k v (if (if a then SPLITER else hd (hd cs)) = SPLITER then 1 else 0) = Inr (int ?pos)"
    using seek_law [of v "lead a" cs k] assms ne(2) len first(2) pre(2)
    by (cases a) (simp_all add: P_def path_text_def path_ok_def lead_def)
  have p: "?pos < sz_range div 2" "of_int32 (int ?pos) = ?pos" using len T by simp_all
  have f: "sv_find_char v SPLITER ?pos = Inr (if drop (Suc k) cs = [] then END else ?pos + length (cs ! k))"
    using assms ne T len by (intro find_char_element) (simp_all add: path_ok_def)
  obtain rest where rest: "join (cs ! k # drop (Suc k) cs) = cs ! k @ rest" "rest = [] \<longleftrightarrow> drop (Suc k) cs = []"
    by (cases "drop (Suc k) cs") auto
  have Tl: "length ?T = ?pos + length (cs ! k) + length rest" using T rest by simp
  have "ok (sv_substr v ?pos (length (cs ! k))) (\<lambda>e. sv_rep e (cs ! k))"
  proof -
    have "reads (advance (sv_data v) ?pos) (cs ! k)"
      using reads_take [OF reads_advance, of "sv_data v" ?T ?pos "length (cs ! k)"] assms(2) T rest(1)
      by (simp add: sv_rep_def)
    moreover have "?pos \<noteq> END" "length (cs ! k) \<noteq> END" "sz_add ?pos (length (cs ! k)) \<le> sv_size v" "sv_size v = length ?T"
      using Tl len assms(2) by (auto simp: END_eq sz_add_eq sv_rep_def)
    ultimately show ?thesis using assms(2) Tl len
      by (simp add: sv_substr_def sv_of_range_def run_simps sv_rep_def) (simp add: advance_def run_simps)
  qed
  moreover have "sz_sub (if drop (Suc k) cs = [] then sv_size v else ?pos + length (cs ! k)) ?pos = length (cs ! k)"
    using Tl len rest(2) assms(2) by (auto simp: sz_sub_eq sv_rep_def)
  ultimately show ?thesis using first(1) sk f p Tl len
    by (auto simp: get_element_from_full_path_def END_eq split: if_splits)
qed

lemma count_elements_law:
  assumes "path_ok cs" "sv_rep v (path_text a cs)" "a \<or> hd cs \<noteq> []"
  shows "count_elements v = Inr (length cs)"
proof -
  have first: "sv_at v 0 = Inr (if a then SPLITER else hd (hd cs))" "\<not> a \<longrightarrow> hd (hd cs) \<noteq> SPLITER"
    using path_text_first [OF assms] by auto
  have j: "join cs \<noteq> []" "cs \<noteq> []" using assms(1) join_nonempty [of cs] by (auto simp: path_ok_def)
  have "count_loop (sv_size v) v (int (length (lead a))) 0 = Inr (0 + length cs - 1)"
    using assms(1,2) j join_length [of cs] by (intro count_loop_law) (simp_all add: path_text_def path_ok_def sv_rep_def lead_def)
  moreover have "\<not> (a \<and> sv_size v = 1)" using assms(2) j by (auto simp: sv_rep_def path_text_def lead_def)
  ultimately show ?thesis using first j by (cases a) (auto simp: count_elements_def lead_def)
qed

lemma is_valid_law:
  assumes "path_ok cs" "sv_rep v (path_text a cs)" shows "pv_is_valid v = Inr True"
proof -
  let ?T = "path_text a cs"
  have j: "join cs \<noteq> []" "last (join cs) = last (last cs)" "last cs \<noteq> []" "last cs \<in> set cs"
    using assms(1) join_nonempty [of cs] join_last [of cs] by (auto simp: path_ok_def)
  then have l: "last ?T \<noteq> SPLITER" "?T \<noteq> []" using assms(1) by (auto simp: path_text_def path_ok_def dest: last_in_set)
  then have "sv_at v (length ?T - 1) = Inr (last ?T)" using sv_at_rep [OF assms(2), of "length ?T - 1"] by (simp add: last_conv_nth)
  moreover have "sz_sub (length ?T) 1 = length ?T - 1" using l(2) assms(2) by (intro sz_sub_eq) (auto simp: sv_rep_def Suc_le_eq)
  ultimately show ?thesis using l assms(2) by (simp add: pv_is_valid_def sv_rep_def)
qed

lemma find_dots:
  assumes "sv_rep v hs" "hs \<noteq> []" "length hs < sz_range div 2"
  shows "\<exists>r. sv_find_cstr v (literal [46, 46]) 0 = Inr r"
proof -
  have n: "strlen (literal [46, 46]) = Inr 2" using strlen_literal [of "[46, 46]"] by simp
  have d: "sv_size v = length hs" "reads (sv_data v) hs" using assms by (simp_all add: sv_rep_def)
  show ?thesis
  proof (cases "length hs = 1")
    case True
    have "find_loop (sv_data v) (literal [46, 46]) 2 (sz_add (sz_sub 1 2) 1) 0 = Inr END"
      by (subst find_loop.simps) (simp add: sz_add_def sz_sub_def)
    with True n d show ?thesis by (simp add: sv_find_cstr_def find_bytes_def END_eq)
  next
    case False
    then have l: "length [46, 46 :: u8] \<le> length hs" using assms(2) by (cases hs; cases "tl hs") auto
    then have b: "sz_add (sz_sub (length hs) 2) 1 = length hs - length [46, 46 :: u8] + 1"
      using assms(3) by (simp add: sz_add_eq sz_sub_eq)
    from find_loop_law [OF d(2) reads_literal(2) l, of 0] obtain r where
      "find_loop (sv_data v) (literal [46, 46]) (length [46, 46 :: u8]) (length hs - length [46, 46 :: u8] + 1) 0 = Inr r" by auto
    then show ?thesis using n d b by (simp add: sv_find_cstr_def find_bytes_def END_eq numeral_2_eq_2)
  qed
qed

lemma get_type_law:
  assumes "path_ok cs" "sv_rep v (path_text a cs)" "a \<or> hd cs \<noteq> []"
  shows "\<exists>ty. pv_get_type v = Inr ty \<and> (ty = Absolute \<longleftrightarrow> a)"
proof -
  have "path_text a cs \<noteq> []" "length (path_text a cs) < sz_range div 2"
    using assms(1) join_nonempty [of cs] by (auto simp: path_text_def path_ok_def lead_def)
  then obtain r where "sv_find_cstr v (literal [46, 46]) 0 = Inr r" using find_dots [OF assms(2)] by auto
  then show ?thesis using path_text_first [OF assms] is_valid_law [OF assms(1,2)] by (cases a) (auto simp: pv_get_type_def)
qed

text \<open>
  \<open>pv_rep p cs ds\<close>: the elements of p are cs, from the absolute part, followed by ds, from the
  relative part. The absolute part may be the root, which has no elements.
\<close>

definition pv_rep :: "path_view \<Rightarrow> u8 list list \<Rightarrow> u8 list list \<Rightarrow> bool" where
  "pv_rep p cs ds = (pv_absolute_count p = length cs \<and> pv_relative_count p = length ds \<and> length cs + length ds < sz_range div 2 \<and>
     (cs \<noteq> [] \<longrightarrow> path_ok cs \<and> sv_rep (pv_absolute p) (path_text True cs)) \<and>
     (ds \<noteq> [] \<longrightarrow> path_ok ds \<and> hd ds \<noteq> [] \<and> sv_rep (pv_relative p) (path_text False ds)))"

lemma path_ok_count: "path_ok cs \<Longrightarrow> length cs < sz_range div 2"
  using join_length [of cs] by (simp add: path_ok_def)

lemma pv_new_law:
  assumes "path_ok cs" "sv_rep v (path_text a cs)" "a \<or> hd cs \<noteq> []"
  shows "ok (pv_new v) (\<lambda>p. if a then pv_rep p cs [] \<and> pv_type p = Absolute \<and> pv_absolute p = v
     else pv_rep p [] cs \<and> pv_type p \<noteq> Absolute)"
  using get_type_law [OF assms] count_elements_law [OF assms] path_ok_count [OF assms(1)] assms
  by (auto simp: pv_new_def pv_rep_def run_simps)

lemma pv_index_law:
  assumes "pv_rep p cs ds" "- int (length (cs @ ds)) \<le> i" "i < int (length (cs @ ds))"
  shows "ok (pv_index p i) (\<lambda>e. sv_rep e ((cs @ ds) ! nat (i mod int (length (cs @ ds)))))"
proof -
  let ?n = "length (cs @ ds)"
  define k where "k = nat (i mod int ?n)"
  have n: "pv_count p = ?n" "?n < sz_range div 2" using assms(1) by (simp_all add: pv_rep_def pv_count_def sz_add_eq)
  have k: "k < ?n" using assms by (simp add: k_def nat_less_iff)
  have m: "i mod int ?n = (if i < 0 then i + int ?n else i)"
  proof (cases "i < 0")
    case True
    then have "(i + int ?n) mod int ?n = i + int ?n" using assms by (intro mod_pos_pos_trivial) auto
    with True show ?thesis by simp
  qed (use assms in simp)
  have idx: "(if i < 0 then to_int (sz_add ?n (of_int32 i)) else i) = int k"
  proof (cases "i < 0")
    case True
    then have "i mod int sz_range = i + int sz_range"
      using mod_pos_pos_trivial [of "i + int sz_range" "int sz_range"] n(2) assms by simp
    then have "of_int32 i = nat (i + int sz_range)" by (simp add: of_int32_def)
    moreover define m where "m = nat (- i)"
    ultimately have o: "of_int32 i = sz_range - m" "i = - int m" "m \<le> ?n" "m \<le> sz_range" using True assms n(2) by auto
    then have e: "?n + (sz_range - m) = (?n - m) + sz_range" by linarith
    have "sz_add ?n (sz_range - m) = ?n - m" using n(2) unfolding sz_add_def e mod_add_self2 by (intro mod_less) linarith
    then have "sz_add ?n (of_int32 i) = nat (i + int ?n)" using o(1,2,3) by simp
    with True n(2) m assms(2) show ?thesis by (simp add: k_def)
  qed (use m assms in \<open>simp add: k_def\<close>)
  have oi: "of_int32 (int k) = k" using k n(2) by simp
  have "ok (if int k < to_int (pv_absolute_count p) then get_element_from_full_path (pv_absolute p) k
        else get_element_from_full_path (pv_relative p) (sz_sub k (pv_absolute_count p))) (\<lambda>e. sv_rep e ((cs @ ds) ! k))"
  proof (cases "k < length cs")
    case True
    then have "ok (get_element_from_full_path (pv_absolute p) k) (\<lambda>e. sv_rep e (cs ! k))"
      using assms(1) by (intro get_element_law [of _ _ True]) (auto simp: pv_rep_def)
    with True n(2) assms(1) show ?thesis by (simp add: pv_rep_def nth_append)
  next
    case False
    have "sz_sub k (length cs) = k - length cs" using False k n(2) by (intro sz_sub_eq) auto
    moreover have "ok (get_element_from_full_path (pv_relative p) (k - length cs)) (\<lambda>e. sv_rep e (ds ! (k - length cs)))"
      using assms(1) False k by (intro get_element_law [of _ _ False]) (auto simp: pv_rep_def)
    ultimately show ?thesis using False n(2) assms(1) by (simp add: pv_rep_def nth_append)
  qed
  then show ?thesis using assms(2,3) n(2) unfolding k_def [symmetric] pv_index_def Let_def n(1) idx oi by simp
qed

lemma pv_under_law:
  assumes "path_ok cs" "path_ok ds" "hd ds \<noteq> []" "sv_rep wd (path_text True cs)" "sv_rep rl (path_text False ds)"
    "length cs + length ds < sz_range div 2"
  shows "ok (pv_under wd rl) (\<lambda>p. pv_rep p cs ds \<and> pv_absolute p = wd \<and> pv_relative p = rl)"
  using count_elements_law [OF assms(1,4)] count_elements_law [OF assms(2,5)] get_type_law [OF assms(1,4)]
    get_type_law [OF assms(2,5)] assms
  by (auto simp: pv_under_def pv_rep_def run_simps)

lemma str_from_view_law: "sv_rep v hs \<Longrightarrow> ok (str_from_view v) (\<lambda>s. str_rep s hs)"
  using from_range_law [of "sv_data v" hs]
  by (auto simp: str_from_view_def str_from_range_def sv_rep_def run_simps str_rep_def ok_iff)

lemma str_append_law:
  assumes "str_rep s xs" "str_rep t ys" "length xs + length ys + 1 < sz_range"
  shows "ok (str_append s t) (\<lambda>s'. str_rep s' (xs @ ys))"
proof -
  have "reads (str_data t, 0) ys" using reads_take [OF str_rep_reads [OF assms(2)], of "length ys"] by (simp add: c_str_def)
  from insert_bytes_law [OF assms(1) this, of "length xs"] assms show ?thesis
    by (simp add: str_append_def str_insert_def str_rep_def)
qed

lemma full_path_law:
  assumes "path_ok cs" "path_ok ds" "pv_rep p cs ds" "length (join cs) + length (join ds) + 4 < sz_range"
  shows "ok (pv_full_path p) (\<lambda>s. str_rep s (path_text True (cs @ ds)))"
proof -
  have ne: "cs \<noteq> []" "ds \<noteq> []" using assms by (auto simp: path_ok_def)
  have r: "sv_rep (pv_absolute p) (path_text True cs)" "sv_rep (pv_relative p) (path_text False ds)" "pv_relative_count p \<noteq> 0"
    using assms(3) ne by (auto simp: pv_rep_def)
  obtain s0 where s0: "str_from_view (pv_absolute p) = Inr s0" "str_rep s0 (path_text True cs)"
    using str_from_view_law [OF r(1)] by (auto simp: ok_iff)
  obtain t where t: "str_from_view (pv_relative p) = Inr t" "str_rep t (path_text False ds)"
    using str_from_view_law [OF r(2)] by (auto simp: ok_iff)
  have "agrees (str_append_cstr s0 (literal [47])) (Inr (path_text True cs @ [47]))"
    using insert_text_law [OF s0(2), of "[47]" END] assms(4) by (simp add: str_append_cstr_def insert_at_def path_text_def lead_def)
  then obtain s1 where s1: "str_append_cstr s0 (literal [47]) = Inr s1" "str_rep s1 (path_text True cs @ [47])"
    by (auto simp: agrees_def ok_iff)
  have "ok (str_append s1 t) (\<lambda>s'. str_rep s' ((path_text True cs @ [47]) @ path_text False ds))"
    using assms(4) by (intro str_append_law [OF s1(2) t(2)]) (simp add: path_text_def lead_def)
  then show ?thesis using s0(1) s1(1) t(1) r(3) join_append [OF ne]
    by (simp add: pv_full_path_def path_text_def lead_def SPLITER_def)
qed

section \<open>Properties\<close>

text \<open>
  (C30) A path view gives access to exactly the elements of its text: for a working directory and a
  relative path, \<open>operator[]\<close> counts through the elements of both, from the end for negative indices,
  and fails its assertion for every other index.
\<close>

theorem path_elements:
  assumes "path_ok cs" "path_ok ds" "hd ds \<noteq> []" "sv_rep wd (path_text True cs)" "sv_rep rl (path_text False ds)"
    "length cs + length ds < sz_range div 2"
  shows "ok (pv_under wd rl) (\<lambda>p. pv_count p = length (cs @ ds) \<and>
     (\<forall>i. if - int (length (cs @ ds)) \<le> i \<and> i < int (length (cs @ ds))
          then ok (pv_index p i) (\<lambda>e. sv_rep e ((cs @ ds) ! nat (i mod int (length (cs @ ds)))))
          else pv_index p i = Inl AssertFailed))"
proof (rule ok_mono [OF pv_under_law [OF assms]])
  fix p
  assume "pv_rep p cs ds \<and> pv_absolute p = wd \<and> pv_relative p = rl"
  then have r: "pv_rep p cs ds" by simp
  then have n: "pv_count p = length (cs @ ds)" by (simp add: pv_count_def pv_rep_def sz_add_eq)
  have "pv_index p i = Inl AssertFailed" if "\<not> (- int (length (cs @ ds)) \<le> i \<and> i < int (length (cs @ ds)))" for i
  proof -
    have "to_int (pv_count p) = int (length (cs @ ds))" unfolding n using assms(6) by (intro int_conv) simp
    then show ?thesis using that by (cases "i < int (length (cs @ ds))") (simp_all add: pv_index_def)
  qed
  with n pv_index_law [OF r] show "pv_count p = length (cs @ ds) \<and>
     (\<forall>i. if - int (length (cs @ ds)) \<le> i \<and> i < int (length (cs @ ds))
          then ok (pv_index p i) (\<lambda>e. sv_rep e ((cs @ ds) ! nat (i mod int (length (cs @ ds)))))
          else pv_index p i = Inl AssertFailed)" by simp
qed

lemma demo_paths:
  "path_ok [[120]]" "path_ok [[97], [98], [99]]"
  "sv_rep \<lparr>sv_size = 2, sv_data = literal [47, 120]\<rparr> (path_text True [[120]])"
  "sv_rep \<lparr>sv_size = 5, sv_data = literal [97, 47, 98, 47, 99]\<rparr> (path_text False [[97], [98], [99]])"
proof -
  show "path_ok [[120]]" "path_ok [[97], [98], [99]]" by (simp_all add: path_ok_def SPLITER_def)
  show "sv_rep \<lparr>sv_size = 2, sv_data = literal [47, 120]\<rparr> (path_text True [[120]])"
    using reads_literal(2) [of "[47, 120]"] by (simp add: sv_rep_def path_text_def lead_def SPLITER_def) (simp add: literal_def chars_def)
  show "sv_rep \<lparr>sv_size = 5, sv_data = literal [97, 47, 98, 47, 99]\<rparr> (path_text False [[97], [98], [99]])"
    using reads_literal(2) [of "[97, 47, 98, 47, 99]"]
    by (simp add: sv_rep_def path_text_def lead_def SPLITER_def) (simp add: literal_def chars_def)
qed

theorem path_elements_witness:
  "ok (pv_under \<lparr>sv_size = 2, sv_data = literal [47, 120]\<rparr> \<lparr>sv_size = 5, sv_data = literal [97, 47, 98, 47, 99]\<rparr>)
     (\<lambda>p. pv_count p = 4 \<and> ok (pv_index p (- 1)) (\<lambda>e. sv_rep e [99]) \<and> pv_index p 4 = Inl AssertFailed)"
proof -
  have "hd [[97], [98], [99 :: u8]] \<noteq> []" "length [[120 :: u8]] + length [[97], [98], [99 :: u8]] < sz_range div 2" by simp_all
  from path_elements [OF demo_paths(1,2) this(1) demo_paths(3,4) this(2)] show ?thesis
  proof (rule ok_mono, goal_cases)
    case (1 p)
    then show ?case using 1 [THEN conjunct2, THEN spec, of "- 1"] 1 [THEN conjunct2, THEN spec, of 4] by simp
  qed
qed

text \<open>
  Parsing what \<open>full_path\<close> prints gives back the same elements, all of them absolute.
\<close>

theorem path_full_path_roundtrip:
  assumes "path_ok cs" "path_ok ds" "hd ds \<noteq> []" "sv_rep wd (path_text True cs)" "sv_rep rl (path_text False ds)"
    "length (join cs) + length (join ds) + 4 < sz_range div 2"
  shows "ok (pv_under wd rl) (\<lambda>p. ok (pv_full_path p) (\<lambda>s. str_rep s (path_text True (cs @ ds)) \<and>
     ok (pv_of_string s) (\<lambda>q. pv_rep q (cs @ ds) [])))"
proof -
  have ne: "cs \<noteq> []" "ds \<noteq> []" using assms by (auto simp: path_ok_def)
  have all: "path_ok (cs @ ds)" using assms join_append [OF ne] by (auto simp: path_ok_def)
  have n: "length cs + length ds < sz_range div 2" using assms(6) join_length [of cs] join_length [of ds] by simp
  have q: "ok (pv_of_string s) (\<lambda>q. pv_rep q (cs @ ds) [])" if "str_rep s (path_text True (cs @ ds))" for s
    unfolding pv_of_string_def by (rule ok_mono [OF pv_new_law [OF all str_rep_view [OF that]]]) simp_all
  show ?thesis
  proof (rule ok_mono [OF pv_under_law [OF assms(1-5) n]])
    fix p
    assume "pv_rep p cs ds \<and> pv_absolute p = wd \<and> pv_relative p = rl"
    then have "ok (pv_full_path p) (\<lambda>s. str_rep s (path_text True (cs @ ds)))" using assms by (intro full_path_law) auto
    then show "ok (pv_full_path p) (\<lambda>s. str_rep s (path_text True (cs @ ds)) \<and> ok (pv_of_string s) (\<lambda>q. pv_rep q (cs @ ds) []))"
      by (rule ok_mono) (simp add: q)
  qed
qed

theorem path_full_path_roundtrip_witness:
  "ok (pv_under \<lparr>sv_size = 2, sv_data = literal [47, 120]\<rparr> \<lparr>sv_size = 5, sv_data = literal [97, 47, 98, 47, 99]\<rparr>)
     (\<lambda>p. ok (pv_full_path p) (\<lambda>s. str_rep s [47, 120, 47, 97, 47, 98, 47, 99]))"
  by (rule ok_mono [OF path_full_path_roundtrip [OF demo_paths(1,2) _ demo_paths(3,4)]])
    (auto simp: path_text_def lead_def SPLITER_def elim!: ok_mono)

text \<open>
  \<open>sub_relative_path\<close> looks for the start of the first element in the absolute path instead of the
  relative one: a sub path that starts with the second relative element starts at its second byte
  of the relative text, which is not the text of the elements asked for.
\<close>

theorem sub_path_seeks_wrong_part:
  assumes "pv_rep p cs ds" "cs \<noteq> []" "2 \<le> length ds"
  shows "ok (sub_relative_path p (length cs + 1) (length cs + length ds - 1))
     (\<lambda>v. sv_rep v (drop 1 (join ds)) \<and> drop 1 (join ds) \<noteq> join (tl ds))"
proof -
  have a: "path_ok cs" "sv_rep (pv_absolute p) (path_text True cs)" and d: "path_ok ds" "hd ds \<noteq> []" "sv_rep (pv_relative p) (join ds)"
    and n: "pv_absolute_count p = length cs" "pv_relative_count p = length ds" "length cs + length ds < sz_range div 2"
    using assms by (auto simp: pv_rep_def path_text_def lead_def)
  have "sv_find_char (pv_absolute p) SPLITER (length ([] :: u8 list)) = Inr (length ([] :: u8 list) + length ([] :: u8 list))"
    using find_char_law [of "pv_absolute p" "[]" "[]" "SPLITER # join cs"] a
    by (simp add: path_text_def lead_def path_ok_def)
  then have s: "seek (Suc 0) (pv_absolute p) 0 = Inr 1" by (simp add: of_int32_def sz_add_def)
  obtain c e es where ds: "ds = c # e # es" using assms(3) by (cases ds; cases "tl ds") auto
  have l: "length (join ds) = length c + 1 + length (join (tl ds))" "length (join ds) < sz_range div 2"
    using d(1) ds by (simp_all add: path_ok_def)
  have i: "sz_sub (length cs + 1) (length cs) = Suc 0" "sz_sub (length cs + length ds - 1) (length cs) = length ds - 1"
    "sz_sub (length ds) 1 = length ds - 1" using n(3) assms(3) by (simp_all add: sz_sub_eq)
  have "reads (advance (sv_data (pv_relative p)) 1) (drop 1 (join ds))" using d(3) by (intro reads_advance) (simp add: sv_rep_def)
  moreover have "sv_size (pv_relative p) = length (join ds)" "fst (sv_data (pv_relative p)) \<noteq> None" using d(3) by (simp_all add: sv_rep_def)
  moreover have "sz_sub (length (join ds)) 1 = length (join ds) - 1" "sz_add 1 (length (join ds) - 1) = length (join ds)"
    "length (join ds) - 1 \<noteq> END" using l by (simp_all add: sz_sub_eq sz_add_eq END_eq)
  ultimately have "ok (sv_substr (pv_relative p) 1 END) (\<lambda>v. sv_rep v (drop 1 (join ds)))"
    using l by (auto simp: sv_substr_def sv_of_range_def sv_rep_def END_eq run_simps advance_def)
  moreover have "0 < length c" using d(2) ds by simp
  then have "length (drop 1 (join ds)) \<noteq> length (join (tl ds))" unfolding length_drop l(1) by linarith
  then have "drop 1 (join ds) \<noteq> join (tl ds)" by metis
  moreover have "\<not> length cs + length ds - 1 < length cs" "\<not> length cs + 1 < length cs" using assms(3) by auto
  ultimately show ?thesis using n s i unfolding sub_relative_path_def Let_def
    by (simp only: n i if_False bindr.simps s) (simp add: of_int32_def)
qed

theorem sub_path_seeks_wrong_part_witness:
  "ok (bindr (pv_under \<lparr>sv_size = 2, sv_data = literal [47, 120]\<rparr> \<lparr>sv_size = 5, sv_data = literal [97, 47, 98, 47, 99]\<rparr>)
      (\<lambda>p. sub_relative_path p 2 3)) (\<lambda>v. sv_rep v [47, 98, 47, 99])"
proof -
  have "hd [[97], [98], [99 :: u8]] \<noteq> []" "length [[120 :: u8]] + length [[97], [98], [99 :: u8]] < sz_range div 2" by simp_all
  from pv_under_law [OF demo_paths(1,2) this(1) demo_paths(3,4) this(2)] show ?thesis
    unfolding ok_bindr
  proof (rule ok_mono, goal_cases)
    case (1 p)
    then have r: "pv_rep p [[120]] [[97], [98], [99]]" by simp
    show ?case using sub_path_seeks_wrong_part [OF r] by (simp add: SPLITER_def numeral_2_eq_2 numeral_3_eq_3)
  qed
qed

end
