(* ===== verification/Heap_Memory.thy ===== *)
theory Heap_Memory
  imports Bitmaps
begin

text \<open>
  The kernel heap: the slab allocator (slab_allocator.h) and \<open>Heap::kmalloc\<close>, \<open>Heap::kfree\<close>
  (heap.cpp) with their size classes, and the big blocks. Addresses are numbers. The state has the
  slab headers by address, the two words \<open>slab_ptr\<close> and \<open>slab_size\<close> in front of every block, the
  magic words of big blocks, and the results that \<open>valloc\<close> will return, each with the bytes the
  memory held before. \<open>sizeof\<close> is computed as the i686 ABI lays the structures out, the spinlock in
  front of the slab header included.
\<close>

section \<open>Layout\<close>

definition MAGIC :: nat where "MAGIC = 0x8CBEEFC8"

definition SLAB_MEMORY :: nat where "SLAB_MEMORY = 4096"

definition align4 :: "nat \<Rightarrow> nat" where "align4 n = 4 * ((n + 3) div 4)"

text \<open>\<open>sizeof(SlabHeader<n>)\<close>, \<open>sizeof(MemoryBlock<s>)\<close> and \<open>MAX_BLOCKS\<close> of a slab for blocks of s bytes.\<close>

definition header_size :: "nat \<Rightarrow> nat" where "header_size n = align4 (24 + (n div 8 + 1))"

definition block_stride :: "nat \<Rightarrow> nat" where "block_stride s = s + 8"

definition MAX_BLOCKS :: "nat \<Rightarrow> nat" where
  "MAX_BLOCKS s = (SLAB_MEMORY - header_size (SLAB_MEMORY div s)) div block_stride s"

definition blocks_offset :: "nat \<Rightarrow> nat" where "blocks_offset s = 8 + header_size (MAX_BLOCKS s)"

definition block_at :: "nat \<Rightarrow> nat \<Rightarrow> nat \<Rightarrow> nat" where
  "block_at s slab i = slab + blocks_offset s + i * block_stride s"

definition block_data :: "nat \<Rightarrow> nat \<Rightarrow> nat \<Rightarrow> nat" where
  "block_data s slab i = block_at s slab i + 8"

section \<open>State\<close>

record slab =
  sl_magic :: nat
  sl_size :: nat
  sl_free_blocks :: size_t
  sl_next_fit_block :: size_t
  sl_prev :: nat
  sl_next :: nat
  sl_mem_map :: static_bitmap

record heap_mem =
  hm_slabs :: "nat \<Rightarrow> slab option"
  hm_tags :: "nat \<Rightarrow> (nat \<times> nat) option"
  hm_big :: "nat \<Rightarrow> nat option"
  hm_static :: "nat \<Rightarrow> nat"
  hm_pages :: "(nat \<times> (nat \<Rightarrow> u8)) list"

definition get_slab :: "heap_mem \<Rightarrow> nat \<Rightarrow> slab run" where
  "get_slab h a = (case hm_slabs h a of None \<Rightarrow> Inl BadAccess | Some sl \<Rightarrow> Inr sl)"

definition put_slab :: "heap_mem \<Rightarrow> nat \<Rightarrow> slab \<Rightarrow> heap_mem" where
  "put_slab h a sl = h\<lparr>hm_slabs := (hm_slabs h)(a \<mapsto> sl)\<rparr>"

section \<open>Slabs\<close>

definition request_memory_from_os :: "heap_mem \<Rightarrow> (nat \<times> (nat \<Rightarrow> u8)) \<times> heap_mem" where
  "request_memory_from_os h = (case hm_pages h of [] \<Rightarrow> ((0, \<lambda>_. 0), h) | p # ps \<Rightarrow> (p, h\<lparr>hm_pages := ps\<rparr>))"

text \<open>\<open>init\<close> does not touch the bitmap: it keeps the bytes m.\<close>

definition slab_init :: "nat \<Rightarrow> nat \<Rightarrow> static_bitmap \<Rightarrow> slab" where
  "slab_init s prev m = \<lparr>sl_magic = MAGIC, sl_size = s, sl_free_blocks = MAX_BLOCKS s, sl_next_fit_block = 0,
     sl_prev = prev, sl_next = 0, sl_mem_map = m\<rparr>"

definition alloc_in_current_slab :: "nat \<Rightarrow> nat \<Rightarrow> size_t \<Rightarrow> heap_mem \<Rightarrow> (nat \<times> heap_mem) run" where
  "alloc_in_current_slab s a block_index h = bindr (get_slab h a) (\<lambda>sl.
     bindr (sbm_set (MAX_BLOCKS s) (sl_mem_map sl) block_index) (\<lambda>m.
     bindr (sz_mod (sz_add block_index 1) (MAX_BLOCKS s)) (\<lambda>next_fit.
     let h1 = put_slab h a (sl\<lparr>sl_mem_map := m, sl_next_fit_block := next_fit, sl_free_blocks := sz_sub (sl_free_blocks sl) 1\<rparr>)
     in Inr (block_data s a block_index, h1\<lparr>hm_tags := (hm_tags h1)(block_at s a block_index \<mapsto> (a, s))\<rparr>))))"

definition alloc_in_new_slab :: "(nat \<Rightarrow> heap_mem \<Rightarrow> (nat \<times> heap_mem) run) \<Rightarrow> nat \<Rightarrow> nat \<Rightarrow> heap_mem \<Rightarrow> (nat \<times> heap_mem) run" where
  "alloc_in_new_slab alloc s a h = (let ((new_slab, old), h1) = request_memory_from_os h in
     if new_slab = 0 then Inr (0, h1)
     else let h2 = put_slab h1 new_slab (slab_init s a (map old [0..<MAX_BLOCKS s div 8 + 1])) in
       bindr (get_slab h2 a) (\<lambda>sl. alloc new_slab (put_slab h2 a (sl\<lparr>sl_next := new_slab\<rparr>))))"

fun slab_alloc :: "nat \<Rightarrow> nat \<Rightarrow> nat \<Rightarrow> heap_mem \<Rightarrow> (nat \<times> heap_mem) run" where
  "slab_alloc fuel s a h = bindr (get_slab h a) (\<lambda>sl.
     assert_then (sl_magic sl = MAGIC) (assert_then (sl_size sl = s)
       (bindr (if sl_free_blocks sl \<noteq> 0 then sbm_find_first_clear (MAX_BLOCKS s) (sl_mem_map sl) (sl_next_fit_block sl)
               else Inr BITMAP_NO_BITS_LEFT) (\<lambda>block_index.
        if sl_free_blocks sl \<noteq> 0 \<and> block_index \<noteq> BITMAP_NO_BITS_LEFT then alloc_in_current_slab s a block_index h
        else case fuel of 0 \<Rightarrow> Inl OutOfFuel
          | Suc f \<Rightarrow> if sl_next sl \<noteq> 0 then slab_alloc f s (sl_next sl) h
                     else alloc_in_new_slab (slab_alloc f s) s a h))))"

definition is_address_in_slab :: "nat \<Rightarrow> nat \<Rightarrow> nat \<Rightarrow> bool" where
  "is_address_in_slab s a address = (address \<ge> block_at s a 0 \<and> address \<le> block_data s a (MAX_BLOCKS s - 1) + (s - 1))"

definition free_from_current_slab :: "nat \<Rightarrow> nat \<Rightarrow> size_t \<Rightarrow> heap_mem \<Rightarrow> heap_mem run" where
  "free_from_current_slab s a block_index h = bindr (get_slab h a) (\<lambda>sl.
     bindr (sbm_clear (MAX_BLOCKS s) (sl_mem_map sl) block_index) (\<lambda>m.
     let sl' = sl\<lparr>sl_mem_map := m, sl_next_fit_block := block_index, sl_free_blocks := sz_add (sl_free_blocks sl) 1\<rparr>;
         h1 = put_slab h a sl' in
     if sl_free_blocks sl' = 0 \<and> sl_prev sl' \<noteq> 0 then
       bindr (get_slab h1 (sl_prev sl')) (\<lambda>p. let h2 = put_slab h1 (sl_prev sl') (p\<lparr>sl_next := 0\<rparr>) in
         Inr (h2\<lparr>hm_slabs := (hm_slabs h2)(a := None)\<rparr>))
     else Inr h1))"

definition slab_free :: "nat \<Rightarrow> nat \<Rightarrow> nat \<Rightarrow> heap_mem \<Rightarrow> heap_mem run" where
  "slab_free s a address h = bindr (get_slab h a) (\<lambda>sl.
     assert_then (sl_magic sl = MAGIC) (assert_then (sl_size sl = s) (assert_then (is_address_in_slab s a address)
       (let block_index = (address - block_at s a 0) div block_stride s in
        bindr (sbm_check_set (sl_mem_map sl) block_index) (\<lambda>b. assert_then b (free_from_current_slab s a block_index h))))))"

section \<open>Big blocks and the heap\<close>

definition BIG_SLAB_SIZE :: nat where "BIG_SLAB_SIZE = 16"

definition big_alloc :: "size_t \<Rightarrow> heap_mem \<Rightarrow> (nat \<times> heap_mem) run" where
  "big_alloc size0 h = (let ((mem_block, old), h1) = request_memory_from_os h in
     if mem_block = 0 then Inl BadAccess
     else Inr (mem_block + 12, h1\<lparr>hm_tags := (hm_tags h1)(mem_block + 4 \<mapsto> (mem_block, sz_add size0 BIG_SLAB_SIZE)),
       hm_big := (hm_big h1)(mem_block \<mapsto> MAGIC)\<rparr>))"

definition big_free :: "nat \<Rightarrow> heap_mem \<Rightarrow> heap_mem run" where
  "big_free a h = (case hm_big h a of None \<Rightarrow> Inl BadAccess
     | Some magic \<Rightarrow> assert_then (magic = MAGIC) (Inr (h\<lparr>hm_big := (hm_big h)(a := None)\<rparr>)))"

text \<open>The class of a request, and the five classes.\<close>

definition size_classes :: "nat list" where "size_classes = [0x10, 0x20, 0x40, 0x80, 0x100]"

definition heap_setup :: "heap_mem \<Rightarrow> heap_mem run" where
  "heap_setup h = run_fold (\<lambda>s h. bindr (get_slab h (hm_static h s)) (\<lambda>sl.
     Inr (put_slab h (hm_static h s) (slab_init s 0 (sl_mem_map sl))))) size_classes h"

definition kmalloc :: "nat \<Rightarrow> size_t \<Rightarrow> heap_mem \<Rightarrow> (nat \<times> heap_mem) run" where
  "kmalloc fuel size0 h =
     (if size0 = 0 then Inr (0, h)
      else if size0 \<le> 0x10 then slab_alloc fuel 0x10 (hm_static h 0x10) h
      else if size0 \<le> 0x20 then slab_alloc fuel 0x20 (hm_static h 0x20) h
      else if size0 \<le> 0x40 then slab_alloc fuel 0x40 (hm_static h 0x40) h
      else if size0 \<le> 0x80 then slab_alloc fuel 0x80 (hm_static h 0x80) h
      else if size0 \<le> 0x100 then slab_alloc fuel 0x100 (hm_static h 0x100) h
      else big_alloc size0 h)"

definition kfree :: "nat \<Rightarrow> heap_mem \<Rightarrow> heap_mem run" where
  "kfree address h =
     (if address = 0 then Inr h
      else let block = sz_sub address 8 in
        assert_then (block \<noteq> 0) (case hm_tags h block of None \<Rightarrow> Inl BadAccess
          | Some (slab_ptr, slab_size) \<Rightarrow> assert_then (slab_ptr \<noteq> 0)
              (if slab_size \<in> set size_classes then slab_free slab_size slab_ptr address h
               else big_free slab_ptr h)))"

declare slab_alloc.simps [simp del]

section \<open>The bitmap of a slab\<close>

lemma bit_at_bm: "bm_used (as_bitmap n d) p = bit_at d p"
  by (simp add: bm_used_def as_bitmap_def)

lemma bm_wf_map: "bm_wf (as_bitmap n d) \<longleftrightarrow> length d = n div 8 + 1 \<and> n + 8 \<le> sz_range"
  by (simp add: bm_wf_def as_bitmap_def)

lemma as_bitmap_data: "bm_m_bitmap_data (as_bitmap n d) = d" "bm_m_bitmap_size (as_bitmap n d) = n"
  by (simp_all add: as_bitmap_def)

lemma sbm_set_law:
  assumes "length d = n div 8 + 1" "n + 8 \<le> sz_range" "p \<le> n"
  shows "\<exists>d'. sbm_set n d p = Inr d' \<and> length d' = length d \<and> (\<forall>q. bit_at d' q \<longleftrightarrow> bit_at d q \<or> q = p)"
proof -
  have "ok (bm_set (as_bitmap n d) p) (\<lambda>b'. bm_wf b' \<and> bm_m_bitmap_size b' = n \<and> (\<forall>q. bm_used b' q \<longleftrightarrow> bit_at d q \<or> q = p))"
    using bm_set_law [of "as_bitmap n d" p] assms by (simp add: bm_wf_map as_bitmap_data bit_at_bm)
  then show ?thesis
    using assms sbm_eq_bm(2) [of n d p 1]
    by (auto simp: bm_set_def sbm_set_def run_simps ok_iff bindr_eq_Inr bm_wf_map as_bitmap_data bit_at_bm simp flip: sbm_eq_bm(2))
qed

lemma sbm_clear_law:
  assumes "length d = n div 8 + 1" "n + 8 \<le> sz_range" "p \<le> n"
  shows "\<exists>d'. sbm_clear n d p = Inr d' \<and> length d' = length d \<and> (\<forall>q. bit_at d' q \<longleftrightarrow> bit_at d q \<and> q \<noteq> p)"
proof -
  have "ok (bm_clear (as_bitmap n d) p) (\<lambda>b'. bm_wf b' \<and> bm_m_bitmap_size b' = n \<and> (\<forall>q. bm_used b' q \<longleftrightarrow> bit_at d q \<and> q \<noteq> p))"
    using bm_clear_law [of "as_bitmap n d" p] assms by (simp add: bm_wf_map as_bitmap_data bit_at_bm)
  then show ?thesis
    using assms sbm_eq_bm(3) [of n d p 1]
    by (auto simp: bm_clear_def sbm_clear_def run_simps ok_iff bindr_eq_Inr bm_wf_map as_bitmap_data bit_at_bm simp flip: sbm_eq_bm(3))
qed

lemma sbm_find_law:
  assumes "length d = n div 8 + 1" "n + 8 \<le> sz_range"
  shows "\<exists>p. sbm_find_first_clear n d start = Inr p \<and> (p = BITMAP_NO_BITS_LEFT \<or> p < n \<and> \<not> bit_at d p)"
proof -
  have "bm_wf (as_bitmap n d)" using assms by (simp add: bm_wf_map)
  then have "n < 8 * length d" using bm_size_bytes [of "as_bitmap n d"] by (simp add: as_bitmap_data)
  then have "ok (find_range_loop 0xFF hit_clear d n 1 n start 1)
     (\<lambda>p. p = BITMAP_NO_BITS_LEFT \<or> start \<le> p \<and> p < n \<and> hit_clear (d ! (p div 8)) (p mod 8))"
    using assms(2) by (intro find_range_loop_single_sound) simp_all
  then show ?thesis by (auto simp: sbm_find_first_clear_def sbm_find_first_clear_range_def ok_iff hit_clear_bit)
qed

lemma sbm_find_zero: "0 < n \<Longrightarrow> n + 8 \<le> sz_range \<Longrightarrow> sbm_find_first_clear n (replicate (n div 8 + 1) 0) 0 = Inr 0"
proof -
  assume n: "0 < n" "n + 8 \<le> sz_range"
  have wf: "bm_wf (as_bitmap n (replicate (n div 8 + 1) 0))" using n by (simp add: bm_wf_map)
  have "bit_at (replicate (n div 8 + 1) 0) 0 = False" by (simp add: bit_at_def)
  then show ?thesis using bm_find_first_clear_law [OF wf] n
    by (auto simp: ok_iff bit_at_bm as_bitmap_data sbm_find_first_clear_def sbm_eq_bm(4) bm_find_first_clear_def)
qed

lemma sbm_check_law: "p div 8 < length d \<Longrightarrow> sbm_check_set d p = Inr (bit_at d p)"
  by (simp add: sbm_check_set_def arr_get_def CHECK_BIT_0 bit_at_def)

section \<open>Layout of a slab\<close>

lemma class_fits:
  assumes "s \<in> set size_classes"
  shows "0 < MAX_BLOCKS s" "MAX_BLOCKS s \<le> 168" "blocks_offset s + MAX_BLOCKS s * block_stride s \<le> 4096" "16 \<le> s" "s \<le> 256"
  using assms by (auto simp: size_classes_def MAX_BLOCKS_def blocks_offset_def header_size_def align4_def block_stride_def SLAB_MEMORY_def)

lemma block_inside:
  assumes "s \<in> set size_classes" "i < MAX_BLOCKS s"
  shows "a \<le> block_at s a i" "block_at s a i + block_stride s \<le> a + 4096"
proof -
  have "i * block_stride s + block_stride s \<le> MAX_BLOCKS s * block_stride s"
    using assms(2) by (metis Suc_leI add.commute mult_Suc mult_le_mono1)
  then show "block_at s a i + block_stride s \<le> a + 4096" using class_fits(3) [OF assms(1)] by (simp add: block_at_def)
  show "a \<le> block_at s a i" by (simp add: block_at_def)
qed

lemma block_order: "i < j \<Longrightarrow> block_at s a i + block_stride s \<le> block_at s a j"
proof -
  assume "i < j"
  then have "Suc i * block_stride s \<le> j * block_stride s" by (intro mult_le_mono1) simp
  then show ?thesis by (simp add: block_at_def)
qed

lemma block_index: "0 < s \<Longrightarrow> (block_data s a i - block_at s a 0) div block_stride s = i"
proof -
  assume "0 < s"
  moreover have "block_data s a i - block_at s a 0 = i * block_stride s + 8" by (simp add: block_data_def block_at_def)
  ultimately show ?thesis by (simp add: block_stride_def)
qed

section \<open>The invariant\<close>

definition slab_ok :: "slab \<Rightarrow> bool" where
  "slab_ok sl = (sl_size sl \<in> set size_classes \<and> sl_magic sl = MAGIC \<and>
     length (sl_mem_map sl) = MAX_BLOCKS (sl_size sl) div 8 + 1 \<and> sl_next_fit_block sl < MAX_BLOCKS (sl_size sl) \<and>
     sl_free_blocks sl = card {i. i < MAX_BLOCKS (sl_size sl) \<and> \<not> bit_at (sl_mem_map sl) i})"

text \<open>A block in use, and the address range of every slab and of every big block.\<close>

definition used_block :: "heap_mem \<Rightarrow> nat \<Rightarrow> nat \<Rightarrow> nat \<Rightarrow> bool" where
  "used_block h s a i = (\<exists>sl. hm_slabs h a = Some sl \<and> sl_size sl = s \<and> i < MAX_BLOCKS s \<and> bit_at (sl_mem_map sl) i)"

definition big_block :: "heap_mem \<Rightarrow> nat \<Rightarrow> nat \<Rightarrow> bool" where
  "big_block h a len = (hm_big h a = Some MAGIC \<and> hm_tags h (a + 4) = Some (a, len))"

definition extents :: "heap_mem \<Rightarrow> (nat \<times> nat) set" where
  "extents h = {(a, 4096) |a. hm_slabs h a \<noteq> None} \<union> {(a, len). big_block h a len}"

definition apart :: "nat \<times> nat \<Rightarrow> nat \<times> nat \<Rightarrow> bool" where
  "apart e f = (fst e + snd e \<le> fst f \<or> fst f + snd f \<le> fst e)"

definition heap_inv :: "heap_mem \<Rightarrow> bool" where
  "heap_inv h = (
     (\<forall>a sl. hm_slabs h a = Some sl \<longrightarrow> slab_ok sl \<and> a \<noteq> 0 \<and> hm_big h a = None \<and> a + 4096 < sz_range \<and>
        (sl_next sl \<noteq> 0 \<longrightarrow> (\<exists>sl'. hm_slabs h (sl_next sl) = Some sl' \<and> sl_size sl' = sl_size sl))) \<and>
     (\<forall>a m. hm_big h a = Some m \<longrightarrow> a \<noteq> 0 \<and> (\<exists>len. big_block h a len \<and> 0x110 < len \<and> a + len < sz_range)) \<and>
     (\<forall>e\<in>extents h. \<forall>f\<in>extents h. e \<noteq> f \<longrightarrow> apart e f) \<and>
     (\<forall>s\<in>set size_classes. \<exists>sl. hm_slabs h (hm_static h s) = Some sl \<and> sl_size sl = s) \<and>
     (\<forall>s a i. used_block h s a i \<longrightarrow> hm_tags h (block_at s a i) = Some (a, s)))"

text \<open>The chains of slabs end: a rank that decreases along \<open>next\<close>.\<close>

definition ranked :: "heap_mem \<Rightarrow> (nat \<Rightarrow> nat) \<Rightarrow> bool" where
  "ranked h r = (\<forall>a sl. hm_slabs h a = Some sl \<and> sl_next sl \<noteq> 0 \<longrightarrow> r (sl_next sl) < r a)"

text \<open>The memory handed out to callers, as address and length.\<close>

definition live :: "heap_mem \<Rightarrow> (nat \<times> nat) set" where
  "live h = {(block_data s a i, s) |s a i. used_block h s a i} \<union> {(a + 12, len - 16) |a len. big_block h a len}"

lemma heap_slab:
  assumes "heap_inv h" "hm_slabs h a = Some sl"
  shows "slab_ok sl" "a \<noteq> 0" "a + 4096 < sz_range" "sl_next sl \<noteq> 0 \<Longrightarrow> \<exists>sl'. hm_slabs h (sl_next sl) = Some sl' \<and> sl_size sl' = sl_size sl"
    "(a, 4096) \<in> extents h" "hm_big h a = None"
  using assms by (auto simp: heap_inv_def extents_def)

lemma heap_big:
  assumes "heap_inv h" "big_block h a len"
  shows "a \<noteq> 0" "0x110 < len" "a + len < sz_range" "(a, len) \<in> extents h"
proof -
  have m: "hm_big h a = Some MAGIC" using assms(2) by (simp add: big_block_def)
  then obtain len' where l: "big_block h a len'" "0x110 < len'" "a + len' < sz_range" and "a \<noteq> 0"
    using assms(1) unfolding heap_inv_def by blast
  moreover have "len' = len" using l(1) assms(2) by (simp add: big_block_def)
  ultimately show "a \<noteq> 0" "0x110 < len" "a + len < sz_range" by simp_all
  show "(a, len) \<in> extents h" using assms(2) by (simp add: extents_def)
qed

lemma heap_apart: "heap_inv h \<Longrightarrow> e \<in> extents h \<Longrightarrow> f \<in> extents h \<Longrightarrow> e \<noteq> f \<Longrightarrow> apart e f"
  by (simp add: heap_inv_def)

lemma heap_tag: "heap_inv h \<Longrightarrow> used_block h s a i \<Longrightarrow> hm_tags h (block_at s a i) = Some (a, s)"
  by (simp add: heap_inv_def)

lemma used_block_slab:
  assumes "heap_inv h" "used_block h s a i"
  obtains sl where "hm_slabs h a = Some sl" "sl_size sl = s" "s \<in> set size_classes" "i < MAX_BLOCKS s" "bit_at (sl_mem_map sl) i"
  using assms heap_slab(1) by (fastforce simp: used_block_def slab_ok_def)

text \<open>Every live region lies in its extent, and no two live regions overlap.\<close>

lemma live_small:
  assumes "heap_inv h" "used_block h s a i"
  shows "a \<le> block_data s a i" "block_data s a i + s \<le> a + 4096" "(a, 4096) \<in> extents h"
proof -
  obtain sl where sl: "hm_slabs h a = Some sl" "s \<in> set size_classes" "i < MAX_BLOCKS s" using used_block_slab [OF assms] by blast
  show "a \<le> block_data s a i" "block_data s a i + s \<le> a + 4096"
    using block_inside [OF sl(2,3), of a] by (simp_all add: block_data_def block_stride_def)
  show "(a, 4096) \<in> extents h" by (rule heap_slab(5) [OF assms(1) sl(1)])
qed

lemma live_cases:
  assumes "(p, n) \<in> live h"
  obtains (small) s a i where "p = block_data s a i" "n = s" "used_block h s a i"
    | (big) a len where "p = a + 12" "n = len - 16" "big_block h a len"
  using assms by (auto simp: live_def)

lemma live_extent:
  assumes "heap_inv h" "(p, n) \<in> live h"
  obtains e where "e \<in> extents h" "fst e \<le> p" "p + n \<le> fst e + snd e"
  using assms(2)
proof (cases rule: live_cases)
  case (small s a i)
  show thesis by (rule that [of "(a, 4096)"]) (use live_small [OF assms(1) small(3)] small in simp_all)
next
  case (big a len)
  show thesis by (rule that [of "(a, len)"]) (use heap_big [OF assms(1) big(3)] big in simp_all)
qed

lemma heap_inv_big: "heap_inv h \<Longrightarrow> hm_big h a = Some m \<Longrightarrow> \<exists>len. big_block h a len"
  unfolding heap_inv_def by blast

lemma heap_invI:
  assumes "\<And>a sl. hm_slabs h a = Some sl \<Longrightarrow> slab_ok sl \<and> a \<noteq> 0 \<and> hm_big h a = None \<and> a + 4096 < sz_range \<and>
        (sl_next sl \<noteq> 0 \<longrightarrow> (\<exists>sl'. hm_slabs h (sl_next sl) = Some sl' \<and> sl_size sl' = sl_size sl))"
    and "\<And>a m. hm_big h a = Some m \<Longrightarrow> a \<noteq> 0 \<and> (\<exists>len. big_block h a len \<and> 0x110 < len \<and> a + len < sz_range)"
    and "\<And>e f. e \<in> extents h \<Longrightarrow> f \<in> extents h \<Longrightarrow> e \<noteq> f \<Longrightarrow> apart e f"
    and "\<And>s. s \<in> set size_classes \<Longrightarrow> \<exists>sl. hm_slabs h (hm_static h s) = Some sl \<and> sl_size sl = s"
    and "\<And>s a i. used_block h s a i \<Longrightarrow> hm_tags h (block_at s a i) = Some (a, s)"
  shows "heap_inv h"
  using assms unfolding heap_inv_def by blast

text \<open>The tag of a block is in no other block and in no big block.\<close>

lemma tag_of_big:
  assumes "heap_inv h" "hm_slabs h a = Some sl" "i < MAX_BLOCKS (sl_size sl)" "big_block h b len"
  shows "b + 4 \<noteq> block_at (sl_size sl) a i"
proof -
  have "sl_size sl \<in> set size_classes" using heap_slab(1) [OF assms(1,2)] by (simp add: slab_ok_def)
  note blk = block_inside [OF this assms(3), of a]
  have "(b, len) \<noteq> (a, 4096) \<Longrightarrow> apart (b, len) (a, 4096)"
    using heap_apart [OF assms(1) heap_big(4) [OF assms(1,4)] heap_slab(5) [OF assms(1,2)]] by blast
  moreover have "4 + block_stride (sl_size sl) \<le> 4096" "0x110 < len" "8 \<le> blocks_offset (sl_size sl)"
    using blk heap_big(2) [OF assms(1,4)] by (simp_all add: block_at_def blocks_offset_def header_size_def align4_def)
  ultimately show ?thesis using blk by (cases "(b, len) = (a, 4096)") (auto simp: apart_def block_at_def block_stride_def)
qed

lemma tag_of_block:
  assumes "heap_inv h" "hm_slabs h a = Some sl" "i < MAX_BLOCKS (sl_size sl)" "used_block h s b j" "(b, j) \<noteq> (a, i)"
  shows "block_at s b j \<noteq> block_at (sl_size sl) a i"
proof -
  have c: "sl_size sl \<in> set size_classes" using heap_slab(1) [OF assms(1,2)] by (simp add: slab_ok_def)
  obtain sl' where sl': "hm_slabs h b = Some sl'" "sl_size sl' = s" "s \<in> set size_classes" "j < MAX_BLOCKS s"
    using used_block_slab [OF assms(1,4)] by blast
  show ?thesis
  proof (cases "b = a")
    case True
    then have "s = sl_size sl" "j \<noteq> i" using sl' assms(2,5) by auto
    then show ?thesis using True block_order [of i j s a] block_order [of j i s a] class_fits(4) [OF c]
      by (cases "i < j") (auto simp: block_stride_def)
  next
    case False
    then have "apart (b, 4096) (a, 4096)"
      using heap_apart [OF assms(1) heap_slab(5) [OF assms(1) sl'(1)] heap_slab(5) [OF assms(1,2)]] by simp
    then show ?thesis using block_inside [OF sl'(3,4), of b] block_inside [OF c assms(3), of a] class_fits(4) [OF c] class_fits(4) [OF sl'(3)]
      by (auto simp: apart_def block_stride_def)
  qed
qed

text \<open>Replacing a slab by one of the same class and successor, and writing the tags of its blocks in use.\<close>

lemma update_slab:
  assumes inv: "heap_inv h" and a: "hm_slabs h a = Some sl" and sl': "slab_ok sl'" "sl_size sl' = sl_size sl" "sl_next sl' = sl_next sl"
    and h': "hm_slabs h' = (hm_slabs h)(a \<mapsto> sl')" "hm_big h' = hm_big h" "hm_static h' = hm_static h"
    and tags: "\<And>b len. big_block h b len \<Longrightarrow> hm_tags h' (b + 4) = hm_tags h (b + 4)"
      "\<And>s b i. used_block h' s b i \<Longrightarrow> hm_tags h' (block_at s b i) = Some (b, s)"
  shows "heap_inv h'" "big_block h' = big_block h"
proof -
  show big: "big_block h' = big_block h"
  proof (intro ext)
    fix b len
    show "big_block h' b len = big_block h b len"
    proof (cases "hm_big h b")
      case (Some m)
      then obtain l where "big_block h b l" using heap_inv_big [OF inv] by blast
      from tags(1) [OF this] show ?thesis by (simp add: big_block_def h')
    qed (simp add: big_block_def h')
  qed
  have ext: "extents h' = extents h" using a by (auto simp: extents_def big h')
  show "heap_inv h'"
  proof (rule heap_invI)
    fix b sb
    assume b: "hm_slabs h' b = Some sb"
    then have r: "b \<noteq> a \<Longrightarrow> hm_slabs h b = Some sb" "b = a \<Longrightarrow> sb = sl'" by (auto simp: h')
    then obtain so where so: "hm_slabs h b = Some so" "sl_next so = sl_next sb" "sl_size so = sl_size sb" "slab_ok sb"
      using a sl' heap_slab(1) [OF inv] by (cases "b = a") auto
    then show "slab_ok sb \<and> b \<noteq> 0 \<and> hm_big h' b = None \<and> b + 4096 < sz_range \<and>
        (sl_next sb \<noteq> 0 \<longrightarrow> (\<exists>sl''. hm_slabs h' (sl_next sb) = Some sl'' \<and> sl_size sl'' = sl_size sb))"
      using heap_slab [OF inv so(1)] sl'(2) a by (auto simp: h')
  next
    fix s :: nat
    assume "s \<in> set size_classes"
    then obtain sc where "hm_slabs h (hm_static h s) = Some sc" "sl_size sc = s" using inv unfolding heap_inv_def by blast
    then show "\<exists>sl. hm_slabs h' (hm_static h' s) = Some sl \<and> sl_size sl = s" using a sl'(2) by (auto simp: h')
  next
    fix b m
    assume "hm_big h' b = Some m"
    then show "b \<noteq> 0 \<and> (\<exists>len. big_block h' b len \<and> 0x110 < len \<and> b + len < sz_range)"
      using inv unfolding heap_inv_def big h' by blast
  qed (use heap_apart [OF inv] ext tags(2) in simp_all)
qed

section \<open>Allocation\<close>

lemma free_count:
  assumes "slab_ok sl"
  shows "sl_free_blocks sl \<le> 168" "i < MAX_BLOCKS (sl_size sl) \<Longrightarrow> \<not> bit_at (sl_mem_map sl) i \<Longrightarrow> 0 < sl_free_blocks sl"
proof -
  let ?S = "{i. i < MAX_BLOCKS (sl_size sl) \<and> \<not> bit_at (sl_mem_map sl) i}"
  have fin: "finite ?S" by simp
  have "card ?S \<le> card {i. i < MAX_BLOCKS (sl_size sl)}" by (rule card_mono) auto
  then show "sl_free_blocks sl \<le> 168" using assms class_fits(2) [of "sl_size sl"] by (simp add: slab_ok_def)
  show "i < MAX_BLOCKS (sl_size sl) \<Longrightarrow> \<not> bit_at (sl_mem_map sl) i \<Longrightarrow> 0 < sl_free_blocks sl"
    using assms card_gt_0_iff [of ?S] fin by (auto simp: slab_ok_def)
qed

lemma alloc_current_law:
  assumes inv: "heap_inv h" and a: "hm_slabs h a = Some sl" and i: "i < MAX_BLOCKS (sl_size sl)" "\<not> bit_at (sl_mem_map sl) i"
  shows "\<exists>h'. alloc_in_current_slab (sl_size sl) a i h = Inr (block_data (sl_size sl) a i, h') \<and> heap_inv h' \<and>
     live h' = insert (block_data (sl_size sl) a i, sl_size sl) (live h) \<and> hm_pages h' = hm_pages h \<and>
     (\<forall>s b j. used_block h' s b j \<longleftrightarrow> used_block h s b j \<or> (s, b, j) = (sl_size sl, a, i)) \<and>
     (\<forall>b. map_option sl_next (hm_slabs h' b) = map_option sl_next (hm_slabs h b))"
proof -
  let ?s = "sl_size sl" and ?d = "sl_mem_map sl"
  let ?n = "MAX_BLOCKS ?s"
  have ok: "slab_ok sl" by (rule heap_slab(1) [OF inv a])
  then have c: "?s \<in> set size_classes" "length ?d = ?n div 8 + 1" by (simp_all add: slab_ok_def)
  note fit = class_fits [OF c(1)]
  obtain d where d: "sbm_set ?n ?d i = Inr d" "length d = length ?d" "\<And>q. bit_at d q \<longleftrightarrow> bit_at ?d q \<or> q = i"
    using sbm_set_law [OF c(2), of i] i fit by auto
  define sl' where "sl' = sl\<lparr>sl_mem_map := d, sl_next_fit_block := sz_add i 1 mod ?n, sl_free_blocks := sz_sub (sl_free_blocks sl) 1\<rparr>"
  define h' where "h' = (put_slab h a sl')\<lparr>hm_tags := (hm_tags (put_slab h a sl'))(block_at ?s a i \<mapsto> (a, ?s))\<rparr>"
  have run: "alloc_in_current_slab ?s a i h = Inr (block_data ?s a i, h')"
    using a d(1) fit(1) by (simp add: alloc_in_current_slab_def get_slab_def sz_mod_def h'_def sl'_def Let_def)
  have "{j. j < ?n \<and> \<not> bit_at d j} = {j. j < ?n \<and> \<not> bit_at ?d j} - {i}" using d(3) by auto
  then have "card {j. j < ?n \<and> \<not> bit_at d j} = sl_free_blocks sl - 1" using i ok by (simp add: slab_ok_def)
  moreover have "sz_sub (sl_free_blocks sl) (Suc 0) = sl_free_blocks sl - 1"
    using free_count(1) [OF ok] free_count(2) [OF ok i] by (simp add: sz_sub_eq)
  ultimately have ok': "slab_ok sl'" using ok c d(2) fit(1) by (simp add: slab_ok_def sl'_def)
  have used: "used_block h' s b j \<longleftrightarrow> used_block h s b j \<or> (s, b, j) = (?s, a, i)" for s b j
    using a d(3) i by (auto simp: used_block_def h'_def put_slab_def sl'_def)
  have fresh: "\<not> used_block h s a i" for s using a i by (auto simp: used_block_def)
  have tags: "hm_tags h' = (hm_tags h)(block_at ?s a i \<mapsto> (a, ?s))" by (simp add: h'_def put_slab_def)
  have t1: "hm_tags h' (b + 4) = hm_tags h (b + 4)" if "big_block h b len" for b len
    using tag_of_big [OF inv a i(1) that] by (simp add: tags)
  have t2: "hm_tags h' (block_at s b j) = Some (b, s)" if "used_block h' s b j" for s b j
    using that tag_of_block [OF inv a i(1), of s b j] heap_tag [OF inv, of s b j] fresh [of s] by (auto simp: used tags)
  have "sl_size sl' = ?s" "sl_next sl' = sl_next sl" "hm_slabs h' = (hm_slabs h)(a \<mapsto> sl')" "hm_big h' = hm_big h" "hm_static h' = hm_static h"
    by (simp_all add: sl'_def h'_def put_slab_def)
  note inv' = update_slab [OF inv a ok' this t1 t2]
  have big: "big_block h' b len = big_block h b len" for b len using inv'(2) by simp
  have "live h' = insert (block_data ?s a i, ?s) (live h)" by (auto simp: live_def big used)
  moreover have "map_option sl_next (hm_slabs h' b) = map_option sl_next (hm_slabs h b)" for b using a by (simp add: h'_def put_slab_def sl'_def)
  ultimately show ?thesis using run inv'(1) used by (intro exI [of _ h']) (simp add: h'_def put_slab_def)
qed

lemma address_in_slab:
  assumes "s \<in> set size_classes" "i < MAX_BLOCKS s"
  shows "is_address_in_slab s a (block_data s a i)"
proof -
  have "i = MAX_BLOCKS s - 1 \<or> i < MAX_BLOCKS s - 1" using assms(2) by auto
  then have "block_at s a i \<le> block_at s a (MAX_BLOCKS s - 1)" using block_order [of i "MAX_BLOCKS s - 1" s a] by auto
  moreover have "block_at s a 0 \<le> block_at s a i" by (simp add: block_at_def)
  ultimately show ?thesis using class_fits(4) [OF assms(1)] by (auto simp: is_address_in_slab_def block_data_def)
qed

lemma free_current_law:
  assumes inv: "heap_inv h" and u: "used_block h s a i"
  shows "\<exists>h'. slab_free s a (block_data s a i) h = Inr h' \<and> heap_inv h' \<and>
     (\<forall>t b j. used_block h' t b j \<longleftrightarrow> used_block h t b j \<and> (t, b, j) \<noteq> (s, a, i)) \<and>
     big_block h' = big_block h \<and> hm_pages h' = hm_pages h \<and> hm_tags h' = hm_tags h \<and>
     (\<forall>b. map_option sl_next (hm_slabs h' b) = map_option sl_next (hm_slabs h b)) \<and>
     (\<exists>sl'. hm_slabs h' a = Some sl' \<and> sl_size sl' = s)"
proof -
  obtain sl where a: "hm_slabs h a = Some sl" "sl_size sl = s" "s \<in> set size_classes" and i: "i < MAX_BLOCKS s" "bit_at (sl_mem_map sl) i"
    using used_block_slab [OF inv u] by blast
  let ?d = "sl_mem_map sl" and ?n = "MAX_BLOCKS s"
  have ok: "slab_ok sl" by (rule heap_slab(1) [OF inv a(1)])
  then have c: "length ?d = ?n div 8 + 1" using a by (simp add: slab_ok_def)
  note fit = class_fits [OF a(3)]
  obtain d where d: "sbm_clear ?n ?d i = Inr d" "length d = length ?d" "\<And>q. bit_at d q \<longleftrightarrow> bit_at ?d q \<and> q \<noteq> i"
    using sbm_clear_law [OF c, of i] i fit by auto
  define sl' where "sl' = sl\<lparr>sl_mem_map := d, sl_next_fit_block := i, sl_free_blocks := sz_add (sl_free_blocks sl) 1\<rparr>"
  define h' where "h' = put_slab h a sl'"
  have f: "sz_add (sl_free_blocks sl) (Suc 0) = sl_free_blocks sl + 1" using free_count(1) [OF ok] by (simp add: sz_add_eq)
  have chk: "sbm_check_set ?d i = Inr True" using i c by (subst sbm_check_law) (auto simp: less_Suc_eq_le intro: div_le_mono)
  have run: "slab_free s a (block_data s a i) h = Inr h'"
    using a ok d(1) f chk fit(4) address_in_slab [OF a(3) i(1)] by (simp add: slab_free_def free_from_current_slab_def get_slab_def slab_ok_def block_index h'_def sl'_def Let_def)
  have "{j. j < ?n \<and> \<not> bit_at d j} = insert i {j. j < ?n \<and> \<not> bit_at ?d j}" using d(3) i by auto
  then have "card {j. j < ?n \<and> \<not> bit_at d j} = sl_free_blocks sl + 1" using i ok a by (simp add: slab_ok_def)
  then have ok': "slab_ok sl'" using ok c d(2) i a f by (simp add: slab_ok_def sl'_def)
  have used: "used_block h' t b j \<longleftrightarrow> used_block h t b j \<and> (t, b, j) \<noteq> (s, a, i)" for t b j
    using a d(3) i by (auto simp: used_block_def h'_def put_slab_def sl'_def)
  have t: "hm_tags h' = hm_tags h" by (simp add: h'_def put_slab_def)
  have t2: "hm_tags h' (block_at t b j) = Some (b, t)" if "used_block h' t b j" for t b j
    using that heap_tag [OF inv, of t b j] by (simp add: used t)
  have "sl_size sl' = sl_size sl" "sl_next sl' = sl_next sl" "hm_slabs h' = (hm_slabs h)(a \<mapsto> sl')" "hm_big h' = hm_big h" "hm_static h' = hm_static h"
    by (simp_all add: sl'_def h'_def put_slab_def)
  note inv' = update_slab [OF inv a(1) ok' this _ t2, unfolded t, OF refl]
  moreover have "map_option sl_next (hm_slabs h' b) = map_option sl_next (hm_slabs h b)" for b using a by (simp add: h'_def put_slab_def sl'_def)
  moreover have "\<exists>sl'. hm_slabs h' a = Some sl' \<and> sl_size sl' = s" using a by (simp add: h'_def put_slab_def sl'_def)
  ultimately show ?thesis using run used by (intro exI [of _ h']) (simp add: h'_def put_slab_def)
qed

text \<open>Freeing a block that is not in use fails the assertion on its bit.\<close>

lemma slab_free_unused:
  assumes inv: "heap_inv h" and a: "hm_slabs h a = Some sl" "sl_size sl = s" and i: "i < MAX_BLOCKS s" "\<not> used_block h s a i"
  shows "slab_free s a (block_data s a i) h = Inl AssertFailed"
proof -
  have ok: "sl_magic sl = MAGIC" "length (sl_mem_map sl) = MAX_BLOCKS s div 8 + 1" and c: "s \<in> set size_classes"
    using heap_slab(1) [OF inv a(1)] a(2) by (simp_all add: slab_ok_def)
  have "i div 8 < length (sl_mem_map sl)" using i(1) ok(2) by (auto simp: less_Suc_eq_le intro: div_le_mono)
  moreover have "\<not> bit_at (sl_mem_map sl) i" using a i by (simp add: used_block_def)
  ultimately have "sbm_check_set (sl_mem_map sl) i = Inr False" by (simp add: sbm_check_law)
  then show ?thesis using a ok(1) address_in_slab [OF c i(1)] class_fits(4) [OF c]
    by (simp add: slab_free_def get_slab_def block_index)
qed

text \<open>What is relied on of the memory \<open>valloc\<close> returns next: zeroed, and n bytes that nothing else uses.\<close>

definition fresh_page :: "heap_mem \<Rightarrow> nat \<Rightarrow> bool" where
  "fresh_page h n = (\<forall>a old ps. hm_pages h = (a, old) # ps \<longrightarrow>
     a \<noteq> 0 \<and> a + n < sz_range \<and> (\<forall>i. old i = 0) \<and> (\<forall>e\<in>extents h. apart (a, n) e))"

lemma zero_map_ok: "s \<in> set size_classes \<Longrightarrow> slab_ok (slab_init s p (replicate (MAX_BLOCKS s div 8 + 1) 0))"
proof -
  assume s: "s \<in> set size_classes"
  have "\<not> bit_at (replicate (MAX_BLOCKS s div 8 + 1) 0) i" if "i < MAX_BLOCKS s" for i
  proof -
    have "i div 8 < MAX_BLOCKS s div 8 + 1" using div_le_mono [of i "MAX_BLOCKS s" 8] that by simp
    then show ?thesis unfolding bit_at_def by (simp only: nth_replicate) simp
  qed
  then have "{i. i < MAX_BLOCKS s \<and> \<not> bit_at (replicate (MAX_BLOCKS s div 8 + 1) 0) i} = {i. i < MAX_BLOCKS s}" by auto
  then show ?thesis using s class_fits(1) [OF s] by (simp add: slab_ok_def slab_init_def del: replicate_Suc)
qed

lemma fresh_page_le: "fresh_page h n \<Longrightarrow> k \<le> n \<Longrightarrow> fresh_page h k"
proof -
  assume n: "fresh_page h n" "k \<le> n"
  have "apart (a, n) e \<Longrightarrow> apart (a, k) e" for a e using n(2) by (auto simp: apart_def)
  then show ?thesis using n unfolding fresh_page_def by fastforce
qed

text \<open>Linking a new, empty slab behind the slab a.\<close>

lemma link_slab:
  assumes inv: "heap_inv h" and a: "hm_slabs h a = Some sl" and pg: "hm_pages h = (n, old) # ps" and fr: "fresh_page h 4096"
  defines "sn \<equiv> slab_init (sl_size sl) a (replicate (MAX_BLOCKS (sl_size sl) div 8 + 1) 0)"
  defines "h' \<equiv> h\<lparr>hm_pages := ps, hm_slabs := (hm_slabs h)(n \<mapsto> sn, a \<mapsto> sl\<lparr>sl_next := n\<rparr>)\<rparr>"
  shows "heap_inv h'" "live h' = live h" "hm_slabs h' n = Some sn" "hm_slabs h n = None" "n \<noteq> a" "n \<noteq> 0"
proof -
  have n: "n \<noteq> 0" "n + 4096 < sz_range" "\<And>e. e \<in> extents h \<Longrightarrow> apart (n, 4096) e" using fr pg by (auto simp: fresh_page_def)
  show none: "hm_slabs h n = None"
  proof (rule ccontr)
    assume "hm_slabs h n \<noteq> None"
    then have "(n, 4096) \<in> extents h" by (auto simp: extents_def)
    from n(3) [OF this] show False by (simp add: apart_def)
  qed
  then show na: "n \<noteq> a" "n \<noteq> 0" using a n(1) by auto
  show sn: "hm_slabs h' n = Some sn" using na by (simp add: h'_def)
  have oka: "slab_ok sl" by (rule heap_slab(1) [OF inv a])
  then have c: "sl_size sl \<in> set size_classes" by (simp add: slab_ok_def)
  have okn: "slab_ok sn" "sl_next sn = 0" "sl_size sn = sl_size sl" using zero_map_ok [OF c] by (simp_all add: sn_def slab_init_def)
  have empty: "\<not> bit_at (sl_mem_map sn) i" if "i < MAX_BLOCKS (sl_size sl)" for i
  proof -
    have "i div 8 < MAX_BLOCKS (sl_size sl) div 8 + 1" using div_le_mono [of i "MAX_BLOCKS (sl_size sl)" 8] that by simp
    then show ?thesis unfolding bit_at_def sn_def slab_init_def by (simp add: nth_replicate del: replicate_Suc)
  qed
  have used: "used_block h' s b i = used_block h s b i" for s b i
  proof -
    have "hm_slabs h' b = (if b = a then Some (sl\<lparr>sl_next := n\<rparr>) else if b = n then Some sn else hm_slabs h b)" by (simp add: h'_def)
    then consider "b = a" "hm_slabs h' b = Some (sl\<lparr>sl_next := n\<rparr>)" | "b = n" "hm_slabs h' b = Some sn" | "hm_slabs h' b = hm_slabs h b"
      by (auto split: if_splits)
    then show ?thesis
    proof cases
      case 2
      then show ?thesis using none empty [of i] okn(3) by (auto simp: used_block_def)
    qed (use a in \<open>auto simp: used_block_def\<close>)
  qed
  have big: "big_block h' = big_block h" by (intro ext) (simp add: big_block_def h'_def)
  have hb: "hm_big h' = hm_big h" by (simp add: h'_def)
  have nb: "hm_big h n = None"
  proof (rule ccontr)
    assume "hm_big h n \<noteq> None"
    then obtain len where l: "big_block h n len" using heap_inv_big [OF inv] by blast
    from n(3) [OF heap_big(4) [OF inv l]] heap_big(2) [OF inv l] show False by (simp add: apart_def)
  qed
  show "live h' = live h" unfolding live_def used big ..
  have "hm_slabs h' b \<noteq> None \<longleftrightarrow> b = n \<or> hm_slabs h b \<noteq> None" for b using a by (simp add: h'_def)
  then have ext: "extents h' = insert (n, 4096) (extents h)" unfolding extents_def big by blast
  show "heap_inv h'"
  proof (rule heap_invI)
    fix b sb
    assume b: "hm_slabs h' b = Some sb"
    consider "b = n" "sb = sn" | "b = a" "sb = sl\<lparr>sl_next := n\<rparr>" | "b \<noteq> n" "b \<noteq> a" "hm_slabs h b = Some sb"
      using b na by (auto simp: h'_def split: if_splits)
    then show "slab_ok sb \<and> b \<noteq> 0 \<and> hm_big h' b = None \<and> b + 4096 < sz_range \<and>
        (sl_next sb \<noteq> 0 \<longrightarrow> (\<exists>sl''. hm_slabs h' (sl_next sb) = Some sl'' \<and> sl_size sl'' = sl_size sb))"
    proof cases
      case 2
      then show ?thesis using oka heap_slab [OF inv a] sn okn(3) hb by (auto simp: slab_ok_def)
    next
      case 3
      have "\<exists>sl''. hm_slabs h' (sl_next sb) = Some sl'' \<and> sl_size sl'' = sl_size sb" if "sl_next sb \<noteq> 0"
        using heap_slab(4) [OF inv 3(3) that] a none by (auto simp: h'_def)
      then show ?thesis using heap_slab(1-3,6) [OF inv 3(3)] by (simp add: h'_def)
    qed (use okn n nb in \<open>auto simp: h'_def\<close>)
  next
    fix e f
    assume "e \<in> extents h'" "f \<in> extents h'" "e \<noteq> f"
    then show "apart e f" using heap_apart [OF inv, of e f] n(3) [of e] n(3) [of f] by (auto simp: ext apart_def)
  next
    fix s :: nat
    assume "s \<in> set size_classes"
    then obtain sc where "hm_slabs h (hm_static h s) = Some sc" "sl_size sc = s" using inv unfolding heap_inv_def by blast
    then show "\<exists>sl. hm_slabs h' (hm_static h' s) = Some sl \<and> sl_size sl = s" using a none by (auto simp: h'_def)
  next
    fix b m
    assume "hm_big h' b = Some m"
    then have "hm_big h b = Some m" by (simp add: h'_def)
    then show "b \<noteq> 0 \<and> (\<exists>len. big_block h' b len \<and> 0x110 < len \<and> b + len < sz_range)"
      using inv unfolding heap_inv_def big by blast
  next
    fix s b i
    assume "used_block h' s b i"
    then show "hm_tags h' (block_at s b i) = Some (b, s)" using heap_tag [OF inv] used by (simp add: h'_def)
  qed
qed

text \<open>Two live regions never overlap.\<close>

lemma live_apart:
  assumes inv: "heap_inv h" and x: "(p, n) \<in> live h" and y: "(q, m) \<in> live h" and ne: "(p, n) \<noteq> (q, m)"
  shows "apart (p, n) (q, m)"
proof -
  have big_small: "apart (a + 12, len - 16) (block_data s b i, s)" if bg: "big_block h a len" and u: "used_block h s b i" for a len s b i
  proof -
    have "hm_slabs h b \<noteq> None" "hm_big h a \<noteq> None" using bg u by (auto simp: used_block_def big_block_def)
    then have "a \<noteq> b" using heap_slab(6) [OF inv] by auto
    then have "apart (a, len) (b, 4096)" using heap_apart [OF inv heap_big(4) [OF inv bg] live_small(3) [OF inv u]] by simp
    then show ?thesis using live_small(1,2) [OF inv u] heap_big(2) [OF inv bg] by (auto simp: apart_def)
  qed
  have sym: "apart e f \<Longrightarrow> apart f e" for e f by (auto simp: apart_def)
  show ?thesis using x
  proof (cases rule: live_cases)
    case 1: (small s a i)
    from y show ?thesis
    proof (cases rule: live_cases)
      case 2: (small t b j)
      show ?thesis
      proof (cases "a = b")
        case True
        then have "s = t" "i \<noteq> j" using 1 2 ne by (auto simp: used_block_def)
        then show ?thesis using True 1 2 block_order [of i j s a] block_order [of j i s a]
          by (cases "i < j") (auto simp: apart_def block_data_def block_stride_def)
      next
        case False
        then have "apart (a, 4096) (b, 4096)" using heap_apart [OF inv live_small(3) [OF inv 1(3)] live_small(3) [OF inv 2(3)]] by simp
        then show ?thesis using 1 2 live_small(1,2) [OF inv 1(3)] live_small(1,2) [OF inv 2(3)] by (auto simp: apart_def)
      qed
    next
      case 2: (big b len)
      then show ?thesis using sym [OF big_small [OF 2(3) 1(3)]] 1 by simp
    qed
  next
    case 1: (big a len)
    from y show ?thesis
    proof (cases rule: live_cases)
      case 2: (small t b j)
      then show ?thesis using big_small [OF 1(3) 2(3)] 1 by simp
    next
      case 2: (big b len')
      have "a \<noteq> b" using 1 2 ne by (auto simp: big_block_def)
      then have "apart (a, len) (b, len')" using heap_apart [OF inv heap_big(4) [OF inv 1(3)] heap_big(4) [OF inv 2(3)]] by simp
      then show ?thesis using 1 2 heap_big(2) [OF inv 1(3)] heap_big(2) [OF inv 2(3)] by (auto simp: apart_def)
    qed
  qed
qed

lemma free_block_not_live:
  assumes inv: "heap_inv h" and a: "hm_slabs h a = Some sl" and i: "i < MAX_BLOCKS (sl_size sl)" "\<not> bit_at (sl_mem_map sl) i"
  shows "(block_data (sl_size sl) a i, sl_size sl) \<notin> live h"
proof
  have c: "sl_size sl \<in> set size_classes" using heap_slab(1) [OF inv a] by (simp add: slab_ok_def)
  assume "(block_data (sl_size sl) a i, sl_size sl) \<in> live h"
  then show False
  proof (cases rule: live_cases)
    case (small s b j)
    have "(b, j) \<noteq> (a, i)" using small(3) a i by (auto simp: used_block_def)
    from tag_of_block [OF inv a i(1) small(3) this] small show False by (simp add: block_data_def)
  next
    case (big b len)
    then show False using heap_big(2) [OF inv big(3)] class_fits(5) [OF c] by simp
  qed
qed

text \<open>One slab that has a free block at or after the next fit position, or else continues in the chain.\<close>

lemma slab_alloc_here:
  assumes inv: "heap_inv h" and a: "hm_slabs h a = Some sl" and f: "sl_free_blocks sl \<noteq> 0"
    and i: "sbm_find_first_clear (MAX_BLOCKS (sl_size sl)) (sl_mem_map sl) (sl_next_fit_block sl) = Inr i" "i \<noteq> BITMAP_NO_BITS_LEFT"
  shows "\<exists>p h'. slab_alloc fuel (sl_size sl) a h = Inr (p, h') \<and> heap_inv h' \<and> p \<noteq> 0 \<and> (p, sl_size sl) \<notin> live h \<and>
     live h' = insert (p, sl_size sl) (live h) \<and> (\<forall>b. map_option sl_next (hm_slabs h' b) = map_option sl_next (hm_slabs h b))"
proof -
  have ok: "slab_ok sl" by (rule heap_slab(1) [OF inv a])
  then have c: "sl_size sl \<in> set size_classes" "length (sl_mem_map sl) = MAX_BLOCKS (sl_size sl) div 8 + 1" by (simp_all add: slab_ok_def)
  have "MAX_BLOCKS (sl_size sl) + 8 \<le> sz_range" using class_fits(2) [OF c(1)] by simp
  from sbm_find_law [OF c(2) this, of "sl_next_fit_block sl"] i have b: "i < MAX_BLOCKS (sl_size sl)" "\<not> bit_at (sl_mem_map sl) i" by auto
  from alloc_current_law [OF inv a b] free_block_not_live [OF inv a b] ok f i a show ?thesis
    by (subst slab_alloc.simps) (auto simp: get_slab_def slab_ok_def block_data_def)
qed

lemma ranked_cong: "ranked h r \<Longrightarrow> (\<And>b. map_option sl_next (hm_slabs h' b) = map_option sl_next (hm_slabs h b)) \<Longrightarrow> ranked h' r"
  unfolding ranked_def
proof (intro allI impI)
  fix a sl
  assume r: "\<forall>a sl. hm_slabs h a = Some sl \<and> sl_next sl \<noteq> 0 \<longrightarrow> r (sl_next sl) < r a"
    and e: "\<And>b. map_option sl_next (hm_slabs h' b) = map_option sl_next (hm_slabs h b)" and a: "hm_slabs h' a = Some sl \<and> sl_next sl \<noteq> 0"
  obtain so where "hm_slabs h a = Some so" "sl_next so = sl_next sl" using e [of a] a by (cases "hm_slabs h a") auto
  with r a show "r (sl_next sl) < r a" by metis
qed

definition alloc_result :: "nat \<Rightarrow> heap_mem \<Rightarrow> nat \<times> heap_mem \<Rightarrow> bool" where
  "alloc_result s h = (\<lambda>(p, h'). heap_inv h' \<and> (\<exists>r. ranked h' r) \<and>
     (p = 0 \<and> hm_pages h = [] \<and> h' = h \<or> p \<noteq> 0 \<and> (p, s) \<notin> live h \<and> live h' = insert (p, s) (live h)))"

lemma slab_alloc_new:
  assumes inv: "heap_inv h" and a: "hm_slabs h a = Some sl" and r: "ranked h r" and fr: "fresh_page h 4096"
  shows "ok (alloc_in_new_slab (slab_alloc f (sl_size sl)) (sl_size sl) a h) (alloc_result (sl_size sl) h)"
proof (cases "hm_pages h")
  case Nil
  then show ?thesis using inv r by (auto simp: alloc_in_new_slab_def request_memory_from_os_def alloc_result_def run_simps)
next
  case (Cons pg ps)
  then obtain n old where pg: "hm_pages h = (n, old) # ps" by (cases pg) auto
  let ?s = "sl_size sl"
  define sn where "sn = slab_init ?s a (replicate (MAX_BLOCKS ?s div 8 + 1) 0)"
  define h2 where "h2 = h\<lparr>hm_pages := ps, hm_slabs := (hm_slabs h)(n \<mapsto> sn, a \<mapsto> sl\<lparr>sl_next := n\<rparr>)\<rparr>"
  note link = link_slab [OF inv a pg fr, folded sn_def, folded h2_def]
  have c: "?s \<in> set size_classes" using heap_slab(1) [OF inv a] by (simp add: slab_ok_def)
  have "map old [0..<MAX_BLOCKS ?s div 8 + 1] = replicate (MAX_BLOCKS ?s div 8 + 1) 0"
    using fr pg by (intro nth_equalityI) (auto simp: fresh_page_def simp del: replicate_Suc upt_Suc)
  then have run: "alloc_in_new_slab (slab_alloc f ?s) ?s a h = slab_alloc f ?s n h2"
    using pg a link(5,6) unfolding alloc_in_new_slab_def sn_def h2_def
    by (simp add: request_memory_from_os_def put_slab_def get_slab_def del: replicate_Suc upt_Suc)
  have sn: "sl_size sn = ?s" "sl_free_blocks sn \<noteq> 0" "sl_mem_map sn = replicate (MAX_BLOCKS ?s div 8 + 1) 0" "sl_next_fit_block sn = 0" "sl_next sn = 0"
    using class_fits(1) [OF c] by (simp_all add: sn_def slab_init_def)
  have "sbm_find_first_clear (MAX_BLOCKS (sl_size sn)) (sl_mem_map sn) (sl_next_fit_block sn) = Inr 0"
    unfolding sn using class_fits(1,2) [OF c] by (intro sbm_find_zero) simp_all
  from slab_alloc_here [OF link(1,3) sn(2) this, of f] obtain p h' where
    p: "slab_alloc f ?s n h2 = Inr (p, h')" "heap_inv h'" "p \<noteq> 0" "(p, ?s) \<notin> live h" "live h' = insert (p, ?s) (live h)"
      "\<And>b. map_option sl_next (hm_slabs h' b) = map_option sl_next (hm_slabs h2 b)"
    unfolding sn(1) link(2) by (auto simp: BITMAP_NO_BITS_LEFT_def)
  have "ranked h2 (\<lambda>b. if b = n then 0 else r b + 1)"
    unfolding ranked_def
  proof (intro allI impI)
    fix b sb
    assume b: "hm_slabs h2 b = Some sb \<and> sl_next sb \<noteq> 0"
    then consider "b = a" "sl_next sb = n" | "b \<noteq> n" "hm_slabs h b = Some sb" using sn(5) by (auto simp: h2_def split: if_splits)
    then show "(if sl_next sb = n then 0 else r (sl_next sb) + 1) < (if b = n then 0 else r b + 1)"
    proof cases
      case 2
      then obtain s' where "hm_slabs h (sl_next sb) = Some s'" using heap_slab(4) [OF inv 2(2)] b by auto
      then show ?thesis using 2 b r link(4) by (auto simp: ranked_def)
    qed (use link(5) in simp)
  qed
  then have "ranked h' (\<lambda>b. if b = n then 0 else r b + 1)" by (rule ranked_cong) (rule p(6))
  then show ?thesis using run p by (auto simp: alloc_result_def run_simps)
qed

lemma slab_alloc_law:
  assumes "heap_inv h" "hm_slabs h a = Some sl" "ranked h r" "fresh_page h 4096" "r a < fuel"
  shows "ok (slab_alloc fuel (sl_size sl) a h) (alloc_result (sl_size sl) h)"
  using assms(2,5)
proof (induction fuel arbitrary: a sl)
  case (Suc f)
  have ok: "slab_ok sl" by (rule heap_slab(1) [OF assms(1) Suc.prems(1)])
  then have c: "sl_size sl \<in> set size_classes" "length (sl_mem_map sl) = MAX_BLOCKS (sl_size sl) div 8 + 1" "sl_magic sl = MAGIC"
    by (simp_all add: slab_ok_def)
  have "MAX_BLOCKS (sl_size sl) + 8 \<le> sz_range" using class_fits(2) [OF c(1)] by simp
  from sbm_find_law [OF c(2) this, of "sl_next_fit_block sl"] obtain i where
    i: "sbm_find_first_clear (MAX_BLOCKS (sl_size sl)) (sl_mem_map sl) (sl_next_fit_block sl) = Inr i" by auto
  show ?case
  proof (cases "sl_free_blocks sl \<noteq> 0 \<and> i \<noteq> BITMAP_NO_BITS_LEFT")
    case True
    then show ?thesis using slab_alloc_here [OF assms(1) Suc.prems(1) _ i, of "Suc f"] ranked_cong [OF assms(3)]
      by (auto simp: ok_iff alloc_result_def)
  next
    case False
    then have e: "slab_alloc (Suc f) (sl_size sl) a h = (if sl_next sl \<noteq> 0 then slab_alloc f (sl_size sl) (sl_next sl) h
        else alloc_in_new_slab (slab_alloc f (sl_size sl)) (sl_size sl) a h)"
      using c(3) i Suc.prems(1) by (subst slab_alloc.simps) (auto simp: get_slab_def)
    show ?thesis
    proof (cases "sl_next sl = 0")
      case True
      then show ?thesis using slab_alloc_new [OF assms(1) Suc.prems(1) assms(3,4)] e by simp
    next
      case False
      then obtain sn where sn: "hm_slabs h (sl_next sl) = Some sn" "sl_size sn = sl_size sl"
        using heap_slab(4) [OF assms(1) Suc.prems(1)] by auto
      have "r (sl_next sl) < f" using assms(3) False Suc.prems by (fastforce simp: ranked_def)
      from Suc.IH [OF sn(1) this] show ?thesis using e False sn(2) by simp
    qed
  qed
qed simp

section \<open>The heap\<close>

text \<open>A new big block behind fresh memory.\<close>

lemma big_alloc_law:
  assumes inv: "heap_inv h" and r: "ranked h r" and size: "0x100 < n" "n + 16 < sz_range" and fr: "fresh_page h (n + 16)" "hm_pages h \<noteq> []"
  shows "ok (big_alloc n h) (alloc_result n h)"
proof -
  obtain a old ps where pg: "hm_pages h = (a, old) # ps" using fr(2) by (cases "hm_pages h") auto
  have a: "a \<noteq> 0" "a + (n + 16) < sz_range" "\<And>e. e \<in> extents h \<Longrightarrow> apart (a, n + 16) e" using fr pg by (auto simp: fresh_page_def)
  define h' where "h' = h\<lparr>hm_pages := ps, hm_tags := (hm_tags h)(a + 4 \<mapsto> (a, n + 16)), hm_big := (hm_big h)(a \<mapsto> MAGIC)\<rparr>"
  have run: "big_alloc n h = Inr (a + 12, h')"
    using pg a size by (simp add: big_alloc_def request_memory_from_os_def h'_def BIG_SLAB_SIZE_def sz_add_eq)
  have ns: "hm_slabs h a = None"
  proof (rule ccontr)
    assume "hm_slabs h a \<noteq> None"
    then have "(a, 4096) \<in> extents h" by (auto simp: extents_def)
    from a(3) [OF this] size show False by (simp add: apart_def)
  qed
  have nb: "\<not> big_block h a len" for len
  proof
    assume l: "big_block h a len"
    from a(3) [OF heap_big(4) [OF inv l]] heap_big(2) [OF inv l] size show False by (simp add: apart_def)
  qed
  have tag_small: "a + 4 \<noteq> block_at s b i" if u: "used_block h s b i" for s b i
  proof -
    have "apart (a, n + 16) (b, 4096)" by (rule a(3) [OF live_small(3) [OF inv u]])
    then show ?thesis using live_small(1,2) [OF inv u] size
      by (auto simp: apart_def block_data_def block_at_def blocks_offset_def)
  qed
  have big: "big_block h' b len \<longleftrightarrow> big_block h b len \<or> (b, len) = (a, n + 16)" for b len
  proof (cases "b = a")
    case True
    then show ?thesis using nb by (auto simp: big_block_def h'_def)
  next
    case False
    show ?thesis
    proof (cases "hm_big h b")
      case (Some m)
      then obtain l where l: "big_block h b l" using heap_inv_big [OF inv] by blast
      from a(3) [OF heap_big(4) [OF inv l]] False heap_big(2) [OF inv l] size show ?thesis
        by (auto simp: big_block_def h'_def apart_def)
    qed (use False in \<open>simp add: big_block_def h'_def\<close>)
  qed
  have used: "used_block h' = used_block h" by (intro ext) (simp add: used_block_def h'_def)
  have "{(b + 12, len - 16) |b len. big_block h' b len} = insert (a + 12, n) {(b + 12, len - 16) |b len. big_block h b len}"
    unfolding big by force
  then have live': "live h' = insert (a + 12, n) (live h)" unfolding live_def used by auto
  have notin: "(a + 12, n) \<notin> live h"
  proof
    assume "(a + 12, n) \<in> live h"
    then obtain e where "e \<in> extents h" "fst e \<le> a + 12" "a + 12 + n \<le> fst e + snd e" using live_extent [OF inv] by blast
    with a(3) size show False by (fastforce simp: apart_def)
  qed
  have ext: "extents h' = insert (a, n + 16) (extents h)" unfolding extents_def big by (auto simp: h'_def)
  have "heap_inv h'"
  proof (rule heap_invI)
    fix b sl
    assume "hm_slabs h' b = Some sl"
    then have b: "hm_slabs h b = Some sl" by (simp add: h'_def)
    then show "slab_ok sl \<and> b \<noteq> 0 \<and> hm_big h' b = None \<and> b + 4096 < sz_range \<and>
        (sl_next sl \<noteq> 0 \<longrightarrow> (\<exists>sl'. hm_slabs h' (sl_next sl) = Some sl' \<and> sl_size sl' = sl_size sl))"
      using heap_slab [OF inv b] ns by (auto simp: h'_def)
  next
    fix b m
    assume "hm_big h' b = Some m"
    then consider "b = a" | "hm_big h b = Some m" by (auto simp: h'_def split: if_splits)
    then show "b \<noteq> 0 \<and> (\<exists>len. big_block h' b len \<and> 0x110 < len \<and> b + len < sz_range)"
    proof cases
      case 2
      then obtain l where l: "big_block h b l" using heap_inv_big [OF inv] by blast
      then show ?thesis using heap_big [OF inv l] big by auto
    qed (use a size big in auto)
  next
    fix e f
    assume "e \<in> extents h'" "f \<in> extents h'" "e \<noteq> f"
    then show "apart e f" using heap_apart [OF inv, of e f] a(3) [of e] a(3) [of f] by (auto simp: ext apart_def)
  next
    fix s :: nat
    assume "s \<in> set size_classes"
    then show "\<exists>sl. hm_slabs h' (hm_static h' s) = Some sl \<and> sl_size sl = s" using inv unfolding heap_inv_def h'_def by simp
  next
    fix s b i
    assume "used_block h' s b i"
    then show "hm_tags h' (block_at s b i) = Some (b, s)" using tag_small [of s b i] heap_tag [OF inv, of s b i] used by (auto simp: h'_def)
  qed
  moreover have "ranked h' r" using r by (simp add: ranked_def h'_def)
  ultimately show ?thesis using run live' notin by (auto simp: alloc_result_def run_simps)
qed

definition size_class :: "nat \<Rightarrow> nat" where
  "size_class n = (if n \<le> 0x10 then 0x10 else if n \<le> 0x20 then 0x20 else if n \<le> 0x40 then 0x40 else if n \<le> 0x80 then 0x80
     else if n \<le> 0x100 then 0x100 else n)"

lemma size_class_le: "n \<le> size_class n" "n \<le> 0x100 \<Longrightarrow> size_class n \<in> set size_classes"
  by (simp_all add: size_class_def size_classes_def)

lemma kmalloc_small: "0 < n \<Longrightarrow> n \<le> 0x100 \<Longrightarrow> kmalloc fuel n h = slab_alloc fuel (size_class n) (hm_static h (size_class n)) h"
  by (simp add: kmalloc_def size_class_def)

lemma kfree_slab:
  assumes inv: "heap_inv h" and u: "used_block h s a i" and t: "hm_tags h' = hm_tags h"
  shows "kfree (block_data s a i) h' = slab_free s a (block_data s a i) h'"
proof -
  obtain sl where a: "hm_slabs h a = Some sl" "s \<in> set size_classes" "i < MAX_BLOCKS s" using used_block_slab [OF inv u] by blast
  have "block_at s a i + block_stride s \<le> a + 4096" using block_inside [OF a(2,3)] by simp
  then have "sz_sub (block_data s a i) 8 = block_at s a i"
    using heap_slab(3) [OF inv a(1)] by (subst sz_sub_eq) (auto simp: block_data_def block_stride_def)
  moreover have "block_at s a i \<noteq> 0" using heap_slab(2) [OF inv a(1)] by (simp add: block_at_def)
  ultimately show ?thesis using heap_tag [OF inv u] heap_slab(2) [OF inv a(1)] a(2) t by (simp add: kfree_def block_data_def)
qed

lemma kfree_big:
  assumes inv: "heap_inv h" and b: "big_block h a len"
  shows "kfree (a + 12) h = Inr (h\<lparr>hm_big := (hm_big h)(a := None)\<rparr>)"
proof -
  have "sz_sub (a + 12) 8 = a + 4" using heap_big(2,3) [OF inv b] by (subst sz_sub_eq) auto
  moreover have "len \<notin> set size_classes" using heap_big(2) [OF inv b] by (auto simp: size_classes_def)
  ultimately show ?thesis using b heap_big(1) [OF inv b] by (simp add: kfree_def big_block_def big_free_def)
qed

lemma drop_big:
  assumes inv: "heap_inv h" and b: "big_block h a len"
  defines "h' \<equiv> h\<lparr>hm_big := (hm_big h)(a := None)\<rparr>"
  shows "heap_inv h'" "big_block h' c l \<longleftrightarrow> big_block h c l \<and> c \<noteq> a" "used_block h' = used_block h"
proof -
  have big: "big_block h' c l \<longleftrightarrow> big_block h c l \<and> c \<noteq> a" for c l by (simp add: big_block_def h'_def)
  then show "big_block h' c l \<longleftrightarrow> big_block h c l \<and> c \<noteq> a" .
  show used: "used_block h' = used_block h" by (intro ext) (simp add: used_block_def h'_def)
  have ext: "extents h' \<subseteq> extents h" unfolding extents_def big by (auto simp: h'_def)
  show "heap_inv h'"
  proof (rule heap_invI)
    fix e f
    assume "e \<in> extents h'" "f \<in> extents h'" "e \<noteq> f"
    then show "apart e f" using heap_apart [OF inv] ext by blast
  next
    fix c m
    assume "hm_big h' c = Some m"
    then have c: "hm_big h c = Some m" "c \<noteq> a" by (auto simp: h'_def split: if_splits)
    then obtain l where l: "big_block h c l" using heap_inv_big [OF inv] by blast
    then show "c \<noteq> 0 \<and> (\<exists>len. big_block h' c len \<and> 0x110 < len \<and> c + len < sz_range)" using heap_big [OF inv l] big c(2) by auto
  next
    fix c sl
    assume "hm_slabs h' c = Some sl"
    then have c: "hm_slabs h c = Some sl" by (simp add: h'_def)
    then show "slab_ok sl \<and> c \<noteq> 0 \<and> hm_big h' c = None \<and> c + 4096 < sz_range \<and>
        (sl_next sl \<noteq> 0 \<longrightarrow> (\<exists>sl'. hm_slabs h' (sl_next sl) = Some sl' \<and> sl_size sl' = sl_size sl))"
      using heap_slab [OF inv c] by (auto simp: h'_def)
  next
    fix s :: nat
    assume "s \<in> set size_classes"
    then show "\<exists>sl. hm_slabs h' (hm_static h' s) = Some sl \<and> sl_size sl = s" using inv unfolding heap_inv_def h'_def by simp
  qed (use heap_tag [OF inv] used in \<open>simp add: h'_def\<close>)
qed

section \<open>The heap after setup\<close>

text \<open>
  A heap whose five static slabs, at 256 times their block size, were in zeroed memory; the system
  has the given pages to return.
\<close>

definition start_heap :: "(nat \<times> (nat \<Rightarrow> u8)) list \<Rightarrow> heap_mem" where
  "start_heap pages = \<lparr>hm_slabs = (\<lambda>a. if a \<in> (\<lambda>s. 256 * s) ` set size_classes
       then Some (slab_init (a div 256) 0 (replicate (MAX_BLOCKS (a div 256) div 8 + 1) 0)) else None),
     hm_tags = (\<lambda>_. None), hm_big = (\<lambda>_. None), hm_static = (\<lambda>s. 256 * s), hm_pages = pages\<rparr>"

lemma start_heap_slab:
  "hm_slabs (start_heap pages) a = Some sl \<longleftrightarrow> (\<exists>s\<in>set size_classes. a = 256 * s \<and> sl = slab_init s 0 (replicate (MAX_BLOCKS s div 8 + 1) 0))"
  by (auto simp: start_heap_def)

lemma start_heap_extents: "extents (start_heap pages) = (\<lambda>s. (256 * s, 4096)) ` set size_classes"
  by (auto simp: extents_def start_heap_def big_block_def)

lemma no_bit_in_zeroes: "i div 8 < n \<Longrightarrow> \<not> bit_at (replicate n 0) i"
  by (simp add: bit_at_def)

lemma start_heap_unused: "\<not> used_block (start_heap pages) s a i"
proof
  assume "used_block (start_heap pages) s a i"
  then obtain sl where sl: "hm_slabs (start_heap pages) a = Some sl" "sl_size sl = s" "i < MAX_BLOCKS s" "bit_at (sl_mem_map sl) i"
    by (auto simp: used_block_def)
  then have "sl_mem_map sl = replicate (MAX_BLOCKS s div 8 + 1) 0" by (auto simp: start_heap_slab slab_init_def)
  moreover have "i div 8 < MAX_BLOCKS s div 8 + 1" using div_le_mono [of i "MAX_BLOCKS s" 8] sl(3) by simp
  ultimately show False using no_bit_in_zeroes sl(4) by metis
qed

lemma start_heap_inv: "heap_inv (start_heap pages)" "ranked (start_heap pages) (\<lambda>_. 0)" "live (start_heap pages) = {}"
proof -
  show "heap_inv (start_heap pages)"
  proof (rule heap_invI)
    fix a sl
    assume "hm_slabs (start_heap pages) a = Some sl"
    then obtain s where s: "s \<in> set size_classes" "a = 256 * s" "sl = slab_init s 0 (replicate (MAX_BLOCKS s div 8 + 1) 0)"
      unfolding start_heap_slab by blast
    have "sl_next sl = 0" "slab_ok sl" using s(3) zero_map_ok [OF s(1)] by (simp_all add: slab_init_def)
    moreover have "hm_big (start_heap pages) a = None" by (simp add: start_heap_def)
    ultimately show "slab_ok sl \<and> a \<noteq> 0 \<and> hm_big (start_heap pages) a = None \<and> a + 4096 < sz_range \<and>
        (sl_next sl \<noteq> 0 \<longrightarrow> (\<exists>sl'. hm_slabs (start_heap pages) (sl_next sl) = Some sl' \<and> sl_size sl' = sl_size sl))"
      using s(2) class_fits(4,5) [OF s(1)] by simp
  next
    fix e f
    assume "e \<in> extents (start_heap pages)" "f \<in> extents (start_heap pages)" "e \<noteq> f"
    then show "apart e f" by (auto simp: start_heap_extents size_classes_def apart_def)
  next
    fix s
    assume "s \<in> set size_classes"
    then show "\<exists>sl. hm_slabs (start_heap pages) (hm_static (start_heap pages) s) = Some sl \<and> sl_size sl = s"
      by (simp add: start_heap_def slab_init_def)
  qed (use start_heap_unused in \<open>auto simp: start_heap_def\<close>)
  show "ranked (start_heap pages) (\<lambda>_. 0)" by (auto simp: ranked_def start_heap_slab slab_init_def)
  show "live (start_heap pages) = {}" using start_heap_unused by (simp add: live_def big_block_def) (simp add: start_heap_def)
qed

lemma start_heap_fresh: "fresh_page (start_heap [(0x100000, \<lambda>_. 0)]) 4096"
  by (auto simp: fresh_page_def start_heap_extents size_classes_def apart_def) (simp_all add: start_heap_def)

section \<open>Properties\<close>



text \<open>
  (C17) \<open>kfree\<close> of memory in use finds the slab or big block it came from, takes exactly that memory out
  of the memory in use and keeps the invariant; \<open>kfree\<close> of a small block that was just freed fails
  an assertion.
\<close>

theorem kfree_releases_memory:
  assumes "heap_inv h" "(p, n) \<in> live h"
  shows "ok (kfree p h) (\<lambda>h'. heap_inv h' \<and> live h' = live h - {(p, n)} \<and> (n \<le> 0x100 \<longrightarrow> kfree p h' = Inl AssertFailed))"
  using assms(2)
proof (cases rule: live_cases)
  case (small s a i)
  obtain h' where h': "slab_free s a p h = Inr h'" "heap_inv h'" "\<And>t b j. used_block h' t b j \<longleftrightarrow> used_block h t b j \<and> (t, b, j) \<noteq> (s, a, i)"
    "big_block h' = big_block h" "hm_tags h' = hm_tags h" "\<exists>sl'. hm_slabs h' a = Some sl' \<and> sl_size sl' = s"
    using free_current_law [OF assms(1) small(3)] small(1) by auto
  have "live h' = live h - {(p, n)}"
  proof -
    have "(p, n) \<notin> live h'"
    proof
      assume "(p, n) \<in> live h'"
      then show False
      proof (cases rule: live_cases)
        case 1: (small t b j)
        have "(b, j) \<noteq> (a, i)" "used_block h t b j" "t = s" using 1 h'(3) small by auto
        then show False using used_block_slab [OF assms(1) small(3)] tag_of_block [OF assms(1)] 1 small
          by (metis add_right_cancel block_data_def)
      next
        case 1: (big b len)
        obtain sl where "s \<in> set size_classes" using used_block_slab [OF assms(1) small(3)] by blast
        then show False using 1 small heap_big(2) [OF h'(2) 1(3)] class_fits(5) [of s] by simp
      qed
    qed
    then show ?thesis using small unfolding live_def h'(3,4) by auto
  qed
  moreover have "kfree p h' = Inl AssertFailed"
  proof -
    obtain sl where sl: "hm_slabs h' a = Some sl" "sl_size sl = s" using h'(6) by blast
    have "i < MAX_BLOCKS s" "\<not> used_block h' s a i" using used_block_slab [OF assms(1) small(3)] h'(3) by blast+
    from slab_free_unused [OF h'(2) sl this] kfree_slab [OF assms(1) small(3) h'(5)] show ?thesis using small(1) by simp
  qed
  ultimately show ?thesis using h' small kfree_slab [OF assms(1) small(3) refl] by (simp add: run_simps)
next
  case (big a len)
  note d = drop_big [OF assms(1) big(3)]
  have small: "(block_data s b i, s) \<noteq> (p, n)" if u: "used_block h s b i" for s b i
  proof -
    have "s \<in> set size_classes" using used_block_slab [OF assms(1) u] by blast
    then show ?thesis using class_fits(5) [of s] heap_big(2) [OF assms(1) big(3)] big(2) by auto
  qed
  have other: "(b + 12, l - 16) = (p, n) \<longleftrightarrow> b = a" if l: "big_block h b l" for b l
    using l big by (auto simp: big_block_def)
  have "live (h\<lparr>hm_big := (hm_big h)(a := None)\<rparr>) = live h - {(p, n)}"
  proof -
    have "{(block_data s b i, s) |s b i. used_block h s b i} - {(p, n)} = {(block_data s b i, s) |s b i. used_block h s b i}"
      using small by blast
    moreover have "{(b + 12, l - 16) |b l. big_block h b l} - {(p, n)} = {(b + 12, l - 16) |b l. big_block h b l \<and> b \<noteq> a}"
      using other by blast
    ultimately show ?thesis unfolding live_def d(2,3) Un_Diff by (simp only:)
  qed
  then show ?thesis using d(1) kfree_big [OF assms(1) big(3)] big heap_big(2) [OF assms(1) big(3)] by (simp add: run_simps)
qed

theorem kfree_releases_memory_witness:
  "\<exists>h. heap_inv h \<and> (block_data 16 4096 0, 16) \<in> live h \<and>
     ok (kfree (block_data 16 4096 0) h) (\<lambda>h'. heap_inv h' \<and> live h' = live h - {(block_data 16 4096 0, 16)} \<and>
       (16 \<le> (0x100 :: nat) \<longrightarrow> kfree (block_data 16 4096 0) h' = Inl AssertFailed))"
proof -
  let ?sl = "slab_init 16 0 (replicate (MAX_BLOCKS 16 div 8 + 1) 0)"
  have sl: "hm_slabs (start_heap []) 4096 = Some ?sl" by (simp add: start_heap_def size_classes_def)
  have c: "16 \<in> set size_classes" by (simp add: size_classes_def)
  have "0 < MAX_BLOCKS (sl_size ?sl)" "\<not> bit_at (sl_mem_map ?sl) 0"
    using class_fits(1) [OF c] no_bit_in_zeroes [of 0 "MAX_BLOCKS 16 div 8 + 1"] by (simp_all add: slab_init_def del: replicate_Suc)
  from alloc_current_law [OF start_heap_inv(1) sl this]
  obtain h' where h': "heap_inv h'" "live h' = insert (block_data 16 4096 0, 16) (live (start_heap []))" by (auto simp: slab_init_def)
  then have "(block_data 16 4096 0, 16) \<in> live h'" by simp
  from kfree_releases_memory [OF h'(1) this] h'(1) this show ?thesis by blast
qed

end
