(* ===== verification/Buffers.thy ===== *)
theory Buffers
  imports Clib
begin

text \<open>
  \<open>Buffer\<close>, \<open>BufferView\<close> and \<open>BufferMutableView\<close> (buffer.cpp, buffer_view.cpp,
  buffer_mutable_view.cpp). A buffer owns its storage; a view is a pointer into a storage with a
  size. \<open>new u8[n]{}\<close> gives zeroed storage, \<open>new u8[n]\<close> raw storage, and both give a null pointer
  for no bytes. An operation that writes through a mutable view takes the storage the view points
  into and returns it changed.
\<close>

section \<open>Objects\<close>

record buffer =
  buf_data :: "u8 block"
  buf_size :: size_t

record buffer_view =
  bv_data :: cptr
  bv_size :: size_t

definition zeroed :: "size_t \<Rightarrow> u8 block" where
  "zeroed n = (if n = 0 then None else chars (replicate n 0))"

section \<open>\<open>BufferView\<close>\<close>

definition bv_empty :: buffer_view where
  "bv_empty = \<lparr>bv_data = (None, 0), bv_size = 0\<rparr>"

definition bv_raw :: "cptr \<Rightarrow> size_t \<Rightarrow> buffer_view" where
  "bv_raw p n = \<lparr>bv_data = p, bv_size = n\<rparr>"

definition bv_of_view :: "buffer_view \<Rightarrow> size_t \<Rightarrow> size_t \<Rightarrow> buffer_view run" where
  "bv_of_view other src_offset src_size = assert_then (sz_add src_size src_offset \<le> bv_size other)
     (Inr \<lparr>bv_data = advance (bv_data other) src_offset,
           bv_size = (if src_size = 0 then sz_sub (bv_size other) src_offset else src_size)\<rparr>)"

definition bv_of_buffer :: "buffer \<Rightarrow> size_t \<Rightarrow> size_t \<Rightarrow> buffer_view run" where
  "bv_of_buffer buff src_offset src_size = assert_then (sz_add src_size src_offset \<le> buf_size buff)
     (Inr \<lparr>bv_data = (buf_data buff, src_offset),
           bv_size = (if src_size = 0 then sz_sub (buf_size buff) src_offset else src_size)\<rparr>)"

definition bv_copy_to :: "buffer_view \<Rightarrow> u8 block \<Rightarrow> nat \<Rightarrow> size_t \<Rightarrow> size_t \<Rightarrow> u8 block run" where
  "bv_copy_to v dest d src_offset src_size = assert_then (sz_add src_offset src_size \<le> bv_size v)
     (memcpy dest d (advance (bv_data v) src_offset) src_size)"

definition bv_ptr :: "buffer_view \<Rightarrow> cptr" where
  "bv_ptr v = bv_data v"

definition bv_index :: "buffer_view \<Rightarrow> size_t \<Rightarrow> u8 run" where
  "bv_index v index = rd (bv_data v) index"

text \<open>\<open>const_convert_to\<close> of a type of n bytes: the pointer through which the fields are read.\<close>

definition const_convert_to :: "buffer_view \<Rightarrow> size_t \<Rightarrow> cptr run" where
  "const_convert_to v n = assert_then (n \<le> bv_size v) (Inr (bv_data v))"

section \<open>\<open>BufferMutableView\<close>\<close>

definition mv_of_mutable_view :: "buffer_view \<Rightarrow> size_t \<Rightarrow> size_t \<Rightarrow> buffer_view run" where
  "mv_of_mutable_view other src_offset src_size = assert_then (sz_add src_size src_offset \<le> bv_size other)
     (Inr \<lparr>bv_data = advance (bv_data other) src_offset,
           bv_size = (if src_size = 0 then sz_sub (bv_size other) src_offset else src_size)\<rparr>)"

definition mv_raw :: "cptr \<Rightarrow> size_t \<Rightarrow> buffer_view" where
  "mv_raw p n = \<lparr>bv_data = p, bv_size = n\<rparr>"

definition mv_fill_from :: "buffer_view \<Rightarrow> cptr \<Rightarrow> size_t \<Rightarrow> size_t \<Rightarrow> u8 block run" where
  "mv_fill_from v src dest_offset n = assert_then (sz_add dest_offset n \<le> bv_size v)
     (memcpy (fst (bv_data v)) (snd (bv_data v) + dest_offset) src n)"

definition mv_fill_by :: "buffer_view \<Rightarrow> u8 list \<Rightarrow> size_t \<Rightarrow> u8 block run" where
  "mv_fill_by v src dest_offset = assert_then (sz_add dest_offset (length src) \<le> bv_size v)
     (memcpy (fst (bv_data v)) (snd (bv_data v) + dest_offset) (chars src, 0) (length src))"

definition mv_index :: "buffer_view \<Rightarrow> size_t \<Rightarrow> u8 run" where
  "mv_index v index = assert_then (index < bv_size v) (rd (bv_data v) index)"

definition mv_set :: "buffer_view \<Rightarrow> size_t \<Rightarrow> u8 \<Rightarrow> u8 block run" where
  "mv_set v index x = assert_then (index < bv_size v) (assign_slot True (fst (bv_data v)) (snd (bv_data v) + index) x)"

definition mv_copy_to :: "buffer_view \<Rightarrow> u8 block \<Rightarrow> nat \<Rightarrow> size_t \<Rightarrow> size_t \<Rightarrow> u8 block run" where
  "mv_copy_to v dest d src_offset n = assert_then (sz_add src_offset n \<le> bv_size v)
     (memcpy dest d (advance (bv_data v) src_offset) n)"

definition convert_to :: "buffer_view \<Rightarrow> size_t \<Rightarrow> cptr run" where
  "convert_to v n = assert_then (n \<le> bv_size v) (Inr (bv_data v))"

section \<open>\<open>Buffer\<close>\<close>

text \<open>A buffer as the mutable view it is derived from, and the buffer after a write through it.\<close>

definition buf_view :: "buffer \<Rightarrow> buffer_view" where
  "buf_view b = \<lparr>bv_data = (buf_data b, 0), bv_size = buf_size b\<rparr>"

definition buf_write :: "buffer \<Rightarrow> u8 block run \<Rightarrow> buffer run" where
  "buf_write b r = bindr r (\<lambda>d. Inr (b\<lparr>buf_data := d\<rparr>))"

definition buf_new :: "size_t \<Rightarrow> buffer" where
  "buf_new n = \<lparr>buf_data = zeroed n, buf_size = n\<rparr>"

definition buf_copy :: "buffer \<Rightarrow> size_t \<Rightarrow> buffer run" where
  "buf_copy other dest_offset = (let n = sz_add (buf_size other) dest_offset in
     bindr (memcpy (new_block n) dest_offset (buf_data other, 0) (buf_size other)) (\<lambda>d. Inr \<lparr>buf_data = d, buf_size = n\<rparr>))"

definition buf_from_view :: "buffer_view \<Rightarrow> size_t \<Rightarrow> buffer run" where
  "buf_from_view other dest_offset = (let n = sz_add (bv_size other) dest_offset in
     bindr (bv_copy_to other (new_block n) dest_offset 0 (bv_size other)) (\<lambda>d. Inr \<lparr>buf_data = d, buf_size = n\<rparr>))"

definition buf_move :: "buffer \<Rightarrow> buffer \<times> buffer" where
  "buf_move other = (\<lparr>buf_data = buf_data other, buf_size = buf_size other\<rparr>, other\<lparr>buf_data := None\<rparr>)"

text \<open>The assignments, between two different objects as the assertion demands.\<close>

definition buf_assign_copy :: "buffer \<Rightarrow> buffer \<Rightarrow> buffer run" where
  "buf_assign_copy b other = bindr (memcpy (new_block (buf_size other)) 0 (buf_data other, 0) (buf_size other))
     (\<lambda>d. Inr (b\<lparr>buf_data := d, buf_size := buf_size other\<rparr>))"

definition buf_assign_move :: "buffer \<Rightarrow> buffer \<Rightarrow> buffer \<times> buffer" where
  "buf_assign_move b other = (b\<lparr>buf_data := buf_data other, buf_size := buf_size other\<rparr>, other\<lparr>buf_data := None\<rparr>)"

definition buf_destroy :: "buffer \<Rightarrow> buffer" where
  "buf_destroy b = b\<lparr>buf_data := None\<rparr>"

definition buf_resize :: "buffer \<Rightarrow> size_t \<Rightarrow> buffer run" where
  "buf_resize b new_size = assert_then (new_size > buf_size b)
     (if new_size = buf_size b then Inr b
      else bindr (memcpy (new_block new_size) 0 (buf_data b, 0) (buf_size b))
        (\<lambda>d. Inr (b\<lparr>buf_data := d, buf_size := new_size\<rparr>)))"

section \<open>What views and buffers stand for\<close>

text \<open>A view of the bytes cs, and a buffer whose bytes are all written and are cs.\<close>

definition views :: "buffer_view \<Rightarrow> u8 list \<Rightarrow> bool" where
  "views v cs = (bv_size v = length cs \<and> length cs < sz_range \<and> reads (bv_data v) cs)"

definition buf_rep :: "buffer \<Rightarrow> u8 list \<Rightarrow> bool" where
  "buf_rep b cs = (b = \<lparr>buf_data = (if cs = [] then None else chars cs), buf_size = length cs\<rparr> \<and> length cs < sz_range)"

lemma reads_Nil [simp]: "reads p []"
  by (simp add: reads_def)

lemma reads_slice:
  assumes "reads p cs" "off + n \<le> length cs"
  shows "reads (advance p off) (take n (drop off cs))"
  by (rule reads_take) (rule reads_advance [OF assms(1)])

lemma buf_rep_reads: "buf_rep b cs \<Longrightarrow> reads (buf_data b, 0) cs"
  using reads_chars [of "[]" cs "[]"] by (auto simp: buf_rep_def)

lemma buf_rep_views: "buf_rep b cs \<Longrightarrow> views (buf_view b) cs"
  using buf_rep_reads [of b cs] by (auto simp: views_def buf_view_def buf_rep_def)

lemma views_rd: "views v cs \<Longrightarrow> i < length cs \<Longrightarrow> rd (bv_data v) i = Inr (cs ! i)"
  by (simp add: views_def reads_rd)

lemma views_empty: "views bv_empty []"
  by (simp add: views_def bv_empty_def)

lemma views_literal: "length cs = n \<Longrightarrow> n < sz_range \<Longrightarrow> views (bv_raw (chars cs, 0) n) cs"
  using reads_chars [of "[]" cs "[]"] by (simp add: views_def bv_raw_def)

text \<open>A part of a view. A size of 0 stands for the whole rest.\<close>

lemma bv_of_view_law:
  assumes "views v cs" "off + n \<le> length cs"
  shows "\<exists>w. bv_of_view v off n = Inr w \<and> views w (if n = 0 then drop off cs else take n (drop off cs))"
proof -
  have "sz_add n off = n + off" using assms by (simp add: views_def sz_add_eq)
  moreover have "sz_sub (length cs) off = length cs - off" using assms by (simp add: views_def sz_sub_eq)
  moreover have "reads (advance (bv_data v) off) (take n (drop off cs))" "reads (advance (bv_data v) off) (drop off cs)"
    using assms by (auto simp: views_def intro: reads_slice reads_advance)
  ultimately show ?thesis using assms by (auto simp: bv_of_view_def views_def)
qed

lemma bv_of_buffer_law:
  assumes "buf_rep b cs" "off + n \<le> length cs"
  shows "\<exists>w. bv_of_buffer b off n = Inr w \<and> views w (if n = 0 then drop off cs else take n (drop off cs))"
proof -
  have "bv_of_buffer b off n = bv_of_view (buf_view b) off n"
    by (simp add: bv_of_view_def bv_of_buffer_def buf_view_def advance_def)
  then show ?thesis using bv_of_view_law [OF buf_rep_views [OF assms(1)] assms(2)] by simp
qed

lemma const_convert_law: "views v cs \<Longrightarrow> n \<le> length cs \<Longrightarrow> const_convert_to v n = Inr (bv_data v)"
  by (simp add: const_convert_to_def views_def)

lemma const_convert_short: "views v cs \<Longrightarrow> length cs < n \<Longrightarrow> const_convert_to v n = Inl AssertFailed"
  by (simp add: const_convert_to_def views_def)

lemma memcpy_0 [simp]: "memcpy d k p 0 = Inr d"
  by (simp add: memcpy_def)

lemma buf_from_view_law:
  assumes "views v cs" "off + length cs < sz_range"
  shows "buf_from_view v off = Inr \<lparr>buf_data = (if off + length cs = 0 then None else Some (replicate off Raw @ map Live cs)), buf_size = off + length cs\<rparr>"
proof -
  have n: "sz_add (bv_size v) off = off + length cs" "bv_size v = length cs" "sz_add 0 (length cs) = length cs"
    using assms by (simp_all add: views_def sz_add_eq)
  have r: "reads (advance (bv_data v) 0) cs" using assms(1) by (simp add: views_def advance_def)
  show ?thesis
  proof (cases "off + length cs = 0")
    case False
    then have "memcpy (new_block (off + length cs)) off (advance (bv_data v) 0) (length cs) = Inr (Some (replicate off Raw @ map Live cs))"
      using memcpy_law [OF r, of off "replicate (off + length cs) Raw"] by (simp add: new_block_def replicate_add)
    then show ?thesis using n False by (simp add: buf_from_view_def bv_copy_to_def Let_def)
  qed (use n in \<open>auto simp: buf_from_view_def bv_copy_to_def Let_def new_block_def\<close>)
qed

lemma buf_new_rep: "n < sz_range \<Longrightarrow> buf_rep (buf_new n) (replicate n 0)"
  by (simp add: buf_rep_def buf_new_def zeroed_def)

lemma buf_new_size: "buf_size (buf_new n) = n"
  by (simp add: buf_new_def)

lemma memcpy_Live:
  assumes "reads src cs" "d + length cs \<le> length ds"
  shows "memcpy (chars ds) d src (length cs) = Inr (chars (take d ds @ cs @ drop (d + length cs) ds))"
  using memcpy_law [OF assms(1), of d "map Live ds"] assms(2) by (simp add: chars_def take_map drop_map)

lemma buf_fill_law:
  assumes "buf_rep b ds" "reads src cs" "d + length cs \<le> length ds"
  shows "\<exists>b'. buf_write b (mv_fill_from (buf_view b) src d (length cs)) = Inr b' \<and> buf_rep b' (take d ds @ cs @ drop (d + length cs) ds)"
proof (cases "ds = []")
  case True
  then show ?thesis using assms by (auto simp: buf_write_def mv_fill_from_def buf_view_def buf_rep_def sz_add_def)
next
  case False
  then have "take d ds @ cs @ drop (d + length cs) ds \<noteq> []" using assms(3) by auto
  moreover have "sz_add d (length cs) = d + length cs" using assms by (simp add: sz_add_eq buf_rep_def)
  ultimately show ?thesis using assms False memcpy_Live [OF assms(2,3)]
    by (auto simp: buf_write_def mv_fill_from_def buf_view_def buf_rep_def)
qed

lemma buf_fill_by_eq: "mv_fill_by v cs d = mv_fill_from v (chars cs, 0) d (length cs)"
  by (simp add: mv_fill_by_def mv_fill_from_def)

section \<open>Properties\<close>

text \<open>
  Copying a buffer, copying a view into a new buffer and growing a buffer keep the bytes: the copy
  of a buffer and of a view with room for a header in front holds the same bytes behind it, and
  growing leaves raw bytes only behind the old ones. Filling a range that fits changes exactly
  that range; one that does not fit fails the assertion and writes nothing.
\<close>

theorem buffer_copies:
  assumes "buf_rep b cs" "views v ds" "off + length ds < sz_range" "0 < off" "i + length ds < sz_range" "n < sz_range"
  shows "buf_copy b 0 = Inr b \<and>
     ok (buf_from_view v off) (\<lambda>c. reads (buf_data c, off) ds \<and> buf_size c = off + length ds) \<and>
     (if length cs < n then ok (buf_resize b n) (\<lambda>c. reads (buf_data c, 0) cs \<and> buf_size c = n)
      else buf_resize b n = Inl AssertFailed) \<and>
     (if i + length ds \<le> length cs
      then ok (buf_write b (mv_fill_from (buf_view b) (bv_data v) i (length ds))) (\<lambda>c. buf_rep c (take i cs @ ds @ drop (i + length ds) cs))
      else buf_write b (mv_fill_from (buf_view b) (bv_data v) i (length ds)) = Inl AssertFailed)"
proof (intro conjI)
  have r: "reads (buf_data b, 0) cs" and len: "buf_size b = length cs" "length cs < sz_range"
    using assms(1) buf_rep_reads by (auto simp: buf_rep_def)
  have copy: "memcpy (new_block k) 0 (buf_data b, 0) (length cs) = Inr (Some (map Live cs @ replicate (k - length cs) Raw))"
    if "length cs \<le> k" "0 < k" for k
    using memcpy_law [OF r, of 0 "replicate k Raw"] that by (simp add: new_block_def)
  show "buf_copy b 0 = Inr b"
  proof (cases "cs = []")
    case False
    then show ?thesis using copy [of "length cs"] assms(1) len by (simp add: buf_copy_def buf_rep_def sz_add_eq Let_def chars_def)
  qed (use assms(1) in \<open>simp add: buf_copy_def buf_rep_def sz_add_def new_block_def\<close>)
  show "ok (buf_from_view v off) (\<lambda>c. reads (buf_data c, off) ds \<and> buf_size c = off + length ds)"
    using buf_from_view_law [OF assms(2,3)] assms(4) by (simp add: run_simps reads_Some)
  show "if length cs < n then ok (buf_resize b n) (\<lambda>c. reads (buf_data c, 0) cs \<and> buf_size c = n)
      else buf_resize b n = Inl AssertFailed"
    using copy [of n] len by (simp add: buf_resize_def run_simps reads_Some)
  show "if i + length ds \<le> length cs
      then ok (buf_write b (mv_fill_from (buf_view b) (bv_data v) i (length ds))) (\<lambda>c. buf_rep c (take i cs @ ds @ drop (i + length ds) cs))
      else buf_write b (mv_fill_from (buf_view b) (bv_data v) i (length ds)) = Inl AssertFailed"
  proof (cases "i + length ds \<le> length cs")
    case True
    have "reads (bv_data v) ds" using assms(2) by (simp add: views_def)
    from buf_fill_law [OF assms(1) this True] True show ?thesis by (auto simp: run_simps)
  next
    case False
    then show ?thesis using assms(5) len by (simp add: buf_write_def mv_fill_from_def buf_view_def sz_add_eq)
  qed
qed

theorem buffer_copies_witness:
  "buf_rep (buf_new 3) [0, 0, 0] \<and> buf_copy (buf_new 3) 0 = Inr (buf_new 3)"
proof -
  have b: "buf_rep (buf_new 3) [0, 0, 0]" using buf_new_rep [of 3] by (simp add: numeral_3_eq_3)
  have v: "views (bv_raw (chars [7], 0) 1) [7]" by (simp add: views_literal)
  from buffer_copies [OF b v, of 1 2 5] b show ?thesis by simp
qed

text \<open>
  The size of a part of a view is not checked against wrap-around: a size that reaches to the end of
  the address space passes the assertion, and the new view is larger than the one it was made from.
\<close>

theorem view_size_wraps:
  assumes "views v cs" "0 < k" "k \<le> off" "off - k \<le> length cs" "off < sz_range"
  shows "\<exists>w. bv_of_view v off (sz_sub 0 k) = Inr w \<and> bv_size w = sz_range - k"
proof -
  have k: "sz_sub 0 k = sz_range - k" using assms by (simp add: sz_sub_def)
  have "sz_range - k + off = (off - k) + sz_range" using assms by simp
  then have "(sz_range - k + off) mod sz_range = (off - k) mod sz_range" by (simp only: mod_add_self2)
  then have "sz_add (sz_range - k) off = off - k" using assms by (simp add: sz_add_def)
  then show ?thesis using assms k by (simp add: bv_of_view_def views_def)
qed

theorem view_size_wraps_witness:
  "views (bv_raw (chars [7], 0) 1) [7] \<and> (\<exists>w. bv_of_view (bv_raw (chars [7], 0) 1) 1 (sz_sub 0 1) = Inr w \<and> bv_size w = 4294967295)"
proof -
  have v: "views (bv_raw (chars [7], 0) 1) [7]" by (simp add: views_literal)
  from view_size_wraps [OF v, of 1 1] v show ?thesis by simp
qed

end
