(* ===== verification/Network_Bytes.thy ===== *)
theory Network_Bytes
  imports Buffers
begin

text \<open>
  Byte order (endianess.h), the internet checksum (network_algorithms.cpp), \<open>number_of_words\<close>
  (algorithms.h), IPv4 and MAC addresses (ipv4_address.cpp, macaddress.cpp). The processor is
  little endian: a \<open>u16\<close> or \<open>u32\<close> of a packed structure is stored with its low byte first, and an
  array of \<open>u16\<close> over a view reads two bytes each.
\<close>

unbundle bit_operations_syntax

type_synonym u16 = "16 word"
type_synonym u32 = "32 word"

section \<open>Byte order\<close>

definition to_big_endian_u8 :: "u32 \<Rightarrow> u8" where
  "to_big_endian_u8 value = ucast value"

definition to_big_endian_u16 :: "u32 \<Rightarrow> u16" where
  "to_big_endian_u16 value = ucast (drop_bit 8 (value AND 0xFF00) OR push_bit 8 (value AND 0xFF))"

definition to_big_endian_u32 :: "u32 \<Rightarrow> u32" where
  "to_big_endian_u32 value = drop_bit 24 (value AND 0xFF000000) OR drop_bit 8 (value AND 0x00FF0000) OR
     push_bit 8 (value AND 0x0000FF00) OR push_bit 24 (value AND 0x000000FF)"

definition network_word16 :: "u16 \<Rightarrow> u16" where
  "network_word16 value = to_big_endian_u16 (ucast value)"

definition network_word32 :: "u32 \<Rightarrow> u32" where
  "network_word32 value = to_big_endian_u32 value"

text \<open>The bytes of a stored word, and a stored word read back.\<close>

definition le16 :: "u16 \<Rightarrow> u8 list" where
  "le16 w = [ucast w, ucast (drop_bit 8 w)]"

definition le32 :: "u32 \<Rightarrow> u8 list" where
  "le32 w = [ucast w, ucast (drop_bit 8 w), ucast (drop_bit 16 w), ucast (drop_bit 24 w)]"

definition word16 :: "u8 \<Rightarrow> u8 \<Rightarrow> u16" where
  "word16 lo hi = ucast lo OR push_bit 8 (ucast hi)"

definition word32 :: "u8 \<Rightarrow> u8 \<Rightarrow> u8 \<Rightarrow> u8 \<Rightarrow> u32" where
  "word32 a b c d = ucast a OR push_bit 8 (ucast b) OR push_bit 16 (ucast c) OR push_bit 24 (ucast d)"

definition rd16 :: "cptr \<Rightarrow> nat \<Rightarrow> u16 run" where
  "rd16 p i = bindr (rd p i) (\<lambda>lo. bindr (rd p (i + 1)) (\<lambda>hi. Inr (word16 lo hi)))"

definition rd32 :: "cptr \<Rightarrow> nat \<Rightarrow> u32 run" where
  "rd32 p i = bindr (rd p i) (\<lambda>a. bindr (rd p (i + 1)) (\<lambda>b. bindr (rd p (i + 2)) (\<lambda>c. bindr (rd p (i + 3)) (\<lambda>d.
     Inr (word32 a b c d)))))"

section \<open>Checksum\<close>

definition number_of_words :: "size_t \<Rightarrow> size_t \<Rightarrow> size_t" where
  "number_of_words word_size n = (let result = n div word_size in if n mod word_size \<noteq> 0 then sz_add result 1 else result)"

definition sum_words :: "cptr \<Rightarrow> size_t \<Rightarrow> u32 \<Rightarrow> u32 run" where
  "sum_words p n sum0 = for_up 0 n (\<lambda>i s. bindr (rd16 p (2 * i)) (\<lambda>w. Inr (s + ucast (to_big_endian_u16 (ucast w))))) sum0"

lemma fold_step:
  "unat ((s :: u32) AND 0xFFFF) = unat s mod 65536" "unat (drop_bit 16 (s AND 0xFFFF0000)) = unat s div 65536"
  "unat ((s AND 0xFFFF) + drop_bit 16 (s AND 0xFFFF0000)) = unat s mod 65536 + unat s div 65536"
proof -
  have t: "s AND 0xFFFF = take_bit 16 s" by (simp add: take_bit_eq_mask mask_eq_exp_minus_1)
  show l: "unat (s AND 0xFFFF) = unat s mod 65536" unfolding t unsigned_take_bit_eq by (simp add: take_bit_eq_mod)
  have m: "(0xFFFF0000 :: u32) = push_bit 16 (mask 16)" by (simp add: mask_eq_exp_minus_1 push_bit_eq_mult)
  have d: "drop_bit 16 (s AND 0xFFFF0000) = drop_bit 16 s"
    unfolding m by (rule bit_word_eqI) (auto simp: bit_simps dest: bit_imp_le_length)
  show h: "unat (drop_bit 16 (s AND 0xFFFF0000)) = unat s div 65536" unfolding d unsigned_drop_bit_eq
    using unsigned_less [of s, where ?'a = nat] by (simp add: drop_bit_eq_div take_bit_eq_mod)
  have "unat s < 4294967296" using unsigned_less [of s] by simp
  then have "unat s mod 65536 + unat s div 65536 < 4294967296" by linarith
  then show "unat ((s AND 0xFFFF) + drop_bit 16 (s AND 0xFFFF0000)) = unat s mod 65536 + unat s div 65536"
    unfolding unat_word_ariths(1) l h by simp
qed

function fold_sum :: "u32 \<Rightarrow> u32" where
  "fold_sum s = (if s > 0xFFFF then fold_sum ((s AND 0xFFFF) + drop_bit 16 (s AND 0xFFFF0000)) else s)"
  by pat_completeness auto
termination
proof (relation "measure unat", simp)
  fix s :: u32
  assume "s > 0xFFFF"
  then have "65536 \<le> unat s" by (simp add: word_less_nat_alt)
  moreover have "unat s = 65536 * (unat s div 65536) + unat s mod 65536" by simp
  ultimately have "unat s mod 65536 + unat s div 65536 < unat s" by linarith
  then show "((s AND 0xFFFF) + drop_bit 16 (s AND 0xFFFF0000), s) \<in> measure unat" unfolding in_measure fold_step(3) .
qed

declare fold_sum.simps [simp del]

definition complement16 :: "u32 \<Rightarrow> u16" where
  "complement16 s = to_big_endian_u16 (NOT (ucast (ucast s :: u16)))"

definition checksum :: "buffer_view \<Rightarrow> u16 run" where
  "checksum data = bindr (sum_words (bv_ptr data) (number_of_words 2 (bv_size data)) 0) (\<lambda>s. Inr (complement16 (fold_sum s)))"

section \<open>Laws\<close>

lemma bit_u8: "bit (b :: u8) n \<Longrightarrow> n < 8"
  using bit_imp_le_length [of b n] by simp

lemma low_byte_mask: "(0xFF :: u32) = mask 8" "(0xFF00 :: u32) = push_bit 8 (mask 8)" "(0x00FF0000 :: u32) = push_bit 16 (mask 8)"
  "(0xFF000000 :: u32) = push_bit 24 (mask 8)"
  by (simp_all add: mask_eq_exp_minus_1 push_bit_eq_mult)

lemma ucast_word16: "(ucast (drop_bit 8 (word16 lo hi)) :: u8) = hi" "(ucast (word16 lo hi) :: u8) = lo"
proof -
  show "(ucast (drop_bit 8 (word16 lo hi)) :: u8) = hi"
    by (rule bit_word_eqI) (auto simp: word16_def bit_simps dest: bit_u8)
  show "(ucast (word16 lo hi) :: u8) = lo"
    by (rule bit_word_eqI) (auto simp: word16_def bit_simps)
qed

lemma le16_word16 [simp]: "le16 (word16 lo hi) = [lo, hi]"
  by (simp add: le16_def ucast_word16)

lemma word16_le16: "word16 (ucast w) (ucast (drop_bit 8 w)) = w"
  by (rule bit_word_eqI) (auto simp: word16_def bit_simps)

lemma word16_exists: obtains lo hi where "w = word16 lo hi"
  using word16_le16 [of w] by metis

lemma word32_le32: "word32 (ucast w) (ucast (drop_bit 8 w)) (ucast (drop_bit 16 w)) (ucast (drop_bit 24 w)) = w"
proof (rule bit_word_eqI)
  fix n
  assume "n < LENGTH(32)"
  then consider "n < 8" | "8 \<le> n" "n < 16" | "16 \<le> n" "n < 24" | "24 \<le> n" "n < 32" by force
  then show "bit (word32 (ucast w) (ucast (drop_bit 8 w)) (ucast (drop_bit 16 w)) (ucast (drop_bit 24 w))) n = bit w n"
    by cases (auto simp: word32_def bit_simps)
qed

lemma to_big_endian_u16_bytes: "to_big_endian_u16 v = word16 (ucast (drop_bit 8 v)) (ucast v)"
  unfolding to_big_endian_u16_def word16_def low_byte_mask
  by (rule bit_word_eqI) (auto simp: bit_simps)

lemma network_word16_swap: "network_word16 (word16 a b) = word16 b a"
proof -
  have "ucast (drop_bit 8 (ucast (word16 a b) :: u32)) = b" "ucast (ucast (word16 a b) :: u32) = a"
    using ucast_word16 [of a b] by (auto intro!: bit_word_eqI simp: word16_def bit_simps dest: bit_u8)
  then show ?thesis by (simp add: network_word16_def to_big_endian_u16_bytes)
qed

lemma network_word16_twice [simp]: "network_word16 (network_word16 w) = w"
  using word16_le16 [of w] network_word16_swap by metis

lemma network_word32_swap: "network_word32 (word32 a b c d) = word32 d c b a"
proof (rule bit_word_eqI)
  fix n
  assume "n < LENGTH(32)"
  then consider "n < 8" | "8 \<le> n" "n < 16" | "16 \<le> n" "n < 24" | "24 \<le> n" "n < 32" by force
  then show "bit (network_word32 (word32 a b c d)) n = bit (word32 d c b a) n"
    unfolding network_word32_def to_big_endian_u32_def low_byte_mask
    by cases (auto simp: word32_def bit_simps dest: bit_u8)
qed

lemma network_word32_twice [simp]: "network_word32 (network_word32 w) = w"
  using word32_le32 [of w] network_word32_swap by metis

text \<open>A word as a number.\<close>

lemma unat_up: "unat (ucast (b :: u8) :: u16) = unat b" "unat (ucast (w :: u16) :: u32) = unat w"
proof -
  have "unat b < 256" "unat w < 65536" using unsigned_less [of b] unsigned_less [of w] by simp_all
  then show "unat (ucast b :: u16) = unat b" "unat (ucast w :: u32) = unat w"
    by (simp_all add: unsigned_ucast_eq take_bit_eq_mod)
qed

lemma unat_word16: "unat (word16 lo hi) = unat lo + 256 * unat hi"
proof -
  have "ucast lo AND push_bit 8 (ucast hi) = (0 :: u16)" by (rule bit_word_eqI) (auto simp: bit_simps dest: bit_u8)
  then have "word16 lo hi = ucast lo + push_bit 8 (ucast hi)" by (simp add: word16_def disjunctive_add_eq_or)
  also have "\<dots> = ucast lo + 256 * ucast hi" by (simp add: push_bit_eq_mult mult.commute)
  finally have w: "word16 lo hi = ucast lo + 256 * ucast hi" .
  have b: "unat lo < 256" "unat hi < 256" using unsigned_less [of lo] unsigned_less [of hi] by simp_all
  show ?thesis unfolding w using b by (simp add: unat_word_ariths unat_up)
qed

section \<open>The sum of a packet\<close>

text \<open>The sum of the 16-bit words of a packet in network order, and its fold to 16 bits.\<close>

fun be_sum :: "u8 list \<Rightarrow> nat" where
  "be_sum (a # b # cs) = 256 * unat a + unat b + be_sum cs"
| "be_sum [a] = 256 * unat a"
| "be_sum [] = 0"

definition ones_sum :: "nat \<Rightarrow> nat" where
  "ones_sum n = (if n = 0 then 0 else if n mod 65535 = 0 then 65535 else n mod 65535)"

lemma ones_sum_le: "ones_sum n \<le> 65535" "ones_sum n \<le> n"
proof -
  have "n mod 65535 < 65535" by simp
  then show "ones_sum n \<le> 65535" unfolding ones_sum_def by simp
  show "ones_sum n \<le> n" by (auto simp: ones_sum_def dest: dvd_imp_le)
qed

lemma be_sum_append: "even (length xs) \<Longrightarrow> be_sum (xs @ ys) = be_sum xs + be_sum ys"
  by (induction xs rule: be_sum.induct) auto

lemma be_sum_bound: "be_sum xs \<le> 65535 * ((length xs + 1) div 2)"
proof (induction xs rule: be_sum.induct)
  case (1 a b cs)
  have "unat a < 256" "unat b < 256" using unsigned_less [of a] unsigned_less [of b] by simp_all
  with 1 show ?case by simp
next
  case (2 a)
  have "unat a < 256" using unsigned_less [of a] by simp
  then show ?case by simp
qed simp

lemma unat_fold_sum: "unat (fold_sum s) = ones_sum (unat s)"
proof (induction s rule: fold_sum.induct)
  case (1 s)
  let ?t = "(s AND 0xFFFF) + drop_bit 16 (s AND 0xFFFF0000)"
  show ?case
  proof (cases "s > 0xFFFF")
    case True
    then have big: "65536 \<le> unat s" by (simp add: word_less_nat_alt)
    have t: "unat ?t = unat s mod 65536 + unat s div 65536" by (rule fold_step(3))
    have "unat s = unat ?t + 65535 * (unat s div 65536)" unfolding t by simp
    then have "unat s mod 65535 = unat ?t mod 65535" by (metis mod_mult_self2)
    moreover have "unat ?t \<noteq> 0" unfolding t using big by linarith
    ultimately have "ones_sum (unat ?t) = ones_sum (unat s)" using big by (auto simp: ones_sum_def)
    moreover have "fold_sum s = fold_sum ?t" using True by (subst fold_sum.simps) simp
    ultimately show ?thesis using 1 [OF True] by simp
  next
    case False
    then have s: "unat s \<le> 65535" by (simp add: word_less_nat_alt)
    have "ones_sum (unat s) = unat s"
    proof (cases "unat s = 65535")
      case False
      then have "unat s < 65535" using s by simp
      then show ?thesis by (simp add: ones_sum_def)
    qed (simp add: ones_sum_def)
    then show ?thesis using False by (simp add: fold_sum.simps)
  qed
qed

lemma rd16_reads: "reads p cs \<Longrightarrow> i + 1 < length cs \<Longrightarrow> rd16 p i = Inr (word16 (cs ! i) (cs ! (i + 1)))"
  by (simp add: rd16_def reads_rd)

lemma rd32_reads: "reads p cs \<Longrightarrow> i + 3 < length cs \<Longrightarrow> rd32 p i = Inr (word32 (cs ! i) (cs ! (i + 1)) (cs ! (i + 2)) (cs ! (i + 3)))"
  by (simp add: rd32_def reads_rd)

lemma unat_be_word: "unat (ucast (to_big_endian_u16 (ucast (word16 a b))) :: u32) = 256 * unat a + unat b"
proof -
  have "to_big_endian_u16 (ucast (word16 a b)) = word16 b a" using network_word16_swap [of a b] by (simp add: network_word16_def)
  then show ?thesis by (simp add: unat_up unat_word16)
qed

lemma be_sum_take_step: "2 * i + 1 < length cs \<Longrightarrow> be_sum (take (2 * Suc i) cs) = be_sum (take (2 * i) cs) + (256 * unat (cs ! (2 * i)) + unat (cs ! (2 * i + 1)))"
proof -
  assume i: "2 * i + 1 < length cs"
  then have "take (2 * Suc i) cs = take (2 * i) cs @ [cs ! (2 * i), cs ! (2 * i + 1)]"
    by (simp add: take_Suc_conv_app_nth)
  then show ?thesis using i by (simp add: be_sum_append)
qed

lemma be_sum_take_le: "be_sum (take (2 * i) cs) \<le> be_sum cs"
proof (cases "2 * i \<le> length cs")
  case True
  then show ?thesis using be_sum_append [of "take (2 * i) cs" "drop (2 * i) cs"] by simp
qed simp

lemma sum_words_law:
  assumes "reads p cs" "length cs = 2 * n" "unat s + be_sum cs < sz_range"
  shows "ok (sum_words p n s) (\<lambda>t. unat t = unat s + be_sum cs)"
proof -
  have "ok (sum_words p n s) (\<lambda>t. unat t = unat s + be_sum (take (2 * n) cs))"
    unfolding sum_words_def
  proof (rule for_up_rule [where I = "\<lambda>i t. unat t = unat s + be_sum (take (2 * i) cs)"], goal_cases)
    case (3 i t)
    then have i: "2 * i + 1 < length cs" using assms(2) by simp
    have "unat t + (256 * unat (cs ! (2 * i)) + unat (cs ! (2 * i + 1))) < sz_range"
      using be_sum_take_step [OF i] be_sum_take_le [of "Suc i" cs] 3 assms(3) by linarith
    moreover have "unat s + be_sum (take (2 * Suc i) cs) = unat t + (256 * unat (cs ! (2 * i)) + unat (cs ! (2 * i + 1)))"
      unfolding be_sum_take_step [OF i] using 3 by simp
    ultimately show ?case using 3 rd16_reads [OF assms(1), of "2 * i"] i
      by (simp add: run_simps unat_word_ariths unat_be_word)
  qed simp_all
  then show ?thesis using assms(2) by simp
qed

lemma unat_not16: "unat (NOT (w :: u16)) = 65535 - unat w"
proof -
  have "NOT w = - 1 - w" by (simp add: not_eq_complement)
  then have "unat (NOT w) = unat (- 1 :: u16) - unat w" by (simp add: unat_sub)
  moreover have "unat (- 1 :: u16) = 65535" by (simp add: unsigned_minus_1_eq_mask mask_eq_exp_minus_1)
  ultimately show ?thesis by simp
qed

text \<open>The bytes of the value that \<open>checksum\<close> returns are the ones of the complement, high byte first.\<close>

lemma complement16_be:
  obtains hi lo where "complement16 s = word16 hi lo" "256 * unat hi + unat lo = 65535 - unat s mod 65536"
proof
  let ?v = "NOT (ucast (ucast s :: u16) :: u32)"
  show "complement16 s = word16 (ucast (drop_bit 8 ?v)) (ucast ?v)" by (simp add: complement16_def to_big_endian_u16_bytes)
  have e: "ucast ?v = NOT (ucast s :: u16)" by (rule bit_word_eqI) (auto simp: bit_simps)
  have "word16 (ucast ?v) (ucast (drop_bit 8 ?v)) = ucast ?v"
    by (rule bit_word_eqI) (auto simp: word16_def bit_simps)
  then have "unat (ucast ?v :: u8) + 256 * unat (ucast (drop_bit 8 ?v) :: u8) = unat (NOT (ucast s :: u16))"
    using unat_word16 [of "ucast ?v" "ucast (drop_bit 8 ?v)"] e by simp
  also have "\<dots> = 65535 - unat s mod 65536" unfolding unat_not16 by (simp add: unsigned_ucast_eq take_bit_eq_mod)
  finally show "256 * unat (ucast (drop_bit 8 ?v) :: u8) + unat (ucast ?v :: u8) = 65535 - unat s mod 65536"
    by (simp add: add.commute)
qed

lemma number_of_words_even: "even n \<Longrightarrow> number_of_words 2 n = n div 2"
  by (simp add: number_of_words_def)

lemma number_of_words_odd: "odd n \<Longrightarrow> n < sz_range \<Longrightarrow> number_of_words 2 n = (n + 1) div 2"
proof -
  assume n: "odd n" "n < sz_range"
  then have "n mod 2 \<noteq> 0" "n div 2 + 1 < sz_range" "(n + 1) div 2 = n div 2 + 1" by (auto elim: oddE)
  then show ?thesis by (simp add: number_of_words_def sz_add_eq)
qed

text \<open>A sum of packet words fits a \<open>u32\<close> for every packet up to 128 KiB.\<close>

lemma be_sum_fits: "length cs \<le> 131072 \<Longrightarrow> be_sum cs < sz_range"
proof -
  assume "length cs \<le> 131072"
  then have "(length cs + 1) div 2 \<le> 65536" by simp
  then have "be_sum cs \<le> 65535 * 65536" using be_sum_bound [of cs] by (meson le_trans mult_le_mono2)
  then show ?thesis by simp
qed

lemma checksum_law:
  assumes "views v cs" "even (length cs)" "length cs \<le> 131072"
  shows "\<exists>hi lo. checksum v = Inr (word16 hi lo) \<and> 256 * unat hi + unat lo = 65535 - ones_sum (be_sum cs)"
proof -
  have v: "reads (bv_data v) cs" "bv_size v = length cs" using assms(1) by (simp_all add: views_def)
  have "ok (sum_words (bv_data v) (length cs div 2) 0) (\<lambda>t. unat t = unat (0 :: u32) + be_sum cs)"
    by (rule sum_words_law [OF v(1)]) (use assms be_sum_fits [OF assms(3)] in auto)
  then obtain t where t: "sum_words (bv_data v) (length cs div 2) 0 = Inr t" "unat t = be_sum cs" by (auto simp: ok_iff)
  obtain hi lo where c: "complement16 (fold_sum t) = word16 hi lo" "256 * unat hi + unat lo = 65535 - unat (fold_sum t) mod 65536"
    by (rule complement16_be)
  have "256 * unat hi + unat lo = 65535 - ones_sum (be_sum cs)" using c(2) t(2) unat_fold_sum [of t] ones_sum_le(1) [of "be_sum cs"] by simp
  moreover have "checksum v = Inr (word16 hi lo)"
    using t(1) c(1) v(2) by (simp add: checksum_def bv_ptr_def number_of_words_even [OF assms(2)])
  ultimately show ?thesis by blast
qed

section \<open>Addresses\<close>

datatype ipv4_address = IPv4Address u8 u8 u8 u8

datatype mac_address = MACAddress u8 u8 u8 u8 u8 u8

primrec ip_bytes :: "ipv4_address \<Rightarrow> u8 list" where
  "ip_bytes (IPv4Address a b c d) = [a, b, c, d]"

primrec mac_bytes :: "mac_address \<Rightarrow> u8 list" where
  "mac_bytes (MACAddress a b c d e f) = [a, b, c, d, e, f]"

text \<open>The constructors from a pointer and from a word.\<close>

definition ip_of_ptr :: "cptr \<Rightarrow> ipv4_address run" where
  "ip_of_ptr p = bindr (rd p 0) (\<lambda>a. bindr (rd p 1) (\<lambda>b. bindr (rd p 2) (\<lambda>c. bindr (rd p 3) (\<lambda>d. Inr (IPv4Address a b c d)))))"

definition ip_of_u32 :: "u32 \<Rightarrow> ipv4_address" where
  "ip_of_u32 w = IPv4Address (ucast w) (ucast (drop_bit 8 w)) (ucast (drop_bit 16 w)) (ucast (drop_bit 24 w))"

definition mac_of_ptr :: "cptr \<Rightarrow> mac_address run" where
  "mac_of_ptr p = bindr (rd p 0) (\<lambda>a. bindr (rd p 1) (\<lambda>b. bindr (rd p 2) (\<lambda>c. bindr (rd p 3) (\<lambda>d. bindr (rd p 4) (\<lambda>e. bindr (rd p 5) (\<lambda>f.
     Inr (MACAddress a b c d e f)))))))"

definition ip_Broadcast :: ipv4_address where "ip_Broadcast = IPv4Address 0xFF 0xFF 0xFF 0xFF"
definition ip_Zero :: ipv4_address where "ip_Zero = IPv4Address 0 0 0 0"
definition mac_Broadcast :: mac_address where "mac_Broadcast = MACAddress 0xFF 0xFF 0xFF 0xFF 0xFF 0xFF"
definition mac_Zero :: mac_address where "mac_Zero = MACAddress 0 0 0 0 0 0"

text \<open>The loop of both \<open>operator==\<close>, the masks and the element access.\<close>

fun bytes_eq_loop :: "u8 list \<Rightarrow> u8 list \<Rightarrow> bool" where
  "bytes_eq_loop (a # as) (b # bs) = (if a \<noteq> b then False else bytes_eq_loop as bs)"
| "bytes_eq_loop _ _ = True"

definition ip_eq :: "ipv4_address \<Rightarrow> ipv4_address \<Rightarrow> bool" where
  "ip_eq a b = bytes_eq_loop (ip_bytes a) (ip_bytes b)"

definition mac_eq :: "mac_address \<Rightarrow> mac_address \<Rightarrow> bool" where
  "mac_eq a b = bytes_eq_loop (mac_bytes a) (mac_bytes b)"

fun ip_mask :: "ipv4_address \<Rightarrow> ipv4_address \<Rightarrow> ipv4_address" where
  "ip_mask (IPv4Address a b c d) (IPv4Address a' b' c' d') = IPv4Address (a AND a') (b AND b') (c AND c') (d AND d')"

fun mac_mask :: "mac_address \<Rightarrow> mac_address \<Rightarrow> mac_address" where
  "mac_mask (MACAddress a b c d e f) (MACAddress a' b' c' d' e' f') =
     MACAddress (a AND a') (b AND b') (c AND c') (d AND d') (e AND e') (f AND f')"

definition ip_index :: "ipv4_address \<Rightarrow> u8 \<Rightarrow> u8 run" where
  "ip_index a i = arr_get (ip_bytes a) (unat i)"

definition mac_index :: "mac_address \<Rightarrow> u8 \<Rightarrow> u8 run" where
  "mac_index a i = arr_get (mac_bytes a) (unat i)"

definition ip_copy :: "ipv4_address \<Rightarrow> u8 block \<Rightarrow> nat \<Rightarrow> u8 block run" where
  "ip_copy a b d = for_up 0 4 (\<lambda>i b. bindr (arr_get (ip_bytes a) i) (assign_slot True b (d + i))) b"

definition mac_copy :: "mac_address \<Rightarrow> u8 block \<Rightarrow> nat \<Rightarrow> u8 block run" where
  "mac_copy a b d = for_up 0 6 (\<lambda>i b. bindr (arr_get (mac_bytes a) i) (assign_slot True b (d + i))) b"

lemma ip_eq_iff [simp]: "ip_eq a b \<longleftrightarrow> a = b"
  by (cases a; cases b) (auto simp: ip_eq_def)

lemma mac_eq_iff [simp]: "mac_eq a b \<longleftrightarrow> a = b"
  by (cases a; cases b) (auto simp: mac_eq_def)

lemma length_ip_bytes [simp]: "length (ip_bytes a) = 4"
  by (cases a) simp

lemma length_mac_bytes [simp]: "length (mac_bytes a) = 6"
  by (cases a) simp

lemma ip_of_ptr_law: "reads p cs \<Longrightarrow> 4 \<le> length cs \<Longrightarrow> ip_of_ptr p = Inr (IPv4Address (cs ! 0) (cs ! 1) (cs ! 2) (cs ! 3))"
proof -
  assume "reads p cs" "4 \<le> length cs"
  then have "rd p 0 = Inr (cs ! 0)" "rd p 1 = Inr (cs ! 1)" "rd p 2 = Inr (cs ! 2)" "rd p 3 = Inr (cs ! 3)"
    by (auto intro: reads_rd)
  then show ?thesis by (simp add: ip_of_ptr_def)
qed

lemma ip_of_ptr_bytes: "reads p (ip_bytes a) \<Longrightarrow> ip_of_ptr p = Inr a"
  by (cases a) (simp add: ip_of_ptr_def reads_rd)

lemma mac_of_ptr_bytes: "reads p (mac_bytes a) \<Longrightarrow> mac_of_ptr p = Inr a"
  by (cases a) (simp add: mac_of_ptr_def reads_rd)

lemma run_fold_cong: "(\<And>i s. i \<in> set is \<Longrightarrow> f i s = g i s) \<Longrightarrow> run_fold f is s = run_fold g is s"
proof (induction "is" arbitrary: s)
  case (Cons i "is")
  then show ?case by (cases "g i s") simp_all
qed simp

lemma ip_copy_memcpy: "ip_copy a b d = memcpy b d (chars (ip_bytes a), 0) 4"
  unfolding ip_copy_def memcpy_def for_up_def
  by (rule run_fold_cong) (simp add: rd_def chars_def arr_get_def)

lemma mac_copy_memcpy: "mac_copy a b d = memcpy b d (chars (mac_bytes a), 0) 6"
  unfolding mac_copy_def memcpy_def for_up_def
  by (rule run_fold_cong) (simp add: rd_def chars_def arr_get_def)

section \<open>Packed structures\<close>

text \<open>A buffer that holds cs, and the fields of a packed structure read back.\<close>

lemma length_le16 [simp]: "length (le16 w) = 2"
  by (simp add: le16_def)

lemma le16_0 [simp]: "le16 0 = [0, 0]"
  by (simp add: le16_def)

lemma reads_whole: "reads (chars cs, 0) cs"
  using reads_chars [of "[]" cs "[]"] by simp

definition buf_of :: "u8 list \<Rightarrow> buffer" where
  "buf_of cs = \<lparr>buf_data = chars cs, buf_size = length cs\<rparr>"

lemma views_buf_of: "length cs < sz_range \<Longrightarrow> views (buf_view (buf_of cs)) cs"
  by (simp add: views_def buf_view_def buf_of_def reads_whole)

lemma views_drop: "views v cs \<Longrightarrow> k \<le> length cs \<Longrightarrow> \<exists>w. bv_of_view v k 0 = Inr w \<and> views w (drop k cs)"
  using bv_of_view_law [of v cs k 0] by simp

lemma rd16_at:
  assumes "reads p (as @ le16 w @ bs)" "length as = i"
  shows "rd16 p i = Inr w"
proof -
  have "le16 w = [ucast w, ucast (drop_bit 8 w)]" by (simp add: le16_def)
  then show ?thesis using rd16_reads [OF assms(1), of i] assms(2) word16_le16 [of w] by (simp add: nth_append)
qed

lemma rd_at: "reads p (as @ c # bs) \<Longrightarrow> length as = i \<Longrightarrow> rd p i = Inr c"
  using reads_rd [of p "as @ c # bs" i] by (simp add: nth_append)

lemma reads_at: "reads p (as @ cs @ bs) \<Longrightarrow> length as = i \<Longrightarrow> reads (advance p i) cs"
  using reads_take [OF reads_advance [of p "as @ cs @ bs" i], of "length cs"] by simp

lemma views_take: "views v (as @ bs) \<Longrightarrow> views (bv_raw (bv_data v) (length as)) as"
  using reads_take [of "bv_data v" "as @ bs" "length as"] by (simp add: views_def bv_raw_def)

lemma unat_of_nat16: "k < 65536 \<Longrightarrow> unat (of_nat k :: u16) = k"
  by (simp add: unsigned_of_nat take_bit_eq_mod)

lemma buf_fill_by_law:
  assumes "buf_rep b ds" "d + length cs \<le> length ds"
  shows "\<exists>b'. buf_write b (mv_fill_by (buf_view b) cs d) = Inr b' \<and> buf_rep b' (take d ds @ cs @ drop (d + length cs) ds)"
  unfolding buf_fill_by_eq by (rule buf_fill_law [OF assms(1) reads_whole assms(2)])

section \<open>Accepted packets\<close>

lemma word16_eq_0: "word16 hi lo = 0 \<longleftrightarrow> 256 * unat hi + unat lo = 0"
proof
  assume "word16 hi lo = 0"
  then have "unat hi + 256 * unat lo = 0" using unat_word16 [of hi lo] by simp
  then show "256 * unat hi + unat lo = 0" by simp
next
  assume "256 * unat hi + unat lo = 0"
  then have "hi = 0" "lo = 0" by (simp_all add: unat_eq_0)
  then show "word16 hi lo = 0" by (simp add: word16_def)
qed

lemma checksum_zero:
  assumes "views u ds" "even (length ds)" "length ds \<le> 131072"
  shows "checksum u = Inr 0 \<longleftrightarrow> 0 < be_sum ds \<and> 65535 dvd be_sum ds"
proof -
  obtain hi lo where c: "checksum u = Inr (word16 hi lo)" "256 * unat hi + unat lo = 65535 - ones_sum (be_sum ds)"
    using checksum_law [OF assms] by blast
  have "checksum u = Inr 0 \<longleftrightarrow> ones_sum (be_sum ds) = 65535"
    using c ones_sum_le(1) [of "be_sum ds"] word16_eq_0 [of hi lo] by auto
  also have "\<dots> \<longleftrightarrow> 0 < be_sum ds \<and> 65535 dvd be_sum ds"
    using mod_less_divisor [of 65535 "be_sum ds"] by (auto simp: ones_sum_def mod_eq_0_iff_dvd)
  finally show ?thesis .
qed

lemma complement_sum: "0 < n + (65535 - ones_sum n)" "65535 dvd n + (65535 - ones_sum n)"
proof -
  have "n + (65535 - ones_sum n) = n - ones_sum n + 65535" using ones_sum_le [of n] by simp
  moreover have "65535 dvd n - ones_sum n" by (auto simp: ones_sum_def mod_eq_0_iff_dvd)
  ultimately show "0 < n + (65535 - ones_sum n)" "65535 dvd n + (65535 - ones_sum n)" by simp_all
qed

lemma checksum_complete:
  assumes "views v (pre @ [0, 0] @ post)" "views w (pre @ le16 c @ post)" "checksum v = Inr c" "even (length pre)" "even (length post)"
    and "length pre + length post + 2 \<le> 131072"
  shows "checksum w = Inr 0"
proof -
  obtain hi lo where c: "c = word16 hi lo" "256 * unat hi + unat lo = 65535 - ones_sum (be_sum (pre @ [0, 0] @ post))"
    using checksum_law [OF assms(1)] assms(3-6) by auto
  have "be_sum (pre @ [0, 0] @ post) = be_sum pre + be_sum post"
    "be_sum (pre @ le16 c @ post) = be_sum pre + be_sum post + (65535 - ones_sum (be_sum pre + be_sum post))"
    using assms(4) c by (simp_all add: be_sum_append)
  then show ?thesis using checksum_zero [OF assms(2)] complement_sum [of "be_sum pre + be_sum post"] assms(4-6) by (simp add: le16_def)
qed

section \<open>Properties\<close>

text \<open>
  The checksum of the sender is accepted by the receiver: with the checksum field zero, the value
  \<open>checksum\<close> returns, stored in the field, makes the checksum of the whole packet 0. A packet is
  accepted exactly when the sum of its words is a positive multiple of 65535, so a change of one
  word is detected unless it exchanges 0 and 0xFFFF. The loop that folds the sum ends.
\<close>

theorem checksum_accepts:
  assumes "views v (pre @ [0, 0] @ post)" "views w (pre @ le16 c @ post)" "checksum v = Inr c" "even (length pre)" "even (length post)"
    and "length pre + length post + 2 \<le> 131072"
  shows "checksum w = Inr 0 \<and>
     (\<forall>u ds. views u ds \<and> even (length ds) \<and> length ds \<le> 131072 \<longrightarrow> (checksum u = Inr 0 \<longleftrightarrow> 0 < be_sum ds \<and> 65535 dvd be_sum ds))"
  using checksum_complete [OF assms] checksum_zero by blast

theorem checksum_accepts_witness:
  "checksum (bv_raw (chars ([0x12, 0x34] @ [0, 0] @ [0xFF, 0xFF]), 0) 6) = Inr (word16 0xED 0xCB) \<and>
   checksum (bv_raw (chars ([0x12, 0x34] @ le16 (word16 0xED 0xCB) @ [0xFF, 0xFF]), 0) 6) = Inr 0"
proof -
  have v: "views (bv_raw (chars ([0x12, 0x34] @ [0, 0] @ [0xFF, 0xFF]), 0) 6) ([0x12, 0x34] @ [0, 0] @ [0xFF, 0xFF])"
    "views (bv_raw (chars ([0x12, 0x34] @ le16 (word16 0xED 0xCB) @ [0xFF, 0xFF]), 0) 6) ([0x12, 0x34] @ le16 (word16 0xED 0xCB) @ [0xFF, 0xFF])"
    by (rule views_literal; simp)+
  have c: "checksum (bv_raw (chars ([0x12, 0x34] @ [0, 0] @ [0xFF, 0xFF]), 0) 6) = Inr (word16 0xED 0xCB)" by code_simp
  from checksum_accepts [OF v c] c show ?thesis by simp
qed

end
