(* ===== verification/Ip_Layer.thy ===== *)
theory Ip_Layer
  imports Network_Bytes
begin

text \<open>
  The link and network layers: Ethernet frames (ethernet_network_adapter.cpp), the dispatch of a
  received frame (network_adapter.cpp), ARP (arp.cpp) and IPv4 (ipv4.cpp). The state has the
  addresses of the host, the ARP table and, as logs, the frames given to the network card and the
  entries whose waiters were woken. The vector of ARP entries is the list it stands for. A packed
  structure is the list of its bytes in the order of its fields; \<open>put_bytes\<close> assigns such fields.

  A lookup of an address that is not in the table sends a request, adds an entry and waits:
  \<open>mac_address_lookup\<close> then answers \<open>None\<close>, and \<open>mac_address_lookup_resume\<close> is the rest of the
  function, run when the thread was woken. A received frame is handled in a thread of its own, which
  is one call here. \<open>ipv4_handle\<close> returns the payload and the protocol it is handed on to.
\<close>

section \<open>State\<close>

record arp_entry =
  ae_ip :: ipv4_address
  ae_mac :: mac_address

record net =
  n_mac :: mac_address
  n_device_ip :: ipv4_address
  n_gateway_ip :: ipv4_address
  n_subnet_mask :: ipv4_address
  n_arp_table :: "arp_entry list"
  n_frames :: "buffer list"
  n_woken :: "ipv4_address list"

definition put_bytes :: "u8 block \<Rightarrow> nat \<Rightarrow> u8 list \<Rightarrow> u8 block run" where
  "put_bytes b off cs = memcpy b off (chars cs, 0) (length cs)"

section \<open>Ethernet\<close>

definition PROTOCOL_IPv4 :: u16 where "PROTOCOL_IPv4 = 0x0800"
definition PROTOCOL_ARP :: u16 where "PROTOCOL_ARP = 0x0806"

definition ETHERNET_HEADER_SIZE :: size_t where "ETHERNET_HEADER_SIZE = 14"

definition SIZEOF_EthernetFrame :: size_t where "SIZEOF_EthernetFrame = 15"

definition send_frame :: "net \<Rightarrow> u16 \<Rightarrow> mac_address \<Rightarrow> buffer_view \<Rightarrow> net run" where
  "send_frame n type dest data = bindr (buf_from_view data ETHERNET_HEADER_SIZE) (\<lambda>b.
     bindr (convert_to (buf_view b) SIZEOF_EthernetFrame) (\<lambda>_.
     bindr (mac_copy (n_mac n) (buf_data b) 6) (\<lambda>d1.
     bindr (mac_copy dest d1 0) (\<lambda>d2.
     bindr (put_bytes d2 12 (le16 (network_word16 type))) (\<lambda>d3.
     Inr (n\<lparr>n_frames := n_frames n @ [b\<lparr>buf_data := d3\<rparr>]\<rparr>))))))"

section \<open>ARP\<close>

definition ARP_Request :: u16 where "ARP_Request = 1"
definition ARP_Reply :: u16 where "ARP_Reply = 2"
definition SIZEOF_ARPHeader :: size_t where "SIZEOF_ARPHeader = 28"

definition arp_header :: "u16 \<Rightarrow> mac_address \<Rightarrow> ipv4_address \<Rightarrow> mac_address \<Rightarrow> ipv4_address \<Rightarrow> u8 list" where
  "arp_header opcode source_hw source_ip destination_hw destination_ip =
     le16 (network_word16 1) @ le16 (network_word16 PROTOCOL_IPv4) @ [6, 4] @ le16 (network_word16 opcode) @
     mac_bytes source_hw @ ip_bytes source_ip @ mac_bytes destination_hw @ ip_bytes destination_ip"

definition send_arp_request :: "net \<Rightarrow> ipv4_address \<Rightarrow> net run" where
  "send_arp_request n lookup_ip = send_frame n PROTOCOL_ARP mac_Broadcast
     (bv_raw (chars (arp_header ARP_Request (n_mac n) (n_device_ip n) mac_Zero lookup_ip), 0) SIZEOF_ARPHeader)"

definition answer_arp_request :: "net \<Rightarrow> ipv4_address \<Rightarrow> mac_address \<Rightarrow> net run" where
  "answer_arp_request n dest_ip dest_mac = send_frame n PROTOCOL_ARP dest_mac
     (bv_raw (chars (arp_header ARP_Reply (n_mac n) (n_device_ip n) dest_mac dest_ip), 0) SIZEOF_ARPHeader)"

fun set_arp_mac :: "arp_entry list \<Rightarrow> ipv4_address \<Rightarrow> mac_address \<Rightarrow> arp_entry list" where
  "set_arp_mac [] ip mac = []"
| "set_arp_mac (e # es) ip mac = (if ip_eq (ae_ip e) ip then e\<lparr>ae_mac := mac\<rparr> # es else e # set_arp_mac es ip mac)"

definition add_arp_entry :: "net \<Rightarrow> ipv4_address \<Rightarrow> mac_address \<Rightarrow> net" where
  "add_arp_entry n ip mac =
     (if \<not> list_ex (\<lambda>e. ip_eq (ae_ip e) ip) (n_arp_table n)
      then n\<lparr>n_arp_table := n_arp_table n @ [\<lparr>ae_ip = ip, ae_mac = mac\<rparr>]\<rparr>
      else n\<lparr>n_arp_table := set_arp_mac (n_arp_table n) ip mac, n_woken := n_woken n @ [ip]\<rparr>)"

definition arp_handle :: "net \<Rightarrow> buffer_view \<Rightarrow> net run" where
  "arp_handle n data = bindr (const_convert_to data SIZEOF_ARPHeader) (\<lambda>arp.
     bindr (rd16 arp 6) (\<lambda>opcode.
     if network_word16 opcode = ARP_Request then
       bindr (ip_of_ptr (advance arp 24)) (\<lambda>destination_ip.
       if ip_eq destination_ip (n_device_ip n) then
         bindr (ip_of_ptr (advance arp 14)) (\<lambda>source_ip. bindr (mac_of_ptr (advance arp 8)) (answer_arp_request n source_ip))
       else Inr n)
     else if network_word16 opcode = ARP_Reply then
       bindr (ip_of_ptr (advance arp 14)) (\<lambda>source_ip. bindr (mac_of_ptr (advance arp 8)) (\<lambda>source_mac.
         Inr (add_arp_entry n source_ip source_mac)))
     else Inr n))"

definition mac_address_lookup :: "net \<Rightarrow> ipv4_address \<Rightarrow> (mac_address option \<times> net) run" where
  "mac_address_lookup n lookup_ip = (case find (\<lambda>e. ip_eq (ae_ip e) lookup_ip) (n_arp_table n) of
     Some e \<Rightarrow> Inr (Some (ae_mac e), n)
   | None \<Rightarrow> bindr (send_arp_request n lookup_ip) (\<lambda>n1.
       Inr (None, n1\<lparr>n_arp_table := \<lparr>ae_ip = lookup_ip, ae_mac = mac_Zero\<rparr> # n_arp_table n1\<rparr>)))"

text \<open>
  The waiter keeps a reference to the first slot of the vector. It refers to its entry as long as
  no other entry is added in front.
\<close>

definition mac_address_lookup_resume :: "net \<Rightarrow> mac_address run" where
  "mac_address_lookup_resume n = bindr (arr_get (n_arp_table n) 0) (\<lambda>e. Inr (ae_mac e))"

section \<open>IPv4\<close>

datatype ip_protocol = ICMP | TCP | UDP

definition protocol_number :: "ip_protocol \<Rightarrow> u8" where
  "protocol_number p = (case p of ICMP \<Rightarrow> 0x1 | TCP \<Rightarrow> 0x6 | UDP \<Rightarrow> 0x11)"

definition SIZEOF_IPv4Header :: size_t where "SIZEOF_IPv4Header = 20"

definition IPv4_VERSION_LENGTH :: u8 where "IPv4_VERSION_LENGTH = 0x45"

definition ipv4_header :: "u16 \<Rightarrow> u8 \<Rightarrow> u16 \<Rightarrow> ipv4_address \<Rightarrow> ipv4_address \<Rightarrow> u8 list" where
  "ipv4_header total_length protocol header_checksum src dst =
     [IPv4_VERSION_LENGTH, 0] @ le16 total_length @ le16 1 @ le16 0x0040 @ [64, protocol] @ le16 header_checksum @ ip_bytes src @ ip_bytes dst"

definition is_in_local_subnet :: "net \<Rightarrow> ipv4_address \<Rightarrow> bool" where
  "is_in_local_subnet n address = ip_eq (ip_mask address (n_subnet_mask n)) (ip_mask (n_device_ip n) (n_subnet_mask n))"

definition destination_mac_lookup :: "net \<Rightarrow> ipv4_address \<Rightarrow> (mac_address option \<times> net) run" where
  "destination_mac_lookup n address =
     (if ip_eq address ip_Broadcast then Inr (Some mac_Broadcast, n)
      else if ip_eq address (n_device_ip n) then Inr (Some (n_mac n), n)
      else if is_in_local_subnet n address then mac_address_lookup n address
      else mac_address_lookup n (n_gateway_ip n))"

definition ipv4_packet :: "net \<Rightarrow> ipv4_address \<Rightarrow> ip_protocol \<Rightarrow> buffer_view \<Rightarrow> buffer run" where
  "ipv4_packet n destination protocol data = bindr (buf_from_view data SIZEOF_IPv4Header) (\<lambda>b.
     bindr (convert_to (buf_view b) SIZEOF_IPv4Header) (\<lambda>_.
     bindr (put_bytes (buf_data b) 0 (ipv4_header (network_word16 (of_nat (buf_size b))) (protocol_number protocol) 0 (n_device_ip n) destination)) (\<lambda>d1.
     bindr (bv_of_buffer (b\<lparr>buf_data := d1\<rparr>) 0 SIZEOF_IPv4Header) (\<lambda>header.
     bindr (checksum header) (\<lambda>c.
     bindr (put_bytes d1 10 (le16 c)) (\<lambda>d2. Inr (b\<lparr>buf_data := d2\<rparr>)))))))"

text \<open>\<open>send\<close> returns the packet when its thread has to wait for the address of the next hop.\<close>

definition ipv4_send :: "net \<Rightarrow> ipv4_address \<Rightarrow> ip_protocol \<Rightarrow> buffer_view \<Rightarrow> (buffer option \<times> net) run" where
  "ipv4_send n destination protocol data = bindr (ipv4_packet n destination protocol data) (\<lambda>b.
     bindr (destination_mac_lookup n destination) (\<lambda>(mac, n1). case mac of
       None \<Rightarrow> Inr (Some b, n1)
     | Some m \<Rightarrow> bindr (send_frame n1 PROTOCOL_IPv4 m (buf_view b)) (\<lambda>n2. Inr (None, n2))))"

definition ipv4_send_resume :: "net \<Rightarrow> buffer \<Rightarrow> net run" where
  "ipv4_send_resume n b = bindr (mac_address_lookup_resume n) (\<lambda>m. send_frame n PROTOCOL_IPv4 m (buf_view b))"

definition ipv4_is_packet_ok :: "cptr \<Rightarrow> bool run" where
  "ipv4_is_packet_ok packet = bindr (checksum (bv_raw packet SIZEOF_IPv4Header)) (\<lambda>c. Inr (c = 0))"

definition header_length :: "u8 \<Rightarrow> size_t" where
  "header_length value = unat (value AND 0xF) * 4"

definition ipv4_handle :: "buffer_view \<Rightarrow> (ip_protocol \<times> ipv4_address \<times> buffer_view) option run" where
  "ipv4_handle data = bindr (const_convert_to data SIZEOF_IPv4Header) (\<lambda>ip_packet.
     bindr (rd16 ip_packet 2) (\<lambda>total_length.
     bindr (ipv4_is_packet_ok ip_packet) (\<lambda>good.
     if \<not> good then Inr None
     else bindr (rd ip_packet 0) (\<lambda>version_length.
       let packet_size = unat (network_word16 total_length); header_len = header_length version_length in
       bindr (bv_of_view data header_len (sz_sub packet_size header_len)) (\<lambda>extracted_data.
       bindr (rd ip_packet 9) (\<lambda>protocol. bindr (ip_of_ptr (advance ip_packet 12)) (\<lambda>src.
         if protocol = 0x1 then Inr (Some (ICMP, src, extracted_data))
         else if protocol = 0x6 then Inr (Some (TCP, src, extracted_data))
         else if protocol = 0x11 then Inr (Some (UDP, src, extracted_data))
         else Inr None)))))))"

section \<open>Received frames\<close>

definition handle_received_frame :: "net \<Rightarrow> u16 \<Rightarrow> buffer_view \<Rightarrow> ((ip_protocol \<times> ipv4_address \<times> buffer_view) option \<times> net) run" where
  "handle_received_frame n type data = bindr (buf_from_view data 0) (\<lambda>b.
     if type = PROTOCOL_ARP then bindr (arp_handle n (buf_view b)) (\<lambda>n1. Inr (None, n1))
     else if type = PROTOCOL_IPv4 then bindr (ipv4_handle (buf_view b)) (\<lambda>d. Inr (d, n))
     else Inr (None, n))"

definition handle_received_ethernet_frame :: "net \<Rightarrow> buffer_view \<Rightarrow> ((ip_protocol \<times> ipv4_address \<times> buffer_view) option \<times> net) run" where
  "handle_received_ethernet_frame n data = bindr (const_convert_to data SIZEOF_EthernetFrame) (\<lambda>frame.
     bindr (rd16 frame 12) (\<lambda>type. bindr (bv_of_view data ETHERNET_HEADER_SIZE 0) (handle_received_frame n (network_word16 type))))"

section \<open>Frames on the wire\<close>

lemma put_bytes_law:
  "off + length cs \<le> length b \<Longrightarrow> put_bytes (Some b) off cs = Inr (Some (take off b @ map Live cs @ drop (off + length cs) b))"
  unfolding put_bytes_def by (rule memcpy_law [OF reads_whole])

lemma mac_copy_law: "off + 6 \<le> length b \<Longrightarrow> mac_copy a (Some b) off = Inr (Some (take off b @ map Live (mac_bytes a) @ drop (off + 6) b))"
  using put_bytes_law [of off "mac_bytes a" b] by (simp add: mac_copy_memcpy put_bytes_def)

definition wire_frame :: "u16 \<Rightarrow> mac_address \<Rightarrow> mac_address \<Rightarrow> u8 list \<Rightarrow> u8 list" where
  "wire_frame type src dest cs = mac_bytes dest @ mac_bytes src @ le16 (network_word16 type) @ cs"

lemma send_frame_law:
  assumes "views v cs" "cs \<noteq> []" "length cs + 14 < sz_range"
  shows "send_frame n type dest v = Inr (n\<lparr>n_frames := n_frames n @ [buf_of (wire_frame type (n_mac n) dest cs)]\<rparr>)"
proof -
  let ?b0 = "replicate 14 Raw @ map Live cs"
  let ?b1 = "replicate 6 Raw @ map Live (mac_bytes (n_mac n)) @ replicate 2 Raw @ map Live cs"
  let ?b2 = "map Live (mac_bytes dest) @ map Live (mac_bytes (n_mac n)) @ replicate 2 Raw @ map Live cs"
  have b: "buf_from_view v 14 = Inr \<lparr>buf_data = Some ?b0, buf_size = 14 + length cs\<rparr>"
    using buf_from_view_law [OF assms(1), of 14] assms(3) by simp
  have c: "convert_to (buf_view \<lparr>buf_data = Some ?b0, buf_size = 14 + length cs\<rparr>) 15 = Inr (Some ?b0, 0)"
    using assms(2) by (cases cs) (simp_all add: convert_to_def buf_view_def)
  have 1: "mac_copy (n_mac n) (Some ?b0) 6 = Inr (Some ?b1)" using mac_copy_law [of 6 ?b0 "n_mac n"] by simp
  have 2: "mac_copy dest (Some ?b1) 0 = Inr (Some ?b2)" using mac_copy_law [of 0 ?b1 dest] by simp
  have 3: "put_bytes (Some ?b2) 12 (le16 (network_word16 type)) = Inr (chars (wire_frame type (n_mac n) dest cs))"
    using put_bytes_law [of 12 "le16 (network_word16 type)" ?b2] by (simp add: chars_def wire_frame_def)
  show ?thesis unfolding send_frame_def ETHERNET_HEADER_SIZE_def SIZEOF_EthernetFrame_def b bindr.simps c
    by (simp only: 1 2 3 bindr.simps buffer.simps) (simp add: buf_of_def wire_frame_def)
qed

lemma receive_frame:
  assumes "views v (wire_frame type src dest cs)" "cs \<noteq> []"
  shows "\<exists>b. handle_received_ethernet_frame n v = handle_received_frame n type b \<and> views b cs"
proof -
  have r: "reads (bv_data v) ((mac_bytes dest @ mac_bytes src) @ le16 (network_word16 type) @ cs)"
    and len: "15 \<le> length (wire_frame type src dest cs)"
    using assms by (cases cs; simp add: views_def wire_frame_def)+
  have "rd16 (bv_data v) 12 = Inr (network_word16 type)" by (rule rd16_at [OF r]) simp
  moreover obtain w where "bv_of_view v 14 0 = Inr w" "views w cs"
    using views_drop [OF assms(1), of 14] len by (auto simp: wire_frame_def)
  moreover have "const_convert_to v 15 = Inr (bv_data v)" by (rule const_convert_law [OF assms(1) len])
  ultimately show ?thesis unfolding handle_received_ethernet_frame_def SIZEOF_EthernetFrame_def ETHERNET_HEADER_SIZE_def by auto
qed

lemma copied_frame:
  assumes "views v cs" "cs \<noteq> []"
  shows "buf_from_view v 0 = Inr (buf_of cs)" "views (buf_view (buf_of cs)) cs"
proof -
  show "buf_from_view v 0 = Inr (buf_of cs)" using buf_from_view_law [OF assms(1), of 0] assms by (simp add: buf_of_def chars_def views_def)
  show "views (buf_view (buf_of cs)) cs" using assms(1) by (intro views_buf_of) (simp add: views_def)
qed

section \<open>ARP\<close>

lemma length_arp_header [simp]: "length (arp_header op smac sip dmac dip) = 28"
  by (simp add: arp_header_def)

lemma arp_handle_law:
  assumes "views v (arp_header op smac sip dmac dip @ pad)"
  shows "arp_handle n v =
    (if op = ARP_Request then if dip = n_device_ip n then answer_arp_request n sip smac else Inr n
     else if op = ARP_Reply then Inr (add_arp_entry n sip smac) else Inr n)"
proof -
  let ?p = "bv_data v" and ?pre = "le16 (network_word16 1) @ le16 (network_word16 PROTOCOL_IPv4) @ [6, 4]"
  have r: "reads ?p (?pre @ le16 (network_word16 op) @ mac_bytes smac @ ip_bytes sip @ mac_bytes dmac @ ip_bytes dip @ pad)"
    using assms by (simp add: views_def arp_header_def)
  have "const_convert_to v 28 = Inr ?p" by (rule const_convert_law [OF assms]) simp
  moreover have "rd16 ?p 6 = Inr (network_word16 op)" by (rule rd16_at [OF r]) simp
  moreover have "mac_of_ptr (advance ?p 8) = Inr smac"
    by (rule mac_of_ptr_bytes, rule reads_at [of _ "?pre @ le16 (network_word16 op)"]) (use r in \<open>simp_all\<close>)
  moreover have "ip_of_ptr (advance ?p 14) = Inr sip"
    by (rule ip_of_ptr_bytes, rule reads_at [of _ "?pre @ le16 (network_word16 op) @ mac_bytes smac"]) (use r in \<open>simp_all\<close>)
  moreover have "ip_of_ptr (advance ?p 24) = Inr dip"
    by (rule ip_of_ptr_bytes, rule reads_at [of _ "?pre @ le16 (network_word16 op) @ mac_bytes smac @ ip_bytes sip @ mac_bytes dmac"])
      (use r in \<open>simp_all\<close>)
  ultimately show ?thesis by (simp add: arp_handle_def SIZEOF_ARPHeader_def)
qed

lemma send_arp_request_law:
  "send_arp_request n ip = Inr (n\<lparr>n_frames := n_frames n @
     [buf_of (wire_frame PROTOCOL_ARP (n_mac n) mac_Broadcast (arp_header ARP_Request (n_mac n) (n_device_ip n) mac_Zero ip))]\<rparr>)"
  unfolding send_arp_request_def by (rule send_frame_law [OF views_literal]) (simp_all add: SIZEOF_ARPHeader_def arp_header_def)

lemma answer_arp_request_law:
  "answer_arp_request n ip mac = Inr (n\<lparr>n_frames := n_frames n @
     [buf_of (wire_frame PROTOCOL_ARP (n_mac n) mac (arp_header ARP_Reply (n_mac n) (n_device_ip n) mac ip))]\<rparr>)"
  unfolding answer_arp_request_def by (rule send_frame_law [OF views_literal]) (simp_all add: SIZEOF_ARPHeader_def arp_header_def)

text \<open>What the table knows of an address.\<close>

definition arp_known :: "net \<Rightarrow> ipv4_address \<Rightarrow> mac_address option" where
  "arp_known n ip = map_option ae_mac (find (\<lambda>e. ae_ip e = ip) (n_arp_table n))"

lemma find_set_arp_mac:
  "find (\<lambda>e. ae_ip e = ip) (set_arp_mac es ip' mac) =
     (if ip = ip' then map_option (\<lambda>e. e\<lparr>ae_mac := mac\<rparr>) (find (\<lambda>e. ae_ip e = ip) es) else find (\<lambda>e. ae_ip e = ip) es)"
  by (induction es) auto

lemma find_append: "find P (xs @ ys) = (case find P xs of None \<Rightarrow> find P ys | Some x \<Rightarrow> Some x)"
  by (induction xs) auto

lemma arp_known_add: "arp_known (add_arp_entry n ip mac) ip' = (if ip' = ip then Some mac else arp_known n ip')"
proof (cases "list_ex (\<lambda>e. ae_ip e = ip) (n_arp_table n)")
  case True
  then have "find (\<lambda>e. ae_ip e = ip) (n_arp_table n) \<noteq> None" by (auto simp: list_ex_iff find_None_iff)
  then obtain e where "find (\<lambda>e. ae_ip e = ip) (n_arp_table n) = Some e" by blast
  with True show ?thesis by (simp add: arp_known_def add_arp_entry_def find_set_arp_mac)
next
  case False
  then have "find (\<lambda>e. ae_ip e = ip) (n_arp_table n) = None" by (auto simp: list_ex_iff find_None_iff)
  with False show ?thesis by (auto simp: arp_known_def add_arp_entry_def find_append split: option.splits)
qed

lemma mac_address_lookup_known: "arp_known n ip = Some m \<Longrightarrow> mac_address_lookup n ip = Inr (Some m, n)"
  by (auto simp: arp_known_def mac_address_lookup_def)

lemma received_arp:
  assumes "cs = arp_header op smac sip dmac dip"
  shows "handle_received_ethernet_frame n (buf_view (buf_of (wire_frame PROTOCOL_ARP src dest cs))) =
    bindr (arp_handle n (buf_view (buf_of cs))) (\<lambda>n1. Inr (None, n1))"
proof -
  have len: "length cs = 28" using assms by simp
  then have ne: "cs \<noteq> []" by auto
  have "views (buf_view (buf_of (wire_frame PROTOCOL_ARP src dest cs))) (wire_frame PROTOCOL_ARP src dest cs)"
    by (rule views_buf_of) (simp add: wire_frame_def len)
  from receive_frame [OF this ne, of n] obtain b where
    b: "handle_received_ethernet_frame n (buf_view (buf_of (wire_frame PROTOCOL_ARP src dest cs))) = handle_received_frame n PROTOCOL_ARP b" "views b cs"
    by blast
  show ?thesis unfolding b(1) handle_received_frame_def using copied_frame(1) [OF b(2) ne] by simp
qed

section \<open>IPv4 packets\<close>

lemma length_ipv4_header [simp]: "length (ipv4_header l p c src dst) = 20"
  by (simp add: ipv4_header_def)

lemma ipv4_header_split:
  obtains pre post where "length pre = 10" "length post = 8" "\<And>c. ipv4_header l p c src dst = pre @ le16 c @ post"
proof
  show "ipv4_header l p c src dst = ([IPv4_VERSION_LENGTH, 0] @ le16 l @ le16 1 @ le16 0x0040 @ [64, p]) @ le16 c @ (ip_bytes src @ ip_bytes dst)" for c
    by (simp add: ipv4_header_def)
qed simp_all

text \<open>The packet \<open>send\<close> builds, with a header whose checksum is right.\<close>

definition good_header :: "u8 list \<Rightarrow> bool" where
  "good_header h = (\<forall>v. views v h \<longrightarrow> checksum v = Inr 0)"

lemma ipv4_packet_law:
  assumes "views v cs" "length cs + 20 < 65536"
  shows "\<exists>c. ipv4_packet n dst p v = Inr (buf_of (ipv4_header (network_word16 (of_nat (20 + length cs))) (protocol_number p) c (n_device_ip n) dst @ cs)) \<and>
     good_header (ipv4_header (network_word16 (of_nat (20 + length cs))) (protocol_number p) c (n_device_ip n) dst)"
proof -
  define H where "H c = ipv4_header (network_word16 (of_nat (20 + length cs))) (protocol_number p) c (n_device_ip n) dst" for c
  obtain pre post where split: "length pre = 10" "length post = 8" "\<And>c. H c = pre @ le16 c @ post"
    unfolding H_def by (rule ipv4_header_split) blast
  have len: "length (H c) = 20" for c by (simp add: H_def)
  let ?b = "\<lparr>buf_data = Some (replicate 20 Raw @ map Live cs), buf_size = 20 + length cs\<rparr>"
  have 1: "buf_from_view v 20 = Inr ?b" using buf_from_view_law [OF assms(1), of 20] assms(2) by simp
  have 2: "convert_to (buf_view ?b) 20 = Inr (Some (replicate 20 Raw @ map Live cs), 0)" by (simp add: convert_to_def buf_view_def)
  have 3: "put_bytes (Some (replicate 20 Raw @ map Live cs)) 0 (H 0) = Inr (chars (H 0 @ cs))"
    using put_bytes_law [of 0 "H 0" "replicate 20 Raw @ map Live cs"] by (simp add: len chars_def)
  have "buf_rep \<lparr>buf_data = chars (H 0 @ cs), buf_size = 20 + length cs\<rparr> (H 0 @ cs)"
    using assms(2) len [of 0] by (auto simp: buf_rep_def)
  from bv_of_buffer_law [OF this, of 0 20] obtain w where
    4: "bv_of_buffer \<lparr>buf_data = chars (H 0 @ cs), buf_size = 20 + length cs\<rparr> 0 20 = Inr w" "views w (H 0)"
    by (auto simp: len)
  obtain c where 5: "checksum w = Inr c" using checksum_law [OF 4(2)] by (auto simp: len)
  have 6: "put_bytes (chars (H 0 @ cs)) 10 (le16 c) = Inr (chars (H c @ cs))"
    using put_bytes_law [of 10 "le16 c" "map Live (H 0 @ cs)"] split by (simp add: chars_def)
  have good: "good_header (H c)" unfolding good_header_def
  proof (intro allI impI)
    fix u
    assume "views u (H c)"
    then show "checksum u = Inr 0" using checksum_complete [of w pre post u c] 4(2) 5 split by simp
  qed
  have "ipv4_packet n dst p v = Inr (buf_of (H c @ cs))"
    unfolding ipv4_packet_def SIZEOF_IPv4Header_def 1 bindr.simps 2
    using 3 4(1) 5 6 len [of c] by (simp add: buf_of_def del: of_nat_add flip: H_def)
  then show ?thesis using good unfolding H_def by blast
qed

definition known_protocol :: "u8 \<Rightarrow> ip_protocol option" where
  "known_protocol p = (if p = 0x1 then Some ICMP else if p = 0x6 then Some TCP else if p = 0x11 then Some UDP else None)"

lemma known_protocol_number [simp]: "known_protocol (protocol_number p) = Some p"
  by (cases p) (simp_all add: known_protocol_def protocol_number_def)

text \<open>
  What \<open>handle\<close> does with an accepted header without options: the part of the view it hands on
  depends on the length field.
\<close>

lemma ipv4_handle_law:
  assumes "views v (ipv4_header l p c src dst @ cs)" "good_header (ipv4_header l p c src dst)"
  shows "ipv4_handle v = bindr (bv_of_view v 20 (sz_sub (unat (network_word16 l)) 20))
     (\<lambda>w. Inr (map_option (\<lambda>q. (q, src, w)) (known_protocol p)))"
proof -
  let ?p = "bv_data v"
  have r: "reads ?p (([0x45, 0] @ le16 l @ le16 1 @ le16 0x0040 @ [64, p] @ le16 c) @ ip_bytes src @ ip_bytes dst @ cs)"
    using assms(1) by (simp add: views_def ipv4_header_def IPv4_VERSION_LENGTH_def)
  have "const_convert_to v 20 = Inr ?p" by (rule const_convert_law [OF assms(1)]) simp
  moreover have "rd16 ?p 2 = Inr l" by (rule rd16_at [of _ "[0x45, 0]"]) (use r in simp_all)
  moreover have "ipv4_is_packet_ok ?p = Inr True"
    using assms(2) views_take [OF assms(1)] by (simp add: good_header_def ipv4_is_packet_ok_def SIZEOF_IPv4Header_def)
  moreover have "rd ?p 0 = Inr 0x45" by (rule rd_at [of _ "[]"]) (use r in simp_all)
  moreover have "rd ?p 9 = Inr p" by (rule rd_at [of _ "[0x45, 0] @ le16 l @ le16 1 @ le16 0x0040 @ [64]"]) (use r in simp_all)
  moreover have "ip_of_ptr (advance ?p 12) = Inr src" by (rule ip_of_ptr_bytes, rule reads_at [OF r]) simp
  moreover have "header_length 0x45 = 20" by (simp add: header_length_def)
  ultimately show ?thesis
    by (cases "bv_of_view v 20 (sz_sub (unat (network_word16 l)) 20)") (simp_all add: ipv4_handle_def SIZEOF_IPv4Header_def known_protocol_def)
qed

section \<open>Properties\<close>

text \<open>
  (C27) Address resolution between two hosts: a lookup that finds no entry sends one request; the host
  that owns the address answers with its own address and keeps its state; the answer fills the
  entry and wakes the waiter, which gets the hardware address of the owner, and so does every
  later lookup. What the table knows of other addresses does not change. A host that does not own
  the address does nothing.
\<close>

theorem arp_resolves:
  assumes "arp_known a ip = None" "n_device_ip b = ip" "n_device_ip c \<noteq> ip"
  shows "\<exists>a1 request answer b1 a2. mac_address_lookup a ip = Inr (None, a1) \<and> n_frames a1 = n_frames a @ [request] \<and>
     handle_received_ethernet_frame c (buf_view request) = Inr (None, c) \<and>
     handle_received_ethernet_frame b (buf_view request) = Inr (None, b1) \<and> b1 = b\<lparr>n_frames := n_frames b @ [answer]\<rparr> \<and>
     handle_received_ethernet_frame a1 (buf_view answer) = Inr (None, a2) \<and> n_woken a2 = n_woken a @ [ip] \<and>
     mac_address_lookup_resume a2 = Inr (n_mac b) \<and> mac_address_lookup a2 ip = Inr (Some (n_mac b), a2) \<and>
     (\<forall>ip'. ip' \<noteq> ip \<longrightarrow> arp_known a2 ip' = arp_known a ip')"
proof -
  let ?req = "arp_header ARP_Request (n_mac a) (n_device_ip a) mac_Zero ip"
  let ?ans = "arp_header ARP_Reply (n_mac b) ip (n_mac a) (n_device_ip a)"
  let ?fr = "buf_of (wire_frame PROTOCOL_ARP (n_mac a) mac_Broadcast ?req)"
  let ?fa = "buf_of (wire_frame PROTOCOL_ARP (n_mac b) (n_mac a) ?ans)"
  let ?a1 = "a\<lparr>n_frames := n_frames a @ [?fr], n_arp_table := \<lparr>ae_ip = ip, ae_mac = mac_Zero\<rparr> # n_arp_table a\<rparr>"
  let ?a2 = "add_arp_entry ?a1 ip (n_mac b)"
  have v: "views (buf_view (buf_of (arp_header op s t d e))) (arp_header op s t d e @ [])" for op s t d e
    using views_buf_of [of "arp_header op s t d e"] by simp
  have none: "find (\<lambda>e. ae_ip e = ip) (n_arp_table a) = None" using assms(1) by (simp add: arp_known_def)
  have 1: "mac_address_lookup a ip = Inr (None, ?a1)"
    using none by (simp add: mac_address_lookup_def send_arp_request_law)
  have 2: "handle_received_ethernet_frame c (buf_view ?fr) = Inr (None, c)"
    using assms(3) by (simp add: received_arp [OF refl] arp_handle_law [OF v])
  have 3: "handle_received_ethernet_frame b (buf_view ?fr) = Inr (None, b\<lparr>n_frames := n_frames b @ [?fa]\<rparr>)"
    using assms(2) by (simp add: received_arp [OF refl] arp_handle_law [OF v] answer_arp_request_law)
  have 4: "handle_received_ethernet_frame ?a1 (buf_view ?fa) = Inr (None, ?a2)"
    by (simp add: received_arp [OF refl] arp_handle_law [OF v] ARP_Request_def ARP_Reply_def)
  have 5: "n_woken ?a2 = n_woken a @ [ip]" "mac_address_lookup_resume ?a2 = Inr (n_mac b)"
    by (simp_all add: add_arp_entry_def mac_address_lookup_resume_def arr_get_def)
  have 6: "mac_address_lookup ?a2 ip = Inr (Some (n_mac b), ?a2)"
    by (rule mac_address_lookup_known) (simp add: arp_known_add)
  have "\<forall>ip'. ip' \<noteq> ip \<longrightarrow> arp_known ?a2 ip' = arp_known a ip'" unfolding arp_known_add by (simp add: arp_known_def)
  then show ?thesis using 1 2 3 4 5 6
    by (intro exI [of _ ?a1] exI [of _ ?fr] exI [of _ ?fa] exI [of _ "b\<lparr>n_frames := n_frames b @ [?fa]\<rparr>"] exI [of _ ?a2]) simp
qed

theorem arp_resolves_witness:
  "\<exists>a b c. arp_known a (IPv4Address 10 0 2 2) = None \<and> n_device_ip b = IPv4Address 10 0 2 2 \<and> n_device_ip c \<noteq> IPv4Address 10 0 2 2 \<and>
     (\<exists>a1 request answer b1 a2. mac_address_lookup a (IPv4Address 10 0 2 2) = Inr (None, a1) \<and> n_frames a1 = n_frames a @ [request] \<and>
     handle_received_ethernet_frame c (buf_view request) = Inr (None, c) \<and>
     handle_received_ethernet_frame b (buf_view request) = Inr (None, b1) \<and> b1 = b\<lparr>n_frames := n_frames b @ [answer]\<rparr> \<and>
     handle_received_ethernet_frame a1 (buf_view answer) = Inr (None, a2) \<and> n_woken a2 = n_woken a @ [IPv4Address 10 0 2 2] \<and>
     mac_address_lookup_resume a2 = Inr (n_mac b) \<and> mac_address_lookup a2 (IPv4Address 10 0 2 2) = Inr (Some (n_mac b), a2) \<and>
     (\<forall>ip'. ip' \<noteq> IPv4Address 10 0 2 2 \<longrightarrow> arp_known a2 ip' = arp_known a ip'))"
proof -
  define host where "host ip = \<lparr>n_mac = MACAddress 2 0 0 0 0 1, n_device_ip = ip, n_gateway_ip = IPv4Address 10 0 2 2,
    n_subnet_mask = IPv4Address 255 255 255 0, n_arp_table = [], n_frames = [], n_woken = []\<rparr>" for ip
  have h: "arp_known (host (IPv4Address 10 0 2 15)) (IPv4Address 10 0 2 2) = None"
    "n_device_ip (host (IPv4Address 10 0 2 2)) = IPv4Address 10 0 2 2" "n_device_ip (host (IPv4Address 10 0 2 15)) \<noteq> IPv4Address 10 0 2 2"
    by (simp_all add: host_def arp_known_def)
  from arp_resolves [OF h] h show ?thesis by blast
qed



text \<open>
  The length field of a received header is not checked. A field below 20 makes the size of the
  payload wrap around, and the transport layer is handed a view of almost the whole address space
  behind the header; the assertion of the view does not notice. A field of exactly 20, a packet
  without payload, is handed on with everything behind the header, the padding of the frame.
\<close>

theorem ipv4_short_length_overruns:
  assumes "views v (ipv4_header l p c src dst @ cs)" "good_header (ipv4_header l p c src dst)" "known_protocol p = Some q"
  shows "(unat (network_word16 l) < 20 \<longrightarrow>
       (\<exists>w. ipv4_handle v = Inr (Some (q, src, w)) \<and> bv_size w = sz_range - (20 - unat (network_word16 l)))) \<and>
     (unat (network_word16 l) = 20 \<longrightarrow> (\<exists>w. ipv4_handle v = Inr (Some (q, src, w)) \<and> views w cs))"
proof (intro conjI impI)
  note handle = ipv4_handle_law [OF assms(1,2)]
  let ?t = "unat (network_word16 l)"
  assume t: "?t < 20"
  have s: "sz_sub ?t 20 = sz_range - (20 - ?t)" using t by (simp add: sz_sub_wrap)
  have "sz_add (sz_range - (20 - ?t)) 20 = ?t"
  proof -
    have "sz_range - (20 - ?t) + 20 = ?t + sz_range" using t by simp
    then show ?thesis using t unfolding sz_add_def by (simp only: mod_add_self2) simp
  qed
  moreover have "20 \<le> bv_size v" using assms(1) by (simp add: views_def)
  moreover have "sz_range - (20 - ?t) \<noteq> 0" using t by simp
  ultimately have "\<exists>w. bv_of_view v 20 (sz_range - (20 - ?t)) = Inr w \<and> bv_size w = sz_range - (20 - ?t)"
    using t by (simp add: bv_of_view_def)
  then obtain w where "bv_of_view v 20 (sz_range - (20 - ?t)) = Inr w" "bv_size w = sz_range - (20 - ?t)" by blast
  then show "\<exists>w. ipv4_handle v = Inr (Some (q, src, w)) \<and> bv_size w = sz_range - (20 - ?t)"
    unfolding handle s using assms(3) by (intro exI [of _ w]) simp
next
  note handle = ipv4_handle_law [OF assms(1,2)]
  assume t: "unat (network_word16 l) = 20"
  obtain w where "bv_of_view v 20 0 = Inr w" "views w cs" using views_drop [OF assms(1), of 20] by auto
  then show "\<exists>w. ipv4_handle v = Inr (Some (q, src, w)) \<and> views w cs"
    unfolding handle t using assms(3) by (intro exI [of _ w]) (simp add: sz_sub_eq)
qed

theorem ipv4_short_length_overruns_witness:
  "good_header (ipv4_header 0 6 (word16 0x39 0xF9) ip_Zero ip_Zero) \<and>
   (\<exists>w. ipv4_handle (buf_view (buf_of (ipv4_header 0 6 (word16 0x39 0xF9) ip_Zero ip_Zero))) = Inr (Some (TCP, ip_Zero, w)) \<and> bv_size w = 4294967276)"
proof -
  let ?h = "ipv4_header 0 6 (word16 0x39 0xF9) ip_Zero ip_Zero"
  have "be_sum ?h = 65535" by (simp add: ipv4_header_def IPv4_VERSION_LENGTH_def le16_def ip_Zero_def word16_def)
  then have g: "good_header ?h" using checksum_zero [of _ ?h] by (simp add: good_header_def)
  have v: "views (buf_view (buf_of ?h)) (?h @ [])" using views_buf_of [of ?h] by simp
  have "unat (network_word16 0) = 0" by (simp add: network_word16_def to_big_endian_u16_def)
  moreover have "known_protocol 6 = Some TCP" by (simp add: known_protocol_def)
  ultimately show ?thesis using ipv4_short_length_overruns [OF v g, of TCP] g by auto
qed

end
