(* ===== verification/Results.thy ===== *)
theory Results
  imports Prelude
begin

text \<open>
  \<open>Result\<close> (result.h) and the error codes (error_codes.h). A result holds an error code or a value;
  code 0 stands for success, and reading the value of a result with an error fails an assertion.
\<close>

type_synonym error_code = nat

definition ERROR_UNDEFINED :: error_code where "ERROR_UNDEFINED = 1"
definition ERROR_FILE_DOES_NOT_EXIST :: error_code where "ERROR_FILE_DOES_NOT_EXIST = 2"
definition ERROR_MOUNTPOINT_EXISTS :: error_code where "ERROR_MOUNTPOINT_EXISTS = 3"
definition ERROR_EOF :: error_code where "ERROR_EOF = 4"
definition ERROR_INVALID_PARAMETER :: error_code where "ERROR_INVALID_PARAMETER = 5"
definition ERROR_INVALID_EXECUTABLE :: error_code where "ERROR_INVALID_EXECUTABLE = 6"
definition ERROR_NO_ROOT_NODE :: error_code where "ERROR_NO_ROOT_NODE = 8"
definition ERROR_INVALID_OPERATION :: error_code where "ERROR_INVALID_OPERATION = 9"
definition ERROR_FILE_ALREADY_EXISTS :: error_code where "ERROR_FILE_ALREADY_EXISTS = 10"
definition ERROR_DEVICE_ALREADY_EXISTS :: error_code where "ERROR_DEVICE_ALREADY_EXISTS = 11"
definition ERROR_DEVICE_DOESNOT_EXIST :: error_code where "ERROR_DEVICE_DOESNOT_EXIST = 12"
definition ERROR_FS_ALREADY_EXISTS :: error_code where "ERROR_FS_ALREADY_EXISTS = 13"
definition ERROR_INVALID_HANDLE :: error_code where "ERROR_INVALID_HANDLE = 14"
definition ERROR_INVALID_PID :: error_code where "ERROR_INVALID_PID = 15"
definition ERROR_ACCESS_DENIED :: error_code where "ERROR_ACCESS_DENIED = 17"
definition ERROR_CONNECTION_DENIED :: error_code where "ERROR_CONNECTION_DENIED = 18"
definition ERROR_CONNECTION_CLOSED :: error_code where "ERROR_CONNECTION_CLOSED = 19"
definition ERROR_CONNECTION_TIMEOUT :: error_code where "ERROR_CONNECTION_TIMEOUT = 20"
definition ERROR_PORT_ALREADY_IN_USE :: error_code where "ERROR_PORT_ALREADY_IN_USE = 21"
definition ERROR_BUFFER_OVERFLOW :: error_code where "ERROR_BUFFER_OVERFLOW = 22"
definition ERROR_ECHO_BAD_REPLY :: error_code where "ERROR_ECHO_BAD_REPLY = 23"
definition ERROR_ECHO_TIMEOUT :: error_code where "ERROR_ECHO_TIMEOUT = 24"
definition ERROR_DNS_UNRESOLVABLE :: error_code where "ERROR_DNS_UNRESOLVABLE = 25"

datatype 'a result = ResultError error_code | Result 'a

definition result_error :: "'a result \<Rightarrow> error_code" where
  "result_error r = (case r of ResultError e \<Rightarrow> e | Result _ \<Rightarrow> 0)"

definition is_error :: "'a result \<Rightarrow> bool" where
  "is_error r = (result_error r \<noteq> 0)"

definition result_value :: "'a result \<Rightarrow> 'a run" where
  "result_value r = assert_then (\<not> is_error r) (case r of ResultError _ \<Rightarrow> Inl Lifetime | Result x \<Rightarrow> Inr x)"

lemma result_error_simps [simp]: "result_error (ResultError e) = e" "result_error (Result x) = 0"
  by (simp_all add: result_error_def)

lemma is_error_simps [simp]: "is_error (ResultError e) \<longleftrightarrow> e \<noteq> 0" "\<not> is_error (Result x)"
  by (simp_all add: is_error_def)

lemma result_value_Result [simp]: "result_value (Result x) = Inr x"
  by (simp add: result_value_def)

end
