(* ===== verification/Datagrams.thy ===== *)
theory Datagrams
  imports Network_Bytes Bitmaps Results
begin

text \<open>
  UDP (udp.cpp) and the echo requests of ICMP (icmp.cpp). The datagrams handed to \<open>IPv4::send\<close> and
  the wake-ups of the wait queues are logs of the state. A call that waits is split where it waits:
  the first part registers the connection, the second one runs when the thread was woken. The
  fields a connection gets from a datagram are unset before it arrives. The vectors of connections
  are the lists they stand for.
\<close>

section \<open>UDP\<close>

record socket_address =
  sa_ip :: ipv4_address
  sa_port :: u16

record udp_connection =
  uc_dest_port :: u16
  uc_src_port :: "u16 option"
  uc_src_ip :: ipv4_address
  uc_buffer :: buffer_view
  uc_data_size :: "size_t option"

record udp =
  u_connections :: "udp_connection list"
  u_ports :: bitmap
  u_sent :: "(ipv4_address \<times> buffer) list"
  u_woken :: "u16 list"

definition SIZEOF_UDPHeader :: size_t where "SIZEOF_UDPHeader = 8"

definition udp_new :: udp where
  "udp_new = \<lparr>u_connections = [], u_ports = bm_new 65535, u_sent = [], u_woken = []\<rparr>"

definition udp_header :: "u16 \<Rightarrow> u16 \<Rightarrow> u16 \<Rightarrow> u8 list" where
  "udp_header source_port destination_port total_length =
     le16 (network_word16 source_port) @ le16 (network_word16 destination_port) @ le16 (network_word16 total_length) @ le16 0"

definition udp_send_segment :: "udp \<Rightarrow> socket_address \<Rightarrow> u16 \<Rightarrow> buffer_view \<Rightarrow> (unit result \<times> udp) run" where
  "udp_send_segment u dest src_port data = (let b = buf_new (sz_add SIZEOF_UDPHeader (bv_size data)) in
     bindr (convert_to (buf_view b) SIZEOF_UDPHeader) (\<lambda>_.
     bindr (buf_write b (mv_fill_by (buf_view b) (udp_header src_port (sa_port dest) (of_nat (SIZEOF_UDPHeader + bv_size data))) 0)) (\<lambda>b1.
     bindr (buf_write b1 (mv_fill_from (buf_view b1) (bv_ptr data) SIZEOF_UDPHeader (bv_size data))) (\<lambda>b2.
     Inr (Result (), u\<lparr>u_sent := u_sent u @ [(sa_ip dest, b2)]\<rparr>)))))"

definition udp_send :: "udp \<Rightarrow> socket_address \<Rightarrow> buffer_view \<Rightarrow> (size_t result \<times> udp) run" where
  "udp_send u dest data = bindr (bm_find_first_clear (u_ports u) 0) (\<lambda>port. let src_port = of_nat port in
     bindr (udp_send_segment u dest src_port data) (\<lambda>(r, u1).
     if is_error r then Inr (ResultError (result_error r), u1)
     else bindr (bm_clear (u_ports u1) (unat src_port)) (\<lambda>p. Inr (Result (bv_size data), u1\<lparr>u_ports := p\<rparr>))))"

definition udp_send_from :: "udp \<Rightarrow> socket_address \<Rightarrow> u16 \<Rightarrow> buffer_view \<Rightarrow> (size_t result \<times> udp) run" where
  "udp_send_from u dest src_port data = bindr (bm_check_set (u_ports u) (unat src_port)) (\<lambda>used.
     if used then Inr (ResultError ERROR_PORT_ALREADY_IN_USE, u)
     else bindr (udp_send_segment u dest src_port data) (\<lambda>(r, u1).
     if is_error r then Inr (ResultError (result_error r), u1)
     else bindr (bm_clear (u_ports u1) (unat src_port)) (\<lambda>p. Inr (Result (bv_size data), u1\<lparr>u_ports := p\<rparr>))))"

text \<open>\<open>receive_segment\<close> up to its wait, with the position of the new connection, and behind it.\<close>

definition udp_receive_enter :: "udp \<Rightarrow> u16 \<Rightarrow> buffer_view \<Rightarrow> (nat \<times> udp) run" where
  "udp_receive_enter u dest_port buffer = assert_then (\<not> list_ex (\<lambda>c. uc_dest_port c = dest_port) (u_connections u))
     (Inr (length (u_connections u), u\<lparr>u_connections := u_connections u @
        [\<lparr>uc_dest_port = dest_port, uc_src_port = None, uc_src_ip = ip_Zero, uc_buffer = buffer, uc_data_size = None\<rparr>]\<rparr>))"

definition set_field :: "'a option \<Rightarrow> 'a run" where
  "set_field x = (case x of None \<Rightarrow> Inl Lifetime | Some y \<Rightarrow> Inr y)"

text \<open>The result has the storage the caller gave, as the datagram left it.\<close>

definition udp_receive_leave :: "udp \<Rightarrow> nat \<Rightarrow> ((socket_address \<times> size_t) result \<times> buffer_view \<times> udp) run" where
  "udp_receive_leave u i = bindr (arr_get (u_connections u) i) (\<lambda>c.
     bindr (set_field (uc_src_port c)) (\<lambda>port. bindr (set_field (uc_data_size c)) (\<lambda>n.
     Inr (Result (\<lparr>sa_ip = uc_src_ip c, sa_port = port\<rparr>, n), uc_buffer c,
       u\<lparr>u_connections := filter (\<lambda>x. uc_dest_port x \<noteq> uc_dest_port c) (u_connections u)\<rparr>))))"

fun deliver :: "ipv4_address \<Rightarrow> u16 \<Rightarrow> u16 \<Rightarrow> buffer_view \<Rightarrow> udp_connection list \<Rightarrow> udp_connection list run" where
  "deliver src_ip src_port dest_port data [] = Inr []"
| "deliver src_ip src_port dest_port data (c # cs) =
     (if uc_dest_port c = dest_port then
        let n = sz_sub (bv_size data) SIZEOF_UDPHeader in
        bindr (mv_fill_from (uc_buffer c) (advance (bv_ptr data) SIZEOF_UDPHeader) 0 n) (\<lambda>d.
        Inr (c\<lparr>uc_src_port := Some src_port, uc_src_ip := src_ip, uc_data_size := Some n,
               uc_buffer := (uc_buffer c)\<lparr>bv_data := (d, snd (bv_data (uc_buffer c)))\<rparr>\<rparr> # cs))
      else bindr (deliver src_ip src_port dest_port data cs) (\<lambda>cs'. Inr (c # cs')))"

definition udp_handle :: "udp \<Rightarrow> ipv4_address \<Rightarrow> buffer_view \<Rightarrow> udp run" where
  "udp_handle u src_ip data = bindr (const_convert_to data SIZEOF_UDPHeader) (\<lambda>segment.
     bindr (rd16 segment 2) (\<lambda>destination_port. bindr (rd16 segment 0) (\<lambda>source_port.
     let dest_port = network_word16 destination_port in
     if list_ex (\<lambda>c. uc_dest_port c = dest_port) (u_connections u) then
       bindr (deliver src_ip (network_word16 source_port) dest_port data (u_connections u)) (\<lambda>cs.
         Inr (u\<lparr>u_connections := cs, u_woken := u_woken u @ [dest_port]\<rparr>))
     else Inr u)))"

section \<open>ICMP\<close>

datatype ping_state = Sent | SuccessfulReply | BadReply

record ping =
  pg_state :: ping_state
  pg_dest :: ipv4_address

record icmp =
  i_connections :: "ping list"
  i_sent :: "(ipv4_address \<times> buffer) list"
  i_woken :: "ipv4_address list"

definition SIZEOF_EchoPacket :: size_t where "SIZEOF_EchoPacket = 8"

definition EchoReply :: u8 where "EchoReply = 0"
definition EchoRequest :: u8 where "EchoRequest = 8"

definition echo_packet :: "u8 \<Rightarrow> u16 \<Rightarrow> u16 \<Rightarrow> u16 \<Rightarrow> u8 list" where
  "echo_packet type c echo_id echo_seq = [type, 0] @ le16 c @ le16 echo_id @ le16 echo_seq"

definition send_echo_request_enter :: "icmp \<Rightarrow> ipv4_address \<Rightarrow> (nat \<times> icmp) run" where
  "send_echo_request_enter s address = (let b = buf_new SIZEOF_EchoPacket in
     bindr (convert_to (buf_view b) SIZEOF_EchoPacket) (\<lambda>_.
     bindr (buf_write b (mv_fill_by (buf_view b) (echo_packet EchoRequest 0 0x61 0x7A) 0)) (\<lambda>b1.
     bindr (checksum (buf_view b1)) (\<lambda>c.
     bindr (buf_write b1 (mv_fill_by (buf_view b1) (le16 c) 2)) (\<lambda>b2.
     Inr (length (i_connections s), s\<lparr>i_sent := i_sent s @ [(address, b2)],
       i_connections := i_connections s @ [\<lparr>pg_state = Sent, pg_dest = address\<rparr>]\<rparr>))))))"

definition send_echo_request_leave :: "icmp \<Rightarrow> nat \<Rightarrow> (unit result \<times> icmp) run" where
  "send_echo_request_leave s i = bindr (arr_get (i_connections s) i) (\<lambda>c.
     let s1 = s\<lparr>i_connections := filter (\<lambda>x. \<not> ip_eq (pg_dest x) (pg_dest c)) (i_connections s)\<rparr> in
     case pg_state c of SuccessfulReply \<Rightarrow> Inr (Result (), s1)
     | BadReply \<Rightarrow> Inr (ResultError ERROR_ECHO_BAD_REPLY, s1)
     | Sent \<Rightarrow> Inr (ResultError ERROR_ECHO_TIMEOUT, s1))"

definition is_icmp_reply_ok :: "buffer_view \<Rightarrow> bool run" where
  "is_icmp_reply_ok data = bindr (const_convert_to data SIZEOF_EchoPacket) (\<lambda>p.
     bindr (rd16 p 4) (\<lambda>echo_id. bindr (rd16 p 6) (\<lambda>echo_seq.
     if echo_id \<noteq> 0x61 \<or> echo_seq \<noteq> 0x7A then Inr False
     else bindr (checksum data) (\<lambda>c. Inr (c = 0)))))"

fun set_ping :: "ping list \<Rightarrow> ipv4_address \<Rightarrow> ping_state \<Rightarrow> ping list" where
  "set_ping [] ip st = []"
| "set_ping (c # cs) ip st = (if ip_eq (pg_dest c) ip then c\<lparr>pg_state := st\<rparr> # cs else c # set_ping cs ip st)"

definition handle_echo_reply :: "icmp \<Rightarrow> ipv4_address \<Rightarrow> buffer_view \<Rightarrow> icmp run" where
  "handle_echo_reply s source_ip data =
     (if \<not> list_ex (\<lambda>c. ip_eq (pg_dest c) source_ip) (i_connections s) then Inr s
      else bindr (is_icmp_reply_ok data) (\<lambda>good.
        Inr (s\<lparr>i_connections := set_ping (i_connections s) source_ip (if good then SuccessfulReply else BadReply),
               i_woken := i_woken s @ [source_ip]\<rparr>)))"

definition handle_icmp_reply :: "icmp \<Rightarrow> ipv4_address \<Rightarrow> buffer_view \<Rightarrow> icmp run" where
  "handle_icmp_reply s source_ip data = bindr (const_convert_to data SIZEOF_EchoPacket) (\<lambda>p. bindr (rd p 0) (\<lambda>type.
     if type = EchoReply then handle_echo_reply s source_ip data else Inr s))"

section \<open>Segments\<close>

lemma length_udp_header [simp]: "length (udp_header a b c) = 8"
  by (simp add: udp_header_def)

lemma udp_fields:
  assumes "views v (udp_header sp dp l @ cs)"
  shows "rd16 (bv_data v) 0 = Inr (network_word16 sp)" "rd16 (bv_data v) 2 = Inr (network_word16 dp)" "const_convert_to v 8 = Inr (bv_data v)"
proof -
  have r: "reads (bv_data v) ([] @ le16 (network_word16 sp) @ le16 (network_word16 dp) @ le16 (network_word16 l) @ le16 0 @ cs)"
    using assms by (simp add: views_def udp_header_def)
  show "rd16 (bv_data v) 0 = Inr (network_word16 sp)" by (rule rd16_at [OF r]) simp
  show "rd16 (bv_data v) 2 = Inr (network_word16 dp)" by (rule rd16_at [of _ "le16 (network_word16 sp)"]) (use r in simp_all)
  show "const_convert_to v 8 = Inr (bv_data v)" by (rule const_convert_law [OF assms]) simp
qed

lemma buf_rep_buf_of: "buf_rep b cs \<Longrightarrow> cs \<noteq> [] \<Longrightarrow> b = buf_of cs"
  by (simp add: buf_rep_def buf_of_def)

lemma buf_rep_of: "cs \<noteq> [] \<Longrightarrow> length cs < sz_range \<Longrightarrow> buf_rep (buf_of cs) cs"
  by (simp add: buf_rep_def buf_of_def)

lemma udp_send_segment_law:
  assumes "views v cs" "length cs + 8 < 65536"
  shows "udp_send_segment u dest port v =
     Inr (Result (), u\<lparr>u_sent := u_sent u @ [(sa_ip dest, buf_of (udp_header port (sa_port dest) (of_nat (8 + length cs)) @ cs))]\<rparr>)"
proof -
  let ?n = "8 + length cs" and ?h = "udp_header port (sa_port dest) (of_nat (8 + length cs))"
  have n: "sz_add 8 (length cs) = ?n" and v: "bv_size v = length cs" "reads (bv_data v) cs"
    using assms by (simp_all add: sz_add_eq views_def)
  have b0: "buf_rep (buf_new ?n) (replicate ?n 0)" by (rule buf_new_rep) (use assms(2) in simp)
  have c: "\<exists>p. convert_to (buf_view (buf_new ?n)) 8 = Inr p" by (simp add: convert_to_def buf_view_def buf_new_def)
  obtain b1 where b1: "buf_write (buf_new ?n) (mv_fill_by (buf_view (buf_new ?n)) ?h 0) = Inr b1" "buf_rep b1 (?h @ replicate (length cs) 0)"
    using buf_fill_by_law [OF b0, of 0 ?h] by auto
  obtain b2 where b2: "buf_write b1 (mv_fill_from (buf_view b1) (bv_data v) 8 (length cs)) = Inr b2" "buf_rep b2 (?h @ cs)"
    using buf_fill_law [OF b1(2) v(2), of 8] by auto
  have "?h @ cs \<noteq> []" by (simp add: udp_header_def le16_def)
  then have "b2 = buf_of (?h @ cs)" using b2(2) buf_rep_buf_of by blast
  then show ?thesis using n v(1) c b1(1) b2(1)
    by (auto simp: udp_send_segment_def SIZEOF_UDPHeader_def bv_ptr_def Let_def simp del: of_nat_add)
qed

lemma deliver_law:
  assumes "fst (bv_data (uc_buffer c)) = chars st" "snd (bv_data (uc_buffer c)) + bv_size (uc_buffer c) \<le> length st"
    and "views v (h @ cs)" "length h = 8" "length cs \<le> bv_size (uc_buffer c)" "bv_size (uc_buffer c) < sz_range" "uc_dest_port c = port"
    and "\<not> list_ex (\<lambda>x. uc_dest_port x = port) as"
  shows "\<exists>d. deliver ip sp port v (as @ c # bs) = Inr (as @ c\<lparr>uc_src_port := Some sp, uc_src_ip := ip, uc_data_size := Some (length cs),
       uc_buffer := (uc_buffer c)\<lparr>bv_data := (d, snd (bv_data (uc_buffer c)))\<rparr>\<rparr> # bs) \<and> reads (d, snd (bv_data (uc_buffer c))) cs"
proof -
  let ?o = "snd (bv_data (uc_buffer c))"
  have n: "sz_sub (bv_size v) 8 = length cs" using assms(3,4) by (simp add: views_def sz_sub_eq)
  have r: "reads (advance (bv_data v) 8) cs" using assms(3,4) reads_at [of "bv_data v" h cs "[]" 8] by (simp add: views_def)
  have m: "memcpy (chars st) ?o (advance (bv_data v) 8) (length cs) = Inr (chars (take ?o st @ cs @ drop (?o + length cs) st))"
    by (rule memcpy_Live [OF r]) (use assms(2,5) in simp)
  have f: "mv_fill_from (uc_buffer c) (advance (bv_data v) 8) 0 (length cs) = Inr (chars (take ?o st @ cs @ drop (?o + length cs) st))"
    using m assms(1,5,6) by (simp add: mv_fill_from_def sz_add_eq)
  have rd: "reads (chars (take ?o st @ cs @ drop (?o + length cs) st), ?o) cs"
    using reads_chars [of "take ?o st" cs "drop (?o + length cs) st"] assms(2) by (simp add: min_absorb2)
  have "deliver ip sp port v (as @ c # bs) = Inr (as @ c\<lparr>uc_src_port := Some sp, uc_src_ip := ip, uc_data_size := Some (length cs),
       uc_buffer := (uc_buffer c)\<lparr>bv_data := (chars (take ?o st @ cs @ drop (?o + length cs) st), ?o)\<rparr>\<rparr> # bs)"
    using assms(8)
  proof (induction as)
    case Nil
    then show ?case using f n assms(7) by (simp add: SIZEOF_UDPHeader_def bv_ptr_def Let_def)
  qed simp
  then show ?thesis using rd by blast
qed

section \<open>Echo replies\<close>

lemma set_ping_miss: "\<not> list_ex (\<lambda>c. pg_dest c = ip) cs \<Longrightarrow> set_ping (cs @ [\<lparr>pg_state = t, pg_dest = ip\<rparr>]) ip st = cs @ [\<lparr>pg_state = st, pg_dest = ip\<rparr>]"
  by (induction cs) auto

lemma is_icmp_reply_ok_law:
  assumes "views v ([EchoReply, code] @ le16 c @ le16 echo_id @ le16 echo_seq @ payload)" "even (length payload)" "length payload + 8 \<le> 65536"
  shows "is_icmp_reply_ok v = Inr (echo_id = 0x61 \<and> echo_seq = 0x7A \<and> checksum v = Inr 0)"
proof -
  have r: "reads (bv_data v) (([EchoReply, code] @ le16 c) @ le16 echo_id @ le16 echo_seq @ payload)" using assms(1) by (simp add: views_def)
  have "rd16 (bv_data v) 4 = Inr echo_id" by (rule rd16_at [OF r]) simp
  moreover have "rd16 (bv_data v) 6 = Inr echo_seq"
    by (rule rd16_at [of _ "[EchoReply, code] @ le16 c @ le16 echo_id"]) (use r in simp_all)
  moreover have "const_convert_to v 8 = Inr (bv_data v)" by (rule const_convert_law [OF assms(1)]) simp
  moreover obtain k where "checksum v = Inr k" using checksum_law [OF assms(1)] assms(2,3) by auto
  ultimately show ?thesis by (auto simp: is_icmp_reply_ok_def SIZEOF_EchoPacket_def)
qed

section \<open>Properties\<close>



text \<open>
  A datagram larger than the buffer of the waiting receiver fails the assertion of the copy: any
  host can stop the kernel by sending one.
\<close>

theorem udp_oversized_datagram_panics:
  assumes "udp_receive_enter r port buf = Inr (i, r1)" "views v (udp_header sp port len @ cs)" "bv_size buf < length cs"
  shows "udp_handle r1 src v = Inl AssertFailed"
proof -
  define c where "c = \<lparr>uc_dest_port = port, uc_src_port = None, uc_src_ip = ip_Zero, uc_buffer = buf, uc_data_size = None\<rparr>"
  have fresh: "\<not> list_ex (\<lambda>x. uc_dest_port x = port) (u_connections r)" and r1: "r1 = r\<lparr>u_connections := u_connections r @ [c]\<rparr>"
    using assms(1) by (auto simp: udp_receive_enter_def c_def elim!: assert_InrE)
  have n: "sz_sub (bv_size v) 8 = length cs" "sz_add 0 (length cs) = length cs" using assms(2) by (simp_all add: views_def sz_sub_eq sz_add_eq)
  have "deliver src sp port v (as @ [c]) = Inl AssertFailed" if "\<not> list_ex (\<lambda>x. uc_dest_port x = port) as" for as
    using that by (induction as) (use n assms(3) in \<open>simp_all add: c_def SIZEOF_UDPHeader_def mv_fill_from_def Let_def\<close>)
  then have "deliver src sp port v (u_connections r @ [c]) = Inl AssertFailed" using fresh by blast
  then show ?thesis using udp_fields [OF assms(2)] by (simp add: udp_handle_def SIZEOF_UDPHeader_def r1 c_def Let_def)
qed

theorem udp_oversized_datagram_panics_witness:
  "\<exists>r1. udp_receive_enter udp_new 53 (buf_view (buf_of [0])) = Inr (0, r1) \<and>
     udp_handle r1 ip_Zero (buf_view (buf_of (udp_header 1000 53 10 @ [1, 2]))) = Inl AssertFailed"
proof -
  obtain r1 where e: "udp_receive_enter udp_new 53 (buf_view (buf_of [0])) = Inr (0, r1)" by (simp add: udp_receive_enter_def udp_new_def)
  have v: "views (buf_view (buf_of (udp_header 1000 53 10 @ [1, 2]))) (udp_header 1000 53 10 @ [1, 2])" by (rule views_buf_of) simp
  have "bv_size (buf_view (buf_of [0])) < length ([1, 2] :: u8 list)" by (simp add: buf_view_def buf_of_def)
  from udp_oversized_datagram_panics [OF e v this] e show ?thesis by blast
qed

text \<open>
  An echo request: it goes out with a correct checksum, and the call ends in one of three ways. A
  reply from the host that repeats the identifier and the sequence number and has a correct
  checksum ends it with success, any other echo reply of even length from that host with
  \<open>ERROR_ECHO_BAD_REPLY\<close>, and no reply with \<open>ERROR_ECHO_TIMEOUT\<close>. The connection is removed in every case.
\<close>

theorem icmp_echo_outcome:
  assumes "\<not> list_ex (\<lambda>c. pg_dest c = ip) (i_connections s)"
    and "views v ([EchoReply, code] @ le16 c @ le16 echo_id @ le16 echo_seq @ payload)" "even (length payload)" "length payload + 8 \<le> 65536"
  shows "\<exists>i s1 request s2. send_echo_request_enter s ip = Inr (i, s1) \<and> i_sent s1 = i_sent s @ [(ip, request)] \<and>
     checksum (buf_view request) = Inr 0 \<and>
     send_echo_request_leave s1 i = Inr (ResultError ERROR_ECHO_TIMEOUT, s\<lparr>i_sent := i_sent s1\<rparr>) \<and>
     handle_icmp_reply s1 ip v = Inr s2 \<and> i_woken s2 = i_woken s @ [ip] \<and>
     send_echo_request_leave s2 i =
       Inr (if echo_id = 0x61 \<and> echo_seq = 0x7A \<and> checksum v = Inr 0 then Result () else ResultError ERROR_ECHO_BAD_REPLY,
         s\<lparr>i_sent := i_sent s1, i_woken := i_woken s2\<rparr>)"
proof -
  let ?conn = "\<lparr>pg_state = Sent, pg_dest = ip\<rparr>"
  have len: "length (echo_packet t c a b) = 8" for t c a b by (simp add: echo_packet_def)
  have b0: "buf_rep (buf_new 8) (replicate 8 0)" by (rule buf_new_rep) simp
  obtain b1 where b1: "buf_write (buf_new 8) (mv_fill_by (buf_view (buf_new 8)) (echo_packet EchoRequest 0 0x61 0x7A) 0) = Inr b1"
    "buf_rep b1 (echo_packet EchoRequest 0 0x61 0x7A)"
    using buf_fill_by_law [OF b0, of 0 "echo_packet EchoRequest 0 0x61 0x7A"] by (auto simp: len)
  obtain k where k: "checksum (buf_view b1) = Inr k" using checksum_law [OF buf_rep_views [OF b1(2)]] by (auto simp: len)
  obtain b2 where b2: "buf_write b1 (mv_fill_by (buf_view b1) (le16 k) 2) = Inr b2" "buf_rep b2 (echo_packet EchoRequest k 0x61 0x7A)"
    using buf_fill_by_law [OF b1(2), of 2 "le16 k"] by (auto simp: echo_packet_def)
  have good: "checksum (buf_view b2) = Inr 0"
    by (rule checksum_complete [of "buf_view b1" "[EchoRequest, 0]" "le16 0x61 @ le16 0x7A" _ k])
      (use buf_rep_views [OF b1(2)] buf_rep_views [OF b2(2)] k in \<open>simp_all add: echo_packet_def\<close>)
  let ?s1 = "s\<lparr>i_sent := i_sent s @ [(ip, b2)], i_connections := i_connections s @ [?conn]\<rparr>"
  have enter: "send_echo_request_enter s ip = Inr (length (i_connections s), ?s1)"
    using b1(1) k b2(1) by (simp add: send_echo_request_enter_def SIZEOF_EchoPacket_def convert_to_def buf_view_def buf_new_def Let_def)
  have f: "filter (\<lambda>x. pg_dest x \<noteq> ip) (i_connections s) = i_connections s" using assms(1) by (simp add: filter_id_conv list_ex_iff)
  have timeout: "send_echo_request_leave ?s1 (length (i_connections s)) = Inr (ResultError ERROR_ECHO_TIMEOUT, s\<lparr>i_sent := i_sent ?s1\<rparr>)"
    using f by (simp add: send_echo_request_leave_def arr_get_def)
  have set: "set_ping (i_connections s @ [?conn]) ip st = i_connections s @ [?conn\<lparr>pg_state := st\<rparr>]" for st
    using set_ping_miss [OF assms(1)] by simp
  let ?ok = "echo_id = 0x61 \<and> echo_seq = 0x7A \<and> checksum v = Inr 0"
  have "is_icmp_reply_ok v = Inr ?ok" by (rule is_icmp_reply_ok_law [OF assms(2-4)])
  moreover have "rd (bv_data v) 0 = Inr EchoReply" "const_convert_to v 8 = Inr (bv_data v)"
    using assms(2) by (auto intro: const_convert_law [OF assms(2)] rd_at [of _ "[]"] simp: views_def)
  moreover define st where "st = (if ?ok then SuccessfulReply else BadReply)"
  moreover define s2 where "s2 = ?s1\<lparr>i_connections := i_connections s @ [?conn\<lparr>pg_state := st\<rparr>], i_woken := i_woken s @ [ip]\<rparr>"
  ultimately have reply: "handle_icmp_reply ?s1 ip v = Inr s2"
    using set by (simp add: handle_icmp_reply_def handle_echo_reply_def SIZEOF_EchoPacket_def)
  have s2: "i_connections s2 = i_connections s @ [\<lparr>pg_state = st, pg_dest = ip\<rparr>]" "i_woken s2 = i_woken s @ [ip]"
    "s2\<lparr>i_connections := i_connections s\<rparr> = s\<lparr>i_sent := i_sent ?s1, i_woken := i_woken s2\<rparr>" by (simp_all add: s2_def)
  have "send_echo_request_leave s2 (length (i_connections s)) =
      Inr (if ?ok then Result () else ResultError ERROR_ECHO_BAD_REPLY, s2\<lparr>i_connections := i_connections s\<rparr>)"
    using f s2(1) by (simp add: send_echo_request_leave_def arr_get_def st_def)
  then show ?thesis using enter good timeout reply s2
    by (intro exI [of _ "length (i_connections s)"] exI [of _ ?s1] exI [of _ b2] exI [of _ s2]) simp
qed

theorem icmp_echo_outcome_witness:
  "\<exists>s i s1 request s2. \<not> list_ex (\<lambda>c. pg_dest c = ip_Broadcast) (i_connections s) \<and> send_echo_request_enter s ip_Broadcast = Inr (i, s1) \<and>
     i_sent s1 = i_sent s @ [(ip_Broadcast, request)] \<and>
     handle_icmp_reply s1 ip_Broadcast (bv_raw (chars [EchoReply, 0, 0, 0, 0, 0, 0, 0], 0) 8) = Inr s2 \<and>
     send_echo_request_leave s2 i = Inr (ResultError ERROR_ECHO_BAD_REPLY, s\<lparr>i_sent := i_sent s1, i_woken := i_woken s2\<rparr>)"
proof -
  define s where "s = \<lparr>i_connections = [], i_sent = [], i_woken = []\<rparr>"
  have c: "\<not> list_ex (\<lambda>c. pg_dest c = ip_Broadcast) (i_connections s)" by (simp add: s_def)
  have v: "views (bv_raw (chars [EchoReply, 0, 0, 0, 0, 0, 0, 0], 0) 8) ([EchoReply, 0] @ le16 0 @ le16 0 @ le16 0 @ [])"
    using views_literal [of "[EchoReply, 0, 0, 0, 0, 0, 0, 0]" 8] by simp
  from icmp_echo_outcome [OF c v] c show ?thesis by (intro exI [of _ s]) auto
qed

end
