(* ===== verification/Tcp.thy ===== *)
theory Tcp
  imports Network_Bytes Bitmaps Results
begin

text \<open>
  TCP sessions (tcp.h, tcp.cpp). A call that blocks is a run that stops at a \<open>Wait\<close>: the queue it
  waits on, the session as it leaves it, the condition under which \<open>wait_on_event\<close> goes back to
  waiting after a wake-up, and the rest of the call, which goes on with the session as other
  threads left it. Segments handed to \<open>IPv4::send\<close> and wake-ups are logs of the session. The address
  of the host and the bitmap of ports, which the sessions share, are fields of the session.
\<close>

section \<open>State\<close>

datatype tcp_type = Server | Client

datatype tcp_state = LISTEN | SYN_SENT | SYN_RECEIVED | ESTABLISHED | FIN_WAIT1 | FIN_WAIT2 | CLOSE_WAIT | LAST_ACK | TIME_WAIT | CLOSED

datatype tcp_queue = SynSemaphore | AckQueue | DataPushQueue | DataQueue

datatype wait_outcome = WokenUp | TimedOut

record tcp_session =
  ts_device_ip :: ipv4_address
  ts_ports :: bitmap
  ts_type :: tcp_type
  ts_state :: tcp_state
  ts_syn_count :: int
  ts_remote_ip :: ipv4_address
  ts_buffer :: buffer
  ts_buffer_start_pointer :: size_t
  ts_buffer_written_pointer :: size_t
  ts_remote_sequence :: u32
  ts_local_sequence :: u32
  ts_last_ack :: u32
  ts_local_port :: u16
  ts_remote_port :: u16
  ts_local_window_size :: u16
  ts_remote_window_size :: u16
  ts_sent :: "(ipv4_address \<times> buffer_view) list"
  ts_woken :: "tcp_queue list"

definition MAX_WINDOW_SIZE :: size_t where "MAX_WINDOW_SIZE = 8000"

definition tcp_session_new :: "ipv4_address \<Rightarrow> bitmap \<Rightarrow> tcp_type \<Rightarrow> tcp_session" where
  "tcp_session_new device_ip ports type = \<lparr>ts_device_ip = device_ip, ts_ports = ports, ts_type = type, ts_state = CLOSED,
     ts_syn_count = 0, ts_remote_ip = ip_Zero, ts_buffer = buf_new MAX_WINDOW_SIZE, ts_buffer_start_pointer = 0,
     ts_buffer_written_pointer = 0, ts_remote_sequence = 0, ts_local_sequence = 0, ts_last_ack = 0, ts_local_port = 0,
     ts_remote_port = 0, ts_local_window_size = of_nat MAX_WINDOW_SIZE, ts_remote_window_size = 1, ts_sent = [], ts_woken = []\<rparr>"

datatype 'a tcp_run =
    Fault fault
  | Done 'a tcp_session
  | Wait tcp_queue tcp_session "tcp_session \<Rightarrow> bool" "wait_outcome \<Rightarrow> tcp_session \<Rightarrow> 'a tcp_run"

primrec bindp :: "'a tcp_run \<Rightarrow> ('a \<Rightarrow> tcp_session \<Rightarrow> 'b tcp_run) \<Rightarrow> 'b tcp_run" where
  "bindp (Fault e) f = Fault e"
| "bindp (Done a s) f = f a s"
| "bindp (Wait q s c k) f = Wait q s c (\<lambda>w s'. bindp (k w s') f)"

definition lift :: "'a run \<Rightarrow> ('a \<Rightarrow> 'b tcp_run) \<Rightarrow> 'b tcp_run" where
  "lift r f = (case r of Inl e \<Rightarrow> Fault e | Inr x \<Rightarrow> f x)"

text \<open>A waiting call after a wake-up or a timeout that finds the session s.\<close>

fun resume :: "'a tcp_run \<Rightarrow> wait_outcome \<Rightarrow> tcp_session \<Rightarrow> 'a tcp_run" where
  "resume (Wait q s0 c k) w s = (if c s \<and> w \<noteq> TimedOut then Wait q s c k else k w s)"
| "resume r w s = r"

text \<open>\<open>wait\<close>, \<open>wait_on_event\<close>, \<open>wake_up_all\<close>, and the semaphore for the SYN.\<close>

definition wait_queue :: "tcp_queue \<Rightarrow> tcp_session \<Rightarrow> wait_outcome tcp_run" where
  "wait_queue q s = Wait q s (\<lambda>_. False) Done"

definition wait_on_event :: "tcp_queue \<Rightarrow> (tcp_session \<Rightarrow> bool) \<Rightarrow> tcp_session \<Rightarrow> wait_outcome tcp_run" where
  "wait_on_event q checker s = (if \<not> checker s then Done WokenUp s else Wait q s checker Done)"

definition wake_up_all :: "tcp_queue \<Rightarrow> tcp_session \<Rightarrow> tcp_session" where
  "wake_up_all q s = s\<lparr>ts_woken := ts_woken s @ [q]\<rparr>"

definition syn_acquire :: "tcp_session \<Rightarrow> unit tcp_run" where
  "syn_acquire s = (let s1 = s\<lparr>ts_syn_count := ts_syn_count s - 1\<rparr> in
     if ts_syn_count s1 < 0 then Wait SynSemaphore s1 (\<lambda>_. False) (\<lambda>_. Done ()) else Done () s1)"

definition syn_release :: "tcp_session \<Rightarrow> tcp_session" where
  "syn_release s = (let s1 = if ts_syn_count s < 0 then s\<lparr>ts_woken := ts_woken s @ [SynSemaphore]\<rparr> else s in
     s1\<lparr>ts_syn_count := ts_syn_count s1 + 1\<rparr>)"

section \<open>Segments\<close>

definition FIN :: u8 where "FIN = 0x01"
definition SYN :: u8 where "SYN = 0x02"
definition RST :: u8 where "RST = 0x04"
definition PSH :: u8 where "PSH = 0x08"
definition ACK :: u8 where "ACK = 0x10"

definition SIZEOF_TCPHeader :: size_t where "SIZEOF_TCPHeader = 20"

definition to_data_offset :: "size_t \<Rightarrow> u8" where
  "to_data_offset value = push_bit 4 (of_nat (number_of_words 4 value) AND 0xF)"

definition from_data_offset :: "u8 \<Rightarrow> size_t" where
  "from_data_offset value = unat (drop_bit 4 value) * 4"

definition pseudo_ip_header :: "tcp_session \<Rightarrow> size_t \<Rightarrow> u8 list" where
  "pseudo_ip_header s n = ip_bytes (ts_device_ip s) @ ip_bytes (ts_remote_ip s) @ [0, 0x6] @ le16 (to_big_endian_u16 (of_nat n))"

definition tcp_checksum :: "tcp_session \<Rightarrow> buffer_view \<Rightarrow> u16 run" where
  "tcp_checksum s data = bindr (sum_words (bv_ptr data) (number_of_words 2 (bv_size data)) 0) (\<lambda>sum1.
     bindr (sum_words (chars (pseudo_ip_header s (bv_size data)), 0) (number_of_words 2 12) sum1) (\<lambda>sum2.
     Inr (complement16 (fold_sum sum2))))"

definition tcp_header :: "tcp_session \<Rightarrow> u8 \<Rightarrow> u16 \<Rightarrow> u8 list" where
  "tcp_header s flags c = le16 (network_word16 (ts_local_port s)) @ le16 (network_word16 (ts_remote_port s)) @
     le32 (network_word32 (ts_local_sequence s)) @ le32 (network_word32 (ts_remote_sequence s)) @
     [to_data_offset SIZEOF_TCPHeader, flags] @ le16 (network_word16 (ts_local_window_size s)) @ le16 c @ le16 0"

definition send_packet :: "buffer_view \<Rightarrow> u8 \<Rightarrow> tcp_session \<Rightarrow> unit result tcp_run" where
  "send_packet data flags s =
     (if bv_size data > 0 then
        let b = buf_new (sz_add (bv_size data) SIZEOF_TCPHeader) in
        lift (buf_write b (mv_fill_by (buf_view b) (tcp_header s flags 0) 0)) (\<lambda>b1.
        lift (buf_write b1 (mv_fill_from (buf_view b1) (bv_ptr data) SIZEOF_TCPHeader (bv_size data))) (\<lambda>b2.
        lift (tcp_checksum s (buf_view b2)) (\<lambda>c.
        lift (buf_write b2 (mv_fill_by (buf_view b2) (le16 c) 16)) (\<lambda>b3.
        Done (Result ()) (s\<lparr>ts_sent := ts_sent s @ [(ts_remote_ip s, buf_view b3)]\<rparr>)))))
      else
        lift (tcp_checksum s (bv_raw (chars (tcp_header s flags 0), 0) SIZEOF_TCPHeader)) (\<lambda>c.
        Done (Result ()) (s\<lparr>ts_sent := ts_sent s @ [(ts_remote_ip s, bv_raw (chars (tcp_header s flags c), 0) SIZEOF_TCPHeader)]\<rparr>)))"

definition send_ack :: "tcp_session \<Rightarrow> unit result tcp_run" where
  "send_ack s = send_packet bv_empty ACK s"

text \<open>The loop of \<open>send_and_wait_ack\<close>; n transmissions are left.\<close>

definition ack_checker :: "u32 \<Rightarrow> tcp_session \<Rightarrow> bool" where
  "ack_checker sent_sequence s = (ts_last_ack s \<le> sent_sequence \<and> ts_state s \<noteq> CLOSED)"

primrec transmit :: "nat \<Rightarrow> buffer_view \<Rightarrow> u8 \<Rightarrow> u32 \<Rightarrow> tcp_session \<Rightarrow> wait_outcome result tcp_run" where
  "transmit 0 data flags sent_sequence s = Done (Result TimedOut) s"
| "transmit (Suc n) data flags sent_sequence s = bindp (send_packet data flags s) (\<lambda>r s1.
     if is_error r then Done (ResultError (result_error r)) s1
     else bindp (wait_on_event AckQueue (ack_checker sent_sequence) s1) (\<lambda>queue_state s2.
       if n \<noteq> 0 \<and> queue_state = TimedOut then transmit n data flags sent_sequence s2 else Done (Result queue_state) s2))"

definition send_and_wait_ack :: "buffer_view \<Rightarrow> u8 \<Rightarrow> tcp_session \<Rightarrow> unit result tcp_run" where
  "send_and_wait_ack data flags s = bindp (transmit 5 data flags (ts_local_sequence s) s) (\<lambda>r s1. case r of
     ResultError e \<Rightarrow> Done (ResultError e) s1
   | Result queue_state \<Rightarrow>
       if queue_state = TimedOut then Done (ResultError ERROR_CONNECTION_TIMEOUT) s1
       else if ts_state s1 = CLOSED then Done (ResultError ERROR_CONNECTION_CLOSED) s1
       else if flags AND FIN \<noteq> 0 \<or> flags AND SYN \<noteq> 0 then Done (Result ()) (s1\<lparr>ts_local_sequence := ts_local_sequence s1 + 1\<rparr>)
       else Done (Result ()) (s1\<lparr>ts_local_sequence := ts_local_sequence s1 + of_nat (bv_size data)\<rparr>))"

definition send_syn :: "tcp_session \<Rightarrow> unit result tcp_run" where
  "send_syn s = send_and_wait_ack bv_empty SYN s"

definition send_fin :: "tcp_session \<Rightarrow> unit result tcp_run" where
  "send_fin s = send_and_wait_ack bv_empty (FIN OR ACK) s"

definition send_payload :: "buffer_view \<Rightarrow> tcp_session \<Rightarrow> unit result tcp_run" where
  "send_payload payload s = send_and_wait_ack payload (ACK OR PSH) s"

section \<open>Opening and closing\<close>

definition end_connection :: "tcp_session \<Rightarrow> unit tcp_run" where
  "end_connection s = (let s1 = wake_up_all DataPushQueue (wake_up_all DataQueue (wake_up_all AckQueue (syn_release (s\<lparr>ts_state := CLOSED\<rparr>)))) in
     lift (bm_clear (ts_ports s1) (unat (ts_local_port s1))) (\<lambda>p. Done () (s1\<lparr>ts_ports := p\<rparr>)))"

definition wait_for_syn :: "tcp_session \<Rightarrow> unit result tcp_run" where
  "wait_for_syn s = bindp (syn_acquire s) (\<lambda>_ s1.
     if ts_state s1 = CLOSED then Done (ResultError ERROR_CONNECTION_CLOSED) s1 else Done (Result ()) s1)"

definition wait_for_packet :: "tcp_session \<Rightarrow> unit result tcp_run" where
  "wait_for_packet s = bindp (wait_queue DataPushQueue s) (\<lambda>_ s1.
     if ts_state s1 = CLOSED then Done (ResultError ERROR_CONNECTION_CLOSED) s1 else Done (Result ()) s1)"

text \<open>\<open>if (auto error = step) { end_connection(); return error; }\<close>\<close>

definition or_end :: "unit result tcp_run \<Rightarrow> (tcp_session \<Rightarrow> 'a result tcp_run) \<Rightarrow> 'a result tcp_run" where
  "or_end r f = bindp r (\<lambda>e s. if is_error e then bindp (end_connection s) (\<lambda>_ s1. Done (ResultError (result_error e)) s1) else f s)"

definition session_accept :: "u16 \<Rightarrow> tcp_session \<Rightarrow> unit result tcp_run" where
  "session_accept port s =
     or_end (wait_for_syn (s\<lparr>ts_local_port := port, ts_state := LISTEN\<rparr>)) (\<lambda>s1.
     or_end (send_syn (s1\<lparr>ts_state := SYN_RECEIVED\<rparr>)) (\<lambda>s2. Done (Result ()) (s2\<lparr>ts_state := ESTABLISHED\<rparr>)))"

definition session_connect :: "ipv4_address \<Rightarrow> u16 \<Rightarrow> tcp_session \<Rightarrow> unit result tcp_run" where
  "session_connect ip port s = lift (bm_find_first_clear (ts_ports s) 0) (\<lambda>p.
     or_end (send_syn (s\<lparr>ts_remote_ip := ip, ts_remote_port := port, ts_local_port := of_nat p, ts_state := SYN_SENT\<rparr>)) (\<lambda>s1.
     or_end (wait_for_syn s1) (\<lambda>s2.
     or_end (send_ack s2) (\<lambda>s3. Done (Result ()) (s3\<lparr>ts_state := ESTABLISHED\<rparr>)))))"

definition session_close :: "tcp_session \<Rightarrow> unit tcp_run" where
  "session_close s = bindp (send_fin (s\<lparr>ts_state := FIN_WAIT1\<rparr>)) (\<lambda>_ s1. end_connection s1)"

section \<open>Data\<close>

definition session_send :: "buffer_view \<Rightarrow> tcp_session \<Rightarrow> size_t result tcp_run" where
  "session_send data s = (if ts_state s \<noteq> ESTABLISHED then Done (ResultError ERROR_CONNECTION_CLOSED) s
     else or_end (send_payload data s) (\<lambda>s1. Done (Result (bv_size data)) s1))"

text \<open>\<open>receive\<close> returns the size with the storage of the caller, filled.\<close>

definition session_receive :: "buffer_view \<Rightarrow> tcp_session \<Rightarrow> (size_t \<times> u8 block) result tcp_run" where
  "session_receive data s = (if ts_state s \<noteq> ESTABLISHED then Done (ResultError ERROR_CONNECTION_CLOSED) s
     else or_end (wait_for_packet (s\<lparr>ts_buffer_start_pointer := ts_buffer_written_pointer s\<rparr>)) (\<lambda>s1.
       let data_size = sz_sub (ts_buffer_written_pointer s1) (ts_buffer_start_pointer s1) in
       if data_size > bv_size data then Done (ResultError ERROR_BUFFER_OVERFLOW) s1
       else if data_size = 0 \<and> ts_state s1 \<noteq> ESTABLISHED then Done (ResultError ERROR_CONNECTION_CLOSED) s1
       else lift (mv_fill_from data (buf_data (ts_buffer s1), ts_buffer_start_pointer s1) 0 data_size) (\<lambda>d.
         Done (Result (data_size, d)) (s1\<lparr>ts_local_window_size := ts_local_window_size s1 + of_nat data_size\<rparr>))))"

section \<open>Received segments\<close>

definition is_packet_ok :: "tcp_session \<Rightarrow> buffer_view \<Rightarrow> bool run" where
  "is_packet_ok s data = bindr (tcp_checksum s data) (\<lambda>c. Inr (c = 0))"

definition is_in_order_packet :: "tcp_session \<Rightarrow> u32 \<Rightarrow> bool" where
  "is_in_order_packet s remote_sequence = (ts_remote_sequence s = remote_sequence)"

definition is_in_window_packet :: "tcp_session \<Rightarrow> u32 \<Rightarrow> size_t \<Rightarrow> bool" where
  "is_in_window_packet s new_remote_sequence data_size =
     (of_nat data_size + new_remote_sequence - ts_remote_sequence s \<le> (ucast (ts_local_window_size s) :: u32))"

definition is_buffer_available :: "tcp_session \<Rightarrow> size_t \<Rightarrow> bool" where
  "is_buffer_available s requested_size = (requested_size \<le> unat (ts_local_window_size s))"

definition is_packet_for_me :: "tcp_session \<Rightarrow> ipv4_address \<Rightarrow> buffer_view \<Rightarrow> bool run" where
  "is_packet_for_me s ip data = bindr (const_convert_to data SIZEOF_TCPHeader) (\<lambda>p.
     bindr (rd16 p 0) (\<lambda>src_port. bindr (rd16 p 2) (\<lambda>dest_port.
     if ts_state s = CLOSED then Inr False
     else if ts_state s = LISTEN then Inr (to_big_endian_u16 (ucast dest_port) = ts_local_port s)
     else Inr (to_big_endian_u16 (ucast dest_port) = ts_local_port s \<and> to_big_endian_u16 (ucast src_port) = ts_remote_port s \<and>
               ip_eq ip (ts_remote_ip s)))))"

definition handle_syn :: "ipv4_address \<Rightarrow> buffer_view \<Rightarrow> tcp_session \<Rightarrow> unit tcp_run" where
  "handle_syn src_ip data s = lift (const_convert_to data SIZEOF_TCPHeader) (\<lambda>p.
     if ts_state s = LISTEN \<or> ts_state s = SYN_SENT then
       lift (rd32 p 4) (\<lambda>seq. lift (rd16 p 0) (\<lambda>src_port.
         Done () (syn_release (s\<lparr>ts_remote_sequence := network_word32 seq + 1, ts_remote_port := network_word16 src_port, ts_remote_ip := src_ip\<rparr>))))
     else Done () s)"

definition handle_ack :: "u32 \<Rightarrow> tcp_session \<Rightarrow> unit tcp_run" where
  "handle_ack ack_number s = Done () (wake_up_all AckQueue (s\<lparr>ts_last_ack := ack_number\<rparr>))"

definition handle_rst :: "tcp_session \<Rightarrow> unit tcp_run" where
  "handle_rst s = end_connection s"

definition handle_fin :: "tcp_session \<Rightarrow> unit tcp_run" where
  "handle_fin s =
     (if ts_state s = FIN_WAIT2 then
        bindp (send_ack (s\<lparr>ts_remote_sequence := ts_remote_sequence s + 1\<rparr>)) (\<lambda>_ s1. Done () (s1\<lparr>ts_state := CLOSED\<rparr>))
      else if ts_state s = ESTABLISHED then
        bindp (send_ack (s\<lparr>ts_state := CLOSE_WAIT, ts_remote_sequence := ts_remote_sequence s + 1\<rparr>)) (\<lambda>_ s1.
        bindp (send_fin (s1\<lparr>ts_state := LAST_ACK\<rparr>)) (\<lambda>_ s2. end_connection (s2\<lparr>ts_state := CLOSED\<rparr>)))
      else Done () s)"

definition handle_psh :: "tcp_session \<Rightarrow> unit tcp_run" where
  "handle_psh s = Done () (wake_up_all DataPushQueue s)"

definition handle_data :: "buffer_view \<Rightarrow> size_t \<Rightarrow> size_t \<Rightarrow> tcp_session \<Rightarrow> unit tcp_run" where
  "handle_data data payload_offset payload_size s =
     (if is_buffer_available s (bv_size data) then
        lift (buf_write (ts_buffer s) (mv_fill_from (buf_view (ts_buffer s)) (advance (bv_ptr data) payload_offset)
          (ts_buffer_written_pointer s) payload_size)) (\<lambda>b.
        bindp (send_ack (s\<lparr>ts_buffer := b, ts_buffer_written_pointer := sz_add (ts_buffer_written_pointer s) payload_size,
            ts_remote_sequence := ts_remote_sequence s + of_nat payload_size,
            ts_local_window_size := ts_local_window_size s - of_nat payload_size\<rparr>)) (\<lambda>_ s1. Done () s1))
      else Done () s)"

text \<open>The loop waits for the segments in between; fuel bounds how often it is woken.\<close>

primrec out_of_order_loop :: "nat \<Rightarrow> u32 \<Rightarrow> size_t \<Rightarrow> tcp_session \<Rightarrow> bool tcp_run" where
  "out_of_order_loop 0 remote_sequence data_size s =
     (if \<not> is_in_order_packet s remote_sequence \<and> is_in_window_packet s remote_sequence data_size then Fault OutOfFuel
      else Done (is_in_window_packet s remote_sequence data_size) s)"
| "out_of_order_loop (Suc fuel) remote_sequence data_size s =
     (if \<not> is_in_order_packet s remote_sequence \<and> is_in_window_packet s remote_sequence data_size
      then bindp (send_ack s) (\<lambda>_ s1. bindp (wait_queue DataQueue s1) (\<lambda>_ s2. out_of_order_loop fuel remote_sequence data_size s2))
      else Done (is_in_window_packet s remote_sequence data_size) s)"

definition handle_out_of_order_packets :: "nat \<Rightarrow> u32 \<Rightarrow> size_t \<Rightarrow> tcp_session \<Rightarrow> bool tcp_run" where
  "handle_out_of_order_packets fuel remote_sequence data_size s =
     (if ts_state s \<noteq> ESTABLISHED then Done True s else out_of_order_loop fuel remote_sequence data_size s)"

text \<open>\<open>if (condition) step;\<close>\<close>

definition on_flag :: "bool \<Rightarrow> (tcp_session \<Rightarrow> unit tcp_run) \<Rightarrow> tcp_session \<Rightarrow> unit tcp_run" where
  "on_flag b f s = (if b then f s else Done () s)"

definition session_handle :: "nat \<Rightarrow> ipv4_address \<Rightarrow> buffer_view \<Rightarrow> tcp_session \<Rightarrow> unit tcp_run" where
  "session_handle fuel src_ip data s = lift (is_packet_ok s data) (\<lambda>good. if \<not> good then Done () s else
     lift (const_convert_to data SIZEOF_TCPHeader) (\<lambda>p.
     lift (rd p 12) (\<lambda>data_offset. lift (rd16 p 14) (\<lambda>window_size. lift (rd32 p 4) (\<lambda>seq. lift (rd p 13) (\<lambda>flags. lift (rd32 p 8) (\<lambda>ack.
     let payload_offset = from_data_offset data_offset; payload_size = sz_sub (bv_size data) payload_offset;
         s1 = s\<lparr>ts_remote_window_size := network_word16 window_size\<rparr> in
     if ts_state s1 = CLOSED then Done () s1 else
     bindp (handle_out_of_order_packets fuel (network_word32 seq) payload_size s1) (\<lambda>go s2. if \<not> go then Done () s2 else
     bindp (on_flag (payload_size > 0) (handle_data data payload_offset payload_size) s2) (\<lambda>_ s3.
     bindp (on_flag (flags AND SYN \<noteq> 0) (handle_syn src_ip data) s3) (\<lambda>_ s4.
     bindp (on_flag (flags AND PSH \<noteq> 0) handle_psh s4) (\<lambda>_ s5.
     bindp (on_flag (flags AND RST \<noteq> 0) handle_rst s5) (\<lambda>_ s6.
     bindp (on_flag (flags AND FIN \<noteq> 0) handle_fin s6) (\<lambda>_ s7.
     bindp (on_flag (flags AND ACK \<noteq> 0) (handle_ack (network_word32 ack)) s7) (\<lambda>_ s8.
     Done () (wake_up_all DataQueue s8)))))))))))))))"

definition session_address :: "tcp_session \<Rightarrow> ipv4_address \<times> u16" where
  "session_address s = (ts_remote_ip s, ts_remote_port s)"

section \<open>The sessions of a host\<close>

text \<open>The position of the first session a segment is for, and the calls that add a session.\<close>

fun find_session :: "tcp_session list \<Rightarrow> ipv4_address \<Rightarrow> buffer_view \<Rightarrow> nat option run" where
  "find_session [] ip data = Inr None"
| "find_session (s # ss) ip data = bindr (is_packet_for_me s ip data) (\<lambda>b.
     if b then Inr (Some 0) else bindr (find_session ss ip data) (\<lambda>r. Inr (map_option Suc r)))"

definition tcp_handle :: "nat \<Rightarrow> ipv4_address \<Rightarrow> buffer_view \<Rightarrow> tcp_session list \<Rightarrow> (nat \<times> unit tcp_run) option run" where
  "tcp_handle fuel src_ip data sessions = bindr (find_session sessions src_ip data) (\<lambda>r. case r of
     None \<Rightarrow> Inr None
   | Some i \<Rightarrow> Inr (Some (i, session_handle fuel src_ip data (sessions ! i))))"

definition tcp_accept :: "ipv4_address \<Rightarrow> bitmap \<Rightarrow> u16 \<Rightarrow> unit result tcp_run" where
  "tcp_accept device_ip ports port = session_accept port (tcp_session_new device_ip ports Server)"

definition tcp_connect :: "ipv4_address \<Rightarrow> bitmap \<Rightarrow> ipv4_address \<Rightarrow> u16 \<Rightarrow> unit result tcp_run" where
  "tcp_connect device_ip ports ip port = session_connect ip port (tcp_session_new device_ip ports Client)"

section \<open>Laws\<close>

lemma bindp_Done_unit [simp]: "bindp r (\<lambda>_ s. Done () s) = r"
proof (induction r)
  case (Wait q s c k)
  then show ?case by (auto simp: fun_eq_iff)
qed simp_all

lemma bindp_assoc: "bindp (bindp r f) g = bindp r (\<lambda>x s. bindp (f x s) g)"
proof (induction r)
  case (Wait q s c k)
  then show ?case by (auto simp: fun_eq_iff)
qed simp_all

lemma length_tcp_header [simp]: "length (tcp_header s f c) = 20"
  by (simp add: tcp_header_def le32_def)

lemma length_pseudo [simp]: "length (pseudo_ip_header s n) = 12"
  by (simp add: pseudo_ip_header_def)

lemma tcp_checksum_law:
  assumes "views v cs" "even (length cs)" "length cs \<le> 65535"
  shows "\<exists>hi lo. tcp_checksum s v = Inr (word16 hi lo) \<and>
     256 * unat hi + unat lo = 65535 - ones_sum (be_sum cs + be_sum (pseudo_ip_header s (length cs)))"
proof -
  let ?ps = "pseudo_ip_header s (length cs)"
  have v: "reads (bv_data v) cs" "bv_size v = length cs" using assms(1) by (simp_all add: views_def)
  have b: "be_sum cs + be_sum ?ps < sz_range"
  proof -
    have "(length cs + 1) div 2 \<le> 32768" using assms(3) by simp
    then have "be_sum cs \<le> 65535 * 32768" by (rule le_trans [OF be_sum_bound mult_le_mono2])
    then show ?thesis using be_sum_bound [of ?ps] by simp
  qed
  have "ok (sum_words (bv_data v) (length cs div 2) 0) (\<lambda>t. unat t = unat (0 :: u32) + be_sum cs)"
    by (rule sum_words_law [OF v(1)]) (use assms(2) b in auto)
  then obtain t where t: "sum_words (bv_data v) (length cs div 2) 0 = Inr t" "unat t = be_sum cs" by (auto simp: ok_iff)
  have "ok (sum_words (chars ?ps, 0) 6 t) (\<lambda>u. unat u = unat t + be_sum ?ps)"
    by (rule sum_words_law [OF reads_whole]) (use b t(2) in simp_all)
  then obtain u where u: "sum_words (chars ?ps, 0) 6 t = Inr u" "unat u = be_sum cs + be_sum ?ps" using t(2) by (auto simp: ok_iff)
  obtain hi lo where c: "complement16 (fold_sum u) = word16 hi lo" "256 * unat hi + unat lo = 65535 - unat (fold_sum u) mod 65536"
    by (rule complement16_be)
  have "256 * unat hi + unat lo = 65535 - ones_sum (be_sum cs + be_sum ?ps)"
    using c(2) u(2) unat_fold_sum [of u] ones_sum_le(1) [of "be_sum cs + be_sum ?ps"] by simp
  moreover have "number_of_words 2 12 = 6" by (simp add: number_of_words_def)
  then have "tcp_checksum s v = Inr (word16 hi lo)"
    using t(1) u(1) c(1) v(2) by (simp add: tcp_checksum_def bv_ptr_def number_of_words_even [OF assms(2)])
  ultimately show ?thesis by blast
qed

lemma tcp_checksum_zero:
  assumes "views v cs" "even (length cs)" "length cs \<le> 65535"
  shows "tcp_checksum s v = Inr 0 \<longleftrightarrow> 65535 dvd be_sum cs + be_sum (pseudo_ip_header s (length cs))"
proof -
  let ?S = "be_sum cs + be_sum (pseudo_ip_header s (length cs))"
  obtain hi lo where c: "tcp_checksum s v = Inr (word16 hi lo)" "256 * unat hi + unat lo = 65535 - ones_sum ?S"
    using tcp_checksum_law [OF assms] by blast
  have "0 < be_sum (pseudo_ip_header s (length cs))" by (simp add: pseudo_ip_header_def be_sum_append)
  then have "ones_sum ?S = 65535 \<longleftrightarrow> 65535 dvd ?S"
    using mod_less_divisor [of 65535 ?S] by (auto simp: ones_sum_def mod_eq_0_iff_dvd)
  moreover have "tcp_checksum s v = Inr 0 \<longleftrightarrow> ones_sum ?S = 65535" using c ones_sum_le(1) [of ?S] word16_eq_0 [of hi lo] by auto
  ultimately show ?thesis by simp
qed

lemma rd32_at:
  assumes "reads p (as @ le32 w @ bs)" "length as = i"
  shows "rd32 p i = Inr w"
proof -
  let ?xs = "as @ le32 w @ bs"
  have "?xs ! i = ucast w" "?xs ! (i + 1) = ucast (drop_bit 8 w)" "?xs ! (i + 2) = ucast (drop_bit 16 w)" "?xs ! (i + 3) = ucast (drop_bit 24 w)"
    using assms(2) by (simp_all add: nth_append le32_def)
  then show ?thesis using rd32_reads [OF assms(1), of i] assms(2) word32_le32 [of w] by (simp add: le32_def)
qed

lemma data_offset_20 [simp]: "to_data_offset 20 = 0x50" "from_data_offset 0x50 = 20"
  by (simp_all add: to_data_offset_def from_data_offset_def number_of_words_def)

text \<open>The fields of a segment that the session q built.\<close>

lemma segment_fields:
  assumes "views v (tcp_header q flags c @ cs)"
  shows "const_convert_to v 20 = Inr (bv_data v)" "bv_size v = 20 + length cs"
    "rd16 (bv_data v) 0 = Inr (network_word16 (ts_local_port q))" "rd16 (bv_data v) 2 = Inr (network_word16 (ts_remote_port q))"
    "rd32 (bv_data v) 4 = Inr (network_word32 (ts_local_sequence q))" "rd32 (bv_data v) 8 = Inr (network_word32 (ts_remote_sequence q))"
    "rd (bv_data v) 12 = Inr 0x50" "rd (bv_data v) 13 = Inr flags" "rd16 (bv_data v) 14 = Inr (network_word16 (ts_local_window_size q))"
    "reads (advance (bv_data v) 20) cs"
proof -
  let ?p = "bv_data v"
  let ?a = "le16 (network_word16 (ts_local_port q))" and ?b = "le16 (network_word16 (ts_remote_port q))"
    and ?c = "le32 (network_word32 (ts_local_sequence q))" and ?d = "le32 (network_word32 (ts_remote_sequence q))"
    and ?e = "le16 (network_word16 (ts_local_window_size q))"
  have r: "reads ?p (?a @ ?b @ ?c @ ?d @ [0x50, flags] @ ?e @ le16 c @ le16 0 @ cs)"
    using assms by (simp add: views_def tcp_header_def SIZEOF_TCPHeader_def)
  have l: "length (le32 w) = 4" for w by (simp add: le32_def)
  show "const_convert_to v 20 = Inr ?p" by (rule const_convert_law [OF assms]) simp
  show "bv_size v = 20 + length cs" using assms by (simp add: views_def)
  show "rd16 ?p 0 = Inr (network_word16 (ts_local_port q))" by (rule rd16_at [of _ "[]"]) (use r in simp_all)
  show "rd16 ?p 2 = Inr (network_word16 (ts_remote_port q))" by (rule rd16_at [of _ ?a]) (use r in simp_all)
  show "rd32 ?p 4 = Inr (network_word32 (ts_local_sequence q))" by (rule rd32_at [of _ "?a @ ?b"]) (use r in simp_all)
  show "rd32 ?p 8 = Inr (network_word32 (ts_remote_sequence q))" by (rule rd32_at [of _ "?a @ ?b @ ?c"]) (use r l in simp_all)
  show "rd ?p 12 = Inr 0x50" by (rule rd_at [of _ "?a @ ?b @ ?c @ ?d"]) (use r l in simp_all)
  show "rd ?p 13 = Inr flags" by (rule rd_at [of _ "?a @ ?b @ ?c @ ?d @ [0x50]"]) (use r l in simp_all)
  show "rd16 ?p 14 = Inr (network_word16 (ts_local_window_size q))" by (rule rd16_at [of _ "?a @ ?b @ ?c @ ?d @ [0x50, flags]"]) (use r l in simp_all)
  show "reads (advance ?p 20) cs"
    using reads_at [of ?p "tcp_header q flags c" cs "[]" 20] assms by (simp add: views_def)
qed

text \<open>A segment with a right checksum between the addresses of the session s.\<close>

definition good_segment :: "tcp_session \<Rightarrow> u8 list \<Rightarrow> bool" where
  "good_segment s cs = (65535 dvd be_sum cs + be_sum (pseudo_ip_header s (length cs)))"

lemma good_segment_peer:
  assumes "ts_device_ip p = ts_remote_ip s" "ts_remote_ip p = ts_device_ip s"
  shows "good_segment p cs = good_segment s cs"
proof -
  have "be_sum (pseudo_ip_header p n) = be_sum (pseudo_ip_header s n)" for n
    using assms by (simp add: pseudo_ip_header_def be_sum_append)
  then show ?thesis by (simp add: good_segment_def)
qed

lemma is_packet_ok_good: "views v cs \<Longrightarrow> even (length cs) \<Longrightarrow> length cs \<le> 65535 \<Longrightarrow> is_packet_ok s v = Inr (good_segment s cs)"
  using tcp_checksum_zero [of v cs s] tcp_checksum_law [of v cs s] by (auto simp: is_packet_ok_def good_segment_def)

lemma tcp_header_split:
  obtains pre post where "length pre = 16" "length post = 2" "\<And>c. tcp_header s flags c = pre @ le16 c @ post"
proof
  show "tcp_header s flags c = (le16 (network_word16 (ts_local_port s)) @ le16 (network_word16 (ts_remote_port s)) @
     le32 (network_word32 (ts_local_sequence s)) @ le32 (network_word32 (ts_remote_sequence s)) @
     [to_data_offset SIZEOF_TCPHeader, flags] @ le16 (network_word16 (ts_local_window_size s))) @ le16 c @ le16 0" for c
    by (simp add: tcp_header_def)
qed (simp_all add: le32_def)

lemma checksum_completes_segment:
  assumes "views v (tcp_header s flags 0 @ cs)" "even (length cs)" "length cs + 20 \<le> 65535" "tcp_checksum s v = Inr c"
  shows "good_segment s (tcp_header s flags c @ cs)"
proof -
  obtain pre post where split: "length pre = 16" "length post = 2" "\<And>c. tcp_header s flags c = pre @ le16 c @ post"
    by (rule tcp_header_split) blast
  let ?P = "be_sum (pseudo_ip_header s (length cs + 20))"
  let ?S = "be_sum pre + be_sum post + be_sum cs + ?P"
  obtain hi lo where c: "c = word16 hi lo" "256 * unat hi + unat lo = 65535 - ones_sum (be_sum (tcp_header s flags 0 @ cs) + ?P)"
    using tcp_checksum_law [OF assms(1), of s] assms(2-4) by (auto simp: add.commute)
  have "be_sum (tcp_header s flags 0 @ cs) + ?P = ?S" using split by (simp add: be_sum_append)
  moreover have "be_sum (tcp_header s flags c @ cs) = be_sum pre + (256 * unat hi + unat lo) + be_sum post + be_sum cs"
    using split c(1) by (simp add: be_sum_append)
  ultimately have sum: "be_sum (tcp_header s flags c @ cs) + ?P = ?S + (65535 - ones_sum ?S)" using c(2) by simp
  have len: "length (tcp_header s flags c @ cs) = length cs + 20" by simp
  show ?thesis unfolding good_segment_def len sum by (rule complement_sum(2))
qed

lemma send_empty_law:
  "\<exists>c. send_packet bv_empty flags s = Done (Result ()) (s\<lparr>ts_sent := ts_sent s @ [(ts_remote_ip s, bv_raw (chars (tcp_header s flags c), 0) 20)]\<rparr>) \<and>
     good_segment s (tcp_header s flags c)"
proof -
  have v: "views (bv_raw (chars (tcp_header s flags 0), 0) 20) (tcp_header s flags 0 @ [])" using views_literal [of "tcp_header s flags 0" 20] by simp
  obtain c where c: "tcp_checksum s (bv_raw (chars (tcp_header s flags 0), 0) 20) = Inr c" using tcp_checksum_law [OF v] by auto
  from checksum_completes_segment [OF v _ _ c] c show ?thesis
    by (intro exI [of _ c]) (simp add: send_packet_def bv_empty_def SIZEOF_TCPHeader_def lift_def)
qed

lemma send_packet_law:
  assumes "views v cs" "cs \<noteq> []" "even (length cs)" "length cs + 20 \<le> 65535"
  shows "\<exists>w c. send_packet v flags s = Done (Result ()) (s\<lparr>ts_sent := ts_sent s @ [(ts_remote_ip s, w)]\<rparr>) \<and>
     views w (tcp_header s flags c @ cs) \<and> good_segment s (tcp_header s flags c @ cs)"
proof -
  let ?h = "tcp_header s flags"
  have v: "bv_size v = length cs" "reads (bv_data v) cs" using assms(1) by (simp_all add: views_def)
  have n: "sz_add (length cs) 20 = 20 + length cs" using assms(4) by (simp add: sz_add_eq)
  have b0: "buf_rep (buf_new (20 + length cs)) (replicate (20 + length cs) 0)" by (rule buf_new_rep) (use assms(4) in simp)
  obtain b1 where b1: "buf_write (buf_new (20 + length cs)) (mv_fill_by (buf_view (buf_new (20 + length cs))) (?h 0) 0) = Inr b1"
    "buf_rep b1 (?h 0 @ replicate (length cs) 0)" using buf_fill_by_law [OF b0, of 0 "?h 0"] by auto
  obtain b2 where b2: "buf_write b1 (mv_fill_from (buf_view b1) (bv_data v) 20 (length cs)) = Inr b2" "buf_rep b2 (?h 0 @ cs)"
    using buf_fill_law [OF b1(2) v(2), of 20] by auto
  obtain c where c: "tcp_checksum s (buf_view b2) = Inr c" using tcp_checksum_law [OF buf_rep_views [OF b2(2)], of s] assms(3,4) by auto
  obtain pre post where split: "length pre = 16" "length post = 2" "\<And>c. ?h c = pre @ le16 c @ post" by (rule tcp_header_split) blast
  obtain b3 where b3: "buf_write b2 (mv_fill_by (buf_view b2) (le16 c) 16) = Inr b3" "buf_rep b3 (?h c @ cs)"
    using buf_fill_by_law [OF b2(2), of 16 "le16 c"] split by auto
  have "send_packet v flags s = Done (Result ()) (s\<lparr>ts_sent := ts_sent s @ [(ts_remote_ip s, buf_view b3)]\<rparr>)"
    using v(1) assms(2) n b1(1) b2(1) c b3(1) by (simp add: send_packet_def SIZEOF_TCPHeader_def bv_ptr_def lift_def Let_def)
  moreover have "good_segment s (?h c @ cs)" by (rule checksum_completes_segment [OF buf_rep_views [OF b2(2)] assms(3,4) c])
  ultimately show ?thesis using buf_rep_views [OF b3(2)] by blast
qed

section \<open>Handling a segment\<close>

lemma lift_Inr [simp]: "lift (Inr x) f = f x" "lift (Inl e) f = Fault e"
  by (simp_all add: lift_def)

text \<open>What a session that is not closed does with a good segment of a peer.\<close>

lemma session_handle_law:
  assumes "views v (tcp_header q flags c @ cs)" "good_segment s (tcp_header q flags c @ cs)" "even (length cs)" "length cs + 20 \<le> 65535"
    and "ts_state s \<noteq> CLOSED"
  shows "session_handle fuel ip v s =
     bindp (handle_out_of_order_packets fuel (ts_local_sequence q) (length cs) (s\<lparr>ts_remote_window_size := ts_local_window_size q\<rparr>)) (\<lambda>go s2. if \<not> go then Done () s2 else
     bindp (on_flag (length cs > 0) (handle_data v 20 (length cs)) s2) (\<lambda>_ s3.
     bindp (on_flag (flags AND SYN \<noteq> 0) (handle_syn ip v) s3) (\<lambda>_ s4.
     bindp (on_flag (flags AND PSH \<noteq> 0) handle_psh s4) (\<lambda>_ s5.
     bindp (on_flag (flags AND RST \<noteq> 0) handle_rst s5) (\<lambda>_ s6.
     bindp (on_flag (flags AND FIN \<noteq> 0) handle_fin s6) (\<lambda>_ s7.
     bindp (on_flag (flags AND ACK \<noteq> 0) (handle_ack (ts_remote_sequence q)) s7) (\<lambda>_ s8.
     Done () (wake_up_all DataQueue s8))))))))"
proof -
  have ok: "is_packet_ok s v = Inr True" using is_packet_ok_good [OF assms(1)] assms(2-4) by simp
  have n: "sz_sub (20 + length cs) 20 = length cs" using assms(4) by (simp add: sz_sub_eq)
  show ?thesis using assms(5) segment_fields [OF assms(1)] ok
    by (simp add: session_handle_def SIZEOF_TCPHeader_def Let_def n cong: if_cong)
qed

lemma in_order_segment:
  assumes "ts_state s = ESTABLISHED" "ts_remote_sequence s = seq" "n \<le> unat (ts_local_window_size s)"
  shows "handle_out_of_order_packets fuel seq n s = Done True s"
proof -
  have "n < 65536" using assms(3) unsigned_less [of "ts_local_window_size s", where ?'a = nat] by simp
  then have "unat (of_nat n :: u32) = n" by (simp add: unsigned_of_nat take_bit_eq_mod)
  then have "is_in_window_packet s seq n" using assms(2,3) by (simp add: is_in_window_packet_def word_le_nat_alt unat_up)
  then show ?thesis using assms(1,2) by (cases fuel) (simp_all add: handle_out_of_order_packets_def is_in_order_packet_def)
qed

text \<open>Two sessions that are the ends of one open connection.\<close>

definition connected :: "tcp_session \<Rightarrow> tcp_session \<Rightarrow> bool" where
  "connected s p \<longleftrightarrow> ts_state s = ESTABLISHED \<and> ts_state p = ESTABLISHED \<and>
     ts_device_ip p = ts_remote_ip s \<and> ts_remote_ip p = ts_device_ip s \<and>
     ts_local_port p = ts_remote_port s \<and> ts_remote_port p = ts_local_port s \<and>
     ts_remote_sequence p = ts_local_sequence s \<and> ts_remote_sequence s = ts_local_sequence p"

lemma flag_nonzero [simp]: "ACK \<noteq> 0" "PSH \<noteq> 0" "SYN \<noteq> 0" "FIN \<noteq> 0" "RST \<noteq> 0"
  by (simp_all add: ACK_def PSH_def SYN_def RST_def FIN_def)

lemma flag_tests [simp]:
  "(ACK OR PSH) AND SYN = 0" "(ACK OR PSH) AND PSH \<noteq> 0" "(ACK OR PSH) AND RST = 0" "(ACK OR PSH) AND FIN = 0" "(ACK OR PSH) AND ACK \<noteq> 0"
  "ACK AND SYN = 0" "ACK AND PSH = 0" "ACK AND RST = 0" "ACK AND FIN = 0" "ACK AND ACK \<noteq> 0"
  "SYN AND SYN \<noteq> 0" "SYN AND FIN = 0"
  "(SYN OR ACK) AND SYN \<noteq> 0" "(SYN OR ACK) AND PSH = 0" "(SYN OR ACK) AND RST = 0" "(SYN OR ACK) AND FIN = 0" "(SYN OR ACK) AND ACK \<noteq> 0"
  by (simp_all add: ACK_def PSH_def SYN_def RST_def FIN_def)

text \<open>The receiving end of a data segment.\<close>

lemma receive_segment:
  assumes "connected s p" "views w (tcp_header s (ACK OR PSH) c @ cs)" "good_segment s (tcp_header s (ACK OR PSH) c @ cs)"
    and "cs \<noteq> []" "even (length cs)" "length cs + 20 \<le> unat (ts_local_window_size p)"
    and "buf_rep (ts_buffer p) ds" "ts_buffer_written_pointer p + length cs \<le> length ds"
  shows "\<exists>p' a c' b. session_handle fuel ip w p = Done () p' \<and>
     p' = p\<lparr>ts_remote_window_size := ts_local_window_size s, ts_buffer := b, ts_buffer_written_pointer := ts_buffer_written_pointer p + length cs,
        ts_remote_sequence := ts_remote_sequence p + of_nat (length cs), ts_local_window_size := ts_local_window_size p - of_nat (length cs),
        ts_sent := ts_sent p @ [(ts_remote_ip p, a)], ts_last_ack := ts_remote_sequence s, ts_woken := ts_woken p @ [DataPushQueue, AckQueue, DataQueue]\<rparr> \<and>
     buf_rep b (take (ts_buffer_written_pointer p) ds @ cs @ drop (ts_buffer_written_pointer p + length cs) ds) \<and>
     views a (tcp_header p' ACK c') \<and> good_segment p' (tcp_header p' ACK c')"
proof -
  let ?n = "length cs" and ?wp = "ts_buffer_written_pointer p"
  let ?p0 = "p\<lparr>ts_remote_window_size := ts_local_window_size s\<rparr>"
  have st: "ts_state p = ESTABLISHED" "ts_remote_sequence p = ts_local_sequence s" using assms(1) by (simp_all add: connected_def)
  have win: "unat (ts_local_window_size p) < 65536" using unsigned_less [of "ts_local_window_size p", where ?'a = nat] by simp
  have good: "good_segment p (tcp_header s (ACK OR PSH) c @ cs)"
    using assms(1,3) good_segment_peer [of p s] by (simp add: connected_def)
  note f = segment_fields [OF assms(2)]
  have ooo: "handle_out_of_order_packets fuel (ts_local_sequence s) ?n ?p0 = Done True ?p0"
    by (rule in_order_segment) (use st assms(6) in simp_all)
  obtain b where b: "buf_write (ts_buffer p) (mv_fill_from (buf_view (ts_buffer p)) (advance (bv_data w) 20) ?wp ?n) = Inr b"
    "buf_rep b (take ?wp ds @ cs @ drop (?wp + ?n) ds)" using buf_fill_law [OF assms(7) f(10) assms(8)] by blast
  have add: "sz_add ?wp ?n = ?wp + ?n" using assms(7,8) by (simp add: buf_rep_def sz_add_eq)
  let ?p1 = "?p0\<lparr>ts_buffer := b, ts_buffer_written_pointer := ?wp + ?n, ts_remote_sequence := ts_remote_sequence p + of_nat ?n,
     ts_local_window_size := ts_local_window_size p - of_nat ?n\<rparr>"
  obtain c' where c': "send_packet bv_empty ACK ?p1 = Done (Result ()) (?p1\<lparr>ts_sent := ts_sent ?p1 @ [(ts_remote_ip ?p1, bv_raw (chars (tcp_header ?p1 ACK c'), 0) 20)]\<rparr>)"
    "good_segment ?p1 (tcp_header ?p1 ACK c')" using send_empty_law [of ACK ?p1] by blast
  let ?a = "bv_raw (chars (tcp_header ?p1 ACK c'), 0) 20"
  let ?p2 = "?p1\<lparr>ts_sent := ts_sent p @ [(ts_remote_ip p, ?a)]\<rparr>"
  have data: "handle_data w 20 ?n ?p0 = Done () ?p2"
    using assms(6) f(2) b(1) add c'(1) by (simp add: handle_data_def is_buffer_available_def bv_ptr_def send_ack_def)
  let ?p' = "?p2\<lparr>ts_last_ack := ts_remote_sequence s, ts_woken := ts_woken p @ [DataPushQueue, AckQueue, DataQueue]\<rparr>"
  have "session_handle fuel ip w p = Done () ?p'"
    using session_handle_law [OF assms(2) good assms(5)] assms(4,6) st win ooo data
    by (simp add: on_flag_def handle_psh_def handle_ack_def wake_up_all_def)
  moreover have "tcp_header ?p' ACK c' = tcp_header ?p1 ACK c'" "good_segment ?p' cs = good_segment ?p1 cs" for cs
    by (simp_all add: tcp_header_def good_segment_def pseudo_ip_header_def)
  moreover have "views ?a (tcp_header ?p1 ACK c')" by (rule views_literal) simp_all
  ultimately show ?thesis using b(2) c'(2) by (intro exI [of _ ?p'] exI [of _ ?a] exI [of _ c'] exI [of _ b]) simp
qed

lemma receive_ack:
  assumes "ts_state s = ESTABLISHED" "ts_device_ip p = ts_remote_ip s" "ts_remote_ip p = ts_device_ip s" "ts_remote_sequence s = ts_local_sequence p"
    and "views a (tcp_header p ACK c)" "good_segment p (tcp_header p ACK c)"
  shows "session_handle fuel ip a s = Done () (s\<lparr>ts_remote_window_size := ts_local_window_size p, ts_last_ack := ts_remote_sequence p,
     ts_woken := ts_woken s @ [AckQueue, DataQueue]\<rparr>)"
proof -
  have v: "views a (tcp_header p ACK c @ [])" "good_segment s (tcp_header p ACK c @ [])"
    using assms(2,3,5,6) good_segment_peer [of p s] by simp_all
  have "handle_out_of_order_packets fuel (ts_local_sequence p) 0 (s\<lparr>ts_remote_window_size := ts_local_window_size p\<rparr>) =
     Done True (s\<lparr>ts_remote_window_size := ts_local_window_size p\<rparr>)" by (rule in_order_segment) (use assms(1,4) in simp_all)
  then show ?thesis using session_handle_law [OF v] assms(1)
    by (simp add: on_flag_def handle_ack_def wake_up_all_def)
qed

text \<open>The sending end: the call waits for the acknowledgement, and ends when it is there.\<close>

lemma send_waits:
  assumes "views v cs" "cs \<noteq> []" "even (length cs)" "length cs + 20 \<le> 65535" "ts_state s = ESTABLISHED" "ts_last_ack s \<le> ts_local_sequence s"
  shows "\<exists>w c k. session_send v s = Wait AckQueue (s\<lparr>ts_sent := ts_sent s @ [(ts_remote_ip s, w)]\<rparr>) (ack_checker (ts_local_sequence s)) k \<and>
     views w (tcp_header s (ACK OR PSH) c @ cs) \<and> good_segment s (tcp_header s (ACK OR PSH) c @ cs) \<and>
     (\<forall>s2. ts_state s2 \<noteq> CLOSED \<longrightarrow> k WokenUp s2 = Done (Result (length cs)) (s2\<lparr>ts_local_sequence := ts_local_sequence s2 + of_nat (length cs)\<rparr>))"
proof -
  obtain w c where w: "send_packet v (ACK OR PSH) s = Done (Result ()) (s\<lparr>ts_sent := ts_sent s @ [(ts_remote_ip s, w)]\<rparr>)"
    "views w (tcp_header s (ACK OR PSH) c @ cs)" "good_segment s (tcp_header s (ACK OR PSH) c @ cs)"
    using send_packet_law [OF assms(1-4)] by blast
  have size: "bv_size v = length cs" using assms(1) by (simp add: views_def)
  let ?s1 = "s\<lparr>ts_sent := ts_sent s @ [(ts_remote_ip s, w)]\<rparr>"
  have chk: "ack_checker (ts_local_sequence s) ?s1" using assms(5,6) by (simp add: ack_checker_def)
  obtain k where k: "session_send v s = Wait AckQueue ?s1 (ack_checker (ts_local_sequence s)) k"
    "\<And>s2. ts_state s2 \<noteq> CLOSED \<Longrightarrow> k WokenUp s2 = Done (Result (length cs)) (s2\<lparr>ts_local_sequence := ts_local_sequence s2 + of_nat (length cs)\<rparr>)"
    using assms(5) w(1) chk size
    by (simp add: session_send_def send_payload_def send_and_wait_ack_def or_end_def wait_on_event_def numeral_eq_Suc)
  then show ?thesis using w(2,3) by blast
qed

lemma receive_waits:
  assumes "ts_state p = ESTABLISHED"
  shows "\<exists>k. session_receive buf p = Wait DataPushQueue (p\<lparr>ts_buffer_start_pointer := ts_buffer_written_pointer p\<rparr>) (\<lambda>_. False) k \<and>
     (\<forall>p2. ts_state p2 = ESTABLISHED \<and> sz_sub (ts_buffer_written_pointer p2) (ts_buffer_start_pointer p2) \<le> bv_size buf \<longrightarrow> k WokenUp p2 =
       lift (mv_fill_from buf (buf_data (ts_buffer p2), ts_buffer_start_pointer p2) 0 (sz_sub (ts_buffer_written_pointer p2) (ts_buffer_start_pointer p2)))
         (\<lambda>d. Done (Result (sz_sub (ts_buffer_written_pointer p2) (ts_buffer_start_pointer p2), d))
            (p2\<lparr>ts_local_window_size := ts_local_window_size p2 + of_nat (sz_sub (ts_buffer_written_pointer p2) (ts_buffer_start_pointer p2))\<rparr>)))"
  using assms by (simp add: session_receive_def or_end_def wait_for_packet_def wait_queue_def Let_def)

lemma seq_advances: "unat (x :: u32) + n < sz_range \<Longrightarrow> 0 < n \<Longrightarrow> \<not> x + of_nat n \<le> x"
proof -
  assume n: "unat x + n < sz_range" "0 < n"
  then have "unat (of_nat n :: u32) = n" by (simp add: unsigned_of_nat take_bit_eq_mod)
  then have "unat (x + of_nat n) = unat x + n" using n(1) by (simp add: unat_word_ariths)
  then show ?thesis using n(2) by (simp add: word_le_nat_alt)
qed

section \<open>Properties\<close>


definition sample_end :: "ipv4_address \<Rightarrow> u16 \<Rightarrow> ipv4_address \<Rightarrow> u16 \<Rightarrow> tcp_session" where
  "sample_end ip port ip' port' = (tcp_session_new ip (bm_new 65535) Client)\<lparr>ts_state := ESTABLISHED, ts_remote_ip := ip', ts_local_port := port, ts_remote_port := port'\<rparr>"


text \<open>The wait of a call ends by its timeout, with the session as it was left.\<close>

definition time_out :: "'a tcp_run \<Rightarrow> 'a tcp_run" where
  "time_out r = (case r of Wait q s c k \<Rightarrow> k TimedOut s | _ \<Rightarrow> r)"

lemma session_connect_waits:
  fixes ip port
  assumes "bm_find_first_clear (ts_ports s) 0 = Inr lp" "ts_last_ack s = 0" "ts_local_sequence s = 0"
  defines "s0 \<equiv> s\<lparr>ts_remote_ip := ip, ts_remote_port := port, ts_local_port := of_nat lp, ts_state := SYN_SENT\<rparr>"
  shows "\<exists>w c k. session_connect ip port s = Wait AckQueue (s0\<lparr>ts_sent := ts_sent s @ [(ip, w)]\<rparr>) (ack_checker 0) k \<and>
     views w (tcp_header s0 SYN c) \<and>
     (\<forall>s2. ts_state s2 \<noteq> CLOSED \<longrightarrow> k WokenUp s2 = or_end (wait_for_syn (s2\<lparr>ts_local_sequence := ts_local_sequence s2 + 1\<rparr>)) (\<lambda>s2.
        or_end (send_ack s2) (\<lambda>s3. Done (Result ()) (s3\<lparr>ts_state := ESTABLISHED\<rparr>))))"
proof -
  obtain c where c: "send_packet bv_empty SYN s0 = Done (Result ()) (s0\<lparr>ts_sent := ts_sent s0 @ [(ts_remote_ip s0, bv_raw (chars (tcp_header s0 SYN c), 0) 20)]\<rparr>)"
    using send_empty_law by blast
  let ?w = "bv_raw (chars (tcp_header s0 SYN c), 0) 20"
  have f: "ts_remote_ip s0 = ip" "ts_sent s0 = ts_sent s" "ts_local_sequence s0 = 0" by (simp_all add: s0_def assms(3))
  have chk: "ack_checker 0 (s0\<lparr>ts_sent := ts_sent s @ [(ip, ?w)]\<rparr>)" using assms(2) by (simp add: ack_checker_def s0_def)
  have v: "views ?w (tcp_header s0 SYN c)" by (rule views_literal) simp_all
  have "session_connect ip port s = or_end (send_syn s0) (\<lambda>s1. or_end (wait_for_syn s1) (\<lambda>s2. or_end (send_ack s2) (\<lambda>s3. Done (Result ()) (s3\<lparr>ts_state := ESTABLISHED\<rparr>))))"
    using assms(1) by (simp add: session_connect_def s0_def)
  then show ?thesis using v chk c f
    by (intro exI [of _ ?w] exI [of _ c]) (simp add: send_syn_def send_and_wait_ack_def or_end_def wait_on_event_def numeral_eq_Suc)
qed

lemma transmit_times_out:
  assumes "ts_state s \<noteq> CLOSED" "ts_last_ack s \<le> seq"
  shows "\<exists>s'. (time_out ^^ n) (bindp (transmit n bv_empty flags seq s) f) = f (Result TimedOut) s' \<and>
     s' = s\<lparr>ts_sent := ts_sent s'\<rparr> \<and> length (ts_sent s') = length (ts_sent s) + n"
  using assms
proof (induction n arbitrary: s)
  case (Suc n)
  obtain w where w: "send_packet bv_empty flags s = Done (Result ()) (s\<lparr>ts_sent := ts_sent s @ [w]\<rparr>)" using send_empty_law by blast
  let ?s1 = "s\<lparr>ts_sent := ts_sent s @ [w]\<rparr>"
  have "ack_checker seq ?s1" using Suc.prems by (simp add: ack_checker_def)
  then have "time_out (bindp (transmit (Suc n) bv_empty flags seq s) f) = bindp (transmit n bv_empty flags seq ?s1) f"
    using w by (cases n) (simp_all add: wait_on_event_def time_out_def)
  moreover obtain s' where s': "(time_out ^^ n) (bindp (transmit n bv_empty flags seq ?s1) f) = f (Result TimedOut) s'"
    "s' = ?s1\<lparr>ts_sent := ts_sent s'\<rparr>" "length (ts_sent s') = length (ts_sent ?s1) + n" using Suc.IH [of ?s1] Suc.prems by auto
  ultimately have "(time_out ^^ Suc n) (bindp (transmit (Suc n) bv_empty flags seq s) f) = f (Result TimedOut) s'"
    by (simp only: funpow_Suc_right o_def)
  then show ?case using s'(2,3) by (intro exI [of _ s']) simp
next
  case 0
  then show ?case by (intro exI [of _ s]) simp
qed

lemma session_connect_transmits:
  fixes ip port
  assumes "bm_find_first_clear (ts_ports s) 0 = Inr lp" "ts_local_sequence s = 0"
  defines "s0 \<equiv> s\<lparr>ts_remote_ip := ip, ts_remote_port := port, ts_local_port := of_nat lp, ts_state := SYN_SENT\<rparr>"
  shows "\<exists>g. session_connect ip port s = bindp (transmit 5 bv_empty SYN 0 s0) g \<and>
     (\<forall>s'. g (Result TimedOut) s' = bindp (end_connection s') (\<lambda>_ s1. Done (ResultError ERROR_CONNECTION_TIMEOUT) s1))"
proof -
  let ?rest = "\<lambda>s1. or_end (wait_for_syn s1) (\<lambda>s2. or_end (send_ack s2) (\<lambda>s3. Done (Result ()) (s3\<lparr>ts_state := ESTABLISHED\<rparr>)))"
  have c: "session_connect ip port s = or_end (send_syn s0) ?rest" using assms(1) by (simp add: session_connect_def s0_def)
  have l: "ts_local_sequence s0 = 0" by (simp add: s0_def assms(2))
  have c': "session_connect ip port s = bindp (send_syn s0) (\<lambda>e s. if is_error e
      then bindp (end_connection s) (\<lambda>_ s1. Done (ResultError (result_error e)) s1) else ?rest s)" unfolding c by (rule or_end_def)
  show ?thesis unfolding c' send_syn_def send_and_wait_ack_def bindp_assoc l
    by (rule exI, rule conjI, rule refl) (simp add: ERROR_CONNECTION_TIMEOUT_def)
qed

lemma end_connection_law:
  assumes "bm_wf (ts_ports s)" "bm_m_bitmap_size (ts_ports s) = 65535"
  shows "\<exists>s'. end_connection s = Done () s' \<and> ts_state s' = CLOSED \<and> ts_sent s' = ts_sent s \<and> \<not> bm_used (ts_ports s') (unat (ts_local_port s))"
proof -
  have "unat (ts_local_port s) \<le> 65535" using unsigned_less [of "ts_local_port s", where ?'a = nat] by simp
  then obtain b where "bm_clear (ts_ports s) (unat (ts_local_port s)) = Inr b" "\<not> bm_used b (unat (ts_local_port s))"
    using bm_clear_law [OF assms(1), of "unat (ts_local_port s)"] assms(2) by (auto simp: ok_iff)
  then show ?thesis by (auto simp: end_connection_def Let_def wake_up_all_def syn_release_def)
qed

text \<open>
  (C7) Opening a connection as the client: \<open>connect\<close> sends a SYN and waits; a SYN with ACK of the server
  that acknowledges it lets the call go on without a further wait, it sends the last ACK and
  returns success with the session established and in step with the server. Without an answer
  the SYN is sent five times, the call returns \<open>ERROR_CONNECTION_TIMEOUT\<close> and the session is closed.
\<close>


theorem tcp_connect_outcome:
  assumes "s = tcp_session_new device_ip ports Client" "bm_wf ports" "bm_m_bitmap_size ports = 65535" "bm_find_first_clear ports 0 = Inr lp"
    and "ts_device_ip q = ip" "ts_remote_ip q = device_ip" "ts_local_port q = port" "ts_remote_port q = of_nat lp" "ts_remote_sequence q = 1"
    and "views v (tcp_header q (SYN OR ACK) c)" "good_segment q (tcp_header q (SYN OR ACK) c)"
  shows "(\<exists>s1 w chk k s2 s3 a. session_connect ip port s = Wait AckQueue s1 chk k \<and> ts_state s1 = SYN_SENT \<and> ts_sent s1 = [(ip, w)] \<and>
       session_handle fuel ip v s1 = Done () s2 \<and> resume (session_connect ip port s) WokenUp s2 = Done (Result ()) s3 \<and> ts_sent s3 = [(ip, w), (ip, a)] \<and>
       connected s3 (q\<lparr>ts_state := ESTABLISHED, ts_local_sequence := ts_local_sequence q + 1\<rparr>)) \<and>
     (\<exists>s'. (time_out ^^ 5) (session_connect ip port s) = Done (ResultError ERROR_CONNECTION_TIMEOUT) s' \<and> ts_state s' = CLOSED \<and> length (ts_sent s') = 5)"
proof (rule conjI)
  define s0 where "s0 = s\<lparr>ts_remote_ip := ip, ts_remote_port := port, ts_local_port := of_nat lp, ts_state := SYN_SENT\<rparr>"
  have new: "ts_ports s = ports" "ts_last_ack s = 0" "ts_local_sequence s = 0" "ts_syn_count s = 0" "ts_sent s = []" "ts_device_ip s = device_ip" "ts_woken s = []"
    using assms(1) by (simp_all add: tcp_session_new_def)
  obtain w k where w: "session_connect ip port s = Wait AckQueue (s0\<lparr>ts_sent := [(ip, w)]\<rparr>) (ack_checker 0) k"
    "\<And>s2. ts_state s2 \<noteq> CLOSED \<Longrightarrow> k WokenUp s2 = or_end (wait_for_syn (s2\<lparr>ts_local_sequence := ts_local_sequence s2 + 1\<rparr>)) (\<lambda>s2.
        or_end (send_ack s2) (\<lambda>s3. Done (Result ()) (s3\<lparr>ts_state := ESTABLISHED\<rparr>)))"
    using session_connect_waits [of s lp ip port] assms(4) new unfolding s0_def [symmetric] by auto
  let ?s1 = "s0\<lparr>ts_sent := [(ip, w)]\<rparr>"
  have v: "views v (tcp_header q (SYN OR ACK) c @ [])" "good_segment ?s1 (tcp_header q (SYN OR ACK) c @ [])"
    using assms(5,6,10,11) good_segment_peer [of q ?s1] new by (simp_all add: s0_def)
  let ?s2 = "?s1\<lparr>ts_remote_window_size := ts_local_window_size q, ts_remote_sequence := ts_local_sequence q + 1, ts_remote_port := port,
     ts_syn_count := 1, ts_last_ack := 1, ts_woken := [AckQueue, DataQueue]\<rparr>"
  note f = segment_fields [OF v(1)]
  have s2: "session_handle fuel ip v ?s1 = Done () ?s2"
    using session_handle_law [OF v, of fuel ip] f assms(7,9) new
    by (simp add: s0_def handle_out_of_order_packets_def on_flag_def handle_syn_def handle_ack_def wake_up_all_def syn_release_def SIZEOF_TCPHeader_def)
  let ?s2' = "?s2\<lparr>ts_local_sequence := 1, ts_syn_count := 0\<rparr>"
  obtain a where a: "send_packet bv_empty ACK ?s2' = Done (Result ()) (?s2'\<lparr>ts_sent := [(ip, w), (ip, a)]\<rparr>)"
    using send_empty_law [of ACK ?s2'] by (auto simp: s0_def)
  let ?s3 = "?s2'\<lparr>ts_sent := [(ip, w), (ip, a)], ts_state := ESTABLISHED\<rparr>"
  have "\<not> ack_checker 0 ?s2" by (simp add: ack_checker_def)
  moreover have "k WokenUp ?s2 = Done (Result ()) ?s3"
    using w(2) [of ?s2] a new by (simp add: s0_def wait_for_syn_def syn_acquire_def or_end_def send_ack_def)
  ultimately have s3: "resume (session_connect ip port s) WokenUp ?s2 = Done (Result ()) ?s3" unfolding w(1) by simp
  have con: "connected ?s3 (q\<lparr>ts_state := ESTABLISHED, ts_local_sequence := ts_local_sequence q + 1\<rparr>)"
    using assms(5-9) new by (simp add: connected_def s0_def)
  have st: "ts_state ?s1 = SYN_SENT" "ts_sent ?s1 = [(ip, w)]" "ts_sent ?s3 = [(ip, w), (ip, a)]" by (simp_all add: s0_def)
  show "\<exists>s1 w chk k s2 s3 a. session_connect ip port s = Wait AckQueue s1 chk k \<and> ts_state s1 = SYN_SENT \<and> ts_sent s1 = [(ip, w)] \<and>
       session_handle fuel ip v s1 = Done () s2 \<and> resume (session_connect ip port s) WokenUp s2 = Done (Result ()) s3 \<and> ts_sent s3 = [(ip, w), (ip, a)] \<and>
       connected s3 (q\<lparr>ts_state := ESTABLISHED, ts_local_sequence := ts_local_sequence q + 1\<rparr>)"
    by (intro exI conjI) (rule w(1), rule st(1), rule st(2), rule s2, rule s3, rule st(3), rule con)
next
  define s0 where "s0 = s\<lparr>ts_remote_ip := ip, ts_remote_port := port, ts_local_port := of_nat lp, ts_state := SYN_SENT\<rparr>"
  have new: "ts_ports s0 = ports" "ts_last_ack s0 = 0" "ts_local_sequence s0 = 0" "ts_sent s0 = []" "ts_state s0 = SYN_SENT"
    using assms(1) by (simp_all add: tcp_session_new_def s0_def)
  obtain g where g: "session_connect ip port s = bindp (transmit 5 bv_empty SYN 0 s0) g"
    "\<And>s'. g (Result TimedOut) s' = bindp (end_connection s') (\<lambda>_ s1. Done (ResultError ERROR_CONNECTION_TIMEOUT) s1)"
    using session_connect_transmits [of s lp ip port] assms(1,4) unfolding s0_def [symmetric] by (auto simp: tcp_session_new_def)
  obtain s' where s': "(time_out ^^ 5) (bindp (transmit 5 bv_empty SYN 0 s0) g) = g (Result TimedOut) s'" "s' = s0\<lparr>ts_sent := ts_sent s'\<rparr>"
    "length (ts_sent s') = 5" using transmit_times_out [of s0 0 5 SYN g] new by auto
  have "ts_ports s' = ts_ports (s0\<lparr>ts_sent := ts_sent s'\<rparr>)" using s'(2) by simp
  then have "ts_ports s' = ports" using new(1) by simp
  then obtain s2 where s2: "end_connection s' = Done () s2" "ts_state s2 = CLOSED" "ts_sent s2 = ts_sent s'"
    using end_connection_law [of s'] assms(2,3) by auto
  have "g (Result TimedOut) s' = Done (ResultError ERROR_CONNECTION_TIMEOUT) s2" using s2(1) g(2) by simp
  then show "\<exists>s'. (time_out ^^ 5) (session_connect ip port s) = Done (ResultError ERROR_CONNECTION_TIMEOUT) s' \<and> ts_state s' = CLOSED \<and> length (ts_sent s') = 5"
    using s'(1,3) s2 g(1) by (intro exI [of _ s2]) simp
qed

theorem tcp_connect_outcome_witness:
  "\<exists>q v c s1 w chk k s2 s3 a. views v (tcp_header q (SYN OR ACK) c) \<and>
     session_connect (IPv4Address 10 0 2 2) 80 (tcp_session_new (IPv4Address 10 0 2 15) (bm_new 65535) Client) = Wait AckQueue s1 chk k \<and>
     ts_sent s1 = [(IPv4Address 10 0 2 2, w)] \<and> session_handle 0 (IPv4Address 10 0 2 2) v s1 = Done () s2 \<and>
     resume (session_connect (IPv4Address 10 0 2 2) 80 (tcp_session_new (IPv4Address 10 0 2 15) (bm_new 65535) Client)) WokenUp s2 = Done (Result ()) s3 \<and>
     ts_sent s3 = [(IPv4Address 10 0 2 2, w), (IPv4Address 10 0 2 2, a)]"
proof -
  define q where "q = (sample_end (IPv4Address 10 0 2 2) 80 (IPv4Address 10 0 2 15) 0)\<lparr>ts_remote_sequence := 1\<rparr>"
  have wf: "bm_wf (bm_new 65535)" "bm_m_bitmap_size (bm_new 65535) = 65535" using bm_new_wf [of 65535] by (simp_all add: bm_new_def)
  have lp: "bm_find_first_clear (bm_new 65535) 0 = Inr 0"
    using bm_find_first_clear_law [OF wf(1)] wf(2) bm_new_unused [of 0 65535] by (auto simp: ok_iff)
  obtain c where c: "good_segment q (tcp_header q (SYN OR ACK) c)" using send_empty_law [of "SYN OR ACK" q] by blast
  have v: "views (bv_raw (chars (tcp_header q (SYN OR ACK) c), 0) 20) (tcp_header q (SYN OR ACK) c)" by (rule views_literal) simp_all
  have f: "ts_device_ip q = IPv4Address 10 0 2 2" "ts_remote_ip q = IPv4Address 10 0 2 15" "ts_local_port q = 80" "ts_remote_port q = of_nat 0" "ts_remote_sequence q = 1"
    by (simp_all add: q_def sample_end_def tcp_session_new_def)
  from tcp_connect_outcome [OF refl wf lp f v c, of 0] v show ?thesis by (elim conjE exE) (intro exI conjI, assumption+)
qed

text \<open>
  (C38) A listening session does not accept a SYN: the checksum is computed with the address of the
  peer, which is only stored when the SYN is handled and is zero before. Every correct segment
  of a peer whose address does not sum up to a multiple of 65535 is dropped, so \<open>accept\<close> waits on.
\<close>

theorem tcp_listen_drops_syn:
  assumes "ts_remote_ip s = ip_Zero" "views v cs" "even (length cs)" "length cs \<le> 65535" "good_segment q cs" "ts_remote_ip q = ts_device_ip s"
    and "\<not> 65535 dvd be_sum (ip_bytes (ts_device_ip q))"
  shows "session_handle fuel ip v s = Done () s"
proof -
  let ?P = "\<lambda>s. be_sum (pseudo_ip_header s (length cs))"
  have "?P q = ?P s + be_sum (ip_bytes (ts_device_ip q))"
    using assms(1,6) by (simp add: pseudo_ip_header_def be_sum_append ip_Zero_def)
  moreover have "65535 dvd be_sum cs + ?P q" using assms(5) by (simp add: good_segment_def)
  ultimately have "65535 dvd (be_sum cs + ?P s) + be_sum (ip_bytes (ts_device_ip q))" by (simp add: add.assoc)
  then have "\<not> good_segment s cs" using assms(7) unfolding good_segment_def by (auto simp only: dvd_add_right_iff)
  then show ?thesis using is_packet_ok_good [OF assms(2-4)] by (simp add: session_handle_def)
qed

theorem tcp_listen_drops_syn_witness:
  "\<exists>s v. ts_state s = LISTEN \<and> ts_local_port s = 80 \<and> is_packet_for_me s (IPv4Address 10 0 2 15) v = Inr True \<and>
     session_handle 0 (IPv4Address 10 0 2 15) v s = Done () s"
proof -
  define q where "q = sample_end (IPv4Address 10 0 2 15) 5000 (IPv4Address 10 0 2 2) 80"
  define s where "s = (tcp_session_new (IPv4Address 10 0 2 2) (bm_new 65535) Server)\<lparr>ts_local_port := 80, ts_state := LISTEN\<rparr>"
  obtain c where c: "good_segment q (tcp_header q SYN c)" using send_empty_law [of SYN q] by blast
  let ?v = "bv_raw (chars (tcp_header q SYN c), 0) 20"
  have v: "views ?v (tcp_header q SYN c)" by (rule views_literal) simp_all
  then have "views ?v (tcp_header q SYN c @ [])" by simp
  note segment_fields [OF this]
  then have me: "is_packet_for_me s (IPv4Address 10 0 2 15) ?v = Inr True"
    by (simp add: is_packet_for_me_def SIZEOF_TCPHeader_def s_def q_def sample_end_def tcp_session_new_def flip: network_word16_def)
  have f: "ts_remote_ip s = ip_Zero" "ts_remote_ip q = ts_device_ip s" "\<not> 65535 dvd be_sum (ip_bytes (ts_device_ip q))"
    "ts_state s = LISTEN" "ts_local_port s = 80"
    by (simp_all add: s_def q_def sample_end_def tcp_session_new_def)
  from tcp_listen_drops_syn [OF f(1) v _ _ c f(2,3)] me f(4,5) show ?thesis by (intro exI [of _ s] exI [of _ ?v]) simp
qed

text \<open>
  The positions in the receive buffer only grow, while reading gives the window back: the first
  segment that would end behind the 8000 bytes of the buffer fails the assertion of the copy.
\<close>

theorem tcp_receive_buffer_exhausted:
  assumes "connected s p" "views w (tcp_header s (ACK OR PSH) c @ cs)" "good_segment s (tcp_header s (ACK OR PSH) c @ cs)"
    and "cs \<noteq> []" "even (length cs)" "length cs + 20 \<le> unat (ts_local_window_size p)"
    and "buf_size (ts_buffer p) = MAX_WINDOW_SIZE" "ts_buffer_written_pointer p \<le> MAX_WINDOW_SIZE" "MAX_WINDOW_SIZE < ts_buffer_written_pointer p + length cs"
  shows "session_handle fuel ip w p = Fault AssertFailed"
proof -
  let ?p0 = "p\<lparr>ts_remote_window_size := ts_local_window_size s\<rparr>"
  have st: "ts_state p = ESTABLISHED" "ts_remote_sequence p = ts_local_sequence s" using assms(1) by (simp_all add: connected_def)
  have win: "length cs + 20 \<le> 65535" using assms(6) unsigned_less [of "ts_local_window_size p", where ?'a = nat] by simp
  have good: "good_segment p (tcp_header s (ACK OR PSH) c @ cs)"
    using assms(1,3) good_segment_peer [of p s] by (simp add: connected_def)
  have ooo: "handle_out_of_order_packets fuel (ts_local_sequence s) (length cs) ?p0 = Done True ?p0"
    by (rule in_order_segment) (use st assms(6) in simp_all)
  have "sz_add (ts_buffer_written_pointer p) (length cs) = ts_buffer_written_pointer p + length cs"
    using assms(8) win by (simp add: sz_add_eq MAX_WINDOW_SIZE_def)
  then have "handle_data w 20 (length cs) ?p0 = Fault AssertFailed"
    using assms(6-9) segment_fields(2) [OF assms(2)]
    by (simp add: handle_data_def is_buffer_available_def mv_fill_from_def buf_write_def buf_view_def MAX_WINDOW_SIZE_def)
  then show ?thesis using session_handle_law [OF assms(2) good assms(5) win] assms(4) st ooo by (simp add: on_flag_def)
qed

theorem tcp_receive_buffer_exhausted_witness:
  "\<exists>s p w. connected s p \<and> ts_local_window_size p = 8000 \<and> ts_buffer_written_pointer p = 7999 \<and> session_handle 0 (ts_device_ip s) w p = Fault AssertFailed"
proof -
  define s where "s = sample_end (IPv4Address 10 0 2 15) 5000 (IPv4Address 10 0 2 2) 80"
  define p where "p = (sample_end (IPv4Address 10 0 2 2) 80 (IPv4Address 10 0 2 15) 5000)\<lparr>ts_buffer_written_pointer := 7999\<rparr>"
  have con: "connected s p" by (simp add: connected_def s_def p_def sample_end_def tcp_session_new_def)
  have v: "views (bv_raw (chars [1, 2], 0) 2) [1, 2]" by (rule views_literal) simp_all
  obtain w c where w: "views w (tcp_header s (ACK OR PSH) c @ [1, 2])" "good_segment s (tcp_header s (ACK OR PSH) c @ [1, 2])"
    using send_packet_law [OF v, of "ACK OR PSH" s] by auto
  have f: "ts_local_window_size p = 8000" "buf_size (ts_buffer p) = MAX_WINDOW_SIZE" "ts_buffer_written_pointer p = 7999"
    by (simp_all add: p_def sample_end_def tcp_session_new_def MAX_WINDOW_SIZE_def buf_new_def)
  have "session_handle 0 (ts_device_ip s) w p = Fault AssertFailed"
    by (rule tcp_receive_buffer_exhausted [OF con w]) (simp_all add: f MAX_WINDOW_SIZE_def)
  then show ?thesis using con f by blast
qed

end
