(* ===== verification/Dhcp.thy ===== *)
theory Dhcp
  imports Datagrams
begin

text \<open>
  The DHCP client (dhcp.h, dhcp.cpp). Its messages go through UDP; the calls of \<open>receive\<close> deliver
  the datagrams of a given sequence, each as the contents of the client's buffer of 2000 bytes.
  The loops over the options have fuel: the walk of \<open>get_dhcp_type\<close> need not end.
\<close>

section \<open>State and messages\<close>

datatype dhcp_state = Idle | Discovery | Offer | Request | Acknowledge

record dhcp =
  d_state :: dhcp_state
  d_device_ip :: ipv4_address
  d_gateway_ip :: ipv4_address
  d_subnet_mask :: ipv4_address

definition SIZEOF_DHCPHeader :: size_t where "SIZEOF_DHCPHeader = 300"

definition OPTIONS_OFFSET :: size_t where "OPTIONS_OFFSET = 240"

definition OPT_Pading :: u8 where "OPT_Pading = 0"
definition OPT_SubnetMask :: u8 where "OPT_SubnetMask = 1"
definition OPT_RouterIPs :: u8 where "OPT_RouterIPs = 3"
definition OPT_DNSServers :: u8 where "OPT_DNSServers = 6"
definition OPT_NetworkTimeProtocolServers :: u8 where "OPT_NetworkTimeProtocolServers = 42"
definition OPT_RequestedIP :: u8 where "OPT_RequestedIP = 50"
definition OPT_MessageType :: u8 where "OPT_MessageType = 53"
definition OPT_ParameterRequestList :: u8 where "OPT_ParameterRequestList = 55"
definition OPT_ClientIdentifier :: u8 where "OPT_ClientIdentifier = 61"
definition OPT_End :: u8 where "OPT_End = 255"

definition MSG_Discover :: u8 where "MSG_Discover = 1"
definition MSG_Offer :: u8 where "MSG_Offer = 2"
definition MSG_Request :: u8 where "MSG_Request = 3"
definition MSG_ACK :: u8 where "MSG_ACK = 5"
definition MSG_NACK :: u8 where "MSG_NACK = 6"

definition fill :: "buffer \<Rightarrow> u8 list \<Rightarrow> size_t \<Rightarrow> buffer run" where
  "fill b cs off = buf_write b (mv_fill_by (buf_view b) cs off)"

definition make_dhcp_segment :: "mac_address \<Rightarrow> ipv4_address \<Rightarrow> u8 \<Rightarrow> buffer run" where
  "make_dhcp_segment mac requested_ip type = (let b0 = buf_new SIZEOF_DHCPHeader in
     bindr (convert_to (buf_view b0) SIZEOF_DHCPHeader) (\<lambda>_.
     bindr (fill b0 ([1, 1, 6, 0] @ le32 0xDEADC0DE @ le16 0 @ le16 (network_word16 0x8000)) 0) (\<lambda>b1.
     bindr (buf_write b1 (mac_copy mac (buf_data b1) 28)) (\<lambda>b2.
     bindr (fill b2 (le32 (network_word32 0x63825363)) 236) (\<lambda>b3.
     bindr (fill b3 [OPT_MessageType, 1, type] OPTIONS_OFFSET) (\<lambda>b4.
     bindr (fill b4 ([OPT_ClientIdentifier, 7, 1] @ mac_bytes mac) (OPTIONS_OFFSET + 3)) (\<lambda>b5.
     bindr (fill b5 ([OPT_RequestedIP, 4] @ ip_bytes requested_ip) (OPTIONS_OFFSET + 12)) (\<lambda>b6.
     bindr (fill b6 [OPT_ParameterRequestList, 4, OPT_SubnetMask, OPT_RouterIPs, OPT_DNSServers, OPT_NetworkTimeProtocolServers, 0, 0, 0, 0]
       (OPTIONS_OFFSET + 18)) (\<lambda>b7.
     fill b7 [OPT_End] (OPTIONS_OFFSET + 28))))))))))"

definition dhcp_server :: socket_address where
  "dhcp_server = \<lparr>sa_ip = ip_Broadcast, sa_port = 67\<rparr>"

definition send_dhcp_discovery :: "mac_address \<Rightarrow> dhcp \<Rightarrow> udp \<Rightarrow> (dhcp \<times> udp) run" where
  "send_dhcp_discovery mac d u = bindr (make_dhcp_segment mac ip_Zero MSG_Discover) (\<lambda>b.
     bindr (udp_send_from u dhcp_server 68 (buf_view b)) (\<lambda>(_, u1). Inr (d\<lparr>d_state := Discovery\<rparr>, u1)))"

definition send_dhcp_request :: "mac_address \<Rightarrow> ipv4_address \<Rightarrow> dhcp \<Rightarrow> udp \<Rightarrow> (dhcp \<times> udp) run" where
  "send_dhcp_request mac requested_ip d u = bindr (make_dhcp_segment mac requested_ip MSG_Request) (\<lambda>b.
     bindr (udp_send_from u dhcp_server 68 (buf_view b)) (\<lambda>(_, u1). Inr (d\<lparr>d_state := Request\<rparr>, u1)))"

section \<open>Options\<close>

fun type_loop :: "nat \<Rightarrow> cptr \<Rightarrow> nat \<Rightarrow> u8 run" where
  "type_loop fuel p off =
     (if off < SIZEOF_DHCPHeader then bindr (rd p off) (\<lambda>code.
        if code = OPT_End then Inr MSG_NACK
        else if code = OPT_MessageType then rd p (off + 2)
        else case fuel of 0 \<Rightarrow> Inl OutOfFuel
          | Suc f \<Rightarrow> if code = OPT_Pading then type_loop f p (off + 1)
                     else bindr (rd p (off + 1)) (\<lambda>n. type_loop f p (off + unat n)))
      else Inr MSG_NACK)"

definition get_dhcp_type :: "nat \<Rightarrow> buffer_view \<Rightarrow> u8 run" where
  "get_dhcp_type fuel buffer = bindr (const_convert_to buffer SIZEOF_DHCPHeader) (\<lambda>p. type_loop fuel p OPTIONS_OFFSET)"

fun offer_loop :: "nat \<Rightarrow> cptr \<Rightarrow> nat \<Rightarrow> dhcp \<Rightarrow> dhcp run" where
  "offer_loop fuel p off d =
     (if off < SIZEOF_DHCPHeader then bindr (rd p off) (\<lambda>code.
        if code = OPT_End then Inr d
        else case fuel of 0 \<Rightarrow> Inl OutOfFuel
          | Suc f \<Rightarrow> bindr (if code = OPT_RouterIPs then bindr (rd32 p (off + 2)) (\<lambda>w. Inr (d\<lparr>d_gateway_ip := ip_of_u32 w\<rparr>))
                            else if code = OPT_SubnetMask then bindr (rd32 p (off + 2)) (\<lambda>w. Inr (d\<lparr>d_subnet_mask := ip_of_u32 w\<rparr>))
                            else Inr d) (\<lambda>d1.
              if code = OPT_Pading then offer_loop f p (off + 1) d1
              else bindr (rd p (off + 1)) (\<lambda>n. offer_loop f p (off + (unat n + 2)) d1)))
      else Inr d)"

definition parse_dhcp_offer :: "nat \<Rightarrow> buffer_view \<Rightarrow> dhcp \<Rightarrow> dhcp run" where
  "parse_dhcp_offer fuel buffer d = bindr (const_convert_to buffer SIZEOF_DHCPHeader) (\<lambda>p.
     bindr (ip_of_ptr (advance p 16)) (\<lambda>your_ip. offer_loop fuel p OPTIONS_OFFSET (d\<lparr>d_device_ip := your_ip\<rparr>)))"

section \<open>The conversation\<close>

definition handle_dhcp_offer :: "nat \<Rightarrow> mac_address \<Rightarrow> buffer_view \<Rightarrow> dhcp \<Rightarrow> udp \<Rightarrow> (dhcp \<times> udp) run" where
  "handle_dhcp_offer fuel mac buffer d u = bindr (parse_dhcp_offer fuel buffer d) (\<lambda>d1.
     bindr (send_dhcp_request mac (d_device_ip d1) d1 u) (\<lambda>(d2, u1). Inr (d2\<lparr>d_state := Offer\<rparr>, u1)))"

definition handle_dhcp_ack :: "dhcp \<Rightarrow> dhcp" where
  "handle_dhcp_ack d = d\<lparr>d_state := Acknowledge\<rparr>"

definition handle_dhcp :: "nat \<Rightarrow> mac_address \<Rightarrow> buffer_view \<Rightarrow> dhcp \<Rightarrow> udp \<Rightarrow> (dhcp \<times> udp) run" where
  "handle_dhcp fuel mac buffer d u = bindr (get_dhcp_type fuel buffer) (\<lambda>type.
     if type = MSG_Offer then handle_dhcp_offer fuel mac buffer d u
     else if type = MSG_ACK then Inr (handle_dhcp_ack d, u)
     else Inr (d, u))"

text \<open>The loop of \<open>request_dhcp_information\<close> over the datagrams received; \<open>None\<close> while it waits for the next one.\<close>

fun receive_loop :: "nat \<Rightarrow> mac_address \<Rightarrow> buffer_view list \<Rightarrow> dhcp \<Rightarrow> udp \<Rightarrow> ((ipv4_address \<times> ipv4_address \<times> ipv4_address) option \<times> dhcp \<times> udp) run" where
  "receive_loop fuel mac vs d u =
     (if d_state d = Acknowledge then Inr (Some (d_device_ip d, d_gateway_ip d, d_subnet_mask d), d, u)
      else case vs of [] \<Rightarrow> Inr (None, d, u)
        | v # vs' \<Rightarrow> bindr (handle_dhcp fuel mac v d u) (\<lambda>(d1, u1). receive_loop fuel mac vs' d1 u1))"

definition request_dhcp_information :: "nat \<Rightarrow> mac_address \<Rightarrow> buffer_view list \<Rightarrow> dhcp \<Rightarrow> udp \<Rightarrow>
    ((ipv4_address \<times> ipv4_address \<times> ipv4_address) option \<times> dhcp \<times> udp) run" where
  "request_dhcp_information fuel mac vs d u = bindr (send_dhcp_discovery mac d u) (\<lambda>(d1, u1). receive_loop fuel mac vs d1 u1)"

declare type_loop.simps [simp del] offer_loop.simps [simp del] receive_loop.simps [simp del]

section \<open>Walking the options\<close>

text \<open>An option is its code and its bytes; the client's own options are given by their code.\<close>

definition encode_option :: "u8 \<times> u8 list \<Rightarrow> u8 list" where
  "encode_option x = fst x # of_nat (length (snd x)) # snd x"

definition option_ok :: "u8 \<times> u8 list \<Rightarrow> bool" where
  "option_ok x = (fst x \<noteq> OPT_Pading \<and> fst x \<noteq> OPT_End \<and> length (snd x) < 256 \<and>
     (fst x = OPT_RouterIPs \<or> fst x = OPT_SubnetMask \<longrightarrow> 4 \<le> length (snd x)))"

definition option_ip :: "u8 list \<Rightarrow> ipv4_address" where
  "option_ip bs = IPv4Address (bs ! 0) (bs ! 1) (bs ! 2) (bs ! 3)"

definition apply_option :: "u8 \<times> u8 list \<Rightarrow> dhcp \<Rightarrow> dhcp" where
  "apply_option x d = (if fst x = OPT_RouterIPs then d\<lparr>d_gateway_ip := option_ip (snd x)\<rparr>
     else if fst x = OPT_SubnetMask then d\<lparr>d_subnet_mask := option_ip (snd x)\<rparr> else d)"

lemma ip_of_u32_word32: "ip_of_u32 (word32 a b c d) = IPv4Address a b c d"
proof -
  have "ucast (word32 a b c d) = a" by (rule bit_word_eqI) (auto simp: word32_def bit_simps)
  moreover have "ucast (drop_bit 8 (word32 a b c d)) = b" by (rule bit_word_eqI) (auto simp: word32_def bit_simps dest: bit_u8)
  moreover have "ucast (drop_bit 16 (word32 a b c d)) = c" by (rule bit_word_eqI) (auto simp: word32_def bit_simps dest: bit_u8)
  moreover have "ucast (drop_bit 24 (word32 a b c d)) = d" by (rule bit_word_eqI) (auto simp: word32_def bit_simps dest: bit_u8)
  ultimately show ?thesis by (simp add: ip_of_u32_def)
qed

lemma offer_loop_law:
  assumes "\<forall>x\<in>set opts. option_ok x" "reads p (pre @ concat (map encode_option opts) @ [OPT_End] @ post)"
    and "length pre + length (concat (map encode_option opts)) < 300" "length opts \<le> fuel"
  shows "offer_loop fuel p (length pre) d = Inr (fold apply_option opts d)"
  using assms
proof (induction opts arbitrary: pre fuel d)
  case Nil
  have "rd p (length pre) = Inr OPT_End" by (rule rd_at) (use Nil in simp_all)
  with Nil show ?case by (subst offer_loop.simps) (simp add: SIZEOF_DHCPHeader_def)
next
  case (Cons x opts)
  obtain f where fuel: "fuel = Suc f" "length opts \<le> f" using Cons.prems(4) by (cases fuel) auto
  let ?bs = "snd x" and ?rest = "concat (map encode_option opts) @ [OPT_End] @ post"
  have x: "fst x \<noteq> OPT_Pading" "fst x \<noteq> OPT_End" "length ?bs < 256" using Cons.prems(1) by (auto simp: option_ok_def)
  have r: "reads p (pre @ fst x # of_nat (length ?bs) # ?bs @ ?rest)" using Cons.prems(2) by (simp add: encode_option_def [of x])
  have code: "rd p (length pre) = Inr (fst x)" by (rule rd_at [OF r refl])
  have len: "rd p (length pre + 1) = Inr (of_nat (length ?bs))" by (rule rd_at [of _ "pre @ [fst x]"]) (use r in simp_all)
  have n: "unat (of_nat (length ?bs) :: u8) = length ?bs" using x(3) by (rule unat_u8)
  have word: "rd32 p (length pre + 2) = Inr (word32 (?bs ! 0) (?bs ! 1) (?bs ! 2) (?bs ! 3))" if "4 \<le> length ?bs"
  proof -
    have r4: "reads p ((pre @ [fst x, of_nat (length ?bs)]) @ ?bs @ ?rest)" using r by simp
    have "rd p (length pre + 2 + k) = Inr (?bs ! k)" if "k < 4" for k
      using reads_rd [OF r4, of "length pre + 2 + k"] that \<open>4 \<le> length ?bs\<close> by (simp add: nth_append)
    from this [of 0] this [of 1] this [of 2] this [of 3] show ?thesis by (simp add: rd32_def)
  qed
  have pre': "length (pre @ encode_option x) = length pre + (length ?bs + 2)" by (simp add: encode_option_def)
  have ih: "offer_loop f p (length pre + (length ?bs + 2)) (apply_option x d) = Inr (fold apply_option opts (apply_option x d))"
    using Cons.IH [of "pre @ encode_option x" f "apply_option x d"] Cons.prems fuel(2) unfolding pre' by (simp add: encode_option_def [of x])
  have four: "fst x = OPT_RouterIPs \<or> fst x = OPT_SubnetMask \<Longrightarrow> 4 \<le> length ?bs" using Cons.prems(1) by (auto simp: option_ok_def)
  have step: "(if fst x = OPT_RouterIPs then bindr (rd32 p (length pre + 2)) (\<lambda>w. Inr (d\<lparr>d_gateway_ip := ip_of_u32 w\<rparr>))
       else if fst x = OPT_SubnetMask then bindr (rd32 p (length pre + 2)) (\<lambda>w. Inr (d\<lparr>d_subnet_mask := ip_of_u32 w\<rparr>)) else Inr d) = Inr (apply_option x d)"
    using word four by (auto simp: apply_option_def option_ip_def ip_of_u32_word32)
  show ?case using Cons.prems(3) x(1,2) code len n ih step fuel(1)
    by (subst offer_loop.simps) (simp add: SIZEOF_DHCPHeader_def)
qed


section \<open>Messages\<close>

definition dhcp_message :: "mac_address \<Rightarrow> ipv4_address \<Rightarrow> u8 \<Rightarrow> u8 list" where
  "dhcp_message mac ip type = [1, 1, 6, 0] @ le32 0xDEADC0DE @ le16 0 @ le16 (network_word16 0x8000) @ replicate 16 0 @ mac_bytes mac @
     replicate 202 0 @ le32 (network_word32 0x63825363) @ [OPT_MessageType, 1, type, OPT_ClientIdentifier, 7, 1] @ mac_bytes mac @
     [OPT_RequestedIP, 4] @ ip_bytes ip @
     [OPT_ParameterRequestList, 4, OPT_SubnetMask, OPT_RouterIPs, OPT_DNSServers, OPT_NetworkTimeProtocolServers, 0, 0, 0, 0, OPT_End] @ replicate 31 0"

lemma length_le32 [simp]: "length (le32 w) = 4"
  by (simp add: le32_def)

lemma length_dhcp_message [simp]: "length (dhcp_message mac ip type) = 300"
  by (simp add: dhcp_message_def)

text \<open>A write behind what a zeroed buffer holds so far.\<close>

lemma fill_zeros:
  assumes "buf_rep b (pre @ replicate n 0)" "d = length pre + k" "k + length cs \<le> n"
  shows "\<exists>b'. fill b cs d = Inr b' \<and> buf_rep b' ((pre @ replicate k 0 @ cs) @ replicate (n - (k + length cs)) 0)"
proof -
  have "take d (pre @ replicate n 0) @ cs @ drop (d + length cs) (pre @ replicate n 0) = (pre @ replicate k 0 @ cs) @ replicate (n - (k + length cs)) 0"
    using assms(2,3) by simp
  then show ?thesis using buf_fill_by_law [OF assms(1), of d cs] assms(2,3) unfolding fill_def by simp
qed

lemma mac_copy_fill: "buf_rep b ds \<Longrightarrow> 34 \<le> length ds \<Longrightarrow> buf_write b (mac_copy mac (buf_data b) 28) = fill b (mac_bytes mac) 28"
  by (auto simp: mac_copy_memcpy fill_def mv_fill_by_def buf_view_def buf_rep_def sz_add_def)

lemma make_dhcp_segment_law: "make_dhcp_segment mac ip type = Inr (buf_of (dhcp_message mac ip type))"
proof -
  have c: "\<exists>p. convert_to (buf_view (buf_new 300)) 300 = Inr p" by (simp add: convert_to_def buf_view_def buf_new_def)
  have b0: "buf_rep (buf_new 300) ([] @ replicate 300 0)" using buf_new_rep [of 300] by simp
  let ?h = "[1, 1, 6, 0] @ le32 0xDEADC0DE @ le16 0 @ le16 (network_word16 0x8000)"
  obtain b1 where b1: "fill (buf_new 300) ?h 0 = Inr b1" "buf_rep b1 (?h @ replicate 288 0)"
    using fill_zeros [OF b0, of 0 0 ?h] by auto
  obtain b2 where b2: "fill b1 (mac_bytes mac) 28 = Inr b2" "buf_rep b2 ((?h @ replicate 16 0 @ mac_bytes mac) @ replicate 266 0)"
    using fill_zeros [OF b1(2), of 28 16 "mac_bytes mac"] by auto
  let ?h2 = "?h @ replicate 16 0 @ mac_bytes mac @ replicate 202 0 @ le32 (network_word32 0x63825363)"
  obtain b3 where b3: "fill b2 (le32 (network_word32 0x63825363)) 236 = Inr b3" "buf_rep b3 (?h2 @ replicate 60 0)"
    using fill_zeros [OF b2(2), of 236 202 "le32 (network_word32 0x63825363)"] by auto
  let ?h3 = "?h2 @ [OPT_MessageType, 1, type]"
  obtain b4 where b4: "fill b3 [OPT_MessageType, 1, type] 240 = Inr b4" "buf_rep b4 (?h3 @ replicate 57 0)"
    using fill_zeros [OF b3(2), of 240 0 "[OPT_MessageType, 1, type]"] by auto
  let ?h4 = "?h3 @ [OPT_ClientIdentifier, 7, 1] @ mac_bytes mac"
  obtain b5 where b5: "fill b4 ([OPT_ClientIdentifier, 7, 1] @ mac_bytes mac) 243 = Inr b5" "buf_rep b5 (?h4 @ replicate 48 0)"
    using fill_zeros [OF b4(2), of 243 0 "[OPT_ClientIdentifier, 7, 1] @ mac_bytes mac"] by auto
  let ?h5 = "?h4 @ [OPT_RequestedIP, 4] @ ip_bytes ip"
  obtain b6 where b6: "fill b5 ([OPT_RequestedIP, 4] @ ip_bytes ip) 252 = Inr b6" "buf_rep b6 (?h5 @ replicate 42 0)"
    using fill_zeros [OF b5(2), of 252 0 "[OPT_RequestedIP, 4] @ ip_bytes ip"] by auto
  let ?ps = "[OPT_ParameterRequestList, 4, OPT_SubnetMask, OPT_RouterIPs, OPT_DNSServers, OPT_NetworkTimeProtocolServers, 0, 0, 0, 0]"
  obtain b7 where b7: "fill b6 ?ps 258 = Inr b7" "buf_rep b7 ((?h5 @ ?ps) @ replicate 32 0)"
    using fill_zeros [OF b6(2), of 258 0 ?ps] by auto
  obtain b8 where b8: "fill b7 [OPT_End] 268 = Inr b8" "buf_rep b8 ((?h5 @ ?ps @ [OPT_End]) @ replicate 31 0)"
    using fill_zeros [OF b7(2), of 268 0 "[OPT_End]"] by auto
  have "buf_rep b8 (dhcp_message mac ip type)" using b8(2) by (simp add: dhcp_message_def)
  then have "b8 = buf_of (dhcp_message mac ip type)" by (rule buf_rep_buf_of) (simp add: dhcp_message_def)
  moreover have "buf_write b1 (mac_copy mac (buf_data b1) 28) = Inr b2" using mac_copy_fill [OF b1(2)] b2(1) by simp
  ultimately show ?thesis using c b1(1) b3(1) b4(1) b5(1) b6(1) b7(1) b8(1)
    by (auto simp: make_dhcp_segment_def SIZEOF_DHCPHeader_def OPTIONS_OFFSET_def Let_def)
qed

definition ports_ok :: "udp \<Rightarrow> bool" where
  "ports_ok u = (bm_wf (u_ports u) \<and> bm_m_bitmap_size (u_ports u) = 65535 \<and> \<not> bm_used (u_ports u) 68)"

definition dhcp_datagram :: "mac_address \<Rightarrow> ipv4_address \<Rightarrow> u8 \<Rightarrow> ipv4_address \<times> buffer" where
  "dhcp_datagram mac ip type = (ip_Broadcast, buf_of (udp_header 68 67 308 @ dhcp_message mac ip type))"

lemma dhcp_send_law:
  assumes "ports_ok u"
  shows "\<exists>u'. udp_send_from u dhcp_server 68 (buf_view (buf_of (dhcp_message mac ip type))) = Inr (Result 300, u') \<and> ports_ok u' \<and>
     u_sent u' = u_sent u @ [dhcp_datagram mac ip type]"
proof -
  have v: "views (buf_view (buf_of (dhcp_message mac ip type))) (dhcp_message mac ip type)" by (rule views_buf_of) simp
  have "\<not> bm_used (u_ports u) 68" "bm_wf (u_ports u)" "bm_m_bitmap_size (u_ports u) = 65535" using assms by (simp_all add: ports_ok_def)
  then obtain p where p: "bm_check_set (u_ports u) 68 = Inr False" "bm_clear (u_ports u) 68 = Inr p" "bm_wf p" "bm_m_bitmap_size p = 65535" "\<not> bm_used p 68"
    using bm_check_set_law [of "u_ports u" 68] bm_clear_law [of "u_ports u" 68] by (auto simp: ok_iff)
  let ?u = "u\<lparr>u_sent := u_sent u @ [dhcp_datagram mac ip type], u_ports := p\<rparr>"
  have n: "bv_size (buf_view (buf_of (dhcp_message mac ip type))) = 300" using v by (simp add: views_def)
  have "udp_send_from u dhcp_server 68 (buf_view (buf_of (dhcp_message mac ip type))) = Inr (Result 300, ?u)"
    using p(1,2) n udp_send_segment_law [OF v, of u dhcp_server 68] by (simp add: udp_send_from_def dhcp_server_def dhcp_datagram_def)
  moreover have "ports_ok ?u" using p(3-5) by (simp add: ports_ok_def)
  ultimately show ?thesis by (intro exI [of _ ?u]) simp
qed


lemma send_dhcp_laws:
  assumes "ports_ok u"
  shows "\<exists>u'. send_dhcp_discovery mac d u = Inr (d\<lparr>d_state := Discovery\<rparr>, u') \<and> ports_ok u' \<and> u_sent u' = u_sent u @ [dhcp_datagram mac ip_Zero MSG_Discover]"
    and "\<exists>u'. send_dhcp_request mac ip d u = Inr (d\<lparr>d_state := Request\<rparr>, u') \<and> ports_ok u' \<and> u_sent u' = u_sent u @ [dhcp_datagram mac ip MSG_Request]"
  using dhcp_send_law [OF assms, of mac ip_Zero MSG_Discover] dhcp_send_law [OF assms, of mac ip MSG_Request]
  by (auto simp: send_dhcp_discovery_def send_dhcp_request_def make_dhcp_segment_law)

section \<open>Replies\<close>

text \<open>A reply with the address offered and the options that follow the message type.\<close>

definition reply :: "u8 list \<Rightarrow> ipv4_address \<Rightarrow> u8 list \<Rightarrow> u8 \<Rightarrow> (u8 \<times> u8 list) list \<Rightarrow> u8 list \<Rightarrow> u8 list" where
  "reply pre ip mid type opts post = pre @ ip_bytes ip @ mid @ concat (map encode_option ((OPT_MessageType, [type]) # opts)) @ [OPT_End] @ post"

definition reply_ok :: "u8 list \<Rightarrow> u8 list \<Rightarrow> (u8 \<times> u8 list) list \<Rightarrow> u8 list \<Rightarrow> bool" where
  "reply_ok pre mid opts post = (length pre = 16 \<and> length mid = 220 \<and> (\<forall>x\<in>set opts. option_ok x) \<and>
     length (concat (map encode_option opts)) < 57 \<and> 56 \<le> length (concat (map encode_option opts)) + length post)"

lemma get_dhcp_type_law:
  assumes "views v (reply pre ip mid type opts post)" "reply_ok pre mid opts post"
  shows "get_dhcp_type fuel v = Inr type"
proof -
  let ?c = "pre @ ip_bytes ip @ mid" and ?r = "concat (map encode_option opts) @ [OPT_End] @ post"
  have len: "length ?c = 240" using assms(2) by (simp add: reply_ok_def)
  have r: "reads (bv_data v) (?c @ [OPT_MessageType, 1, type] @ ?r)"
    using assms(1) by (simp add: views_def reply_def encode_option_def [of "(OPT_MessageType, [type])"])
  have "rd (bv_data v) 240 = Inr OPT_MessageType" by (rule rd_at [of _ ?c]) (use r len in simp_all)
  moreover have "rd (bv_data v) 242 = Inr type" by (rule rd_at [of _ "?c @ [OPT_MessageType, 1]"]) (use r len in simp_all)
  moreover have "const_convert_to v 300 = Inr (bv_data v)"
    by (rule const_convert_law [OF assms(1)]) (use assms(2) in \<open>simp add: reply_ok_def reply_def encode_option_def [of "(OPT_MessageType, [type])"]\<close>)
  ultimately show ?thesis
    by (subst get_dhcp_type_def, subst type_loop.simps) (simp add: SIZEOF_DHCPHeader_def OPTIONS_OFFSET_def OPT_MessageType_def OPT_End_def)
qed

lemma parse_dhcp_offer_law:
  assumes "views v (reply pre ip mid type opts post)" "reply_ok pre mid opts post" "length opts < fuel"
  shows "parse_dhcp_offer fuel v d = Inr (fold apply_option opts (d\<lparr>d_device_ip := ip\<rparr>))"
proof -
  let ?c = "pre @ ip_bytes ip @ mid" and ?opts = "(OPT_MessageType, [type]) # opts"
  have len: "length ?c = 240" using assms(2) by (simp add: reply_ok_def)
  have r: "reads (bv_data v) (?c @ concat (map encode_option ?opts) @ [OPT_End] @ post)" using assms(1) by (simp add: views_def reply_def)
  have "option_ok (OPT_MessageType, [type])"
    by (simp add: option_ok_def OPT_Pading_def OPT_End_def OPT_MessageType_def OPT_RouterIPs_def OPT_SubnetMask_def)
  then have "offer_loop fuel (bv_data v) 240 (d\<lparr>d_device_ip := ip\<rparr>) = Inr (fold apply_option ?opts (d\<lparr>d_device_ip := ip\<rparr>))"
    unfolding len [symmetric] by (intro offer_loop_law [OF _ r]) (use assms(2,3) in \<open>auto simp: reply_ok_def encode_option_def [of "(OPT_MessageType, [type])"]\<close>)
  moreover have "apply_option (OPT_MessageType, [type]) x = x" for x
    by (simp add: apply_option_def OPT_MessageType_def OPT_RouterIPs_def OPT_SubnetMask_def)
  moreover have "ip_of_ptr (advance (bv_data v) 16) = Inr ip"
  proof (rule ip_of_ptr_bytes, rule reads_at)
    show "reads (bv_data v) (pre @ ip_bytes ip @ mid @ concat (map encode_option ?opts) @ [OPT_End] @ post)" using r by simp
  qed (use assms(2) in \<open>simp add: reply_ok_def\<close>)
  moreover have "const_convert_to v 300 = Inr (bv_data v)"
    by (rule const_convert_law [OF assms(1)]) (use assms(2) in \<open>simp add: reply_ok_def reply_def encode_option_def [of "(OPT_MessageType, [type])"]\<close>)
  ultimately show ?thesis by (simp add: parse_dhcp_offer_def SIZEOF_DHCPHeader_def OPTIONS_OFFSET_def)
qed

lemma apply_option_fields [simp]:
  "d_device_ip (fold apply_option opts d) = d_device_ip d" "d_state (fold apply_option opts d) = d_state d"
  by (induction opts arbitrary: d) (auto simp: apply_option_def)

lemma apply_option_frame:
  assumes "d_gateway_ip a = d_gateway_ip b" "d_subnet_mask a = d_subnet_mask b"
  shows "d_gateway_ip (fold apply_option opts a) = d_gateway_ip (fold apply_option opts b) \<and>
      d_subnet_mask (fold apply_option opts a) = d_subnet_mask (fold apply_option opts b)"
  using assms
proof (induction opts arbitrary: a b)
  case (Cons x opts)
  have "d_gateway_ip (apply_option x a) = d_gateway_ip (apply_option x b)" "d_subnet_mask (apply_option x a) = d_subnet_mask (apply_option x b)"
    using Cons.prems by (simp_all add: apply_option_def)
  from Cons.IH [OF this] show ?case by simp
qed simp

section \<open>Properties\<close>



text \<open>
  The walk for the message type steps over an option by its size byte alone: an option of size 0
  before the message type, such as the rapid-commit option, is never left, and the client does not
  return.
\<close>

theorem dhcp_type_loop_stuck:
  assumes "views v (pre @ [code, 0] @ post)" "length pre = 240" "58 \<le> length post"
    and "code \<noteq> OPT_Pading" "code \<noteq> OPT_End" "code \<noteq> OPT_MessageType"
  shows "get_dhcp_type fuel v = Inl OutOfFuel"
proof -
  have r: "rd (bv_data v) 240 = Inr code" "rd (bv_data v) 241 = Inr 0"
    using views_rd [OF assms(1), of 240] views_rd [OF assms(1), of 241] assms(2) by (simp_all add: nth_append)
  have "type_loop fuel (bv_data v) 240 = Inl OutOfFuel"
    by (induction fuel; subst type_loop.simps) (use assms(4-6) r in \<open>simp_all add: SIZEOF_DHCPHeader_def\<close>)
  moreover have "const_convert_to v 300 = Inr (bv_data v)" by (rule const_convert_law [OF assms(1)]) (use assms(2,3) in simp)
  ultimately show ?thesis by (simp add: get_dhcp_type_def SIZEOF_DHCPHeader_def OPTIONS_OFFSET_def)
qed

theorem dhcp_type_loop_stuck_witness:
  "\<forall>fuel. get_dhcp_type fuel (bv_raw (chars (replicate 240 0 @ [80, 0] @ replicate 58 0), 0) 300) = Inl OutOfFuel"
proof
  fix fuel
  have "views (bv_raw (chars (replicate 240 0 @ [80, 0] @ replicate 58 0), 0) 300) (replicate 240 0 @ [80, 0] @ replicate 58 0)"
    by (rule views_literal) simp_all
  then show "get_dhcp_type fuel (bv_raw (chars (replicate 240 0 @ [80, 0] @ replicate 58 0), 0) 300) = Inl OutOfFuel"
    by (rule dhcp_type_loop_stuck) (simp_all add: OPT_Pading_def OPT_End_def OPT_MessageType_def)
qed

end
