(* ===== verification/Dns.thy ===== *)
theory Dns
  imports Datagrams Strings
begin

text \<open>
  The DNS client (dns.h, dns.cpp). A query goes through UDP; the calls of \<open>receive\<close> deliver the
  datagrams of a given sequence, each as the contents of the client's buffer of 1024 bytes. The loop
  over the dots of a name has fuel: its length bounds the number of rounds.
\<close>

section \<open>Queries\<close>

definition DNS_MESSAGE_FLAG_RESPONSE :: u16 where "DNS_MESSAGE_FLAG_RESPONSE = push_bit 15 1"
definition DNS_MESSAGE_FLAG_RECURSIVE_DESIRED :: u16 where "DNS_MESSAGE_FLAG_RECURSIVE_DESIRED = push_bit 8 1"
definition DNS_MESSAGE_FLAG_QUERY :: u16 where "DNS_MESSAGE_FLAG_QUERY = 0"
definition DNS_MESSAGE_TYPE_HOST_IP :: u8 where "DNS_MESSAGE_TYPE_HOST_IP = 1"
definition DNS_MESSAGE_CLASS_IN :: u8 where "DNS_MESSAGE_CLASS_IN = 1"

definition SIZEOF_DNSHeader :: size_t where "SIZEOF_DNSHeader = 12"
definition SIZEOF_DNSAnswer :: size_t where "SIZEOF_DNSAnswer = 16"

definition dns_header :: "u16 \<Rightarrow> u16 \<Rightarrow> u16 \<Rightarrow> u16 \<Rightarrow> u16 \<Rightarrow> u16 \<Rightarrow> u8 list" where
  "dns_header ident flags questions answers name_servers additional = concat (map (\<lambda>w. le16 (network_word16 w))
     [ident, flags, questions, answers, name_servers, additional])"

definition buf_set :: "buffer \<Rightarrow> size_t \<Rightarrow> u8 \<Rightarrow> buffer run" where
  "buf_set b index x = buf_write b (mv_set (buf_view b) index x)"

definition DOT :: u8 where "DOT = 46"

fun notation_loop :: "nat \<Rightarrow> string_view \<Rightarrow> size_t \<Rightarrow> buffer \<Rightarrow> buffer run" where
  "notation_loop fuel domain_name curr_dot b =
     (if curr_dot = END then Inr b
      else case fuel of 0 \<Rightarrow> Inl OutOfFuel
        | Suc f \<Rightarrow> bindr (sv_find_char domain_name DOT (sz_add curr_dot 1)) (\<lambda>next_dot.
            bindr (buf_set b (sz_add curr_dot 1) (of_nat (sz_sub (sz_sub (if next_dot \<noteq> END then next_dot else sv_size domain_name) curr_dot) 1)))
              (\<lambda>b1. notation_loop f domain_name next_dot b1)))"

declare notation_loop.simps [simp del]

definition convert_to_dns_notation :: "string_view \<Rightarrow> buffer run" where
  "convert_to_dns_notation domain_name = (let b0 = buf_new (sz_add (sv_size domain_name) 2) in
     bindr (buf_write b0 (mv_fill_from (buf_view b0) (sv_data domain_name) 1 (sv_size domain_name))) (\<lambda>b1.
     bindr (sv_find_char domain_name DOT 0) (\<lambda>curr_dot.
     bindr (buf_set b1 0 (of_nat curr_dot)) (\<lambda>b2.
     bindr (notation_loop (sv_size domain_name) domain_name curr_dot b2) (\<lambda>b3.
     buf_set b3 (sz_add (sv_size domain_name) 1) 0)))))"

text \<open>The result of the send becomes a truth value before it becomes an error code.\<close>

definition send_dns_query :: "ipv4_address \<Rightarrow> string_view \<Rightarrow> udp \<Rightarrow> (unit result \<times> udp) run" where
  "send_dns_query dns_server domain_name u = bindr (convert_to_dns_notation domain_name) (\<lambda>dns_notation.
     let b0 = buf_new (sz_add (sz_add SIZEOF_DNSHeader (buf_size dns_notation)) 4);
         header_offset = sz_add SIZEOF_DNSHeader (buf_size dns_notation) in
     bindr (convert_to (buf_view b0) SIZEOF_DNSHeader) (\<lambda>_.
     bindr (buf_write b0 (mv_fill_by (buf_view b0)
       (dns_header 1 (DNS_MESSAGE_FLAG_QUERY OR DNS_MESSAGE_FLAG_RECURSIVE_DESIRED) 1 0 0 0) 0)) (\<lambda>b1.
     bindr (buf_write b1 (mv_fill_from (buf_view b1) (bv_ptr (buf_view dns_notation)) SIZEOF_DNSHeader (buf_size dns_notation))) (\<lambda>b2.
     bindr (buf_set b2 header_offset 0) (\<lambda>b3.
     bindr (buf_set b3 (sz_add header_offset 1) DNS_MESSAGE_TYPE_HOST_IP) (\<lambda>b4.
     bindr (buf_set b4 (sz_add header_offset 2) 0) (\<lambda>b5.
     bindr (buf_set b5 (sz_add header_offset 3) DNS_MESSAGE_CLASS_IN) (\<lambda>b6.
     bindr (udp_send_from u \<lparr>sa_ip = dns_server, sa_port = 53\<rparr> 53 (buf_view b6)) (\<lambda>(r, u1).
     Inr (ResultError (of_bool (is_error r)), u1))))))))))"

section \<open>Responses\<close>

definition test_ip :: "ipv4_address \<Rightarrow> bool" where
  "test_ip ip = True"

text \<open>The loop over the answers; the offset stays 0.\<close>

fun answer_loop :: "cptr \<Rightarrow> size_t \<Rightarrow> nat \<Rightarrow> ipv4_address result run" where
  "answer_loop p buffer_offset 0 = Inr (ResultError ERROR_DNS_UNRESOLVABLE)"
| "answer_loop p buffer_offset (Suc n) = bindr (const_convert_to (bv_raw (advance p buffer_offset) SIZEOF_DNSAnswer) SIZEOF_DNSAnswer) (\<lambda>a.
     bindr (rd16 a 2) (\<lambda>response_type. bindr (rd16 a 4) (\<lambda>response_class.
     if network_word16 response_type = ucast DNS_MESSAGE_TYPE_HOST_IP \<and> network_word16 response_class = ucast DNS_MESSAGE_CLASS_IN then
       bindr (ip_of_ptr (advance a 12)) (\<lambda>ip. if test_ip ip then Inr (Result ip) else answer_loop p buffer_offset n)
     else answer_loop p buffer_offset n)))"

definition select_dns_response :: "buffer_view \<Rightarrow> size_t \<Rightarrow> ipv4_address result run" where
  "select_dns_response answers_buffer number_of_answer = answer_loop (bv_ptr answers_buffer) 0 number_of_answer"

text \<open>The position behind the questions.\<close>

fun question_loop :: "cptr \<Rightarrow> nat \<Rightarrow> size_t \<Rightarrow> size_t run" where
  "question_loop p 0 buffer_offset = Inr buffer_offset"
| "question_loop p (Suc n) buffer_offset = bindr (strlen (advance p buffer_offset)) (\<lambda>k.
     question_loop p n (sz_add buffer_offset (sz_add (sz_add k 1) 4)))"

text \<open>One response: the result, or that the next datagram is awaited.\<close>

definition get_dns_response_once :: "buffer \<Rightarrow> ipv4_address result option run" where
  "get_dns_response_once b = bindr (const_convert_to (buf_view b) SIZEOF_DNSHeader) (\<lambda>h.
     bindr (rd16 h 0) (\<lambda>ident. bindr (rd16 h 2) (\<lambda>flags. bindr (rd16 h 4) (\<lambda>questions. bindr (rd16 h 6) (\<lambda>answers.
     if network_word16 ident \<noteq> 1 then Inr None
     else if network_word16 flags AND DNS_MESSAGE_FLAG_RESPONSE = 0 then Inr None
     else if network_word16 answers = 0 then Inr None
     else bindr (question_loop (bv_ptr (buf_view b)) (unat (network_word16 questions)) SIZEOF_DNSHeader) (\<lambda>off.
       bindr (select_dns_response (bv_raw (advance (bv_ptr (buf_view b)) off) (sz_sub (buf_size b) off)) (unat (network_word16 answers)))
         (\<lambda>r. Inr (Some r))))))))"

fun get_dns_response :: "buffer list \<Rightarrow> ipv4_address result option run" where
  "get_dns_response [] = Inr None"
| "get_dns_response (b # bs) = bindr (get_dns_response_once b) (\<lambda>r. if r = None then get_dns_response bs else Inr r)"

definition reslove :: "ipv4_address \<Rightarrow> string_view \<Rightarrow> buffer list \<Rightarrow> udp \<Rightarrow> (ipv4_address result option \<times> udp) run" where
  "reslove dns_server domain_name received u = bindr (send_dns_query dns_server domain_name u) (\<lambda>(r, u1).
     if is_error r then Inr (Some (ResultError (result_error r)), u1)
     else bindr (get_dns_response received) (\<lambda>a. Inr (a, u1)))"

section \<open>Names\<close>

text \<open>A name as its labels, joined by dots and in the notation of DNS.\<close>

fun dotted :: "u8 list list \<Rightarrow> u8 list" where
  "dotted [] = []"
| "dotted [l] = l"
| "dotted (l # m # ls) = l @ DOT # dotted (m # ls)"

definition dns_labels :: "u8 list list \<Rightarrow> u8 list" where
  "dns_labels ls = concat (map (\<lambda>l. of_nat (length l) # l) ls)"

lemma find_next_dot:
  assumes "sv_rep v (pre @ l @ DOT # post)" "DOT \<notin> set l"
  shows "sv_find_char v DOT (length pre) = Inr (length pre + length l)"
  using find_char_split [OF assms] by (simp add: DOT_def)

lemma find_no_dot:
  assumes "sv_rep v (pre @ l)" "DOT \<notin> set l" "pre @ l \<noteq> []"
  shows "sv_find_char v DOT (length pre) = Inr END"
  using find_char_split [of v pre l "[]" DOT] assms by (simp add: DOT_def)

lemma buf_set_law:
  assumes "buf_rep b (xs @ y # ys)" "i = length xs"
  shows "\<exists>b'. buf_set b i x = Inr b' \<and> buf_rep b' (xs @ x # ys)"
  using assms by (auto simp: buf_set_def mv_set_def buf_write_def buf_view_def buf_rep_def chars_def list_update_append)


lemma dotted_Cons: "ls \<noteq> [] \<Longrightarrow> dotted (l # ls) = l @ DOT # dotted ls"
  by (cases ls) simp_all

lemma length_dotted: "length ls \<le> length (dotted (l # ls))"
proof (induction ls arbitrary: l)
  case (Cons m ls)
  show ?case using Cons.IH [of m] by (simp add: dotted_Cons)
qed simp

text \<open>From a dot on, the loop turns every dot into the length of the label behind it.\<close>

lemma notation_loop_law:
  assumes "sv_rep v (pre @ DOT # dotted (l # ls))" "length pre + length (dotted (l # ls)) + 3 < sz_range"
    and "\<forall>l'\<in>set (l # ls). DOT \<notin> set l'" "length ls < fuel"
    and "buf_rep b (bs @ DOT # dotted (l # ls) @ [0])" "length bs = length pre + 1"
  shows "\<exists>b'. notation_loop fuel v (length pre) b = Inr b' \<and> buf_rep b' (bs @ dns_labels (l # ls) @ [0])"
  using assms
proof (induction ls arbitrary: pre l bs b fuel)
  case Nil
  obtain f where f: "fuel = Suc f" using Nil.prems(4) by (cases fuel) simp_all
  have n: "sz_add (length pre) 1 = length (pre @ [DOT])" "length pre \<noteq> END" "sv_size v = length pre + 1 + length l"
    using Nil.prems(1,2) by (auto simp: sz_add_eq END_eq sv_rep_def)
  have find: "sv_find_char v DOT (sz_add (length pre) 1) = Inr END"
    unfolding n(1) by (rule find_no_dot [of v "pre @ [DOT]" l]) (use Nil.prems in simp_all)
  have len: "sz_sub (sz_sub (sv_size v) (length pre)) 1 = length l" using Nil.prems(2) n(3) by (simp add: sz_sub_eq)
  obtain b' where b': "buf_set b (sz_add (length pre) 1) (of_nat (length l)) = Inr b'" "buf_rep b' (bs @ of_nat (length l) # l @ [0])"
    using buf_set_law [of b bs DOT "l @ [0]" "length pre + 1" "of_nat (length l)"] Nil.prems(5,6) n(1) by auto
  show ?case unfolding f using n(2) find len b'
    by (subst notation_loop.simps) (auto simp: notation_loop.simps [of f] dns_labels_def)
next
  case (Cons m ls)
  obtain f where f: "fuel = Suc f" "length ls < f" using Cons.prems(4) by (cases fuel) simp_all
  let ?rest = "dotted (m # ls)" and ?next = "length (pre @ DOT # l)"
  have n: "sz_add (length pre) 1 = length (pre @ [DOT])" "length pre \<noteq> END" "?next \<noteq> END" "?next < sz_range"
    using Cons.prems(2) by (auto simp: sz_add_eq END_eq)
  have find: "sv_find_char v DOT (sz_add (length pre) 1) = Inr ?next"
    unfolding n(1) using find_next_dot [of v "pre @ [DOT]" l ?rest] Cons.prems(1,3) by simp
  have len: "sz_sub (sz_sub ?next (length pre)) 1 = length l" using n(4) by (simp add: sz_sub_eq)
  obtain b1 where b1: "buf_set b (sz_add (length pre) 1) (of_nat (length l)) = Inr b1" "buf_rep b1 ((bs @ of_nat (length l) # l) @ DOT # ?rest @ [0])"
    using buf_set_law [of b bs DOT "l @ DOT # ?rest @ [0]" "length pre + 1" "of_nat (length l)"] Cons.prems(5,6) n(1) by auto
  have "\<exists>b'. notation_loop f v ?next b1 = Inr b' \<and> buf_rep b' ((bs @ of_nat (length l) # l) @ dns_labels (m # ls) @ [0])"
    by (rule Cons.IH) (use Cons.prems f(2) b1(2) in simp_all)
  then show ?case unfolding f(1) using n(2,3) find len b1(1)
    by (subst notation_loop.simps) (auto simp: dns_labels_def simp del: length_append)
qed

definition name_ok :: "u8 list list \<Rightarrow> bool" where
  "name_ok ls = ((\<forall>l\<in>set ls. DOT \<notin> set l) \<and> length (dotted ls) < 65000)"

lemma convert_to_dns_notation_start:
  assumes "sv_rep v hs" "length hs < 65000"
  shows "\<exists>b1. buf_write (buf_new (length hs + 2)) (mv_fill_from (buf_view (buf_new (length hs + 2))) (sv_data v) 1 (sv_size v)) = Inr b1 \<and>
     buf_rep b1 (0 # hs @ [0])"
proof -
  have "replicate (length hs + 2) (0 :: u8) = 0 # replicate (length hs) 0 @ [0]" by (simp add: replicate_append_same)
  then have "buf_rep (buf_new (length hs + 2)) (0 # replicate (length hs) 0 @ [0])" using buf_new_rep [of "length hs + 2"] assms by simp
  from buf_fill_law [OF this, of "sv_data v" hs 1] assms show ?thesis by (auto simp: sv_rep_def)
qed

lemma set_last_zero: "buf_rep b (xs @ [0]) \<Longrightarrow> length xs = n + 1 \<Longrightarrow> n < 65000 \<Longrightarrow> buf_set b (sz_add n 1) 0 = Inr b"
  using buf_set_law [of b xs 0 "[]" "length xs" 0] by (auto simp: sz_add_eq buf_rep_def)

lemma convert_to_dns_notation_law:
  assumes "sv_rep v (dotted ls)" "name_ok ls" "2 \<le> length ls"
  shows "\<exists>b. convert_to_dns_notation v = Inr b \<and> buf_rep b (dns_labels ls @ [0])"
proof -
  obtain l m ms where ls: "ls = l # m # ms" using assms(3) by (cases ls; cases "tl ls") auto
  let ?r = "dotted (m # ms)"
  have hs: "dotted ls = l @ DOT # ?r" by (simp add: ls)
  have n: "sv_size v = length (dotted ls)" "sz_add (length (dotted ls)) 2 = length (dotted ls) + 2" "length (dotted ls) < 65000"
    using assms(1,2) by (auto simp: sv_rep_def sz_add_eq name_ok_def)
  obtain b1 where b1: "buf_write (buf_new (length (dotted ls) + 2)) (mv_fill_from (buf_view (buf_new (length (dotted ls) + 2))) (sv_data v) 1 (sv_size v)) = Inr b1"
      "buf_rep b1 ([] @ 0 # dotted ls @ [0])"
    using convert_to_dns_notation_start [OF assms(1) n(3)] by auto
  have find: "sv_find_char v DOT 0 = Inr (length l)"
    using find_next_dot [of v "[]" l ?r] assms(1,2) by (simp add: hs name_ok_def) (simp add: ls)
  obtain b2 where b2: "buf_set b1 0 (of_nat (length l)) = Inr b2" "buf_rep b2 ((of_nat (length l) # l) @ DOT # ?r @ [0])"
    using buf_set_law [OF b1(2), of 0 "of_nat (length l)"] by (auto simp: hs)
  have fuel: "length ms < sv_size v" using length_dotted [of ms m] by (simp add: n(1) hs)
  obtain b3 where b3: "notation_loop (sv_size v) v (length l) b2 = Inr b3" "buf_rep b3 ((of_nat (length l) # l) @ dns_labels (m # ms) @ [0])"
    using notation_loop_law [OF _ _ _ fuel b2(2), where pre = l] assms(1,2) n(3) by (auto simp: hs name_ok_def) (auto simp: ls)
  have rep: "buf_rep b3 (dns_labels ls @ [0])" using b3(2) by (simp add: ls dns_labels_def)
  have "length (dns_labels (k # ks)) = length (dotted (k # ks)) + 1" for k ks
    by (induction ks arbitrary: k) (auto simp: dns_labels_def dotted_Cons)
  from this [of l "m # ms"] have "length (dns_labels ls) = length (dotted ls) + 1" by (simp add: ls)
  then have "buf_set b3 (sz_add (sv_size v) 1) 0 = Inr b3" using set_last_zero [OF rep] n(1,3) by simp
  then show ?thesis using rep n(1,2) b1(1) find b2(1) b3(1) by (simp add: convert_to_dns_notation_def Let_def)
qed


section \<open>Messages\<close>

definition dns_query :: "u8 list list \<Rightarrow> u8 list" where
  "dns_query ls = dns_header 1 0x100 1 0 0 0 @ dns_labels ls @ [0] @ [0, 1, 0, 1]"

lemma length_dns_header [simp]: "length (dns_header a b c d e f) = 12"
  by (simp add: dns_header_def)

lemma set_word:
  assumes "buf_rep b (xs @ [0, 0, 0, 0])" "length xs = n" "n < 65500"
  shows "\<exists>b1 b2 b3 b4. buf_set b n 0 = Inr b1 \<and> buf_set b1 (sz_add n 1) x = Inr b2 \<and> buf_set b2 (sz_add n 2) 0 = Inr b3 \<and>
     buf_set b3 (sz_add n 3) y = Inr b4 \<and> buf_rep b4 (xs @ [0, x, 0, y])"
proof -
  have n: "sz_add n 1 = n + 1" "sz_add n 2 = n + 2" "sz_add n 3 = n + 3" using assms(3) by (simp_all add: sz_add_eq)
  obtain b1 where b1: "buf_set b n 0 = Inr b1" "buf_rep b1 ((xs @ [0]) @ 0 # [0, 0])" using buf_set_law [OF assms(1), of n 0] assms(2) by auto
  obtain b2 where b2: "buf_set b1 (n + 1) x = Inr b2" "buf_rep b2 ((xs @ [0, x]) @ 0 # [0])" using buf_set_law [OF b1(2), of "n + 1" x] assms(2) by auto
  obtain b3 where b3: "buf_set b2 (n + 2) 0 = Inr b3" "buf_rep b3 ((xs @ [0, x, 0]) @ 0 # [])" using buf_set_law [OF b2(2), of "n + 2" 0] assms(2) by auto
  obtain b4 where b4: "buf_set b3 (n + 3) y = Inr b4" "buf_rep b4 (xs @ [0, x, 0, y])" using buf_set_law [OF b3(2), of "n + 3" y] assms(2) by auto
  show ?thesis unfolding n using b1(1) b2(1) b3(1) b4 by blast
qed

lemma length_dns_labels: "ls \<noteq> [] \<Longrightarrow> length (dns_labels ls) = length (dotted ls) + 1"
  by (induction ls rule: dotted.induct) (simp_all add: dns_labels_def)

lemma send_dns_query_law:
  assumes "sv_rep v (dotted ls)" "name_ok ls" "2 \<le> length ls"
  shows "send_dns_query server v u = bindr (udp_send_from u \<lparr>sa_ip = server, sa_port = 53\<rparr> 53 (buf_view (buf_of (dns_query ls))))
     (\<lambda>(r, u1). Inr (ResultError (of_bool (is_error r)), u1))"
proof -
  let ?ns = "dns_labels ls @ [0]" and ?h = "dns_header 1 0x100 1 0 0 0"
  obtain b where b: "convert_to_dns_notation v = Inr b" "buf_rep b ?ns" using convert_to_dns_notation_law [OF assms] by blast
  have "ls \<noteq> []" using assms(3) by auto
  then have m: "length ?ns < 65003" using assms(2) by (simp add: length_dns_labels name_ok_def)
  have size: "buf_size b = length ?ns" "bv_ptr (buf_view b) = (buf_data b, 0)" using b(2) by (simp_all add: buf_rep_def bv_ptr_def buf_view_def)
  define n where "n = 12 + length ?ns"
  have n: "sz_add 12 (length ?ns) = n" "sz_add n 4 = n + 4" "n < 65500" using m by (simp_all add: n_def sz_add_eq)
  have r0: "replicate (n + 4) (0 :: u8) = replicate 12 0 @ replicate (length ?ns) 0 @ [0, 0, 0, 0]"
  proof -
    have four: "[0, 0, 0, 0] = replicate 4 (0 :: u8)" by (simp add: numeral_eq_Suc)
    show ?thesis unfolding n_def four by (simp only: replicate_add append_assoc)
  qed
  have b0: "buf_rep (buf_new (n + 4)) (replicate 12 0 @ replicate (length ?ns) 0 @ [0, 0, 0, 0])"
    using buf_new_rep [of "n + 4"] n(3) unfolding r0 by simp
  have c: "\<exists>p. convert_to (buf_view (buf_new (n + 4))) 12 = Inr p" by (simp add: convert_to_def buf_view_def buf_new_def n_def)
  obtain b1 where b1: "buf_write (buf_new (n + 4)) (mv_fill_by (buf_view (buf_new (n + 4))) ?h 0) = Inr b1"
      "buf_rep b1 (?h @ replicate (length ?ns) 0 @ [0, 0, 0, 0])"
    using buf_fill_by_law [OF b0, of 0 ?h] by auto
  obtain b2 where b2: "buf_write b1 (mv_fill_from (buf_view b1) (buf_data b, 0) 12 (length ?ns)) = Inr b2" "buf_rep b2 ((?h @ ?ns) @ [0, 0, 0, 0])"
    using buf_fill_law [OF b1(2) buf_rep_reads [OF b(2)], of 12] by auto
  obtain b3 b4 b5 b6 where s: "buf_set b2 n 0 = Inr b3" "buf_set b3 (sz_add n 1) 1 = Inr b4" "buf_set b4 (sz_add n 2) 0 = Inr b5"
      "buf_set b5 (sz_add n 3) 1 = Inr b6" "buf_rep b6 ((?h @ ?ns) @ [0, 1, 0, 1])"
    using set_word [OF b2(2) _ n(3), of 1 1] by (auto simp: n_def)
  have "buf_rep b6 (dns_query ls)" using s(5) by (simp add: dns_query_def)
  then have b6: "b6 = buf_of (dns_query ls)" by (rule buf_rep_buf_of) (simp add: dns_query_def dns_header_def le16_def)
  have flags: "DNS_MESSAGE_FLAG_QUERY OR DNS_MESSAGE_FLAG_RECURSIVE_DESIRED = 0x100"
    by (simp add: DNS_MESSAGE_FLAG_QUERY_def DNS_MESSAGE_FLAG_RECURSIVE_DESIRED_def push_bit_eq_mult)
  obtain p where p: "convert_to (buf_view (buf_new (n + 4))) 12 = Inr p" using c by blast
  show ?thesis
    by (simp only: send_dns_query_def b(1) bindr.simps Let_def SIZEOF_DNSHeader_def size n(1,2) p flags b1(1) b2(1)
        s(1-4) DNS_MESSAGE_TYPE_HOST_IP_def DNS_MESSAGE_CLASS_IN_def b6)
qed


section \<open>Answers\<close>

definition dns_answer :: "u8 list \<Rightarrow> u16 \<Rightarrow> u16 \<Rightarrow> u8 list \<Rightarrow> ipv4_address \<Rightarrow> u8 list" where
  "dns_answer name ty cl life ip = name @ le16 (network_word16 ty) @ le16 (network_word16 cl) @ life @ ip_bytes ip"

definition dns_reply :: "u16 \<Rightarrow> u16 \<Rightarrow> u16 \<Rightarrow> u8 list \<Rightarrow> u8 list \<Rightarrow> u8 list \<Rightarrow> u8 list" where
  "dns_reply flags answers others name question_tail records = dns_header 1 flags 1 answers others 0 @ name @ [0] @ question_tail @ records"

lemma answer_loop_law:
  assumes "reads p (dns_answer name ty cl life ip @ rest)" "length name = 2" "length life = 6"
  shows "ty = 1 \<and> cl = 1 \<Longrightarrow> 0 < n \<Longrightarrow> answer_loop p 0 n = Inr (Result ip)"
    and "\<not> (ty = 1 \<and> cl = 1) \<Longrightarrow> answer_loop p 0 n = Inr (ResultError ERROR_DNS_UNRESOLVABLE)"
proof -
  have r: "reads p (name @ le16 (network_word16 ty) @ le16 (network_word16 cl) @ life @ ip_bytes ip @ rest)"
    using assms(1) by (simp add: dns_answer_def)
  have ty: "rd16 p 2 = Inr (network_word16 ty)" by (rule rd16_at [OF r]) (use assms(2) in simp)
  have cl: "rd16 p 4 = Inr (network_word16 cl)" by (rule rd16_at [of _ "name @ le16 (network_word16 ty)"]) (use r assms(2) in simp_all)
  have "reads (advance p 12) (ip_bytes ip)"
    by (rule reads_at [of _ "name @ le16 (network_word16 ty) @ le16 (network_word16 cl) @ life"]) (use r assms(2,3) in simp_all)
  then have ip: "ip_of_ptr (advance p 12) = Inr ip" by (rule ip_of_ptr_bytes)
  have c: "const_convert_to (bv_raw (advance p 0) 16) 16 = Inr p" by (simp add: const_convert_to_def bv_raw_def advance_def)
  note step = c ty cl ip SIZEOF_DNSAnswer_def DNS_MESSAGE_TYPE_HOST_IP_def DNS_MESSAGE_CLASS_IN_def test_ip_def
  show "ty = 1 \<and> cl = 1 \<Longrightarrow> 0 < n \<Longrightarrow> answer_loop p 0 n = Inr (Result ip)" by (cases n) (simp_all add: step)
  show "\<not> (ty = 1 \<and> cl = 1) \<Longrightarrow> answer_loop p 0 n = Inr (ResultError ERROR_DNS_UNRESOLVABLE)" by (induction n) (auto simp: step)
qed

lemma get_dns_response_law:
  assumes "buf_rep b (dns_reply flags answers others name tail records)" "bit flags 15" "answers \<noteq> 0"
    and "0 \<notin> set name" "length tail = 4"
  shows "\<exists>p. reads p records \<and> get_dns_response_once b = bindr (answer_loop p 0 (unat answers)) (\<lambda>r. Inr (Some r))"
proof -
  let ?h = "dns_header 1 flags 1 answers others 0" and ?p = "(buf_data b, 0)"
  have r: "reads ?p (?h @ name @ [0] @ tail @ records)" using buf_rep_reads [OF assms(1)] by (simp add: dns_reply_def)
  have h: "?h = le16 (network_word16 1) @ le16 (network_word16 flags) @ le16 (network_word16 1) @ le16 (network_word16 answers) @
      le16 (network_word16 others) @ le16 (network_word16 0)" by (simp add: dns_header_def)
  have f: "rd16 ?p 0 = Inr (network_word16 1)" "rd16 ?p 2 = Inr (network_word16 flags)" "rd16 ?p 4 = Inr (network_word16 1)"
      "rd16 ?p 6 = Inr (network_word16 answers)"
    using rd16_at [of ?p "[]" "network_word16 1"] rd16_at [of ?p "le16 (network_word16 1)" "network_word16 flags"]
      rd16_at [of ?p "le16 (network_word16 1) @ le16 (network_word16 flags)" "network_word16 1"]
      rd16_at [of ?p "le16 (network_word16 1) @ le16 (network_word16 flags) @ le16 (network_word16 1)" "network_word16 answers"] r
    unfolding h by simp_all
  have size: "length (?h @ name @ [0] @ tail @ records) < sz_range" "buf_size b = length (?h @ name @ [0] @ tail @ records)"
    using assms(1) by (simp_all add: buf_rep_def dns_reply_def)
  have c: "const_convert_to (buf_view b) 12 = Inr ?p" using size(2) by (simp add: const_convert_to_def buf_view_def)
  have "strlen (advance ?p 12) = Inr (length name)"
    by (rule strlen_law) (use assms(4) size(1) reads_at [of ?p ?h "name @ [0]" "tail @ records" 12] r in simp_all)
  moreover have "sz_add 12 (sz_add (sz_add (length name) 1) 4) = length name + 17"
    using size(1) assms(5) by (simp add: sz_add_eq)
  ultimately have q: "question_loop ?p (Suc 0) 12 = Inr (length name + 17)" by simp
  have "bit (flags AND DNS_MESSAGE_FLAG_RESPONSE) 15" using assms(2) by (simp add: DNS_MESSAGE_FLAG_RESPONSE_def bit_simps)
  then have a: "flags AND DNS_MESSAGE_FLAG_RESPONSE \<noteq> 0" by auto
  let ?q = "advance ?p (length name + 17)"
  have "reads ?q records" by (rule reads_at [of _ "?h @ name @ [0] @ tail" _ "[]"]) (use r assms(5) in simp_all)
  moreover have "get_dns_response_once b = bindr (answer_loop ?q 0 (unat answers)) (\<lambda>r. Inr (Some r))"
    using c f q a assms(3)
    by (simp add: get_dns_response_once_def select_dns_response_def SIZEOF_DNSHeader_def bv_ptr_def buf_view_def bv_raw_def)
  ultimately show ?thesis by blast
qed


section \<open>Properties\<close>



text \<open>
  The offset never moves on: when the first record of a response is not an address record, as with a
  name that is an alias, the answer is that the name cannot be resolved, whatever records follow.
\<close>

theorem dns_first_record_decides:
  assumes "buf_rep b (dns_reply flags answers others name tail (dns_answer rname ty cl life ip @ records))" "bit flags 15" "answers \<noteq> 0"
    and "0 \<notin> set name" "length tail = 4" "length rname = 2" "length life = 6" "ty \<noteq> 1 \<or> cl \<noteq> 1"
  shows "get_dns_response (b # bs) = Inr (Some (ResultError ERROR_DNS_UNRESOLVABLE))"
proof -
  obtain q where "reads q (dns_answer rname ty cl life ip @ records)"
      "get_dns_response_once b = bindr (answer_loop q 0 (unat answers)) (\<lambda>r. Inr (Some r))"
    using get_dns_response_law [OF assms(1-5)] by blast
  then show ?thesis using answer_loop_law(2) [of q rname ty cl life ip records "unat answers"] assms(6-8) by auto
qed

theorem dns_first_record_decides_witness:
  "get_dns_response [buf_of (dns_reply 0x8000 2 0 [1, 97] [0, 1, 0, 1] (dns_answer [192, 12] 5 1 [0, 0, 0, 60, 0, 4] ip_Zero @
       dns_answer [192, 12] 1 1 [0, 0, 0, 60, 0, 4] (IPv4Address 1 2 3 4)))] = Inr (Some (ResultError ERROR_DNS_UNRESOLVABLE))"
  by (rule dns_first_record_decides [OF buf_rep_of]) (simp_all add: dns_reply_def dns_answer_def bit_iff_odd)

text \<open>A name of one label gets the length byte 255 in front, whatever its length.\<close>

theorem dns_single_label_length:
  assumes "sv_rep v l" "l \<noteq> []" "DOT \<notin> set l" "length l < 65000"
  shows "\<exists>b. convert_to_dns_notation v = Inr b \<and> buf_rep b (255 # l @ [0])"
proof -
  have n: "sv_size v = length l" "sz_add (length l) 2 = length l + 2" using assms by (auto simp: sv_rep_def sz_add_eq)
  obtain b1 where b1: "buf_write (buf_new (length l + 2)) (mv_fill_from (buf_view (buf_new (length l + 2))) (sv_data v) 1 (sv_size v)) = Inr b1"
      "buf_rep b1 ([] @ 0 # l @ [0])"
    using convert_to_dns_notation_start [OF assms(1,4)] by auto
  have find: "sv_find_char v DOT 0 = Inr END" using find_no_dot [of v "[]" l] assms(1-3) by simp
  have ff: "(of_nat END :: u8) = 255" by (simp add: END_eq)
  obtain b2 where b2: "buf_set b1 0 255 = Inr b2" "buf_rep b2 ((255 # l) @ [0])"
    using buf_set_law [OF b1(2), of 0 255] by auto
  have "buf_set b2 (sz_add (sv_size v) 1) 0 = Inr b2" using set_last_zero [OF b2(2)] n(1) assms(4) by simp
  then show ?thesis using n b1(1) find ff b2 by (simp add: convert_to_dns_notation_def Let_def notation_loop.simps)
qed

theorem dns_single_label_length_witness:
  "\<exists>b. convert_to_dns_notation \<lparr>sv_size = 2, sv_data = (chars [97, 98], 0)\<rparr> = Inr b \<and> buf_rep b [255, 97, 98, 0]"
  using dns_single_label_length [of "\<lparr>sv_size = 2, sv_data = (chars [97, 98], 0)\<rparr>" "[97, 98]"] reads_whole [of "[97, 98]"]
  by (simp add: sv_rep_def DOT_def chars_def)

end
