(* ===== verification/Fs_Definitions.thy ===== *)
theory Fs_Definitions
  imports Results
begin

text \<open>
  The enumerations of file_system_definitions.h. Modes and flags come from system calls as numbers,
  so they are numbers here, with the named values.
\<close>

datatype node_type = Root | Folder | File | PipeNode | Link | Device | DomainSocketNode | IPSocketNode | ConnectionNode

type_synonym open_flags = nat

definition OF_OPEN_EXISTING :: open_flags where "OF_OPEN_EXISTING = 1"
definition OF_CREATE_NEW :: open_flags where "OF_CREATE_NEW = 2"

type_synonym open_mode = nat

definition OM_READ :: open_mode where "OM_READ = 1"
definition OM_WRITE :: open_mode where "OM_WRITE = 2"
definition OM_SERVER :: open_mode where "OM_SERVER = 4"
definition OM_CLIENT :: open_mode where "OM_CLIENT = 8"

datatype seek_origin = SEEK_SET | SEEK_CURRENT | SEEK_END

definition MAX_FILE_NAME :: size_t where "MAX_FILE_NAME = 64"

lemmas open_modes = OM_READ_def OM_WRITE_def OM_SERVER_def OM_CLIENT_def

end
