(* ===== verification/Pipes.thy ===== *)
theory Pipes
  imports Circular_Buffer Network_Bytes Fs_Definitions
begin

text \<open>
  Pipes (pipe.h, pipe.cpp) and the connections of domain sockets (connection.h, connection.cpp). Both
  move bytes between the caller's views and circular buffers of 1024 bytes. A call whose
  \<open>wait_on_event\<close> finds its condition true waits: the outcome is \<open>None\<close> and nothing changes; it starts
  again when it is woken. The calls of \<open>wake_up\<close> and \<open>wake_up_all\<close> are counted.
\<close>

section \<open>The transfer loops\<close>

definition view_set :: "buffer_view \<Rightarrow> size_t \<Rightarrow> u8 \<Rightarrow> buffer_view run" where
  "view_set v i x = bindr (mv_set v i x) (\<lambda>d. Inr (v\<lparr>bv_data := (d, snd (bv_data v))\<rparr>))"

definition dequeue_into :: "size_t \<Rightarrow> buffer_view \<Rightarrow> u8 circular_buffer \<Rightarrow> (buffer_view \<times> u8 circular_buffer) run" where
  "dequeue_into n dest q = for_up 0 n (\<lambda>i (d, q). bindr (cb_dequeue q) (\<lambda>(x, q'). bindr (view_set d i x) (\<lambda>d'. Inr (d', q')))) (dest, q)"

definition queue_from :: "size_t \<Rightarrow> buffer_view \<Rightarrow> u8 circular_buffer \<Rightarrow> u8 circular_buffer run" where
  "queue_from n src q = for_up 0 n (\<lambda>i q. bindr (bv_index src i) (cb_queue q)) q"

section \<open>\<open>Pipe\<close>\<close>

definition BUFFER_SIZE :: size_t where "BUFFER_SIZE = 1024"

record pipe =
  p_buffer :: "u8 circular_buffer"
  p_readers :: size_t
  p_writers :: size_t
  p_wake_ups :: nat

definition pipe_new :: pipe where
  "pipe_new = \<lparr>p_buffer = cb_new BUFFER_SIZE, p_readers = 0, p_writers = 0, p_wake_ups = 0\<rparr>"

definition pipe_open :: "open_mode \<Rightarrow> pipe \<Rightarrow> unit result \<times> pipe" where
  "pipe_open mode p =
     (if mode = OM_READ then (ResultError 0, p\<lparr>p_readers := sz_add (p_readers p) 1\<rparr>)
      else if mode = OM_WRITE then (ResultError 0, p\<lparr>p_writers := sz_add (p_writers p) 1\<rparr>)
      else (ResultError ERROR_INVALID_PARAMETER, p))"

definition pipe_close :: "open_mode \<Rightarrow> pipe \<Rightarrow> (unit result \<times> pipe) run" where
  "pipe_close mode p =
     (if mode = OM_READ then assert_then (p_readers p \<noteq> 0) (Inr (ResultError 0, p\<lparr>p_readers := sz_sub (p_readers p) 1\<rparr>))
      else if mode = OM_WRITE then assert_then (p_writers p \<noteq> 0) (Inr (ResultError 0, p\<lparr>p_writers := sz_sub (p_writers p) 1\<rparr>))
      else Inl NotReachable)"

definition pipe_can_read :: "pipe \<Rightarrow> bool" where
  "pipe_can_read p = (\<not> cb_is_empty (p_buffer p))"

definition pipe_can_write :: "pipe \<Rightarrow> bool" where
  "pipe_can_write p = (\<not> cb_is_full (p_buffer p))"

definition pipe_read :: "buffer_view \<Rightarrow> pipe \<Rightarrow> ((size_t result \<times> buffer_view) option \<times> pipe) run" where
  "pipe_read dest p =
     (if bv_size dest > BUFFER_SIZE then Inr (Some (ResultError ERROR_EOF, dest), p)
      else if \<not> pipe_can_read p then Inr (None, p)
      else let size_to_read = min (bv_size dest) (cb_size (p_buffer p)) in
        bindr (dequeue_into size_to_read dest (p_buffer p)) (\<lambda>(d, q).
        Inr (Some (Result size_to_read, d), p\<lparr>p_buffer := q, p_wake_ups := p_wake_ups p + 1\<rparr>)))"

definition pipe_write :: "buffer_view \<Rightarrow> pipe \<Rightarrow> (size_t result option \<times> pipe) run" where
  "pipe_write src p =
     (if bv_size src > BUFFER_SIZE then Inr (Some (ResultError ERROR_EOF), p)
      else if \<not> pipe_can_write p then Inr (None, p)
      else let size_to_write = min (bv_size src) (cb_available_size (p_buffer p)) in
        bindr (queue_from size_to_write src (p_buffer p)) (\<lambda>q.
        Inr (Some (Result size_to_write), p\<lparr>p_buffer := q, p_wake_ups := p_wake_ups p + 1\<rparr>)))"

definition pipe_remove :: "unit result" where
  "pipe_remove = ResultError ERROR_INVALID_OPERATION"

section \<open>\<open>Connection\<close>\<close>

record connection =
  m_server_buffer :: "u8 circular_buffer"
  m_client_buffer :: "u8 circular_buffer"
  m_server_wake_ups :: nat
  m_client_wake_ups :: nat

definition connection_new :: connection where
  "connection_new = \<lparr>m_server_buffer = cb_new BUFFER_SIZE, m_client_buffer = cb_new BUFFER_SIZE, m_server_wake_ups = 0, m_client_wake_ups = 0\<rparr>"

definition connection_can_read :: "open_mode \<Rightarrow> connection \<Rightarrow> bool run" where
  "connection_can_read mode c = (if mode = OM_SERVER then Inr (\<not> cb_is_empty (m_server_buffer c))
     else if mode = OM_CLIENT then Inr (\<not> cb_is_empty (m_client_buffer c)) else Inl NotReachable)"

definition connection_can_write :: "open_mode \<Rightarrow> connection \<Rightarrow> bool run" where
  "connection_can_write mode c = (if mode = OM_SERVER then Inr (\<not> cb_is_full (m_client_buffer c))
     else if mode = OM_CLIENT then Inr (\<not> cb_is_full (m_server_buffer c)) else Inl NotReachable)"

definition read_server_buffer :: "open_mode \<Rightarrow> buffer_view \<Rightarrow> connection \<Rightarrow> ((size_t \<times> buffer_view) option \<times> connection) run" where
  "read_server_buffer mode dest c = bindr (connection_can_read mode c) (\<lambda>can. if \<not> can then Inr (None, c)
     else let size_to_read = min (bv_size dest) (cb_size (m_server_buffer c)) in
       bindr (dequeue_into size_to_read dest (m_server_buffer c)) (\<lambda>(d, q).
       Inr (Some (size_to_read, d), c\<lparr>m_server_buffer := q, m_server_wake_ups := m_server_wake_ups c + 1\<rparr>)))"

definition read_client_buffer :: "open_mode \<Rightarrow> buffer_view \<Rightarrow> connection \<Rightarrow> ((size_t \<times> buffer_view) option \<times> connection) run" where
  "read_client_buffer mode dest c = bindr (connection_can_read mode c) (\<lambda>can. if \<not> can then Inr (None, c)
     else let size_to_read = min (bv_size dest) (cb_size (m_client_buffer c)) in
       bindr (dequeue_into size_to_read dest (m_client_buffer c)) (\<lambda>(d, q).
       Inr (Some (size_to_read, d), c\<lparr>m_client_buffer := q, m_client_wake_ups := m_client_wake_ups c + 1\<rparr>)))"

definition write_client_buffer :: "open_mode \<Rightarrow> buffer_view \<Rightarrow> connection \<Rightarrow> (size_t option \<times> connection) run" where
  "write_client_buffer mode src c = bindr (connection_can_write mode c) (\<lambda>can. if \<not> can then Inr (None, c)
     else let size_to_write = min (bv_size src) (cb_available_size (m_server_buffer c)) in
       bindr (queue_from size_to_write src (m_server_buffer c)) (\<lambda>q.
       Inr (Some size_to_write, c\<lparr>m_server_buffer := q, m_server_wake_ups := m_server_wake_ups c + 1\<rparr>)))"

definition write_server_buffer :: "open_mode \<Rightarrow> buffer_view \<Rightarrow> connection \<Rightarrow> (size_t option \<times> connection) run" where
  "write_server_buffer mode src c = bindr (connection_can_write mode c) (\<lambda>can. if \<not> can then Inr (None, c)
     else let size_to_write = min (bv_size src) (cb_available_size (m_client_buffer c)) in
       bindr (queue_from size_to_write src (m_client_buffer c)) (\<lambda>q.
       Inr (Some size_to_write, c\<lparr>m_client_buffer := q, m_client_wake_ups := m_client_wake_ups c + 1\<rparr>)))"

definition connection_read :: "open_mode \<Rightarrow> buffer_view \<Rightarrow> connection \<Rightarrow> ((size_t result \<times> buffer_view) option \<times> connection) run" where
  "connection_read mode dest c = bindr
     (if mode = OM_SERVER then read_server_buffer mode dest c
      else if mode = OM_CLIENT then read_client_buffer mode dest c
      else Inl NotReachable) (\<lambda>(r, c1). Inr (map_option (\<lambda>(n, d). (Result n, d)) r, c1))"

definition connection_write :: "open_mode \<Rightarrow> buffer_view \<Rightarrow> connection \<Rightarrow> (size_t result option \<times> connection) run" where
  "connection_write mode src c = bindr
     (if mode = OM_SERVER then write_server_buffer mode src c
      else if mode = OM_CLIENT then write_client_buffer mode src c
      else Inl NotReachable) (\<lambda>(r, c1). Inr (map_option Result r, c1))"

section \<open>What the loops do\<close>

text \<open>A view the caller can write: it lies in storage that is all written.\<close>

definition writable :: "buffer_view \<Rightarrow> u8 list \<Rightarrow> bool" where
  "writable v st = (fst (bv_data v) = chars st \<and> snd (bv_data v) + bv_size v \<le> length st)"

lemma view_set_law:
  assumes "writable v st" "i < bv_size v"
  shows "\<exists>v'. view_set v i x = Inr v' \<and> writable v' (st[snd (bv_data v) + i := x]) \<and> bv_size v' = bv_size v \<and> snd (bv_data v') = snd (bv_data v)"
  using assms by (auto simp: view_set_def mv_set_def writable_def chars_def map_update)

definition overwrite :: "nat \<Rightarrow> 'a list \<Rightarrow> 'a list \<Rightarrow> 'a list" where
  "overwrite o' cs st = take o' st @ cs @ drop (o' + length cs) st"

lemma length_overwrite [simp]: "o' + length cs \<le> length st \<Longrightarrow> length (overwrite o' cs st) = length st"
  by (simp add: overwrite_def)

lemma overwrite_snoc: "o' + length cs < length st \<Longrightarrow> (overwrite o' cs st)[o' + length cs := x] = overwrite o' (cs @ [x]) st"
  by (simp add: overwrite_def list_update_append Cons_nth_drop_Suc [symmetric])

lemma dequeue_into_law:
  assumes "cb_rep q xs" "writable dest st" "n \<le> length xs" "n \<le> bv_size dest"
  shows "ok (dequeue_into n dest q) (\<lambda>(d, q'). writable d (overwrite (snd (bv_data dest)) (take n xs) st) \<and> bv_size d = bv_size dest \<and>
     snd (bv_data d) = snd (bv_data dest) \<and> cb_rep q' (drop n xs) \<and> cb_capacity q' = cb_capacity q)"
  unfolding dequeue_into_def
proof (rule for_up_rule [where I = "\<lambda>i (d, q'). writable d (overwrite (snd (bv_data dest)) (take i xs) st) \<and> bv_size d = bv_size dest \<and>
     snd (bv_data d) = snd (bv_data dest) \<and> cb_rep q' (drop i xs) \<and> cb_capacity q' = cb_capacity q"], goal_cases)
  case (3 i s)
  obtain d q' where s: "s = (d, q')" by fastforce
  let ?o = "snd (bv_data dest)"
  have i: "i < length xs" "i < bv_size dest" "?o + bv_size dest \<le> length st" using 3 assms by (auto simp: writable_def)
  have "cb_rep q' (xs ! i # drop (Suc i) xs)" using 3 s i by (simp add: Cons_nth_drop_Suc)
  then obtain q'' where q: "cb_dequeue q' = Inr (xs ! i, q'')" "cb_rep q'' (drop (Suc i) xs)" "cb_capacity q'' = cb_capacity q"
    using cbq.deq_law [of q' "xs ! i" "drop (Suc i) xs"] 3 s by (auto simp: ok_iff)
  obtain d' where d: "view_set d i (xs ! i) = Inr d'" "writable d' ((overwrite ?o (take i xs) st)[?o + i := xs ! i])"
      "bv_size d' = bv_size dest" "snd (bv_data d') = ?o"
    using view_set_law [of d "overwrite ?o (take i xs) st" i "xs ! i"] 3 s i by auto
  have "(overwrite ?o (take i xs) st)[?o + i := xs ! i] = overwrite ?o (take (Suc i) xs) st"
    using overwrite_snoc [of ?o "take i xs" st "xs ! i"] i by (simp add: take_Suc_conv_app_nth)
  then show ?case using s q d by (simp add: run_simps)
qed (use assms in \<open>auto simp: overwrite_def\<close>)

lemma queue_from_law:
  assumes "cb_rep q xs" "views src bs" "n \<le> length bs" "length xs + n \<le> cb_capacity q"
  shows "ok (queue_from n src q) (\<lambda>q'. cb_rep q' (xs @ take n bs) \<and> cb_capacity q' = cb_capacity q)"
  unfolding queue_from_def
proof (rule for_up_rule [where I = "\<lambda>i q'. cb_rep q' (xs @ take i bs) \<and> cb_capacity q' = cb_capacity q"], goal_cases)
  case (3 i q')
  then have "ok (cb_queue q' (bs ! i)) (\<lambda>q''. cb_rep q'' ((xs @ take i bs) @ [bs ! i]) \<and> cb_capacity q'' = cb_capacity q')"
    using assms by (intro cbq.enq_law) auto
  moreover have "bv_index src i = Inr (bs ! i)" using views_rd [OF assms(2), of i] 3 assms(3) by (simp add: bv_index_def)
  ultimately show ?case using 3 assms(3) by (auto simp: run_simps take_Suc_conv_app_nth elim!: ok_mono)
qed (use assms in auto)


section \<open>Byte streams\<close>

text \<open>
  A buffer of bytes as its users see it: a write takes as many bytes as fit and a read gives as many
  as there are, each waits when that would be none, and a view larger than lim is refused.
\<close>

datatype stream_op = Send "u8 list" | Recv nat

datatype stream_out = Wrote nat | Got "u8 list" | Waits | Fails error_code

definition stream_spec :: "nat \<Rightarrow> stream_op \<Rightarrow> u8 list \<Rightarrow> stream_out \<times> u8 list" where
  "stream_spec lim op xs = (case op of
     Send bs \<Rightarrow> if lim < length bs then (Fails ERROR_EOF, xs)
       else if length xs = 1024 then (Waits, xs)
       else let k = min (length bs) (1024 - length xs) in (Wrote k, xs @ take k bs)
   | Recv n \<Rightarrow> if lim < n then (Fails ERROR_EOF, xs)
       else if xs = [] then (Waits, xs)
       else (Got (take n xs), drop n xs))"

fun run_stream :: "('op \<Rightarrow> 's \<Rightarrow> (stream_out \<times> 's) run) \<Rightarrow> 'op list \<Rightarrow> 's \<Rightarrow> (stream_out list \<times> 's) run" where
  "run_stream f [] s = Inr ([], s)"
| "run_stream f (op # ops) s = bindr (f op s) (\<lambda>(r, s1). bindr (run_stream f ops s1) (\<lambda>(rs, s2). Inr (r # rs, s2)))"

text \<open>The bytes that came out, and the bytes that went in.\<close>

fun received :: "stream_out list \<Rightarrow> u8 list" where
  "received [] = []"
| "received (Got bs # rs) = bs @ received rs"
| "received (_ # rs) = received rs"

fun accepted :: "stream_op list \<Rightarrow> stream_out list \<Rightarrow> u8 list" where
  "accepted (Send bs # ops) (Wrote k # rs) = take k bs @ accepted ops rs"
| "accepted (_ # ops) (_ # rs) = accepted ops rs"
| "accepted _ _ = []"

lemma stream_spec_bytes:
  "run_stream (\<lambda>op xs. Inr (stream_spec lim op xs)) ops xs = Inr (rs, ys) \<Longrightarrow> received rs @ ys = xs @ accepted ops rs"
proof (induction ops arbitrary: xs rs)
  case (Cons op ops)
  obtain r zs where r: "stream_spec lim op xs = (r, zs)" by fastforce
  with Cons.prems obtain rs' where rs: "rs = r # rs'" "run_stream (\<lambda>op xs. Inr (stream_spec lim op xs)) ops zs = Inr (rs', ys)"
    by (auto elim!: bindr_InrE)
  have "received [r] @ zs = xs @ accepted [op] [r]"
    using r by (cases op) (auto simp: stream_spec_def Let_def split: if_splits)
  moreover have "received (r # rs') = received [r] @ received rs'" by (cases r) simp_all
  moreover have "accepted (op # ops) (r # rs') = accepted [op] [r] @ accepted ops rs'" by (cases op; cases r) simp_all
  ultimately show ?case using Cons.IH [OF rs(2)] rs(1) by (metis append_assoc)
qed simp

lemma run_stream_refines:
  assumes "\<And>op s xs. rep s xs \<Longrightarrow> ok_op op \<Longrightarrow> ok (f op s) (\<lambda>(r, s'). r = fst (g op xs) \<and> rep s' (snd (g op xs)))"
    and "rep s xs" "\<forall>op\<in>set ops. ok_op op"
  shows "\<exists>rs s' ys. run_stream f ops s = Inr (rs, s') \<and> run_stream (\<lambda>op xs. Inr (g op xs)) ops xs = Inr (rs, ys) \<and> rep s' ys"
  using assms(2,3)
proof (induction ops arbitrary: s xs)
  case (Cons op ops)
  obtain r s1 where s1: "f op s = Inr (r, s1)" "r = fst (g op xs)" "rep s1 (snd (g op xs))"
    using assms(1) [OF Cons.prems(1), of op] Cons.prems(2) by (auto simp: ok_iff)
  with Cons.IH [OF s1(3)] Cons.prems(2) show ?case by (fastforce simp: split_beta)
qed auto

text \<open>What a caller finds in the first n bytes of its view.\<close>

primrec view_bytes :: "buffer_view \<Rightarrow> nat \<Rightarrow> u8 list run" where
  "view_bytes v 0 = Inr []"
| "view_bytes v (Suc n) = bindr (view_bytes v n) (\<lambda>bs. bindr (bv_index v n) (\<lambda>x. Inr (bs @ [x])))"

lemma view_bytes_law: "reads (bv_data v) cs \<Longrightarrow> n \<le> length cs \<Longrightarrow> view_bytes v n = Inr (take n cs)"
  by (induction n) (simp_all add: bv_index_def reads_rd take_Suc_conv_app_nth)

lemma overwrite_reads: "writable v (overwrite (snd (bv_data v)) cs st) \<Longrightarrow> snd (bv_data v) + length cs \<le> length st \<Longrightarrow> reads (bv_data v) cs"
  using reads_chars [of "take (snd (bv_data v)) st" cs "drop (snd (bv_data v) + length cs) st"]
  by (cases "bv_data v") (simp add: writable_def overwrite_def min_absorb2)

definition send_view :: "u8 list \<Rightarrow> buffer_view" where
  "send_view bs = bv_raw (chars bs, 0) (length bs)"

definition recv_view :: "nat \<Rightarrow> buffer_view" where
  "recv_view n = bv_raw (chars (replicate n 0), 0) n"

definition recv_out :: "(size_t result \<times> buffer_view) option \<Rightarrow> stream_out run" where
  "recv_out r = (case r of None \<Rightarrow> Inr Waits | Some (ResultError e, _) \<Rightarrow> Inr (Fails e)
     | Some (Result n, d) \<Rightarrow> bindr (view_bytes d n) (\<lambda>bs. Inr (Got bs)))"

definition send_out :: "size_t result option \<Rightarrow> stream_out" where
  "send_out r = (case r of None \<Rightarrow> Waits | Some (ResultError e) \<Rightarrow> Fails e | Some (Result n) \<Rightarrow> Wrote n)"

definition op_size_ok :: "stream_op \<Rightarrow> bool" where
  "op_size_ok op = (case op of Send bs \<Rightarrow> length bs < sz_range | Recv n \<Rightarrow> n < sz_range)"

definition holds :: "u8 circular_buffer \<Rightarrow> u8 list \<Rightarrow> bool" where
  "holds q xs = (cb_rep q xs \<and> cb_capacity q = 1024)"

lemma holds_state:
  assumes "holds q xs"
  shows "cb_is_empty q \<longleftrightarrow> xs = []" "cb_is_full q \<longleftrightarrow> length xs = 1024" "cb_size q = length xs" "cb_available_size q = 1024 - length xs" "length xs \<le> 1024"
  using assms cbq.bounded [of q xs]
  by (auto simp: holds_def cb_rep_def cb_is_empty_def cb_is_full_def cb_size_def cb_available_size_def cb_capacity_def sz_sub_eq)

lemma receive_law:
  assumes "holds q xs"
  shows "\<exists>d q'. dequeue_into (min n (length xs)) (recv_view n) q = Inr (d, q') \<and> holds q' (drop n xs) \<and> view_bytes d (min n (length xs)) = Inr (take n xs)"
proof -
  let ?k = "min n (length xs)"
  have w: "writable (recv_view n) (replicate n 0)" "bv_size (recv_view n) = n" "snd (bv_data (recv_view n)) = 0" by (simp_all add: writable_def recv_view_def bv_raw_def)
  obtain d q' where d: "dequeue_into ?k (recv_view n) q = Inr (d, q')" "writable d (overwrite 0 (take ?k xs) (replicate n 0))" "snd (bv_data d) = 0"
      "cb_rep q' (drop ?k xs)" "cb_capacity q' = 1024"
    using dequeue_into_law [of q xs "recv_view n" "replicate n 0" ?k] assms w by (auto simp: holds_def ok_iff)
  have "drop ?k xs = drop n xs" "take ?k xs = take n xs" by (simp_all add: min_def)
  moreover have "reads (bv_data d) (take ?k xs)" using overwrite_reads [of d "take ?k xs" "replicate n 0"] d(2,3) by simp
  ultimately show ?thesis using d view_bytes_law [of d "take ?k xs" ?k] by (auto simp: holds_def)
qed

lemma send_law:
  assumes "holds q xs" "length bs < sz_range"
  shows "\<exists>q'. queue_from (min (length bs) (1024 - length xs)) (send_view bs) q = Inr q' \<and> holds q' (xs @ take (min (length bs) (1024 - length xs)) bs)"
  using queue_from_law [of q xs "send_view bs" bs "min (length bs) (1024 - length xs)"] views_literal [of bs "length bs"] assms holds_state(5) [OF assms(1)]
  by (auto simp: holds_def send_view_def ok_iff)

lemma view_sizes [simp]: "bv_size (send_view bs) = length bs" "bv_size (recv_view n) = n"
  by (simp_all add: send_view_def recv_view_def bv_raw_def)

definition pipe_step :: "stream_op \<Rightarrow> pipe \<Rightarrow> (stream_out \<times> pipe) run" where
  "pipe_step op p = (case op of
     Send bs \<Rightarrow> bindr (pipe_write (send_view bs) p) (\<lambda>(r, p1). Inr (send_out r, p1))
   | Recv n \<Rightarrow> bindr (pipe_read (recv_view n) p) (\<lambda>(r, p1). bindr (recv_out r) (\<lambda>out. Inr (out, p1))))"

lemma pipe_step_law:
  assumes "holds (p_buffer p) xs" "op_size_ok op"
  shows "ok (pipe_step op p) (\<lambda>(r, p'). r = fst (stream_spec 1024 op xs) \<and> holds (p_buffer p') (snd (stream_spec 1024 op xs)))"
proof (cases op)
  case (Send bs)
  then show ?thesis using send_law [OF assms(1), of bs] assms(2) holds_state [OF assms(1)] assms(1)
    by (auto simp: pipe_step_def pipe_write_def stream_spec_def send_out_def BUFFER_SIZE_def pipe_can_write_def op_size_ok_def Let_def run_simps)
next
  case (Recv n)
  then show ?thesis using receive_law [OF assms(1), of n] holds_state [OF assms(1)] assms(1)
    by (auto simp: pipe_step_def pipe_read_def stream_spec_def recv_out_def BUFFER_SIZE_def pipe_can_read_def Let_def run_simps)
qed

section \<open>Two directions\<close>

definition connection_step :: "open_mode \<times> stream_op \<Rightarrow> connection \<Rightarrow> (stream_out \<times> connection) run" where
  "connection_step = (\<lambda>(mode, op) c. case op of
     Send bs \<Rightarrow> bindr (connection_write mode (send_view bs) c) (\<lambda>(r, c1). Inr (send_out r, c1))
   | Recv n \<Rightarrow> bindr (connection_read mode (recv_view n) c) (\<lambda>(r, c1). bindr (recv_out r) (\<lambda>out. Inr (out, c1))))"

text \<open>The two streams: to the server and to the client. A side reads its own and writes the other one.\<close>

definition duplex_spec :: "open_mode \<times> stream_op \<Rightarrow> u8 list \<times> u8 list \<Rightarrow> stream_out \<times> u8 list \<times> u8 list" where
  "duplex_spec = (\<lambda>(mode, op) (xs, ys). if (mode = OM_SERVER) = (\<exists>n. op = Recv n)
     then (let (r, xs') = stream_spec sz_range op xs in (r, xs', ys))
     else (let (r, ys') = stream_spec sz_range op ys in (r, xs, ys')))"

definition duplex_op_ok :: "open_mode \<times> stream_op \<Rightarrow> bool" where
  "duplex_op_ok = (\<lambda>(mode, op). (mode = OM_SERVER \<or> mode = OM_CLIENT) \<and> op_size_ok op)"

definition holds_both :: "connection \<Rightarrow> u8 list \<times> u8 list \<Rightarrow> bool" where
  "holds_both c = (\<lambda>(xs, ys). holds (m_server_buffer c) xs \<and> holds (m_client_buffer c) ys)"

text \<open>What a side received, and what was accepted from it.\<close>

fun received_by :: "open_mode \<Rightarrow> (open_mode \<times> stream_op) list \<Rightarrow> stream_out list \<Rightarrow> u8 list" where
  "received_by m ((mode, op) # ops) (r # rs) = (if mode = m then received [r] else []) @ received_by m ops rs"
| "received_by m _ _ = []"

fun accepted_from :: "open_mode \<Rightarrow> (open_mode \<times> stream_op) list \<Rightarrow> stream_out list \<Rightarrow> u8 list" where
  "accepted_from m ((mode, op) # ops) (r # rs) = (if mode = m then accepted [op] [r] else []) @ accepted_from m ops rs"
| "accepted_from m _ _ = []"

lemma stream_step_bytes: "stream_spec lim op xs = (r, ys) \<Longrightarrow> received [r] @ ys = xs @ accepted [op] [r]"
  by (cases op) (auto simp: stream_spec_def Let_def split: if_splits)

lemma stream_step_kind: "stream_spec lim op xs = (r, ys) \<Longrightarrow> (\<exists>n. op = Recv n) \<and> accepted [op] [r] = [] \<or> (\<exists>bs. op = Send bs) \<and> received [r] = []"
  by (cases op) (auto simp: stream_spec_def Let_def split: if_splits)

lemma duplex_bytes:
  assumes "run_stream (\<lambda>op s. Inr (duplex_spec op s)) ops (xs, ys) = Inr (rs, xs', ys')" "\<forall>op\<in>set ops. duplex_op_ok op"
  shows "received_by OM_SERVER ops rs @ xs' = xs @ accepted_from OM_CLIENT ops rs \<and> received_by OM_CLIENT ops rs @ ys' = ys @ accepted_from OM_SERVER ops rs"
  using assms
proof (induction ops arbitrary: xs ys rs)
  case (Cons mop ops)
  obtain mode op where mop: "mop = (mode, op)" by fastforce
  obtain r xs1 ys1 where r: "duplex_spec (mode, op) (xs, ys) = (r, xs1, ys1)" by (metis prod_cases3)
  with Cons.prems(1) mop obtain rs' where rs: "rs = r # rs'" "run_stream (\<lambda>op s. Inr (duplex_spec op s)) ops (xs1, ys1) = Inr (rs', xs', ys')"
    by (auto elim!: bindr_InrE)
  have ih: "received_by OM_SERVER ops rs' @ xs' = xs1 @ accepted_from OM_CLIENT ops rs'" "received_by OM_CLIENT ops rs' @ ys' = ys1 @ accepted_from OM_SERVER ops rs'"
    using Cons.IH [OF rs(2)] Cons.prems(2) by auto
  have m: "mode = OM_SERVER \<and> mode \<noteq> OM_CLIENT \<or> mode = OM_CLIENT \<and> mode \<noteq> OM_SERVER"
    using Cons.prems(2) mop by (auto simp: duplex_op_ok_def open_modes)
  show ?case
  proof (cases op)
    case (Recv n)
    then have "(if mode = OM_SERVER then stream_spec sz_range op xs = (r, xs1) \<and> ys1 = ys else stream_spec sz_range op ys = (r, ys1) \<and> xs1 = xs)"
      using r by (auto simp: duplex_spec_def split: prod.splits if_splits)
    then show ?thesis using ih m rs(1) mop Recv stream_step_bytes stream_step_kind by (fastforce split: if_splits)
  next
    case (Send bs)
    then have "(if mode = OM_SERVER then stream_spec sz_range op ys = (r, ys1) \<and> xs1 = xs else stream_spec sz_range op xs = (r, xs1) \<and> ys1 = ys)"
      using r by (auto simp: duplex_spec_def split: prod.splits if_splits)
    then show ?thesis using ih m rs(1) mop Send stream_step_bytes stream_step_kind by (fastforce split: if_splits)
  qed
qed simp

lemma connection_step_law:
  assumes "holds_both c s" "duplex_op_ok mop"
  shows "ok (connection_step mop c) (\<lambda>(r, c'). r = fst (duplex_spec mop s) \<and> holds_both c' (snd (duplex_spec mop s)))"
proof -
  obtain mode op where mop: "mop = (mode, op)" by fastforce
  obtain xs ys where s: "s = (xs, ys)" by fastforce
  have h: "holds (m_server_buffer c) xs" "holds (m_client_buffer c) ys" using assms(1) by (simp_all add: holds_both_def s)
  have m: "mode = OM_SERVER \<or> mode = OM_CLIENT" "op_size_ok op" using assms(2) by (auto simp: duplex_op_ok_def mop)
  note defs = connection_step_def connection_read_def connection_write_def read_server_buffer_def read_client_buffer_def
    write_server_buffer_def write_client_buffer_def connection_can_read_def connection_can_write_def
  show ?thesis
  proof (cases op)
    case (Send bs)
    then show ?thesis using m send_law [OF h(1), of bs] send_law [OF h(2), of bs] holds_state [OF h(1)] holds_state [OF h(2)] h
      by (auto simp: defs duplex_spec_def stream_spec_def send_out_def op_size_ok_def Let_def run_simps mop s holds_both_def OM_SERVER_def OM_CLIENT_def)
  next
    case (Recv n)
    then show ?thesis using m receive_law [OF h(1), of n] receive_law [OF h(2), of n] holds_state [OF h(1)] holds_state [OF h(2)] h
      by (auto simp: defs duplex_spec_def stream_spec_def recv_out_def op_size_ok_def Let_def run_simps mop s holds_both_def OM_SERVER_def OM_CLIENT_def)
  qed
qed

section \<open>Properties\<close>




text \<open>
  A connection is two such streams that do not affect each other: every sequence of reads and writes
  of the two sides gives the results of the streams, and what one side received, followed by what
  is still on the way to it, is exactly what was accepted from the other side.
\<close>

theorem connection_duplex_streams:
  assumes "\<forall>op\<in>set ops. duplex_op_ok op"
  shows "\<exists>rs c xs ys. run_stream connection_step ops connection_new = Inr (rs, c) \<and>
     run_stream (\<lambda>op s. Inr (duplex_spec op s)) ops ([], []) = Inr (rs, xs, ys) \<and> holds_both c (xs, ys) \<and>
     received_by OM_SERVER ops rs @ xs = accepted_from OM_CLIENT ops rs \<and> received_by OM_CLIENT ops rs @ ys = accepted_from OM_SERVER ops rs"
proof -
  have "holds (cb_new BUFFER_SIZE) []" using cb_new_rep [of 1024] by (simp add: BUFFER_SIZE_def holds_def) (simp add: cb_new_def cb_capacity_def)
  then have "holds_both connection_new ([], [])" by (simp add: connection_new_def holds_both_def)
  from run_stream_refines [of holds_both duplex_op_ok connection_step duplex_spec, OF connection_step_law this assms]
  obtain rs c s where "run_stream connection_step ops connection_new = Inr (rs, c)" "holds_both c s"
      "run_stream (\<lambda>op s. Inr (duplex_spec op s)) ops ([], []) = Inr (rs, s)" by blast
  then show ?thesis using duplex_bytes [of ops "[]" "[]" rs "fst s" "snd s"] assms
    by (intro exI [of _ rs] exI [of _ c] exI [of _ "fst s"] exI [of _ "snd s"]) simp
qed

theorem connection_duplex_streams_witness:
  "\<exists>rs c. run_stream connection_step [(OM_CLIENT, Send [1, 2]), (OM_SERVER, Recv 9), (OM_SERVER, Send [3]), (OM_SERVER, Recv 1), (OM_CLIENT, Recv 1)] connection_new =
     Inr (rs, c) \<and> rs = [Wrote 2, Got [1, 2], Wrote 1, Waits, Got [3]]"
  using connection_duplex_streams [of "[(OM_CLIENT, Send [1, 2]), (OM_SERVER, Recv 9), (OM_SERVER, Send [3]), (OM_SERVER, Recv 1), (OM_CLIENT, Recv 1)]"]
  by (auto simp: duplex_op_ok_def op_size_ok_def duplex_spec_def stream_spec_def open_modes)

end
