(* ===== verification/Terminal.thy ===== *)
theory Terminal
  imports Pipes
begin

text \<open>
  The keyboard (keyboard.h, keyboard.cpp) and the text console (console.h, console.cpp). The keyboard
  is a queue between its interrupt handler and its readers. The console writes the page of video
  memory it maps, 2048 cells of 16 bits, 80 columns and 25 rows of which are visible; its positions
  are never negative, since every decrement is guarded.
\<close>

section \<open>\<open>Keyboard\<close>\<close>

record keyboard =
  kb_buffer :: "u8 circular_buffer"
  kb_shift :: bool
  kb_wake_ups :: nat

definition keyboard_new :: keyboard where
  "keyboard_new = \<lparr>kb_buffer = cb_new 1024, kb_shift = False, kb_wake_ups = 0\<rparr>"

definition asccode :: "(u8 \<times> u8) list" where
  "asccode = [(0, 0), (0, 0), (49, 33), (50, 64), (51, 35), (52, 36), (53, 37), (54, 94), (55, 38), (56, 42), (57, 40), (48, 41),
     (45, 95), (61, 43), (8, 8), (9, 9), (113, 81), (119, 87), (101, 69), (114, 82), (116, 84), (121, 89), (117, 85), (105, 73),
     (111, 79), (112, 80), (91, 123), (93, 125), (10, 10), (0, 0), (97, 65), (115, 83), (100, 68), (102, 70), (103, 71), (104, 72),
     (106, 74), (107, 75), (108, 76), (59, 58), (39, 34), (96, 126), (0, 0), (92, 124), (122, 90), (120, 88), (99, 67), (118, 86),
     (98, 66), (110, 78), (109, 77), (44, 60), (46, 62), (47, 63), (0, 0), (0, 0), (0, 0), (32, 32)]"

definition SHIFT_KEY :: u8 where "SHIFT_KEY = 0x2A"

definition key_pressed :: "u8 \<Rightarrow> u8" where
  "key_pressed key = key"

definition key_released :: "u8 \<Rightarrow> u8" where
  "key_released key = key OR 0x80"

text \<open>The scan code is an \<open>unsigned char\<close> and the keys are \<open>char\<close>, which is signed: both are widened to int.\<close>

definition enqueue_keystoke :: "u8 \<Rightarrow> keyboard \<Rightarrow> keyboard run" where
  "enqueue_keystoke data k =
     (if uint data = sint (key_pressed SHIFT_KEY) then Inr (k\<lparr>kb_shift := True\<rparr>)
      else if uint data = sint (key_released SHIFT_KEY) then Inr (k\<lparr>kb_shift := False\<rparr>)
      else if data AND 0x80 = 0 then
        bindr (if cb_is_full (kb_buffer k) then bindr (cb_dequeue (kb_buffer k)) (\<lambda>(_, q). Inr q) else Inr (kb_buffer k)) (\<lambda>q.
        bindr (arr_get asccode (unat data)) (\<lambda>codes.
        bindr (cb_queue q (if kb_shift k then snd codes else fst codes)) (\<lambda>q'.
        Inr (k\<lparr>kb_buffer := q', kb_wake_ups := kb_wake_ups k + 1\<rparr>))))
      else Inr k)"

definition keyboard_can_read :: "keyboard \<Rightarrow> bool" where
  "keyboard_can_read k = (\<not> cb_is_empty (kb_buffer k))"

definition keyboard_read :: "buffer_view \<Rightarrow> keyboard \<Rightarrow> ((size_t result \<times> buffer_view) option \<times> keyboard) run" where
  "keyboard_read dest k =
     (if \<not> keyboard_can_read k then Inr (None, k)
      else let size_to_read = min (bv_size dest) (cb_size (kb_buffer k)) in
        bindr (dequeue_into size_to_read dest (kb_buffer k)) (\<lambda>(d, q). Inr (Some (Result size_to_read, d), k\<lparr>kb_buffer := q\<rparr>)))"

section \<open>\<open>Console\<close>\<close>

definition VGA_WIDTH :: nat where "VGA_WIDTH = 80"
definition VGA_HEIGHT :: nat where "VGA_HEIGHT = 25"

record console =
  m_video_ram :: "u16 list"
  m_vPosition :: nat
  m_hPosition :: nat
  m_charColor :: u8

definition vga_entry_color :: "u8 \<Rightarrow> u8 \<Rightarrow> u8" where
  "vga_entry_color fg bg = fg OR push_bit 4 bg"

definition vga_entry :: "u8 \<Rightarrow> u8 \<Rightarrow> u16" where
  "vga_entry uc color = ucast uc OR push_bit 8 (ucast color)"

definition position :: "console \<Rightarrow> nat" where
  "position c = m_hPosition c + m_vPosition c * VGA_WIDTH"

definition put_cell :: "u16 \<Rightarrow> console \<Rightarrow> console run" where
  "put_cell x c = bindr (arr_set (m_video_ram c) (position c) x) (\<lambda>v. Inr (c\<lparr>m_video_ram := v\<rparr>))"

definition clearScreen :: "console \<Rightarrow> console run" where
  "clearScreen c = bindr (for_up 0 VGA_WIDTH (\<lambda>i. for_up 0 VGA_HEIGHT (\<lambda>i2 v. arr_set v (i + i2 * VGA_WIDTH) 0)) (m_video_ram c))
     (\<lambda>v. Inr (c\<lparr>m_video_ram := v, m_hPosition := 0, m_vPosition := 0\<rparr>))"

text \<open>The page of video memory holds what it held before.\<close>

definition initiate_console :: "u16 list \<Rightarrow> console run" where
  "initiate_console ram = clearScreen \<lparr>m_video_ram = ram, m_vPosition = 0, m_hPosition = 0, m_charColor = 0x0F\<rparr>"

definition set_color :: "u8 \<Rightarrow> u8 \<Rightarrow> console \<Rightarrow> console" where
  "set_color color backcolor c = c\<lparr>m_charColor := vga_entry_color color backcolor\<rparr>"

definition copy_row :: "nat \<Rightarrow> nat \<Rightarrow> u16 list \<Rightarrow> u16 list run" where
  "copy_row dst src v = for_up 0 VGA_WIDTH (\<lambda>j v. bindr (arr_get v (src + j)) (arr_set v (dst + j))) v"

definition page_up :: "console \<Rightarrow> console run" where
  "page_up c = bindr (for_up 0 (VGA_HEIGHT - 1) (\<lambda>i. copy_row (VGA_WIDTH * i) (VGA_WIDTH * (i + 1))) (m_video_ram c)) (\<lambda>v.
     bindr (for_up 0 VGA_WIDTH (\<lambda>j v. arr_set v (VGA_WIDTH * (VGA_HEIGHT - 1) + j) 0) v) (\<lambda>v'. Inr (c\<lparr>m_video_ram := v'\<rparr>)))"

definition update_cursor :: "console \<Rightarrow> console run" where
  "update_cursor c = put_cell (vga_entry 0 (vga_entry_color 0 15)) c"

definition insert_new_line :: "console \<Rightarrow> console run" where
  "insert_new_line c = bindr (if m_hPosition c \<noteq> VGA_WIDTH then put_cell 0 c else Inr c) (\<lambda>c1.
     Inr (c1\<lparr>m_hPosition := 0, m_vPosition := m_vPosition c1 + 1\<rparr>))"

definition insert_character :: "u8 \<Rightarrow> console \<Rightarrow> console run" where
  "insert_character ch c = bindr (put_cell (vga_entry ch (m_charColor c)) c) (\<lambda>c1.
     let h = (m_hPosition c1 + 1) mod VGA_WIDTH in Inr (c1\<lparr>m_hPosition := h, m_vPosition := m_vPosition c1 + of_bool (h = 0)\<rparr>))"

text \<open>The loop of \<open>insert_back_space\<close>: back to the last cell that is not empty, or to the start.\<close>

function back_loop :: "u16 list \<Rightarrow> nat \<Rightarrow> nat \<Rightarrow> (nat \<times> nat) run" where
  "back_loop ram h v =
     (if h > 0 then bindr (arr_get ram ((h - 1) + v * VGA_WIDTH)) (\<lambda>x. if x = 0 then back_loop ram (h - 1) v else Inr (h - 1, v))
      else if v > 0 then bindr (arr_get ram ((VGA_WIDTH - 1) + (v - 1) * VGA_WIDTH)) (\<lambda>x. if x = 0 then back_loop ram (VGA_WIDTH - 1) (v - 1) else Inr (VGA_WIDTH - 1, v - 1))
      else Inr (h, v))"
  by pat_completeness auto
termination
  by (relation "measure (\<lambda>(_, h, v). h + v * VGA_WIDTH)") (auto simp: VGA_WIDTH_def diff_mult_distrib)

definition insert_back_space :: "console \<Rightarrow> console run" where
  "insert_back_space c = bindr (if m_hPosition c \<noteq> VGA_WIDTH then put_cell 0 c else Inr c) (\<lambda>c1.
     bindr (back_loop (m_video_ram c1) (m_hPosition c1) (m_vPosition c1)) (\<lambda>(h, v). put_cell 0 (c1\<lparr>m_hPosition := h, m_vPosition := v\<rparr>)))"

definition put_char :: "u8 \<Rightarrow> console \<Rightarrow> console run" where
  "put_char ch c = bindr (if m_vPosition c = VGA_HEIGHT then bindr (page_up c) (\<lambda>c1. Inr (c1\<lparr>m_vPosition := m_vPosition c1 - 1\<rparr>)) else Inr c) (\<lambda>c1.
     bindr (if ch = 10 then insert_new_line c1
            else if ch = 8 then insert_back_space c1
            else if ch = 9 then for_up 0 4 (\<lambda>_. insert_character 32) c1
            else insert_character ch c1) update_cursor)"

definition console_write :: "buffer_view \<Rightarrow> console \<Rightarrow> (size_t result \<times> console) run" where
  "console_write buff c = bindr (for_up 0 (bv_size buff) (\<lambda>i c. bindr (bv_index buff i) (\<lambda>ch. put_char ch c)) c) (\<lambda>c1. Inr (Result (bv_size buff), c1))"

text \<open>\<open>remove_line\<close>, which nothing calls: the loop clears the cells it leaves.\<close>

function remove_loop :: "u16 list \<Rightarrow> nat \<Rightarrow> nat \<Rightarrow> (u16 list \<times> nat \<times> nat) run" where
  "remove_loop ram h v = bindr (if h \<noteq> VGA_WIDTH then arr_set ram (h + v * VGA_WIDTH) 0 else Inr ram) (\<lambda>ram1.
     if h > 0 then bindr (arr_get ram1 ((h - 1) + v * VGA_WIDTH)) (\<lambda>x. if x = 0 \<or> h - 1 \<noteq> 0 then remove_loop ram1 (h - 1) v else Inr (ram1, h - 1, v))
     else if v > 0 then bindr (arr_get ram1 ((VGA_WIDTH - 1) + (v - 1) * VGA_WIDTH)) (\<lambda>x. remove_loop ram1 (VGA_WIDTH - 1) (v - 1))
     else Inr (ram1, h, v))"
  by pat_completeness auto
termination
  by (relation "measure (\<lambda>(_, h, v). h + v * VGA_WIDTH)") (auto simp: VGA_WIDTH_def diff_mult_distrib)

definition remove_line :: "console \<Rightarrow> console run" where
  "remove_line c = bindr (remove_loop (m_video_ram c) (m_hPosition c) (m_vPosition c)) (\<lambda>(ram, h, v).
     put_cell 0 (c\<lparr>m_video_ram := ram, m_hPosition := h, m_vPosition := v\<rparr>))"

declare back_loop.simps [simp del] remove_loop.simps [simp del]

section \<open>Keys\<close>

datatype kb_op = Stroke u8 | Keys nat

text \<open>A stroke has no result; the oldest key is dropped when the queue is full.\<close>

definition kb_spec :: "kb_op \<Rightarrow> bool \<times> u8 list \<Rightarrow> stream_out \<times> bool \<times> u8 list" where
  "kb_spec op = (\<lambda>(shift, xs). case op of
     Stroke d \<Rightarrow> if d = SHIFT_KEY then (Waits, True, xs)
       else if d < 0x80 then (Waits, shift, (if length xs = 1024 then tl xs else xs) @ [(if shift then snd else fst) (asccode ! unat d)])
       else (Waits, shift, xs)
   | Keys n \<Rightarrow> if xs = [] then (Waits, shift, xs) else (Got (take n xs), shift, drop n xs))"

definition kb_step :: "kb_op \<Rightarrow> keyboard \<Rightarrow> (stream_out \<times> keyboard) run" where
  "kb_step op k = (case op of
     Stroke d \<Rightarrow> bindr (enqueue_keystoke d k) (\<lambda>k1. Inr (Waits, k1))
   | Keys n \<Rightarrow> bindr (keyboard_read (recv_view n) k) (\<lambda>(r, k1). bindr (recv_out r) (\<lambda>out. Inr (out, k1))))"

definition kb_op_ok :: "kb_op \<Rightarrow> bool" where
  "kb_op_ok op = (case op of Stroke d \<Rightarrow> d < 58 \<or> 0x80 \<le> d | Keys n \<Rightarrow> n < sz_range)"

definition kb_holds :: "keyboard \<Rightarrow> bool \<times> u8 list \<Rightarrow> bool" where
  "kb_holds k = (\<lambda>(shift, xs). kb_shift k = shift \<and> holds (kb_buffer k) xs)"

lemma shift_codes: "uint d = sint (key_pressed SHIFT_KEY) \<longleftrightarrow> d = SHIFT_KEY" "uint d \<noteq> sint (key_released SHIFT_KEY)"
proof -
  have pos: "uint d \<noteq> - 86" using uint_nonnegative [of d] by linarith
  have "sint (0x2A :: u8) = 42" "sint (0xAA :: u8) = -86" by (simp_all add: sint_numeral signed_take_bit_numeral_bit1)
  then show "uint d = sint (key_pressed SHIFT_KEY) \<longleftrightarrow> d = SHIFT_KEY" "uint d \<noteq> sint (key_released SHIFT_KEY)"
    using pos by (auto simp: key_pressed_def key_released_def SHIFT_KEY_def word_uint_eq_iff)
qed

lemma high_bit: "(d :: u8) AND 0x80 = 0 \<longleftrightarrow> d < 0x80"
proof -
  have c: "(0x80 :: u8) = 2 ^ 7" by simp
  have "d AND 0x80 = 0 \<longleftrightarrow> \<not> bit d 7" unfolding c by (simp only: and_exp_eq_0_iff_not_bit)
  moreover have "bit d 7 \<longleftrightarrow> bit (unat d) 7" by (simp add: bit_unsigned_iff)
  moreover have "unat d < 256" using unsigned_less [of d, where ?'a = nat] by simp
  then have "unat d div 128 = (if 128 \<le> unat d then 1 else 0)" by (auto intro!: div_nat_eqI)
  then have "bit (unat d) 7 \<longleftrightarrow> 128 \<le> unat d" by (simp add: bit_iff_odd)
  ultimately show ?thesis by (auto simp: word_less_nat_alt)
qed

lemma translate_law:
  assumes "holds q xs" "unat d < 58"
  shows "\<exists>q'. bindr (if cb_is_full q then bindr (cb_dequeue q) (\<lambda>(_, q). Inr q) else Inr q) (\<lambda>q.
        bindr (arr_get asccode (unat d)) (\<lambda>codes. cb_queue q (if shift then snd codes else fst codes))) = Inr q' \<and>
     holds q' ((if length xs = 1024 then tl xs else xs) @ [(if shift then snd else fst) (asccode ! unat d)])"
proof -
  have a: "arr_get asccode (unat d) = Inr (asccode ! unat d)" using assms(2) by (simp add: arr_get_def asccode_def)
  let ?ys = "if length xs = 1024 then tl xs else xs"
  obtain q1 where q1: "(if cb_is_full q then bindr (cb_dequeue q) (\<lambda>(_, q). Inr q) else Inr q) = Inr q1" "holds q1 ?ys" "length ?ys < 1024"
  proof (cases "length xs = 1024")
    case True
    then obtain y ys where "xs = y # ys" by (cases xs) auto
    then show ?thesis using that True cbq.deq_law [of q y ys] assms(1) holds_state [OF assms(1)] by (auto simp: holds_def ok_iff)
  next
    case False
    then show ?thesis using that assms(1) holds_state [OF assms(1)] by auto
  qed
  have "ok (cb_queue q1 x) (\<lambda>q'. cb_rep q' (?ys @ [x]) \<and> cb_capacity q' = cb_capacity q1)" for x
    using cbq.enq_law [of q1 ?ys x] q1(2,3) by (simp add: holds_def)
  then show ?thesis using q1(1,2) a by (cases shift) (auto simp: holds_def ok_iff)
qed

lemma kb_step_law:
  assumes "kb_holds k s" "kb_op_ok op"
  shows "ok (kb_step op k) (\<lambda>(r, k'). r = fst (kb_spec op s) \<and> kb_holds k' (snd (kb_spec op s)))"
proof (cases op)
  case (Stroke d)
  obtain shift xs where s: "s = (shift, xs)" by fastforce
  have h: "holds (kb_buffer k) xs" "kb_shift k = shift" using assms(1) by (simp_all add: kb_holds_def s)
  have d: "d < 58 \<or> 0x80 \<le> d" using assms(2) Stroke by (simp add: kb_op_ok_def)
  show ?thesis
  proof (cases "d \<noteq> SHIFT_KEY \<and> d < 0x80")
    case True
    then have "unat d < 58" using d by (auto simp: word_less_nat_alt word_le_nat_alt)
    from translate_law [OF h(1) this, of shift] obtain q' where
      "bindr (if cb_is_full (kb_buffer k) then bindr (cb_dequeue (kb_buffer k)) (\<lambda>(_, q). Inr q) else Inr (kb_buffer k)) (\<lambda>q.
        bindr (arr_get asccode (unat d)) (\<lambda>codes. cb_queue q (if shift then snd codes else fst codes))) = Inr q'"
      "holds q' ((if length xs = 1024 then tl xs else xs) @ [(if shift then snd else fst) (asccode ! unat d)])" by blast
    then have "enqueue_keystoke d k = Inr (k\<lparr>kb_buffer := q', kb_wake_ups := kb_wake_ups k + 1\<rparr>)"
      using True h(2) by (auto simp: enqueue_keystoke_def shift_codes high_bit elim!: bindr_InrE)
    then show ?thesis using True h(2) \<open>holds q' _\<close> by (simp add: kb_step_def kb_spec_def kb_holds_def Stroke s run_simps)
  next
    case False
    then show ?thesis using h d by (auto simp: kb_step_def kb_spec_def kb_holds_def Stroke s run_simps enqueue_keystoke_def shift_codes high_bit not_less)
  qed
next
  case (Keys n)
  obtain shift xs where s: "s = (shift, xs)" by fastforce
  have h: "holds (kb_buffer k) xs" "kb_shift k = shift" using assms(1) by (simp_all add: kb_holds_def s)
  show ?thesis using receive_law [OF h(1), of n] holds_state [OF h(1)] h Keys
    by (auto simp: kb_step_def kb_spec_def kb_holds_def keyboard_read_def keyboard_can_read_def recv_out_def s Let_def run_simps)
qed


section \<open>The screen\<close>

definition console_wf :: "console \<Rightarrow> bool" where
  "console_wf c = (length (m_video_ram c) = 2048 \<and> m_hPosition c < 80 \<and> (m_vPosition c < 25 \<or> m_vPosition c = 25 \<and> m_hPosition c < 4))"

lemma position_bound: "console_wf c \<Longrightarrow> position c < 2048"
  by (auto simp: console_wf_def position_def VGA_WIDTH_def)

lemma put_cell_law: "position c < length (m_video_ram c) \<Longrightarrow> put_cell x c = Inr (c\<lparr>m_video_ram := (m_video_ram c)[position c := x]\<rparr>)"
  by (simp add: put_cell_def arr_set_def)

lemma copy_row_law:
  assumes "dst + 80 \<le> src" "src + 80 \<le> length v"
  shows "copy_row dst src v = Inr (overwrite dst (take 80 (drop src v)) v)"
proof -
  have "ok (copy_row dst src v) (\<lambda>w. w = overwrite dst (take 80 (drop src v)) v)"
    unfolding copy_row_def VGA_WIDTH_def
  proof (rule for_up_rule [where I = "\<lambda>j w. w = overwrite dst (take j (drop src v)) v"], goal_cases)
    case (3 j w)
    then have "w ! (src + j) = v ! (src + j)" "length w = length v" using assms by (auto simp: overwrite_def nth_append add.commute)
    moreover have "w[dst + j := v ! (src + j)] = overwrite dst (take (Suc j) (drop src v)) v"
      using overwrite_snoc [of dst "take j (drop src v)" v "v ! (src + j)"] 3 assms by (simp add: take_Suc_conv_app_nth)
    ultimately show ?case using 3 assms by (simp add: run_simps)
  qed (simp_all add: overwrite_def)
  then show ?thesis by (auto simp: ok_iff)
qed

lemma rows_up_law:
  assumes "length v = 2048"
  shows "for_up 0 24 (\<lambda>i. copy_row (80 * i) (80 * (i + 1))) v = Inr (take 1920 (drop 80 v) @ drop 1920 v)"
proof -
  have "ok (for_up 0 24 (\<lambda>i. copy_row (80 * i) (80 * (i + 1))) v) (\<lambda>w. w = take (80 * 24) (drop 80 v) @ drop (80 * 24) v)"
  proof (rule for_up_rule [where I = "\<lambda>i w. w = take (80 * i) (drop 80 v) @ drop (80 * i) v"], goal_cases)
    case (3 i w)
    then have len: "length w = 2048" "80 * i + 160 \<le> 2048" using assms by simp_all
    have c: "copy_row (80 * i) (80 * (i + 1)) w = Inr (take (80 * i) w @ take 80 (drop (80 * i + 80) w) @ drop (80 * i + 80) w)"
      using copy_row_law [of "80 * i" "80 * (i + 1)" w] len by (simp add: overwrite_def algebra_simps)
    have "take (80 * i) w = take (80 * i) (drop 80 v)" "drop (80 * i + 80) w = drop (80 * i + 80) v" using 3 len assms by (simp_all add: add.commute)
    moreover have "take (80 * i) (drop 80 v) @ take 80 (drop (80 * i + 80) v) = take (80 * i + 80) (drop 80 v)"
      unfolding take_add drop_drop by (simp add: add.commute)
    ultimately have "take (80 * i) w @ take 80 (drop (80 * i + 80) w) @ drop (80 * i + 80) w = take (80 * Suc i) (drop 80 v) @ drop (80 * Suc i) v"
      by (simp add: algebra_simps flip: append_assoc)
    then show ?case using c by (simp add: run_simps)
  qed simp_all
  then show ?thesis by (auto simp: ok_iff)
qed

lemma clear_last_row_law:
  assumes "length v = 2048"
  shows "for_up 0 80 (\<lambda>j v. arr_set v (1920 + j) 0) v = Inr (overwrite 1920 (replicate 80 (0 :: u16)) v)"
proof -
  have "ok (for_up 0 80 (\<lambda>j v. arr_set v (1920 + j) 0) v) (\<lambda>w. w = overwrite 1920 (replicate 80 (0 :: u16)) v)"
  proof (rule for_up_rule [where I = "\<lambda>j w. w = overwrite 1920 (replicate j 0) v"], goal_cases)
    case (3 j w)
    then have "w[1920 + j := 0] = overwrite 1920 (replicate (Suc j) 0) v" "length w = 2048"
      using overwrite_snoc [of 1920 "replicate j 0" v 0] assms by (simp_all add: replicate_append_same)
    with 3 show ?case by (simp add: run_simps)
  qed (simp_all add: overwrite_def)
  then show ?thesis by (auto simp: ok_iff)
qed

lemma page_up_law:
  assumes "length (m_video_ram c) = 2048"
  shows "page_up c = Inr (c\<lparr>m_video_ram := take 1920 (drop 80 (m_video_ram c)) @ replicate 80 0 @ drop 2000 (m_video_ram c)\<rparr>)"
  using rows_up_law [OF assms] clear_last_row_law [of "take 1920 (drop 80 (m_video_ram c)) @ drop 1920 (m_video_ram c)"] assms
  by (simp add: page_up_def VGA_WIDTH_def VGA_HEIGHT_def overwrite_def)

lemma insert_character_law:
  assumes "console_wf c" "m_vPosition c < 25 \<or> m_hPosition c < 3"
  shows "insert_character ch c = Inr (c\<lparr>m_video_ram := (m_video_ram c)[position c := vga_entry ch (m_charColor c)],
     m_hPosition := (m_hPosition c + 1) mod 80, m_vPosition := m_vPosition c + of_bool (m_hPosition c = 79)\<rparr>)"
proof -
  have "(m_hPosition c + 1) mod 80 = 0 \<longleftrightarrow> m_hPosition c = 79" using assms(1) by (auto simp: console_wf_def mod_Suc)
  then show ?thesis using put_cell_law [of c] position_bound [OF assms(1)] assms(1)
    by (simp add: insert_character_def VGA_WIDTH_def console_wf_def Let_def)
qed

lemma back_loop_law:
  "h + v * 80 < length ram \<Longrightarrow> h < 80 \<Longrightarrow> \<exists>h' v'. back_loop ram h v = Inr (h', v') \<and> h' < 80 \<and> v' \<le> v \<and> (v' = v \<longrightarrow> h' \<le> h)"
proof (induction ram h v rule: back_loop.induct)
  case (1 ram h v)
  show ?case
  proof (cases "h > 0")
    case True
    then show ?thesis using 1 by (subst back_loop.simps) (fastforce simp: arr_get_def VGA_WIDTH_def)
  next
    case False
    then show ?thesis using 1 by (subst back_loop.simps) (fastforce simp: arr_get_def VGA_WIDTH_def)
  qed
qed


lemma insert_character_wf:
  assumes "console_wf c" "m_vPosition c < 25 \<or> m_hPosition c < 3"
  shows "ok (insert_character ch c) console_wf"
  using insert_character_law [OF assms] assms by (auto simp: console_wf_def ok_iff)

text \<open>A tab: four characters from a visible row, at most three of them behind the last row.\<close>

lemma tab_wf:
  assumes "console_wf c" "m_vPosition c < 25"
  shows "ok (for_up 0 4 (\<lambda>_. insert_character 32) c) console_wf"
proof (rule ok_mono)
  show "ok (for_up 0 4 (\<lambda>_. insert_character 32) c) (\<lambda>c'. console_wf c' \<and> (m_vPosition c' < 25 \<or> m_hPosition c' < 4))"
  proof (rule for_up_rule [where I = "\<lambda>i c'. console_wf c' \<and> (m_vPosition c' < 25 \<or> m_hPosition c' < i)"], goal_cases)
    case (3 i c')
    then have w: "console_wf c'" "m_vPosition c' < 25 \<or> m_hPosition c' < 3" by auto
    show ?case using insert_character_law [OF w, of 32] w 3 by (auto simp: console_wf_def ok_iff mod_Suc)
  qed (use assms in auto)
qed auto

lemma put_char_wf:
  assumes "console_wf c"
  shows "ok (put_char ch c) console_wf"
proof -
  have len: "length (m_video_ram c) = 2048" using assms by (simp add: console_wf_def)
  obtain c1 where c1: "(if m_vPosition c = VGA_HEIGHT then bindr (page_up c) (\<lambda>c1. Inr (c1\<lparr>m_vPosition := m_vPosition c1 - 1\<rparr>)) else Inr c) = Inr c1"
      "console_wf c1" "m_vPosition c1 < 25"
    using page_up_law [OF len] assms by (auto simp: VGA_HEIGHT_def console_wf_def)
  have p1: "position c1 < length (m_video_ram c1)" using position_bound [OF c1(2)] c1(2) by (simp add: console_wf_def)
  have put: "put_cell 0 c1 = Inr (c1\<lparr>m_video_ram := (m_video_ram c1)[position c1 := 0]\<rparr>)" by (rule put_cell_law [OF p1])
  have "ok (insert_new_line c1) console_wf" using put c1(2,3) by (auto simp: insert_new_line_def console_wf_def run_simps VGA_WIDTH_def)
  moreover have "ok (insert_back_space c1) console_wf"
  proof -
    let ?ram = "(m_video_ram c1)[position c1 := 0]"
    have "m_hPosition c1 + m_vPosition c1 * 80 < length ?ram" "m_hPosition c1 < 80" using p1 c1(2) by (auto simp: position_def VGA_WIDTH_def console_wf_def)
    from back_loop_law [OF this] obtain h v where hv: "back_loop ?ram (m_hPosition c1) (m_vPosition c1) = Inr (h, v)" "h < 80" "v \<le> m_vPosition c1" by blast
    let ?c2 = "c1\<lparr>m_video_ram := ?ram, m_hPosition := h, m_vPosition := v\<rparr>"
    have "console_wf ?c2" using c1(2,3) hv by (auto simp: console_wf_def)
    then have "put_cell 0 ?c2 = Inr (?c2\<lparr>m_video_ram := ?ram[position ?c2 := 0]\<rparr>)"
      using position_bound [of ?c2] put_cell_law [of ?c2 0] by (simp add: console_wf_def)
    then show ?thesis using put hv(1) \<open>console_wf ?c2\<close> c1(2) by (auto simp: insert_back_space_def run_simps console_wf_def VGA_WIDTH_def)
  qed
  moreover have "ok (for_up 0 4 (\<lambda>_. insert_character 32) c1) console_wf" by (rule tab_wf [OF c1(2,3)])
  moreover have "ok (insert_character ch c1) console_wf" by (rule insert_character_wf) (use c1(2,3) in simp_all)
  ultimately have step: "ok (if ch = 10 then insert_new_line c1 else if ch = 8 then insert_back_space c1
      else if ch = 9 then for_up 0 4 (\<lambda>_. insert_character 32) c1 else insert_character ch c1) console_wf" by simp
  have "ok (update_cursor c2) console_wf" if "console_wf c2" for c2
    using put_cell_law [of c2] position_bound [OF that] that by (auto simp: update_cursor_def console_wf_def ok_iff)
  then show ?thesis using c1(1) step by (simp add: put_char_def) (auto simp: run_simps elim!: ok_mono)
qed


definition plain :: "u8 \<Rightarrow> bool" where
  "plain ch = (ch \<noteq> 8 \<and> ch \<noteq> 9 \<and> ch \<noteq> 10)"

definition cursor :: u16 where "cursor = vga_entry 0 (vga_entry_color 0 15)"

lemma put_plain_law:
  assumes "console_wf c" "m_vPosition c < 25" "position c + 1 < 2000" "plain ch"
  shows "\<exists>c'. put_char ch c = Inr c' \<and> m_video_ram c' = (m_video_ram c)[position c := vga_entry ch (m_charColor c), position c + 1 := cursor] \<and>
     position c' = position c + 1 \<and> m_charColor c' = m_charColor c \<and> m_vPosition c' < 25"
proof -
  let ?c1 = "c\<lparr>m_video_ram := (m_video_ram c)[position c := vga_entry ch (m_charColor c)],
     m_hPosition := (m_hPosition c + 1) mod 80, m_vPosition := m_vPosition c + of_bool (m_hPosition c = 79)\<rparr>"
  have i: "insert_character ch c = Inr ?c1" by (rule insert_character_law) (use assms(1,2) in simp_all)
  have h: "m_hPosition c < 80" using assms(1) by (simp add: console_wf_def)
  then have "(m_hPosition c + 1) mod 80 = (if m_hPosition c = 79 then 0 else m_hPosition c + 1)" by (simp add: mod_Suc)
  then have p: "position ?c1 = position c + 1" using h by (simp add: position_def VGA_WIDTH_def)
  have v: "m_vPosition ?c1 < 25" using p assms(3) by (simp add: position_def VGA_WIDTH_def)
  have "update_cursor ?c1 = Inr (?c1\<lparr>m_video_ram := (m_video_ram ?c1)[position c + 1 := cursor]\<rparr>)"
    using put_cell_law [of ?c1] p assms(1,3) by (simp add: update_cursor_def cursor_def console_wf_def)
  moreover have "put_char ch c = bindr (insert_character ch c) update_cursor"
    using assms(2,4) by (simp add: put_char_def plain_def VGA_HEIGHT_def)
  ultimately have "put_char ch c = Inr (?c1\<lparr>m_video_ram := (m_video_ram ?c1)[position c + 1 := cursor]\<rparr>)" using i by simp
  then show ?thesis using p v by (intro exI [of _ "?c1\<lparr>m_video_ram := (m_video_ram ?c1)[position c + 1 := cursor]\<rparr>"]) (simp add: position_def)
qed

lemma overwrite_last: "o' + length cs < length st \<Longrightarrow> (overwrite o' (cs @ [y]) st)[o' + length cs := x] = overwrite o' (cs @ [x]) st"
  by (simp add: overwrite_def list_update_append)

section \<open>Properties\<close>

text \<open>
  The keyboard is a queue of the last 1024 keys: every sequence of scan codes of the keys in the
  table, codes of released keys, and reads gives exactly the characters of the keys in order, the
  upper one of the pair after a press of the shift key, and drops the oldest ones when full.
\<close>

theorem keyboard_queue_refinement:
  assumes "\<forall>op\<in>set ops. kb_op_ok op"
  shows "\<exists>rs k s. run_stream kb_step ops keyboard_new = Inr (rs, k) \<and> run_stream (\<lambda>op s. Inr (kb_spec op s)) ops (False, []) = Inr (rs, s) \<and> kb_holds k s"
proof -
  have "kb_holds keyboard_new (False, [])"
    using cb_new_rep [of 1024] by (simp add: keyboard_new_def kb_holds_def holds_def) (simp add: cb_new_def cb_capacity_def)
  from run_stream_refines [of kb_holds kb_op_ok kb_step kb_spec, OF kb_step_law this assms] show ?thesis .
qed

theorem keyboard_queue_refinement_witness:
  "\<exists>k. run_stream kb_step [Stroke 0x1E, Stroke 0x9E, Stroke 0x2A, Stroke 0x1E, Keys 5] keyboard_new = Inr ([Waits, Waits, Waits, Waits, Got [97, 65]], k)"
  using keyboard_queue_refinement [of "[Stroke 0x1E, Stroke 0x9E, Stroke 0x2A, Stroke 0x1E, Keys 5]"]
  by (auto simp: kb_op_ok_def kb_spec_def SHIFT_KEY_def asccode_def)

text \<open>
  The release of the shift key is never seen: its code is compared as a signed \<open>char\<close> with an
  \<open>unsigned char\<close>. Once shift was pressed no scan code takes it back.
\<close>

theorem keyboard_shift_sticks:
  assumes "run_fold enqueue_keystoke (SHIFT_KEY # codes) k = Inr k'"
  shows "kb_shift k'"
proof -
  have step: "kb_shift k2" if "enqueue_keystoke d k1 = Inr k2" "kb_shift k1 \<or> d = SHIFT_KEY" for d k1 k2
    using that by (auto simp: enqueue_keystoke_def shift_codes split: if_splits elim!: bindr_InrE)
  have "kb_shift k2" if "run_fold enqueue_keystoke ds k1 = Inr k2" "kb_shift k1" for ds k1 k2
    using that by (induction ds arbitrary: k1) (auto elim!: bindr_InrE dest: step)
  then show ?thesis using assms step by (auto elim!: bindr_InrE)
qed

theorem keyboard_shift_sticks_witness:
  "run_fold enqueue_keystoke [SHIFT_KEY, key_released SHIFT_KEY] keyboard_new = Inr (keyboard_new\<lparr>kb_shift := True\<rparr>) \<and> kb_shift (keyboard_new\<lparr>kb_shift := True\<rparr>)"
proof -
  have "run_fold enqueue_keystoke (SHIFT_KEY # [key_released SHIFT_KEY]) keyboard_new = Inr (keyboard_new\<lparr>kb_shift := True\<rparr>)"
    by (simp add: enqueue_keystoke_def shift_codes high_bit) (simp add: key_released_def SHIFT_KEY_def)
  from keyboard_shift_sticks [OF this] this show ?thesis by simp
qed

text \<open>The scan code of a key behind the table, such as F1, reads behind the table.\<close>

theorem keyboard_code_overruns:
  assumes "kb_holds k s" "58 \<le> d" "d < 0x80"
  shows "enqueue_keystoke d k = Inl BadAccess"
proof -
  obtain xs where h: "holds (kb_buffer k) xs" using assms(1) by (cases s) (auto simp: kb_holds_def)
  have "\<exists>q. (if cb_is_full (kb_buffer k) then bindr (cb_dequeue (kb_buffer k)) (\<lambda>(_, q). Inr q) else Inr (kb_buffer k)) = Inr q"
    using h holds_state [OF h] cbq.deq_law [of "kb_buffer k" "hd xs" "tl xs"] by (cases xs) (auto simp: holds_def ok_iff)
  moreover have "arr_get asccode (unat d) = Inl BadAccess" using assms(2) by (simp add: arr_get_def asccode_def word_le_nat_alt)
  moreover have "d \<noteq> SHIFT_KEY" using assms(2) by (auto simp: SHIFT_KEY_def)
  ultimately show ?thesis using assms(3) by (auto simp: enqueue_keystoke_def shift_codes high_bit)
qed

theorem keyboard_code_overruns_witness: "enqueue_keystoke 0x3B keyboard_new = Inl BadAccess"
proof -
  have "kb_holds keyboard_new (False, [])"
    using cb_new_rep [of 1024] by (simp add: keyboard_new_def kb_holds_def holds_def) (simp add: cb_new_def cb_capacity_def)
  then show ?thesis by (rule keyboard_code_overruns) simp_all
qed

text \<open>
  The console stays inside the page it maps: from a console in order every write of any bytes,
  control characters included, returns its size and leaves the console in order, with the position
  in the visible rows or, until the next character, at the start of the row behind them.
\<close>

theorem console_write_safe:
  assumes "console_wf c" "views buff cs"
  shows "ok (console_write buff c) (\<lambda>(r, c'). r = Result (length cs) \<and> console_wf c')"
proof -
  have size: "bv_size buff = length cs" using assms(2) by (simp add: views_def)
  have "ok (for_up 0 (bv_size buff) (\<lambda>i c. bindr (bv_index buff i) (\<lambda>ch. put_char ch c)) c) console_wf"
  proof (rule for_up_rule [where I = "\<lambda>_. console_wf"], goal_cases)
    case (3 i c')
    then show ?case using views_rd [OF assms(2), of i] put_char_wf [of c'] by (simp add: bv_index_def size)
  qed (use assms(1) in simp_all)
  then show ?thesis by (auto simp: console_write_def size ok_iff)
qed

theorem console_write_safe_witness:
  "ok (console_write (send_view [72, 9, 8, 10, 105]) \<lparr>m_video_ram = replicate 2048 0, m_vPosition = 24, m_hPosition = 78, m_charColor = 15\<rparr>)
     (\<lambda>(r, c'). r = Result 5 \<and> console_wf c')"
proof -
  have "views (send_view [72, 9, 8, 10, 105]) [72, 9, 8, 10, 105]" unfolding send_view_def by (rule views_literal) simp_all
  note console_write_safe [OF _ this, of "\<lparr>m_video_ram = replicate 2048 0, m_vPosition = 24, m_hPosition = 78, m_charColor = 15\<rparr>"]
  moreover have "length [72, 9, 8, 10, 105 :: u8] = 5" by simp
  moreover have "console_wf \<lparr>m_video_ram = replicate 2048 0, m_vPosition = 24, m_hPosition = 78, m_charColor = 15\<rparr>" by (simp add: console_wf_def)
  ultimately show ?thesis by (simp only:)
qed

text \<open>
  Text without control characters that fits on the screen appears where the cursor was, in the
  current colour and with the cursor behind it; no other cell changes.
\<close>

theorem console_shows_text:
  assumes "console_wf c" "m_vPosition c < 25" "views buff cs" "\<forall>ch\<in>set cs. plain ch" "cs \<noteq> []" "position c + length cs < 2000"
  shows "\<exists>c'. console_write buff c = Inr (Result (length cs), c') \<and> position c' = position c + length cs \<and>
     m_video_ram c' = overwrite (position c) (map (\<lambda>ch. vga_entry ch (m_charColor c)) cs @ [cursor]) (m_video_ram c)"
proof -
  let ?p = "position c" and ?e = "\<lambda>ch. vga_entry ch (m_charColor c)" and ?ram = "m_video_ram c"
  have size: "bv_size buff = length cs" and len: "length ?ram = 2048" using assms(1,3) by (simp_all add: views_def console_wf_def)
  let ?I = "\<lambda>i c'. position c' = ?p + i \<and> m_charColor c' = m_charColor c \<and> m_vPosition c' < 25 \<and> console_wf c' \<and>
     (m_video_ram c' = (if i = 0 then ?ram else overwrite ?p (map ?e (take i cs) @ [cursor]) ?ram))"
  have "ok (for_up 0 (length cs) (\<lambda>i c. bindr (bv_index buff i) (\<lambda>ch. put_char ch c)) c) (?I (length cs))"
  proof (rule for_up_rule [where I = ?I], goal_cases)
    case (3 i c')
    have ch: "bv_index buff i = Inr (cs ! i)" "plain (cs ! i)" using views_rd [OF assms(3), of i] assms(4) 3 by (simp_all add: bv_index_def)
    obtain c2 where c2: "put_char (cs ! i) c' = Inr c2" "m_video_ram c2 = (m_video_ram c')[?p + i := ?e (cs ! i), ?p + i + 1 := cursor]"
        "position c2 = ?p + i + 1" "m_charColor c2 = m_charColor c" "m_vPosition c2 < 25"
      using put_plain_law [of c' "cs ! i"] 3 ch(2) assms(6) by auto
    have "(m_video_ram c')[?p + i := ?e (cs ! i)] = overwrite ?p (map ?e (take (Suc i) cs)) ?ram"
    proof (cases "i = 0")
      case True
      then show ?thesis using 3 overwrite_snoc [of ?p "[]" ?ram "?e (cs ! 0)"] len assms(6) by (simp add: take_Suc_conv_app_nth overwrite_def)
    next
      case False
      then show ?thesis using 3 overwrite_last [of ?p "map ?e (take i cs)" ?ram cursor "?e (cs ! i)"] len assms(6)
        by (simp add: take_Suc_conv_app_nth)
    qed
    then have "m_video_ram c2 = overwrite ?p (map ?e (take (Suc i) cs) @ [cursor]) ?ram"
      using c2(2) overwrite_snoc [of ?p "map ?e (take (Suc i) cs)" ?ram cursor] 3 len assms(6) by simp
    moreover have "console_wf c2" using put_char_wf [of c' "cs ! i"] 3 c2(1) by (simp add: run_simps)
    ultimately show ?case using ch(1) c2 by (simp add: run_simps)
  qed (use assms in simp_all)
  then show ?thesis using assms(5) by (auto simp: console_write_def size ok_iff)
qed

theorem console_shows_text_witness:
  "\<exists>c'. console_write (send_view [72, 105]) \<lparr>m_video_ram = replicate 2048 0, m_vPosition = 0, m_hPosition = 79, m_charColor = 15\<rparr> = Inr (Result 2, c') \<and>
     position c' = 81 \<and> m_video_ram c' ! 79 = vga_entry 72 15 \<and> m_video_ram c' ! 80 = vga_entry 105 15"
proof -
  let ?c = "\<lparr>m_video_ram = replicate 2048 0, m_vPosition = 0, m_hPosition = 79, m_charColor = 15\<rparr>"
  have v: "views (send_view [72, 105]) [72, 105]" unfolding send_view_def by (rule views_literal) simp_all
  have p: "position ?c = 79" by (simp add: position_def)
  obtain c' where c: "console_write (send_view [72, 105]) ?c = Inr (Result (length [72, 105 :: u8]), c')" "position c' = position ?c + length [72, 105 :: u8]"
      "m_video_ram c' = overwrite (position ?c) (map (\<lambda>ch. vga_entry ch (m_charColor ?c)) [72, 105] @ [cursor]) (m_video_ram ?c)"
    using console_shows_text [OF _ _ v, of ?c] p by (auto simp: console_wf_def plain_def)
  have "m_video_ram c' ! 79 = vga_entry 72 15" "m_video_ram c' ! 80 = vga_entry 105 15" unfolding c(3) p by (simp_all add: overwrite_def nth_append)
  then show ?thesis using c(1,2) p by (intro exI [of _ c']) simp
qed

end
