(* ===== verification/File_System.thy ===== *)
theory File_System
  imports Terminal Paths
begin

text \<open>
  Nodes (fsnode.h, inode.cpp, pipe_fs.cpp, domain_socket.cpp, domain_socket_fs.cpp, device_fs.cpp) and
  the virtual file system (virtual_filesystem.cpp). The nodes live at addresses, here their positions
  in the list of all nodes; a node has the members of \<open>FSNode\<close> and its class with the members of the
  class. \<open>TarFS\<close> is an \<open>INode\<close> whose overrides do the same. A call of a virtual function is a case
  distinction over the class; a class without an override has the default of fsnode.h.
\<close>

section \<open>Nodes\<close>

datatype node_class =
    INode cptr "nat list"
  | PipeFS "nat list"
  | Pipe pipe
  | DomainSocketFS "nat list"
  | DomainSocket "(bool \<times> nat option) list" "nat list"
  | Connection connection
  | DeviceFS "nat list"
  | Keyboard keyboard
  | Console console
  | PlainNode

record fsnode =
  fn_name :: string_obj
  fn_permission :: int
  fn_owner :: int
  fn_type :: node_type
  fn_size :: size_t
  fn_class :: node_class

record vfs =
  v_nodes :: "fsnode list"
  fs_roots :: "nat list"

definition fsnode_new :: "string_view \<Rightarrow> node_type \<Rightarrow> size_t \<Rightarrow> node_class \<Rightarrow> fsnode run" where
  "fsnode_new name type n c = bindr (str_from_view name) (\<lambda>s.
     Inr \<lparr>fn_name = s, fn_permission = 0, fn_owner = 0, fn_type = type, fn_size = n, fn_class = c\<rparr>)"

definition inode_new :: "string_view \<Rightarrow> node_type \<Rightarrow> size_t \<Rightarrow> cptr \<Rightarrow> fsnode run" where
  "inode_new name type n data = fsnode_new name type n (INode data [])"

definition pipe_node :: "string_view \<Rightarrow> fsnode run" where
  "pipe_node name = fsnode_new name PipeNode BUFFER_SIZE (Pipe pipe_new)"

definition pipefs_new :: "string_view \<Rightarrow> fsnode run" where
  "pipefs_new name = fsnode_new name Root 0 (PipeFS [])"

definition domain_socket_new :: "string_view \<Rightarrow> fsnode run" where
  "domain_socket_new name = fsnode_new name DomainSocketNode 0 (DomainSocket [] [])"

definition domain_socketfs_new :: "string_view \<Rightarrow> fsnode run" where
  "domain_socketfs_new name = fsnode_new name Root 0 (DomainSocketFS [])"

definition connection_node :: "string_view \<Rightarrow> fsnode run" where
  "connection_node name = fsnode_new name ConnectionNode 0 (Connection connection_new)"

definition devicefs_new :: "string_view \<Rightarrow> fsnode run" where
  "devicefs_new name = fsnode_new name Root 0 (DeviceFS [])"

definition keyboard_node :: "string_view \<Rightarrow> fsnode run" where
  "keyboard_node name = fsnode_new name Device 1024 (Keyboard keyboard_new)"

definition console_node :: "string_view \<Rightarrow> u16 list \<Rightarrow> fsnode run" where
  "console_node name ram = bindr (initiate_console ram) (\<lambda>c. fsnode_new name Root 0 (Console c))"

definition node_at :: "vfs \<Rightarrow> nat \<Rightarrow> fsnode run" where
  "node_at v i = arr_get (v_nodes v) i"

definition set_class :: "nat \<Rightarrow> node_class \<Rightarrow> vfs \<Rightarrow> vfs" where
  "set_class i c v = v\<lparr>v_nodes := (v_nodes v)[i := (v_nodes v ! i)\<lparr>fn_class := c\<rparr>]\<rparr>"

definition add_node :: "fsnode \<Rightarrow> vfs \<Rightarrow> nat \<times> vfs" where
  "add_node n v = (length (v_nodes v), v\<lparr>v_nodes := v_nodes v @ [n]\<rparr>)"

section \<open>Directories\<close>

text \<open>The loop over the children that compares their names.\<close>

fun find_child :: "vfs \<Rightarrow> nat list \<Rightarrow> string_view \<Rightarrow> nat option run" where
  "find_child v [] name = Inr None"
| "find_child v (i # is) name = bindr (node_at v i) (\<lambda>n. bindr (str_eq_view (fn_name n) name) (\<lambda>b.
     if b then Inr (Some i) else find_child v is name))"

definition found_or :: "error_code \<Rightarrow> nat option \<Rightarrow> nat result" where
  "found_or e r = (case r of None \<Rightarrow> ResultError e | Some i \<Rightarrow> Result i)"

definition inode_dir_lookup :: "vfs \<Rightarrow> nat list \<Rightarrow> string_view \<Rightarrow> nat result run" where
  "inode_dir_lookup v cs name = bindr (find_child v cs name) (\<lambda>r. Inr (found_or ERROR_FILE_DOES_NOT_EXIST r))"

definition pipefs_dir_lookup :: "vfs \<Rightarrow> nat list \<Rightarrow> string_view \<Rightarrow> nat result run" where
  "pipefs_dir_lookup v cs name = bindr (find_child v cs name) (\<lambda>r. Inr (found_or ERROR_FILE_DOES_NOT_EXIST r))"

definition domain_socketfs_dir_lookup :: "vfs \<Rightarrow> nat list \<Rightarrow> string_view \<Rightarrow> nat result run" where
  "domain_socketfs_dir_lookup v cs name = bindr (find_child v cs name) (\<lambda>r. Inr (found_or ERROR_FILE_DOES_NOT_EXIST r))"

definition devicefs_dir_lookup :: "vfs \<Rightarrow> nat list \<Rightarrow> string_view \<Rightarrow> nat result run" where
  "devicefs_dir_lookup v cs name = bindr (find_child v cs name) (\<lambda>r. Inr (found_or ERROR_DEVICE_DOESNOT_EXIST r))"

definition dir_lookup :: "vfs \<Rightarrow> nat \<Rightarrow> string_view \<Rightarrow> nat result run" where
  "dir_lookup v i name = bindr (node_at v i) (\<lambda>n. case fn_class n of
     INode _ cs \<Rightarrow> inode_dir_lookup v cs name
   | PipeFS cs \<Rightarrow> pipefs_dir_lookup v cs name
   | DomainSocketFS cs \<Rightarrow> domain_socketfs_dir_lookup v cs name
   | DeviceFS cs \<Rightarrow> devicefs_dir_lookup v cs name
   | _ \<Rightarrow> Inr (ResultError ERROR_INVALID_OPERATION))"

text \<open>The iterator moved index times from the first child.\<close>

definition children_query :: "nat list \<Rightarrow> size_t \<Rightarrow> nat result run" where
  "children_query cs index = (if index \<ge> length cs then Inr (ResultError ERROR_INVALID_PARAMETER)
     else bindr (arr_get cs index) (\<lambda>i. Inr (Result i)))"

definition node_dir_query :: "vfs \<Rightarrow> nat \<Rightarrow> size_t \<Rightarrow> nat result run" where
  "node_dir_query v i index = bindr (node_at v i) (\<lambda>n. case fn_class n of
     INode _ cs \<Rightarrow> children_query cs index
   | PipeFS cs \<Rightarrow> children_query cs index
   | DeviceFS _ \<Rightarrow> Inr (ResultError ERROR_INVALID_OPERATION)
   | _ \<Rightarrow> Inr (ResultError ERROR_INVALID_OPERATION))"

definition pipefs_create :: "vfs \<Rightarrow> nat \<Rightarrow> nat list \<Rightarrow> string_view \<Rightarrow> (nat result \<times> vfs) run" where
  "pipefs_create v i cs name = bindr (pipe_node name) (\<lambda>n. let (j, v1) = add_node n v in
     Inr (Result j, set_class i (PipeFS (cs @ [j])) v1))"

definition domain_socketfs_create :: "vfs \<Rightarrow> nat \<Rightarrow> nat list \<Rightarrow> string_view \<Rightarrow> (nat result \<times> vfs) run" where
  "domain_socketfs_create v i cs name = bindr (find_child v cs name) (\<lambda>r.
     if r \<noteq> None then Inr (ResultError ERROR_FILE_ALREADY_EXISTS, v)
     else bindr (domain_socket_new name) (\<lambda>n. let (j, v1) = add_node n v in
       Inr (Result j, set_class i (DomainSocketFS (cs @ [j])) v1)))"

definition node_create :: "vfs \<Rightarrow> nat \<Rightarrow> string_view \<Rightarrow> open_mode \<Rightarrow> open_flags \<Rightarrow> (nat result \<times> vfs) run" where
  "node_create v i name mode flags = bindr (node_at v i) (\<lambda>n. case fn_class n of
     PipeFS cs \<Rightarrow> pipefs_create v i cs name
   | DomainSocketFS cs \<Rightarrow> domain_socketfs_create v i cs name
   | _ \<Rightarrow> Inr (ResultError ERROR_INVALID_OPERATION, v))"

text \<open>The comparison is the one of two strings.\<close>

fun device_exists :: "vfs \<Rightarrow> nat list \<Rightarrow> string_obj \<Rightarrow> bool run" where
  "device_exists v [] name = Inr False"
| "device_exists v (i # is) name = bindr (node_at v i) (\<lambda>n. bindr (str_eq (fn_name n) name) (\<lambda>b. if b then Inr True else device_exists v is name))"

definition add_device :: "vfs \<Rightarrow> nat \<Rightarrow> nat list \<Rightarrow> fsnode \<Rightarrow> (unit result \<times> vfs) run" where
  "add_device v i cs device = bindr (device_exists v cs (fn_name device)) (\<lambda>b.
     if b then Inr (ResultError ERROR_DEVICE_ALREADY_EXISTS, v)
     else let (j, v1) = add_node device v in Inr (ResultError 0, set_class i (DeviceFS (cs @ [j])) v1))"

definition remove_device :: "string_view \<Rightarrow> unit result" where
  "remove_device name = ResultError ERROR_INVALID_OPERATION"

text \<open>\<open>None\<close> while no connection is pending.\<close>

definition domain_socket_accept :: "vfs \<Rightarrow> nat \<Rightarrow> (bool \<times> nat option) list \<Rightarrow> nat list \<Rightarrow> (nat result option \<times> vfs) run" where
  "domain_socket_accept v i pending cs =
     (if pending = [] then Inr (None, v)
      else bindr (connection_node empty_view) (\<lambda>n. let (j, v1) = add_node n v;
          p1 = pending[0 := (True, snd (pending ! 0))]; p2 = p1[length pending - 1 := (fst (last p1), Some j)] in
        Inr (Some (Result j), set_class i (DomainSocket p2 (cs @ [j])) v1)))"

section \<open>Opening, closing, reading and writing\<close>

definition node_open :: "open_mode \<Rightarrow> nat \<Rightarrow> vfs \<Rightarrow> (unit result \<times> vfs) run" where
  "node_open mode i v = bindr (node_at v i) (\<lambda>n. case fn_class n of
     Pipe p \<Rightarrow> (let (r, p1) = pipe_open mode p in Inr (r, set_class i (Pipe p1) v))
   | INode _ _ \<Rightarrow> Inr (ResultError 0, v)
   | DomainSocket _ _ \<Rightarrow> Inr (ResultError 0, v)
   | Connection _ \<Rightarrow> Inr (ResultError 0, v)
   | Keyboard _ \<Rightarrow> Inr (ResultError 0, v)
   | Console _ \<Rightarrow> Inr (ResultError 0, v)
   | _ \<Rightarrow> Inr (ResultError ERROR_INVALID_OPERATION, v))"

definition node_close :: "open_mode \<Rightarrow> nat \<Rightarrow> vfs \<Rightarrow> (unit result \<times> vfs) run" where
  "node_close mode i v = bindr (node_at v i) (\<lambda>n. case fn_class n of
     Pipe p \<Rightarrow> bindr (pipe_close mode p) (\<lambda>(r, p1). Inr (r, set_class i (Pipe p1) v))
   | INode _ _ \<Rightarrow> Inr (ResultError 0, v)
   | DomainSocket _ _ \<Rightarrow> Inr (ResultError 0, v)
   | Connection _ \<Rightarrow> Inr (ResultError 0, v)
   | Keyboard _ \<Rightarrow> Inr (ResultError 0, v)
   | Console _ \<Rightarrow> Inr (ResultError 0, v)
   | _ \<Rightarrow> Inr (ResultError ERROR_INVALID_OPERATION, v))"

text \<open>\<open>fill_from\<close> takes the offset as the position in the destination.\<close>

definition inode_read :: "fsnode \<Rightarrow> cptr \<Rightarrow> buffer_view \<Rightarrow> size_t \<Rightarrow> (size_t result \<times> buffer_view) run" where
  "inode_read n data dest off = (let size_to_read = min (bv_size dest) (sz_sub (fn_size n) off) in
     bindr (mv_fill_from dest data off size_to_read) (\<lambda>d.
     Inr (Result size_to_read, dest\<lparr>bv_data := (d, snd (bv_data dest))\<rparr>)))"

definition node_read :: "open_mode \<Rightarrow> nat \<Rightarrow> buffer_view \<Rightarrow> size_t \<Rightarrow> vfs \<Rightarrow> ((size_t result \<times> buffer_view) option \<times> vfs) run" where
  "node_read mode i dest off v = bindr (node_at v i) (\<lambda>n. case fn_class n of
     INode data _ \<Rightarrow> bindr (inode_read n data dest off) (\<lambda>r. Inr (Some r, v))
   | Pipe p \<Rightarrow> bindr (pipe_read dest p) (\<lambda>(r, p1). Inr (r, set_class i (Pipe p1) v))
   | Connection c \<Rightarrow> bindr (connection_read mode dest c) (\<lambda>(r, c1). Inr (r, set_class i (Connection c1) v))
   | Keyboard k \<Rightarrow> bindr (keyboard_read dest k) (\<lambda>(r, k1). Inr (r, set_class i (Keyboard k1) v))
   | _ \<Rightarrow> Inr (Some (ResultError ERROR_INVALID_OPERATION, dest), v))"

definition node_write :: "open_mode \<Rightarrow> nat \<Rightarrow> buffer_view \<Rightarrow> size_t \<Rightarrow> vfs \<Rightarrow> (size_t result option \<times> vfs) run" where
  "node_write mode i src off v = bindr (node_at v i) (\<lambda>n. case fn_class n of
     Pipe p \<Rightarrow> bindr (pipe_write src p) (\<lambda>(r, p1). Inr (r, set_class i (Pipe p1) v))
   | Connection c \<Rightarrow> bindr (connection_write mode src c) (\<lambda>(r, c1). Inr (r, set_class i (Connection c1) v))
   | Console c \<Rightarrow> bindr (console_write src c) (\<lambda>(r, c1). Inr (Some r, set_class i (Console c1) v))
   | _ \<Rightarrow> Inr (Some (ResultError ERROR_INVALID_OPERATION), v))"

section \<open>\<open>VFS\<close>\<close>

definition mount :: "fsnode \<Rightarrow> vfs \<Rightarrow> (unit result \<times> vfs) run" where
  "mount new_fs_root v = bindr (device_exists v (fs_roots v) (fn_name new_fs_root)) (\<lambda>b.
     if b then Inr (ResultError ERROR_FS_ALREADY_EXISTS, v)
     else let (j, v1) = add_node new_fs_root v in Inr (ResultError 0, v1\<lparr>fs_roots := fs_roots v1 @ [j]\<rparr>))"

definition unmount :: "unit result" where
  "unmount = ResultError ERROR_INVALID_PARAMETER"

definition get_root_node :: "vfs \<Rightarrow> string_view \<Rightarrow> nat option run" where
  "get_root_node v root_name = find_child v (fs_roots v) root_name"

text \<open>The loop of \<open>traverse_node\<close> over the elements from i on.\<close>

fun traverse_loop :: "nat \<Rightarrow> vfs \<Rightarrow> path_view \<Rightarrow> nat \<Rightarrow> nat \<Rightarrow> nat result run" where
  "traverse_loop 0 v path i current = Inr (Result current)"
| "traverse_loop (Suc k) v path i current = bindr (pv_index path (int i)) (\<lambda>e. bindr (dir_lookup v current e) (\<lambda>next_node.
     if is_error next_node then Inr (ResultError (result_error next_node))
     else bindr (result_value next_node) (\<lambda>j. traverse_loop k v path (i + 1) j)))"

definition traverse_node :: "vfs \<Rightarrow> path_view \<Rightarrow> nat result run" where
  "traverse_node v path = (if pv_count path = 0 then Inr (ResultError ERROR_FILE_DOES_NOT_EXIST)
     else if length (fs_roots v) = 0 then Inr (ResultError ERROR_NO_ROOT_NODE)
     else bindr (pv_index path 0) (\<lambda>e. bindr (get_root_node v e) (\<lambda>r. case r of
       None \<Rightarrow> Inr (ResultError ERROR_FILE_DOES_NOT_EXIST)
     | Some current \<Rightarrow> traverse_loop (pv_count path - 1) v path 1 current)))"

definition open_existing_node :: "vfs \<Rightarrow> path_view \<Rightarrow> nat result run" where
  "open_existing_node v path = bindr (traverse_node v path) (\<lambda>node.
     if result_error node \<noteq> 0 then Inr (ResultError (result_error node)) else bindr (result_value node) (\<lambda>i. Inr (Result i)))"

definition create_new_node :: "vfs \<Rightarrow> path_view \<Rightarrow> open_mode \<Rightarrow> open_flags \<Rightarrow> (nat result \<times> vfs) run" where
  "create_new_node v path mode flags = bindr (pv_sub_path path 0 (-2)) (\<lambda>parent. bindr (traverse_node v parent) (\<lambda>parent_node.
     if result_error parent_node \<noteq> 0 then Inr (ResultError (result_error parent_node), v)
     else bindr (result_value parent_node) (\<lambda>i. bindr (pv_index path (to_int (sz_sub (pv_count path) 1))) (\<lambda>name.
       node_create v i name mode flags))))"

definition get_node :: "vfs \<Rightarrow> path_view \<Rightarrow> open_mode \<Rightarrow> open_flags \<Rightarrow> (nat result \<times> vfs) run" where
  "get_node v path mode flags =
     (if flags = OF_CREATE_NEW then create_new_node v path mode flags
      else if flags = OF_OPEN_EXISTING then bindr (open_existing_node v path) (\<lambda>r. Inr (r, v))
      else Inr (ResultError ERROR_INVALID_PARAMETER, v))"

definition check_exitsts :: "vfs \<Rightarrow> path_view \<Rightarrow> bool run" where
  "check_exitsts v path = bindr (get_node v path OM_READ OF_OPEN_EXISTING) (\<lambda>(node, _). Inr (\<not> is_error node))"

text \<open>The path of the process that calls is given.\<close>

definition resolve_path :: "string_obj \<Rightarrow> path_view \<Rightarrow> path_view run" where
  "resolve_path process_path path = (if pv_type path = Relative \<or> pv_type path = RelativeRecursive then
       bindr (pv_of_string process_path) (\<lambda>p. bindr (pv_sub_path p 0 (-2)) (\<lambda>dir. pv_set_absolute_path path dir))
     else Inr path)"


section \<open>Names and directories\<close>

definition name_bytes :: "string_obj \<Rightarrow> u8 list" where
  "name_bytes s = map (case_slot 0 (\<lambda>b. b)) (take (str_size s) (the (str_data s)))"

lemma name_bytes_rep: "str_rep s cs \<Longrightarrow> name_bytes s = cs"
  by (auto simp: str_rep_def name_bytes_def o_def)

definition node_name :: "vfs \<Rightarrow> nat \<Rightarrow> u8 list" where
  "node_name v i = name_bytes (fn_name (v_nodes v ! i))"

definition named :: "fsnode \<Rightarrow> bool" where
  "named n = (str_rep (fn_name n) (name_bytes (fn_name n)) \<and> 0 \<notin> set (name_bytes (fn_name n)))"

text \<open>The children of a directory, with the error for a name that is not among them.\<close>

definition directory :: "node_class \<Rightarrow> (error_code \<times> nat list) option" where
  "directory c = (case c of
     INode _ cs \<Rightarrow> Some (ERROR_FILE_DOES_NOT_EXIST, cs)
   | PipeFS cs \<Rightarrow> Some (ERROR_FILE_DOES_NOT_EXIST, cs)
   | DomainSocketFS cs \<Rightarrow> Some (ERROR_FILE_DOES_NOT_EXIST, cs)
   | DeviceFS cs \<Rightarrow> Some (ERROR_DEVICE_DOESNOT_EXIST, cs)
   | _ \<Rightarrow> None)"

definition vfs_wf :: "vfs \<Rightarrow> bool" where
  "vfs_wf v = ((\<forall>n\<in>set (v_nodes v). named n \<and> (\<forall>e cs. directory (fn_class n) = Some (e, cs) \<longrightarrow> (\<forall>i\<in>set cs. i < length (v_nodes v)))) \<and>
     (\<forall>i\<in>set (fs_roots v). i < length (v_nodes v)))"

lemma str_eq_view_law: "str_rep s xs \<Longrightarrow> sv_rep w ys \<Longrightarrow> str_eq_view s w = Inr (xs = ys)"
  using memcmp_law [of "c_str s" "xs @ [0]" "sv_data w" ys "length xs"] str_rep_reads [of s xs]
  by (auto simp: str_eq_view_def str_rep_def sv_rep_def)

lemma node_named: "vfs_wf v \<Longrightarrow> i < length (v_nodes v) \<Longrightarrow> str_rep (fn_name (v_nodes v ! i)) (node_name v i) \<and> 0 \<notin> set (node_name v i)"
  by (auto simp: vfs_wf_def named_def node_name_def dest: nth_mem)

lemma find_child_law:
  assumes "vfs_wf v" "sv_rep name x" "\<forall>i\<in>set is. i < length (v_nodes v)"
  shows "find_child v is name = Inr (List.find (\<lambda>i. node_name v i = x) is)"
  using assms(3)
proof (induction "is")
  case (Cons i "is")
  then show ?case using str_eq_view_law [OF _ assms(2), of "fn_name (v_nodes v ! i)" "node_name v i"] node_named [OF assms(1), of i]
    by (simp add: node_at_def arr_get_def)
qed simp

lemma device_exists_law:
  assumes "vfs_wf v" "named n" "\<forall>i\<in>set is. i < length (v_nodes v)"
  shows "device_exists v is (fn_name n) = Inr (\<exists>i\<in>set is. node_name v i = name_bytes (fn_name n))"
  using assms(3)
proof (induction "is")
  case (Cons i "is")
  then show ?case using str_eq_law [of "fn_name (v_nodes v ! i)" "node_name v i" "fn_name n" "name_bytes (fn_name n)"] node_named [OF assms(1), of i] assms(2)
    by (simp add: node_at_def arr_get_def named_def)
qed simp

section \<open>Walking a path\<close>

definition dir_entry :: "vfs \<Rightarrow> nat \<Rightarrow> u8 list \<Rightarrow> nat result" where
  "dir_entry v i x = (case directory (fn_class (v_nodes v ! i)) of
     None \<Rightarrow> ResultError ERROR_INVALID_OPERATION
   | Some (e, cs) \<Rightarrow> found_or e (List.find (\<lambda>j. node_name v j = x) cs))"

fun walk :: "vfs \<Rightarrow> nat \<Rightarrow> u8 list list \<Rightarrow> nat result" where
  "walk v i [] = Result i"
| "walk v i (x # xs) = (case dir_entry v i x of ResultError e \<Rightarrow> ResultError e | Result j \<Rightarrow> walk v j xs)"

definition resolve :: "vfs \<Rightarrow> u8 list list \<Rightarrow> nat result" where
  "resolve v xs = (case xs of [] \<Rightarrow> ResultError ERROR_FILE_DOES_NOT_EXIST
   | x # ys \<Rightarrow> if fs_roots v = [] then ResultError ERROR_NO_ROOT_NODE
       else case List.find (\<lambda>i. node_name v i = x) (fs_roots v) of None \<Rightarrow> ResultError ERROR_FILE_DOES_NOT_EXIST | Some i \<Rightarrow> walk v i ys)"

lemma find_member: "List.find P xs = Some i \<Longrightarrow> i \<in> set xs \<and> P i"
  by (induction xs) (auto split: if_splits)

lemma find_append_last: "\<forall>i\<in>set xs. \<not> P i \<Longrightarrow> P j \<Longrightarrow> List.find P (xs @ [j]) = Some j"
  by (induction xs) auto

lemma dir_entry_bound: "vfs_wf v \<Longrightarrow> i < length (v_nodes v) \<Longrightarrow> dir_entry v i x = Result j \<Longrightarrow> j < length (v_nodes v)"
  by (fastforce simp: dir_entry_def found_or_def vfs_wf_def split: option.splits prod.splits dest: find_member nth_mem)

lemma dir_entry_error: "dir_entry v i x = ResultError e \<Longrightarrow> e \<noteq> 0"
  by (auto simp: dir_entry_def found_or_def directory_def ERROR_INVALID_OPERATION_def ERROR_FILE_DOES_NOT_EXIST_def ERROR_DEVICE_DOESNOT_EXIST_def
      split: option.splits node_class.splits)

lemma walk_error: "walk v i xs = ResultError e \<Longrightarrow> e \<noteq> 0"
  by (induction xs arbitrary: i) (auto split: result.splits dest: dir_entry_error)

lemma resolve_error: "resolve v xs = ResultError e \<Longrightarrow> e \<noteq> 0"
  by (auto simp: resolve_def ERROR_FILE_DOES_NOT_EXIST_def ERROR_NO_ROOT_NODE_def split: list.splits if_splits option.splits dest: walk_error)

lemma dir_lookup_law:
  assumes "vfs_wf v" "i < length (v_nodes v)" "sv_rep name x"
  shows "dir_lookup v i name = Inr (dir_entry v i x)"
proof -
  have "find_child v cs name = Inr (List.find (\<lambda>j. node_name v j = x) cs)" if "directory (fn_class (v_nodes v ! i)) = Some (e, cs)" for e cs
    using find_child_law [OF assms(1,3), of cs] that assms(1,2) by (auto simp: vfs_wf_def dest!: nth_mem)
  then show ?thesis using assms(2)
    by (cases "fn_class (v_nodes v ! i)") (simp_all add: dir_lookup_def node_at_def arr_get_def dir_entry_def directory_def inode_dir_lookup_def
        pipefs_dir_lookup_def domain_socketfs_dir_lookup_def devicefs_dir_lookup_def)
qed

lemma traverse_loop_law:
  assumes "vfs_wf v" "pv_rep path cs ds" "xs = cs @ ds"
  shows "i + k = length xs \<Longrightarrow> j < length (v_nodes v) \<Longrightarrow> traverse_loop k v path i j = Inr (walk v j (drop i xs))"
proof (induction k arbitrary: i j)
  case (Suc k)
  then have i: "i < length xs" by simp
  obtain e where e: "pv_index path (int i) = Inr e" "sv_rep e (xs ! i)"
    using pv_index_law [OF assms(2), of "int i"] i assms(3) by (auto simp: ok_iff)
  have d: "dir_lookup v j e = Inr (dir_entry v j (xs ! i))" by (rule dir_lookup_law [OF assms(1) Suc.prems(2) e(2)])
  have "drop i xs = xs ! i # drop (Suc i) xs" using i by (simp add: Cons_nth_drop_Suc)
  then show ?case using Suc e(1) d dir_entry_error [of v j "xs ! i"] dir_entry_bound [OF assms(1) Suc.prems(2), of "xs ! i"]
    by (cases "dir_entry v j (xs ! i)") auto
qed (simp add: assms(3))

lemma traverse_node_law:
  assumes "vfs_wf v" "pv_rep path cs ds"
  shows "traverse_node v path = Inr (resolve v (cs @ ds))"
proof -
  let ?xs = "cs @ ds"
  have n: "pv_count path = length ?xs" using assms(2) by (simp add: pv_rep_def pv_count_def sz_add_eq)
  show ?thesis
  proof (cases ?xs)
    case Nil
    then show ?thesis using n by (simp add: traverse_node_def resolve_def)
  next
    case (Cons x ys)
    obtain e where e: "pv_index path 0 = Inr e" "sv_rep e x"
      using pv_index_law [OF assms(2), of 0] Cons by (auto simp: ok_iff simp del: append_eq_Cons_conv)
    have r: "get_root_node v e = Inr (List.find (\<lambda>i. node_name v i = x) (fs_roots v))"
      unfolding get_root_node_def by (rule find_child_law [OF assms(1) e(2)]) (use assms(1) in \<open>auto simp: vfs_wf_def\<close>)
    have "traverse_loop (length ?xs - 1) v path 1 j = Inr (walk v j ys)" if "List.find (\<lambda>i. node_name v i = x) (fs_roots v) = Some j" for j
      using traverse_loop_law [OF assms refl, of 1 "length ?xs - 1" j] find_member [OF that] assms(1) Cons by (auto simp: vfs_wf_def)
    then show ?thesis using n e(1) r Cons by (auto simp: traverse_node_def resolve_def split: option.splits simp del: append_eq_Cons_conv)
  qed
qed


section \<open>Mounting\<close>

definition roots_distinct :: "vfs \<Rightarrow> bool" where
  "roots_distinct v = distinct (map (node_name v) (fs_roots v))"

definition vfs_empty :: vfs where
  "vfs_empty = \<lparr>v_nodes = [], fs_roots = []\<rparr>"

lemma node_name_add [simp]: "i < length (v_nodes v) \<Longrightarrow> node_name (v\<lparr>v_nodes := v_nodes v @ [n], fs_roots := r\<rparr>) i = node_name v i"
  by (simp add: node_name_def nth_append)

lemma node_name_new [simp]: "node_name (v\<lparr>v_nodes := v_nodes v @ [n], fs_roots := r\<rparr>) (length (v_nodes v)) = name_bytes (fn_name n)"
  by (simp add: node_name_def)

text \<open>A new root is a directory without children.\<close>

definition fresh_root :: "fsnode \<Rightarrow> bool" where
  "fresh_root n = (named n \<and> (\<forall>e cs. directory (fn_class n) = Some (e, cs) \<longrightarrow> cs = []))"

lemma mount_law:
  assumes "vfs_wf v" "fresh_root n"
  shows "mount n v = Inr (if \<exists>i\<in>set (fs_roots v). node_name v i = name_bytes (fn_name n) then (ResultError ERROR_FS_ALREADY_EXISTS, v)
     else (ResultError 0, v\<lparr>v_nodes := v_nodes v @ [n], fs_roots := fs_roots v @ [length (v_nodes v)]\<rparr>))"
  using device_exists_law [OF assms(1), of n "fs_roots v"] assms by (auto simp: mount_def add_node_def fresh_root_def vfs_wf_def)

lemma mount_keeps:
  assumes "vfs_wf v" "roots_distinct v" "fresh_root n" "mount n v = Inr (r, v')"
  shows "vfs_wf v' \<and> roots_distinct v'"
proof (cases "\<exists>i\<in>set (fs_roots v). node_name v i = name_bytes (fn_name n)")
  case True
  then show ?thesis using mount_law [OF assms(1,3)] assms by simp
next
  case False
  let ?v = "v\<lparr>v_nodes := v_nodes v @ [n], fs_roots := fs_roots v @ [length (v_nodes v)]\<rparr>"
  have v': "v' = ?v" using mount_law [OF assms(1,3)] assms(4) False by simp
  have b: "\<forall>i\<in>set (fs_roots v). i < length (v_nodes v)" using assms(1) by (simp add: vfs_wf_def)
  then have d: "map (node_name ?v) (fs_roots v) = map (node_name v) (fs_roots v)" by simp
  have "roots_distinct ?v" unfolding roots_distinct_def using assms(2) False b by (auto simp: d roots_distinct_def simp del: distinct_map)
  moreover have "vfs_wf ?v" using assms(1,3) by (fastforce simp: vfs_wf_def fresh_root_def)
  ultimately show ?thesis by (simp add: v')
qed

section \<open>Properties\<close>

text \<open>
  (C9) Looking up a path walks it: the node found for an absolute path, or for a relative one under a
  working directory, is the one reached from the mounted root with the first name by following the
  names one directory at a time; the first name that fails gives the error of its directory, a
  node that is no directory gives \<open>ERROR_INVALID_OPERATION\<close>, and the state does not change.
\<close>

theorem vfs_lookup_walks:
  assumes "vfs_wf v" "pv_rep path cs ds"
  shows "get_node v path mode OF_OPEN_EXISTING = Inr (resolve v (cs @ ds), v) \<and>
     check_exitsts v path = Inr (\<exists>i. resolve v (cs @ ds) = Result i)"
proof -
  have "open_existing_node v path = Inr (resolve v (cs @ ds))"
    using traverse_node_law [OF assms] resolve_error [of v "cs @ ds"] by (cases "resolve v (cs @ ds)") (auto simp: open_existing_node_def)
  then show ?thesis using resolve_error [of v "cs @ ds"]
    by (cases "resolve v (cs @ ds)") (auto simp: get_node_def check_exitsts_def OF_OPEN_EXISTING_def OF_CREATE_NEW_def)
qed

definition sample_vfs :: vfs where
  "sample_vfs = \<lparr>v_nodes = [\<lparr>fn_name = \<lparr>str_size = 1, str_data = chars [116, 0]\<rparr>, fn_permission = 0, fn_owner = 0, fn_type = Root, fn_size = 0, fn_class = INode (None, 0) [1]\<rparr>,
     \<lparr>fn_name = \<lparr>str_size = 1, str_data = chars [97, 0]\<rparr>, fn_permission = 0, fn_owner = 0, fn_type = File, fn_size = 2, fn_class = INode (chars [7, 8], 0) []\<rparr>], fs_roots = [0]\<rparr>"

lemma sample_vfs_wf: "vfs_wf sample_vfs"
  by (auto simp: sample_vfs_def vfs_wf_def named_def str_rep_def name_bytes_def chars_def directory_def)

lemma sample_path: "\<exists>p. pv_new \<lparr>sv_size = 4, sv_data = (chars [47, 116, 47, 97], 0)\<rparr> = Inr p \<and> pv_rep p [[116], [97]] [] \<and> pv_type p = Absolute"
proof -
  have "path_ok [[116], [97]]" by (simp add: path_ok_def SPLITER_def)
  moreover have "sv_rep \<lparr>sv_size = 4, sv_data = (chars [47, 116, 47, 97], 0)\<rparr> (path_text True [[116], [97]])"
    using reads_whole [of "[47, 116, 47, 97]"] by (simp add: sv_rep_def path_text_def lead_def SPLITER_def chars_def)
  ultimately show ?thesis using pv_new_law [of "[[116], [97]]" _ True] by (auto simp: ok_iff)
qed

theorem vfs_lookup_walks_witness:
  "\<exists>p. pv_new \<lparr>sv_size = 4, sv_data = (chars [47, 116, 47, 97], 0)\<rparr> = Inr p \<and> get_node sample_vfs p OM_READ OF_OPEN_EXISTING = Inr (Result 1, sample_vfs)"
proof -
  obtain p where p: "pv_new \<lparr>sv_size = 4, sv_data = (chars [47, 116, 47, 97], 0)\<rparr> = Inr p" "pv_rep p [[116], [97]] []" using sample_path by blast
  have "resolve sample_vfs ([[116], [97]] @ []) = Result 1"
    by (simp add: sample_vfs_def resolve_def node_name_def name_bytes_def chars_def dir_entry_def directory_def found_or_def)
  with vfs_lookup_walks [OF sample_vfs_wf p(2), of OM_READ] p(1) show ?thesis by auto
qed

text \<open>
  Mounting: from the empty file system every sequence of mounts keeps the names of the roots
  distinct and the file system in order, and mounting a name that is taken answers
  \<open>ERROR_FS_ALREADY_EXISTS\<close> and changes nothing, while any other mount succeeds.
\<close>

theorem mounts_keep_roots_distinct:
  assumes "\<forall>n\<in>set ns. fresh_root n"
  shows "\<exists>v. run_fold (\<lambda>n v. bindr (mount n v) (\<lambda>(_, v'). Inr v')) ns vfs_empty = Inr v \<and> vfs_wf v \<and> roots_distinct v \<and>
     (\<forall>n. fresh_root n \<longrightarrow> (\<exists>r v'. mount n v = Inr (r, v') \<and>
        (if name_bytes (fn_name n) \<in> node_name v ` set (fs_roots v) then r = ResultError ERROR_FS_ALREADY_EXISTS \<and> v' = v
         else \<not> is_error r \<and> resolve v' [name_bytes (fn_name n)] = Result (length (v_nodes v)))))"
proof -
  have "\<exists>v. run_fold (\<lambda>n v. bindr (mount n v) (\<lambda>(_, v'). Inr v')) ns v0 = Inr v \<and> vfs_wf v \<and> roots_distinct v" if "vfs_wf v0" "roots_distinct v0" for v0
    using assms that
  proof (induction ns arbitrary: v0)
    case (Cons n ns)
    obtain r v1 where m: "mount n v0 = Inr (r, v1)" using mount_law [OF Cons.prems(2), of n] Cons.prems(1) by (auto split: if_splits)
    with mount_keeps [OF Cons.prems(2,3) _ m] Cons show ?case by auto
  qed auto
  from this [of vfs_empty] obtain v where v: "run_fold (\<lambda>n v. bindr (mount n v) (\<lambda>(_, v'). Inr v')) ns vfs_empty = Inr v" "vfs_wf v" "roots_distinct v"
    by (auto simp: vfs_empty_def vfs_wf_def roots_distinct_def)
  have b: "\<forall>i\<in>set (fs_roots v). i < length (v_nodes v)" using v(2) by (simp add: vfs_wf_def)
  have "\<exists>r v'. mount n v = Inr (r, v') \<and> (if name_bytes (fn_name n) \<in> node_name v ` set (fs_roots v) then r = ResultError ERROR_FS_ALREADY_EXISTS \<and> v' = v
         else \<not> is_error r \<and> resolve v' [name_bytes (fn_name n)] = Result (length (v_nodes v)))" if n: "fresh_root n" for n
  proof (cases "\<exists>i\<in>set (fs_roots v). node_name v i = name_bytes (fn_name n)")
    case True
    then show ?thesis using mount_law [OF v(2) n] by (auto intro: rev_image_eqI)
  next
    case False
    let ?v = "v\<lparr>v_nodes := v_nodes v @ [n], fs_roots := fs_roots v @ [length (v_nodes v)]\<rparr>"
    have "List.find (\<lambda>i. node_name ?v i = name_bytes (fn_name n)) (fs_roots v @ [length (v_nodes v)]) = Some (length (v_nodes v))"
      using False b by (intro find_append_last) auto
    then have "resolve ?v [name_bytes (fn_name n)] = Result (length (v_nodes v))" by (simp add: resolve_def)
    moreover have "name_bytes (fn_name n) \<notin> node_name v ` set (fs_roots v)" using False by auto
    ultimately show ?thesis using mount_law [OF v(2) n] False by simp
  qed
  then show ?thesis using v by blast
qed

theorem mounts_keep_roots_distinct_witness:
  "\<exists>n v. pipefs_new \<lparr>sv_size = 1, sv_data = (chars [112], 0)\<rparr> = Inr n \<and>
     run_fold (\<lambda>n v. bindr (mount n v) (\<lambda>(_, v'). Inr v')) [n, n] vfs_empty = Inr v \<and> vfs_wf v \<and> roots_distinct v"
proof -
  have "sv_rep \<lparr>sv_size = 1, sv_data = (chars [112], 0)\<rparr> [112]" using reads_whole [of "[112]"] by (simp add: sv_rep_def chars_def)
  from str_from_view_law [OF this] obtain n where n: "pipefs_new \<lparr>sv_size = 1, sv_data = (chars [112], 0)\<rparr> = Inr n" "str_rep (fn_name n) [112]" "fn_class n = PipeFS []"
    by (auto simp: pipefs_new_def fsnode_new_def ok_iff)
  then have "fresh_root n" using name_bytes_rep [OF n(2)] by (simp add: fresh_root_def named_def directory_def)
  then have "\<forall>m\<in>set [n, n]. fresh_root m" by simp
  from mounts_keep_roots_distinct [OF this] n(1) show ?thesis by blast
qed

text \<open>
  Creating a node by a path of two elements, such as a pipe in the pipe file system, fails the
  assertion of \<open>sub_path\<close> that the last element taken comes behind the first one: the parent of such
  a path has a single element. No other file system has nodes below which nodes can be created.
\<close>

theorem vfs_create_panics:
  assumes "pv_rep path cs ds" "length (cs @ ds) \<le> 2"
  shows "get_node v path mode OF_CREATE_NEW = Inl AssertFailed"
proof -
  let ?n = "length (cs @ ds)"
  have n: "pv_count path = ?n" "to_int ?n = int ?n" using assms by (simp_all add: pv_rep_def pv_count_def sz_add_eq to_int_def)
  have m: "of_int32 (-2) = sz_range - 2" by (simp add: of_int32_def)
  have "?n = 0 \<or> ?n = 1 \<or> ?n = 2" using assms(2) by linarith
  then have "pv_sub_path path 0 (-2) = Inl AssertFailed"
  proof (elim disjE)
    assume "?n = 2"
    moreover have "to_int (sz_add 2 (sz_range - 2)) = 0" by (simp add: sz_add_def to_int_def)
    ultimately show ?thesis by (simp add: pv_sub_path_def n m Let_def)
  qed (simp_all add: pv_sub_path_def n Let_def)
  then show ?thesis by (simp add: get_node_def create_new_node_def)
qed

theorem vfs_create_panics_witness:
  "\<exists>p. pv_new \<lparr>sv_size = 4, sv_data = (chars [47, 116, 47, 97], 0)\<rparr> = Inr p \<and> get_node sample_vfs p OM_READ OF_CREATE_NEW = Inl AssertFailed"
proof -
  obtain p where p: "pv_new \<lparr>sv_size = 4, sv_data = (chars [47, 116, 47, 97], 0)\<rparr> = Inr p" "pv_rep p [[116], [97]] []" using sample_path by blast
  from vfs_create_panics [OF p(2), of sample_vfs OM_READ] p(1) show ?thesis by simp
qed

end
