(* ===== verification/File_Descriptions.thy ===== *)
theory File_Descriptions
  imports File_System
begin

text \<open>
  \<open>FileDescription\<close> (file_description.h, file_description.cpp) and the creation of sockets
  (ipsocket.cpp). A description refers to its node by address. When an open fails after the
  description was made, its destructor closes the node again.
\<close>

section \<open>Descriptions\<close>

record file_description =
  fd_type :: node_type
  fd_mode :: open_mode
  fd_node :: nat
  fd_current_position :: size_t

record file_info =
  fi_name :: "u8 block"
  fi_size :: size_t
  fi_type :: node_type

definition fd_new :: "vfs \<Rightarrow> nat \<Rightarrow> open_mode \<Rightarrow> file_description run" where
  "fd_new v i mode = bindr (node_at v i) (\<lambda>n. Inr \<lparr>fd_type = fn_type n, fd_mode = mode, fd_node = i, fd_current_position = 0\<rparr>)"

definition fd_destroy :: "file_description \<Rightarrow> vfs \<Rightarrow> vfs run" where
  "fd_destroy d v = bindr (node_close (fd_mode d) (fd_node d) v) (\<lambda>(_, v1). Inr v1)"

definition fd_open :: "vfs \<Rightarrow> path_view \<Rightarrow> open_mode \<Rightarrow> open_flags \<Rightarrow> (file_description result \<times> vfs) run" where
  "fd_open v path mode flags = bindr (get_node v path mode flags) (\<lambda>(node, v1).
     if result_error node \<noteq> 0 then Inr (ResultError (result_error node), v1)
     else bindr (result_value node) (\<lambda>i. bindr (fd_new v1 i mode) (\<lambda>description.
       bindr (node_open mode i v1) (\<lambda>(open_ret, v2).
       if is_error open_ret then bindr (fd_destroy description v2) (\<lambda>v3. Inr (ResultError (result_error open_ret), v3))
       else Inr (Result description, v2)))))"

definition fd_read :: "file_description \<Rightarrow> buffer_view \<Rightarrow> vfs \<Rightarrow> ((size_t result \<times> buffer_view) option \<times> vfs) run" where
  "fd_read d buffer v = bindr (node_at v (fd_node d)) (\<lambda>n.
     let reading_size = sz_add (fd_current_position d) (bv_size buffer) in
     if reading_size > fn_size n \<and> fn_size n \<noteq> 0 then Inr (Some (ResultError ERROR_EOF, buffer), v)
     else node_read (fd_mode d) (fd_node d) buffer (fd_current_position d) v)"

definition fd_write :: "file_description \<Rightarrow> buffer_view \<Rightarrow> vfs \<Rightarrow> (size_t result option \<times> vfs) run" where
  "fd_write d buffer v = bindr (node_at v (fd_node d)) (\<lambda>n.
     let off = sz_add (fd_current_position d) (bv_size buffer) in
     if off > fn_size n \<and> fn_size n \<noteq> 0 then Inr (Some (ResultError ERROR_EOF), v)
     else node_write (fd_mode d) (fd_node d) buffer off v)"

text \<open>Of the nodes with a path only domain sockets have an \<open>accept\<close>.\<close>

definition fd_accept :: "file_description \<Rightarrow> vfs \<Rightarrow> (file_description result option \<times> vfs) run" where
  "fd_accept d v = bindr (node_at v (fd_node d)) (\<lambda>n.
     bindr (case fn_class n of DomainSocket pending cs \<Rightarrow> domain_socket_accept v (fd_node d) pending cs
            | _ \<Rightarrow> Inr (Some (ResultError ERROR_INVALID_OPERATION), v)) (\<lambda>(r, v1). case r of
       None \<Rightarrow> Inr (None, v1)
     | Some c \<Rightarrow> if is_error c then Inr (Some (ResultError (result_error c)), v1)
         else bindr (result_value c) (\<lambda>i. bindr (fd_new v1 i OM_SERVER) (\<lambda>e. Inr (Some (Result e), v1)))))"

definition fd_seek :: "vfs \<Rightarrow> int \<Rightarrow> seek_origin \<Rightarrow> file_description \<Rightarrow> (unit result \<times> file_description) run" where
  "fd_seek v off origin d = bindr (node_at v (fd_node d)) (\<lambda>n. let m_size = fn_size n; pos = fd_current_position d in case origin of
     SEEK_SET \<Rightarrow> if off < 0 then Inr (ResultError ERROR_EOF, d)
       else if of_int32 off > m_size then Inr (ResultError ERROR_EOF, d)
       else Inr (ResultError 0, d\<lparr>fd_current_position := of_int32 off\<rparr>)
   | SEEK_CURRENT \<Rightarrow> if off > 0 \<and> of_int32 off > sz_sub m_size pos \<or> off < 0 \<and> of_int32 (- off) > pos then Inr (ResultError ERROR_EOF, d)
       else Inr (ResultError 0, d\<lparr>fd_current_position := sz_add (of_int32 off) pos\<rparr>)
   | SEEK_END \<Rightarrow> if off > 0 then Inr (ResultError ERROR_EOF, d)
       else if of_int32 (- off) > m_size then Inr (ResultError ERROR_EOF, d)
       else Inr (ResultError 0, d\<lparr>fd_current_position := sz_add m_size (of_int32 off)\<rparr>))"

text \<open>The name is copied into the 64 bytes of \<open>FileInfo\<close> and terminated.\<close>

definition copy_name :: "fsnode \<Rightarrow> file_info \<Rightarrow> file_info run" where
  "copy_name n info = bindr (memcpy (fi_name info) 0 (c_str (fn_name n)) (str_length (fn_name n))) (\<lambda>b.
     bindr (assign_slot True b (str_length (fn_name n)) 0) (\<lambda>b1. Inr (info\<lparr>fi_name := b1\<rparr>)))"

definition fd_dir_query :: "vfs \<Rightarrow> file_info \<Rightarrow> file_description \<Rightarrow> (unit result \<times> file_info \<times> file_description) run" where
  "fd_dir_query v info d = bindr (node_dir_query v (fd_node d) (fd_current_position d)) (\<lambda>node.
     if is_error node then Inr (ResultError (result_error node), info, d)
     else bindr (result_value node) (\<lambda>i. bindr (node_at v i) (\<lambda>n. bindr (copy_name n info) (\<lambda>info1.
       Inr (ResultError 0, info1\<lparr>fi_type := fn_type n\<rparr>, d\<lparr>fd_current_position := sz_add (fd_current_position d) 1\<rparr>)))))"

definition fd_file_query :: "vfs \<Rightarrow> file_info \<Rightarrow> file_description \<Rightarrow> (unit result \<times> file_info) run" where
  "fd_file_query v info d = bindr (node_at v (fd_node d)) (\<lambda>n. bindr (copy_name n info) (\<lambda>info1.
     Inr (ResultError 0, info1\<lparr>fi_size := fn_size n, fi_type := fn_type n\<rparr>)))"

definition fd_ioctl :: "unit result" where
  "fd_ioctl = ResultError ERROR_INVALID_PARAMETER"

definition fd_mmap :: "unit result" where
  "fd_mmap = ResultError ERROR_INVALID_PARAMETER"

section \<open>Sockets\<close>

datatype socket_protocol = ProtocolUDP | ProtocolTCP

text \<open>
  The list of sockets holds objects of type \<open>FSNode\<close> copied from the sockets made, and the result is
  another copy of type \<open>FSNode\<close>: only the members of \<open>FSNode\<close> are left.
\<close>

definition create_socket :: "vfs \<Rightarrow> nat list \<Rightarrow> socket_protocol \<Rightarrow> (fsnode result \<times> vfs \<times> nat list) run" where
  "create_socket v sockets protocol = bindr (fsnode_new empty_view IPSocketNode 0 PlainNode) (\<lambda>n.
     let (i, v1) = add_node n v in Inr (Result n, v1, sockets @ [i]))"

text \<open>The description refers to the copy in the result, here the last node.\<close>

definition fd_socket :: "vfs \<Rightarrow> nat list \<Rightarrow> socket_protocol \<Rightarrow> (file_description result \<times> vfs \<times> nat list) run" where
  "fd_socket v sockets protocol = bindr (create_socket v sockets protocol) (\<lambda>(node, v1, sockets1).
     if result_error node \<noteq> 0 then Inr (ResultError (result_error node), v1, sockets1)
     else bindr (result_value node) (\<lambda>n. let (i, v2) = add_node n v1 in
       bindr (fd_new v2 i OM_SERVER) (\<lambda>description. bindr (node_open OM_SERVER i v2) (\<lambda>(open_ret, v3).
       if is_error open_ret then bindr (fd_destroy description v3) (\<lambda>v4. Inr (ResultError (result_error open_ret), v4, sockets1))
       else Inr (Result description, v3, sockets1)))))"

section \<open>Properties\<close>

lemma of_int32_pos: "0 \<le> i \<Longrightarrow> i < int sz_range \<Longrightarrow> of_int32 i = nat i"
  by (simp add: of_int32_def)

lemma of_int32_neg: "i < 0 \<Longrightarrow> - int sz_range < i \<Longrightarrow> of_int32 i = sz_range - nat (- i)"
proof -
  assume i: "i < 0" "- int sz_range < i"
  then have "i mod int sz_range = i + int sz_range" using mod_pos_pos_trivial [of "i + int sz_range" "int sz_range"] by simp
  with i show ?thesis by (simp add: of_int32_def nat_diff_distrib')
qed

lemma sz_add_neg:
  assumes "i < 0" "- i \<le> int p" "p < sz_range"
  shows "sz_add p (of_int32 i) = nat (int p + i)"
proof -
  have "of_int32 i = sz_range - nat (- i)" using assms by (intro of_int32_neg) auto
  moreover have "p + (sz_range - nat (- i)) = (p - nat (- i)) + sz_range" using assms by auto
  ultimately have "sz_add p (of_int32 i) = (p - nat (- i)) mod sz_range" by (simp only: sz_add_def mod_add_self2)
  then have "sz_add p (of_int32 i) = p - nat (- i)" using assms(3) by simp
  then show ?thesis using assms by (simp add: nat_add_distrib nat_diff_distrib')
qed

lemma sz_add_comm: "sz_add a b = sz_add b a"
  by (simp add: sz_add_def add.commute)

definition seek_target :: "vfs \<Rightarrow> file_description \<Rightarrow> int \<Rightarrow> seek_origin \<Rightarrow> int" where
  "seek_target v d off origin = off + (case origin of SEEK_SET \<Rightarrow> 0 | SEEK_CURRENT \<Rightarrow> int (fd_current_position d)
     | SEEK_END \<Rightarrow> int (fn_size (v_nodes v ! fd_node d)))"

text \<open>
  (C36) Seeking stays in the file: with the position at most the size of the node, every seek by a 32-bit
  offset either moves to exactly the position that the origin and the offset give, which is again
  between 0 and the size, or answers \<open>ERROR_EOF\<close> and keeps the position, in the cases where the target
  lies outside or, from the end, where the offset is positive.
\<close>

theorem file_seek_bounds:
  assumes "fd_node d < length (v_nodes v)" "fn_size (v_nodes v ! fd_node d) < sz_range div 2"
    and "fd_current_position d \<le> fn_size (v_nodes v ! fd_node d)" "- (2 ^ 31) < off" "off < 2 ^ 31"
  shows "fd_seek v off origin d = (let target = seek_target v d off origin in
     Inr (if 0 \<le> target \<and> target \<le> int (fn_size (v_nodes v ! fd_node d))
       then (ResultError 0, d\<lparr>fd_current_position := nat target\<rparr>) else (ResultError ERROR_EOF, d)))"
proof -
  let ?size = "fn_size (v_nodes v ! fd_node d)" and ?pos = "fd_current_position d"
  have n: "node_at v (fd_node d) = Inr (v_nodes v ! fd_node d)" using assms(1) by (simp add: node_at_def arr_get_def)
  have pos: "0 \<le> off \<Longrightarrow> of_int32 off = nat off" "off < 0 \<Longrightarrow> of_int32 (- off) = nat (- off)" using assms(4,5) by (auto intro!: of_int32_pos)
  have sub: "sz_sub ?size ?pos = ?size - ?pos" using assms(2,3) by (simp add: sz_sub_eq)
  have zero: "of_int32 0 = 0" by (simp add: of_int32_def)
  show ?thesis
  proof (cases origin)
    case SEEK_SET
    then show ?thesis using n pos by (auto simp: fd_seek_def seek_target_def Let_def)
  next
    case SEEK_CURRENT
    have neg: "sz_add (of_int32 off) ?pos = nat (off + int ?pos)" if "off < 0" "- off \<le> int ?pos"
      using sz_add_neg [OF that] assms(2,3) by (simp add: sz_add_comm add.commute)
    have add: "sz_add (nat off) ?pos = nat (off + int ?pos)" if "0 \<le> off" "off + int ?pos \<le> int ?size"
      using that assms(2) sz_add_eq [of "nat off" ?pos] by (simp add: nat_add_distrib)
    show ?thesis
    proof (cases "off < 0")
      case True
      then show ?thesis using SEEK_CURRENT n pos(2) neg assms(3) by (auto simp: fd_seek_def seek_target_def Let_def)
    next
      case False
      have c: "nat off > ?size - ?pos \<longleftrightarrow> \<not> off + int ?pos \<le> int ?size" using False assms(3) by auto
      show ?thesis using SEEK_CURRENT n pos(1) False add c sub by (auto simp: fd_seek_def seek_target_def Let_def)
    qed
  next
    case SEEK_END
    have neg: "sz_add ?size (of_int32 off) = nat (off + int ?size)" if "off < 0" "- off \<le> int ?size"
      using sz_add_neg [OF that] assms(2) by (simp add: add.commute)
    show ?thesis
    proof (cases "off = 0")
      case True
      then show ?thesis using SEEK_END n zero assms(2) by (simp add: fd_seek_def seek_target_def Let_def sz_add_def)
    next
      case False
      then show ?thesis using SEEK_END n pos neg by (auto simp: fd_seek_def seek_target_def Let_def)
    qed
  qed
qed

theorem file_seek_bounds_witness:
  "fd_seek sample_vfs (- 1) SEEK_END \<lparr>fd_type = File, fd_mode = OM_READ, fd_node = 1, fd_current_position = 0\<rparr> =
     Inr (ResultError 0, \<lparr>fd_type = File, fd_mode = OM_READ, fd_node = 1, fd_current_position = 1\<rparr>)"
  using file_seek_bounds [of "\<lparr>fd_type = File, fd_mode = OM_READ, fd_node = 1, fd_current_position = 0\<rparr>" sample_vfs "- 1" SEEK_END]
  by (simp add: sample_vfs_def seek_target_def)


text \<open>
  Reading a file of the archive from its start: a view of at most its size gets the first bytes of
  the file and the count is the size of the view; a larger view is refused with \<open>ERROR_EOF\<close>.
\<close>

theorem file_read_start:
  assumes "fd_node d < length (v_nodes v)" "fn_class (v_nodes v ! fd_node d) = INode data cs" "fd_current_position d = 0"
    and "reads data bytes" "length bytes = fn_size (v_nodes v ! fd_node d)" "bytes \<noteq> []" "length bytes < sz_range"
    and "writable dest st" "bv_size dest < sz_range"
  shows "if bv_size dest \<le> length bytes
     then \<exists>dest'. fd_read d dest v = Inr (Some (Result (bv_size dest), dest'), v) \<and> writable dest' (overwrite (snd (bv_data dest)) (take (bv_size dest) bytes) st) \<and>
       reads (bv_data dest') (take (bv_size dest) bytes)
     else fd_read d dest v = Inr (Some (ResultError ERROR_EOF, dest), v)"
proof -
  let ?n = "v_nodes v ! fd_node d" and ?k = "bv_size dest"
  have n: "node_at v (fd_node d) = Inr ?n" using assms(1) by (simp add: node_at_def arr_get_def)
  have nz: "fn_size ?n \<noteq> 0" using assms(5,6) by (cases bytes) auto
  have s: "sz_add 0 ?k = ?k" "sz_sub (fn_size ?n) 0 = fn_size ?n" using assms(5,7,9) by (simp_all add: sz_add_def sz_sub_eq)
  show ?thesis
  proof (cases "?k \<le> length bytes")
    case True
    let ?cs = "take ?k bytes" and ?o = "snd (bv_data dest)"
    have r: "reads data ?cs" "length ?cs = ?k" using assms(4) True by (simp_all add: reads_take)
    have w: "fst (bv_data dest) = chars st" "?o + ?k \<le> length st" using assms(8) by (simp_all add: writable_def)
    have m: "memcpy (chars st) ?o data ?k = Inr (chars (overwrite ?o ?cs st))"
      using memcpy_Live [OF r(1), of ?o st] r(2) w(2) by (simp add: overwrite_def)
    let ?d = "dest\<lparr>bv_data := (chars (overwrite ?o ?cs st), ?o)\<rparr>"
    have wd: "writable ?d (overwrite ?o ?cs st)" using w(2) r(2) by (simp add: writable_def)
    have "min ?k (length bytes) = ?k" using True by simp
    then have "fd_read d dest v = Inr (Some (Result ?k, ?d), v)"
      using n s nz True assms(2,3,5) m w(1) by (simp add: fd_read_def node_read_def inode_read_def mv_fill_from_def Let_def)
    moreover have "reads (bv_data ?d) ?cs" using overwrite_reads [of ?d ?cs st] wd w(2) r(2) by simp
    ultimately show ?thesis using True wd by auto
  next
    case False
    then show ?thesis using n s nz assms(3,5) by (simp add: fd_read_def Let_def)
  qed
qed

theorem file_read_start_witness:
  "\<exists>dest'. fd_read \<lparr>fd_type = File, fd_mode = OM_READ, fd_node = 1, fd_current_position = 0\<rparr> (recv_view 1) sample_vfs =
     Inr (Some (Result 1, dest'), sample_vfs) \<and> reads (bv_data dest') [7]"
proof -
  let ?d = "\<lparr>fd_type = File, fd_mode = OM_READ, fd_node = 1, fd_current_position = 0\<rparr>"
  have "reads (chars [7, 8], 0) [7, 8]" by (rule reads_whole)
  moreover have "writable (recv_view 1) (replicate 1 0)" by (simp add: writable_def recv_view_def bv_raw_def)
  ultimately show ?thesis using file_read_start [of ?d sample_vfs "(chars [7, 8], 0)" "[]" "[7, 8]" "recv_view 1" "replicate 1 0"]
    by (auto simp: sample_vfs_def)
qed

text \<open>
  (C37) Reading a file after a seek panics: the position in the file is used as the position in the
  destination, so every read of a non-empty view that stays inside the file fails the assertion.
\<close>

theorem file_read_after_seek_panics:
  assumes "fd_node d < length (v_nodes v)" "fn_class (v_nodes v ! fd_node d) = INode data cs" "0 < fd_current_position d" "0 < bv_size dest"
    and "fd_current_position d + bv_size dest \<le> fn_size (v_nodes v ! fd_node d)" "fn_size (v_nodes v ! fd_node d) < sz_range"
  shows "fd_read d dest v = Inl AssertFailed"
proof -
  let ?n = "v_nodes v ! fd_node d" and ?k = "bv_size dest" and ?p = "fd_current_position d"
  have n: "node_at v (fd_node d) = Inr ?n" using assms(1) by (simp add: node_at_def arr_get_def)
  have s: "sz_add ?p ?k = ?p + ?k" "sz_sub (fn_size ?n) ?p = fn_size ?n - ?p" "min ?k (fn_size ?n - ?p) = ?k" using assms(5,6) by (simp_all add: sz_add_eq sz_sub_eq)
  then show ?thesis using n assms(2-5) by (simp add: fd_read_def node_read_def inode_read_def mv_fill_from_def Let_def)
qed

theorem file_read_after_seek_panics_witness:
  "fd_read \<lparr>fd_type = File, fd_mode = OM_READ, fd_node = 1, fd_current_position = 1\<rparr> (recv_view 1) sample_vfs = Inl AssertFailed"
  using file_read_after_seek_panics [of "\<lparr>fd_type = File, fd_mode = OM_READ, fd_node = 1, fd_current_position = 1\<rparr>" sample_vfs "(chars [7, 8], 0)" "[]" "recv_view 1"]
  by (simp add: sample_vfs_def)

text \<open>
  Opening a pipe. For reading or writing it succeeds and counts the reader or the writer. Any other
  mode is refused by the pipe, but the description made for it is destroyed, which closes the pipe with
  that mode and fails an assertion: the error is never returned.
\<close>

theorem pipe_open_outcome:
  assumes "vfs_wf v" "pv_rep path cs ds" "resolve v (cs @ ds) = Result i" "i < length (v_nodes v)" "fn_class (v_nodes v ! i) = Pipe p"
  shows "fd_open v path mode OF_OPEN_EXISTING =
     (if mode = OM_READ \<or> mode = OM_WRITE
      then Inr (Result \<lparr>fd_type = fn_type (v_nodes v ! i), fd_mode = mode, fd_node = i, fd_current_position = 0\<rparr>,
        set_class i (Pipe (if mode = OM_READ then p\<lparr>p_readers := sz_add (p_readers p) 1\<rparr> else p\<lparr>p_writers := sz_add (p_writers p) 1\<rparr>)) v)
      else Inl NotReachable)"
proof -
  have "open_existing_node v path = Inr (Result i)" using traverse_node_law [OF assms(1,2)] assms(3) by (simp add: open_existing_node_def)
  then have g: "get_node v path mode OF_OPEN_EXISTING = Inr (Result i, v)" by (simp add: get_node_def OF_OPEN_EXISTING_def OF_CREATE_NEW_def)
  have n: "node_at v i = Inr (v_nodes v ! i)" using assms(4) by (simp add: node_at_def arr_get_def)
  have n': "node_at (set_class i (Pipe p') v) i = Inr ((v_nodes v ! i)\<lparr>fn_class := Pipe p'\<rparr>)" for p'
    using assms(4) by (simp add: node_at_def arr_get_def set_class_def)
  show ?thesis using g n n' assms(5)
    by (auto simp: fd_open_def fd_new_def node_open_def pipe_open_def fd_destroy_def node_close_def pipe_close_def ERROR_INVALID_PARAMETER_def)
qed

definition sample_pipes :: vfs where
  "sample_pipes = set_class 1 (Pipe pipe_new) sample_vfs"

theorem pipe_open_outcome_witness:
  "\<exists>p. pv_new \<lparr>sv_size = 4, sv_data = (chars [47, 116, 47, 97], 0)\<rparr> = Inr p \<and>
     fd_open sample_pipes p OM_READ OF_OPEN_EXISTING = Inr (Result \<lparr>fd_type = File, fd_mode = OM_READ, fd_node = 1, fd_current_position = 0\<rparr>,
       set_class 1 (Pipe (pipe_new\<lparr>p_readers := sz_add (p_readers pipe_new) 1\<rparr>)) sample_pipes)"
proof -
  obtain p where p: "pv_new \<lparr>sv_size = 4, sv_data = (chars [47, 116, 47, 97], 0)\<rparr> = Inr p" "pv_rep p [[116], [97]] []" using sample_path by blast
  have w: "vfs_wf sample_pipes"
    by (auto simp: sample_pipes_def set_class_def sample_vfs_def vfs_wf_def named_def str_rep_def name_bytes_def chars_def directory_def)
  have r: "resolve sample_pipes ([[116], [97]] @ []) = Result 1"
    by (simp add: sample_pipes_def set_class_def sample_vfs_def resolve_def node_name_def name_bytes_def chars_def dir_entry_def directory_def found_or_def)
  have n: "1 < length (v_nodes sample_pipes)" "fn_class (v_nodes sample_pipes ! 1) = Pipe pipe_new" "fn_type (v_nodes sample_pipes ! 1) = File"
    by (simp_all add: sample_pipes_def set_class_def sample_vfs_def)
  show ?thesis using pipe_open_outcome [OF w p(2) r n(1,2), of OM_READ] p(1) n(3) by simp
qed

lemma memcpy_overruns:
  assumes "reads src cs" "length b < length cs"
  shows "memcpy (Some b) 0 src (length cs) = Inl BadAccess"
proof -
  let ?k = "length b" and ?f = "\<lambda>i c. bindr (rd src i) (assign_slot True c (0 + i))"
  have k: "memcpy (Some b) 0 src ?k = Inr (Some (map Live (take ?k cs)))"
    using memcpy_law [OF reads_take [OF assms(1), of ?k], of 0 b] assms(2) by simp
  have "memcpy (Some b) 0 src (length cs) = bindr (memcpy (Some b) 0 src ?k) (for_up ?k (length cs) ?f)"
    unfolding memcpy_def by (rule for_up_split) (use assms(2) in simp_all)
  also have "\<dots> = for_up ?k (length cs) ?f (Some (map Live (take ?k cs)))" by (simp add: k)
  also have "\<dots> = Inl BadAccess" using assms(2) reads_rd [OF assms] by (simp add: for_up_step)
  finally show ?thesis .
qed

text \<open>
  Asking a description for its name: a name of fewer than 64 bytes is stored with its terminator and
  the size and the type of the node are stored too; every longer name is written past the 64 bytes of
  \<open>FileInfo\<close>.
\<close>

theorem file_query_name:
  assumes "vfs_wf v" "fd_node d < length (v_nodes v)" "fi_name info = Some b" "length b = 64"
  shows "fd_file_query v info d = (let n = v_nodes v ! fd_node d; name = node_name v (fd_node d) in
     if length name < 64 then Inr (ResultError 0, info\<lparr>fi_name := Some (map Live (name @ [0]) @ drop (length name + 1) b), fi_size := fn_size n, fi_type := fn_type n\<rparr>)
     else Inl BadAccess)"
proof -
  let ?n = "v_nodes v ! fd_node d" and ?x = "node_name v (fd_node d)"
  have n: "node_at v (fd_node d) = Inr ?n" using assms(2) by (simp add: node_at_def arr_get_def)
  have s: "str_rep (fn_name ?n) ?x" using node_named [OF assms(1,2)] by simp
  then have l: "str_length (fn_name ?n) = length ?x" by (simp add: str_rep_def str_length_def)
  have r: "reads (c_str (fn_name ?n)) ?x" using reads_take [OF str_rep_reads [OF s], of "length ?x"] by simp
  show ?thesis
  proof (cases "length ?x \<le> 64")
    case True
    have "memcpy (Some b) 0 (c_str (fn_name ?n)) (length ?x) = Inr (Some (map Live ?x @ drop (length ?x) b))"
      using memcpy_law [OF r, of 0 b] True assms(4) by simp
    moreover have "drop (length ?x) b = b ! length ?x # drop (length ?x + 1) b" if "length ?x < 64"
      using that assms(4) by (simp add: Cons_nth_drop_Suc)
    ultimately show ?thesis using n l assms(3,4) True
      by (auto simp: fd_file_query_def copy_name_def Let_def list_update_append)
  next
    case False
    then show ?thesis using memcpy_overruns [OF r, of b] n l assms(3,4) by (simp add: fd_file_query_def copy_name_def Let_def)
  qed
qed

theorem file_query_name_witness:
  "fd_file_query sample_vfs \<lparr>fi_name = Some (replicate 64 Raw), fi_size = 0, fi_type = Root\<rparr>
     \<lparr>fd_type = File, fd_mode = OM_READ, fd_node = 1, fd_current_position = 0\<rparr> =
   Inr (ResultError 0, \<lparr>fi_name = Some (map Live [97, 0] @ replicate 62 Raw), fi_size = 2, fi_type = File\<rparr>)"
proof -
  let ?d = "\<lparr>fd_type = File, fd_mode = OM_READ, fd_node = 1, fd_current_position = 0\<rparr>"
    and ?info = "\<lparr>fi_name = Some (replicate 64 Raw), fi_size = 0, fi_type = Root\<rparr>"
  have x: "node_name sample_vfs 1 = [97]" by (simp add: sample_vfs_def node_name_def name_bytes_def chars_def)
  have n: "fn_size (v_nodes sample_vfs ! 1) = 2" "fn_type (v_nodes sample_vfs ! 1) = File" "1 < length (v_nodes sample_vfs)" by (simp_all add: sample_vfs_def)
  show ?thesis using file_query_name [OF sample_vfs_wf, of ?d ?info "replicate 64 Raw"] x n by (simp add: Let_def)
qed

text \<open>
  A socket can never be opened: what \<open>create_socket\<close> returns is a plain \<open>FSNode\<close>, whose \<open>open\<close> is the one
  that answers \<open>ERROR_INVALID_OPERATION\<close>, for both protocols.
\<close>

theorem socket_open_always_fails:
  "\<exists>n. fd_socket v sockets protocol = Inr (ResultError ERROR_INVALID_OPERATION, v\<lparr>v_nodes := v_nodes v @ [n, n]\<rparr>, sockets @ [length (v_nodes v)]) \<and>
     fn_type n = IPSocketNode \<and> fn_class n = PlainNode"
proof -
  have "sv_rep empty_view []" by (simp add: sv_rep_def empty_view_def reads_def literal_def chars_def)
  from str_from_view_law [OF this] obtain s where s: "str_from_view empty_view = Inr s" by (auto simp: ok_iff)
  let ?n = "\<lparr>fn_name = s, fn_permission = 0, fn_owner = 0, fn_type = IPSocketNode, fn_size = 0, fn_class = PlainNode\<rparr>"
  have c: "create_socket v sockets protocol = Inr (Result ?n, v\<lparr>v_nodes := v_nodes v @ [?n]\<rparr>, sockets @ [length (v_nodes v)])"
    using s by (simp add: create_socket_def fsnode_new_def add_node_def)
  have "node_at (v\<lparr>v_nodes := v_nodes v @ [?n, ?n]\<rparr>) (Suc (length (v_nodes v))) = Inr ?n" by (simp add: node_at_def arr_get_def nth_append)
  then have "fd_socket v sockets protocol = Inr (ResultError ERROR_INVALID_OPERATION, v\<lparr>v_nodes := v_nodes v @ [?n, ?n]\<rparr>, sockets @ [length (v_nodes v)])"
    using c by (simp add: fd_socket_def add_node_def fd_new_def node_open_def fd_destroy_def node_close_def ERROR_INVALID_OPERATION_def)
  then show ?thesis by (intro exI [of _ ?n]) simp
qed

end
