(* ===== verification/Handles.thy ===== *)
theory Handles
  imports File_Descriptions "HOL-Library.Multiset"
begin

text \<open>
  \<open>HandlesManager\<close> (handles_manager.h, handles_manager.cpp): the table of handles of a process and the
  descriptions it owns. A unique pointer is the address of its object together with the object; a
  process description is given by the address of its process. Removing a handle hands the
  descriptions it destroys to the caller, which runs their destructors.
\<close>

section \<open>Model\<close>

datatype handle_type = InvalidHandle | FileHandle | ProcessHandle

record handle_entry =
  he_type :: handle_type
  he_pointer :: nat

record handles_manager =
  handle_table :: "handle_entry list"
  file_description_table :: "(nat \<times> file_description) list"
  process_description_table :: "(nat \<times> nat) list"

definition handles_new :: handles_manager where
  "handles_new = \<lparr>handle_table = [], file_description_table = [], process_description_table = []\<rparr>"

definition add_file_handle :: "nat \<times> file_description \<Rightarrow> handles_manager \<Rightarrow> nat \<times> handles_manager" where
  "add_file_handle d h = (let t = handle_table h @ [\<lparr>he_type = FileHandle, he_pointer = fst d\<rparr>] in
     (length t - 1, h\<lparr>file_description_table := file_description_table h @ [d], handle_table := t\<rparr>))"

definition add_process_handle :: "nat \<times> nat \<Rightarrow> handles_manager \<Rightarrow> nat \<times> handles_manager" where
  "add_process_handle d h = (let t = handle_table h @ [\<lparr>he_type = ProcessHandle, he_pointer = fst d\<rparr>] in
     (length t - 1, h\<lparr>process_description_table := process_description_table h @ [d], handle_table := t\<rparr>))"

definition remove_handle :: "nat \<Rightarrow> handles_manager \<Rightarrow> (file_description list \<times> nat list \<times> handles_manager) run" where
  "remove_handle handle h = bindr (arr_get (handle_table h) handle) (\<lambda>e.
     assert_then (he_pointer e \<noteq> 0) (assert_then (he_type e \<noteq> InvalidHandle) (let h1 = h\<lparr>handle_table := (handle_table h)[handle := e\<lparr>he_type := InvalidHandle\<rparr>]\<rparr> in
     case he_type e of
       FileHandle \<Rightarrow> (let (gone, kept) = partition (\<lambda>d. fst d = he_pointer e) (file_description_table h) in
         Inr (map snd gone, [], h1\<lparr>file_description_table := kept\<rparr>))
     | ProcessHandle \<Rightarrow> (let (gone, kept) = partition (\<lambda>d. fst d = he_pointer e) (process_description_table h) in
         Inr ([], map snd gone, h1\<lparr>process_description_table := kept\<rparr>))
     | InvalidHandle \<Rightarrow> Inl NotReachable)))"

text \<open>The object behind a pointer; a pointer to an object that is gone is an access outside its lifetime.\<close>

definition object_at :: "(nat \<times> 'a) list \<Rightarrow> nat \<Rightarrow> 'a run" where
  "object_at t p = (case map_of t p of None \<Rightarrow> Inl Lifetime | Some x \<Rightarrow> Inr x)"

definition get_file_description :: "nat \<Rightarrow> handles_manager \<Rightarrow> file_description run" where
  "get_file_description handle h = bindr (arr_get (handle_table h) handle) (\<lambda>e. assert_then (he_pointer e \<noteq> 0)
     (assert_then (he_type e = FileHandle) (object_at (file_description_table h) (he_pointer e))))"

definition get_process_description :: "nat \<Rightarrow> handles_manager \<Rightarrow> nat run" where
  "get_process_description handle h = bindr (arr_get (handle_table h) handle) (\<lambda>e. assert_then (he_pointer e \<noteq> 0)
     (assert_then (he_type e = ProcessHandle) (object_at (process_description_table h) (he_pointer e))))"

definition check_handle :: "nat \<Rightarrow> handles_manager \<Rightarrow> handle_type run" where
  "check_handle handle h = (if handle \<ge> length (handle_table h) then Inr InvalidHandle
     else bindr (arr_get (handle_table h) handle) (\<lambda>e. Inr (he_type e)))"

text \<open>A description is changed through the reference that \<open>get_file_description\<close> returns.\<close>

definition update_file_description :: "nat \<Rightarrow> file_description \<Rightarrow> handles_manager \<Rightarrow> handles_manager" where
  "update_file_description handle d h = h\<lparr>file_description_table :=
     map (\<lambda>(p, x). if p = he_pointer (handle_table h ! handle) then (p, d) else (p, x)) (file_description_table h)\<rparr>"

section \<open>The table as a list of slots\<close>

datatype slot_view = Closed | FileSlot file_description | ProcessSlot nat

definition pointers :: "handle_type \<Rightarrow> handle_entry list \<Rightarrow> nat list" where
  "pointers t es = map he_pointer (filter (\<lambda>e. he_type e = t) es)"

definition handles_wf :: "handles_manager \<Rightarrow> bool" where
  "handles_wf h = (map fst (file_description_table h) = pointers FileHandle (handle_table h) \<and>
     map fst (process_description_table h) = pointers ProcessHandle (handle_table h) \<and>
     distinct (pointers FileHandle (handle_table h)) \<and> distinct (pointers ProcessHandle (handle_table h)) \<and>
     (\<forall>e\<in>set (handle_table h). he_pointer e \<noteq> 0))"

definition slot_of :: "handles_manager \<Rightarrow> handle_entry \<Rightarrow> slot_view" where
  "slot_of h e = (case he_type e of InvalidHandle \<Rightarrow> Closed
   | FileHandle \<Rightarrow> FileSlot (the (map_of (file_description_table h) (he_pointer e)))
   | ProcessHandle \<Rightarrow> ProcessSlot (the (map_of (process_description_table h) (he_pointer e))))"

definition slots :: "handles_manager \<Rightarrow> slot_view list" where
  "slots h = map (slot_of h) (handle_table h)"

definition slot_type :: "slot_view \<Rightarrow> handle_type" where
  "slot_type s = (case s of Closed \<Rightarrow> InvalidHandle | FileSlot _ \<Rightarrow> FileHandle | ProcessSlot _ \<Rightarrow> ProcessHandle)"

lemma slot_type_slot_of [simp]: "slot_type (slot_of h e) = he_type e"
  by (simp add: slot_of_def slot_type_def split: handle_type.split)

lemma length_slots [simp]: "length (slots h) = length (handle_table h)"
  by (simp add: slots_def)

lemma pointers_append [simp]: "pointers t (es @ fs) = pointers t es @ pointers t fs"
  by (simp add: pointers_def)

lemma pointers_Cons: "pointers t (e # es) = (if he_type e = t then he_pointer e # pointers t es else pointers t es)"
  by (simp add: pointers_def)

lemma pointers_Nil [simp]: "pointers t [] = []"
  by (simp add: pointers_def)

lemma pointers_mem: "e \<in> set es \<Longrightarrow> he_type e = t \<Longrightarrow> he_pointer e \<in> set (pointers t es)"
  by (auto simp: pointers_def)

lemma map_of_mem: "map fst t = ps \<Longrightarrow> p \<in> set ps \<Longrightarrow> \<exists>x. map_of t p = Some x"
  by (metis domIff image_set map_of_eq_None_iff option.exhaust_sel)

lemma filter_entry:
  assumes "map fst t = ps @ p # qs" "distinct (ps @ p # qs)"
  shows "\<exists>xs x ys. t = xs @ (p, x) # ys \<and> map fst xs = ps \<and> map fst ys = qs \<and> filter (\<lambda>d. fst d = p) t = [(p, x)] \<and>
     filter (\<lambda>d. fst d \<noteq> p) t = xs @ ys \<and> map_of t p = Some x"
proof -
  obtain xs d ys where t: "t = xs @ d # ys" "map fst xs = ps" "fst d = p" "map fst ys = qs"
    using assms(1) by (auto simp: map_eq_append_conv)
  obtain x where d: "d = (p, x)" using t(3) by (cases d) auto
  have n: "p \<notin> fst ` set xs" "p \<notin> fst ` set ys" using assms(2) unfolding t(2,4) [symmetric] by simp_all
  then have "filter (\<lambda>d. fst d = p) xs = []" "filter (\<lambda>d. fst d = p) ys = []" "filter (\<lambda>d. fst d \<noteq> p) xs = xs" "filter (\<lambda>d. fst d \<noteq> p) ys = ys"
    by (auto simp: filter_empty_conv filter_id_conv)
  moreover have "map_of xs p = None" using n(1) by (simp add: map_of_eq_None_iff)
  then have "map_of t p = Some x" using t(1) d by (simp add: map_add_def)
  ultimately show ?thesis using t d by auto
qed

lemma handles_new_wf: "handles_wf handles_new" "slots handles_new = []"
  by (simp_all add: handles_wf_def handles_new_def slots_def)

lemma map_of_fresh: "p \<notin> fst ` set t \<Longrightarrow> map_of (t @ [(p, x)]) p = Some x"
proof -
  assume "p \<notin> fst ` set t"
  then have "map_of t p = None" by (simp add: map_of_eq_None_iff)
  then show ?thesis by (simp add: map_add_def)
qed

lemma single_map_add: "q \<noteq> p \<Longrightarrow> ([p \<mapsto> x] ++ m) q = m q"
  by (simp add: map_add_def split: option.splits)

lemma add_file_handle_law:
  assumes "handles_wf h" "p \<noteq> 0" "p \<notin> fst ` set (file_description_table h)"
  shows "\<exists>h'. add_file_handle (p, d) h = (length (slots h), h') \<and> handles_wf h' \<and> slots h' = slots h @ [FileSlot d] \<and>
     map snd (file_description_table h') = map snd (file_description_table h) @ [d] \<and> process_description_table h' = process_description_table h"
proof -
  let ?h = "snd (add_file_handle (p, d) h)"
  have p: "p \<notin> set (pointers FileHandle (handle_table h))" using assms(1,3) by (metis handles_wf_def image_set)
  have wf: "handles_wf ?h" using assms p by (auto simp: handles_wf_def add_file_handle_def pointers_Cons)
  have "slot_of ?h e = slot_of h e" if "e \<in> set (handle_table h)" for e
  proof (cases "he_type e = FileHandle")
    case True
    then have "he_pointer e \<noteq> p" using pointers_mem [OF that True] p by auto
    then show ?thesis by (simp add: slot_of_def add_file_handle_def Let_def single_map_add split: handle_type.split)
  qed (auto simp: slot_of_def add_file_handle_def Let_def split: handle_type.split)
  moreover have "map_of (file_description_table h @ [(p, d)]) p = Some d" using assms(3) by (rule map_of_fresh)
  ultimately have "slots ?h = slots h @ [FileSlot d]" by (simp add: slots_def) (simp add: add_file_handle_def slot_of_def)
  then show ?thesis using wf by (intro exI [of _ ?h]) (simp add: add_file_handle_def Let_def)
qed

lemma add_process_handle_law:
  assumes "handles_wf h" "p \<noteq> 0" "p \<notin> fst ` set (process_description_table h)"
  shows "\<exists>h'. add_process_handle (p, a) h = (length (slots h), h') \<and> handles_wf h' \<and> slots h' = slots h @ [ProcessSlot a] \<and>
     map snd (process_description_table h') = map snd (process_description_table h) @ [a] \<and> file_description_table h' = file_description_table h"
proof -
  let ?h = "snd (add_process_handle (p, a) h)"
  have p: "p \<notin> set (pointers ProcessHandle (handle_table h))" using assms(1,3) by (metis handles_wf_def image_set)
  have wf: "handles_wf ?h" using assms p by (auto simp: handles_wf_def add_process_handle_def pointers_Cons)
  have "slot_of ?h e = slot_of h e" if "e \<in> set (handle_table h)" for e
  proof (cases "he_type e = ProcessHandle")
    case True
    then have "he_pointer e \<noteq> p" using pointers_mem [OF that True] p by auto
    then show ?thesis by (simp add: slot_of_def add_process_handle_def Let_def single_map_add split: handle_type.split)
  qed (auto simp: slot_of_def add_process_handle_def Let_def split: handle_type.split)
  moreover have "map_of (process_description_table h @ [(p, a)]) p = Some a" using assms(3) by (rule map_of_fresh)
  ultimately have "slots ?h = slots h @ [ProcessSlot a]" by (simp add: slots_def) (simp add: add_process_handle_def slot_of_def)
  then show ?thesis using wf by (intro exI [of _ ?h]) (simp add: add_process_handle_def Let_def)
qed

lemma get_description_law:
  assumes "handles_wf h" "i < length (slots h)"
  shows "check_handle i h = Inr (slot_type (slots h ! i))"
    and "get_file_description i h = (case slots h ! i of FileSlot d \<Rightarrow> Inr d | _ \<Rightarrow> Inl AssertFailed)"
    and "get_process_description i h = (case slots h ! i of ProcessSlot a \<Rightarrow> Inr a | _ \<Rightarrow> Inl AssertFailed)"
proof -
  let ?e = "handle_table h ! i"
  have e: "arr_get (handle_table h) i = Inr ?e" "?e \<in> set (handle_table h)" "slots h ! i = slot_of h ?e" "he_pointer ?e \<noteq> 0"
    using assms by (auto simp: arr_get_def slots_def handles_wf_def)
  show "check_handle i h = Inr (slot_type (slots h ! i))" using e(1,3) assms(2) by (simp add: check_handle_def)
  have f: "\<exists>x. map_of (file_description_table h) (he_pointer ?e) = Some x" if "he_type ?e = FileHandle"
    by (rule map_of_mem [OF _ pointers_mem [OF e(2) that]]) (use assms(1) in \<open>simp add: handles_wf_def\<close>)
  show "get_file_description i h = (case slots h ! i of FileSlot d \<Rightarrow> Inr d | _ \<Rightarrow> Inl AssertFailed)"
    using e f by (cases "he_type ?e") (auto simp: get_file_description_def slot_of_def object_at_def)
  have g: "\<exists>x. map_of (process_description_table h) (he_pointer ?e) = Some x" if "he_type ?e = ProcessHandle"
    by (rule map_of_mem [OF _ pointers_mem [OF e(2) that]]) (use assms(1) in \<open>simp add: handles_wf_def\<close>)
  show "get_process_description i h = (case slots h ! i of ProcessSlot a \<Rightarrow> Inr a | _ \<Rightarrow> Inl AssertFailed)"
    using e g by (cases "he_type ?e") (auto simp: get_process_description_def slot_of_def object_at_def)
qed

lemma map_of_without: "q \<noteq> p \<Longrightarrow> map_of (xs @ (p, x) # ys) q = map_of (xs @ ys) q"
  by (simp add: map_add_def split: option.splits)

lemma pointer_other: "distinct (pointers t (es @ e # es')) \<Longrightarrow> he_type e = t \<Longrightarrow> f \<in> set es \<or> f \<in> set es' \<Longrightarrow> he_type f = t \<Longrightarrow> he_pointer f \<noteq> he_pointer e"
  using pointers_mem [of f es t] pointers_mem [of f es' t] by (auto simp: pointers_Cons)

text \<open>Closing entry i, whose type is t, in a table of entries and the table of its objects.\<close>

lemma close_entry:
  assumes "map fst tab = pointers t es" "distinct (pointers t es)" "i < length es" "he_type (es ! i) = t" "t \<noteq> InvalidHandle"
  shows "\<exists>x tab'. filter (\<lambda>d. fst d = he_pointer (es ! i)) tab = [(he_pointer (es ! i), x)] \<and> filter (\<lambda>d. fst d \<noteq> he_pointer (es ! i)) tab = tab' \<and>
     map_of tab (he_pointer (es ! i)) = Some x \<and> map fst tab' = pointers t (es[i := (es ! i)\<lparr>he_type := InvalidHandle\<rparr>]) \<and>
     distinct (map fst tab') \<and> mset (map snd tab) = mset (map snd tab') + {#x#} \<and>
     (\<forall>j<length es. j \<noteq> i \<longrightarrow> he_type (es ! j) = t \<longrightarrow> map_of tab' (he_pointer (es ! j)) = map_of tab (he_pointer (es ! j)))"
proof -
  let ?e = "es ! i" and ?es = "take i es" and ?fs = "drop (Suc i) es"
  have s: "es = ?es @ ?e # ?fs" using assms(3) by (simp add: id_take_nth_drop)
  from arg_cong [OF this, of "pointers t"] have p: "pointers t es = pointers t ?es @ he_pointer ?e # pointers t ?fs"
    using assms(4) by (simp only: pointers_append pointers_Cons simp_thms if_True)
  then have m: "map fst tab = pointers t ?es @ he_pointer ?e # pointers t ?fs" using assms(1) by simp
  have d: "distinct (pointers t (?es @ ?e # ?fs))" using assms(2) unfolding s [symmetric] .
  obtain xs x ys where x: "tab = xs @ (he_pointer ?e, x) # ys" "map fst xs = pointers t ?es" "map fst ys = pointers t ?fs"
      "filter (\<lambda>d. fst d = he_pointer ?e) tab = [(he_pointer ?e, x)]" "filter (\<lambda>d. fst d \<noteq> he_pointer ?e) tab = xs @ ys" "map_of tab (he_pointer ?e) = Some x"
    using filter_entry [OF m] d assms(4) by (auto simp: pointers_Cons)
  have "map_of (xs @ ys) (he_pointer (es ! j)) = map_of tab (he_pointer (es ! j))" if j: "j < length es" "j \<noteq> i" "he_type (es ! j) = t" for j
  proof -
    have "es ! j \<in> set ?es \<or> es ! j \<in> set ?fs"
    proof (cases "j < i")
      case True then show ?thesis using j(1) by (auto simp: in_set_conv_nth intro: exI [of _ j])
    next
      case False then show ?thesis using j(1,2) by (auto simp: in_set_conv_nth intro!: exI [of _ "j - Suc i"])
    qed
    from pointer_other [OF d assms(4) this j(3)] show ?thesis using x(1) map_of_without by metis
  qed
  moreover have "map fst (xs @ ys) = pointers t (es[i := ?e\<lparr>he_type := InvalidHandle\<rparr>])"
    using assms(3,5) x(2,3) by (simp add: upd_conv_take_nth_drop pointers_Cons)
  moreover have "distinct (map fst (xs @ ys))" using d assms(4) x(2,3) by (auto simp: pointers_Cons)
  ultimately show ?thesis using x(4-6) by (intro exI [of _ x] exI [of _ "xs @ ys"]) (auto simp: x(1))
qed

lemma pointers_close: "i < length es \<Longrightarrow> he_type (es ! i) \<noteq> t \<Longrightarrow> t \<noteq> InvalidHandle \<Longrightarrow> pointers t (es[i := (es ! i)\<lparr>he_type := InvalidHandle\<rparr>]) = pointers t es"
  using arg_cong [OF id_take_nth_drop [of i es], of "pointers t"] by (simp add: upd_conv_take_nth_drop pointers_Cons)

lemma slots_close:
  assumes "i < length (handle_table h)" "handle_table h' = (handle_table h)[i := (handle_table h ! i)\<lparr>he_type := InvalidHandle\<rparr>]"
    and "\<And>j. j < length (handle_table h) \<Longrightarrow> j \<noteq> i \<Longrightarrow> slot_of h' (handle_table h ! j) = slot_of h (handle_table h ! j)"
  shows "slots h' = (slots h)[i := Closed]"
  using assms by (intro nth_equalityI) (auto simp: slots_def nth_list_update slot_of_def)

lemma wf_nonzero: "handles_wf h \<Longrightarrow> i < length (handle_table h) \<Longrightarrow> he_pointer (handle_table h ! i) \<noteq> 0"
  by (simp add: handles_wf_def)

lemma nonzero_close: "handles_wf h \<Longrightarrow> \<forall>e\<in>set ((handle_table h)[i := (handle_table h ! i)\<lparr>he_type := InvalidHandle\<rparr>]). he_pointer e \<noteq> 0"
  using wf_nonzero [of h i] by (cases "i < length (handle_table h)") (auto simp: handles_wf_def list_update_beyond dest!: set_update_subset_insert [THEN subsetD])

lemma slot_entry: "i < length (slots h) \<Longrightarrow> he_type (handle_table h ! i) = slot_type (slots h ! i)"
  by (simp add: slots_def)

lemma remove_file_law:
  assumes "handles_wf h" "i < length (slots h)" "slots h ! i = FileSlot d"
  shows "\<exists>h'. remove_handle i h = Inr ([d], [], h') \<and> handles_wf h' \<and> slots h' = (slots h)[i := Closed] \<and>
     mset (map snd (file_description_table h)) = mset (map snd (file_description_table h')) + {#d#} \<and> process_description_table h' = process_description_table h"
proof -
  let ?es = "handle_table h" and ?e = "handle_table h ! i"
  have i: "i < length ?es" "arr_get ?es i = Inr ?e" "he_type ?e = FileHandle" "he_pointer ?e \<noteq> 0"
    using assms(1,2) slot_entry [OF assms(2)] wf_nonzero assms(3) by (auto simp: arr_get_def slot_type_def)
  obtain x tab where x: "filter (\<lambda>d. fst d = he_pointer ?e) (file_description_table h) = [(he_pointer ?e, x)]"
      "filter (\<lambda>d. fst d \<noteq> he_pointer ?e) (file_description_table h) = tab" "map_of (file_description_table h) (he_pointer ?e) = Some x"
      "map fst tab = pointers FileHandle (?es[i := ?e\<lparr>he_type := InvalidHandle\<rparr>])" "distinct (map fst tab)" "mset (map snd (file_description_table h)) = mset (map snd tab) + {#x#}"
      "\<And>j. j < length ?es \<Longrightarrow> j \<noteq> i \<Longrightarrow> he_type (?es ! j) = FileHandle \<Longrightarrow> map_of tab (he_pointer (?es ! j)) = map_of (file_description_table h) (he_pointer (?es ! j))"
    using close_entry [of "file_description_table h" FileHandle ?es i] assms(1) i by (auto simp: handles_wf_def)
  let ?h = "h\<lparr>handle_table := ?es[i := ?e\<lparr>he_type := InvalidHandle\<rparr>], file_description_table := tab\<rparr>"
  have "x = d" using assms(3) i(1,3) x(3) by (simp add: slots_def slot_of_def)
  moreover have "remove_handle i h = Inr ([x], [], ?h)" using i x(1,2) by (simp add: remove_handle_def Let_def comp_def)
  moreover have "handles_wf ?h" using assms(1) x(4,5) pointers_close [OF i(1), of ProcessHandle] i(3) nonzero_close [OF assms(1), of i] by (simp add: handles_wf_def)
  moreover have "slots ?h = (slots h)[i := Closed]"
    using i(1) x(7) by (intro slots_close) (simp_all add: slot_of_def split: handle_type.split)
  ultimately show ?thesis using x(6) by (intro exI [of _ ?h]) simp
qed

lemma remove_process_law:
  assumes "handles_wf h" "i < length (slots h)" "slots h ! i = ProcessSlot a"
  shows "\<exists>h'. remove_handle i h = Inr ([], [a], h') \<and> handles_wf h' \<and> slots h' = (slots h)[i := Closed] \<and>
     mset (map snd (process_description_table h)) = mset (map snd (process_description_table h')) + {#a#} \<and> file_description_table h' = file_description_table h"
proof -
  let ?es = "handle_table h" and ?e = "handle_table h ! i"
  have i: "i < length ?es" "arr_get ?es i = Inr ?e" "he_type ?e = ProcessHandle" "he_pointer ?e \<noteq> 0"
    using assms(1,2) slot_entry [OF assms(2)] wf_nonzero assms(3) by (auto simp: arr_get_def slot_type_def)
  obtain x tab where x: "filter (\<lambda>d. fst d = he_pointer ?e) (process_description_table h) = [(he_pointer ?e, x)]"
      "filter (\<lambda>d. fst d \<noteq> he_pointer ?e) (process_description_table h) = tab" "map_of (process_description_table h) (he_pointer ?e) = Some x"
      "map fst tab = pointers ProcessHandle (?es[i := ?e\<lparr>he_type := InvalidHandle\<rparr>])" "distinct (map fst tab)" "mset (map snd (process_description_table h)) = mset (map snd tab) + {#x#}"
      "\<And>j. j < length ?es \<Longrightarrow> j \<noteq> i \<Longrightarrow> he_type (?es ! j) = ProcessHandle \<Longrightarrow> map_of tab (he_pointer (?es ! j)) = map_of (process_description_table h) (he_pointer (?es ! j))"
    using close_entry [of "process_description_table h" ProcessHandle ?es i] assms(1) i by (auto simp: handles_wf_def)
  let ?h = "h\<lparr>handle_table := ?es[i := ?e\<lparr>he_type := InvalidHandle\<rparr>], process_description_table := tab\<rparr>"
  have "x = a" using assms(3) i(1,3) x(3) by (simp add: slots_def slot_of_def)
  moreover have "remove_handle i h = Inr ([], [x], ?h)" using i x(1,2) by (simp add: remove_handle_def Let_def comp_def)
  moreover have "handles_wf ?h" using assms(1) x(4,5) pointers_close [OF i(1), of FileHandle] i(3) nonzero_close [OF assms(1), of i] by (simp add: handles_wf_def)
  moreover have "slots ?h = (slots h)[i := Closed]"
    using i(1) x(7) by (intro slots_close) (simp_all add: slot_of_def split: handle_type.split)
  ultimately show ?thesis using x(6) by (intro exI [of _ ?h]) simp
qed

lemma remove_closed: "handles_wf h \<Longrightarrow> i < length (slots h) \<Longrightarrow> slots h ! i = Closed \<Longrightarrow> remove_handle i h = Inl AssertFailed"
  using slot_entry [of i h] wf_nonzero [of h i] by (simp add: remove_handle_def arr_get_def slot_type_def Let_def)

section \<open>Sequences of calls\<close>

text \<open>
  The calls on a table. A new description comes with its address, given by a function of the number of
  calls before. The answers are what the caller sees.
\<close>

datatype handle_op = AddFile file_description | AddProcess nat | Remove nat | Check nat | GetFile nat | GetProcess nat

datatype handle_answer = NewHandle nat | Removed "file_description list" "nat list" | TypeIs handle_type | GotFile file_description | GotProcess nat

definition handle_step :: "nat \<Rightarrow> handle_op \<Rightarrow> handles_manager \<Rightarrow> (handle_answer \<times> handles_manager) run" where
  "handle_step p op h = (case op of
     AddFile d \<Rightarrow> (let (i, h') = add_file_handle (p, d) h in Inr (NewHandle i, h'))
   | AddProcess a \<Rightarrow> (let (i, h') = add_process_handle (p, a) h in Inr (NewHandle i, h'))
   | Remove i \<Rightarrow> bindr (remove_handle i h) (\<lambda>(ds, as, h'). Inr (Removed ds as, h'))
   | Check i \<Rightarrow> bindr (check_handle i h) (\<lambda>t. Inr (TypeIs t, h))
   | GetFile i \<Rightarrow> bindr (get_file_description i h) (\<lambda>d. Inr (GotFile d, h))
   | GetProcess i \<Rightarrow> bindr (get_process_description i h) (\<lambda>a. Inr (GotProcess a, h)))"

fun run_handles :: "(nat \<times> handle_op) list \<Rightarrow> handles_manager \<Rightarrow> (handle_answer list \<times> handles_manager) run" where
  "run_handles [] h = Inr ([], h)"
| "run_handles ((p, op) # ops) h = bindr (handle_step p op h) (\<lambda>(r, h'). bindr (run_handles ops h') (\<lambda>(rs, h''). Inr (r # rs, h'')))"

text \<open>The same calls on a list of slots, where a handle is a position that is never used again.\<close>

definition slot_at :: "slot_view list \<Rightarrow> nat \<Rightarrow> slot_view run" where
  "slot_at xs i = (if i < length xs then Inr (xs ! i) else Inl BadAccess)"

definition slot_step :: "handle_op \<Rightarrow> slot_view list \<Rightarrow> (handle_answer \<times> slot_view list) run" where
  "slot_step op xs = (case op of
     AddFile d \<Rightarrow> Inr (NewHandle (length xs), xs @ [FileSlot d])
   | AddProcess a \<Rightarrow> Inr (NewHandle (length xs), xs @ [ProcessSlot a])
   | Remove i \<Rightarrow> bindr (slot_at xs i) (\<lambda>s. case s of Closed \<Rightarrow> Inl AssertFailed
       | FileSlot d \<Rightarrow> Inr (Removed [d] [], xs[i := Closed]) | ProcessSlot a \<Rightarrow> Inr (Removed [] [a], xs[i := Closed]))
   | Check i \<Rightarrow> Inr (TypeIs (if i < length xs then slot_type (xs ! i) else InvalidHandle), xs)
   | GetFile i \<Rightarrow> bindr (slot_at xs i) (\<lambda>s. case s of FileSlot d \<Rightarrow> Inr (GotFile d, xs) | _ \<Rightarrow> Inl AssertFailed)
   | GetProcess i \<Rightarrow> bindr (slot_at xs i) (\<lambda>s. case s of ProcessSlot a \<Rightarrow> Inr (GotProcess a, xs) | _ \<Rightarrow> Inl AssertFailed))"

fun run_slots :: "handle_op list \<Rightarrow> slot_view list \<Rightarrow> (handle_answer list \<times> slot_view list) run" where
  "run_slots [] xs = Inr ([], xs)"
| "run_slots (op # ops) xs = bindr (slot_step op xs) (\<lambda>(r, xs'). bindr (run_slots ops xs') (\<lambda>(rs, xs''). Inr (r # rs, xs'')))"

definition live_addresses :: "handles_manager \<Rightarrow> nat set" where
  "live_addresses h = fst ` set (file_description_table h) \<union> fst ` set (process_description_table h)"

text \<open>The allocator gives addresses that are not 0 and that no live object has.\<close>

fun fresh_run :: "(nat \<times> handle_op) list \<Rightarrow> handles_manager \<Rightarrow> bool" where
  "fresh_run [] h = True"
| "fresh_run ((p, op) # ops) h = (p \<noteq> 0 \<and> p \<notin> live_addresses h \<and> (case handle_step p op h of Inl _ \<Rightarrow> True | Inr (_, h') \<Rightarrow> fresh_run ops h'))"

lemma handle_step_law:
  assumes "handles_wf h" "p \<noteq> 0" "p \<notin> live_addresses h"
  shows "case slot_step op (slots h) of Inl e \<Rightarrow> handle_step p op h = Inl e
     | Inr (r, xs) \<Rightarrow> \<exists>h'. handle_step p op h = Inr (r, h') \<and> handles_wf h' \<and> slots h' = xs"
proof (cases op)
  case (AddFile d)
  then show ?thesis using add_file_handle_law [OF assms(1,2), of d] assms(3) by (auto simp: handle_step_def slot_step_def live_addresses_def)
next
  case (AddProcess a)
  then show ?thesis using add_process_handle_law [OF assms(1,2), of a] assms(3) by (auto simp: handle_step_def slot_step_def live_addresses_def)
next
  case (Remove i)
  show ?thesis
  proof (cases "i < length (slots h)")
    case True
    then show ?thesis using Remove remove_closed [OF assms(1), of i] remove_file_law [OF assms(1), of i] remove_process_law [OF assms(1), of i]
      by (cases "slots h ! i") (auto simp: handle_step_def slot_step_def slot_at_def)
  qed (use Remove in \<open>simp add: handle_step_def slot_step_def slot_at_def remove_handle_def arr_get_def\<close>)
next
  case (Check i)
  then show ?thesis using get_description_law(1) [OF assms(1), of i] assms(1) by (cases "i < length (slots h)") (auto simp: handle_step_def slot_step_def check_handle_def)
next
  case (GetFile i)
  then show ?thesis using get_description_law(2) [OF assms(1), of i] assms(1)
    by (cases "i < length (slots h)"; cases "slots h ! i") (auto simp: handle_step_def slot_step_def slot_at_def get_file_description_def arr_get_def)
next
  case (GetProcess i)
  then show ?thesis using get_description_law(3) [OF assms(1), of i] assms(1)
    by (cases "i < length (slots h)"; cases "slots h ! i") (auto simp: handle_step_def slot_step_def slot_at_def get_process_description_def arr_get_def)
qed

lemma run_handles_law:
  "handles_wf h \<Longrightarrow> fresh_run ops h \<Longrightarrow> case run_slots (map snd ops) (slots h) of Inl e \<Rightarrow> run_handles ops h = Inl e
     | Inr (rs, xs) \<Rightarrow> \<exists>h'. run_handles ops h = Inr (rs, h') \<and> handles_wf h' \<and> slots h' = xs"
proof (induction ops arbitrary: h)
  case (Cons o1 ops)
  obtain p op where o1: "o1 = (p, op)" by (cases o1)
  show ?case
  proof (cases "slot_step op (slots h)")
    case (Inl e)
    then show ?thesis using handle_step_law [OF Cons.prems(1), of p op] Cons.prems(2) o1 by simp
  next
    case (Inr rx)
    then obtain r xs h' where s: "slot_step op (slots h) = Inr (r, xs)" "handle_step p op h = Inr (r, h')" "handles_wf h'" "slots h' = xs"
      using handle_step_law [OF Cons.prems(1), of p op] Cons.prems(2) o1 by (cases rx) auto
    then have "fresh_run ops h'" using Cons.prems(2) o1 by simp
    from Cons.IH [OF s(3) this] show ?thesis using s o1 by (cases "run_slots (map snd ops) xs") auto
  qed
qed simp

text \<open>
  (C11) Handles are typed and never reused: every sequence of calls on a fresh table gives the answers, and
  the failed assertions, of a list of slots in which a handle is the position of its slot, a slot keeps
  its type until it is closed and stays closed then. A call that asks for a file behind a handle of a
  process, or the other way round, always fails its assertion, and no call reads a description that
  was destroyed.
\<close>

theorem handles_typed:
  assumes "fresh_run ops handles_new"
  shows "case run_slots (map snd ops) [] of Inl e \<Rightarrow> run_handles ops handles_new = Inl e
     | Inr (rs, xs) \<Rightarrow> \<exists>h. run_handles ops handles_new = Inr (rs, h) \<and> handles_wf h \<and> slots h = xs"
  using run_handles_law [OF handles_new_wf(1) assms] by (simp add: handles_new_wf(2))

theorem handles_typed_witness:
  "\<exists>h. run_handles [(16, AddProcess 1), (32, AddFile \<lparr>fd_type = File, fd_mode = OM_READ, fd_node = 1, fd_current_position = 0\<rparr>), (48, Remove 0), (16, AddProcess 2), (64, Check 0), (64, GetProcess 2)] handles_new =
     Inr ([NewHandle 0, NewHandle 1, Removed [] [1], NewHandle 2, TypeIs InvalidHandle, GotProcess 2], h) \<and> handles_wf h"
proof -
  let ?d = "\<lparr>fd_type = File, fd_mode = OM_READ, fd_node = 1, fd_current_position = 0\<rparr>"
  let ?ops = "[(16, AddProcess 1), (32, AddFile ?d), (48, Remove 0), (16, AddProcess 2), (64, Check 0), (64, GetProcess 2)]"
  have "fresh_run ?ops handles_new"
    by (simp add: handle_step_def handles_new_def live_addresses_def add_file_handle_def add_process_handle_def remove_handle_def check_handle_def
        get_process_description_def arr_get_def object_at_def Let_def comp_def)
  from handles_typed [OF this] show ?thesis by (auto simp: slot_step_def slot_at_def slot_type_def)
qed

end
