(* ===== verification/Processes.thy ===== *)
theory Processes
  imports Handles Bitmaps
begin

text \<open>
  Processes and process descriptions (process.h, process.cpp, process_description.cpp). The kernel
  state has the processes by their addresses, in the order of the list, the pool of process
  identifiers and the file system. A process description is the address of its process. Destroying a
  process destroys its handles, which can release further processes. What a constructor takes from the
  memory manager (the page directory, the memory of the information block) is an argument; the threads
  of a process are in \<open>Threads\<close>. Waiting is an outcome \<open>None\<close>, and wake-ups are counted.
\<close>

section \<open>Model\<close>

datatype process_state = ReadyProcess | BlockedProcess | SuspendedProcess | Zombie

datatype process_privilege = KernelProcess | UserProcess

definition MAX_PATH_SIZE :: nat where "MAX_PATH_SIZE = 512"

record process_information_block =
  ub_pid :: size_t
  ub_path_data :: "u8 block"
  ub_argument_data :: "u8 block"

record process =
  pr_pid :: size_t
  pr_name :: string_obj
  pr_path :: string_obj
  pr_argument :: string_obj
  pr_privilege_level :: process_privilege
  pr_page_directory :: nat
  pr_descriptor_references :: size_t
  pr_state :: process_state
  pr_handles :: handles_manager
  pr_pib :: "process_information_block option"
  pr_return_status :: "int option"
  pr_wake_ups :: nat

record kernel_state =
  ks_vfs :: vfs
  ks_processes :: "(nat \<times> process) list"
  ks_pids :: bitmap

definition processes_new :: "vfs \<Rightarrow> kernel_state" where
  "processes_new v = \<lparr>ks_vfs = v, ks_processes = [], ks_pids = bm_new 65535\<rparr>"

definition process_at :: "kernel_state \<Rightarrow> nat \<Rightarrow> process run" where
  "process_at k a = object_at (ks_processes k) a"

definition set_process :: "nat \<Rightarrow> process \<Rightarrow> kernel_state \<Rightarrow> kernel_state" where
  "set_process a p k = k\<lparr>ks_processes := map (\<lambda>(b, q). if b = a then (b, p) else (b, q)) (ks_processes k)\<rparr>"

definition reserve_pid :: "kernel_state \<Rightarrow> (size_t \<times> kernel_state) run" where
  "reserve_pid k = bindr (id_reserve (\<lambda>b. bm_find_first_clear b 0) bm_set (ks_pids k)) (\<lambda>(i, b). Inr (i, k\<lparr>ks_pids := b\<rparr>))"

definition virtual_process_new :: "string_view \<Rightarrow> nat \<Rightarrow> kernel_state \<Rightarrow> (process \<times> kernel_state) run" where
  "virtual_process_new name page_directory k = bindr (reserve_pid k) (\<lambda>(i, k1). bindr (str_from_view name) (\<lambda>n.
     bindr (str_from_cstr (literal [47])) (\<lambda>path. bindr (str_from_cstr (literal [])) (\<lambda>argument.
     Inr (\<lparr>pr_pid = i, pr_name = n, pr_path = path, pr_argument = argument, pr_privilege_level = KernelProcess, pr_page_directory = page_directory,
       pr_descriptor_references = 0, pr_state = ReadyProcess, pr_handles = handles_new, pr_pib = None, pr_return_status = None, pr_wake_ups = 0\<rparr>, k1)))))"

definition create_virtual_process :: "string_view \<Rightarrow> nat \<Rightarrow> nat \<Rightarrow> kernel_state \<Rightarrow> kernel_state run" where
  "create_virtual_process name page_directory a k = bindr (virtual_process_new name page_directory k) (\<lambda>(p, k1).
     Inr (k1\<lparr>ks_processes := ks_processes k1 @ [(a, p)]\<rparr>))"

definition fill_pib :: "process \<Rightarrow> process_information_block \<Rightarrow> process_information_block run" where
  "fill_pib p b = bindr (memcpy (ub_argument_data b) 0 (c_str (pr_argument p)) (str_length (pr_argument p))) (\<lambda>ad.
     bindr (memcpy (ub_path_data b) 0 (c_str (pr_path p)) (str_length (pr_path p))) (\<lambda>pd.
     bindr (assign_slot True ad (str_length (pr_argument p)) 0) (\<lambda>ad1. bindr (assign_slot True pd (str_length (pr_path p)) 0) (\<lambda>pd1.
     Inr \<lparr>ub_pid = pr_pid p, ub_path_data = pd1, ub_argument_data = ad1\<rparr>))))"

definition process_new :: "string_view \<Rightarrow> path_view \<Rightarrow> string_view \<Rightarrow> process_privilege \<Rightarrow> nat \<Rightarrow> process_information_block \<Rightarrow> kernel_state \<Rightarrow>
    (process \<times> kernel_state) run" where
  "process_new name path argument privilege page_directory pib k = bindr (reserve_pid k) (\<lambda>(i, k1). bindr (str_from_view name) (\<lambda>n.
     bindr (pv_full_path path) (\<lambda>f. bindr (str_from_view argument) (\<lambda>g.
     let p = \<lparr>pr_pid = i, pr_name = n, pr_path = f, pr_argument = g, pr_privilege_level = privilege, pr_page_directory = page_directory,
       pr_descriptor_references = 0, pr_state = ReadyProcess, pr_handles = handles_new, pr_pib = None, pr_return_status = None, pr_wake_ups = 0\<rparr> in
     bindr (fill_pib p pib) (\<lambda>b. Inr (p\<lparr>pr_pib := Some b\<rparr>, k1))))))"

definition create_new_process :: "path_view \<Rightarrow> string_view \<Rightarrow> process_privilege \<Rightarrow> nat \<Rightarrow> process_information_block \<Rightarrow> nat \<Rightarrow> kernel_state \<Rightarrow> kernel_state run" where
  "create_new_process path argument privilege page_directory pib a k = bindr (pv_index path (-1)) (\<lambda>name.
     bindr (process_new name path argument privilege page_directory pib k) (\<lambda>(p, k1).
     Inr (k1\<lparr>ks_processes := ks_processes k1 @ [(a, p)]\<rparr>)))"

definition get_process_from_pid :: "size_t \<Rightarrow> kernel_state \<Rightarrow> nat result" where
  "get_process_from_pid pid k = (case List.find (\<lambda>(a, p). pr_pid p = pid) (ks_processes k) of
     None \<Rightarrow> ResultError ERROR_INVALID_PID | Some (a, p) \<Rightarrow> Result a)"

section \<open>Releasing a process\<close>

text \<open>\<open>delete\<close> of a process that was taken out of the list; \<open>dereferenced\<close> releases a process description.\<close>

definition process_destroy :: "(nat \<Rightarrow> kernel_state \<Rightarrow> kernel_state run) \<Rightarrow> process \<Rightarrow> kernel_state \<Rightarrow> kernel_state run" where
  "process_destroy dereferenced p k = bindr (bm_check_set (ks_pids k) (pr_pid p)) (\<lambda>b. assert_then b
     (bindr (bm_clear (ks_pids k) (pr_pid p)) (\<lambda>pids.
      bindr (run_fold dereferenced (map snd (process_description_table (pr_handles p))) (k\<lparr>ks_pids := pids\<rparr>)) (\<lambda>k1.
      bindr (run_fold fd_destroy (map snd (file_description_table (pr_handles p))) (ks_vfs k1)) (\<lambda>v.
      Inr (k1\<lparr>ks_vfs := v\<rparr>))))))"

definition cleanup :: "(nat \<Rightarrow> kernel_state \<Rightarrow> kernel_state run) \<Rightarrow> nat \<Rightarrow> kernel_state \<Rightarrow> kernel_state run" where
  "cleanup dereferenced a k = bindr (process_at k a) (\<lambda>p.
     process_destroy dereferenced p (k\<lparr>ks_processes := filter (\<lambda>(b, _). b \<noteq> a) (ks_processes k)\<rparr>))"

text \<open>
  Every nested release follows the removal of a process: the number of processes bounds the nesting,
  and with no process left there is none to release.
\<close>

fun dereference :: "nat \<Rightarrow> nat \<Rightarrow> kernel_state \<Rightarrow> kernel_state run" where
  "dereference 0 a k = Inl Lifetime"
| "dereference (Suc n) a k = bindr (process_at k a) (\<lambda>p. assert_then (pr_descriptor_references p \<noteq> 0)
     (let p1 = p\<lparr>pr_descriptor_references := sz_sub (pr_descriptor_references p) 1\<rparr>; k1 = set_process a p1 k in
      if pr_state p1 = Zombie \<and> pr_descriptor_references p1 = 0 then cleanup (dereference n) a k1 else Inr k1))"

definition descriptor_dereferenced :: "nat \<Rightarrow> kernel_state \<Rightarrow> kernel_state run" where
  "descriptor_dereferenced a k = dereference (length (ks_processes k)) a k"

definition descriptor_referenced :: "nat \<Rightarrow> kernel_state \<Rightarrow> kernel_state run" where
  "descriptor_referenced a k = bindr (process_at k a) (\<lambda>p.
     Inr (set_process a (p\<lparr>pr_descriptor_references := sz_add (pr_descriptor_references p) 1\<rparr>) k))"

text \<open>What \<open>terminate\<close> does once the threads of the process are terminated.\<close>

definition terminate :: "int \<Rightarrow> nat \<Rightarrow> kernel_state \<Rightarrow> kernel_state run" where
  "terminate status_code a k = bindr (process_at k a) (\<lambda>p. assert_then (pr_state p \<noteq> Zombie)
     (let k1 = set_process a (p\<lparr>pr_state := Zombie, pr_return_status := Some status_code, pr_wake_ups := pr_wake_ups p + 1\<rparr>) k in
      if pr_descriptor_references p = 0 then cleanup descriptor_dereferenced a k1 else Inr k1))"

definition wait_for_signal :: "nat \<Rightarrow> kernel_state \<Rightarrow> int option option run" where
  "wait_for_signal a k = bindr (process_at k a) (\<lambda>p. Inr (if pr_state p \<noteq> Zombie then None else Some (pr_return_status p)))"

section \<open>Handles of a process\<close>

definition process_description_open :: "size_t \<Rightarrow> kernel_state \<Rightarrow> (nat result \<times> kernel_state) run" where
  "process_description_open pid k = (let r = get_process_from_pid pid k in
     if is_error r then Inr (ResultError (result_error r), k)
     else bindr (result_value r) (\<lambda>a. bindr (descriptor_referenced a k) (\<lambda>k1. Inr (Result a, k1))))"

definition open_process_handle :: "nat \<Rightarrow> nat \<Rightarrow> size_t \<Rightarrow> kernel_state \<Rightarrow> (nat result \<times> kernel_state) run" where
  "open_process_handle c d pid k = bindr (process_description_open pid k) (\<lambda>(r, k1).
     if is_error r then Inr (ResultError (result_error r), k1)
     else bindr (result_value r) (\<lambda>a. bindr (process_at k1 c) (\<lambda>p.
       let (i, h) = add_process_handle (d, a) (pr_handles p) in Inr (Result i, set_process c (p\<lparr>pr_handles := h\<rparr>) k1))))"

definition open_file_handle :: "nat \<Rightarrow> nat \<Rightarrow> path_view \<Rightarrow> open_mode \<Rightarrow> open_flags \<Rightarrow> kernel_state \<Rightarrow> (nat result \<times> kernel_state) run" where
  "open_file_handle c d path mode flags k = bindr (fd_open (ks_vfs k) path mode flags) (\<lambda>(r, v). let k1 = k\<lparr>ks_vfs := v\<rparr> in
     if is_error r then Inr (ResultError (result_error r), k1)
     else bindr (result_value r) (\<lambda>f. bindr (process_at k1 c) (\<lambda>p.
       let (i, h) = add_file_handle (d, f) (pr_handles p) in Inr (Result i, set_process c (p\<lparr>pr_handles := h\<rparr>) k1))))"

text \<open>\<open>remove_handle\<close> with the destructors of what it removes.\<close>

definition close_process_handle :: "nat \<Rightarrow> nat \<Rightarrow> kernel_state \<Rightarrow> kernel_state run" where
  "close_process_handle c i k = bindr (process_at k c) (\<lambda>p. bindr (remove_handle i (pr_handles p)) (\<lambda>(fs, as, h).
     bindr (run_fold fd_destroy fs (ks_vfs k)) (\<lambda>v.
     run_fold descriptor_dereferenced as (set_process c (p\<lparr>pr_handles := h\<rparr>) (k\<lparr>ks_vfs := v\<rparr>)))))"

section \<open>Open descriptions and pipes\<close>

definition fds_on :: "nat \<Rightarrow> open_mode \<Rightarrow> file_description multiset \<Rightarrow> nat" where
  "fds_on i m F = size (filter_mset (\<lambda>d. fd_node d = i \<and> fd_mode d = m) F)"

text \<open>The readers and writers that a pipe counts are the open descriptions F of it.\<close>

definition fds_ok :: "vfs \<Rightarrow> file_description multiset \<Rightarrow> bool" where
  "fds_ok v F = (vfs_wf v \<and> size F < sz_range \<and> (\<forall>d\<in>#F. fd_node d < length (v_nodes v)) \<and>
     (\<forall>i p. i < length (v_nodes v) \<longrightarrow> fn_class (v_nodes v ! i) = Pipe p \<longrightarrow> p_readers p = fds_on i OM_READ F \<and> p_writers p = fds_on i OM_WRITE F \<and>
        (\<forall>d\<in>#F. fd_node d = i \<longrightarrow> fd_mode d = OM_READ \<or> fd_mode d = OM_WRITE)))"

lemma fds_on_add: "fds_on i m (add_mset d F) = fds_on i m F + of_bool (fd_node d = i \<and> fd_mode d = m)"
  by (simp add: fds_on_def)

lemma fds_on_le: "fds_on i m F \<le> size F"
  by (simp add: fds_on_def size_filter_mset_lesseq)

lemma set_class_Pipe_wf:
  assumes "vfs_wf v" "i < length (v_nodes v)" "fn_class (v_nodes v ! i) = Pipe p"
  shows "vfs_wf (set_class i (Pipe q) v)"
proof -
  let ?n = "(v_nodes v ! i)\<lparr>fn_class := Pipe q\<rparr>"
  have "named (v_nodes v ! i)" using assms(1,2) by (auto simp: vfs_wf_def)
  then have "named ?n" "directory (fn_class ?n) = None" by (simp_all add: named_def directory_def)
  moreover have "set ((v_nodes v)[i := ?n]) \<subseteq> insert ?n (set (v_nodes v))" by (rule set_update_subset_insert)
  ultimately show ?thesis using assms(1) by (fastforce simp: vfs_wf_def set_class_def)
qed

lemma node_at_ok: "i < length (v_nodes v) \<Longrightarrow> node_at v i = Inr (v_nodes v ! i)"
  by (simp add: node_at_def arr_get_def)

lemma open_modes_distinct: "OM_READ \<noteq> OM_WRITE"
  by (simp add: OM_READ_def OM_WRITE_def)

lemma fd_destroy_law:
  assumes "fds_ok v (add_mset d F)"
  shows "\<exists>v'. fd_destroy d v = Inr v' \<and> fds_ok v' F"
proof (cases "\<exists>p. fn_class (v_nodes v ! fd_node d) = Pipe p")
  case True
  then obtain p where p: "fn_class (v_nodes v ! fd_node d) = Pipe p" by blast
  let ?i = "fd_node d"
  have i: "?i < length (v_nodes v)" using assms by (simp add: fds_ok_def)
  have c: "p_readers p = fds_on ?i OM_READ (add_mset d F)" "p_writers p = fds_on ?i OM_WRITE (add_mset d F)" "fd_mode d = OM_READ \<or> fd_mode d = OM_WRITE"
    using assms i p by (auto simp: fds_ok_def)
  define q where "q = (if fd_mode d = OM_READ then p\<lparr>p_readers := p_readers p - 1\<rparr> else p\<lparr>p_writers := p_writers p - 1\<rparr>)"
  have "size (add_mset d F) < sz_range" using assms by (simp add: fds_ok_def)
  then have b: "p_readers p < sz_range" "p_writers p < sz_range" using c fds_on_le [of ?i] by (metis le_less_trans)+
  have "pipe_close (fd_mode d) p = Inr (ResultError 0, q)"
    using c b open_modes_distinct by (auto simp: pipe_close_def q_def fds_on_add sz_sub_eq)
  then have r: "fd_destroy d v = Inr (set_class ?i (Pipe q) v)" using p i by (simp add: fd_destroy_def node_close_def node_at_ok)
  have "p_readers q = fds_on ?i OM_READ F" "p_writers q = fds_on ?i OM_WRITE F"
    using c open_modes_distinct by (auto simp: q_def fds_on_add)
  moreover have "\<forall>e\<in>#F. fd_node e = ?i \<longrightarrow> fd_mode e = OM_READ \<or> fd_mode e = OM_WRITE" using assms i p by (auto simp: fds_ok_def)
  ultimately have "fds_ok (set_class ?i (Pipe q) v) F"
    using assms set_class_Pipe_wf [OF _ i p] i by (auto simp: fds_ok_def set_class_def nth_list_update fds_on_add split: if_splits)
  then show ?thesis using r by blast
next
  case False
  then have "fd_destroy d v = Inr v" using assms by (cases "fn_class (v_nodes v ! fd_node d)") (auto simp: fds_ok_def fd_destroy_def node_close_def node_at_ok)
  moreover have "fds_ok v F" using assms False by (auto simp: fds_ok_def fds_on_add)
  ultimately show ?thesis by blast
qed

lemma fds_destroy_law: "fds_ok v (mset ds + F) \<Longrightarrow> \<exists>v'. run_fold fd_destroy ds v = Inr v' \<and> fds_ok v' F"
proof (induction ds arbitrary: v)
  case (Cons d ds)
  then obtain v1 where "fd_destroy d v = Inr v1" "fds_ok v1 (mset ds + F)" using fd_destroy_law [of v d "mset ds + F"] by auto
  with Cons.IH show ?case by auto
qed simp

lemma walk_bound: "vfs_wf v \<Longrightarrow> i < length (v_nodes v) \<Longrightarrow> walk v i xs = Result j \<Longrightarrow> j < length (v_nodes v)"
  by (induction xs arbitrary: i) (auto split: result.splits dest: dir_entry_bound)

lemma resolve_bound: "vfs_wf v \<Longrightarrow> resolve v xs = Result j \<Longrightarrow> j < length (v_nodes v)"
  by (auto simp: resolve_def vfs_wf_def split: list.splits if_splits option.splits dest!: find_member walk_bound [rotated 2])

lemma fd_open_law:
  assumes "fds_ok v F" "pv_rep path cs ds" "mode = OM_READ \<or> mode = OM_WRITE" "size F + 1 < sz_range"
  shows "\<exists>r v'. fd_open v path mode OF_OPEN_EXISTING = Inr (r, v') \<and>
     (case r of ResultError e \<Rightarrow> e \<noteq> 0 \<and> fds_ok v' F | Result d \<Rightarrow> fds_ok v' (add_mset d F))"
proof -
  have w: "vfs_wf v" using assms(1) by (simp add: fds_ok_def)
  have "open_existing_node v path = Inr (resolve v (cs @ ds))"
    using traverse_node_law [OF w assms(2)] resolve_error [of v "cs @ ds"] by (cases "resolve v (cs @ ds)") (auto simp: open_existing_node_def)
  then have g: "get_node v path mode OF_OPEN_EXISTING = Inr (resolve v (cs @ ds), v)" by (simp add: get_node_def OF_OPEN_EXISTING_def OF_CREATE_NEW_def)
  show ?thesis
  proof (cases "resolve v (cs @ ds)")
    case (ResultError e)
    then show ?thesis using g resolve_error [OF ResultError] assms(1) by (simp add: fd_open_def)
  next
    case (Result i)
    have i: "i < length (v_nodes v)" using resolve_bound [OF w Result] .
    let ?d = "\<lparr>fd_type = fn_type (v_nodes v ! i), fd_mode = mode, fd_node = i, fd_current_position = 0\<rparr>"
    show ?thesis
    proof (cases "\<exists>p. fn_class (v_nodes v ! i) = Pipe p")
      case True
      then obtain p where p: "fn_class (v_nodes v ! i) = Pipe p" by blast
      define q where "q = (if mode = OM_READ then p\<lparr>p_readers := p_readers p + 1\<rparr> else p\<lparr>p_writers := p_writers p + 1\<rparr>)"
      have c: "p_readers p = fds_on i OM_READ F" "p_writers p = fds_on i OM_WRITE F" using assms(1) i p by (auto simp: fds_ok_def)
      have "p_readers p + 1 < sz_range" "p_writers p + 1 < sz_range" using c fds_on_le [of i _ F] assms(4) by (metis add_le_mono1 le_less_trans)+
      then have "pipe_open mode p = (ResultError 0, q)" using assms(3) by (auto simp: pipe_open_def q_def sz_add_eq)
      then have r: "fd_open v path mode OF_OPEN_EXISTING = Inr (Result ?d, set_class i (Pipe q) v)"
        using g Result p i by (simp add: fd_open_def fd_new_def node_open_def node_at_ok)
      have "p_readers q = fds_on i OM_READ (add_mset ?d F)" "p_writers q = fds_on i OM_WRITE (add_mset ?d F)"
        using c open_modes_distinct assms(3) by (auto simp: q_def fds_on_add)
      moreover have "\<forall>e\<in>#F. fd_node e = i \<longrightarrow> fd_mode e = OM_READ \<or> fd_mode e = OM_WRITE" using assms(1) i p by (auto simp: fds_ok_def)
      ultimately have "fds_ok (set_class i (Pipe q) v) (add_mset ?d F)"
        using assms(1,3,4) set_class_Pipe_wf [OF w i p] i by (auto simp: fds_ok_def set_class_def nth_list_update fds_on_add split: if_splits)
      then show ?thesis using r by auto
    next
      case False
      then have "fds_ok v (add_mset ?d F)" using assms(1,4) i by (auto simp: fds_ok_def fds_on_add)
      then show ?thesis using g Result i False assms(1)
        by (cases "fn_class (v_nodes v ! i)") (auto simp: fd_open_def fd_new_def node_open_def fd_destroy_def node_close_def node_at_ok ERROR_INVALID_OPERATION_def)
    qed
  qed
qed

section \<open>The invariant\<close>

definition proc_refs :: "process \<Rightarrow> nat multiset" where
  "proc_refs p = mset (map snd (process_description_table (pr_handles p)))"

definition proc_fds :: "process \<Rightarrow> file_description multiset" where
  "proc_fds p = mset (map snd (file_description_table (pr_handles p)))"

definition all_refs :: "(nat \<times> process) list \<Rightarrow> nat multiset" where
  "all_refs ps = sum_list (map (proc_refs \<circ> snd) ps)"

definition all_fds :: "(nat \<times> process) list \<Rightarrow> file_description multiset" where
  "all_fds ps = sum_list (map (proc_fds \<circ> snd) ps)"

lemma all_simps [simp]:
  "all_refs [] = {#}" "all_refs (x # ps) = proc_refs (snd x) + all_refs ps" "all_refs (ps @ qs) = all_refs ps + all_refs qs"
  "all_fds [] = {#}" "all_fds (x # ps) = proc_fds (snd x) + all_fds ps" "all_fds (ps @ qs) = all_fds ps + all_fds qs"
  by (simp_all add: all_refs_def all_fds_def)

text \<open>
  P are process descriptions, F file descriptions, that no table holds because their destructors are
  still to run.
\<close>

definition kernel_inv :: "kernel_state \<Rightarrow> nat multiset \<Rightarrow> file_description multiset \<Rightarrow> bool" where
  "kernel_inv k P F = (let ps = ks_processes k; R = all_refs ps + P in
     distinct (map fst ps) \<and> bmp.holds (ks_pids k) (map (pr_pid \<circ> snd) ps) \<and> bm_m_bitmap_size (ks_pids k) = 65535 \<and>
     (\<forall>(a, p)\<in>set ps. handles_wf (pr_handles p) \<and> pr_descriptor_references p = count R a \<and> (pr_state p = Zombie \<longrightarrow> count R a \<noteq> 0)) \<and>
     set_mset R \<subseteq> fst ` set ps \<and> size R < sz_range \<and> fds_ok (ks_vfs k) (all_fds ps + F))"

definition kernel_wf :: "kernel_state \<Rightarrow> bool" where
  "kernel_wf k = kernel_inv k {#} {#}"

text \<open>Processes that are not zombies stay, with everything but their count of references.\<close>

definition keeps_living :: "kernel_state \<Rightarrow> kernel_state \<Rightarrow> bool" where
  "keeps_living k k' = (\<forall>c p. map_of (ks_processes k) c = Some p \<longrightarrow> pr_state p \<noteq> Zombie \<longrightarrow>
     (\<exists>r. map_of (ks_processes k') c = Some (p\<lparr>pr_descriptor_references := r\<rparr>)))"

lemma keeps_living_refl [simp]: "keeps_living k k"
proof -
  have "p = p\<lparr>pr_descriptor_references := pr_descriptor_references p\<rparr>" for p :: process by simp
  then show ?thesis by (metis keeps_living_def)
qed

lemma keeps_living_trans: "keeps_living k k1 \<Longrightarrow> keeps_living k1 k2 \<Longrightarrow> keeps_living k k2"
  by (fastforce simp: keeps_living_def)

lemma process_split:
  assumes "distinct (map fst (ks_processes k))" "map_of (ks_processes k) a = Some p"
  shows "\<exists>xs ys. ks_processes k = xs @ (a, p) # ys \<and> a \<notin> fst ` set xs \<and> a \<notin> fst ` set ys \<and>
     (\<forall>q. ks_processes (set_process a q k) = xs @ (a, q) # ys) \<and> filter (\<lambda>(b, _). b \<noteq> a) (ks_processes k) = xs @ ys"
proof -
  obtain xs ys where s: "ks_processes k = xs @ (a, p) # ys" using split_list [OF map_of_SomeD [OF assms(2)]] by blast
  then have n: "a \<notin> fst ` set xs" "a \<notin> fst ` set ys" using assms(1) by auto
  have "map (\<lambda>(b, q'). if b = a then (b, q) else (b, q')) zs = zs" if "a \<notin> fst ` set zs" for zs and q :: process
    using that by (induction zs) auto
  moreover have "filter (\<lambda>(b, _). b \<noteq> a) zs = zs" if "a \<notin> fst ` set zs" for zs :: "(nat \<times> process) list"
    using that by (induction zs) auto
  ultimately show ?thesis using s n by (intro exI [of _ xs] exI [of _ ys]) (simp add: set_process_def)
qed

lemma process_at_Some: "map_of (ks_processes k) a = Some p \<Longrightarrow> process_at k a = Inr p"
  by (simp add: process_at_def object_at_def)

lemma set_process_map_of: "map_of (ks_processes (set_process a q k)) c = (if c = a then map_option (\<lambda>_. q) (map_of (ks_processes k) a) else map_of (ks_processes k) c)"
proof -
  have "map_of (map (\<lambda>(b, q'). if b = a then (b, q) else (b, q')) zs) c = (if c = a then map_option (\<lambda>_. q) (map_of zs a) else map_of zs c)" for zs :: "(nat \<times> process) list"
    by (induction zs) auto
  then show ?thesis by (simp add: set_process_def)
qed

lemma set_process_simps [simp]: "ks_vfs (set_process a p k) = ks_vfs k" "ks_pids (set_process a p k) = ks_pids k"
  by (simp_all add: set_process_def)

lemma holds_cong: "bmp.holds b ids \<Longrightarrow> distinct ids' \<Longrightarrow> set ids' = set ids \<Longrightarrow> bmp.holds b ids'"
  by (simp add: bmp.holds_def)

lemma kernel_invD:
  assumes "kernel_inv k P F" "map_of (ks_processes k) a = Some p"
  shows "handles_wf (pr_handles p)" "pr_descriptor_references p = count (all_refs (ks_processes k) + P) a"
    "pr_state p = Zombie \<longrightarrow> count (all_refs (ks_processes k) + P) a \<noteq> 0" "distinct (map fst (ks_processes k))"
  using assms(1) map_of_SomeD [OF assms(2)] by (auto simp: kernel_inv_def Let_def)

lemma kernel_invI:
  assumes "ks_processes k = zs" "all_refs zs + P = R" "all_fds zs + F = G" "distinct (map fst zs)" "bmp.holds (ks_pids k) (map (pr_pid \<circ> snd) zs)"
    and "bm_m_bitmap_size (ks_pids k) = 65535"
    and "\<And>a p. (a, p) \<in> set zs \<Longrightarrow> handles_wf (pr_handles p) \<and> pr_descriptor_references p = count R a \<and> (pr_state p = Zombie \<longrightarrow> count R a \<noteq> 0)"
    and "set_mset R \<subseteq> fst ` set zs" "size R < sz_range" "fds_ok (ks_vfs k) G"
  shows "kernel_inv k P F"
proof -
  have "\<forall>(a, p)\<in>set zs. handles_wf (pr_handles p) \<and> pr_descriptor_references p = count R a \<and> (pr_state p = Zombie \<longrightarrow> count R a \<noteq> 0)" using assms(7) by blast
  then show ?thesis unfolding kernel_inv_def Let_def assms(1) assms(2,3) using assms by blast
qed

lemma removed_inv:
  assumes "kernel_inv k (replicate_mset n a + P) F" "ks_processes k = xs @ (a, p) # ys" "count (all_refs (ks_processes k) + P) a = 0"
    and "bmp.holds b (remove1 (pr_pid p) (map (pr_pid \<circ> snd) (ks_processes k)))" "bm_m_bitmap_size b = 65535"
  shows "kernel_inv (k\<lparr>ks_processes := xs @ ys, ks_pids := b\<rparr>) (proc_refs p + P) (proc_fds p + F)"
proof -
  let ?R = "all_refs (ks_processes k) + P" and ?k = "k\<lparr>ks_processes := xs @ ys, ks_pids := b\<rparr>"
  note i = assms(1) [unfolded kernel_inv_def Let_def]
  have r: "all_refs (xs @ ys) + (proc_refs p + P) = ?R" "all_fds (xs @ ys) + (proc_fds p + F) = all_fds (ks_processes k) + F"
    by (simp_all add: assms(2) ac_simps)
  have d: "distinct (map fst (xs @ ys))" "a \<notin> fst ` set (xs @ ys)" using i assms(2) by auto
  have "distinct (map (pr_pid \<circ> snd) (ks_processes k))" using i by (simp add: bmp.holds_def)
  then have h: "bmp.holds b (map (pr_pid \<circ> snd) (xs @ ys))" using assms(4) by (intro holds_cong [OF assms(4)]) (auto simp: assms(2) set_remove1_eq)
  have c: "count (all_refs (ks_processes k) + (replicate_mset n a + P)) b = count ?R b" if "b \<noteq> a" for b using that by simp
  have p: "handles_wf (pr_handles q) \<and> pr_descriptor_references q = count ?R b \<and> (pr_state q = Zombie \<longrightarrow> count ?R b \<noteq> 0)" if "(b, q) \<in> set (xs @ ys)" for b q
  proof -
    have "b \<noteq> a" using that d(2) by force
    moreover have "(b, q) \<in> set (ks_processes k)" using that by (auto simp: assms(2))
    ultimately show ?thesis using i c [of b] by fastforce
  qed
  have "set_mset ?R \<subseteq> fst ` set (xs @ ys)"
  proof
    fix b assume b: "b \<in># ?R"
    then have "b \<noteq> a" using assms(3) by (metis not_in_iff)
    moreover have "b \<in> fst ` set (ks_processes k)" using b i by auto
    ultimately show "b \<in> fst ` set (xs @ ys)" by (auto simp: assms(2))
  qed
  moreover have "size ?R < sz_range" "fds_ok (ks_vfs k) (all_fds (ks_processes k) + F)" using i by simp_all
  moreover have e: "ks_processes ?k = xs @ ys" "ks_pids ?k = b" "ks_vfs ?k = ks_vfs k" by simp_all
  moreover have "bmp.holds (ks_pids ?k) (map (pr_pid \<circ> snd) (xs @ ys))" "bm_m_bitmap_size (ks_pids ?k) = 65535" using h assms(5) e(2) by simp_all
  ultimately show ?thesis using kernel_invI [OF e(1) r d(1) _ _ p] by (simp only: e)
qed

lemma kernel_inv_vfs: "kernel_inv k P F \<Longrightarrow> fds_ok v (all_fds (ks_processes k) + F') \<Longrightarrow> kernel_inv (k\<lparr>ks_vfs := v\<rparr>) P F'"
  by (simp add: kernel_inv_def Let_def)

text \<open>What a release of a process description does to states with fewer than n processes.\<close>

definition releases :: "nat \<Rightarrow> (nat \<Rightarrow> kernel_state \<Rightarrow> kernel_state run) \<Rightarrow> bool" where
  "releases n deref = (\<forall>k b P F. kernel_inv k (add_mset b P) F \<longrightarrow> length (ks_processes k) < n \<longrightarrow>
     (\<exists>k'. deref b k = Inr k' \<and> kernel_inv k' P F \<and> length (ks_processes k') \<le> length (ks_processes k) \<and> keeps_living k k'))"

lemma releases_fold:
  assumes "releases n deref"
  shows "kernel_inv k (mset as + P) F \<Longrightarrow> length (ks_processes k) < n \<Longrightarrow>
     \<exists>k'. run_fold deref as k = Inr k' \<and> kernel_inv k' P F \<and> length (ks_processes k') \<le> length (ks_processes k) \<and> keeps_living k k'"
proof (induction as arbitrary: k)
  case (Cons a as)
  then have "kernel_inv k (add_mset a (mset as + P)) F" by simp
  with assms Cons.prems(2) obtain k1 where k1: "deref a k = Inr k1" "kernel_inv k1 (mset as + P) F" "length (ks_processes k1) \<le> length (ks_processes k)" "keeps_living k k1"
    unfolding releases_def by blast
  then obtain k2 where "run_fold deref as k1 = Inr k2" "kernel_inv k2 P F" "length (ks_processes k2) \<le> length (ks_processes k1)" "keeps_living k1 k2"
    using Cons.IH [of k1] Cons.prems(2) by auto
  then show ?case using k1 keeps_living_trans by fastforce
qed simp

lemma cleanup_law:
  assumes "kernel_inv k (replicate_mset n a + P) F" "map_of (ks_processes k) a = Some p" "count (all_refs (ks_processes k) + P) a = 0"
    and "pr_pid q = pr_pid p" "pr_handles q = pr_handles p" "pr_state q = Zombie" "releases (length (ks_processes k)) deref"
  shows "\<exists>k'. cleanup deref a (set_process a q k) = Inr k' \<and> kernel_inv k' P F \<and> length (ks_processes k') < length (ks_processes k) \<and>
     keeps_living (set_process a q k) k'"
proof -
  note i = assms(1) [unfolded kernel_inv_def Let_def]
  obtain xs ys where s: "ks_processes k = xs @ (a, p) # ys" "a \<notin> fst ` set xs" "a \<notin> fst ` set ys" "ks_processes (set_process a q k) = xs @ (a, q) # ys"
    using process_split [OF kernel_invD(4) [OF assms(1,2)] assms(2)] by blast
  have f: "filter (\<lambda>(b, _). b \<noteq> a) (ks_processes (set_process a q k)) = xs @ ys"
  proof -
    have "filter (\<lambda>(b, _). b \<noteq> a) zs = zs" if "a \<notin> fst ` set zs" for zs :: "(nat \<times> process) list" using that by (induction zs) auto
    then show ?thesis using s by simp
  qed
  have h: "bmp.holds (ks_pids k) (map (pr_pid \<circ> snd) (ks_processes k))" using i by simp
  have m: "pr_pid p \<in> set (map (pr_pid \<circ> snd) (ks_processes k))" by (simp add: s(1))
  have w: "bm_wf (ks_pids k)" "pr_pid p < bm_m_bitmap_size (ks_pids k)" "bm_used (ks_pids k) (pr_pid p)" using h m by (auto simp: bmp.holds_def)
  have c: "bm_check_set (ks_pids k) (pr_pid p) = Inr True" using bm_check_set_law [OF w(1), of "pr_pid p"] w by simp
  obtain b where b: "bm_clear (ks_pids k) (pr_pid p) = Inr b" "bmp.holds b (remove1 (pr_pid p) (map (pr_pid \<circ> snd) (ks_processes k)))" "bm_m_bitmap_size b = 65535"
    using bmp.release_holds [OF h m] i by (auto simp: ok_iff)
  let ?k = "k\<lparr>ks_processes := xs @ ys, ks_pids := b\<rparr>"
  have k1: "kernel_inv ?k (mset (map snd (process_description_table (pr_handles p))) + P) (proc_fds p + F)"
    using removed_inv [OF assms(1) s(1) assms(3) b(2,3)] by (simp add: proc_refs_def)
  moreover have l: "length (ks_processes ?k) < length (ks_processes k)" by (simp add: s(1))
  ultimately obtain k2 where k2: "run_fold deref (map snd (process_description_table (pr_handles p))) ?k = Inr k2" "kernel_inv k2 P (proc_fds p + F)"
      "length (ks_processes k2) \<le> length (ks_processes ?k)" "keeps_living ?k k2"
    using releases_fold [OF assms(7)] by metis
  have "fds_ok (ks_vfs k2) (mset (map snd (file_description_table (pr_handles p))) + (all_fds (ks_processes k2) + F))"
    using k2(2) by (simp add: kernel_inv_def Let_def proc_fds_def ac_simps)
  from fds_destroy_law [OF this] obtain v where v: "run_fold fd_destroy (map snd (file_description_table (pr_handles p))) (ks_vfs k2) = Inr v" "fds_ok v (all_fds (ks_processes k2) + F)"
    by blast
  have "process_at (set_process a q k) a = Inr q" using assms(2) by (intro process_at_Some) (simp add: set_process_map_of)
  moreover have e: "(set_process a q k)\<lparr>ks_processes := xs @ ys, ks_pids := b\<rparr> = ?k" by (simp add: set_process_def)
  ultimately have "cleanup deref a (set_process a q k) = Inr (k2\<lparr>ks_vfs := v\<rparr>)"
    using f c b(1) k2(1) v(1) by (simp add: cleanup_def process_destroy_def assms(4,5) e)
  moreover have "keeps_living (set_process a q k) (k2\<lparr>ks_vfs := v\<rparr>)"
  proof -
    have "map_of (xs @ ys) c = map_of (ks_processes (set_process a q k)) c" if "c \<noteq> a" for c using map_of_without [OF that, of xs q ys] s(4) by simp
    then show ?thesis using k2(4) assms(2,6) by (auto simp: keeps_living_def set_process_map_of split: if_splits)
  qed
  moreover have "kernel_inv (k2\<lparr>ks_vfs := v\<rparr>) P F" by (rule kernel_inv_vfs [OF k2(2) v(2)])
  ultimately show ?thesis using k2(3) l by (intro exI [of _ "k2\<lparr>ks_vfs := v\<rparr>"]) simp
qed

text \<open>Changing one process: in general, then when only its count changes, and when only its handles change.\<close>

lemma update_inv:
  assumes "kernel_inv k P F" "map_of (ks_processes k) a = Some p" "pr_pid q = pr_pid p" "handles_wf (pr_handles q)"
    and "\<And>b. b \<noteq> a \<Longrightarrow> count R b = count (all_refs (ks_processes k) + P) b" "pr_descriptor_references q = count R a" "pr_state q = Zombie \<longrightarrow> count R a \<noteq> 0"
    and "size R < sz_range" "all_refs (ks_processes (set_process a q k)) + P' = R" "fds_ok (ks_vfs k) (all_fds (ks_processes (set_process a q k)) + F')"
  shows "kernel_inv (set_process a q k) P' F'"
proof -
  obtain xs ys where s: "ks_processes k = xs @ (a, p) # ys" "a \<notin> fst ` set xs" "a \<notin> fst ` set ys" "ks_processes (set_process a q k) = xs @ (a, q) # ys"
    using process_split [OF kernel_invD(4) [OF assms(1,2)] assms(2)] by blast
  note i = assms(1) [unfolded kernel_inv_def Let_def]
  have f: "fst ` set (xs @ (a, q) # ys) = fst ` set (ks_processes k)" by (auto simp: s(1))
  show ?thesis
  proof (rule kernel_invI [OF s(4), where R = R and G = "all_fds (ks_processes (set_process a q k)) + F'"])
    show "all_refs (xs @ (a, q) # ys) + P' = R" "all_fds (xs @ (a, q) # ys) + F' = all_fds (ks_processes (set_process a q k)) + F'" using assms(9) by (simp_all only: s(4))
    show "distinct (map fst (xs @ (a, q) # ys))" using i by (simp add: s(1))
    have "map (pr_pid \<circ> snd) (xs @ (a, q) # ys) = map (pr_pid \<circ> snd) (ks_processes k)" using assms(3) by (simp add: s(1))
    then show "bmp.holds (ks_pids (set_process a q k)) (map (pr_pid \<circ> snd) (xs @ (a, q) # ys))" using i by simp
    show "bm_m_bitmap_size (ks_pids (set_process a q k)) = 65535" using i by simp
    show "handles_wf (pr_handles p') \<and> pr_descriptor_references p' = count R b \<and> (pr_state p' = Zombie \<longrightarrow> count R b \<noteq> 0)" if "(b, p') \<in> set (xs @ (a, q) # ys)" for b p'
    proof (cases "b = a")
      case True
      then have "p' = q" using that s(2,3) by (auto simp: image_iff)
      then show ?thesis using True assms(4,6,7) by simp
    next
      case False
      then have "(b, p') \<in> set (ks_processes k)" using that by (auto simp: s(1))
      then have "handles_wf (pr_handles p') \<and> pr_descriptor_references p' = count (all_refs (ks_processes k) + P) b \<and> (pr_state p' = Zombie \<longrightarrow> count (all_refs (ks_processes k) + P) b \<noteq> 0)"
        using i by blast
      then show ?thesis unfolding assms(5) [OF False] .
    qed
    show "set_mset R \<subseteq> fst ` set (xs @ (a, q) # ys)"
    proof
      fix b assume "b \<in># R"
      then have "b = a \<or> b \<in># all_refs (ks_processes k) + P" using assms(5) [of b] by (metis count_greater_zero_iff)
      then show "b \<in> fst ` set (xs @ (a, q) # ys)" using i unfolding f by (auto simp: s(1))
    qed
  qed (use assms(8,10) in simp_all)
qed

lemma all_refs_set: "distinct (map fst (ks_processes k)) \<Longrightarrow> map_of (ks_processes k) a = Some p \<Longrightarrow>
    all_refs (ks_processes (set_process a q k)) + proc_refs p = all_refs (ks_processes k) + proc_refs q \<and>
    all_fds (ks_processes (set_process a q k)) + proc_fds p = all_fds (ks_processes k) + proc_fds q"
  using process_split [of k a p] by (auto simp: ac_simps)

lemma update_count_inv:
  assumes "kernel_inv k P F" "map_of (ks_processes k) a = Some p" "pr_pid q = pr_pid p" "pr_handles q = pr_handles p"
    and "\<And>b. b \<noteq> a \<Longrightarrow> count P' b = count P b" "pr_descriptor_references q = count (all_refs (ks_processes k) + P') a"
    and "pr_state q = Zombie \<longrightarrow> count (all_refs (ks_processes k) + P') a \<noteq> 0" "size (all_refs (ks_processes k) + P') < sz_range"
  shows "kernel_inv (set_process a q k) P' F"
proof -
  have "all_refs (ks_processes (set_process a q k)) = all_refs (ks_processes k)" "all_fds (ks_processes (set_process a q k)) = all_fds (ks_processes k)"
    using all_refs_set [OF kernel_invD(4) [OF assms(1,2)] assms(2), of q] assms(4) by (simp_all add: proc_refs_def proc_fds_def)
  moreover have "fds_ok (ks_vfs k) (all_fds (ks_processes k) + F)" using assms(1) by (simp add: kernel_inv_def Let_def)
  ultimately show ?thesis
    by (intro update_inv [OF assms(1,2,3), where R = "all_refs (ks_processes k) + P'"]) (use assms(4-8) kernel_invD(1) [OF assms(1,2)] in simp_all)
qed

lemma update_handles_inv:
  assumes "kernel_inv k P F" "map_of (ks_processes k) a = Some p" "q = p\<lparr>pr_handles := h\<rparr>" "handles_wf h"
    and "proc_refs q + P' = proc_refs p + P" "proc_fds q + F' = proc_fds p + F"
  shows "kernel_inv (set_process a q k) P' F'"
proof -
  let ?R = "all_refs (ks_processes k) + P"
  note d = all_refs_set [OF kernel_invD(4) [OF assms(1,2)] assms(2), of q]
  have r: "all_refs (ks_processes (set_process a q k)) + P' = ?R"
  proof -
    have "all_refs (ks_processes (set_process a q k)) + P' + proc_refs p = all_refs (ks_processes k) + (proc_refs q + P')" using d by (simp add: ac_simps)
    also have "\<dots> = ?R + proc_refs p" using assms(5) by (simp add: ac_simps)
    finally show ?thesis by simp
  qed
  have "all_fds (ks_processes (set_process a q k)) + F' = all_fds (ks_processes k) + F"
  proof -
    have "all_fds (ks_processes (set_process a q k)) + F' + proc_fds p = all_fds (ks_processes k) + (proc_fds q + F')" using d by (simp add: ac_simps)
    also have "\<dots> = all_fds (ks_processes k) + F + proc_fds p" using assms(6) by (simp add: ac_simps)
    finally show ?thesis by simp
  qed
  moreover have "fds_ok (ks_vfs k) (all_fds (ks_processes k) + F)" "size ?R < sz_range" using assms(1) by (simp_all add: kernel_inv_def Let_def)
  ultimately show ?thesis using kernel_invD(2,3) [OF assms(1,2)] assms(3,4)
    by (intro update_inv [OF assms(1,2) _ _ _ _ _ _ r]) simp_all
qed

lemma releases_mono: "releases n deref \<Longrightarrow> m \<le> n \<Longrightarrow> releases m deref"
  unfolding releases_def by (meson less_le_trans)

lemma pending_process:
  assumes "kernel_inv k P F" "b \<in># P"
  shows "\<exists>p. map_of (ks_processes k) b = Some p"
proof -
  have "b \<in> fst ` set (ks_processes k)" using assms by (auto simp: kernel_inv_def Let_def)
  then show ?thesis by (metis map_of_eq_None_iff not_None_eq)
qed

lemma same_count: "\<exists>r. p = p\<lparr>pr_descriptor_references := r\<rparr>" for p :: process
  by (rule exI [of _ "pr_descriptor_references p"]) simp

lemma set_zombie_keeps: "map_of (ks_processes k) a = Some p \<Longrightarrow> pr_state p = Zombie \<Longrightarrow> keeps_living k (set_process a q k)"
  by (auto simp: keeps_living_def set_process_map_of same_count)

lemma set_count_keeps: "map_of (ks_processes k) a = Some p \<Longrightarrow> keeps_living k (set_process a (p\<lparr>pr_descriptor_references := r\<rparr>) k)"
  by (auto simp: keeps_living_def set_process_map_of same_count)

lemma length_set_process [simp]: "length (ks_processes (set_process a q k)) = length (ks_processes k)"
  by (simp add: set_process_def)

lemma dereference_releases: "releases (Suc n) (dereference n)"
proof (induction n)
  case 0
  have False if "kernel_inv k (add_mset b P) F" "length (ks_processes k) < Suc 0" for k b P F
    using pending_process [OF that(1), of b] that(2) by simp
  then show ?case by (auto simp: releases_def)
next
  case (Suc n)
  show ?case unfolding releases_def
  proof (intro allI impI)
    fix k b P F assume k: "kernel_inv k (add_mset b P) F" "length (ks_processes k) < Suc (Suc n)"
    obtain p where p: "map_of (ks_processes k) b = Some p" using pending_process [OF k(1), of b] by auto
    define c where "c = count (all_refs (ks_processes k) + P) b"
    let ?p = "p\<lparr>pr_descriptor_references := c\<rparr>"
    have c: "pr_descriptor_references p = Suc c" using kernel_invD(2) [OF k(1) p] by (simp add: c_def)
    have z: "size (all_refs (ks_processes k) + P) < sz_range" "Suc c < sz_range"
    proof -
      show z: "size (all_refs (ks_processes k) + P) < sz_range" using k(1) by (simp add: kernel_inv_def Let_def)
      have "count (all_refs (ks_processes k) + add_mset b P) b \<le> size (all_refs (ks_processes k) + add_mset b P)" by (rule count_le_size)
      moreover have "size (all_refs (ks_processes k) + add_mset b P) < sz_range" using k(1) by (simp add: kernel_inv_def Let_def)
      ultimately show "Suc c < sz_range" by (simp add: c_def)
    qed
    have e: "dereference (Suc n) b k = (if pr_state p = Zombie \<and> c = 0 then cleanup (dereference n) b (set_process b ?p k) else Inr (set_process b ?p k))"
      using process_at_Some [OF p] c z(2) by (simp add: Let_def sz_sub_eq)
    show "\<exists>k'. dereference (Suc n) b k = Inr k' \<and> kernel_inv k' P F \<and> length (ks_processes k') \<le> length (ks_processes k) \<and> keeps_living k k'"
    proof (cases "pr_state p = Zombie \<and> c = 0")
      case True
      have "kernel_inv k (replicate_mset 1 b + P) F" using k(1) by simp
      moreover have "releases (length (ks_processes k)) (dereference n)" using releases_mono [OF Suc.IH] k(2) by simp
      ultimately obtain k' where "cleanup (dereference n) b (set_process b ?p k) = Inr k'" "kernel_inv k' P F"
          "length (ks_processes k') < length (ks_processes k)" "keeps_living (set_process b ?p k) k'"
        using cleanup_law [of k 1 b P F p ?p "dereference n"] p True by (auto simp: c_def)
      then show ?thesis using e True keeps_living_trans [OF set_zombie_keeps [OF p, of ?p]] by auto
    next
      case False
      have "kernel_inv (set_process b ?p k) P F"
        by (rule update_count_inv [OF k(1) p]) (use False z in \<open>auto simp: c_def not_in_iff\<close>)
      then show ?thesis using e False set_count_keeps [OF p, of c] by (intro exI [of _ "set_process b ?p k"]) simp
    qed
  qed
qed

lemma descriptor_dereferenced_releases: "releases n descriptor_dereferenced"
  using dereference_releases unfolding releases_def descriptor_dereferenced_def by blast

lemma descriptor_referenced_law:
  assumes "kernel_inv k P F" "map_of (ks_processes k) a = Some p" "size (all_refs (ks_processes k) + P) + 1 < sz_range"
  shows "\<exists>k'. descriptor_referenced a k = Inr k' \<and> kernel_inv k' (add_mset a P) F \<and> keeps_living k k' \<and>
     map fst (ks_processes k') = map fst (ks_processes k) \<and> ks_vfs k' = ks_vfs k \<and> all_fds (ks_processes k') = all_fds (ks_processes k)"
proof -
  let ?q = "p\<lparr>pr_descriptor_references := sz_add (pr_descriptor_references p) 1\<rparr>"
  have "pr_descriptor_references p + 1 < sz_range" using kernel_invD(2) [OF assms(1,2)] assms(3) count_le_size [of "all_refs (ks_processes k) + P" a] by linarith
  then have c: "pr_descriptor_references ?q = pr_descriptor_references p + 1" by (simp add: sz_add_eq)
  have "kernel_inv (set_process a ?q k) (add_mset a P) F"
    by (rule update_count_inv [OF assms(1,2)]) (use c kernel_invD(2) [OF assms(1,2)] assms(3) in auto)
  moreover have "map fst (ks_processes (set_process a ?q k)) = map fst (ks_processes k)"
    by (auto simp: set_process_def comp_def case_prod_beta)
  moreover have "all_fds (ks_processes (set_process a ?q k)) = all_fds (ks_processes k)"
    using all_refs_set [OF kernel_invD(4) [OF assms(1,2)] assms(2), of ?q] by (simp add: proc_fds_def)
  ultimately show ?thesis using process_at_Some [OF assms(2)] set_count_keeps [OF assms(2)]
    by (intro exI [of _ "set_process a ?q k"]) (simp add: descriptor_referenced_def)
qed

section \<open>Creating processes\<close>

definition fresh_process :: "nat \<Rightarrow> kernel_state \<Rightarrow> bool" where
  "fresh_process a k = (a \<notin> fst ` set (ks_processes k) \<and> length (ks_processes k) < 65535)"

lemma reserve_pid_law:
  assumes "kernel_wf k" "length (ks_processes k) < 65535"
  shows "\<exists>i b. reserve_pid k = Inr (i, k\<lparr>ks_pids := b\<rparr>) \<and> i \<notin> set (map (pr_pid \<circ> snd) (ks_processes k)) \<and>
     bmp.holds b (i # map (pr_pid \<circ> snd) (ks_processes k)) \<and> bm_m_bitmap_size b = 65535"
proof -
  have "bmp.holds (ks_pids k) (map (pr_pid \<circ> snd) (ks_processes k))" "bm_m_bitmap_size (ks_pids k) = 65535"
    using assms(1) by (simp_all add: kernel_wf_def kernel_inv_def Let_def)
  with bmp.reserve_fresh [of "ks_pids k" "map (pr_pid \<circ> snd) (ks_processes k)"] assms(2) show ?thesis
    by (auto simp: reserve_pid_def ok_iff)
qed

lemma add_process_inv:
  assumes "kernel_wf k" "fresh_process a k" "pr_pid p = i" "pr_handles p = handles_new" "pr_descriptor_references p = 0" "pr_state p \<noteq> Zombie"
    and "i \<notin> set (map (pr_pid \<circ> snd) (ks_processes k))" "bmp.holds b (i # map (pr_pid \<circ> snd) (ks_processes k))" "bm_m_bitmap_size b = 65535"
  shows "kernel_wf (k\<lparr>ks_processes := ks_processes k @ [(a, p)], ks_pids := b\<rparr>)"
proof -
  let ?ps = "ks_processes k @ [(a, p)]" and ?k = "k\<lparr>ks_processes := ks_processes k @ [(a, p)], ks_pids := b\<rparr>"
  note i = assms(1) [unfolded kernel_wf_def kernel_inv_def Let_def]
  have e: "proc_refs p = {#}" "proc_fds p = {#}" using assms(4) by (simp_all add: proc_refs_def proc_fds_def handles_new_def)
  have r: "all_refs ?ps + {#} = all_refs (ks_processes k)" "all_fds ?ps + {#} = all_fds (ks_processes k)" by (simp_all add: e)
  have "count (all_refs (ks_processes k)) a = 0" using i assms(2) by (auto simp: fresh_process_def not_in_iff)
  then have p: "handles_wf (pr_handles q) \<and> pr_descriptor_references q = count (all_refs (ks_processes k)) c \<and> (pr_state q = Zombie \<longrightarrow> count (all_refs (ks_processes k)) c \<noteq> 0)"
    if "(c, q) \<in> set ?ps" for c q using that i assms(4-6) handles_new_wf(1) by auto
  have d: "distinct (map fst ?ps)" using i assms(2) by (simp add: fresh_process_def)
  have "bmp.holds b (map (pr_pid \<circ> snd) ?ps)" using assms(3,7) i by (intro holds_cong [OF assms(8)]) (auto simp: bmp.holds_def)
  then show ?thesis unfolding kernel_wf_def using i assms(9)
    by (intro kernel_invI [OF _ r d _ _ p]) auto
qed

lemma str_from_cstr_law:
  assumes "0 \<notin> set cs" "length cs + 1 < sz_range"
  shows "ok (str_from_cstr (literal cs)) (\<lambda>s. str_rep s cs)"
proof -
  have n: "strlen (literal cs) = Inr (length cs)" using strlen_law [OF reads_literal(1)] assms by simp
  have "memcpy (Some (replicate (length cs + 1) Raw)) 0 (literal cs) (length (cs @ [0])) = Inr (Some (map Live (cs @ [0])))"
    using memcpy_law [OF reads_literal(1) [of cs], of 0 "replicate (length cs + 1) Raw"] by simp
  then show ?thesis using n assms by (simp add: str_from_cstr_def sz_add_eq new_chars_Some str_rep_def ok_iff)
qed

lemma create_virtual_process_law:
  assumes "kernel_wf k" "fresh_process a k" "sv_rep name cs"
  shows "\<exists>k'. create_virtual_process name dir a k = Inr k' \<and> kernel_wf k' \<and> ks_vfs k' = ks_vfs k"
proof -
  obtain i b where i: "reserve_pid k = Inr (i, k\<lparr>ks_pids := b\<rparr>)" "i \<notin> set (map (pr_pid \<circ> snd) (ks_processes k))"
      "bmp.holds b (i # map (pr_pid \<circ> snd) (ks_processes k))" "bm_m_bitmap_size b = 65535"
    using reserve_pid_law [OF assms(1)] assms(2) unfolding fresh_process_def by blast
  obtain n where n: "str_from_view name = Inr n" using str_from_view_law [OF assms(3)] by (auto simp: ok_iff)
  obtain f where f: "str_from_cstr (literal [47]) = Inr f" using str_from_cstr_law [of "[47]"] by (auto simp: ok_iff)
  obtain g where g: "str_from_cstr (literal []) = Inr g" using str_from_cstr_law [of "[]"] by (auto simp: ok_iff)
  let ?p = "\<lparr>pr_pid = i, pr_name = n, pr_path = f, pr_argument = g, pr_privilege_level = KernelProcess, pr_page_directory = dir,
       pr_descriptor_references = 0, pr_state = ReadyProcess, pr_handles = handles_new, pr_pib = None, pr_return_status = None, pr_wake_ups = 0\<rparr>"
  have "create_virtual_process name dir a k = Inr (k\<lparr>ks_processes := ks_processes k @ [(a, ?p)], ks_pids := b\<rparr>)"
    using i(1) n f g by (simp add: create_virtual_process_def virtual_process_new_def)
  then show ?thesis using add_process_inv [OF assms(1,2) _ _ _ _ i(2-4), of ?p] by auto
qed

lemma fill_pib_law:
  assumes "str_rep (pr_path p) f" "str_rep (pr_argument p) g" "length f < 512" "length g < 512"
    and "ub_path_data b = Some pb" "length pb = 512" "ub_argument_data b = Some ab" "length ab = 512"
  shows "\<exists>b'. fill_pib p b = Inr b' \<and> reads (ub_path_data b', 0) (f @ [0]) \<and> reads (ub_argument_data b', 0) (g @ [0]) \<and> ub_pid b' = pr_pid p"
proof -
  have r: "reads (c_str (pr_path p)) f" "reads (c_str (pr_argument p)) g" using reads_take [OF str_rep_reads [OF assms(1)], of "length f"] reads_take [OF str_rep_reads [OF assms(2)], of "length g"] by simp_all
  have l: "str_length (pr_path p) = length f" "str_length (pr_argument p) = length g" using assms(1,2) by (simp_all add: str_rep_def str_length_def)
  have m: "memcpy (ub_path_data b) 0 (c_str (pr_path p)) (length f) = Inr (Some (map Live f @ drop (length f) pb))"
    "memcpy (ub_argument_data b) 0 (c_str (pr_argument p)) (length g) = Inr (Some (map Live g @ drop (length g) ab))"
    using memcpy_law [OF r(1), of 0 pb] memcpy_law [OF r(2), of 0 ab] assms(3-8) by simp_all
  have u: "(map Live cs @ drop (length cs) xs)[length cs := Live 0] = map Live (cs @ [0]) @ drop (Suc (length cs)) xs" if "length cs < length xs" for cs and xs :: "u8 slot list"
    using that by (simp add: list_update_append Cons_nth_drop_Suc [symmetric])
  have "reads (Some (map Live (cs @ [0]) @ xs), 0) (cs @ [0])" for cs and xs :: "u8 slot list" by (auto simp: reads_Some)
  then show ?thesis using m l assms(3-8) u [of f pb] u [of g ab] by (simp add: fill_pib_def)
qed

lemma create_new_process_law:
  assumes "kernel_wf k" "fresh_process a k" "pv_rep path cs ds" "cs \<noteq> []" "sv_rep argument g" "length (path_text True (cs @ ds)) < 512" "length g < 512"
    and "ub_path_data pib = Some pb" "length pb = 512" "ub_argument_data pib = Some ab" "length ab = 512"
  shows "\<exists>p b k'. create_new_process path argument privilege dir pib a k = Inr k' \<and> k' = k\<lparr>ks_processes := ks_processes k @ [(a, p)], ks_pids := b\<rparr> \<and> kernel_wf k' \<and>
     pr_handles p = handles_new \<and> pr_descriptor_references p = 0 \<and> pr_state p = ReadyProcess \<and> str_rep (pr_path p) (path_text True (cs @ ds))"
proof -
  have p: "path_ok cs" "ds \<noteq> [] \<Longrightarrow> path_ok ds" using assms(3,4) by (auto simp: pv_rep_def)
  obtain name where e: "pv_index path (-1) = Inr name" "sv_rep name ((cs @ ds) ! nat (-1 mod int (length (cs @ ds))))"
    using pv_index_law [OF assms(3), of "-1"] assms(4) by (cases cs) (auto simp: ok_iff)
  obtain n where n: "str_from_view name = Inr n" using str_from_view_law [OF e(2)] by (auto simp: ok_iff)
  have "ok (pv_full_path path) (\<lambda>s. str_rep s (path_text True (cs @ ds)))"
  proof (cases "ds = []")
    case True
    then have "sv_rep (pv_absolute path) (path_text True cs)" "pv_relative_count path = 0" using assms(3,4) by (auto simp: pv_rep_def)
    then show ?thesis using str_from_view_law [of "pv_absolute path" "path_text True cs"] True by (auto simp: pv_full_path_def ok_iff)
  next
    case False
    have "length (join cs) + length (join ds) + 4 < sz_range" using p False by (simp add: path_ok_def)
    then show ?thesis using full_path_law [OF p(1) p(2) assms(3)] False by blast
  qed
  then obtain f where f: "pv_full_path path = Inr f" "str_rep f (path_text True (cs @ ds))" by (auto simp: ok_iff)
  obtain s where s: "str_from_view argument = Inr s" "str_rep s g" using str_from_view_law [OF assms(5)] by (auto simp: ok_iff)
  obtain i b where i: "reserve_pid k = Inr (i, k\<lparr>ks_pids := b\<rparr>)" "i \<notin> set (map (pr_pid \<circ> snd) (ks_processes k))"
      "bmp.holds b (i # map (pr_pid \<circ> snd) (ks_processes k))" "bm_m_bitmap_size b = 65535"
    using reserve_pid_law [OF assms(1)] assms(2) unfolding fresh_process_def by blast
  let ?p = "\<lparr>pr_pid = i, pr_name = n, pr_path = f, pr_argument = s, pr_privilege_level = privilege, pr_page_directory = dir,
       pr_descriptor_references = 0, pr_state = ReadyProcess, pr_handles = handles_new, pr_pib = None, pr_return_status = None, pr_wake_ups = 0\<rparr>"
  obtain u where u: "fill_pib ?p pib = Inr u" using fill_pib_law [of ?p "path_text True (cs @ ds)" g pib pb ab] f(2) s(2) assms(6-11) by auto
  have "create_new_process path argument privilege dir pib a k = Inr (k\<lparr>ks_processes := ks_processes k @ [(a, ?p\<lparr>pr_pib := Some u\<rparr>)], ks_pids := b\<rparr>)"
    using i(1) n f(1) s(1) u e(1) by (simp add: create_new_process_def process_new_def)
  moreover have "kernel_wf (k\<lparr>ks_processes := ks_processes k @ [(a, ?p\<lparr>pr_pib := Some u\<rparr>)], ks_pids := b\<rparr>)"
    using add_process_inv [OF assms(1,2) _ _ _ _ i(2-4), of "?p\<lparr>pr_pib := Some u\<rparr>"] by simp
  ultimately show ?thesis using f(2) by (intro exI [of _ "?p\<lparr>pr_pib := Some u\<rparr>"] exI [of _ b]) simp
qed

section \<open>Sequences of calls\<close>

datatype kernel_op =
    CreateVirtual string_view nat nat
  | CreateNew path_view string_view process_privilege nat process_information_block nat
  | OpenProcessOp nat nat size_t
  | OpenFileOp nat nat path_view open_mode
  | CloseOp nat nat
  | TerminateOp int nat

definition kernel_call :: "kernel_op \<Rightarrow> kernel_state \<Rightarrow> kernel_state run" where
  "kernel_call op k = (case op of
     CreateVirtual name dir a \<Rightarrow> create_virtual_process name dir a k
   | CreateNew path argument privilege dir pib a \<Rightarrow> create_new_process path argument privilege dir pib a k
   | OpenProcessOp c d pid \<Rightarrow> bindr (open_process_handle c d pid k) (\<lambda>(_, k'). Inr k')
   | OpenFileOp c d path mode \<Rightarrow> bindr (open_file_handle c d path mode OF_OPEN_EXISTING k) (\<lambda>(_, k'). Inr k')
   | CloseOp c i \<Rightarrow> close_process_handle c i k
   | TerminateOp status a \<Rightarrow> terminate status a k)"

definition living :: "nat \<Rightarrow> kernel_state \<Rightarrow> process \<Rightarrow> bool" where
  "living c k p = (map_of (ks_processes k) c = Some p \<and> pr_state p \<noteq> Zombie)"

text \<open>
  When a call can be made: new objects get addresses that are free, there are identifiers and counts
  left, paths fit the information block, a handle is one that \<open>check_handle\<close> does not call invalid, and the
  process that calls, or that is terminated, has not been terminated before.
\<close>

definition kernel_ready :: "kernel_op \<Rightarrow> kernel_state \<Rightarrow> bool" where
  "kernel_ready op k = (case op of
     CreateVirtual name dir a \<Rightarrow> fresh_process a k \<and> (\<exists>cs. sv_rep name cs)
   | CreateNew path argument privilege dir pib a \<Rightarrow> fresh_process a k \<and> (\<exists>cs ds g pb ab. pv_rep path cs ds \<and> cs \<noteq> [] \<and> sv_rep argument g \<and>
       length (path_text True (cs @ ds)) < 512 \<and> length g < 512 \<and> ub_path_data pib = Some pb \<and> length pb = 512 \<and> ub_argument_data pib = Some ab \<and> length ab = 512)
   | OpenProcessOp c d pid \<Rightarrow> \<exists>p. living c k p \<and> d \<noteq> 0 \<and> d \<notin> live_addresses (pr_handles p) \<and> size (all_refs (ks_processes k)) + 1 < sz_range
   | OpenFileOp c d path mode \<Rightarrow> \<exists>p cs ds. living c k p \<and> d \<noteq> 0 \<and> d \<notin> live_addresses (pr_handles p) \<and> pv_rep path cs ds \<and>
       (mode = OM_READ \<or> mode = OM_WRITE) \<and> size (all_fds (ks_processes k)) + 1 < sz_range
   | CloseOp c i \<Rightarrow> \<exists>p. living c k p \<and> i < length (slots (pr_handles p)) \<and> slots (pr_handles p) ! i \<noteq> Closed
   | TerminateOp status a \<Rightarrow> \<exists>p. living a k p)"

lemma terminate_law:
  assumes "kernel_wf k" "living a k p"
  shows "\<exists>k'. terminate status a k = Inr k' \<and> kernel_wf k'"
proof -
  let ?q = "p\<lparr>pr_state := Zombie, pr_return_status := Some status, pr_wake_ups := pr_wake_ups p + 1\<rparr>"
  have w: "kernel_inv k {#} {#}" and m: "map_of (ks_processes k) a = Some p" and z: "pr_state p \<noteq> Zombie" using assms by (simp_all add: kernel_wf_def living_def)
  have e: "terminate status a k = (if pr_descriptor_references p = 0 then cleanup descriptor_dereferenced a (set_process a ?q k) else Inr (set_process a ?q k))"
    using process_at_Some [OF m] z by (simp add: terminate_def Let_def)
  have c: "pr_descriptor_references p = count (all_refs (ks_processes k) + {#}) a" by (rule kernel_invD(2) [OF w m])
  show ?thesis
  proof (cases "pr_descriptor_references p = 0")
    case True
    obtain k' where "cleanup descriptor_dereferenced a (set_process a ?q k) = Inr k'" "kernel_inv k' {#} {#}"
      using cleanup_law [of k 0 a "{#}" "{#}" p ?q descriptor_dereferenced] w m c True descriptor_dereferenced_releases by auto
    then show ?thesis using e True by (simp add: kernel_wf_def)
  next
    case False
    have "kernel_inv (set_process a ?q k) {#} {#}"
      by (rule update_count_inv [OF w m]) (use c False w in \<open>simp_all add: kernel_inv_def Let_def\<close>)
    then show ?thesis using e False by (simp add: kernel_wf_def)
  qed
qed

lemma open_process_handle_law:
  assumes "kernel_wf k" "living c k p" "d \<noteq> 0" "d \<notin> live_addresses (pr_handles p)" "size (all_refs (ks_processes k)) + 1 < sz_range"
  shows "\<exists>r k'. open_process_handle c d pid k = Inr (r, k') \<and> kernel_wf k'"
proof (cases "List.find (\<lambda>(a, p). pr_pid p = pid) (ks_processes k)")
  case None
  then show ?thesis using assms(1) by (simp add: open_process_handle_def process_description_open_def get_process_from_pid_def ERROR_INVALID_PID_def)
next
  case (Some ap)
  obtain a q where ap: "ap = (a, q)" by (cases ap)
  have w: "kernel_inv k {#} {#}" using assms(1) by (simp add: kernel_wf_def)
  have "distinct (map fst (ks_processes k))" using w by (simp add: kernel_inv_def Let_def)
  then have m: "map_of (ks_processes k) a = Some q" using find_member [OF Some] ap by (intro map_of_is_SomeI) auto
  obtain k1 where k1: "descriptor_referenced a k = Inr k1" "kernel_inv k1 {#a#} {#}" "keeps_living k k1"
    using descriptor_referenced_law [OF w m] assms(5) by auto
  obtain r where r: "map_of (ks_processes k1) c = Some (p\<lparr>pr_descriptor_references := r\<rparr>)" using k1(3) assms(2) by (auto simp: keeps_living_def living_def)
  have wf: "handles_wf (pr_handles p)" using kernel_invD(1) [OF k1(2) r] by simp
  obtain h where h: "add_process_handle (d, a) (pr_handles p) = (length (slots (pr_handles p)), h)" "handles_wf h"
      "map snd (process_description_table h) = map snd (process_description_table (pr_handles p)) @ [a]" "file_description_table h = file_description_table (pr_handles p)"
    using add_process_handle_law [OF wf assms(3), of a] assms(4) by (auto simp: live_addresses_def)
  let ?q = "p\<lparr>pr_descriptor_references := r, pr_handles := h\<rparr>"
  have "kernel_inv (set_process c ?q k1) {#} {#}"
    by (rule update_handles_inv [OF k1(2) r, where h = h]) (use h in \<open>simp_all add: proc_refs_def proc_fds_def flip: mset_map\<close>)
  moreover have "open_process_handle c d pid k = Inr (Result (length (slots (pr_handles p))), set_process c ?q k1)"
    using Some ap k1(1) process_at_Some [OF r] h(1) by (simp add: open_process_handle_def process_description_open_def get_process_from_pid_def)
  ultimately show ?thesis by (simp add: kernel_wf_def)
qed

lemma open_file_handle_law:
  assumes "kernel_wf k" "living c k p" "d \<noteq> 0" "d \<notin> live_addresses (pr_handles p)" "pv_rep path cs ds" "mode = OM_READ \<or> mode = OM_WRITE"
    and "size (all_fds (ks_processes k)) + 1 < sz_range"
  shows "\<exists>r k'. open_file_handle c d path mode OF_OPEN_EXISTING k = Inr (r, k') \<and> kernel_wf k'"
proof -
  have w: "kernel_inv k {#} {#}" and m: "map_of (ks_processes k) c = Some p" using assms by (simp_all add: kernel_wf_def living_def)
  have f: "fds_ok (ks_vfs k) (all_fds (ks_processes k))" using w by (simp add: kernel_inv_def Let_def)
  obtain r v where o: "fd_open (ks_vfs k) path mode OF_OPEN_EXISTING = Inr (r, v)"
      "case r of ResultError e \<Rightarrow> e \<noteq> 0 \<and> fds_ok v (all_fds (ks_processes k)) | Result d \<Rightarrow> fds_ok v (add_mset d (all_fds (ks_processes k)))"
    using fd_open_law [OF f assms(5,6,7)] by blast
  show ?thesis
  proof (cases r)
    case (ResultError e)
    then have "kernel_wf (k\<lparr>ks_vfs := v\<rparr>)" using kernel_inv_vfs [OF w, of v "{#}"] o(2) by (simp add: kernel_wf_def)
    then show ?thesis using o ResultError by (simp add: open_file_handle_def)
  next
    case (Result x)
    have k1: "kernel_inv (k\<lparr>ks_vfs := v\<rparr>) {#} {#x#}" using kernel_inv_vfs [OF w, of v "{#x#}"] o(2) Result by simp
    have m1: "map_of (ks_processes (k\<lparr>ks_vfs := v\<rparr>)) c = Some p" using m by simp
    obtain h where h: "add_file_handle (d, x) (pr_handles p) = (length (slots (pr_handles p)), h)" "handles_wf h"
        "map snd (file_description_table h) = map snd (file_description_table (pr_handles p)) @ [x]" "process_description_table h = process_description_table (pr_handles p)"
      using add_file_handle_law [OF kernel_invD(1) [OF w m] assms(3), of x] assms(4) by (auto simp: live_addresses_def)
    have "kernel_inv (set_process c (p\<lparr>pr_handles := h\<rparr>) (k\<lparr>ks_vfs := v\<rparr>)) {#} {#}"
      by (rule update_handles_inv [OF k1 m1 refl h(2)]) (use h in \<open>simp_all add: proc_refs_def proc_fds_def flip: mset_map\<close>)
    then show ?thesis using o(1) Result h(1) process_at_Some [OF m1] by (simp add: open_file_handle_def kernel_wf_def)
  qed
qed

lemma close_process_handle_law:
  assumes "kernel_wf k" "living c k p" "i < length (slots (pr_handles p))" "slots (pr_handles p) ! i \<noteq> Closed"
  shows "\<exists>k' p'. close_process_handle c i k = Inr k' \<and> kernel_wf k' \<and> living c k' p' \<and> slots (pr_handles p') = (slots (pr_handles p))[i := Closed]"
proof -
  have w: "kernel_inv k {#} {#}" and m: "map_of (ks_processes k) c = Some p" and z: "pr_state p \<noteq> Zombie" using assms by (simp_all add: kernel_wf_def living_def)
  note wf = kernel_invD(1) [OF w m]
  have l: "living c (set_process c (p\<lparr>pr_handles := h\<rparr>) k1) (p\<lparr>pr_handles := h\<rparr>)" if "map_of (ks_processes k1) c = Some p" for h k1
    using that z by (simp add: living_def set_process_map_of)
  show ?thesis
  proof (cases "slots (pr_handles p) ! i")
    case (FileSlot x)
    obtain h where h: "remove_handle i (pr_handles p) = Inr ([x], [], h)" "handles_wf h" "slots h = (slots (pr_handles p))[i := Closed]"
        "mset (map snd (file_description_table (pr_handles p))) = mset (map snd (file_description_table h)) + {#x#}" "process_description_table h = process_description_table (pr_handles p)"
      using remove_file_law [OF wf assms(3) FileSlot] by blast
    let ?k = "set_process c (p\<lparr>pr_handles := h\<rparr>) k"
    have k1: "kernel_inv ?k {#} {#x#}"
      by (rule update_handles_inv [OF w m refl h(2)]) (use h in \<open>simp_all add: proc_refs_def proc_fds_def\<close>)
    then have "fds_ok (ks_vfs k) (add_mset x (all_fds (ks_processes ?k)))" by (simp add: kernel_inv_def Let_def)
    from fd_destroy_law [OF this] obtain v where v: "fd_destroy x (ks_vfs k) = Inr v" "fds_ok v (all_fds (ks_processes ?k))" by blast
    have "kernel_wf (?k\<lparr>ks_vfs := v\<rparr>)" using kernel_inv_vfs [OF k1, of v "{#}"] v(2) by (simp add: kernel_wf_def)
    moreover have e: "?k\<lparr>ks_vfs := v\<rparr> = set_process c (p\<lparr>pr_handles := h\<rparr>) (k\<lparr>ks_vfs := v\<rparr>)" by (simp add: set_process_def)
    moreover have "close_process_handle c i k = Inr (set_process c (p\<lparr>pr_handles := h\<rparr>) (k\<lparr>ks_vfs := v\<rparr>))"
      using process_at_Some [OF m] h(1) v(1) by (simp add: close_process_handle_def)
    moreover have "living c (set_process c (p\<lparr>pr_handles := h\<rparr>) (k\<lparr>ks_vfs := v\<rparr>)) (p\<lparr>pr_handles := h\<rparr>)" using l [of "k\<lparr>ks_vfs := v\<rparr>" h] m by simp
    ultimately show ?thesis using h(3) by (intro exI [of _ "set_process c (p\<lparr>pr_handles := h\<rparr>) (k\<lparr>ks_vfs := v\<rparr>)"] exI [of _ "p\<lparr>pr_handles := h\<rparr>"]) simp
  next
    case (ProcessSlot a)
    obtain h where h: "remove_handle i (pr_handles p) = Inr ([], [a], h)" "handles_wf h" "slots h = (slots (pr_handles p))[i := Closed]"
        "mset (map snd (process_description_table (pr_handles p))) = mset (map snd (process_description_table h)) + {#a#}" "file_description_table h = file_description_table (pr_handles p)"
      using remove_process_law [OF wf assms(3) ProcessSlot] by blast
    let ?k = "set_process c (p\<lparr>pr_handles := h\<rparr>) k"
    have k1: "kernel_inv ?k {#a#} {#}"
      by (rule update_handles_inv [OF w m refl h(2)]) (use h in \<open>simp_all add: proc_refs_def proc_fds_def\<close>)
    obtain k2 where k2: "descriptor_dereferenced a ?k = Inr k2" "kernel_inv k2 {#} {#}" "keeps_living ?k k2"
      using descriptor_dereferenced_releases [of "Suc (length (ks_processes ?k))"] k1 unfolding releases_def by blast
    have "close_process_handle c i k = Inr k2" using process_at_Some [OF m] h(1) k2(1) by (simp add: close_process_handle_def)
    moreover obtain r where "map_of (ks_processes k2) c = Some (p\<lparr>pr_handles := h, pr_descriptor_references := r\<rparr>)"
      using k2(3) l [OF m, of h] unfolding keeps_living_def living_def by blast
    ultimately show ?thesis using k2(2) z h(3) by (intro exI [of _ k2] exI [of _ "p\<lparr>pr_handles := h, pr_descriptor_references := r\<rparr>"]) (simp add: kernel_wf_def living_def)
  qed (use assms(4) in simp)
qed

fun run_kernel :: "kernel_op list \<Rightarrow> kernel_state \<Rightarrow> kernel_state run" where
  "run_kernel [] k = Inr k"
| "run_kernel (op # ops) k = bindr (kernel_call op k) (run_kernel ops)"

text \<open>Calls are made one after the other, each when it can be made.\<close>

fun all_ready :: "kernel_op list \<Rightarrow> kernel_state \<Rightarrow> bool" where
  "all_ready [] k = True"
| "all_ready (op # ops) k = (kernel_ready op k \<and> (\<forall>k'. kernel_call op k = Inr k' \<longrightarrow> all_ready ops k'))"

lemma kernel_call_law:
  assumes "kernel_wf k" "kernel_ready op k"
  shows "\<exists>k'. kernel_call op k = Inr k' \<and> kernel_wf k'"
proof (cases op)
  case (CreateVirtual name dir a)
  then show ?thesis using assms(2) create_virtual_process_law [OF assms(1), of a name] by (auto simp: kernel_call_def kernel_ready_def)
next
  case (CreateNew path argument privilege dir pib a)
  then obtain cs ds g pb ab where "fresh_process a k" "pv_rep path cs ds" "cs \<noteq> []" "sv_rep argument g" "length (path_text True (cs @ ds)) < 512" "length g < 512"
      "ub_path_data pib = Some pb" "length pb = 512" "ub_argument_data pib = Some ab" "length ab = 512"
    using assms(2) by (auto simp: kernel_ready_def)
  from create_new_process_law [OF assms(1) this] show ?thesis using CreateNew by (fastforce simp: kernel_call_def)
next
  case (OpenProcessOp c d pid)
  then obtain p where "living c k p" "d \<noteq> 0" "d \<notin> live_addresses (pr_handles p)" "size (all_refs (ks_processes k)) + 1 < sz_range" using assms(2) by (auto simp: kernel_ready_def)
  from open_process_handle_law [OF assms(1) this, of pid] show ?thesis using OpenProcessOp by (auto simp: kernel_call_def)
next
  case (OpenFileOp c d path mode)
  then obtain p cs ds where "living c k p" "d \<noteq> 0" "d \<notin> live_addresses (pr_handles p)" "pv_rep path cs ds" "mode = OM_READ \<or> mode = OM_WRITE" "size (all_fds (ks_processes k)) + 1 < sz_range"
    using assms(2) unfolding kernel_ready_def by auto
  from open_file_handle_law [OF assms(1) this] show ?thesis using OpenFileOp by (auto simp: kernel_call_def)
next
  case (CloseOp c i)
  then show ?thesis using assms(2) close_process_handle_law [OF assms(1)] by (fastforce simp: kernel_call_def kernel_ready_def)
next
  case (TerminateOp status a)
  then show ?thesis using assms(2) terminate_law [OF assms(1)] by (auto simp: kernel_call_def kernel_ready_def)
qed

lemma run_kernel_law: "kernel_wf k \<Longrightarrow> all_ready ops k \<Longrightarrow> \<exists>k'. run_kernel ops k = Inr k' \<and> kernel_wf k'"
proof (induction ops arbitrary: k)
  case (Cons op ops)
  obtain k1 where "kernel_call op k = Inr k1" "kernel_wf k1" using kernel_call_law [OF Cons.prems(1)] Cons.prems(2) by auto
  then show ?case using Cons by auto
qed simp

lemma processes_new_wf: "fds_ok v {#} \<Longrightarrow> kernel_wf (processes_new v)"
  using bm_new_wf [of 65535] bm_new_unused [of _ 65535]
  by (auto simp: kernel_wf_def kernel_inv_def processes_new_def bmp.holds_def bm_new_def)

lemma find_unique: "distinct (map (pr_pid \<circ> snd) ps) \<Longrightarrow> (a, p) \<in> set ps \<Longrightarrow> List.find (\<lambda>(a, q). pr_pid q = pr_pid p) ps = Some (a, p)"
proof (induction ps)
  case (Cons x ps)
  then show ?case by (cases x) (auto simp: image_iff)
qed simp

section \<open>Properties\<close>


lemma sample_fds: "fds_ok sample_vfs {#}"
  using sample_vfs_wf by (auto simp: fds_ok_def sample_vfs_def nth_Cons split: nat.splits)


text \<open>
  (C33) Terminating a process: the first call wakes everybody who waits for it, a wait that comes later gets
  the status at once, and a process that others still refer to stays until then; a second call while
  it stays fails the assertion, so a handle to a process that has ended is enough to stop the kernel.
\<close>

theorem terminate_twice_panics:
  assumes "kernel_wf k" "map_of (ks_processes k) a = Some p" "pr_state p \<noteq> Zombie" "pr_descriptor_references p \<noteq> 0"
  shows "\<exists>k'. terminate status a k = Inr k' \<and> kernel_wf k' \<and> wait_for_signal a k = Inr None \<and> wait_for_signal a k' = Inr (Some (Some status)) \<and>
     terminate status' a k' = Inl AssertFailed"
proof -
  let ?q = "p\<lparr>pr_state := Zombie, pr_return_status := Some status, pr_wake_ups := pr_wake_ups p + 1\<rparr>"
  have "terminate status a k = Inr (set_process a ?q k)" using process_at_Some [OF assms(2)] assms(3,4) by (simp add: terminate_def Let_def)
  moreover have q: "process_at (set_process a ?q k) a = Inr ?q" using assms(2) by (intro process_at_Some) (simp add: set_process_map_of)
  moreover obtain k' where "terminate status a k = Inr k'" "kernel_wf k'" using terminate_law [OF assms(1), of a p status] assms(2,3) by (auto simp: living_def)
  moreover have "terminate status' a (set_process a ?q k) = Inl AssertFailed" unfolding terminate_def q by (simp add: Let_def)
  ultimately show ?thesis using process_at_Some [OF assms(2)] assms(3) by (simp add: wait_for_signal_def)
qed

theorem terminate_twice_panics_witness:
  "\<exists>k k'. kernel_wf k \<and> terminate 3 16 k = Inr k' \<and> wait_for_signal 16 k' = Inr (Some (Some 3)) \<and> terminate 4 16 k' = Inl AssertFailed"
proof -
  let ?n = "\<lparr>sv_size = 1, sv_data = (chars [97], 0)\<rparr>" and ?k = "processes_new sample_vfs"
  have "sv_rep ?n [97]" using reads_whole [of "[97]"] by (simp add: sv_rep_def chars_def)
  from create_virtual_process_law [OF processes_new_wf [OF sample_fds] _ this, of 16 7]
  obtain k1 where k1: "create_virtual_process ?n 7 16 ?k = Inr k1" "kernel_wf k1" by (auto simp: fresh_process_def processes_new_def)
  then obtain p where p: "ks_processes k1 = [(16, p)]" "pr_handles p = handles_new" "pr_state p = ReadyProcess" "pr_descriptor_references p = 0"
    by (auto simp: create_virtual_process_def virtual_process_new_def reserve_pid_def processes_new_def elim!: bindr_InrE)
  then obtain r k2 where k2: "open_process_handle 16 32 (pr_pid p) k1 = Inr (r, k2)" "kernel_wf k2"
    using open_process_handle_law [OF k1(2), of 16 p 32 "pr_pid p"] by (auto simp: living_def live_addresses_def handles_new_def proc_refs_def)
  then have "ks_processes k2 = [(16, p\<lparr>pr_descriptor_references := 1, pr_handles := snd (add_process_handle (32, 16) handles_new)\<rparr>)]"
    using p by (auto simp: open_process_handle_def process_description_open_def get_process_from_pid_def descriptor_referenced_def process_at_def object_at_def
        set_process_def sz_add_def split: prod.splits)
  from terminate_twice_panics [OF k2(2), of 16 "p\<lparr>pr_descriptor_references := 1, pr_handles := snd (add_process_handle (32, 16) handles_new)\<rparr>" 3 4] this p(3) k2(2)
  show ?thesis by auto
qed

end
