(* ===== verification/System_Calls.thy ===== *)
theory System_Calls
  imports Processes Virtual_Memory Threads
begin

text \<open>
  The system calls (system_call.h, system_call.cpp). A pointer of the caller is a position in a block
  of bytes, or a view; a call acts for the process whose address is \<open>ss_current\<close>. Addresses of new
  objects are arguments. The calls on memory and on threads act on the states of those components.
\<close>

unbundle bit_operations_syntax

section \<open>Files\<close>

record syscall_state =
  ss_kernel :: kernel_state
  ss_current :: nat

definition current_handles :: "syscall_state \<Rightarrow> handles_manager run" where
  "current_handles s = bindr (process_at (ss_kernel s) (ss_current s)) (\<lambda>p. Inr (pr_handles p))"

definition set_current_handles :: "handles_manager \<Rightarrow> syscall_state \<Rightarrow> syscall_state run" where
  "set_current_handles h s = bindr (process_at (ss_kernel s) (ss_current s)) (\<lambda>p.
     Inr (s\<lparr>ss_kernel := set_process (ss_current s) (p\<lparr>pr_handles := h\<rparr>) (ss_kernel s)\<rparr>))"

definition set_vfs :: "vfs \<Rightarrow> syscall_state \<Rightarrow> syscall_state" where
  "set_vfs v s = s\<lparr>ss_kernel := (ss_kernel s)\<lparr>ks_vfs := v\<rparr>\<rparr>"

definition int_result :: "nat result \<Rightarrow> int result run" where
  "int_result r = (if is_error r then Inr (ResultError (result_error r)) else bindr (result_value r) (\<lambda>n. Inr (Result (to_int n))))"

definition resolve_user_path :: "cptr \<Rightarrow> syscall_state \<Rightarrow> path_view run" where
  "resolve_user_path path s = bindr (pv_of_cstr path) (\<lambda>pv. bindr (process_at (ss_kernel s) (ss_current s)) (\<lambda>p. resolve_path (pr_path p) pv))"

definition OpenFile :: "cptr \<Rightarrow> open_mode \<Rightarrow> open_flags \<Rightarrow> nat \<Rightarrow> syscall_state \<Rightarrow> (int result \<times> syscall_state) run" where
  "OpenFile path mode flags d s = bindr (bindr (sv_of_cstr path) pv_is_valid) (\<lambda>valid.
     if \<not> valid then Inr (ResultError ERROR_INVALID_PARAMETER, s)
     else bindr (resolve_user_path path s) (\<lambda>absolute_path. bindr (check_exitsts (ks_vfs (ss_kernel s)) absolute_path) (\<lambda>exists.
       if \<not> exists then Inr (ResultError ERROR_FILE_DOES_NOT_EXIST, s)
       else bindr (open_file_handle (ss_current s) d absolute_path mode flags (ss_kernel s)) (\<lambda>(r, k).
         bindr (int_result r) (\<lambda>fd. Inr (fd, s\<lparr>ss_kernel := k\<rparr>))))))"

definition ReadFile :: "nat \<Rightarrow> buffer_view \<Rightarrow> syscall_state \<Rightarrow> ((int result \<times> buffer_view) option \<times> syscall_state) run" where
  "ReadFile handle buff s = bindr (current_handles s) (\<lambda>h. bindr (check_handle handle h) (\<lambda>t.
     if t \<noteq> FileHandle then Inr (Some (ResultError ERROR_INVALID_HANDLE, buff), s)
     else bindr (get_file_description handle h) (\<lambda>description. bindr (fd_read description buff (ks_vfs (ss_kernel s))) (\<lambda>(r, v). case r of
       None \<Rightarrow> Inr (None, set_vfs v s)
     | Some (result, b) \<Rightarrow> bindr (int_result result) (\<lambda>n. Inr (Some (n, b), set_vfs v s))))))"

definition WriteFile :: "nat \<Rightarrow> buffer_view \<Rightarrow> syscall_state \<Rightarrow> (int result option \<times> syscall_state) run" where
  "WriteFile handle buff s = bindr (current_handles s) (\<lambda>h. bindr (check_handle handle h) (\<lambda>t.
     if t \<noteq> FileHandle then Inr (Some (ResultError ERROR_INVALID_HANDLE), s)
     else bindr (get_file_description handle h) (\<lambda>description. bindr (fd_write description buff (ks_vfs (ss_kernel s))) (\<lambda>(r, v). case r of
       None \<Rightarrow> Inr (None, set_vfs v s)
     | Some result \<Rightarrow> bindr (int_result result) (\<lambda>n. Inr (Some n, set_vfs v s))))))"

definition QueryDirectory :: "nat \<Rightarrow> file_info \<Rightarrow> syscall_state \<Rightarrow> (int result \<times> file_info \<times> syscall_state) run" where
  "QueryDirectory handle info s = bindr (current_handles s) (\<lambda>h. bindr (check_handle handle h) (\<lambda>t.
     if t \<noteq> FileHandle then Inr (ResultError ERROR_INVALID_HANDLE, info, s)
     else bindr (get_file_description handle h) (\<lambda>description. bindr (fd_dir_query (ks_vfs (ss_kernel s)) info description) (\<lambda>(r, info1, d1).
       bindr (set_current_handles (update_file_description handle d1 h) s) (\<lambda>s1.
       if is_error r then Inr (ResultError (result_error r), info1, s1) else Inr (Result 0, info1, s1))))))"

text \<open>\<open>None\<close> is the null pointer.\<close>

definition QueryFileInformation :: "nat \<Rightarrow> file_info option \<Rightarrow> syscall_state \<Rightarrow> (int result \<times> file_info option) run" where
  "QueryFileInformation handle info s = (case info of None \<Rightarrow> Inr (ResultError ERROR_INVALID_PARAMETER, None)
   | Some i \<Rightarrow> bindr (current_handles s) (\<lambda>h. bindr (check_handle handle h) (\<lambda>t.
       if t \<noteq> FileHandle then Inr (ResultError ERROR_INVALID_HANDLE, Some i)
       else bindr (get_file_description handle h) (\<lambda>description. bindr (fd_file_query (ks_vfs (ss_kernel s)) i description) (\<lambda>(r, i1).
         if is_error r then Inr (ResultError (result_error r), Some i1) else Inr (Result 0, Some i1))))))"

definition CloseHandle :: "nat \<Rightarrow> syscall_state \<Rightarrow> (int result \<times> syscall_state) run" where
  "CloseHandle handle s = bindr (current_handles s) (\<lambda>h. bindr (check_handle handle h) (\<lambda>t.
     if t = InvalidHandle then Inr (ResultError ERROR_INVALID_HANDLE, s)
     else bindr (close_process_handle (ss_current s) handle (ss_kernel s)) (\<lambda>k. Inr (Result 0, s\<lparr>ss_kernel := k\<rparr>))))"

section \<open>Processes and threads\<close>

definition OpenProcess :: "size_t \<Rightarrow> nat \<Rightarrow> syscall_state \<Rightarrow> (int result \<times> syscall_state) run" where
  "OpenProcess pid d s = bindr (open_process_handle (ss_current s) d pid (ss_kernel s)) (\<lambda>(r, k).
     bindr (int_result r) (\<lambda>fp. Inr (fp, s\<lparr>ss_kernel := k\<rparr>)))"

text \<open>
  The page directory, the memory of the information block, and the addresses a of the process and d of
  its description come from the memory manager. The argument is None for the null pointer.
\<close>

definition CreateProcess :: "cptr \<Rightarrow> cptr option \<Rightarrow> nat \<Rightarrow> process_information_block \<Rightarrow> nat \<Rightarrow> nat \<Rightarrow> syscall_state \<Rightarrow> (int result \<times> syscall_state) run" where
  "CreateProcess path argument dir pib a d s = bindr (bindr (sv_of_cstr path) pv_is_valid) (\<lambda>valid.
     if \<not> valid then Inr (ResultError ERROR_INVALID_PARAMETER, s)
     else bindr (resolve_user_path path s) (\<lambda>absolute_path. bindr (check_exitsts (ks_vfs (ss_kernel s)) absolute_path) (\<lambda>exists.
       if \<not> exists then Inr (ResultError ERROR_FILE_DOES_NOT_EXIST, s)
       else bindr (sv_of_cstr (case argument of None \<Rightarrow> literal [] | Some p \<Rightarrow> p)) (\<lambda>arg.
         bindr (create_new_process absolute_path arg UserProcess dir pib a (ss_kernel s)) (\<lambda>k. bindr (process_at k a) (\<lambda>process.
         bindr (OpenProcess (pr_pid process) d (s\<lparr>ss_kernel := k\<rparr>)) (\<lambda>(fp, s1). assert_then (\<not> is_error fp)
           (bindr (result_value fp) (\<lambda>n. Inr (Result n, s1))))))))))"

definition CreateThread :: "int result" where
  "CreateThread = Result 0"

definition TerminateThread :: "int result" where
  "TerminateThread = Result 0"

text \<open>\<open>Handle(-1)\<close> is the caller itself, which does not come back from the yield that follows.\<close>

definition TerminateProcess :: "nat \<Rightarrow> int \<Rightarrow> syscall_state \<Rightarrow> (int result \<times> syscall_state) run" where
  "TerminateProcess handle status s = (if handle = sz_range - 1
     then bindr (terminate status (ss_current s) (ss_kernel s)) (\<lambda>k. Inr (Result 0, s\<lparr>ss_kernel := k\<rparr>))
     else bindr (current_handles s) (\<lambda>h. bindr (check_handle handle h) (\<lambda>t.
       if t \<noteq> ProcessHandle then Inr (ResultError ERROR_INVALID_HANDLE, s)
       else bindr (get_process_description handle h) (\<lambda>a. bindr (terminate status a (ss_kernel s)) (\<lambda>k. Inr (Result 0, s\<lparr>ss_kernel := k\<rparr>))))))"

text \<open>The status of a process is not set before it is terminated.\<close>

definition WaitSignal :: "nat \<Rightarrow> syscall_state \<Rightarrow> int result option run" where
  "WaitSignal handle s = bindr (current_handles s) (\<lambda>h. bindr (check_handle handle h) (\<lambda>t.
     if t \<noteq> ProcessHandle then Inr (Some (ResultError ERROR_INVALID_HANDLE))
     else bindr (get_process_description handle h) (\<lambda>a. bindr (wait_for_signal a (ss_kernel s)) (\<lambda>r. case r of
       None \<Rightarrow> Inr None | Some None \<Rightarrow> Inl Lifetime | Some (Some status) \<Rightarrow> Inr (Some (Result status))))))"

definition SleepCall :: "size_t \<Rightarrow> tasking \<Rightarrow> (int result \<times> tasking) run" where
  "SleepCall ms t = bindr (thread_sleep t (k_current t) ms) (\<lambda>t1. Inr (Result 0, t1))"

section \<open>Memory\<close>

definition VirtualAlloc :: "nat \<Rightarrow> size_t \<Rightarrow> nat \<Rightarrow> memory \<Rightarrow> (int result \<times> memory) run" where
  "VirtualAlloc address sz flags m = bindr (if address \<noteq> 0 then memory_alloc m address sz (flags OR PAGE_USER) else memory_alloc m 0 sz (flags OR PAGE_USER)) (\<lambda>(a, m1).
     Inr (Result (to_int a), m1))"

definition VirtualFree :: "nat \<Rightarrow> size_t \<Rightarrow> memory \<Rightarrow> (int result \<times> memory) run" where
  "VirtualFree address sz m = bindr (memory_free m address sz) (\<lambda>m1. Inr (Result 0, m1))"

definition QueryProcessList :: "int result" where
  "QueryProcessList = Result (int ERROR_ACCESS_DENIED)"

section \<open>Dispatch\<close>

datatype routine = OpenFileR | ReadFileR | WriteFileR | QueryDirectoryR | CloseHandleR | SleepR | YieldR | CreateThreadR
  | CreateProcessR | OpenProcessR | TerminateProcessR | TerminateThreadR | WaitSignalR | VirtualAllocR | VirtualFreeR | QueryFileInformationR

definition systemcalls_routines :: "routine list" where
  "systemcalls_routines = [OpenFileR, ReadFileR, WriteFileR, QueryDirectoryR, CloseHandleR, SleepR, YieldR, CreateThreadR,
     CreateProcessR, OpenProcessR, TerminateProcessR, TerminateThreadR, WaitSignalR, VirtualAllocR, VirtualFreeR, QueryFileInformationR]"

definition syscalls_count :: nat where
  "syscalls_count = length systemcalls_routines"

definition get_syscall_routine :: "32 word \<Rightarrow> routine option run" where
  "get_syscall_routine num = (if unat num < syscalls_count then bindr (arr_get systemcalls_routines (unat num)) (\<lambda>r. Inr (Some r)) else Inr None)"

text \<open>\<open>call\<close> is the call through the function pointer, with the five parameters as the registers have them.\<close>

definition systemcall_handler :: "(routine \<Rightarrow> 32 word list \<Rightarrow> 's \<Rightarrow> (int result \<times> 's) run) \<Rightarrow> isr_frame \<Rightarrow> 's \<Rightarrow> (isr_frame \<times> 's) run" where
  "systemcall_handler call frame s = bindr (get_syscall_routine (syscall_num frame)) (\<lambda>r. case r of
     None \<Rightarrow> Inl PanicCalled
   | Some routine \<Rightarrow> bindr (call routine [syscall_param1 frame, syscall_param2 frame, syscall_param3 frame, syscall_param4 frame, syscall_param5 frame] s) (\<lambda>(ret, s1).
       let frame1 = set_return_value frame (of_nat (result_error ret)) in
       if is_error ret then Inr (set_return_arg1 frame1 0, s1)
       else bindr (result_value ret) (\<lambda>v. Inr (set_return_arg1 frame1 (of_int v), s1))))"

section \<open>Properties\<close>


text \<open>The handle tables as the calls see them.\<close>

lemma current_handles_law: "living (ss_current s) (ss_kernel s) p \<Longrightarrow> current_handles s = Inr (pr_handles p)"
  by (simp add: current_handles_def living_def process_at_Some)

lemma living_handles_wf: "kernel_wf k \<Longrightarrow> living c k p \<Longrightarrow> handles_wf (pr_handles p)"
  using kernel_invD(1) by (auto simp: kernel_wf_def living_def)

definition handle_type_of :: "process \<Rightarrow> nat \<Rightarrow> handle_type" where
  "handle_type_of p i = (if i < length (slots (pr_handles p)) then slot_type (slots (pr_handles p) ! i) else InvalidHandle)"

lemma check_handle_of: "handles_wf (pr_handles p) \<Longrightarrow> check_handle i (pr_handles p) = Inr (handle_type_of p i)"
  using get_description_law(1) [of "pr_handles p" i] by (auto simp: handle_type_of_def check_handle_def)

lemma file_handle_slot: "handle_type_of p i = FileHandle \<Longrightarrow> \<exists>d. i < length (slots (pr_handles p)) \<and> slots (pr_handles p) ! i = FileSlot d"
  by (cases "slots (pr_handles p) ! i") (auto simp: handle_type_of_def slot_type_def split: if_splits)

lemma process_handle_slot: "handle_type_of p i = ProcessHandle \<Longrightarrow> \<exists>a. i < length (slots (pr_handles p)) \<and> slots (pr_handles p) ! i = ProcessSlot a"
  by (cases "slots (pr_handles p) ! i") (auto simp: handle_type_of_def slot_type_def split: if_splits)


section \<open>A path of the caller\<close>

text \<open>The text of an absolute path with its terminator.\<close>

definition user_path :: "cptr \<Rightarrow> u8 list list \<Rightarrow> bool" where
  "user_path path cs = (path_ok cs \<and> 0 \<notin> set (join cs) \<and> reads path (path_text True cs @ [0]))"

lemma user_path_law:
  assumes "user_path path cs" "living (ss_current s) (ss_kernel s) p"
  shows "bindr (sv_of_cstr path) pv_is_valid = Inr True" "\<exists>pv. resolve_user_path path s = Inr pv \<and> pv_rep pv cs []"
proof -
  let ?t = "path_text True cs"
  have r: "reads path (?t @ [0])" "path_ok cs" using assms(1) by (simp_all add: user_path_def)
  have l: "length ?t + 1 < sz_range" "0 \<notin> set ?t" using assms(1) by (auto simp: user_path_def path_ok_def path_text_def lead_def SPLITER_def)
  have n: "fst path \<noteq> None" using r(1) by (cases path; cases "fst path") auto
  let ?v = "\<lparr>sv_size = length ?t, sv_data = path\<rparr>"
  have v: "sv_of_cstr path = Inr ?v" using strlen_law [OF r(1) l(2)] l(1) n by (simp add: sv_of_cstr_def)
  have rep: "sv_rep ?v ?t" using reads_take [OF r(1), of "length ?t"] l(1) n by (simp add: sv_rep_def)
  show "bindr (sv_of_cstr path) pv_is_valid = Inr True" using is_valid_law [OF r(2) rep] v by simp
  obtain pv where "pv_new ?v = Inr pv" "pv_rep pv cs []" "pv_type pv = Absolute" using pv_new_law [OF r(2) rep] by (auto simp: ok_iff)
  then show "\<exists>pv. resolve_user_path path s = Inr pv \<and> pv_rep pv cs []"
    using v assms(2) by (simp add: resolve_user_path_def pv_of_cstr_def resolve_path_def living_def process_at_Some)
qed

lemma lookup_law:
  assumes "vfs_wf v" "pv_rep path cs ds"
  shows "open_existing_node v path = Inr (resolve v (cs @ ds))" "check_exitsts v path = Inr (\<exists>i. resolve v (cs @ ds) = Result i)"
proof -
  show o: "open_existing_node v path = Inr (resolve v (cs @ ds))"
    using traverse_node_law [OF assms] resolve_error [of v "cs @ ds"] by (cases "resolve v (cs @ ds)") (auto simp: open_existing_node_def)
  then show "check_exitsts v path = Inr (\<exists>i. resolve v (cs @ ds) = Result i)" using resolve_error [of v "cs @ ds"]
    by (cases "resolve v (cs @ ds)") (auto simp: get_node_def check_exitsts_def OF_OPEN_EXISTING_def OF_CREATE_NEW_def)
qed

lemma kernel_wf_vfs: "kernel_wf k \<Longrightarrow> vfs_wf (ks_vfs k)"
  by (simp add: kernel_wf_def kernel_inv_def Let_def fds_ok_def)

text \<open>
  A file that does not exist cannot be created: whatever the mode and the flags, opening a path that
  leads to no node answers \<open>ERROR_FILE_DOES_NOT_EXIST\<close> and changes nothing, \<open>OF_CREATE_NEW\<close> included.
\<close>

theorem open_file_never_creates:
  assumes "kernel_wf (ss_kernel s)" "living (ss_current s) (ss_kernel s) p" "user_path path cs" "resolve (ks_vfs (ss_kernel s)) cs = ResultError e"
  shows "OpenFile path mode flags d s = Inr (ResultError ERROR_FILE_DOES_NOT_EXIST, s)"
proof -
  obtain pv where "resolve_user_path path s = Inr pv" "pv_rep pv cs []" using user_path_law(2) [OF assms(3,2)] by blast
  then show ?thesis using user_path_law(1) [OF assms(3,2)] lookup_law(2) [OF kernel_wf_vfs [OF assms(1)], of pv cs "[]"] assms(4) by (simp add: OpenFile_def)
qed

section \<open>Opening and reading a file\<close>

lemma open_inode_law:
  assumes "vfs_wf v" "pv_rep path cs ds" "resolve v (cs @ ds) = Result i" "fn_class (v_nodes v ! i) = INode data ch"
  shows "fd_open v path mode OF_OPEN_EXISTING = Inr (Result \<lparr>fd_type = fn_type (v_nodes v ! i), fd_mode = mode, fd_node = i, fd_current_position = 0\<rparr>, v)"
proof -
  have "i < length (v_nodes v)" by (rule resolve_bound [OF assms(1,3)])
  moreover have "get_node v path mode OF_OPEN_EXISTING = Inr (Result i, v)" using lookup_law(1) [OF assms(1,2)] assms(3) by (simp add: get_node_def OF_OPEN_EXISTING_def OF_CREATE_NEW_def)
  ultimately show ?thesis using assms(4) by (simp add: fd_open_def fd_new_def node_open_def node_at_ok)
qed

lemma to_int_small: "n < sz_range div 2 \<Longrightarrow> to_int n = int n"
  by (simp add: to_int_def)

lemma new_slot:
  assumes "handles_wf h" "slots h = xs @ [x]"
  shows "check_handle (length xs) h = Inr (slot_type x)" "get_file_description (length xs) h = (case x of FileSlot d \<Rightarrow> Inr d | _ \<Rightarrow> Inl AssertFailed)"
    "get_process_description (length xs) h = (case x of ProcessSlot a \<Rightarrow> Inr a | _ \<Rightarrow> Inl AssertFailed)"
proof -
  have l: "length xs < length (slots h)" "slots h ! length xs = x" unfolding assms(2) by simp_all
  show "check_handle (length xs) h = Inr (slot_type x)" "get_file_description (length xs) h = (case x of FileSlot d \<Rightarrow> Inr d | _ \<Rightarrow> Inl AssertFailed)"
    "get_process_description (length xs) h = (case x of ProcessSlot a \<Rightarrow> Inr a | _ \<Rightarrow> Inl AssertFailed)"
    using get_description_law [OF assms(1) l(1)] unfolding l(2) by simp_all
qed

text \<open>
  (C13) From a path to the bytes of a file: opening an absolute path of a file of the archive gives the next
  handle of the process, and reading from it into a view of at most the size of the file stores the
  first bytes of the file there and returns their number.
\<close>

theorem open_and_read_file:
  assumes "kernel_wf (ss_kernel s)" "living (ss_current s) (ss_kernel s) p" "user_path path cs" "resolve (ks_vfs (ss_kernel s)) cs = Result i"
    and "fn_class (v_nodes (ks_vfs (ss_kernel s)) ! i) = INode data ch" "reads data bytes" "length bytes = fn_size (v_nodes (ks_vfs (ss_kernel s)) ! i)"
    and "bytes \<noteq> []" "length bytes < sz_range div 2" "writable dest st" "bv_size dest \<le> length bytes"
    and "d \<noteq> 0" "d \<notin> live_addresses (pr_handles p)" "length (slots (pr_handles p)) < sz_range div 2"
  shows "\<exists>s1 dest'. OpenFile path OM_READ OF_OPEN_EXISTING d s = Inr (Result (int (length (slots (pr_handles p)))), s1) \<and>
     ReadFile (length (slots (pr_handles p))) dest s1 = Inr (Some (Result (int (bv_size dest)), dest'), s1) \<and>
     reads (bv_data dest') (take (bv_size dest) bytes)"
proof -
  let ?k = "ss_kernel s" and ?c = "ss_current s" and ?v = "ks_vfs (ss_kernel s)" and ?h = "length (slots (pr_handles p))"
  let ?d = "\<lparr>fd_type = fn_type (v_nodes ?v ! i), fd_mode = OM_READ, fd_node = i, fd_current_position = 0\<rparr>"
  have wf: "vfs_wf ?v" "handles_wf (pr_handles p)" "i < length (v_nodes ?v)"
    using kernel_wf_vfs [OF assms(1)] living_handles_wf [OF assms(1,2)] resolve_bound [OF kernel_wf_vfs [OF assms(1)] assms(4)] by simp_all
  obtain pv where pv: "resolve_user_path path s = Inr pv" "pv_rep pv cs []" using user_path_law(2) [OF assms(3,2)] by blast
  obtain h where h: "add_file_handle (d, ?d) (pr_handles p) = (?h, h)" "handles_wf h" "slots h = slots (pr_handles p) @ [FileSlot ?d]"
    using add_file_handle_law [OF wf(2) assms(12), of ?d] assms(13) by (auto simp: live_addresses_def)
  have m: "map_of (ks_processes ?k) ?c = Some p" using assms(2) by (simp add: living_def)
  let ?s = "s\<lparr>ss_kernel := set_process ?c (p\<lparr>pr_handles := h\<rparr>) ?k\<rparr>"
  have "open_file_handle ?c d pv OM_READ OF_OPEN_EXISTING ?k = Inr (Result ?h, set_process ?c (p\<lparr>pr_handles := h\<rparr>) ?k)"
    using open_inode_law [OF wf(1) pv(2), of i data ch OM_READ] assms(4,5) h(1) process_at_Some [OF m] by (simp add: open_file_handle_def)
  then have o: "OpenFile path OM_READ OF_OPEN_EXISTING d s = Inr (Result (int ?h), ?s)"
    using user_path_law(1) [OF assms(3,2)] pv(1) lookup_law(2) [OF wf(1) pv(2)] assms(4,14) by (simp add: OpenFile_def int_result_def to_int_small)
  have c: "current_handles ?s = Inr h" using m by (simp add: current_handles_def process_at_Some set_process_map_of)
  have g: "check_handle ?h h = Inr FileHandle" "get_file_description ?h h = Inr ?d"
    using new_slot [OF h(2,3)] by (simp_all add: slot_type_def del: length_slots)
  obtain dest' where f: "fd_read ?d dest ?v = Inr (Some (Result (bv_size dest), dest'), ?v)" "reads (bv_data dest') (take (bv_size dest) bytes)"
    using file_read_start [of ?d ?v data ch bytes dest st] wf(3) assms(5-11) by auto
  have "ReadFile ?h dest ?s = Inr (Some (Result (int (bv_size dest)), dest'), set_vfs ?v ?s)"
    using c g f(1) assms(9,11) by (simp add: ReadFile_def int_result_def to_int_small)
  moreover have "set_vfs ?v ?s = ?s" by (simp add: set_vfs_def set_process_def)
  ultimately show ?thesis using o f(2) by (intro exI [of _ ?s] exI [of _ dest']) simp
qed

section \<open>The life of a process\<close>

lemma set_process_fst [simp]: "map fst (ks_processes (set_process a q k)) = map fst (ks_processes k)"
  by (auto simp: set_process_def comp_def case_prod_beta)

lemma filter_fst: "map fst (filter (\<lambda>(b, _). b \<noteq> a) ps) = filter (\<lambda>b. b \<noteq> a) (map fst ps)"
  by (induction ps) auto

lemma release_last:
  assumes "map_of (ks_processes k) a = Some z" "pr_state z = Zombie" "pr_descriptor_references z = 1" "pr_handles z = handles_new" "descriptor_dereferenced a k = Inr k'"
  shows "map fst (ks_processes k') = filter (\<lambda>b. b \<noteq> a) (map fst (ks_processes k))"
proof -
  obtain n where n: "length (ks_processes k) = Suc n" using assms(1) by (cases "ks_processes k") auto
  let ?k = "set_process a (z\<lparr>pr_descriptor_references := 0\<rparr>) k"
  have "process_at ?k a = Inr (z\<lparr>pr_descriptor_references := 0\<rparr>)" using assms(1) by (intro process_at_Some) (simp add: set_process_map_of)
  then have "process_destroy (dereference n) (z\<lparr>pr_descriptor_references := 0\<rparr>) (?k\<lparr>ks_processes := filter (\<lambda>(b, _). b \<noteq> a) (ks_processes ?k)\<rparr>) = Inr k'"
    using assms process_at_Some [OF assms(1)] by (simp add: descriptor_dereferenced_def n cleanup_def sz_sub_eq Let_def)
  then have "ks_processes k' = filter (\<lambda>(b, _). b \<noteq> a) (ks_processes ?k)"
    using assms(4) by (auto simp: process_destroy_def handles_new_def assert_then_def split: if_splits elim!: bindr_InrE)
  then show ?thesis by (simp only: filter_fst set_process_fst)
qed

lemma close_process_slot:
  assumes "handles_wf (pr_handles p)" "map_of (ks_processes k) c = Some p" "slots (pr_handles p) = xs @ [ProcessSlot a]" "close_process_handle c (length xs) k = Inr k'"
  shows "\<exists>h. descriptor_dereferenced a (set_process c (p\<lparr>pr_handles := h\<rparr>) k) = Inr k'"
proof -
  have "length xs < length (slots (pr_handles p))" "slots (pr_handles p) ! length xs = ProcessSlot a" unfolding assms(3) by simp_all
  from remove_process_law [OF assms(1) this] obtain h where "remove_handle (length xs) (pr_handles p) = Inr ([], [a], h)" by blast
  then show ?thesis using assms(4) process_at_Some [OF assms(2)] by (auto simp: close_process_handle_def elim!: bindr_InrE)
qed

text \<open>What a created and opened process looks like to its creator.\<close>

lemma spawn_law:
  assumes "kernel_wf (ss_kernel s)" "living (ss_current s) (ss_kernel s) p" "user_path path cs" "resolve (ks_vfs (ss_kernel s)) cs = Result i"
    and "length (path_text True cs) < 512" "ub_path_data pib = Some pb" "length pb = 512" "ub_argument_data pib = Some ab" "length ab = 512"
    and "fresh_process a (ss_kernel s)" "d \<noteq> 0" "d \<notin> live_addresses (pr_handles p)" "length (slots (pr_handles p)) < sz_range div 2"
    and "size (all_refs (ks_processes (ss_kernel s))) + 1 < sz_range"
  shows "\<exists>k1 h q. CreateProcess path None dir pib a d s = Inr (Result (int (length (slots (pr_handles p)))), s\<lparr>ss_kernel := k1\<rparr>) \<and> kernel_wf k1 \<and>
     map fst (ks_processes k1) = map fst (ks_processes (ss_kernel s)) @ [a] \<and> handles_wf h \<and> slots h = slots (pr_handles p) @ [ProcessSlot a] \<and>
     map_of (ks_processes k1) (ss_current s) = Some (p\<lparr>pr_handles := h\<rparr>) \<and> map_of (ks_processes k1) a = Some q \<and>
     pr_state q = ReadyProcess \<and> pr_handles q = handles_new \<and> pr_descriptor_references q = 1"
proof -
  let ?k = "ss_kernel s" and ?c = "ss_current s"
  have m: "map_of (ks_processes ?k) ?c = Some p" using assms(2) by (simp add: living_def)
  have ca: "?c \<noteq> a" "a \<notin> fst ` set (ks_processes ?k)" using map_of_SomeD [OF m] assms(10) by (force simp: fresh_process_def)+
  obtain pv where pv: "resolve_user_path path s = Inr pv" "pv_rep pv cs []" using user_path_law(2) [OF assms(3,2)] by blast
  have ne: "cs \<noteq> []" using assms(3) by (auto simp: user_path_def path_ok_def)
  have "strlen (literal []) = Inr 0" using strlen_law [OF reads_literal(1) [of "[]"]] by simp
  then have e: "sv_of_cstr (literal []) = Inr \<lparr>sv_size = 0, sv_data = literal []\<rparr>" by (simp add: sv_of_cstr_def literal_def chars_def)
  have er: "sv_rep \<lparr>sv_size = 0, sv_data = literal []\<rparr> []" by (simp add: sv_rep_def reads_def literal_def chars_def)
  have l: "length (path_text True (cs @ [])) < 512" using assms(5) by simp
  obtain q b k0 where k0: "create_new_process pv \<lparr>sv_size = 0, sv_data = literal []\<rparr> UserProcess dir pib a ?k = Inr k0"
      "k0 = ?k\<lparr>ks_processes := ks_processes ?k @ [(a, q)], ks_pids := b\<rparr>" "kernel_wf k0" "pr_handles q = handles_new" "pr_descriptor_references q = 0" "pr_state q = ReadyProcess"
    using create_new_process_law [OF assms(1,10) pv(2) ne er l _ assms(6-9), where privilege = UserProcess and dir = dir] by auto
  have q: "map_of (ks_processes k0) a = Some q" using map_of_fresh [OF ca(2), of q] k0(2) by simp
  have p0: "map_of (ks_processes k0) ?c = Some p" using m k0(2) ca(1) by (simp add: single_map_add)
  have "distinct (map (pr_pid \<circ> snd) (ks_processes k0))" using k0(3) by (simp add: kernel_wf_def kernel_inv_def Let_def bmp.holds_def)
  from find_unique [OF this, of a q] have g: "get_process_from_pid (pr_pid q) k0 = Result a" using k0(2) by (simp add: get_process_from_pid_def)
  let ?q = "q\<lparr>pr_descriptor_references := 1\<rparr>"
  have r: "descriptor_referenced a k0 = Inr (set_process a ?q k0)" using process_at_Some [OF q] k0(5) by (simp add: descriptor_referenced_def sz_add_def)
  have p1: "map_of (ks_processes (set_process a ?q k0)) ?c = Some p" using p0 ca(1) by (simp add: set_process_map_of)
  obtain h where h: "add_process_handle (d, a) (pr_handles p) = (length (slots (pr_handles p)), h)" "handles_wf h" "slots h = slots (pr_handles p) @ [ProcessSlot a]"
    using add_process_handle_law [OF living_handles_wf [OF assms(1,2)] assms(11), of a] assms(12) by (auto simp: live_addresses_def)
  let ?k1 = "set_process ?c (p\<lparr>pr_handles := h\<rparr>) (set_process a ?q k0)"
  have o: "open_process_handle ?c d (pr_pid q) k0 = Inr (Result (length (slots (pr_handles p))), ?k1)"
    using g r h(1) process_at_Some [OF p1] by (simp add: open_process_handle_def process_description_open_def)
  have "size (all_refs (ks_processes k0)) + 1 < sz_range" using assms(14) k0(2,4) by (simp add: proc_refs_def handles_new_def)
  then have "kernel_wf ?k1" using open_process_handle_law [OF k0(3), of ?c p d "pr_pid q"] p0 assms(2,11,12) o by (simp add: living_def)
  moreover have "map fst (ks_processes ?k1) = map fst (ks_processes ?k) @ [a]" by (simp add: k0(2))
  moreover have "CreateProcess path None dir pib a d s = Inr (Result (int (length (slots (pr_handles p)))), s\<lparr>ss_kernel := ?k1\<rparr>)"
    using user_path_law(1) [OF assms(3,2)] pv(1) lookup_law(2) [OF kernel_wf_vfs [OF assms(1)] pv(2)] assms(4,13) e k0(1) process_at_Some [OF q] o
    by (simp add: CreateProcess_def OpenProcess_def int_result_def to_int_small)
  ultimately show ?thesis using h(2,3) p1 q ca(1) k0(4,6)
    by (intro exI [of _ ?k1] exI [of _ h] exI [of _ ?q]) (simp add: set_process_map_of)
qed


section \<open>The properties at a concrete state\<close>

text \<open>One process with no handles and the files of \<open>sample_vfs\<close>.\<close>

lemma sample_state:
  "\<exists>k p. kernel_wf k \<and> ks_processes k = [(16, p)] \<and> living 16 k p \<and> pr_handles p = handles_new \<and> ks_vfs k = sample_vfs"
proof -
  let ?n = "\<lparr>sv_size = 1, sv_data = (chars [97], 0)\<rparr>" and ?k = "processes_new sample_vfs"
  have "sv_rep ?n [97]" using reads_whole [of "[97]"] by (simp add: sv_rep_def chars_def)
  from create_virtual_process_law [OF processes_new_wf [OF sample_fds] _ this, of 16 7]
  obtain k where k: "create_virtual_process ?n 7 16 ?k = Inr k" "kernel_wf k" "ks_vfs k = sample_vfs" by (auto simp: fresh_process_def processes_new_def)
  then obtain p where p: "ks_processes k = [(16, p)]" "pr_handles p = handles_new" "pr_state p = ReadyProcess"
    by (auto simp: create_virtual_process_def virtual_process_new_def reserve_pid_def processes_new_def elim!: bindr_InrE)
  then show ?thesis using k(2,3) by (auto simp: living_def)
qed

lemma sample_user_path: "user_path (literal [47, 116, 47, 97]) [[116], [97]]" "resolve sample_vfs [[116], [97]] = Result 1"
proof -
  have "path_text True [[116], [97]] = [47, 116, 47, 97]" by (simp add: path_text_def lead_def SPLITER_def)
  then show "user_path (literal [47, 116, 47, 97]) [[116], [97]]"
    using reads_literal(1) [of "[47, 116, 47, 97]"] by (simp add: user_path_def path_ok_def SPLITER_def)
  show "resolve sample_vfs [[116], [97]] = Result 1"
    by (simp add: sample_vfs_def resolve_def node_name_def name_bytes_def chars_def dir_entry_def directory_def found_or_def)
qed

lemma no_handles [simp]: "slots handles_new = []" "live_addresses handles_new = {}"
  by (simp_all add: handles_new_wf(2)) (simp add: live_addresses_def handles_new_def)



theorem open_file_never_creates_witness:
  "\<exists>s. OpenFile (literal [47, 116, 47, 98]) OM_READ OF_CREATE_NEW 32 s = Inr (ResultError ERROR_FILE_DOES_NOT_EXIST, s)"
proof -
  obtain k p where k: "kernel_wf k" "living 16 k p" "ks_vfs k = sample_vfs" using sample_state by blast
  have "path_text True [[116], [98]] = [47, 116, 47, 98]" by (simp add: path_text_def lead_def SPLITER_def)
  then have u: "user_path (literal [47, 116, 47, 98]) [[116], [98]]"
    using reads_literal(1) [of "[47, 116, 47, 98]"] by (simp add: user_path_def path_ok_def SPLITER_def)
  have "resolve sample_vfs [[116], [98]] = ResultError ERROR_FILE_DOES_NOT_EXIST"
    by (simp add: sample_vfs_def resolve_def node_name_def name_bytes_def chars_def dir_entry_def directory_def found_or_def)
  then show ?thesis using open_file_never_creates [of "\<lparr>ss_kernel = k, ss_current = 16\<rparr>" p, OF _ _ u] k
    by (intro exI [of _ "\<lparr>ss_kernel = k, ss_current = 16\<rparr>"]) simp
qed

theorem open_and_read_file_witness:
  "\<exists>s s1 dest'. OpenFile (literal [47, 116, 47, 97]) OM_READ OF_OPEN_EXISTING 32 s = Inr (Result 0, s1) \<and>
     ReadFile 0 (recv_view 1) s1 = Inr (Some (Result 1, dest'), s1) \<and> reads (bv_data dest') [7]"
proof -
  obtain k p where k: "kernel_wf k" "living 16 k p" "pr_handles p = handles_new" "ks_vfs k = sample_vfs" using sample_state by blast
  have "reads (chars [7, 8], 0) [7, 8]" by (rule reads_whole)
  moreover have "writable (recv_view 1) (replicate 1 0)" by (simp add: writable_def recv_view_def bv_raw_def)
  moreover have "fn_class (v_nodes sample_vfs ! 1) = INode (chars [7, 8], 0) []" "fn_size (v_nodes sample_vfs ! 1) = 2" by (simp_all add: sample_vfs_def)
  ultimately show ?thesis
    using open_and_read_file [of "\<lparr>ss_kernel = k, ss_current = 16\<rparr>" p "literal [47, 116, 47, 97]" "[[116], [97]]" 1 "(chars [7, 8], 0)" "[]" "[7, 8]" "recv_view 1" "replicate 1 0" 32]
      k sample_user_path by (auto simp del: length_slots)
qed


end
