(* ===== verification/Spec2Isabelle.thy ===== *)
theory Spec2Isabelle
  imports Circular_Buffer Stack_Container Vector_Container Bitmaps Virtual_Memory
    Linked_List Intrusive_List Cpu_Tables Threads Scheduling Synchronization Paths
    Heap_Memory Ip_Layer Datagrams Tcp Dhcp Dns System_Calls
begin

text \<open>
  A verification development of the CyanOS kernel (\<^verbatim>\<open>src/src\<close>): a 32-bit x86 kernel with its own
  standard library, memory management, threads, a network stack and a file system, written in C++.

  \<^bold>\<open>Parts of the program and how they interact.\<close> The standard library (\<^verbatim>\<open>libraries/stdlib\<close>) has the
  containers, strings, paths, buffers and results everything else uses. Memory management
  (\<^verbatim>\<open>kernel/virtual_memory\<close>, \<^verbatim>\<open>kernel/arch/x86/paging\<close>) hands out frames (\<^verbatim>\<open>PhysicalMemory\<close>), pages
  (\<^verbatim>\<open>VirtualMemory\<close>, \<^verbatim>\<open>Paging\<close>), address ranges (\<^verbatim>\<open>Memory\<close>) and heap blocks (\<^verbatim>\<open>Heap\<close> over the slab
  allocators); each level calls the one below. Tasking (\<^verbatim>\<open>kernel/tasking\<close>) keeps threads in intrusive
  lists by state; the timer and the wait queues move them, the scheduler switches between them through
  the context and the descriptor tables of \<^verbatim>\<open>kernel/arch/x86\<close>. Spinlocks turn interrupts off, semaphores and
  mutexes block on wait queues. The network stack (\<^verbatim>\<open>kernel/network\<close>) passes frames up from Ethernet to
  ARP and IPv4 and on to ICMP, UDP and TCP, which the DHCP and DNS clients use; callers block on wait
  queues until a segment arrives. The file system (\<^verbatim>\<open>kernel/filesystem\<close>) finds nodes by path and gives a
  process handles for them.

  \<^bold>\<open>How code is modelled.\<close> A call that can fail an assertion, touch memory it must not touch or use an
  object outside its lifetime is a function into \<^typ>\<open>'a run\<close> (\<^verbatim>\<open>Prelude\<close>): \<open>Inl\<close> of the fault, or \<open>Inr\<close> of the
  result and the new state. Storage is a block of slots, each raw or with a live object, so that reads
  before a construction and accesses out of range are faults. \<^verbatim>\<open>size_t\<close> is a natural number with the
  wrap-around of \<open>sz_add\<close>, \<open>sz_sub\<close> and \<open>sz_mul\<close> written out; registers and protocol fields are words of
  their width. Objects that refer to each other live in an explicit heap, addressed by numbers. A call
  that blocks is split where it waits, or is a resumption that stops there (\<^verbatim>\<open>Tcp\<close>); what it does to
  others (frames sent, waiters woken) is a log of the state. Spinlock sections run with interrupts off on
  the one processor and are single steps.

  \<^bold>\<open>Theories.\<close>
  \<^item> \<^verbatim>\<open>Prelude\<close>: faults, runs, sizes, blocks, bounded loops and their proof rules, the collections
    \<open>run_simps\<close> and \<open>run_elims\<close>. \<^verbatim>\<open>Interfaces\<close>: the contracts of the containers as locales (a bounded queue,
    an editable sequence and others); the containers interpret them. \<^verbatim>\<open>Chains\<close>, \<^verbatim>\<open>Bit_Scan\<close>: pointer
    chains and bit scans that several components share.
  \<^item> \<^verbatim>\<open>Circular_Buffer\<close>, \<^verbatim>\<open>Stack_Container\<close>, \<^verbatim>\<open>Vector_Container\<close>, \<^verbatim>\<open>Linked_List\<close>, \<^verbatim>\<open>Intrusive_List\<close>,
    \<^verbatim>\<open>Bitmaps\<close>: \<^verbatim>\<open>circular_buffer.h\<close>, \<^verbatim>\<open>stack.h\<close>, \<^verbatim>\<open>vector.h\<close>, \<^verbatim>\<open>list.h\<close>, \<^verbatim>\<open>intrusive_list.h\<close>, \<^verbatim>\<open>bitmap.cpp\<close>
    and \<^verbatim>\<open>static_bitmap.h\<close>. Each has the constructors, assignments and operations of its class, a
    representation predicate and a refinement of the list it stands for.
  \<^item> \<^verbatim>\<open>Clib\<close>, \<^verbatim>\<open>Strings\<close>, \<^verbatim>\<open>Paths\<close>: \<^verbatim>\<open>clib.cpp\<close>, \<^verbatim>\<open>string.cpp\<close>, \<^verbatim>\<open>string_view.cpp\<close>, \<^verbatim>\<open>path_view.cpp\<close>: the
    C functions on ranges, strings as lists of bytes under every sequence of edits, searching, and the
    elements of a path. \<^verbatim>\<open>Buffers\<close>, \<^verbatim>\<open>Results\<close>: \<^verbatim>\<open>buffer.cpp\<close>, \<^verbatim>\<open>buffer_view.cpp\<close>,
    \<^verbatim>\<open>buffer_mutable_view.cpp\<close>, \<^verbatim>\<open>result.h\<close>, \<^verbatim>\<open>error_codes.h\<close>.
  \<^item> \<^verbatim>\<open>Physical_Memory\<close>, \<^verbatim>\<open>Paging\<close>, \<^verbatim>\<open>Virtual_Memory\<close>, \<^verbatim>\<open>Heap_Memory\<close>: \<^verbatim>\<open>physical.cpp\<close>, \<^verbatim>\<open>paging.cpp\<close>,
    \<^verbatim>\<open>virtual.cpp\<close> with \<^verbatim>\<open>memory.cpp\<close>, \<^verbatim>\<open>heap.cpp\<close> with \<^verbatim>\<open>slab_allocator.h\<close>: first fit of frames, the
    translation of addresses, the boot mapping, allocations that share no memory, and the invariant of the
    memory manager and of the heap.
  \<^item> \<^verbatim>\<open>Cpu_Tables\<close>: \<^verbatim>\<open>gdt.cpp\<close>, \<^verbatim>\<open>idt.cpp\<close>, \<^verbatim>\<open>isr.cpp\<close>, \<^verbatim>\<open>pic.cpp\<close>, \<^verbatim>\<open>context.cpp\<close>. \<^verbatim>\<open>Threads\<close>,
    \<^verbatim>\<open>Scheduling\<close>: \<^verbatim>\<open>thread.cpp\<close>, \<^verbatim>\<open>wait_queue.cpp\<close>, \<^verbatim>\<open>scheduler.cpp\<close>, \<^verbatim>\<open>pit.cpp\<close>; the step relation of the
    tasking state, the invariant that every thread is in exactly the list of its state, the timer and
    round robin. \<^verbatim>\<open>Synchronization\<close>: spinlocks, semaphores, mutexes; mutual exclusion over all runs.
  \<^item> \<^verbatim>\<open>Network_Bytes\<close>, \<^verbatim>\<open>Ip_Layer\<close>, \<^verbatim>\<open>Datagrams\<close>, \<^verbatim>\<open>Tcp\<close>, \<^verbatim>\<open>Dhcp\<close>, \<^verbatim>\<open>Dns\<close>: byte order, addresses and the
    internet checksum; Ethernet, \<^verbatim>\<open>arp.cpp\<close> and \<^verbatim>\<open>ipv4.cpp\<close>; \<^verbatim>\<open>udp.cpp\<close> and \<^verbatim>\<open>icmp.cpp\<close>; \<^verbatim>\<open>tcp.cpp\<close>; the
    clients \<^verbatim>\<open>dhcp.cpp\<close> and \<^verbatim>\<open>dns.cpp\<close>. The theorems follow a payload from one host to the other, a
    connection from its SYN to its data, a lease and a name lookup.
  \<^item> \<^verbatim>\<open>Fs_Definitions\<close>, \<^verbatim>\<open>Pipes\<close>, \<^verbatim>\<open>Terminal\<close>, \<^verbatim>\<open>File_System\<close>, \<^verbatim>\<open>File_Descriptions\<close>: pipes and connections as
    byte streams over the circular buffer (\<^verbatim>\<open>pipe.cpp\<close>, \<^verbatim>\<open>connection.cpp\<close>); \<^verbatim>\<open>keyboard.cpp\<close> and
    \<^verbatim>\<open>console.cpp\<close>; the nodes and \<^verbatim>\<open>virtual_filesystem.cpp\<close>, where looking up a path is the walk over its
    names; \<^verbatim>\<open>file_description.cpp\<close> with positions, reads and opens.
  \<^item> \<^verbatim>\<open>Handles\<close>, \<^verbatim>\<open>Processes\<close>, \<^verbatim>\<open>System_Calls\<close>: \<^verbatim>\<open>handles_manager.cpp\<close> as a list of typed slots;
    \<^verbatim>\<open>process.cpp\<close> and \<^verbatim>\<open>process_description.cpp\<close>, with the invariant that ties references, identifiers, handles
    and open files together over every sequence of calls; \<^verbatim>\<open>system_call.cpp\<close>: the dispatch, the checks of
    handles, a file from its path to its bytes, and the life of a process.

  \<^bold>\<open>Bounds and fuel.\<close> Loops over data recurse on it or have a measure. Fuel stands where a loop need not
  end: the spin of a lock (a held lock is proved never to be acquired, for every fuel), the walk over the
  slabs of an allocator (a chain of n slabs needs n + 2 rounds, and the theorem gives that much), the wait for
  missing segments of \<^verbatim>\<open>Tcp\<close> (one per wake-up), the walks over DHCP options (one per option; the walk for
  the message type is proved stuck for every fuel on an option of size 0) and over the dots of a name
  (the length of the name is proved to be enough). Sizes are bounded by the range of \<^verbatim>\<open>size_t\<close>, packets by
  65535 bytes.

  \<^bold>\<open>Not modelled.\<close> Port input and output and the code that is nothing else (PCI, the network card, the
  clock, the debug port), assembly (the bodies of the context switch and of the interrupt stubs are
  their documented effect on the registers), boot information, the ELF and PE parsers and
  the user programs. The manifest lists each part with its status.
\<close>

end
